(* ===== verification/Prelude.thy ===== *)
theory Prelude
  imports Main "HOL-Library.Word" "HOL-Library.Char_ord" "HOL-Library.List_Lexorder"
begin

text \<open>
  What every component of the development shares: the machine integer types of the Rust
  sources, results with early return, checked arithmetic, strings as UTF-8 byte sequences,
  big-endian integers, and \<^verbatim>\<open>BTreeMap\<close> as a key-sorted association list behind the
  interface \<open>ordered_map\<close>.

  Conventions of the translation. A Rust \<^verbatim>\<open>u8/u32/u64\<close> is a word of that width and an
  \<^verbatim>\<open>i32/i64\<close> is a word read with \<^term>\<open>sint\<close>; \<^verbatim>\<open>usize\<close> (64 bits) is a \<^typ>\<open>nat\<close> and the
  places where the source checks its bound say so. A \<^verbatim>\<open>String\<close> is a \<^typ>\<open>string\<close> whose
  characters are the bytes of its UTF-8 form, so \<^verbatim>\<open>len()\<close> is \<^term>\<open>length\<close> and Rust's
  byte-wise string order is the lexicographic order of the character codes. A fallible
  function returns a sum, \<^term>\<open>Inl\<close> for \<^verbatim>\<open>Err\<close> and \<^term>\<open>Inr\<close> for \<^verbatim>\<open>Ok\<close>; the
  question mark operator is \<open>and_then\<close>.
\<close>

unbundle bit_operations_syntax

named_theorems result_simps \<open>unfolding of successful results\<close>
named_theorems codec_simps \<open>decoders applied to encodings\<close>
named_theorems codec_dests \<open>successful decodings consume the encoding\<close>

section \<open>Machine integers\<close>

type_synonym byte = "8 word"
type_synonym u16 = "16 word"
type_synonym u32 = "32 word"
type_synonym u64 = "64 word"
type_synonym i32 = "32 word"
type_synonym i64 = "64 word"

definition checked_add :: "'a::len word \<Rightarrow> 'a word \<Rightarrow> 'a word option" where
  "checked_add a b = (if unat a + unat b < 2 ^ LENGTH('a) then Some (a + b) else None)"

definition checked_sub :: "'a::len word \<Rightarrow> 'a word \<Rightarrow> 'a word option" where
  "checked_sub a b = (if unat b \<le> unat a then Some (a - b) else None)"

definition checked_mul :: "'a::len word \<Rightarrow> 'a word \<Rightarrow> 'a word option" where
  "checked_mul a b = (if unat a * unat b < 2 ^ LENGTH('a) then Some (a * b) else None)"

text \<open>\<^verbatim>\<open>u32::try_from\<close> of a wider value, and \<^verbatim>\<open>u32 as u64\<close>.\<close>

definition u32_try_from :: "u64 \<Rightarrow> u32 option" where
  "u32_try_from v = (if unat v < 2 ^ 32 then Some (ucast v) else None)"

definition u64_from_u32 :: "u32 \<Rightarrow> u64" where
  "u64_from_u32 v = ucast v"

definition is_power_of_two :: "'a::len word \<Rightarrow> bool" where
  "is_power_of_two w = (w \<noteq> 0 \<and> w AND (w - 1) = 0)"

text \<open>The largest value of \<^verbatim>\<open>usize\<close> plus one; every slice is shorter.\<close>

definition usize_bound :: nat where
  "usize_bound = 2 ^ 64"

definition usize_checked_add :: "nat \<Rightarrow> nat \<Rightarrow> nat option" where
  "usize_checked_add a b = (if a + b < usize_bound then Some (a + b) else None)"

definition usize_checked_mul :: "nat \<Rightarrow> nat \<Rightarrow> nat option" where
  "usize_checked_mul a b = (if a * b < usize_bound then Some (a * b) else None)"

text \<open>\<^verbatim>\<open>usize::try_from(u64)\<close> and \<^verbatim>\<open>usize as u64\<close> on a 64-bit platform.\<close>

definition usize_try_from :: "u64 \<Rightarrow> nat option" where
  "usize_try_from v = (if unat v < usize_bound then Some (unat v) else None)"

definition u64_of_usize :: "nat \<Rightarrow> u64" where
  "u64_of_usize n = word_of_nat n"

section \<open>Results\<close>

type_synonym ('e, 'a) result = "'e + 'a"

definition and_then :: "('e, 'a) result \<Rightarrow> ('a \<Rightarrow> ('e, 'b) result) \<Rightarrow> ('e, 'b) result" where
  "and_then r f = (case r of Inl e \<Rightarrow> Inl e | Inr x \<Rightarrow> f x)"

definition map_err :: "('e \<Rightarrow> 'f) \<Rightarrow> ('e, 'a) result \<Rightarrow> ('f, 'a) result" where
  "map_err g r = (case r of Inl e \<Rightarrow> Inl (g e) | Inr x \<Rightarrow> Inr x)"

definition ok_or :: "'e \<Rightarrow> 'a option \<Rightarrow> ('e, 'a) result" where
  "ok_or e x = (case x of None \<Rightarrow> Inl e | Some y \<Rightarrow> Inr y)"

text \<open>A loop that stops at the first error, and one that collects what it computes.\<close>

fun try_fold :: "('s \<Rightarrow> 'a \<Rightarrow> ('e, 's) result) \<Rightarrow> 's \<Rightarrow> 'a list \<Rightarrow> ('e, 's) result" where
  "try_fold f s [] = Inr s"
| "try_fold f s (x # xs) = and_then (f s x) (\<lambda>s'. try_fold f s' xs)"

fun try_map :: "('a \<Rightarrow> ('e, 'b) result) \<Rightarrow> 'a list \<Rightarrow> ('e, 'b list) result" where
  "try_map f [] = Inr []"
| "try_map f (x # xs) = and_then (f x) (\<lambda>y. and_then (try_map f xs) (\<lambda>ys. Inr (y # ys)))"

section \<open>Strings and bytes\<close>

definition as_bytes :: "string \<Rightarrow> byte list" where
  "as_bytes s = map of_char s"

definition string_of_bytes :: "byte list \<Rightarrow> string" where
  "string_of_bytes bs = map (\<lambda>b. char_of (unat b)) bs"

definition continuation :: "byte \<Rightarrow> bool" where
  "continuation b = (0x80 \<le> b \<and> b \<le> 0xBF)"

text \<open>\<^verbatim>\<open>std::str::from_utf8\<close>: well-formed UTF-8, with overlong forms and surrogates refused.\<close>

fun utf8_valid :: "byte list \<Rightarrow> bool" where
  "utf8_valid [] = True"
| "utf8_valid (a # bs) =
     (if a < 0x80 then utf8_valid bs
      else case bs of
        [] \<Rightarrow> False
      | b # cs \<Rightarrow>
          if 0xC2 \<le> a \<and> a \<le> 0xDF then continuation b \<and> utf8_valid cs
          else case cs of
            [] \<Rightarrow> False
          | c # ds \<Rightarrow>
              if a = 0xE0 then 0xA0 \<le> b \<and> b \<le> 0xBF \<and> continuation c \<and> utf8_valid ds
              else if a = 0xED then 0x80 \<le> b \<and> b \<le> 0x9F \<and> continuation c \<and> utf8_valid ds
              else if 0xE1 \<le> a \<and> a \<le> 0xEF
                then continuation b \<and> continuation c \<and> utf8_valid ds
              else case ds of
                [] \<Rightarrow> False
              | d # es \<Rightarrow>
                  continuation c \<and> continuation d \<and> utf8_valid es
                  \<and> (if a = 0xF0 then 0x90 \<le> b \<and> b \<le> 0xBF
                     else if a = 0xF4 then 0x80 \<le> b \<and> b \<le> 0x8F
                     else 0xF1 \<le> a \<and> a \<le> 0xF3 \<and> continuation b))"

text \<open>A Rust \<^verbatim>\<open>String\<close>: its bytes are valid UTF-8 and its length is a \<^verbatim>\<open>usize\<close>.\<close>

definition string_ok :: "string \<Rightarrow> bool" where
  "string_ok s = (utf8_valid (as_bytes s) \<and> length s < usize_bound)"

section \<open>Big-endian integers\<close>

fun to_be :: "nat \<Rightarrow> nat \<Rightarrow> byte list" where
  "to_be 0 v = []"
| "to_be (Suc n) v = to_be n (v div 256) @ [word_of_nat (v mod 256)]"

definition be_val :: "byte list \<Rightarrow> nat" where
  "be_val bs = foldl (\<lambda>acc b. acc * 256 + unat b) 0 bs"

text \<open>\<^verbatim>\<open>to_be_bytes\<close> and \<^verbatim>\<open>from_be_bytes\<close> of the unsigned types.\<close>

definition u16_to_be_bytes :: "u16 \<Rightarrow> byte list" where
  "u16_to_be_bytes w = to_be 2 (unat w)"

definition u32_to_be_bytes :: "u32 \<Rightarrow> byte list" where
  "u32_to_be_bytes w = to_be 4 (unat w)"

definition u64_to_be_bytes :: "u64 \<Rightarrow> byte list" where
  "u64_to_be_bytes w = to_be 8 (unat w)"

definition u32_from_be_bytes :: "byte list \<Rightarrow> u32" where
  "u32_from_be_bytes bs = word_of_nat (be_val bs)"

definition u64_from_be_bytes :: "byte list \<Rightarrow> u64" where
  "u64_from_be_bytes bs = word_of_nat (be_val bs)"

section \<open>Slices\<close>

text \<open>\<^verbatim>\<open>slice.get(a..b)\<close> and \<^verbatim>\<open>slice.chunks(n)\<close> for a positive \<open>n\<close>.\<close>

definition get_range :: "'a list \<Rightarrow> nat \<Rightarrow> nat \<Rightarrow> 'a list option" where
  "get_range xs a b = (if a \<le> b \<and> b \<le> length xs then Some (take (b - a) (drop a xs)) else None)"

function chunks :: "nat \<Rightarrow> 'a list \<Rightarrow> 'a list list" where
  "chunks n xs = (if xs = [] \<or> n = 0 then [] else take n xs # chunks n (drop n xs))"
  by pat_completeness auto
termination
  by (relation "measure (\<lambda>(n, xs). length xs)") auto

declare chunks.simps [simp del]

section \<open>Ordered maps\<close>

text \<open>
  A \<^verbatim>\<open>BTreeMap\<close> is the list of its entries in key order. \<open>bt_ok\<close> is the invariant the
  Rust type enforces.
\<close>

type_synonym ('k, 'v) btree = "('k \<times> 'v) list"

definition bt_ok :: "('k::linorder, 'v) btree \<Rightarrow> bool" where
  "bt_ok m = sorted_wrt (<) (map fst m)"

definition bt_get :: "('k::linorder, 'v) btree \<Rightarrow> 'k \<Rightarrow> 'v option" where
  "bt_get m k = map_of m k"

fun bt_insert :: "'k::linorder \<Rightarrow> 'v \<Rightarrow> ('k, 'v) btree \<Rightarrow> ('k, 'v) btree" where
  "bt_insert k v [] = [(k, v)]"
| "bt_insert k v ((a, b) # m) =
     (if k < a then (k, v) # (a, b) # m
      else if k = a then (k, v) # m
      else (a, b) # bt_insert k v m)"

definition bt_remove :: "'k::linorder \<Rightarrow> ('k, 'v) btree \<Rightarrow> ('k, 'v) btree" where
  "bt_remove k m = filter (\<lambda>e. fst e \<noteq> k) m"

text \<open>\<^verbatim>\<open>collect()\<close> and \<^verbatim>\<open>extend\<close>: insertion in iteration order, a later entry wins.\<close>

definition bt_extend :: "('k::linorder, 'v) btree \<Rightarrow> ('k \<times> 'v) list \<Rightarrow> ('k, 'v) btree" where
  "bt_extend m es = fold (\<lambda>(k, v). bt_insert k v) es m"


section \<open>Lemmas on results\<close>

lemma and_then_simps [simp]:
  "and_then (Inl e) f = Inl e" "and_then (Inr x) f = f x"
  by (simp_all add: and_then_def)

lemma and_then_eq_Inr [result_simps]:
  "and_then r f = Inr y \<longleftrightarrow> (\<exists>x. r = Inr x \<and> f x = Inr y)"
  by (cases r) auto

lemma map_err_simps [simp]:
  "map_err g (Inl e) = Inl (g e)" "map_err g (Inr x) = Inr x"
  by (simp_all add: map_err_def)

lemma map_err_eq_Inr [result_simps]: "map_err g r = Inr y \<longleftrightarrow> r = Inr y"
  by (cases r) auto

lemma ok_or_simps [simp]: "ok_or e None = Inl e" "ok_or e (Some x) = Inr x"
  by (simp_all add: ok_or_def)

lemma ok_or_eq_Inr [result_simps]: "ok_or e x = Inr y \<longleftrightarrow> x = Some y"
  by (cases x) auto

lemma if_Inl_eq_Inr [result_simps]:
  "(if c then Inl e else r) = Inr y \<longleftrightarrow> \<not> c \<and> r = Inr y"
  by simp

lemma try_fold_append:
  "try_fold f s (xs @ ys) = and_then (try_fold f s xs) (\<lambda>s'. try_fold f s' ys)"
proof (induction xs arbitrary: s)
  case (Cons x xs)
  then show ?case by (cases "f s x") auto
qed simp

lemma try_map_eq_Inr:
  "try_map f xs = Inr ys \<longleftrightarrow> list_all2 (\<lambda>x y. f x = Inr y) xs ys"
  by (induction xs arbitrary: ys)
    (auto simp: result_simps list_all2_Cons1)

lemma try_map_Inr_map: "(\<And>x. x \<in> set xs \<Longrightarrow> f x = Inr (g x)) \<Longrightarrow> try_map f xs = Inr (map g xs)"
  by (induction xs) auto

text \<open>An invariant of the loop body is an invariant of the loop.\<close>

lemma try_fold_invariant:
  assumes "try_fold f s xs = Inr t" "P s"
    and "\<And>s x s'. P s \<Longrightarrow> x \<in> set xs \<Longrightarrow> f s x = Inr s' \<Longrightarrow> P s'"
  shows "P t"
  using assms
proof (induction xs arbitrary: s)
  case (Cons x xs)
  from Cons.prems(1) obtain s' where s': "f s x = Inr s'" and rest: "try_fold f s' xs = Inr t"
    by (auto simp: result_simps)
  have "P s'" by (rule Cons.prems(3) [OF Cons.prems(2) _ s']) simp
  with rest show ?case by (rule Cons.IH) (rule Cons.prems(3), auto)
qed simp

section \<open>Lemmas on machine integers\<close>

lemma unat_lt_2p: "unat (w :: 'a::len word) < 2 ^ LENGTH('a)"
  by (rule unsigned_less)

lemma unat_u64_lt [simp]: "unat (w :: u64) < 18446744073709551616"
  using unat_lt_2p [of w] by simp

lemma unat_u32_lt [simp]: "unat (w :: u32) < 4294967296"
  using unat_lt_2p [of w] by simp

lemma unat_byte_lt [simp]: "unat (w :: byte) < 256"
  using unat_lt_2p [of w] by simp

lemma checked_add_eq_Some:
  "checked_add a b = Some (c :: 'a::len word) \<longleftrightarrow> unat a + unat b < 2 ^ LENGTH('a) \<and> c = a + b"
  by (auto simp: checked_add_def)

lemma unat_checked_add:
  "checked_add a b = Some (c :: 'a::len word) \<Longrightarrow> unat c = unat a + unat b"
  by (simp add: checked_add_eq_Some unat_word_ariths)

lemma unat_checked_mul:
  "checked_mul a b = Some (c :: 'a::len word) \<Longrightarrow> unat c = unat a * unat b"
  by (auto simp: checked_mul_def unat_word_ariths split: if_splits)

lemma unat_u64_from_u32 [simp]: "unat (u64_from_u32 v) = unat v"
proof -
  have "unat v < 2 ^ 64" by (rule less_trans [OF unat_u32_lt]) simp
  then show ?thesis
    unfolding u64_from_u32_def by (simp add: unsigned_ucast_eq take_bit_nat_eq_self_iff)
qed

lemma u32_try_from_u64_from_u32 [simp]: "u32_try_from (u64_from_u32 v) = Some v"
proof -
  have "unat (ucast (u64_from_u32 v) :: u32) = unat v"
    by (simp add: unsigned_ucast_eq take_bit_nat_eq_self)
  then show ?thesis by (simp add: u32_try_from_def word_unat_eq_iff)
qed

lemma u32_try_from_eq_Some: "u32_try_from v = Some w \<longleftrightarrow> v = u64_from_u32 w"
proof
  assume "u32_try_from v = Some w"
  then have v: "unat v < 2 ^ 32" and w: "w = ucast v"
    by (auto simp: u32_try_from_def split: if_splits)
  have "unat (u64_from_u32 w) = unat v"
    using v by (simp add: w unsigned_ucast_eq take_bit_nat_eq_self)
  then show "v = u64_from_u32 w" by (simp add: word_unat_eq_iff)
qed simp

lemma usize_try_from_Some [simp]: "usize_try_from v = Some (unat v)"
  by (simp add: usize_try_from_def usize_bound_def)

lemma unat_u64_of_usize: "n < usize_bound \<Longrightarrow> unat (u64_of_usize n) = n"
  by (simp add: u64_of_usize_def usize_bound_def unat_of_nat)

lemma usize_checked_add_eq_Some:
  "usize_checked_add a b = Some c \<longleftrightarrow> a + b < usize_bound \<and> c = a + b"
  by (auto simp: usize_checked_add_def)

section \<open>Lemmas on strings and bytes\<close>

lemma unat_of_char [simp]: "unat (of_char c :: byte) = of_char c"
proof -
  have "unat (word_of_nat (of_char c) :: byte) = of_char c"
    by (simp only: unat_of_nat) simp
  then show ?thesis by (simp only: of_nat_of_char)
qed

lemma string_of_bytes_as_bytes [simp]: "string_of_bytes (as_bytes s) = s"
  by (simp add: string_of_bytes_def as_bytes_def comp_def)

lemma as_bytes_string_of_bytes [simp]: "as_bytes (string_of_bytes bs) = bs"
proof -
  have "of_char (char_of (unat b) :: char) = b" for b :: byte
    by (simp add: word_unat_eq_iff)
  then show ?thesis by (simp add: string_of_bytes_def as_bytes_def comp_def map_idI)
qed

lemma length_as_bytes [simp]: "length (as_bytes s) = length s"
  by (simp add: as_bytes_def)

lemma length_string_of_bytes [simp]: "length (string_of_bytes bs) = length bs"
  by (simp add: string_of_bytes_def)

lemma as_bytes_inj [simp]: "as_bytes s = as_bytes t \<longleftrightarrow> s = t"
  by (metis string_of_bytes_as_bytes)

lemma as_bytes_append: "as_bytes (s @ t) = as_bytes s @ as_bytes t"
  by (simp add: as_bytes_def)

section \<open>Lemmas on big-endian integers\<close>

lemma length_to_be [simp]: "length (to_be n v) = n"
  by (induction n arbitrary: v) auto

lemma be_val_Nil [simp]: "be_val [] = 0"
  by (simp add: be_val_def)

lemma be_val_snoc [simp]: "be_val (bs @ [b]) = be_val bs * 256 + unat b"
  by (simp add: be_val_def)

lemma be_val_to_be: "be_val (to_be n v) = v mod 256 ^ n"
proof (induction n arbitrary: v)
  case (Suc n)
  have "be_val (to_be (Suc n) v) = (v div 256) mod 256 ^ n * 256 + v mod 256"
    by (simp add: Suc unat_of_nat)
  also have "\<dots> = v mod 256 ^ Suc n"
    by (simp add: mod_mult2_eq [of v 256 "256 ^ n"])
  finally show ?case .
qed simp

lemma be_val_lt: "be_val bs < 256 ^ length bs"
proof (induction bs rule: rev_induct)
  case (snoc b bs)
  have "be_val bs * 256 + unat b < be_val bs * 256 + 256" by simp
  also have "\<dots> = (be_val bs + 1) * 256" by simp
  also have "\<dots> \<le> 256 ^ length bs * 256" using snoc by (intro mult_right_mono) auto
  finally show ?case by simp
qed simp

lemma to_be_be_val: "to_be (length bs) (be_val bs) = bs"
proof (induction bs rule: rev_induct)
  case (snoc b bs)
  then show ?case by (simp add: div_mult_self3 word_unat_eq_iff unat_of_nat)
qed simp

lemma length_to_be_bytes [simp]:
  "length (u16_to_be_bytes a) = 2" "length (u32_to_be_bytes b) = 4" "length (u64_to_be_bytes c) = 8"
  by (simp_all add: u16_to_be_bytes_def u32_to_be_bytes_def u64_to_be_bytes_def)

lemma u32_from_to_be_bytes [simp]: "u32_from_be_bytes (u32_to_be_bytes w) = w"
  by (simp add: u32_from_be_bytes_def u32_to_be_bytes_def be_val_to_be word_unat_eq_iff unat_of_nat)

lemma u64_from_to_be_bytes [simp]: "u64_from_be_bytes (u64_to_be_bytes w) = w"
  by (simp add: u64_from_be_bytes_def u64_to_be_bytes_def be_val_to_be word_unat_eq_iff unat_of_nat)

lemma u32_to_from_be_bytes: "length bs = 4 \<Longrightarrow> u32_to_be_bytes (u32_from_be_bytes bs) = bs"
  using be_val_lt [of bs] to_be_be_val [of bs]
  by (simp add: u32_from_be_bytes_def u32_to_be_bytes_def unat_of_nat)

lemma u64_to_from_be_bytes: "length bs = 8 \<Longrightarrow> u64_to_be_bytes (u64_from_be_bytes bs) = bs"
  using be_val_lt [of bs] to_be_be_val [of bs]
  by (simp add: u64_from_be_bytes_def u64_to_be_bytes_def unat_of_nat)

section \<open>Lemmas on slices\<close>

lemma get_range_eq_Some:
  "get_range xs a b = Some ys \<longleftrightarrow> a \<le> b \<and> b \<le> length xs \<and> ys = take (b - a) (drop a xs)"
  by (auto simp: get_range_def)

lemma get_range_append [simp]:
  "get_range (pre @ xs @ r) (length pre) (length pre + length xs) = Some xs"
  by (simp add: get_range_def)

lemma chunks_Nil [simp]: "chunks n [] = []"
  by (simp add: chunks.simps)

lemma chunks_unfold:
  "xs \<noteq> [] \<Longrightarrow> 0 < n \<Longrightarrow> chunks n xs = take n xs # chunks n (drop n xs)"
  by (simp add: chunks.simps [of n xs])

lemma concat_chunks: "0 < n \<Longrightarrow> concat (chunks n xs) = xs"
proof (induction n xs rule: chunks.induct)
  case (1 n xs)
  show ?case
  proof (cases "xs = []")
    case False
    then show ?thesis using "1.IH" "1.prems" by (simp add: chunks_unfold)
  qed simp
qed

lemma length_chunk:
  "c \<in> set (chunks n xs) \<Longrightarrow> 0 < length c \<and> length c \<le> n"
proof (induction n xs rule: chunks.induct)
  case (1 n xs)
  then show ?case by (cases "xs = [] \<or> n = 0") (auto simp: chunks.simps [of n xs])
qed

section \<open>Ordered maps\<close>

lemma alist_from_keys:
  assumes "distinct (map fst es)"
  shows "map (\<lambda>k. (k, the (map_of es k))) (map fst es) = es"
proof -
  have "(\<lambda>k. (k, the (map_of es k))) (fst e) = e" if "e \<in> set es" for e
    using assms that by (cases e) (simp add: map_of_is_SomeI)
  then show ?thesis by (simp add: map_idI)
qed

lemma sorted_wrt_irrefl_distinct: "sorted_wrt (<) (xs :: 'a::linorder list) \<Longrightarrow> distinct xs"
  by (simp add: strict_sorted_iff)

text \<open>The interface its clients rely on: a finite map whose entries are listed in key order.\<close>

locale ordered_map =
  fixes empty :: "'m"
    and insert_entry :: "'k::linorder \<Rightarrow> 'v \<Rightarrow> 'm \<Rightarrow> 'm"
    and remove_entry :: "'k \<Rightarrow> 'm \<Rightarrow> 'm"
    and lookup :: "'m \<Rightarrow> 'k \<Rightarrow> 'v option"
    and entries :: "'m \<Rightarrow> ('k \<times> 'v) list"
    and invar :: "'m \<Rightarrow> bool"
  assumes invar_empty: "invar empty"
    and invar_insert: "invar m \<Longrightarrow> invar (insert_entry k v m)"
    and invar_remove: "invar m \<Longrightarrow> invar (remove_entry k m)"
    and lookup_empty: "lookup empty = (\<lambda>_. None)"
    and lookup_insert: "invar m \<Longrightarrow> lookup (insert_entry k v m) = (lookup m)(k \<mapsto> v)"
    and lookup_remove: "invar m \<Longrightarrow> lookup (remove_entry k m) = (lookup m)(k := None)"
    and entries_sorted: "invar m \<Longrightarrow> sorted_wrt (<) (map fst (entries m))"
    and lookup_entries: "invar m \<Longrightarrow> lookup m = map_of (entries m)"
begin

text \<open>Inserting a batch: the later entry of a key wins, the rest is kept.\<close>

lemma invar_batch: "invar m \<Longrightarrow> invar (fold (\<lambda>(k, v). insert_entry k v) es m)"
  by (induction es arbitrary: m) (auto simp: invar_insert)

lemma lookup_batch:
  "invar m \<Longrightarrow> lookup (fold (\<lambda>(k, v). insert_entry k v) es m) = lookup m ++ map_of (rev es)"
proof (induction es arbitrary: m)
  case (Cons e es)
  obtain k v where "e = (k, v)" by fastforce
  with Cons show ?case
    by (simp add: invar_insert lookup_insert map_add_def fun_eq_iff split: option.split)
qed simp

text \<open>Two maps with the same contents list the same entries, so an encoder that walks the
  entries is a function of the contents.\<close>

lemma entries_determined:
  assumes "invar m" "invar m'" "lookup m = lookup m'"
  shows "entries m = entries m'"
proof -
  have keys: "map fst (entries m) = map fst (entries m')"
  proof (rule strict_sorted_equal)
    have "dom (map_of (entries m)) = dom (map_of (entries m'))"
      using assms by (simp flip: lookup_entries)
    then show "set (map fst (entries m)) = set (map fst (entries m'))"
      by (simp add: dom_map_of_conv_image_fst)
  qed (use assms entries_sorted in auto)
  have "entries m = map (\<lambda>k. (k, the (lookup m k))) (map fst (entries m))" if "invar m" for m
    unfolding lookup_entries [OF that]
    by (rule alist_from_keys [symmetric], rule sorted_wrt_irrefl_distinct, rule entries_sorted, rule that)
  with assms keys show ?thesis by metis
qed

end

lemma set_bt_insert: "set (map fst (bt_insert k v m)) = insert k (set (map fst m))"
  by (induction k v m rule: bt_insert.induct) auto

lemma bt_ok_Cons: "bt_ok ((a, b) # m) \<longleftrightarrow> (\<forall>k \<in> set (map fst m). a < k) \<and> bt_ok m"
  by (simp add: bt_ok_def)

lemma bt_ok_insert: "bt_ok m \<Longrightarrow> bt_ok (bt_insert k v m)"
proof (induction k v m rule: bt_insert.induct)
  case (2 k v a b m)
  then show ?case by (auto simp: bt_ok_Cons set_bt_insert [simplified])
qed (simp add: bt_ok_def)

lemma bt_get_insert: "bt_ok m \<Longrightarrow> bt_get (bt_insert k v m) = (bt_get m)(k \<mapsto> v)"
  unfolding bt_get_def
  by (induction k v m rule: bt_insert.induct) (auto simp: bt_ok_def fun_eq_iff)

lemma bt_ok_remove: "bt_ok m \<Longrightarrow> bt_ok (bt_remove k m)"
  unfolding bt_ok_def bt_remove_def by (induction m) auto

lemma bt_get_remove: "bt_get (bt_remove k m) = (bt_get m)(k := None)"
  unfolding bt_get_def bt_remove_def by (induction m) (auto simp: fun_eq_iff)

interpretation bt: ordered_map "[]" bt_insert bt_remove bt_get "\<lambda>m. m" bt_ok
  by unfold_locales
    (simp_all add: bt_ok_insert bt_ok_remove bt_get_insert bt_get_remove,
     simp_all add: bt_ok_def bt_get_def fun_eq_iff)

lemma bt_ok_extend: "bt_ok m \<Longrightarrow> bt_ok (bt_extend m es)"
  unfolding bt_extend_def by (rule bt.invar_batch)

lemma bt_get_extend: "bt_ok m \<Longrightarrow> bt_get (bt_extend m es) = bt_get m ++ map_of (rev es)"
  unfolding bt_extend_def by (rule bt.lookup_batch)

lemmas bt_intros [intro] = bt_ok_insert bt_ok_remove bt_ok_extend

end
