(* ===== verification/Text_Forms.thy ===== *)
theory Text_Forms
  imports Prelude
begin

text \<open>
  Standard-library text forms and searches that the protocol's values rest on: decimal
  integers as \<^verbatim>\<open>to_string\<close> prints them and \<^verbatim>\<open>str::parse\<close> reads them, \<^verbatim>\<open>str::split\<close>,
  comparison results, and \<^verbatim>\<open>binary_search_by\<close> / \<^verbatim>\<open>partition_point\<close> on slices.
\<close>

section \<open>Orderings\<close>

datatype ordering = Less | Equal | Greater

definition cmp :: "'a::linorder \<Rightarrow> 'a \<Rightarrow> ordering" where
  "cmp a b = (if a < b then Less else if a = b then Equal else Greater)"

definition then_with :: "ordering \<Rightarrow> ordering \<Rightarrow> ordering" where
  "then_with a b = (if a = Equal then b else a)"

section \<open>Decimal integers\<close>

definition is_digit :: "char \<Rightarrow> bool" where
  "is_digit c = (48 \<le> (of_char c :: nat) \<and> (of_char c :: nat) \<le> 57)"

definition digit_char :: "nat \<Rightarrow> char" where
  "digit_char d = char_of (48 + d)"

definition digit_val :: "char \<Rightarrow> nat" where
  "digit_val c = of_char c - 48"

fun show_nat :: "nat \<Rightarrow> string" where
  "show_nat n = (if n < 10 then [digit_char n] else show_nat (n div 10) @ [digit_char (n mod 10)])"

declare show_nat.simps [simp del]

definition show_int :: "int \<Rightarrow> string" where
  "show_int i = (if i < 0 then CHR ''-'' # show_nat (nat (- i)) else show_nat (nat i))"

definition digits_val :: "string \<Rightarrow> nat" where
  "digits_val s = foldl (\<lambda>acc c. acc * 10 + digit_val c) 0 s"

definition all_digits :: "string \<Rightarrow> bool" where
  "all_digits s = (s \<noteq> [] \<and> list_all is_digit s)"

text \<open>\<^verbatim>\<open>str::parse::<u64>\<close>: an optional plus sign, at least one digit, no overflow.\<close>

definition parse_u64 :: "string \<Rightarrow> u64 option" where
  "parse_u64 s =
     (let ds = (case s of c # cs \<Rightarrow> if c = CHR ''+'' then cs else s | [] \<Rightarrow> [])
      in if all_digits ds \<and> digits_val ds < 2 ^ 64 then Some (word_of_nat (digits_val ds)) else None)"

text \<open>\<^verbatim>\<open>str::parse::<i64>\<close>: an optional sign, at least one digit, no overflow.\<close>

definition parse_i64 :: "string \<Rightarrow> i64 option" where
  "parse_i64 s =
     (case s of
        [] \<Rightarrow> None
      | c # cs \<Rightarrow>
          if c = CHR ''-''
          then (if all_digits cs \<and> digits_val cs \<le> 2 ^ 63
                then Some (word_of_int (- int (digits_val cs))) else None)
          else (let ds = (if c = CHR ''+'' then cs else s)
                in if all_digits ds \<and> digits_val ds < 2 ^ 63
                   then Some (word_of_int (int (digits_val ds))) else None))"

section \<open>Splitting\<close>

text \<open>\<^verbatim>\<open>str::split(c)\<close>: never empty, one part more than there are separators.\<close>

fun split_on :: "char \<Rightarrow> string \<Rightarrow> string list" where
  "split_on c [] = [[]]"
| "split_on c (x # xs) =
     (if x = c then [] # split_on c xs
      else case split_on c xs of [] \<Rightarrow> [[x]] | p # ps \<Rightarrow> (x # p) # ps)"

fun join_with :: "char \<Rightarrow> string list \<Rightarrow> string" where
  "join_with c [] = []"
| "join_with c [p] = p"
| "join_with c (p # ps) = p @ c # join_with c ps"

section \<open>Binary search\<close>

text \<open>
  \<^verbatim>\<open>slice::binary_search_by\<close>: the index of an entry the comparator calls equal, or the place
  where one would be inserted. The loop keeps the window from \<open>lo\<close> to \<open>hi\<close>.
\<close>

function bsearch :: "('a \<Rightarrow> ordering) \<Rightarrow> 'a list \<Rightarrow> nat \<Rightarrow> nat \<Rightarrow> (nat, nat) result" where
  "bsearch f xs lo hi =
     (if lo < hi
      then (let mid = lo + (hi - lo) div 2
            in case f (xs ! mid) of
                 Equal \<Rightarrow> Inr mid
               | Less \<Rightarrow> bsearch f xs (Suc mid) hi
               | Greater \<Rightarrow> bsearch f xs lo mid)
      else Inl lo)"
  by pat_completeness auto
termination
  by (relation "measure (\<lambda>(f, xs, lo, hi). hi - lo)") auto

declare bsearch.simps [simp del]

definition binary_search_by :: "('a \<Rightarrow> ordering) \<Rightarrow> 'a list \<Rightarrow> (nat, nat) result" where
  "binary_search_by f xs = bsearch f xs 0 (length xs)"

text \<open>\<^verbatim>\<open>slice::partition_point\<close> of a predicate that holds on a prefix.\<close>

definition partition_point :: "('a \<Rightarrow> bool) \<Rightarrow> 'a list \<Rightarrow> nat" where
  "partition_point p xs = length (takeWhile p xs)"

section \<open>Lemmas on decimal integers\<close>

lemma cmp_simps [simp]:
  "cmp a b = Less \<longleftrightarrow> a < b" "cmp a b = Equal \<longleftrightarrow> a = b" "cmp a b = Greater \<longleftrightarrow> b < a"
  by (auto simp: cmp_def)

lemma digit_char_props [simp]:
  assumes "d < 10"
  shows "is_digit (digit_char d)" "digit_val (digit_char d) = d"
  using assms by (simp_all add: is_digit_def digit_char_def digit_val_def)

lemma digit_char_val: "is_digit c \<Longrightarrow> digit_char (digit_val c) = c"
  by (simp add: is_digit_def digit_char_def digit_val_def)

lemma digit_val_lt: "is_digit c \<Longrightarrow> digit_val c < 10"
  unfolding is_digit_def digit_val_def by linarith

lemma is_digit_not_sign [simp]: "\<not> is_digit CHR ''-''" "\<not> is_digit CHR ''+''"
  by (simp_all add: is_digit_def)

lemma digit_char_0: "digit_char 0 = CHR ''0''"
  by code_simp

lemma digit_char_zero_iff: "d < 10 \<Longrightarrow> digit_char d = CHR ''0'' \<longleftrightarrow> d = 0"
proof -
  assume d: "d < 10"
  have "d = 0" if "digit_char d = CHR ''0''"
  proof -
    have "d = digit_val CHR ''0''" using digit_char_props(2) [OF d] that by simp
    also have "\<dots> = 0" using digit_char_props(2) [of 0] by (simp add: digit_char_0)
    finally show ?thesis .
  qed
  then show ?thesis by (auto simp: digit_char_0)
qed

lemma digits_val_snoc [simp]: "digits_val (s @ [c]) = digits_val s * 10 + digit_val c"
  by (simp add: digits_val_def)

lemma digits_val_Nil [simp]: "digits_val [] = 0"
  by (simp add: digits_val_def)

lemma digits_val_single [simp]: "digits_val [c] = digit_val c"
  by (simp add: digits_val_def)

lemma digit_val_zero_iff: "is_digit c \<Longrightarrow> digit_val c = 0 \<longleftrightarrow> c = CHR ''0''"
  using digit_char_val [of c] digit_char_zero_iff [OF digit_val_lt, of c] by auto

lemma digits_val_show_nat [simp]: "digits_val (show_nat n) = n"
proof (induction n rule: show_nat.induct)
  case (1 n)
  show ?case
  proof (cases "n < 10")
    case True
    then show ?thesis using digits_val_snoc [of "[]"] by (simp add: show_nat.simps [of n])
  next
    case False
    with 1 show ?thesis by (simp add: show_nat.simps [of n])
  qed
qed

lemma all_digits_show_nat [simp]: "all_digits (show_nat n)"
proof (induction n rule: show_nat.induct)
  case (1 n)
  then show ?case
    by (cases "n < 10") (auto simp: show_nat.simps [of n] all_digits_def)
qed

lemma show_nat_nonempty [simp]: "show_nat n \<noteq> []"
  using all_digits_show_nat [of n] by (simp add: all_digits_def)

lemma show_nat_hd_digit: "is_digit (hd (show_nat n))"
  using all_digits_show_nat [of n] by (cases "show_nat n") (auto simp: all_digits_def)

text \<open>A numeral is canonical when it has no superfluous leading zero.\<close>

definition no_leading_zero :: "string \<Rightarrow> bool" where
  "no_leading_zero s = (hd s = CHR ''0'' \<longrightarrow> length s \<le> 1)"

lemma show_nat_hd_pos: "0 < n \<Longrightarrow> hd (show_nat n) \<noteq> CHR ''0''"
proof (induction n rule: show_nat.induct)
  case (1 n)
  show ?case
  proof (cases "n < 10")
    case True
    with 1 show ?thesis by (simp add: show_nat.simps [of n] digit_char_zero_iff)
  next
    case False
    with 1 show ?thesis by (simp add: show_nat.simps [of n] hd_append)
  qed
qed

lemma no_leading_zero_show_nat [simp]: "no_leading_zero (show_nat n)"
  using show_nat_hd_pos [of n]
  by (cases "n = 0") (auto simp: no_leading_zero_def show_nat.simps [of 0])

lemma digits_val_pos: "all_digits s \<Longrightarrow> hd s \<noteq> CHR ''0'' \<Longrightarrow> 0 < digits_val s"
proof (induction s rule: rev_induct)
  case (snoc c s)
  show ?case
  proof (cases s)
    case Nil
    with snoc show ?thesis using digit_val_zero_iff [of c] by (auto simp: all_digits_def)
  next
    case (Cons a t)
    with snoc have "0 < digits_val s" by (auto simp: all_digits_def)
    then show ?thesis by simp
  qed
qed (simp add: all_digits_def)

lemma show_nat_digits_val: "all_digits s \<Longrightarrow> no_leading_zero s \<Longrightarrow> show_nat (digits_val s) = s"
proof (induction s rule: rev_induct)
  case (snoc c s)
  have c: "is_digit c" using snoc by (simp add: all_digits_def)
  show ?case
  proof (cases "s = []")
    case True
    then show ?thesis using c digits_val_snoc [of "[]" c]
      by (simp add: show_nat.simps digit_val_lt digit_char_val)
  next
    case False
    with snoc.prems have s: "all_digits s" "hd s \<noteq> CHR ''0''" "no_leading_zero s"
      by (auto simp: all_digits_def no_leading_zero_def hd_append)
    then have "0 < digits_val s" by (simp add: digits_val_pos)
    moreover have "show_nat (digits_val s) = s" using snoc.IH s by simp
    ultimately show ?thesis
      using c digit_val_lt [OF c] by (simp add: show_nat.simps [of "digits_val s * 10 + digit_val c"]
          digit_char_val)
  qed
qed (simp add: all_digits_def)

lemma all_digits_hd: "all_digits s \<Longrightarrow> is_digit (hd s)"
  by (cases s) (auto simp: all_digits_def)

lemma parse_u64_digits:
  assumes "all_digits s"
  shows "parse_u64 s = (if digits_val s < 2 ^ 64 then Some (word_of_nat (digits_val s)) else None)"
proof -
  have "hd s \<noteq> CHR ''+''" using all_digits_hd [OF assms] by auto
  with assms show ?thesis by (cases s) (auto simp: parse_u64_def Let_def)
qed

lemma parse_u64_show [simp]: "parse_u64 (show_nat (unat w)) = Some w"
  by (simp add: parse_u64_digits word_unat_eq_iff unat_of_nat)

lemma parse_i64_show [simp]: "parse_i64 (show_int (sint w)) = Some w" for w :: i64
proof (cases "sint w < 0")
  case True
  have "- (2 ^ 63) \<le> sint w" using sint_greater_eq [of w] by simp
  with True show ?thesis by (simp add: show_int_def parse_i64_def)
next
  case False
  have lt: "sint w < 2 ^ 63" using sint_less [of w] by simp
  obtain c cs where c: "show_nat (nat (sint w)) = c # cs"
    by (cases "show_nat (nat (sint w))") auto
  then have "is_digit c" using show_nat_hd_digit [of "nat (sint w)"] by simp
  then have "c \<noteq> CHR ''-''" "c \<noteq> CHR ''+''" by auto
  moreover have "all_digits (c # cs)" "digits_val (c # cs) = nat (sint w)"
    by (simp_all flip: c)
  ultimately show ?thesis using False lt by (simp add: show_int_def parse_i64_def c)
qed

lemma sint_word_of_int:
  "- (2 ^ 63) \<le> k \<Longrightarrow> k < 2 ^ 63 \<Longrightarrow> sint (word_of_int k :: i64) = k"
  by (simp add: sint_sbintrunc' signed_take_bit_int_eq_self)

text \<open>Reading a canonical numeral and printing it again gives the same text.\<close>

lemma show_parse_u64:
  assumes "all_digits s" "no_leading_zero s" "parse_u64 s = Some w"
  shows "show_nat (unat w) = s"
proof -
  have "unat w = digits_val s"
    using assms by (auto simp: parse_u64_digits unat_of_nat split: if_splits)
  then show ?thesis using assms by (simp add: show_nat_digits_val)
qed

lemma show_parse_i64:
  assumes p: "parse_i64 s = Some w"
    and plus: "\<not> (\<exists>t. s = CHR ''+'' # t)"
    and zero: "no_leading_zero s"
    and minus: "\<And>t. s = CHR ''-'' # t \<Longrightarrow> hd t \<noteq> CHR ''0''"
  shows "show_int (sint w) = s"
proof -
  obtain c cs where s: "s = c # cs" using p by (cases s) (auto simp: parse_i64_def)
  show ?thesis
  proof (cases "c = CHR ''-''")
    case True
    with p s have d: "all_digits cs" "digits_val cs \<le> 2 ^ 63"
      and w: "w = word_of_int (- int (digits_val cs))"
      by (auto simp: parse_i64_def split: if_splits)
    have hd: "hd cs \<noteq> CHR ''0''" using minus s True by simp
    then have pos: "0 < digits_val cs" using d by (simp add: digits_val_pos)
    have "sint w = - int (digits_val cs)"
      unfolding w using d pos by (intro sint_word_of_int) auto
    then show ?thesis
      using pos d hd s True by (simp add: show_int_def show_nat_digits_val no_leading_zero_def)
  next
    case False
    with p s plus have d: "all_digits s" "digits_val s < 2 ^ 63"
      and w: "w = word_of_int (int (digits_val s))"
      by (auto simp: parse_i64_def Let_def split: if_splits)
    have "sint w = int (digits_val s)"
      unfolding w using d by (intro sint_word_of_int) auto
    then show ?thesis using d zero by (simp add: show_int_def show_nat_digits_val)
  qed
qed

section \<open>Lemmas on splitting\<close>

lemma split_on_nonempty [simp]: "split_on c s \<noteq> []"
  by (induction s) (auto split: list.split)

lemma join_with_Cons: "ps \<noteq> [] \<Longrightarrow> join_with c (p # ps) = p @ c # join_with c ps"
  by (cases ps) auto

lemma join_split [simp]: "join_with c (split_on c s) = s"
proof (induction s)
  case (Cons x xs)
  obtain p ps where "split_on c xs = p # ps" by (cases "split_on c xs") auto
  with Cons show ?case by (cases ps) (auto simp: join_with_Cons)
qed simp

lemma split_on_parts: "p \<in> set (split_on c s) \<Longrightarrow> c \<notin> set p"
proof (induction s arbitrary: p)
  case (Cons x xs)
  obtain q qs where "split_on c xs = q # qs" by (cases "split_on c xs") auto
  with Cons show ?case by (auto split: if_splits)
qed simp

section \<open>Lemmas on searching\<close>

text \<open>The comparator orders the slice: first smaller, then equal, then greater entries.\<close>

definition ordered_by :: "('a \<Rightarrow> ordering) \<Rightarrow> 'a list \<Rightarrow> bool" where
  "ordered_by f xs = (\<forall>i j. i \<le> j \<and> j < length xs \<longrightarrow>
     (f (xs ! j) = Less \<longrightarrow> f (xs ! i) = Less) \<and> (f (xs ! i) = Greater \<longrightarrow> f (xs ! j) = Greater))"

lemma bsearch_Inr:
  "bsearch f xs lo hi = Inr i \<Longrightarrow> lo \<le> i \<and> i < hi \<and> f (xs ! i) = Equal"
proof (induction f xs lo hi rule: bsearch.induct)
  case (1 f xs lo hi)
  show ?case
  proof (cases "lo < hi")
    case True
    let ?mid = "lo + (hi - lo) div 2"
    have "lo \<le> ?mid \<and> ?mid < hi" using True by auto
    then show ?thesis using 1 True
      by (cases "f (xs ! ?mid)") (auto simp: bsearch.simps [of f xs lo hi] Let_def)
  qed (use 1 in \<open>simp add: bsearch.simps [of f xs lo hi]\<close>)
qed

lemma bsearch_Inl:
  assumes "bsearch f xs lo hi = Inl k" "ordered_by f xs" "hi \<le> length xs" "lo \<le> i" "i < hi"
  shows "f (xs ! i) \<noteq> Equal"
  using assms
proof (induction f xs lo hi arbitrary: i rule: bsearch.induct)
  case (1 f xs lo hi)
  let ?mid = "lo + (hi - lo) div 2"
  have lt: "lo < hi" using 1 by simp
  have mid: "?mid < hi" using lt by auto
  show ?case
  proof (cases "f (xs ! ?mid)")
    case Less
    have "f (xs ! i) = Less" if "i \<le> ?mid"
      using "1.prems"(2,3) Less mid that unfolding ordered_by_def by (meson order_less_le_trans)
    moreover have "f (xs ! i) \<noteq> Equal" if "?mid < i"
      using 1 Less lt that by (auto simp: bsearch.simps [of f xs lo hi] Let_def)
    ultimately show ?thesis by (cases "i \<le> ?mid") auto
  next
    case Equal
    then show ?thesis using 1 lt by (simp add: bsearch.simps [of f xs lo hi] Let_def)
  next
    case Greater
    have "f (xs ! i) = Greater" if "?mid \<le> i"
      using "1.prems"(2,3,5) Greater that unfolding ordered_by_def by (meson order_less_le_trans)
    moreover have "f (xs ! i) \<noteq> Equal" if "i < ?mid"
      using 1 Greater lt mid that by (auto simp: bsearch.simps [of f xs lo hi] Let_def)
    ultimately show ?thesis by (cases "i < ?mid") auto
  qed
qed

lemma binary_search_found: "binary_search_by f xs = Inr i \<Longrightarrow> i < length xs \<and> f (xs ! i) = Equal"
  unfolding binary_search_by_def by (auto dest: bsearch_Inr)

lemma binary_search_absent:
  "binary_search_by f xs = Inl k \<Longrightarrow> ordered_by f xs \<Longrightarrow> x \<in> set xs \<Longrightarrow> f x \<noteq> Equal"
  unfolding binary_search_by_def in_set_conv_nth by (auto dest: bsearch_Inl)

text \<open>Searching a strictly sorted slice by key.\<close>

lemma ordered_by_key:
  "sorted_wrt (<) (map g xs) \<Longrightarrow> ordered_by (\<lambda>x. cmp (g x) k) xs"
  unfolding ordered_by_def
proof (intro allI impI)
  fix i j
  assume s: "sorted_wrt (<) (map g xs)" and ij: "i \<le> j \<and> j < length xs"
  then have "g (xs ! i) \<le> g (xs ! j)"
    by (cases "i = j") (auto simp: sorted_wrt_map dest: sorted_wrt_nth_less [of _ _ i j] less_imp_le)
  then show "(cmp (g (xs ! j)) k = Less \<longrightarrow> cmp (g (xs ! i)) k = Less) \<and>
      (cmp (g (xs ! i)) k = Greater \<longrightarrow> cmp (g (xs ! j)) k = Greater)"
    by (auto simp del: not_less)
qed

lemma binary_search_by_key_iff:
  assumes "sorted_wrt (<) (map g xs)"
  shows "(\<exists>i. binary_search_by (\<lambda>x. cmp (g x) k) xs = Inr i) \<longleftrightarrow> k \<in> g ` set xs"
proof
  assume "\<exists>i. binary_search_by (\<lambda>x. cmp (g x) k) xs = Inr i"
  then obtain i where "binary_search_by (\<lambda>x. cmp (g x) k) xs = Inr i" ..
  from binary_search_found [OF this] show "k \<in> g ` set xs" by auto
next
  assume k: "k \<in> g ` set xs"
  show "\<exists>i. binary_search_by (\<lambda>x. cmp (g x) k) xs = Inr i"
  proof (cases "binary_search_by (\<lambda>x. cmp (g x) k) xs")
    case (Inl j)
    from binary_search_absent [OF this ordered_by_key [OF assms]] k show ?thesis by auto
  qed auto
qed

end
