(* ===== verification/Values.thy ===== *)
theory Values
  imports Text_Forms
begin

text \<open>
  The portable values of \<^verbatim>\<open>otmp-protocol/src/value.rs\<close> and the errors of
  \<^verbatim>\<open>otmp-protocol/src/error.rs\<close>: identifiers, hashes, decimal JSON integers, relative URIs,
  feature sets, canonical JSON values and typed scalars, each with its text form and its
  validity check.

  Code of other crates that the values call is the record \<open>externals\<close>: the SHA-256 function
  of \<^verbatim>\<open>sha2\<close>, the functions of \<^verbatim>\<open>hex\<close>, string quoting of \<^verbatim>\<open>serde_json\<close> and decompression of
  \<^verbatim>\<open>zstd\<close>. What the code relies on of them are the named predicates \<open>hex_laws\<close> and \<open>sha_laws\<close>.
\<close>

section \<open>Errors\<close>

datatype protocol_error =
    DuplicateJsonKey string
  | FloatingPointJson
  | IntegerOutOfRange
  | NonCanonicalJson
  | InvalidJson string
  | InvalidId string
  | InvalidHash string
  | UnsafeRelativeUri string
  | InvalidFeatureSet string
  | InvalidIntegerString string
  | InvalidSchema string
  | InvalidObject string
  | InvalidCbor string
  | Encoding string

fun protocol_error_code :: "protocol_error \<Rightarrow> string" where
  "protocol_error_code (DuplicateJsonKey _) = ''OTMP_DUPLICATE_JSON_KEY''"
| "protocol_error_code FloatingPointJson = ''OTMP_FLOATING_POINT_JSON''"
| "protocol_error_code IntegerOutOfRange = ''OTMP_INVALID_INTEGER''"
| "protocol_error_code (InvalidIntegerString _) = ''OTMP_INVALID_INTEGER''"
| "protocol_error_code NonCanonicalJson = ''OTMP_NONCANONICAL_JSON''"
| "protocol_error_code (InvalidJson _) = ''OTMP_INVALID_JSON''"
| "protocol_error_code (InvalidId _) = ''OTMP_INVALID_ID''"
| "protocol_error_code (InvalidHash _) = ''OTMP_INVALID_HASH''"
| "protocol_error_code (UnsafeRelativeUri _) = ''OTMP_UNSAFE_URI''"
| "protocol_error_code (InvalidFeatureSet _) = ''OTMP_INVALID_FEATURE_SET''"
| "protocol_error_code (InvalidSchema _) = ''OTMP_INVALID_SCHEMA''"
| "protocol_error_code (InvalidObject _) = ''OTMP_INVALID_OBJECT''"
| "protocol_error_code (InvalidCbor _) = ''OTMP_INVALID_CBOR''"
| "protocol_error_code (Encoding _) = ''OTMP_ENCODING_ERROR''"

fun protocol_error_message :: "protocol_error \<Rightarrow> string" where
  "protocol_error_message (DuplicateJsonKey m) = ''duplicate JSON key: '' @ m"
| "protocol_error_message FloatingPointJson = ''floating-point JSON numbers are forbidden''"
| "protocol_error_message IntegerOutOfRange = ''JSON integer is outside the supported range''"
| "protocol_error_message NonCanonicalJson = ''JSON is not in canonical form''"
| "protocol_error_message (InvalidJson m) = ''invalid JSON: '' @ m"
| "protocol_error_message (InvalidId m) = ''invalid identifier: '' @ m"
| "protocol_error_message (InvalidHash m) = ''invalid SHA-256 value: '' @ m"
| "protocol_error_message (UnsafeRelativeUri m) = ''unsafe relative URI: '' @ m"
| "protocol_error_message (InvalidFeatureSet m) = ''invalid feature set: '' @ m"
| "protocol_error_message (InvalidIntegerString m) = ''invalid decimal integer string: '' @ m"
| "protocol_error_message (InvalidSchema m) = ''invalid logical schema: '' @ m"
| "protocol_error_message (InvalidObject m) = ''invalid protocol object: '' @ m"
| "protocol_error_message (InvalidCbor m) = ''invalid deterministic CBOR: '' @ m"
| "protocol_error_message (Encoding m) = ''canonical encoding failed: '' @ m"

record error_payload =
  ep_code :: string
  ep_message :: string
  ep_retryable :: bool
  ep_details :: "(string, string) btree"

definition payload_of_protocol_error :: "protocol_error \<Rightarrow> error_payload" where
  "payload_of_protocol_error e =
     \<lparr>ep_code = protocol_error_code e, ep_message = protocol_error_message e,
      ep_retryable = False, ep_details = []\<rparr>"

section \<open>Other crates\<close>

record externals =
  sha256_fn :: "byte list \<Rightarrow> byte list"
  hex_encode :: "byte list \<Rightarrow> string"
  hex_decode :: "string \<Rightarrow> (string, byte list) result"
  json_quote :: "string \<Rightarrow> string"
  zstd_decompress :: "byte list \<Rightarrow> nat \<Rightarrow> (string, byte list) result"

definition is_lower_hex :: "char \<Rightarrow> bool" where
  "is_lower_hex c = (is_digit c \<or> (97 \<le> (of_char c :: nat) \<and> (of_char c :: nat) \<le> 102))"

text \<open>
  \<^verbatim>\<open>hex::encode\<close> prints two lower-case digits per byte and \<^verbatim>\<open>hex::decode\<close> reads a text of even
  length back.
\<close>

definition hex_laws :: "externals \<Rightarrow> bool" where
  "hex_laws x =
     ((\<forall>bs. length (hex_encode x bs) = 2 * length bs \<and> list_all is_lower_hex (hex_encode x bs)
            \<and> hex_decode x (hex_encode x bs) = Inr bs)
      \<and> (\<forall>s. even (length s) \<and> list_all is_lower_hex s
              \<longrightarrow> (\<exists>bs. hex_decode x s = Inr bs \<and> hex_encode x bs = s)))"

text \<open>A SHA-256 digest has 32 bytes.\<close>

definition sha_laws :: "externals \<Rightarrow> bool" where
  "sha_laws x = (\<forall>bs. length (sha256_fn x bs) = 32)"

section \<open>Canonical JSON values\<close>

datatype canonical_value =
    CNull
  | CBool bool
  | CInteger int
  | CString string
  | CArray "canonical_value list"
  | CObject "(string \<times> canonical_value) list"

text \<open>The type invariants of the Rust value: an \<^verbatim>\<open>i128\<close>, UTF-8 strings, sorted object keys.\<close>

fun cv_ok :: "canonical_value \<Rightarrow> bool" where
  "cv_ok (CInteger i) = (- (2 ^ 127) \<le> i \<and> i < 2 ^ 127)"
| "cv_ok (CString s) = string_ok s"
| "cv_ok (CArray vs) = list_all cv_ok vs"
| "cv_ok (CObject es) =
     (bt_ok es \<and> list_all (\<lambda>e. string_ok (fst e) \<and> cv_ok (snd e)) es)"
| "cv_ok _ = True"

section \<open>Identifiers\<close>

datatype id = Id (id_as_bytes: "byte list")

definition id_ok :: "id \<Rightarrow> bool" where
  "id_ok i = (length (id_as_bytes i) = 16)"

definition id_try_from_bytes :: "externals \<Rightarrow> byte list \<Rightarrow> (protocol_error, id) result" where
  "id_try_from_bytes x bs =
     (if drop_bit 4 (bs ! 6) \<noteq> 7 \<or> drop_bit 6 (bs ! 8) \<noteq> 2
      then Inl (InvalidId (hex_encode x bs))
      else Inr (Id bs))"

definition uuid_dash_positions :: "nat list" where
  "uuid_dash_positions = [8, 13, 18, 23]"

definition uuid_shape :: "string \<Rightarrow> bool" where
  "uuid_shape s =
     (length s = 36 \<and>
      list_all (\<lambda>(i, c). if i \<in> set uuid_dash_positions then c = CHR ''-'' else is_lower_hex c)
        (enumerate 0 s))"

definition parse_uuid :: "externals \<Rightarrow> string \<Rightarrow> (protocol_error, byte list) result" where
  "parse_uuid x s =
     (if \<not> uuid_shape s then Inl (InvalidId s)
      else case hex_decode x (filter (\<lambda>c. c \<noteq> CHR ''-'') s) of
             Inl _ \<Rightarrow> Inl (InvalidId s)
           | Inr bs \<Rightarrow> if length bs = 16 then Inr bs else Inl (InvalidId s))"

definition format_uuid :: "externals \<Rightarrow> byte list \<Rightarrow> string" where
  "format_uuid x bs =
     (let h = hex_encode x bs
      in take 8 h @ ''-'' @ take 4 (drop 8 h) @ ''-'' @ take 4 (drop 12 h) @ ''-''
         @ take 4 (drop 16 h) @ ''-'' @ take 12 (drop 20 h))"

definition id_to_string :: "externals \<Rightarrow> id \<Rightarrow> string" where
  "id_to_string x i = format_uuid x (id_as_bytes i)"

definition id_from_str :: "externals \<Rightarrow> string \<Rightarrow> (protocol_error, id) result" where
  "id_from_str x s =
     and_then (parse_uuid x s) (\<lambda>bs. map_err (\<lambda>_. InvalidId s) (id_try_from_bytes x bs))"

datatype uuid_value = UuidValue (uuid_as_bytes: "byte list")

definition uuid_to_string :: "externals \<Rightarrow> uuid_value \<Rightarrow> string" where
  "uuid_to_string x u = format_uuid x (uuid_as_bytes u)"

definition uuid_from_str :: "externals \<Rightarrow> string \<Rightarrow> (protocol_error, uuid_value) result" where
  "uuid_from_str x s = and_then (parse_uuid x s) (\<lambda>bs. Inr (UuidValue bs))"

section \<open>Hashes\<close>

datatype sha256 = Sha256 (sha_as_bytes: "byte list")

definition sha_ok :: "sha256 \<Rightarrow> bool" where
  "sha_ok h = (length (sha_as_bytes h) = 32)"

definition digest :: "externals \<Rightarrow> byte list \<Rightarrow> sha256" where
  "digest x bs = Sha256 (sha256_fn x bs)"

definition sha_to_string :: "externals \<Rightarrow> sha256 \<Rightarrow> string" where
  "sha_to_string x h = ''sha256:'' @ hex_encode x (sha_as_bytes h)"

text \<open>\<^verbatim>\<open>str::strip_prefix\<close>.\<close>

definition strip_prefix :: "string \<Rightarrow> string \<Rightarrow> string option" where
  "strip_prefix p s = (if take (length p) s = p then Some (drop (length p) s) else None)"

definition sha_from_str :: "externals \<Rightarrow> string \<Rightarrow> (protocol_error, sha256) result" where
  "sha_from_str x s =
     (case strip_prefix ''sha256:'' s of
        None \<Rightarrow> Inl (InvalidHash s)
      | Some h \<Rightarrow>
          if length h \<noteq> 64 \<or> \<not> list_all is_lower_hex h then Inl (InvalidHash s)
          else case hex_decode x h of
                 Inl _ \<Rightarrow> Inl (InvalidHash s)
               | Inr bs \<Rightarrow> if length bs = 32 then Inr (Sha256 bs) else Inl (InvalidHash s))"

section \<open>Decimal JSON integers\<close>

definition starts_with :: "string \<Rightarrow> string \<Rightarrow> bool" where
  "starts_with p s = (take (length p) s = p)"

definition json_u64_to_string :: "u64 \<Rightarrow> string" where
  "json_u64_to_string w = show_nat (unat w)"

definition parse_decimal :: "string \<Rightarrow> (protocol_error, u64) result" where
  "parse_decimal s =
     (if s = [] \<or> starts_with ''+'' s \<or> (starts_with ''0'' s \<and> length s > 1)
         \<or> \<not> list_all is_digit s
      then Inl (InvalidIntegerString s)
      else ok_or (InvalidIntegerString s) (parse_u64 s))"

definition json_i64_to_string :: "i64 \<Rightarrow> string" where
  "json_i64_to_string w = show_int (sint w)"

text \<open>The refusal of \<^verbatim>\<open>JsonI64::deserialize\<close> and \<^verbatim>\<open>take_i64_string\<close>.\<close>

definition noncanonical_i64 :: "string \<Rightarrow> bool" where
  "noncanonical_i64 s =
     (s = ''-0'' \<or> starts_with ''+'' s \<or> (starts_with ''0'' s \<and> length s > 1)
      \<or> (starts_with ''-0'' s \<and> length s > 2))"

text \<open>\<open>None\<close> stands for the deserializer's error.\<close>

definition json_i64_from_str :: "string \<Rightarrow> i64 option" where
  "json_i64_from_str s = (if noncanonical_i64 s then None else parse_i64 s)"

section \<open>Relative URIs\<close>

datatype relative_uri = RelativeUri (uri_as_str: string)

definition uri_safe :: "string \<Rightarrow> bool" where
  "uri_safe s =
     (\<not> (s = [] \<or> starts_with ''/'' s \<or> last s = CHR ''/'' \<or> CHR 0x5C \<in> set s \<or> CHR '':'' \<in> set s
         \<or> list_ex (\<lambda>p. p = [] \<or> p = ''.'' \<or> p = ''..'') (split_on CHR ''/'' s)))"

definition uri_from_str :: "string \<Rightarrow> (protocol_error, relative_uri) result" where
  "uri_from_str s = (if uri_safe s then Inr (RelativeUri s) else Inl (UnsafeRelativeUri s))"

definition uri_ok :: "relative_uri \<Rightarrow> bool" where
  "uri_ok u = (uri_safe (uri_as_str u) \<and> string_ok (uri_as_str u))"

section \<open>Feature sets\<close>

datatype feature_set = FeatureSet (features_as_slice: "string list")

definition feature_char :: "char \<Rightarrow> bool" where
  "feature_char c =
     ((97 \<le> (of_char c :: nat) \<and> (of_char c :: nat) \<le> 122) \<or> is_digit c
      \<or> c = CHR ''.'' \<or> c = CHR ''-'' \<or> c = CHR ''_'')"

fun features_check :: "string option \<Rightarrow> string list \<Rightarrow> (protocol_error, unit) result" where
  "features_check previous [] = Inr ()"
| "features_check previous (f # fs) =
     (if f = [] \<or> \<not> list_all feature_char f
         \<or> (case previous of None \<Rightarrow> False | Some prior \<Rightarrow> f \<le> prior)
      then Inl (InvalidFeatureSet f)
      else features_check (Some f) fs)"

definition feature_set_new :: "string list \<Rightarrow> (protocol_error, feature_set) result" where
  "feature_set_new fs = and_then (features_check None fs) (\<lambda>_. Inr (FeatureSet fs))"

definition feature_contains :: "feature_set \<Rightarrow> string \<Rightarrow> bool" where
  "feature_contains fs f =
     (case binary_search_by (\<lambda>item. cmp item f) (features_as_slice fs) of
        Inr _ \<Rightarrow> True | Inl _ \<Rightarrow> False)"

definition require_supported :: "feature_set \<Rightarrow> string list \<Rightarrow> (protocol_error, unit) result" where
  "require_supported fs supported =
     (case find (\<lambda>f. f \<notin> set supported) (features_as_slice fs) of
        Some unknown \<Rightarrow> Inl (InvalidFeatureSet (''unsupported required feature '' @ unknown))
      | None \<Rightarrow> Inr ())"

definition feature_set_ok :: "feature_set \<Rightarrow> bool" where
  "feature_set_ok fs =
     (sorted_wrt (<) (features_as_slice fs)
      \<and> list_all (\<lambda>f. f \<noteq> [] \<and> list_all feature_char f) (features_as_slice fs))"

section \<open>Typed scalars\<close>

text \<open>A float is its IEEE 754 bit pattern; \<^verbatim>\<open>from_bits\<close> and \<^verbatim>\<open>to_bits\<close> are the identity.\<close>

type_synonym f32 = "32 word"
type_synonym f64 = "64 word"

datatype typed_scalar =
    TNull
  | TBoolean bool
  | TInt32 i32
  | TInt64 i64
  | TFloat32 f32
  | TFloat64 f64
  | TDecimal (dec_precision: u32) (dec_scale: u32) (dec_unscaled: "byte list")
  | TDate i32
  | TTimeMicros i64
  | TTimestampMicros i64
  | TTimestamptzMicros i64
  | TString string
  | TBinary "byte list"
  | TFixed "byte list"
  | TUuid uuid_value

definition f32_is_nan :: "f32 \<Rightarrow> bool" where
  "f32_is_nan b = (b AND 0x7F800000 = 0x7F800000 \<and> b AND 0x007FFFFF \<noteq> 0)"

definition f64_is_nan :: "f64 \<Rightarrow> bool" where
  "f64_is_nan b = (b AND 0x7FF0000000000000 = 0x7FF0000000000000 \<and> b AND 0x000FFFFFFFFFFFFF \<noteq> 0)"

definition canonical_f32 :: "f32 \<Rightarrow> u32" where
  "canonical_f32 v = (if f32_is_nan v then 0x7FC00000 else v)"

definition canonical_f64 :: "f64 \<Rightarrow> u64" where
  "canonical_f64 v = (if f64_is_nan v then 0x7FF8000000000000 else v)"

fun minimal_twos_complement :: "byte list \<Rightarrow> bool" where
  "minimal_twos_complement [] = False"
| "minimal_twos_complement [b] = True"
| "minimal_twos_complement (first # second # rest) =
     (\<not> (first = 0 \<and> second AND 0x80 = 0) \<and> \<not> (first = 0xFF \<and> second AND 0x80 \<noteq> 0))"

definition day_micros :: int where
  "day_micros = 86400000000"

fun scalar_validate :: "typed_scalar \<Rightarrow> (protocol_error, unit) result" where
  "scalar_validate (TDecimal precision scale unscaled) =
     (if precision = 0 \<or> scale > precision \<or> \<not> minimal_twos_complement unscaled
      then Inl (InvalidObject ''invalid decimal scalar'') else Inr ())"
| "scalar_validate (TTimeMicros v) =
     (if \<not> (0 \<le> sint v \<and> sint v < day_micros)
      then Inl (InvalidObject ''time_micros is outside one day'') else Inr ())"
| "scalar_validate _ = Inr ()"

definition signed_bytes_cmp :: "byte list \<Rightarrow> byte list \<Rightarrow> ordering option" where
  "signed_bytes_cmp left right =
     (case (left, right) of
        (l # _, r # _) \<Rightarrow>
          (let ln = (l AND 0x80 \<noteq> 0); rn = (r AND 0x80 \<noteq> 0)
           in Some (if ln \<and> \<not> rn then Less
                    else if \<not> ln \<and> rn then Greater
                    else if \<not> ln \<and> \<not> rn
                      then then_with (cmp (length left) (length right)) (cmp left right)
                    else then_with (cmp (length right) (length left)) (cmp left right)))
      | _ \<Rightarrow> None)"

text \<open>
  \<^verbatim>\<open>PartialOrd\<close> of floats on bit patterns: no order with a NaN, the two zeros are equal, and
  otherwise the sign decides and then the magnitude, reversed for negative numbers.
\<close>

definition float_cmp :: "bool \<Rightarrow> 'a::len word \<Rightarrow> bool \<Rightarrow> 'a word \<Rightarrow> ordering" where
  "float_cmp ls lm rs rm =
     (if lm = 0 \<and> rm = 0 then Equal
      else if ls \<and> \<not> rs then Less
      else if \<not> ls \<and> rs then Greater
      else if \<not> ls then cmp lm rm else cmp rm lm)"

definition f32_partial_cmp :: "f32 \<Rightarrow> f32 \<Rightarrow> ordering option" where
  "f32_partial_cmp a b =
     (if f32_is_nan a \<or> f32_is_nan b then None
      else Some (float_cmp (bit a 31) (a AND 0x7FFFFFFF) (bit b 31) (b AND 0x7FFFFFFF)))"

definition f64_partial_cmp :: "f64 \<Rightarrow> f64 \<Rightarrow> ordering option" where
  "f64_partial_cmp a b =
     (if f64_is_nan a \<or> f64_is_nan b then None
      else Some (float_cmp (bit a 63) (a AND 0x7FFFFFFFFFFFFFFF) (bit b 63) (b AND 0x7FFFFFFFFFFFFFFF)))"

definition partial_cmp_same_type :: "typed_scalar \<Rightarrow> typed_scalar \<Rightarrow> ordering option" where
  "partial_cmp_same_type l r =
     (case l of
        TBoolean a \<Rightarrow> (case r of TBoolean b \<Rightarrow> Some (cmp a b) | _ \<Rightarrow> None)
      | TInt32 a \<Rightarrow> (case r of TInt32 b \<Rightarrow> Some (cmp (sint a) (sint b)) | _ \<Rightarrow> None)
      | TDate a \<Rightarrow> (case r of TDate b \<Rightarrow> Some (cmp (sint a) (sint b)) | _ \<Rightarrow> None)
      | TInt64 a \<Rightarrow> (case r of TInt64 b \<Rightarrow> Some (cmp (sint a) (sint b)) | _ \<Rightarrow> None)
      | TTimeMicros a \<Rightarrow> (case r of TTimeMicros b \<Rightarrow> Some (cmp (sint a) (sint b)) | _ \<Rightarrow> None)
      | TTimestampMicros a \<Rightarrow> (case r of TTimestampMicros b \<Rightarrow> Some (cmp (sint a) (sint b)) | _ \<Rightarrow> None)
      | TTimestamptzMicros a \<Rightarrow> (case r of TTimestamptzMicros b \<Rightarrow> Some (cmp (sint a) (sint b)) | _ \<Rightarrow> None)
      | TFloat32 a \<Rightarrow> (case r of TFloat32 b \<Rightarrow> f32_partial_cmp a b | _ \<Rightarrow> None)
      | TFloat64 a \<Rightarrow> (case r of TFloat64 b \<Rightarrow> f64_partial_cmp a b | _ \<Rightarrow> None)
      | TString a \<Rightarrow> (case r of TString b \<Rightarrow> Some (cmp a b) | _ \<Rightarrow> None)
      | TBinary a \<Rightarrow> (case r of TBinary b \<Rightarrow> Some (cmp a b) | _ \<Rightarrow> None)
      | TFixed a \<Rightarrow> (case r of TFixed b \<Rightarrow> Some (cmp a b) | _ \<Rightarrow> None)
      | TUuid a \<Rightarrow> (case r of TUuid b \<Rightarrow> Some (cmp (uuid_as_bytes a) (uuid_as_bytes b)) | _ \<Rightarrow> None)
      | TDecimal lp ls a \<Rightarrow>
          (case r of
             TDecimal rp rs b \<Rightarrow> if lp = rp \<and> ls = rs then signed_bytes_cmp a b else None
           | _ \<Rightarrow> None)
      | TNull \<Rightarrow> None)"

section \<open>JSON form of typed scalars\<close>

text \<open>\<^verbatim>\<open>format!("{:08x}")\<close> and \<^verbatim>\<open>u64::from_str_radix(_, 16)\<close>.\<close>

definition hex_digit_char :: "nat \<Rightarrow> char" where
  "hex_digit_char d = (if d < 10 then char_of (48 + d) else char_of (87 + d))"

definition hex_digit_val :: "char \<Rightarrow> nat" where
  "hex_digit_val c = (if is_digit c then of_char c - 48 else of_char c - 87)"

fun show_hex :: "nat \<Rightarrow> nat \<Rightarrow> string" where
  "show_hex 0 v = []"
| "show_hex (Suc n) v = show_hex n (v div 16) @ [hex_digit_char (v mod 16)]"

definition hex_val :: "string \<Rightarrow> nat" where
  "hex_val s = foldl (\<lambda>acc c. acc * 16 + hex_digit_val c) 0 s"

definition scalar_to_value :: "externals \<Rightarrow> typed_scalar \<Rightarrow> canonical_value" where
  "scalar_to_value x s =
     (let typed = (\<lambda>name v. CObject [(''type'', CString name), (''value'', v)])
      in case s of
           TNull \<Rightarrow> CObject [(''type'', CString ''null'')]
         | TBoolean v \<Rightarrow> typed ''boolean'' (CBool v)
         | TInt32 v \<Rightarrow> typed ''int32'' (CInteger (sint v))
         | TInt64 v \<Rightarrow> typed ''int64'' (CString (show_int (sint v)))
         | TFloat32 v \<Rightarrow> typed ''float32'' (CString (''0x'' @ show_hex 8 (unat (canonical_f32 v))))
         | TFloat64 v \<Rightarrow> typed ''float64'' (CString (''0x'' @ show_hex 16 (unat (canonical_f64 v))))
         | TDecimal precision scale unscaled \<Rightarrow>
             typed ''decimal''
               (CObject [(''precision'', CInteger (uint precision)), (''scale'', CInteger (uint scale)),
                         (''unscaled_hex'', CString (hex_encode x unscaled))])
         | TDate v \<Rightarrow> typed ''date'' (CInteger (sint v))
         | TTimeMicros v \<Rightarrow> typed ''time_micros'' (CString (show_int (sint v)))
         | TTimestampMicros v \<Rightarrow> typed ''timestamp_micros'' (CString (show_int (sint v)))
         | TTimestamptzMicros v \<Rightarrow> typed ''timestamptz_micros'' (CString (show_int (sint v)))
         | TString v \<Rightarrow> typed ''string'' (CString v)
         | TBinary v \<Rightarrow> typed ''binary'' (CString (hex_encode x v))
         | TFixed v \<Rightarrow> typed ''fixed'' (CString (hex_encode x v))
         | TUuid v \<Rightarrow> typed ''uuid'' (CString (uuid_to_string x v)))"

definition take_value_string :: "canonical_value option \<Rightarrow> (string, string) result" where
  "take_value_string v = (case v of Some (CString s) \<Rightarrow> Inr s | _ \<Rightarrow> Inl ''expected string'')"

definition take_string :: "(string, canonical_value) btree \<Rightarrow> string
    \<Rightarrow> (string, string \<times> (string, canonical_value) btree) result" where
  "take_string m k =
     and_then (take_value_string (bt_get m k)) (\<lambda>s. Inr (s, bt_remove k m))"

definition take_bool :: "canonical_value option \<Rightarrow> (string, bool) result" where
  "take_bool v = (case v of Some (CBool b) \<Rightarrow> Inr b | _ \<Rightarrow> Inl ''expected boolean'')"

definition take_i32 :: "canonical_value option \<Rightarrow> (string, i32) result" where
  "take_i32 v =
     (case v of
        Some (CInteger i) \<Rightarrow>
          if - (2 ^ 31) \<le> i \<and> i < 2 ^ 31 then Inr (word_of_int i) else Inl ''int32 out of range''
      | _ \<Rightarrow> Inl ''expected integer'')"

definition take_i64_string :: "canonical_value option \<Rightarrow> (string, i64) result" where
  "take_i64_string v =
     (case v of
        Some (CString s) \<Rightarrow>
          if noncanonical_i64 s then Inl ''expected decimal string''
          else ok_or ''invalid int64 decimal string'' (parse_i64 s)
      | _ \<Rightarrow> Inl ''expected decimal string'')"

definition take_u32_field :: "(string, canonical_value) btree \<Rightarrow> string
    \<Rightarrow> (string, u32 \<times> (string, canonical_value) btree) result" where
  "take_u32_field m k =
     (case bt_get m k of
        Some (CInteger i) \<Rightarrow>
          if 0 \<le> i \<and> i < 2 ^ 32 then Inr (word_of_int i, bt_remove k m)
          else Inl (k @ '' out of range'')
      | _ \<Rightarrow> Inl (''missing integer '' @ k))"

definition take_hex_string :: "canonical_value option \<Rightarrow> nat \<Rightarrow> (string, u64) result" where
  "take_hex_string v digits =
     and_then (take_value_string v) (\<lambda>s.
       case strip_prefix ''0x'' s of
         None \<Rightarrow> Inl ''float bits require 0x prefix''
       | Some h \<Rightarrow>
           if length h \<noteq> digits \<or> \<not> list_all is_lower_hex h
           then Inl ''float bits must be fixed-width lowercase hex''
           else Inr (word_of_nat (hex_val h)))"

definition take_decimal :: "externals \<Rightarrow> canonical_value option \<Rightarrow> (string, typed_scalar) result" where
  "take_decimal x v =
     (case v of
        Some (CObject m) \<Rightarrow>
          and_then (take_u32_field m ''precision'') (\<lambda>(precision, m).
          and_then (take_u32_field m ''scale'') (\<lambda>(scale, m).
          and_then (take_string m ''unscaled_hex'') (\<lambda>(unscaled, m).
            if m \<noteq> [] then Inl ''unknown decimal field''
            else and_then (hex_decode x unscaled) (\<lambda>bs. Inr (TDecimal precision scale bs)))))
      | _ \<Rightarrow> Inl ''decimal value must be an object'')"

text \<open>The dispatch on the type name, before the final validation.\<close>

definition scalar_of_typed_value ::
  "externals \<Rightarrow> string \<Rightarrow> canonical_value option \<Rightarrow> (string, typed_scalar) result" where
  "scalar_of_typed_value x ty v =
     (if ty = ''null'' \<and> v = None then Inr TNull
      else if ty = ''boolean'' then and_then (take_bool v) (\<lambda>b. Inr (TBoolean b))
      else if ty = ''int32'' then and_then (take_i32 v) (\<lambda>i. Inr (TInt32 i))
      else if ty = ''int64'' then and_then (take_i64_string v) (\<lambda>i. Inr (TInt64 i))
      else if ty = ''float32'' then and_then (take_hex_string v 8) (\<lambda>b. Inr (TFloat32 (ucast b)))
      else if ty = ''float64'' then and_then (take_hex_string v 16) (\<lambda>b. Inr (TFloat64 b))
      else if ty = ''decimal'' then take_decimal x v
      else if ty = ''date'' then and_then (take_i32 v) (\<lambda>i. Inr (TDate i))
      else if ty = ''time_micros'' then and_then (take_i64_string v) (\<lambda>i. Inr (TTimeMicros i))
      else if ty = ''timestamp_micros''
        then and_then (take_i64_string v) (\<lambda>i. Inr (TTimestampMicros i))
      else if ty = ''timestamptz_micros''
        then and_then (take_i64_string v) (\<lambda>i. Inr (TTimestamptzMicros i))
      else if ty = ''string'' then and_then (take_value_string v) (\<lambda>s. Inr (TString s))
      else if ty = ''binary''
        then and_then (take_value_string v) (\<lambda>s. and_then (hex_decode x s) (\<lambda>bs. Inr (TBinary bs)))
      else if ty = ''fixed''
        then and_then (take_value_string v) (\<lambda>s. and_then (hex_decode x s) (\<lambda>bs. Inr (TFixed bs)))
      else if ty = ''uuid''
        then and_then (take_value_string v) (\<lambda>s.
               and_then (map_err protocol_error_message (uuid_from_str x s)) (\<lambda>u. Inr (TUuid u)))
      else Inl ''invalid typed scalar shape'')"

definition scalar_from_value :: "externals \<Rightarrow> canonical_value \<Rightarrow> (string, typed_scalar) result" where
  "scalar_from_value x v =
     (case v of
        CObject m \<Rightarrow>
          and_then (take_string m ''type'') (\<lambda>(ty, m).
            let value = bt_get m ''value''; m = bt_remove ''value'' m
            in if m \<noteq> [] then Inl ''unknown typed scalar field''
               else and_then (scalar_of_typed_value x ty value) (\<lambda>s.
                 and_then (map_err protocol_error_message (scalar_validate s)) (\<lambda>_. Inr s)))
      | _ \<Rightarrow> Inl ''typed scalar must be an object'')"

text \<open>
  What a Rust \<^verbatim>\<open>TypedScalar\<close> satisfies by its types, and the values whose text form is
  faithful: valid, with the canonical NaN.
\<close>

fun scalar_ok :: "typed_scalar \<Rightarrow> bool" where
  "scalar_ok (TFloat32 v) = (canonical_f32 v = v)"
| "scalar_ok (TFloat64 v) = (canonical_f64 v = v)"
| "scalar_ok (TString s) = string_ok s"
| "scalar_ok (TBinary bs) = (length bs < usize_bound)"
| "scalar_ok (TFixed bs) = (length bs < usize_bound)"
| "scalar_ok (TDecimal p sc bs) =
     (scalar_validate (TDecimal p sc bs) = Inr () \<and> length bs < usize_bound)"
| "scalar_ok (TTimeMicros v) = (scalar_validate (TTimeMicros v) = Inr ())"
| "scalar_ok (TUuid u) = (length (uuid_as_bytes u) = 16)"
| "scalar_ok _ = True"

section \<open>Lemmas on identifiers\<close>

lemma uuid_shape_nth:
  "uuid_shape s \<longleftrightarrow> length s = 36 \<and>
     (\<forall>i<36. if i \<in> {8, 13, 18, 23} then s ! i = CHR ''-'' else is_lower_hex (s ! i))"
  unfolding uuid_shape_def uuid_dash_positions_def list_all_length
  by (simp add: nth_enumerate_eq cong: conj_cong)

text \<open>The shape is five groups of hexadecimal digits between dashes.\<close>

definition uuid_groups :: "string \<Rightarrow> string list \<Rightarrow> bool" where
  "uuid_groups s gs = (map length gs = [8, 4, 4, 4, 12] \<and> list_all (list_all is_lower_hex) gs
     \<and> s = join_with CHR ''-'' gs)"

lemma take_drop_hex:
  "uuid_shape s \<Longrightarrow> {a..<a + n} \<inter> {8, 13, 18, 23} = {} \<Longrightarrow> a + n \<le> 36
   \<Longrightarrow> list_all is_lower_hex (take n (drop a s)) \<and> length (take n (drop a s)) = n"
  unfolding uuid_shape_nth
  by (auto simp: list_all_length nth_drop disjoint_iff)

lemma uuid_shape_groups:
  assumes "uuid_shape s"
  shows "uuid_groups s [take 8 s, take 4 (drop 9 s), take 4 (drop 14 s), take 4 (drop 19 s),
           take 12 (drop 24 s)]"
proof -
  have len: "length s = 36" and dash: "s ! 8 = CHR ''-''" "s ! 13 = CHR ''-''"
    "s ! 18 = CHR ''-''" "s ! 23 = CHR ''-''"
    using assms by (auto simp: uuid_shape_nth)
  have cut: "drop a s = take n (drop a s) @ (s ! (a + n)) # drop (a + n + 1) s"
    if "a + n < 36" for a n
    using that len by (metis Cons_nth_drop_Suc Suc_eq_plus1 append_take_drop_id drop_drop add.commute)
  have "s = take 8 s @ CHR ''-'' # drop 9 s"
    using cut [of 0 8] dash by simp
  moreover have "drop 9 s = take 4 (drop 9 s) @ CHR ''-'' # drop 14 s"
    using cut [of 9 4] dash by simp
  moreover have "drop 14 s = take 4 (drop 14 s) @ CHR ''-'' # drop 19 s"
    using cut [of 14 4] dash by simp
  moreover have "drop 19 s = take 4 (drop 19 s) @ CHR ''-'' # drop 24 s"
    using cut [of 19 4] dash by simp
  ultimately have "s = take 8 s @ CHR ''-'' # take 4 (drop 9 s) @ CHR ''-'' # take 4 (drop 14 s)
      @ CHR ''-'' # take 4 (drop 19 s) @ CHR ''-'' # drop 24 s"
    by metis
  then show ?thesis
    using take_drop_hex [OF assms, of 0 8] take_drop_hex [OF assms, of 9 4]
      take_drop_hex [OF assms, of 14 4] take_drop_hex [OF assms, of 19 4]
      take_drop_hex [OF assms, of 24 12] len
    by (auto simp: uuid_groups_def)
qed

lemma lower_hex_not_dash [simp]: "\<not> is_lower_hex CHR ''-''"
  by (simp add: is_lower_hex_def)

lemma filter_hex: "list_all is_lower_hex g \<Longrightarrow> filter (\<lambda>c. c \<noteq> CHR ''-'') g = g"
  by (induction g) auto

lemma length_five: "map length gs = [8, 4, 4, 4, 12] \<longleftrightarrow>
  (\<exists>a b c d e. gs = [a, b, c, d, e] \<and> length a = 8 \<and> length b = 4 \<and> length c = 4
     \<and> length d = 4 \<and> length e = 12)"
  by (auto simp: map_eq_Cons_conv)

lemma uuid_groups_shape:
  assumes "uuid_groups s gs"
  shows "uuid_shape s"
proof -
  from assms obtain a b c d e where gs: "gs = [a, b, c, d, e]"
    and l: "length a = 8" "length b = 4" "length c = 4" "length d = 4" "length e = 12"
    unfolding uuid_groups_def length_five by blast
  let ?P = "\<lambda>(i, c). if i \<in> set uuid_dash_positions then c = CHR ''-'' else is_lower_hex c"
  have group: "list_all ?P (enumerate n g)"
    if "list_all is_lower_hex g" "{n..<n + length g} \<inter> set uuid_dash_positions = {}" for n g
    using that by (auto simp: list_all_length nth_enumerate_eq disjoint_iff)
  have "s = a @ CHR ''-'' # b @ CHR ''-'' # c @ CHR ''-'' # d @ CHR ''-'' # e"
    "list_all is_lower_hex a" "list_all is_lower_hex b" "list_all is_lower_hex c"
    "list_all is_lower_hex d" "list_all is_lower_hex e"
    using assms gs by (auto simp: uuid_groups_def)
  then show ?thesis
    using group [of a 0] group [of b 9] group [of c 14] group [of d 19] group [of e 24]
    by (simp add: uuid_shape_def enumerate_append_eq l uuid_dash_positions_def)
qed

lemma uuid_groups_filter:
  "uuid_groups s gs \<Longrightarrow> filter (\<lambda>c. c \<noteq> CHR ''-'') s = concat gs"
  unfolding uuid_groups_def length_five by (auto simp: filter_hex)

lemma format_uuid_groups:
  assumes "hex_laws x" "length bs = 16"
  shows "\<exists>gs. uuid_groups (format_uuid x bs) gs \<and> concat gs = hex_encode x bs"
proof -
  define h where "h = hex_encode x bs"
  have h: "length h = 32" "list_all is_lower_hex h"
    using assms by (auto simp: h_def hex_laws_def)
  let ?gs = "[take 8 h, take 4 (drop 8 h), take 4 (drop 12 h), take 4 (drop 16 h), take 12 (drop 20 h)]"
  have hex: "list_all is_lower_hex (take n (drop a h))" for a n
    using h(2) by (auto simp: list_all_iff dest: in_set_takeD in_set_dropD)
  have cut: "drop a h = take n (drop a h) @ drop (a + n) h" for a n
    by (metis append_take_drop_id drop_drop add.commute)
  have "concat ?gs = h"
    using cut [of 0 8] cut [of 8 4] cut [of 12 4] cut [of 16 4] h(1) by simp
  moreover have "uuid_groups (format_uuid x bs) ?gs"
    using h hex [of 8 0] hex [of 12 20] hex by (simp add: uuid_groups_def format_uuid_def Let_def flip: h_def)
  ultimately show ?thesis unfolding h_def by blast
qed

lemma parse_format_uuid:
  assumes "hex_laws x" "length bs = 16"
  shows "parse_uuid x (format_uuid x bs) = Inr bs"
proof -
  obtain gs where "uuid_groups (format_uuid x bs) gs" "concat gs = hex_encode x bs"
    using format_uuid_groups [OF assms] by blast
  then show ?thesis
    using assms by (simp add: parse_uuid_def uuid_groups_shape uuid_groups_filter hex_laws_def)
qed

lemma format_parse_uuid:
  assumes x: "hex_laws x" and p: "parse_uuid x s = Inr bs"
  shows "format_uuid x bs = s \<and> length bs = 16"
proof -
  have shape: "uuid_shape s" and bs: "length bs = 16"
    and d: "hex_decode x (filter (\<lambda>c. c \<noteq> CHR ''-'') s) = Inr bs"
    using p by (auto simp: parse_uuid_def split: if_splits sum.splits)
  from uuid_shape_groups [OF shape] obtain a b c d e where
    s: "s = a @ CHR ''-'' # b @ CHR ''-'' # c @ CHR ''-'' # d @ CHR ''-'' # e"
    and g: "uuid_groups s [a, b, c, d, e]"
    and l: "length a = 8" "length b = 4" "length c = 4" "length d = 4" "length e = 12"
    by (auto simp: uuid_groups_def)
  let ?h = "a @ b @ c @ d @ e"
  have h: "filter (\<lambda>c. c \<noteq> CHR ''-'') s = ?h"
    using uuid_groups_filter [OF g] by simp
  have "list_all is_lower_hex ?h" "even (length ?h)"
    using g l by (auto simp: uuid_groups_def)
  then have "hex_encode x bs = ?h"
    using x d h unfolding hex_laws_def by (metis Inr_inject)
  then show ?thesis using l s bs by (simp add: format_uuid_def Let_def)
qed

lemma id_from_to_string:
  assumes "hex_laws x" "id_try_from_bytes x (id_as_bytes i) = Inr i" "id_ok i"
  shows "id_from_str x (id_to_string x i) = Inr i"
  using assms by (simp add: id_from_str_def id_to_string_def parse_format_uuid id_ok_def)

lemma id_to_from_string:
  assumes "hex_laws x" "id_from_str x s = Inr i"
  shows "id_to_string x i = s \<and> id_ok i"
  using assms format_parse_uuid [OF assms(1), of s]
  by (auto simp: id_from_str_def id_to_string_def id_try_from_bytes_def id_ok_def result_simps
      split: if_splits)

section \<open>Lemmas on hashes\<close>

lemma strip_prefix_append [simp]: "strip_prefix p (p @ s) = Some s"
  by (simp add: strip_prefix_def)

lemma strip_prefix_eq_Some: "strip_prefix p s = Some t \<longleftrightarrow> s = p @ t"
  by (auto simp: strip_prefix_def) (metis append_take_drop_id)

lemma sha_from_to_string:
  assumes "hex_laws x" "sha_ok h"
  shows "sha_from_str x (sha_to_string x h) = Inr h"
proof -
  have "length (hex_encode x (sha_as_bytes h)) = 64" "list_all is_lower_hex (hex_encode x (sha_as_bytes h))"
    "hex_decode x (hex_encode x (sha_as_bytes h)) = Inr (sha_as_bytes h)"
    using assms by (auto simp: hex_laws_def sha_ok_def)
  then show ?thesis
    using assms(2) unfolding sha_from_str_def sha_to_string_def strip_prefix_append
    by (simp add: sha_ok_def)
qed

lemma sha_to_from_string:
  assumes x: "hex_laws x" and p: "sha_from_str x s = Inr h"
  shows "sha_to_string x h = s \<and> sha_ok h"
proof -
  from p obtain t bs where t: "strip_prefix ''sha256:'' s = Some t" "length t = 64"
    "list_all is_lower_hex t" "hex_decode x t = Inr bs" "length bs = 32" "h = Sha256 bs"
    by (auto simp: sha_from_str_def split: option.splits if_splits sum.splits)
  moreover from this x have "hex_encode x bs = t"
    unfolding hex_laws_def by (metis Inr_inject even_numeral)
  ultimately show ?thesis
    by (simp only: strip_prefix_eq_Some sha_to_string_def sha_ok_def sha256.sel)
qed

section \<open>Lemmas on decimal JSON integers\<close>

lemma starts_with_single: "starts_with [c] s \<longleftrightarrow> (\<exists>t. s = c # t)"
  by (cases s) (auto simp: starts_with_def)

lemma parse_decimal_show: "parse_decimal (json_u64_to_string w) = Inr w"
proof -
  have "\<not> starts_with ''+'' (show_nat (unat w))"
    using show_nat_hd_digit [of "unat w"] by (auto simp: starts_with_single)
  moreover have "\<not> (starts_with ''0'' (show_nat (unat w)) \<and> length (show_nat (unat w)) > 1)"
    using no_leading_zero_show_nat [of "unat w"] by (auto simp: starts_with_single no_leading_zero_def)
  moreover have "list_all is_digit (show_nat (unat w))"
    using all_digits_show_nat [of "unat w"] by (simp add: all_digits_def)
  ultimately show ?thesis by (simp add: parse_decimal_def json_u64_to_string_def)
qed

lemma show_parse_decimal:
  assumes "parse_decimal s = Inr w"
  shows "json_u64_to_string w = s"
proof -
  have "all_digits s" "no_leading_zero s" "parse_u64 s = Some w"
    using assms by (cases s; auto simp: parse_decimal_def all_digits_def no_leading_zero_def
        starts_with_single result_simps split: if_splits)+
  then show ?thesis by (simp add: json_u64_to_string_def show_parse_u64)
qed

lemma json_i64_from_to_string: "json_i64_from_str (json_i64_to_string w) = Some w"
proof -
  have "\<not> noncanonical_i64 (show_int (sint w))"
  proof (cases "sint w < 0")
    case True
    then have "hd (show_nat (nat (- sint w))) \<noteq> CHR ''0''" by (simp add: show_nat_hd_pos)
    with True show ?thesis
      by (cases "show_nat (nat (- sint w))")
        (auto simp: noncanonical_i64_def show_int_def starts_with_def)
  next
    case False
    then show ?thesis
      using show_nat_hd_digit [of "nat (sint w)"] no_leading_zero_show_nat [of "nat (sint w)"]
      by (cases "show_nat (nat (sint w))")
        (auto simp: noncanonical_i64_def show_int_def starts_with_def no_leading_zero_def)
  qed
  then show ?thesis by (simp add: json_i64_from_str_def json_i64_to_string_def)
qed

lemma json_i64_to_from_string:
  assumes "json_i64_from_str s = Some w"
  shows "json_i64_to_string w = s"
proof -
  have n: "\<not> noncanonical_i64 s" and p: "parse_i64 s = Some w"
    using assms by (auto simp: json_i64_from_str_def split: if_splits)
  have "hd t \<noteq> CHR ''0''" if "s = CHR ''-'' # t" for t
    using n p that by (cases t) (auto simp: noncanonical_i64_def starts_with_def parse_i64_def all_digits_def)
  moreover have "no_leading_zero s" "\<not> (\<exists>t. s = CHR ''+'' # t)"
    using n p by (cases s; auto simp: noncanonical_i64_def starts_with_def no_leading_zero_def)+
  ultimately show ?thesis using p by (auto simp: json_i64_to_string_def intro: show_parse_i64)
qed

section \<open>Lemmas on relative URIs\<close>

text \<open>
  Resolution of a path under a root directory, one component at a time, as a file system does
  it: a dot stays, two dots go up, anything else goes down.
\<close>

definition walk_step :: "string list \<Rightarrow> string \<Rightarrow> string list" where
  "walk_step dir p =
     (if p = [] \<or> p = ''.'' then dir else if p = ''..'' then butlast dir else dir @ [p])"

definition walk :: "string list \<Rightarrow> string \<Rightarrow> string list" where
  "walk root s = foldl walk_step root (split_on CHR ''/'' s)"

lemma foldl_walk_plain:
  "list_all (\<lambda>p. p \<noteq> [] \<and> p \<noteq> ''.'' \<and> p \<noteq> ''..'') ps \<Longrightarrow> foldl walk_step root ps = root @ ps"
  by (induction ps arbitrary: root) (auto simp: walk_step_def)

lemma uri_safe_walk: "uri_safe s \<Longrightarrow> walk root s = root @ split_on CHR ''/'' s"
  unfolding walk_def by (rule foldl_walk_plain) (auto simp: uri_safe_def list_all_iff list_ex_iff)

lemma walk_inj:
  assumes "uri_safe s" "uri_safe t" "walk root s = walk root t"
  shows "s = t"
proof -
  have "split_on CHR ''/'' s = split_on CHR ''/'' t"
    using assms by (simp add: uri_safe_walk)
  then show ?thesis by (metis join_split)
qed

section \<open>Lemmas on feature sets\<close>

lemma features_check_Inr:
  "features_check prev fs = Inr () \<longleftrightarrow>
     sorted_wrt (<) ((case prev of None \<Rightarrow> [] | Some p \<Rightarrow> [p]) @ fs)
     \<and> list_all (\<lambda>f. f \<noteq> [] \<and> list_all feature_char f) fs"
proof (induction prev fs rule: features_check.induct)
  case (2 prev f fs)
  show ?case
  proof (cases prev)
    case None
    with 2 show ?thesis by auto
  next
    case (Some p)
    with 2 show ?thesis by (auto simp: not_le dest: order_less_trans)
  qed
qed (auto split: option.split)

lemma feature_set_new_Inr:
  "feature_set_new fs = Inr s \<longleftrightarrow> s = FeatureSet fs \<and> feature_set_ok s"
  by (auto simp: feature_set_new_def result_simps features_check_Inr feature_set_ok_def)

lemma feature_contains_iff:
  "feature_set_ok fs \<Longrightarrow> feature_contains fs f \<longleftrightarrow> f \<in> set (features_as_slice fs)"
  using binary_search_by_key_iff [of "\<lambda>f. f" "features_as_slice fs" f]
  by (auto simp: feature_contains_def feature_set_ok_def split: sum.splits)

lemma require_supported_Inr:
  "require_supported fs known = Inr () \<longleftrightarrow> set (features_as_slice fs) \<subseteq> set known"
  by (auto simp: require_supported_def find_None_iff find_Some_iff subset_code(1)
      split: option.splits)

section \<open>Lemmas on two's complement\<close>

text \<open>The integer a big-endian two's complement byte string denotes.\<close>

definition twos_val :: "byte list \<Rightarrow> int" where
  "twos_val bs =
     (case bs of [] \<Rightarrow> 0
      | b # _ \<Rightarrow> int (be_val bs) - (if b AND 0x80 \<noteq> 0 then 256 ^ length bs else 0))"

lemma be_val_append: "be_val (xs @ ys) = be_val xs * 256 ^ length ys + be_val ys"
proof (induction ys rule: rev_induct)
  case (snoc y ys)
  then show ?case using be_val_snoc [of "xs @ ys" y]
    by (simp add: algebra_simps del: be_val_snoc) (simp add: algebra_simps)
qed simp

lemma be_val_Cons: "be_val (b # bs) = unat b * 256 ^ length bs + be_val bs"
  using be_val_append [of "[b]" bs] be_val_snoc [of "[]" b] by simp

lemma be_val_less_iff: "length xs = length ys \<Longrightarrow> be_val xs < be_val ys \<longleftrightarrow> xs < ys"
proof (induction xs ys rule: list_induct2)
  case (Cons x xs y ys)
  have lt: "be_val xs < 256 ^ length ys" "be_val ys < 256 ^ length ys"
    using be_val_lt [of xs] be_val_lt [of ys] Cons by auto
  have step: "unat a * n + p < unat b * n + q" if "unat a < unat b" "p < n" for a b :: byte and n p q :: nat
  proof -
    have "unat a * n + p < (unat a + 1) * n" using that by simp
    also have "\<dots> \<le> unat b * n" using that by (intro mult_right_mono) auto
    finally show ?thesis by simp
  qed
  show ?case
  proof (cases "x = y")
    case True
    with Cons show ?thesis by (simp add: be_val_Cons)
  next
    case False
    then have "x < y \<or> y < x" by auto
    then show ?thesis
      using False Cons.hyps lt step [of x y] step [of y x]
      by (auto simp: be_val_Cons word_less_nat_alt) (meson not_less_iff_gr_or_eq)+
  qed
qed simp

lemma be_val_inj: "length xs = length ys \<Longrightarrow> be_val xs = be_val ys \<Longrightarrow> xs = ys"
  by (metis to_be_be_val)

lemma msb_byte: "b AND 0x80 \<noteq> 0 \<longleftrightarrow> 128 \<le> unat (b :: byte)"
proof -
  have "b AND 0x80 = 0 \<longleftrightarrow> \<not> bit b 7"
    using and_exp_eq_0_iff_not_bit [of b 7] by simp
  moreover have "bit b 7 \<longleftrightarrow> odd (unat b div 128)"
    using bit_unsigned_iff [of b 7, where ?'a = nat] bit_iff_odd [of "unat b" 7] by simp
  moreover have "odd (unat b div 128) \<longleftrightarrow> 128 \<le> unat b"
  proof -
    have "unat b div 128 < 2" using unat_byte_lt [of b] by (simp add: less_mult_imp_div_less)
    moreover have "1 \<le> unat b div 128 \<longleftrightarrow> 128 \<le> unat b"
      by (simp add: div_greater_zero_iff Suc_le_eq)
    ultimately show ?thesis by (cases "unat b div 128 = 0") (auto simp: less_2_cases_iff)
  qed
  ultimately show ?thesis by simp
qed

lemma twos_val_nonneg:
  assumes "unat b < 128"
  shows "twos_val (b # bs) = int (be_val (b # bs))" "be_val (b # bs) < 128 * 256 ^ length bs"
proof -
  show "twos_val (b # bs) = int (be_val (b # bs))"
    using assms msb_byte [of b] by (simp add: twos_val_def)
  have "be_val (b # bs) < (unat b + 1) * 256 ^ length bs"
    using be_val_lt [of bs] by (simp add: be_val_Cons)
  also have "\<dots> \<le> 128 * 256 ^ length bs" using assms by (intro mult_right_mono) auto
  finally show "be_val (b # bs) < 128 * 256 ^ length bs" .
qed

lemma twos_val_neg:
  assumes "128 \<le> unat b"
  shows "twos_val (b # bs) = int (be_val (b # bs)) - 256 ^ length (b # bs)"
    and "- (128 * 256 ^ length bs) \<le> twos_val (b # bs)" and "twos_val (b # bs) < 0"
proof -
  show v: "twos_val (b # bs) = int (be_val (b # bs)) - 256 ^ length (b # bs)"
    using assms msb_byte [of b] by (simp add: twos_val_def)
  have "128 * 256 ^ length bs \<le> be_val (b # bs)"
    using assms by (simp add: be_val_Cons trans_le_add1 mult_right_mono)
  then have "int (128 * 256 ^ length bs) \<le> int (be_val (b # bs))" by (simp only: of_nat_le_iff)
  then show "- (128 * 256 ^ length bs) \<le> twos_val (b # bs)" by (simp add: v)
  have "int (be_val (b # bs)) < int (256 ^ length (b # bs))"
    using be_val_lt [of "b # bs"] by (simp only: of_nat_less_iff)
  then show "twos_val (b # bs) < 0" by (simp add: v)
qed

lemma minimal_nonneg_large:
  assumes "minimal_twos_complement (b # c # bs)" "unat b < 128"
  shows "128 * 256 ^ length bs \<le> be_val (b # c # bs)"
proof (cases "unat b = 0")
  case True
  then have "128 \<le> unat c" using assms msb_byte [of c] by (auto simp: unat_eq_0)
  with True show ?thesis by (simp add: be_val_Cons trans_le_add1 mult_right_mono)
next
  case False
  have "128 * 256 ^ length bs \<le> (1 :: nat) * 256 ^ length (c # bs)" by simp
  also have "\<dots> \<le> unat b * 256 ^ length (c # bs)"
    using False by (intro mult_right_mono) auto
  also have "\<dots> \<le> be_val (b # c # bs)" unfolding be_val_Cons [of b "c # bs"] by simp
  finally show ?thesis .
qed

lemma minimal_neg_small:
  assumes "minimal_twos_complement (b # c # bs)" "128 \<le> unat b"
  shows "twos_val (b # c # bs) < - (128 * 256 ^ length bs)"
proof -
  have "be_val (b # c # bs) < 255 * 256 ^ Suc (length bs) + 128 * 256 ^ length bs"
  proof (cases "b = 0xFF")
    case True
    then have "unat c < 128" using assms msb_byte [of c] by auto
    then show ?thesis using True twos_val_nonneg(2) [of c bs] be_val_Cons [of b "c # bs"] by simp
  next
    case False
    then have "unat b \<noteq> 255" by (auto simp: word_unat_eq_iff)
    with unat_byte_lt [of b] have "unat b < 255" by linarith
    then have "(unat b + 1) * 256 ^ Suc (length bs) \<le> 255 * 256 ^ Suc (length bs)"
      by (intro mult_right_mono) auto
    then show ?thesis using be_val_lt [of "c # bs"] be_val_Cons [of b "c # bs"]
      unfolding length_Cons add_mult_distrib by linarith
  qed
  then have "int (be_val (b # c # bs)) < int (255 * 256 ^ Suc (length bs) + 128 * 256 ^ length bs)"
    by (simp only: of_nat_less_iff)
  then show ?thesis using twos_val_neg(1) [OF assms(2), of "c # bs"] by simp
qed

text \<open>A longer minimal encoding of the same sign lies further from zero.\<close>

lemma minimal_length_order:
  assumes "minimal_twos_complement (r # rs)" "length ls < length rs"
  shows "unat l < 128 \<Longrightarrow> unat r < 128 \<Longrightarrow> twos_val (l # ls) < twos_val (r # rs)"
    and "128 \<le> unat l \<Longrightarrow> 128 \<le> unat r \<Longrightarrow> twos_val (r # rs) < twos_val (l # ls)"
proof -
  obtain c cs where rs: "rs = c # cs" using assms by (cases rs) auto
  have pow: "(256 :: nat) ^ length ls \<le> 256 ^ length cs"
    using assms rs by (intro power_increasing) auto
  show "twos_val (l # ls) < twos_val (r # rs)" if "unat l < 128" "unat r < 128"
  proof -
    have "be_val (l # ls) < 128 * 256 ^ length ls" by (rule twos_val_nonneg(2)) (fact that)
    also have "\<dots> \<le> 128 * 256 ^ length cs" using pow by (rule mult_left_mono) simp
    also have "\<dots> \<le> be_val (r # rs)" unfolding rs
      using assms(1) that(2) by (intro minimal_nonneg_large) (simp_all add: rs)
    finally show ?thesis using twos_val_nonneg(1) that by simp
  qed
  show "twos_val (r # rs) < twos_val (l # ls)" if "128 \<le> unat l" "128 \<le> unat r"
  proof -
    have "twos_val (r # rs) < - (128 * 256 ^ length cs)" unfolding rs
      using assms(1) that(2) by (intro minimal_neg_small) (simp_all add: rs)
    also have "\<dots> \<le> - (128 * 256 ^ length ls)"
      using assms rs by (simp add: power_increasing)
    also have "\<dots> \<le> twos_val (l # ls)" by (rule twos_val_neg(2)) (fact that)
    finally show ?thesis .
  qed
qed

lemma twos_val_same_length:
  assumes "length ls = length rs" "unat l < 128 \<longleftrightarrow> unat r < 128"
  shows "twos_val (l # ls) < twos_val (r # rs) \<longleftrightarrow> l # ls < r # rs"
    and "twos_val (l # ls) = twos_val (r # rs) \<longleftrightarrow> l # ls = r # rs"
proof -
  have v: "twos_val (l # ls) - twos_val (r # rs) = int (be_val (l # ls)) - int (be_val (r # rs))"
    using assms twos_val_nonneg(1) [of l ls] twos_val_nonneg(1) [of r rs]
      twos_val_neg(1) [of l ls] twos_val_neg(1) [of r rs]
    by (cases "unat l < 128") auto
  show "twos_val (l # ls) < twos_val (r # rs) \<longleftrightarrow> l # ls < r # rs"
    using v be_val_less_iff [of "l # ls" "r # rs"] assms by auto
  show "twos_val (l # ls) = twos_val (r # rs) \<longleftrightarrow> l # ls = r # rs"
    using v be_val_inj [of "l # ls" "r # rs"] assms by auto
qed

lemma signed_bytes_cmp_correct:
  assumes "minimal_twos_complement left" "minimal_twos_complement right"
  shows "signed_bytes_cmp left right = Some (cmp (twos_val left) (twos_val right))"
proof -
  obtain l ls r rs where lr: "left = l # ls" "right = r # rs"
    using assms by (cases left; cases right) auto
  have eq: "then_with (cmp (length left) (length right)) (cmp left right) = cmp (twos_val left) (twos_val right)"
    if "unat l < 128" "unat r < 128"
    using that assms minimal_length_order(1) [of r rs ls l] minimal_length_order(1) [of l ls rs r]
      twos_val_same_length [of ls rs l r]
    by (cases "length ls" "length rs" rule: linorder_cases) (auto simp: lr then_with_def cmp_def)
  have eq': "then_with (cmp (length right) (length left)) (cmp left right) = cmp (twos_val left) (twos_val right)"
    if "128 \<le> unat l" "128 \<le> unat r"
    using that assms minimal_length_order(2) [of r rs ls l] minimal_length_order(2) [of l ls rs r]
      twos_val_same_length [of ls rs l r]
    by (cases "length ls" "length rs" rule: linorder_cases) (auto simp: lr then_with_def cmp_def)
  show ?thesis
  proof (cases "unat l < 128"; cases "unat r < 128")
    assume "unat l < 128" "unat r < 128"
    then show ?thesis using eq msb_byte [of l] msb_byte [of r]
      by (simp add: signed_bytes_cmp_def lr Let_def)
  next
    assume a: "unat l < 128" "\<not> unat r < 128"
    then have "twos_val right < twos_val left"
      using twos_val_nonneg(1) [of l ls] twos_val_neg(3) [of r rs] lr by simp
    then show ?thesis using a msb_byte [of l] msb_byte [of r]
      by (simp add: signed_bytes_cmp_def lr Let_def cmp_def)
  next
    assume a: "\<not> unat l < 128" "unat r < 128"
    then have "twos_val left < twos_val right"
      using twos_val_nonneg(1) [of r rs] twos_val_neg(3) [of l ls] lr by simp
    then show ?thesis using a msb_byte [of l] msb_byte [of r]
      by (simp add: signed_bytes_cmp_def lr Let_def cmp_def)
  next
    assume "\<not> unat l < 128" "\<not> unat r < 128"
    then show ?thesis using eq' msb_byte [of l] msb_byte [of r]
      by (simp add: signed_bytes_cmp_def lr Let_def)
  qed
qed

section \<open>Lemmas on the JSON form of typed scalars\<close>

lemma hex_digit_props:
  assumes "d < 16"
  shows "is_lower_hex (hex_digit_char d)" "hex_digit_val (hex_digit_char d) = d"
  using assms
  by (auto simp: is_lower_hex_def hex_digit_char_def hex_digit_val_def is_digit_def)

lemma length_show_hex [simp]: "length (show_hex n v) = n"
  by (induction n arbitrary: v) auto

lemma lower_show_hex [simp]: "list_all is_lower_hex (show_hex n v)"
  by (induction n arbitrary: v) (auto simp: hex_digit_props)

lemma hex_val_show_hex: "hex_val (show_hex n v) = v mod 16 ^ n"
proof (induction n arbitrary: v)
  case (Suc n)
  have "hex_val (show_hex (Suc n) v) = (v div 16) mod 16 ^ n * 16 + v mod 16"
    using Suc [of "v div 16"] by (simp add: hex_val_def hex_digit_props)
  also have "\<dots> = v mod 16 ^ Suc n"
    by (simp add: mod_mult2_eq [of v 16 "16 ^ n"])
  finally show ?case .
qed (simp add: hex_val_def)

lemma take_hex_string_show:
  "take_hex_string (Some (CString (''0x'' @ show_hex n v))) n = Inr (word_of_nat (v mod 16 ^ n))"
  unfolding take_hex_string_def take_value_string_def
  by (simp only: option.case canonical_value.case and_then_simps strip_prefix_append
      length_show_hex lower_show_hex hex_val_show_hex simp_thms if_False)

lemma take_i64_string_show: "take_i64_string (Some (CString (show_int (sint v)))) = Inr v"
  using json_i64_from_to_string [of v]
  by (auto simp: take_i64_string_def json_i64_from_str_def json_i64_to_string_def split: if_splits)

lemma take_i32_show: "take_i32 (Some (CInteger (sint v))) = Inr v"
  using sint_greater_eq [of v] sint_less [of v] by (simp add: take_i32_def)

lemma uint_u32_bound: "0 \<le> uint (v :: u32) \<and> uint v < 2 ^ 32"
  using unsigned_less [of v, where ?'a = int] by simp

lemma take_decimal_show:
  assumes "hex_laws x"
  shows "take_decimal x (Some (CObject [(''precision'', CInteger (uint p)), (''scale'', CInteger (uint s)),
           (''unscaled_hex'', CString (hex_encode x u))])) = Inr (TDecimal p s u)"
  using assms uint_u32_bound [of p] uint_u32_bound [of s]
  by (simp add: take_decimal_def take_u32_field_def take_string_def take_value_string_def
      bt_get_def bt_remove_def hex_laws_def)

text \<open>The envelope: an object with a type name and, except for null, a value.\<close>

lemma scalar_from_envelope:
  "scalar_from_value x (CObject [(''type'', CString ty), (''value'', v)]) =
     and_then (scalar_of_typed_value x ty (Some v)) (\<lambda>s.
       and_then (map_err protocol_error_message (scalar_validate s)) (\<lambda>_. Inr s))"
  by (simp add: scalar_from_value_def take_string_def take_value_string_def bt_get_def
      bt_remove_def Let_def)

lemma scalar_ok_validate: "scalar_ok s \<Longrightarrow> scalar_validate s = Inr ()"
  by (cases s) auto

lemma ucast_u32_u64_u32: "(ucast (ucast v :: u64) :: u32) = v"
  using u32_try_from_u64_from_u32 [of v]
  by (simp add: u32_try_from_def u64_from_u32_def split: if_splits)

lemma scalar_from_to_value:
  assumes x: "hex_laws x" and s: "scalar_ok s"
  shows "scalar_from_value x (scalar_to_value x s) = Inr s"
proof -
  note valid = scalar_ok_validate [OF s]
  have hex: "hex_decode x (hex_encode x bs) = Inr bs" for bs
    using x by (simp add: hex_laws_def)
  show ?thesis
  proof (cases s)
    case TNull
    then show ?thesis
      by (simp add: scalar_to_value_def scalar_from_value_def take_string_def take_value_string_def
          bt_get_def bt_remove_def Let_def scalar_of_typed_value_def)
  next
    case (TFloat32 v)
    then show ?thesis using s
      by (simp add: scalar_to_value_def scalar_from_envelope scalar_of_typed_value_def
          take_hex_string_show [of 8, simplified] Let_def ucast_u32_u64_u32)
  next
    case (TFloat64 v)
    then show ?thesis using s
      by (simp add: scalar_to_value_def scalar_from_envelope scalar_of_typed_value_def
          take_hex_string_show [of 16, simplified] Let_def)
  next
    case (TUuid u)
    then show ?thesis using s parse_format_uuid [OF x, of "uuid_as_bytes u"]
      by (simp add: scalar_to_value_def scalar_from_envelope scalar_of_typed_value_def Let_def
          take_value_string_def uuid_to_string_def uuid_from_str_def)
  qed (use valid hex in \<open>simp_all add: scalar_to_value_def scalar_from_envelope
      scalar_of_typed_value_def Let_def take_value_string_def take_bool_def take_i32_show
      take_i64_string_show take_decimal_show [OF x]\<close>)
qed

section \<open>A concrete instance of the other crates\<close>

text \<open>
  Reference functions that satisfy the laws: lower-case hexadecimal, and a 32-byte stand-in for
  the digest. The witnesses use them.
\<close>

definition ref_hex_encode :: "byte list \<Rightarrow> string" where
  "ref_hex_encode bs = concat (map (\<lambda>b. show_hex 2 (unat b)) bs)"

fun ref_hex_decode :: "string \<Rightarrow> (string, byte list) result" where
  "ref_hex_decode [] = Inr []"
| "ref_hex_decode [c] = Inl ''odd length''"
| "ref_hex_decode (a # b # s) =
     (if is_lower_hex a \<and> is_lower_hex b
      then and_then (ref_hex_decode s) (\<lambda>bs. Inr (word_of_nat (hex_val [a, b]) # bs))
      else Inl ''invalid character'')"

definition sample_externals :: externals where
  "sample_externals =
     \<lparr>sha256_fn = (\<lambda>bs. to_be 32 (be_val bs)), hex_encode = ref_hex_encode,
      hex_decode = ref_hex_decode, json_quote = (\<lambda>s. CHR 0x22 # s @ [CHR 0x22]),
      zstd_decompress = (\<lambda>bs n. Inr bs)\<rparr>"

lemma hex_digit_char_val: "is_lower_hex c \<Longrightarrow> hex_digit_char (hex_digit_val c) = c \<and> hex_digit_val c < 16"
  by (auto simp: is_lower_hex_def hex_digit_char_def hex_digit_val_def is_digit_def)

lemma show_hex_2: "show_hex 2 v = [hex_digit_char (v div 16 mod 16), hex_digit_char (v mod 16)]"
  by (simp add: numeral_2_eq_2)

lemma hex_val_2: "hex_val [a, b] = hex_digit_val a * 16 + hex_digit_val b"
  by (simp add: hex_val_def)

lemma ref_hex_laws_encode:
  "length (ref_hex_encode bs) = 2 * length bs \<and> list_all is_lower_hex (ref_hex_encode bs)
   \<and> ref_hex_decode (ref_hex_encode bs) = Inr bs"
proof (induction bs)
  case (Cons b bs)
  have "unat b div 16 mod 16 * 16 + unat b mod 16 = unat b"
    using unat_byte_lt [of b] by (simp add: less_mult_imp_div_less)
  with Cons show ?case
    by (simp add: ref_hex_encode_def show_hex_2 hex_digit_props hex_val_2)
qed (simp add: ref_hex_encode_def)

lemma ref_hex_laws_decode:
  "even (length s) \<Longrightarrow> list_all is_lower_hex s \<Longrightarrow>
     \<exists>bs. ref_hex_decode s = Inr bs \<and> ref_hex_encode bs = s"
proof (induction s rule: ref_hex_decode.induct)
  case (3 a b s)
  then obtain bs where bs: "ref_hex_decode s = Inr bs" "ref_hex_encode bs = s" by auto
  have a: "hex_digit_char (hex_digit_val a) = a" "hex_digit_val a < 16"
    and b: "hex_digit_char (hex_digit_val b) = b" "hex_digit_val b < 16"
    using 3 hex_digit_char_val by auto
  have "unat (word_of_nat (hex_val [a, b]) :: byte) = hex_digit_val a * 16 + hex_digit_val b"
    using a b by (simp only: hex_val_2 unat_of_nat) simp
  then have "show_hex 2 (unat (word_of_nat (hex_val [a, b]) :: byte)) = [a, b]"
    using a b by (simp add: show_hex_2)
  then show ?case using bs 3 by (simp add: ref_hex_encode_def)
qed (simp_all add: ref_hex_encode_def)

lemma sample_laws: "hex_laws sample_externals" "sha_laws sample_externals"
  using ref_hex_laws_encode ref_hex_laws_decode
  by (auto simp: hex_laws_def sha_laws_def sample_externals_def)

section \<open>Properties\<close>

text \<open>
  The text form of an identifier is canonical. A text is accepted for exactly one
  identifier, a 16-byte version 7 UUID of variant 2, and it is the text the identifier prints.
\<close>

theorem id_text_canonical:
  assumes "hex_laws x"
  shows "id_from_str x s = Inr i \<longleftrightarrow>
    id_ok i \<and> id_try_from_bytes x (id_as_bytes i) = Inr i \<and> s = id_to_string x i"
proof
  assume p: "id_from_str x s = Inr i"
  then have "id_try_from_bytes x (id_as_bytes i) = Inr i"
    by (auto simp: id_from_str_def result_simps id_try_from_bytes_def split: if_splits)
  with id_to_from_string [OF assms p] show
    "id_ok i \<and> id_try_from_bytes x (id_as_bytes i) = Inr i \<and> s = id_to_string x i" by simp
qed (use id_from_to_string [OF assms] in auto)

definition sample_id :: id where
  "sample_id = Id [1, 0x89, 0x0A, 0x5D, 0xAC, 0x96, 0x77, 0x4B, 0xBC, 0xCE, 0xB3, 2, 9, 0x9A, 0x80, 0x57]"

lemma sample_id_ok: "id_ok sample_id" "id_try_from_bytes x (id_as_bytes sample_id) = Inr sample_id"
proof -
  have "drop_bit 4 (0x77 :: byte) = 7" "drop_bit 6 (0xBC :: byte) = 2" by code_simp+
  then show "id_ok sample_id" "id_try_from_bytes x (id_as_bytes sample_id) = Inr sample_id"
    by (simp_all add: sample_id_def id_ok_def id_try_from_bytes_def)
qed

theorem id_text_canonical_witness:
  "hex_laws sample_externals
   \<and> id_from_str sample_externals (id_to_string sample_externals sample_id) = Inr sample_id"
  using id_text_canonical [OF sample_laws(1), of "id_to_string sample_externals sample_id" sample_id]
  by (simp add: sample_laws sample_id_ok)

text \<open>
  The text form of a hash is canonical. \<open>Sha256::from_str\<close> accepts exactly the text that
  \<open>Display\<close> prints for a 32-byte hash.
\<close>

theorem sha_text_canonical:
  assumes "hex_laws x"
  shows "sha_from_str x s = Inr h \<longleftrightarrow> sha_ok h \<and> s = sha_to_string x h"
  using sha_to_from_string [OF assms] sha_from_to_string [OF assms] by auto

theorem sha_text_canonical_witness:
  "sha_from_str sample_externals (sha_to_string sample_externals (Sha256 (replicate 32 7))) =
     Inr (Sha256 (replicate 32 7))"
  using sha_text_canonical [OF sample_laws(1),
      of "sha_to_string sample_externals (Sha256 (replicate 32 7))" "Sha256 (replicate 32 7)"]
  by (simp add: sha_ok_def)

text \<open>
  The decimal strings of JSON integers are canonical: each 64-bit value has exactly one
  accepted text, its shortest decimal form, for the unsigned and for the signed type.
\<close>

theorem json_integers_canonical:
  "(parse_decimal s = Inr w \<longleftrightarrow> s = json_u64_to_string w)
   \<and> (json_i64_from_str s = Some v \<longleftrightarrow> s = json_i64_to_string v)"
  using show_parse_decimal [of s w] parse_decimal_show [of w] json_i64_to_from_string [of s v]
    json_i64_from_to_string [of v] by auto

text \<open>
  C26: an accepted relative URI stays below the root it is resolved against, and names one file
  only: resolving it component by component, as a file system does, appends its parts to the
  root, and two accepted URIs with the same place are the same text.
\<close>

theorem relative_uri_contained:
  assumes "uri_from_str s = Inr u"
  shows "walk root (uri_as_str u) = root @ split_on CHR ''/'' s
    \<and> (\<forall>t v. uri_from_str t = Inr v \<and> walk root t = walk root s \<longrightarrow> v = u)"
proof -
  have safe: "uri_safe t" "v = RelativeUri t" if "uri_from_str t = Inr v" for t v
    using that by (auto simp: uri_from_str_def split: if_splits)
  note s = safe [OF assms]
  have "v = u" if "uri_from_str t = Inr v" "walk root t = walk root s" for t v
    using safe [OF that(1)] s that(2) walk_inj [of t s root] by simp
  then show ?thesis using s by (auto simp: uri_safe_walk)
qed

theorem relative_uri_contained_witness:
  "walk [''tables''] (uri_as_str (RelativeUri ''objects/pages'')) = [''tables'', ''objects'', ''pages'']"
proof -
  have "uri_from_str ''objects/pages'' = Inr (RelativeUri ''objects/pages'')"
    by (simp add: uri_from_str_def uri_safe_def starts_with_def)
  from relative_uri_contained [OF this, of "[''tables'']"] show ?thesis by simp
qed

text \<open>
  C27: decimals of one precision and scale compare as the integers their big-endian two's
  complement bytes denote, whatever the lengths of the two encodings.
\<close>

theorem decimal_order_numeric:
  assumes "scalar_validate (TDecimal p s a) = Inr ()" "scalar_validate (TDecimal p s b) = Inr ()"
  shows "partial_cmp_same_type (TDecimal p s a) (TDecimal p s b) =
    Some (cmp (twos_val a) (twos_val b))"
  using assms signed_bytes_cmp_correct [of a b]
  by (auto simp: partial_cmp_same_type_def split: if_splits)

theorem decimal_order_numeric_witness:
  "partial_cmp_same_type (TDecimal 10 2 [0xFF, 0x7F]) (TDecimal 10 2 [5]) =
     Some (cmp (twos_val [0xFF, 0x7F]) (twos_val [5]))"
  by (rule decimal_order_numeric) (simp_all add: word_less_nat_alt)

text \<open>
  C28: a valid typed scalar survives its JSON form: reading back the object that is written
  gives the scalar, floats with their bits and decimals with their bytes.
\<close>

theorem scalar_json_roundtrip:
  assumes "hex_laws x" "scalar_ok s"
  shows "scalar_from_value x (scalar_to_value x s) = Inr s"
  using assms by (rule scalar_from_to_value)

theorem scalar_json_roundtrip_witness:
  "scalar_from_value sample_externals (scalar_to_value sample_externals (TDecimal 5 2 [1, 2])) =
     Inr (TDecimal 5 2 [1, 2])"
  by (rule scalar_json_roundtrip) (simp_all add: sample_laws usize_bound_def word_less_nat_alt)

text \<open>
  Membership in a feature set is decided by binary search, and is right for every set that
  was accepted; a reader passes \<open>require_supported\<close> only when it knows every feature.
\<close>

theorem feature_sets_sound:
  assumes "feature_set_new fs = Inr s"
  shows "(feature_contains s f \<longleftrightarrow> f \<in> set fs)
    \<and> (require_supported s known = Inr () \<longleftrightarrow> set fs \<subseteq> set known)"
  using assms feature_contains_iff [of s f] require_supported_Inr [of s known]
  by (auto simp: feature_set_new_Inr)

theorem feature_sets_sound_witness:
  "feature_contains (FeatureSet [''a.b'', ''pages-1'']) ''pages-1''"
proof -
  have "feature_set_new [''a.b'', ''pages-1''] = Inr (FeatureSet [''a.b'', ''pages-1''])"
    by code_simp
  from feature_sets_sound [OF this, of "''pages-1''" "[]"] show ?thesis by simp
qed

end
