(* ===== verification/Cbor.thy ===== *)
theory Cbor
  imports Values
begin

text \<open>
  The deterministic CBOR of \<^verbatim>\<open>otmp-protocol/src/cbor.rs\<close>: the encoder's primitives, the
  \<^verbatim>\<open>Decoder\<close> with its offset into the input, typed scalars and partition tuples.

  An encoder that appends to a \<^verbatim>\<open>&mut Vec<u8>\<close> returns the bytes it appends. A method of
  \<^verbatim>\<open>Decoder\<close> takes the decoder and returns the value together with the advanced decoder. The
  locale \<open>cbor_codec\<close> states what an encoder and a decoder method owe each other: the decoder
  reads the encoding back and stops right behind it, and it accepts nothing but the encoding.
\<close>

section \<open>Encoder primitives\<close>

definition major :: "byte \<Rightarrow> u64 \<Rightarrow> byte list" where
  "major kind value =
     (let prefix = push_bit 5 kind
      in if value \<le> 23 then [prefix OR ucast value]
         else if value \<le> 0xFF then [prefix OR 0x18, ucast value]
         else if value \<le> 0xFFFF then (prefix OR 0x19) # u16_to_be_bytes (ucast value)
         else if value \<le> 0xFFFFFFFF then (prefix OR 0x1A) # u32_to_be_bytes (ucast value)
         else (prefix OR 0x1B) # u64_to_be_bytes value)"

definition put_unsigned :: "u64 \<Rightarrow> byte list" where
  "put_unsigned value = major 0 value"

text \<open>\<^verbatim>\<open>i64::unsigned_abs\<close>.\<close>

definition unsigned_abs :: "i64 \<Rightarrow> u64" where
  "unsigned_abs v = word_of_int \<bar>sint v\<bar>"

definition put_integer :: "i64 \<Rightarrow> byte list" where
  "put_integer value =
     (if 0 \<le> sint value then put_unsigned (unsigned_abs value)
      else major 1 (unsigned_abs value - 1))"

definition put_bytes :: "byte list \<Rightarrow> byte list" where
  "put_bytes value = major 2 (u64_of_usize (length value)) @ value"

definition put_text :: "string \<Rightarrow> byte list" where
  "put_text value = major 3 (u64_of_usize (length value)) @ as_bytes value"

definition array_len :: "nat \<Rightarrow> byte list" where
  "array_len n = major 4 (u64_of_usize n)"

definition map_len :: "nat \<Rightarrow> byte list" where
  "map_len n = major 5 (u64_of_usize n)"

section \<open>Decoder primitives\<close>

record decoder =
  dbytes :: "byte list"
  doffset :: nat

type_synonym 'a decoded = "(protocol_error, 'a \<times> decoder) result"

definition decoder_new :: "byte list \<Rightarrow> decoder" where
  "decoder_new bs = \<lparr>dbytes = bs, doffset = 0\<rparr>"

definition decoder_byte :: "decoder \<Rightarrow> byte decoded" where
  "decoder_byte d =
     (if doffset d < length (dbytes d)
      then Inr (dbytes d ! doffset d, d\<lparr>doffset := doffset d + 1\<rparr>)
      else Inl (InvalidCbor ''unexpected end of CBOR''))"

definition decoder_take :: "nat \<Rightarrow> decoder \<Rightarrow> byte list decoded" where
  "decoder_take n d =
     (case usize_checked_add (doffset d) n of
        None \<Rightarrow> Inl (InvalidCbor ''CBOR offset overflow'')
      | Some e \<Rightarrow>
          (case get_range (dbytes d) (doffset d) e of
             None \<Rightarrow> Inl (InvalidCbor ''unexpected end of CBOR'')
           | Some bs \<Rightarrow> Inr (bs, d\<lparr>doffset := e\<rparr>)))"

definition decoder_finish :: "decoder \<Rightarrow> (protocol_error, unit) result" where
  "decoder_finish d =
     (if doffset d = length (dbytes d) then Inr ()
      else Inl (InvalidCbor ''trailing CBOR bytes''))"

text \<open>A fixed-width big-endian integer behind the head, refused when a shorter form exists.\<close>

definition head_wide :: "nat \<Rightarrow> u64 \<Rightarrow> decoder \<Rightarrow> u64 decoded" where
  "head_wide n limit d =
     and_then (decoder_take n d) (\<lambda>(bs, d).
       let value = word_of_nat (be_val bs)
       in if value \<le> limit then Inl (InvalidCbor ''non-shortest CBOR integer'') else Inr (value, d))"

definition decoder_head :: "decoder \<Rightarrow> (byte \<times> u64) decoded" where
  "decoder_head d =
     and_then (decoder_byte d) (\<lambda>(head, d).
       let kind = drop_bit 5 head; additional = head AND 0x1F
       in and_then
            (if additional \<le> 23 then Inr (ucast additional, d)
             else if additional = 24
               then and_then (decoder_byte d) (\<lambda>(b, d).
                      if ucast b < (24 :: u64) then Inl (InvalidCbor ''non-shortest CBOR integer'')
                      else Inr (ucast b, d))
             else if additional = 25 then head_wide 2 0xFF d
             else if additional = 26 then head_wide 4 0xFFFF d
             else if additional = 27 then head_wide 8 0xFFFFFFFF d
             else Inl (InvalidCbor ''indefinite or reserved CBOR form''))
            (\<lambda>(value, d). Inr ((kind, value), d)))"

definition decoder_unsigned :: "decoder \<Rightarrow> u64 decoded" where
  "decoder_unsigned d =
     and_then (decoder_head d) (\<lambda>((kind, value), d).
       if kind \<noteq> 0 then Inl (InvalidCbor ''expected unsigned integer'') else Inr (value, d))"

text \<open>\<^verbatim>\<open>i64::try_from(u64)\<close>.\<close>

definition i64_try_from :: "u64 \<Rightarrow> i64 option" where
  "i64_try_from v = (if unat v < 2 ^ 63 then Some v else None)"

definition decoder_integer :: "decoder \<Rightarrow> i64 decoded" where
  "decoder_integer d =
     and_then (decoder_head d) (\<lambda>((kind, value), d).
       if kind = 0
         then and_then (ok_or (InvalidCbor ''positive integer overflow'') (i64_try_from value))
                (\<lambda>v. Inr (v, d))
       else if kind = 1
         then and_then (ok_or (InvalidCbor ''negative integer overflow'') (i64_try_from value))
                (\<lambda>v. Inr (- 1 - v, d))
       else Inl (InvalidCbor ''expected signed integer''))"

definition decoder_length :: "byte \<Rightarrow> decoder \<Rightarrow> nat decoded" where
  "decoder_length expected_major d =
     and_then (decoder_head d) (\<lambda>((kind, value), d).
       if kind \<noteq> expected_major then Inl (InvalidCbor ''unexpected CBOR major type'')
       else and_then (ok_or (InvalidCbor ''CBOR length overflow'') (usize_try_from value))
              (\<lambda>n. Inr (n, d)))"

definition decoder_byte_string :: "decoder \<Rightarrow> byte list decoded" where
  "decoder_byte_string d = and_then (decoder_length 2 d) (\<lambda>(n, d). decoder_take n d)"

definition decoder_text :: "decoder \<Rightarrow> string decoded" where
  "decoder_text d =
     and_then (decoder_length 3 d) (\<lambda>(n, d).
       and_then (decoder_take n d) (\<lambda>(bs, d).
         if utf8_valid bs then Inr (string_of_bytes bs, d)
         else Inl (InvalidCbor ''CBOR text is not UTF-8'')))"

text \<open>\<^verbatim>\<open>for _ in 0..count\<close> with a \<^verbatim>\<open>push\<close> of what the body reads.\<close>

fun decode_n :: "nat \<Rightarrow> (decoder \<Rightarrow> 'a decoded) \<Rightarrow> decoder \<Rightarrow> 'a list decoded" where
  "decode_n 0 f d = Inr ([], d)"
| "decode_n (Suc n) f d =
     and_then (f d) (\<lambda>(x, d). and_then (decode_n n f d) (\<lambda>(xs, d). Inr (x # xs, d)))"

section \<open>Typed scalars\<close>

text \<open>\<^verbatim>\<open>i64::from(i32)\<close> and \<^verbatim>\<open>i32::try_from(i64)\<close>.\<close>

definition i64_from_i32 :: "i32 \<Rightarrow> i64" where
  "i64_from_i32 v = word_of_int (sint v)"

definition i32_try_from :: "i64 \<Rightarrow> i32 option" where
  "i32_try_from v =
     (if - (2 ^ 31) \<le> sint v \<and> sint v < 2 ^ 31 then Some (word_of_int (sint v)) else None)"

definition encode_typed_scalar :: "typed_scalar \<Rightarrow> byte list" where
  "encode_typed_scalar s =
     array_len 2 @
     (case s of
        TNull \<Rightarrow> put_unsigned 0 @ [0xF6]
      | TBoolean v \<Rightarrow> put_unsigned 1 @ [if v then 0xF5 else 0xF4]
      | TInt32 v \<Rightarrow> put_unsigned 2 @ put_integer (i64_from_i32 v)
      | TInt64 v \<Rightarrow> put_unsigned 3 @ put_integer v
      | TFloat32 v \<Rightarrow> put_unsigned 4 @ put_bytes (u32_to_be_bytes (canonical_f32 v))
      | TFloat64 v \<Rightarrow> put_unsigned 5 @ put_bytes (u64_to_be_bytes (canonical_f64 v))
      | TDecimal precision scale unscaled \<Rightarrow>
          put_unsigned 6 @ array_len 3 @ put_unsigned (u64_from_u32 precision)
          @ put_unsigned (u64_from_u32 scale) @ put_bytes unscaled
      | TDate v \<Rightarrow> put_unsigned 7 @ put_integer (i64_from_i32 v)
      | TTimeMicros v \<Rightarrow> put_unsigned 8 @ put_integer v
      | TTimestampMicros v \<Rightarrow> put_unsigned 9 @ put_integer v
      | TTimestamptzMicros v \<Rightarrow> put_unsigned 10 @ put_integer v
      | TString v \<Rightarrow> put_unsigned 11 @ put_text v
      | TBinary v \<Rightarrow> put_unsigned 12 @ put_bytes v
      | TFixed v \<Rightarrow> put_unsigned 13 @ put_bytes v
      | TUuid v \<Rightarrow> put_unsigned 14 @ put_bytes (uuid_as_bytes v))"

text \<open>\<^verbatim>\<open>try_into\<close> of a byte string to a fixed-size array.\<close>

definition byte_array :: "nat \<Rightarrow> string \<Rightarrow> decoder \<Rightarrow> byte list decoded" where
  "byte_array n message d =
     and_then (decoder_byte_string d) (\<lambda>(bs, d).
       if length bs = n then Inr (bs, d) else Inl (InvalidCbor message))"

definition decoder_uint32 :: "string \<Rightarrow> decoder \<Rightarrow> u32 decoded" where
  "decoder_uint32 message d =
     and_then (decoder_unsigned d) (\<lambda>(v, d).
       and_then (ok_or (InvalidCbor message) (u32_try_from v)) (\<lambda>w. Inr (w, d)))"

definition decoder_int32 :: "string \<Rightarrow> decoder \<Rightarrow> i32 decoded" where
  "decoder_int32 message d =
     and_then (decoder_integer d) (\<lambda>(v, d).
       and_then (ok_or (InvalidCbor message) (i32_try_from v)) (\<lambda>w. Inr (w, d)))"

definition map_value :: "('a \<Rightarrow> 'b) \<Rightarrow> 'a decoded \<Rightarrow> 'b decoded" where
  "map_value f r = and_then r (\<lambda>(x, d). Inr (f x, d))"

definition decode_null :: "decoder \<Rightarrow> typed_scalar decoded" where
  "decode_null d =
     and_then (decoder_byte d) (\<lambda>(b, d).
       if b \<noteq> 0xF6 then Inl (InvalidCbor ''null scalar payload must be CBOR null'')
       else Inr (TNull, d))"

definition decode_boolean :: "decoder \<Rightarrow> typed_scalar decoded" where
  "decode_boolean d =
     and_then (decoder_byte d) (\<lambda>(b, d).
       if b = 0xF4 then Inr (TBoolean False, d)
       else if b = 0xF5 then Inr (TBoolean True, d)
       else Inl (InvalidCbor ''boolean scalar payload is invalid''))"

definition decode_float32 :: "decoder \<Rightarrow> typed_scalar decoded" where
  "decode_float32 d =
     and_then (byte_array 4 ''float32 payload must have four bytes'' d) (\<lambda>(bs, d).
       let bits = u32_from_be_bytes bs
       in if f32_is_nan bits \<and> bits \<noteq> 0x7FC00000
          then Inl (InvalidCbor ''float32 NaN is not canonical'') else Inr (TFloat32 bits, d))"

definition decode_float64 :: "decoder \<Rightarrow> typed_scalar decoded" where
  "decode_float64 d =
     and_then (byte_array 8 ''float64 payload must have eight bytes'' d) (\<lambda>(bs, d).
       let bits = u64_from_be_bytes bs
       in if f64_is_nan bits \<and> bits \<noteq> 0x7FF8000000000000
          then Inl (InvalidCbor ''float64 NaN is not canonical'') else Inr (TFloat64 bits, d))"

definition decode_decimal :: "decoder \<Rightarrow> typed_scalar decoded" where
  "decode_decimal d =
     and_then (decoder_length 4 d) (\<lambda>(n, d).
       if n \<noteq> 3 then Inl (InvalidCbor ''decimal payload must be a three-element array'')
       else and_then (decoder_uint32 ''decimal precision overflow'' d) (\<lambda>(precision, d).
            and_then (decoder_uint32 ''decimal scale overflow'' d) (\<lambda>(scale, d).
            and_then (decoder_byte_string d) (\<lambda>(unscaled, d).
              if precision = 0 \<or> scale > precision \<or> \<not> minimal_twos_complement unscaled
              then Inl (InvalidCbor ''invalid decimal payload'')
              else Inr (TDecimal precision scale unscaled, d)))))"

definition decode_payload :: "u64 \<Rightarrow> decoder \<Rightarrow> typed_scalar decoded" where
  "decode_payload type_code d =
     (if type_code = 0 then decode_null d
      else if type_code = 1 then decode_boolean d
      else if type_code = 2 then map_value TInt32 (decoder_int32 ''int32 scalar is out of range'' d)
      else if type_code = 3 then map_value TInt64 (decoder_integer d)
      else if type_code = 4 then decode_float32 d
      else if type_code = 5 then decode_float64 d
      else if type_code = 6 then decode_decimal d
      else if type_code = 7 then map_value TDate (decoder_int32 ''date scalar is out of range'' d)
      else if type_code = 8 then map_value TTimeMicros (decoder_integer d)
      else if type_code = 9 then map_value TTimestampMicros (decoder_integer d)
      else if type_code = 10 then map_value TTimestamptzMicros (decoder_integer d)
      else if type_code = 11 then map_value TString (decoder_text d)
      else if type_code = 12 then map_value TBinary (decoder_byte_string d)
      else if type_code = 13 then map_value TFixed (decoder_byte_string d)
      else if type_code = 14
        then map_value (TUuid \<circ> UuidValue) (byte_array 16 ''UUID payload must have 16 bytes'' d)
      else Inl (InvalidCbor ''unknown typed scalar code''))"

definition decoder_typed_scalar :: "decoder \<Rightarrow> typed_scalar decoded" where
  "decoder_typed_scalar d =
     and_then (decoder_length 4 d) (\<lambda>(n, d).
       if n \<noteq> 2 then Inl (InvalidCbor ''typed scalar must be a two-element array'')
       else and_then (decoder_unsigned d) (\<lambda>(type_code, d).
            and_then (decode_payload type_code d) (\<lambda>(s, d).
            and_then (scalar_validate s) (\<lambda>_. Inr (s, d)))))"

definition decode_typed_scalar :: "byte list \<Rightarrow> (protocol_error, typed_scalar) result" where
  "decode_typed_scalar bs =
     and_then (decoder_typed_scalar (decoder_new bs)) (\<lambda>(s, d).
       and_then (decoder_finish d) (\<lambda>_. Inr s))"

section \<open>Partition tuples\<close>

definition encode_partition_tuple :: "(u32, typed_scalar) btree \<Rightarrow> byte list" where
  "encode_partition_tuple values =
     map_len (length values)
     @ concat (map (\<lambda>(field_id, v). put_unsigned (u64_from_u32 field_id) @ encode_typed_scalar v)
                 values)"

fun partition_entries :: "nat \<Rightarrow> u32 option \<Rightarrow> (u32, typed_scalar) btree \<Rightarrow> decoder
    \<Rightarrow> (u32, typed_scalar) btree decoded" where
  "partition_entries 0 previous values d = Inr (values, d)"
| "partition_entries (Suc n) previous values d =
     and_then (decoder_uint32 ''partition field ID overflow'' d) (\<lambda>(field_id, d).
       if field_id = 0 \<or> (case previous of None \<Rightarrow> False | Some prior \<Rightarrow> field_id \<le> prior)
       then Inl (InvalidCbor ''partition field IDs must be positive and sorted'')
       else and_then (decoder_typed_scalar d) (\<lambda>(v, d).
              partition_entries n (Some field_id) (bt_insert field_id v values) d))"

definition decode_partition_tuple :: "byte list
    \<Rightarrow> (protocol_error, (u32, typed_scalar) btree) result" where
  "decode_partition_tuple bs =
     and_then (decoder_length 5 (decoder_new bs)) (\<lambda>(count, d).
       and_then (partition_entries count None [] d) (\<lambda>(values, d).
         and_then (decoder_finish d) (\<lambda>_. Inr values)))"

section \<open>Codecs\<close>

text \<open>A decoder that has consumed \<open>pre\<close> and has \<open>s\<close> ahead of it.\<close>

definition at :: "byte list \<Rightarrow> byte list \<Rightarrow> decoder" where
  "at pre s = \<lparr>dbytes = pre @ s, doffset = length pre\<rparr>"

text \<open>A decoder method on the whole of an input.\<close>

definition complete :: "(decoder \<Rightarrow> 'a decoded) \<Rightarrow> byte list \<Rightarrow> (protocol_error, 'a) result" where
  "complete dec bs =
     and_then (dec (decoder_new bs)) (\<lambda>(x, d). and_then (decoder_finish d) (\<lambda>_. Inr x))"

lemma decoder_new_at: "decoder_new bs = at [] bs"
  by (simp add: decoder_new_def at_def)

lemma decoder_finish_at [simp]:
  "decoder_finish (at pre s) = (if s = [] then Inr () else Inl (InvalidCbor ''trailing CBOR bytes''))"
  by (simp add: decoder_finish_def at_def)

locale cbor_codec =
  fixes enc :: "'a \<Rightarrow> byte list"
    and dec :: "decoder \<Rightarrow> 'a decoded"
    and ok :: "'a \<Rightarrow> bool"
  assumes fwd: "ok x \<Longrightarrow> length (pre @ enc x @ r) < usize_bound \<Longrightarrow>
      dec (at pre (enc x @ r)) = Inr (x, at (pre @ enc x) r)"
    and bwd: "dec (at pre s) = Inr (x, d) \<Longrightarrow>
      ok x \<and> (\<exists>r. s = enc x @ r \<and> d = at (pre @ enc x) r)"
begin

lemma fwd_last:
  "ok x \<Longrightarrow> length (pre @ enc x) < usize_bound \<Longrightarrow>
     dec (at pre (enc x)) = Inr (x, at (pre @ enc x) [])"
  using fwd [of x pre "[]"] by simp

text \<open>No encoding is a proper prefix of another: what is decoded first is determined.\<close>

lemma prefix_free:
  assumes "ok x" "ok y" "enc x @ r = enc y @ r'" "length (enc x @ r) < usize_bound"
  shows "x = y \<and> r = r'"
proof -
  have "dec (at [] (enc x @ r)) = Inr (x, at (enc x) r)"
    using fwd [of x "[]" r] assms by simp
  moreover have "dec (at [] (enc x @ r)) = Inr (y, at (enc y) r')"
    using fwd [of y "[]" r'] assms by simp
  ultimately show ?thesis using assms(3) by simp
qed

lemma decode_n_fwd:
  "list_all ok xs \<Longrightarrow> length (pre @ concat (map enc xs) @ r) < usize_bound \<Longrightarrow>
     decode_n (length xs) dec (at pre (concat (map enc xs) @ r)) =
       Inr (xs, at (pre @ concat (map enc xs)) r)"
proof (induction xs arbitrary: pre)
  case (Cons x xs)
  then show ?case using Cons.IH [of "pre @ enc x"] by (simp add: fwd)
qed simp

lemma decode_n_bwd:
  "decode_n n dec (at pre s) = Inr (xs, d) \<Longrightarrow>
     length xs = n \<and> list_all ok xs
     \<and> (\<exists>r. s = concat (map enc xs) @ r \<and> d = at (pre @ concat (map enc xs)) r)"
proof (induction n arbitrary: pre s xs)
  case (Suc n)
  then obtain x d' ys where x: "dec (at pre s) = Inr (x, d')"
    and ys: "decode_n n dec d' = Inr (ys, d)" and xs: "xs = x # ys"
    by (auto simp: result_simps)
  from bwd [OF x] obtain r where "ok x" "s = enc x @ r" "d' = at (pre @ enc x) r" by auto
  with Suc.IH [of "pre @ enc x" r ys] ys xs show ?case by auto
qed simp

text \<open>Decoding a whole message is the inverse of encoding it, in both directions.\<close>

lemma complete_enc: "ok x \<Longrightarrow> length (enc x) < usize_bound \<Longrightarrow> complete dec (enc x) = Inr x"
  using fwd_last [of x "[]"] by (simp add: complete_def decoder_new_at)

lemma complete_Inr: "complete dec bs = Inr x \<Longrightarrow> ok x \<and> bs = enc x"
  by (auto simp: complete_def decoder_new_at result_simps split: if_splits dest!: bwd)

end

section \<open>The integer head\<close>

lemma at_byte [codec_simps]: "decoder_byte (at pre (b # r)) = Inr (b, at (pre @ [b]) r)"
  by (simp add: decoder_byte_def at_def nth_append)

lemma at_byte_dest [codec_dests]:
  "decoder_byte (at pre s) = Inr (b, d) \<Longrightarrow> \<exists>r. s = b # r \<and> d = at (pre @ [b]) r"
  by (cases s) (auto simp: decoder_byte_def at_def nth_append)

lemma at_take [codec_simps]:
  "length bs = n \<Longrightarrow> length pre + (n + length r) < usize_bound \<Longrightarrow>
     decoder_take n (at pre (bs @ r)) = Inr (bs, at (pre @ bs) r)"
  by (auto simp: decoder_take_def at_def usize_checked_add_def)

lemma at_take_dest [codec_dests]:
  assumes "decoder_take n (at pre s) = Inr (bs, d)"
  shows "length bs = n \<and> (\<exists>r. s = bs @ r \<and> d = at (pre @ bs) r)"
proof -
  have n: "n \<le> length s" "bs = take n s" "d = \<lparr>dbytes = pre @ s, doffset = length pre + n\<rparr>"
    using assms
    by (auto simp: decoder_take_def at_def usize_checked_add_def get_range_def split: if_splits)
  then have "s = bs @ drop n s" "d = at (pre @ bs) (drop n s)" by (simp_all add: at_def)
  moreover have "length bs = n" using n by simp
  ultimately show ?thesis by blast
qed

lemma head_wide_fwd:
  assumes "unat v < 256 ^ n" "limit < v" "length pre + (n + length r) < usize_bound"
  shows "head_wide n limit (at pre (to_be n (unat v) @ r)) = Inr (v, at (pre @ to_be n (unat v)) r)"
  using assms by (simp add: head_wide_def codec_simps be_val_to_be Let_def)

lemma head_wide_bwd:
  assumes "head_wide n limit (at pre s) = Inr (v, d)" "n \<le> 8"
  shows "limit < v \<and> unat v < 256 ^ n
    \<and> (\<exists>r. s = to_be n (unat v) @ r \<and> d = at (pre @ to_be n (unat v)) r)"
proof -
  obtain bs where bs: "decoder_take n (at pre s) = Inr (bs, d)"
    and v: "v = word_of_nat (be_val bs)" "\<not> v \<le> limit"
    using assms by (auto simp: head_wide_def result_simps Let_def split: if_splits)
  from at_take_dest [OF bs] obtain r where r: "length bs = n" "s = bs @ r" "d = at (pre @ bs) r"
    by auto
  have "be_val bs < 256 ^ n" using be_val_lt [of bs] r by simp
  moreover have "(256 :: nat) ^ n \<le> 256 ^ 8" using assms(2) by (rule power_increasing) simp
  ultimately have "be_val bs < 2 ^ 64" by simp
  then have "unat v = be_val bs" by (simp add: v unat_of_nat)
  then show ?thesis using \<open>be_val bs < 256 ^ n\<close> r v to_be_be_val [of bs] by auto
qed

text \<open>The first byte: the major type in the high three bits, the short count in the low five.\<close>

lemma head_byte_join: "push_bit 5 (drop_bit 5 h) OR (h AND 0x1F) = (h :: byte)"
proof -
  have "h AND 0x1F = take_bit 5 h" by (simp add: take_bit_eq_mask mask_eq_exp_minus_1)
  then show ?thesis by (auto intro!: bit_eqI simp: bit_simps)
qed

lemma head_byte_split:
  assumes "unat k < 8" "unat a < 32"
  shows "drop_bit 5 (push_bit 5 k OR a) = (k :: byte)" "(push_bit 5 k OR a) AND 0x1F = a"
proof -
  have m: "(0x1F :: byte) = mask 5" by (simp add: mask_eq_exp_minus_1)
  have a: "take_bit 5 a = a" using assms by (simp add: word_unat_eq_iff unsigned_take_bit_eq take_bit_nat_eq_self)
  have k: "take_bit 3 k = k" using assms by (simp add: word_unat_eq_iff unsigned_take_bit_eq take_bit_nat_eq_self)
  have "drop_bit 5 a = 0" using a by (metis drop_bit_take_bit diff_self_eq_0 take_bit_0)
  moreover have "drop_bit 5 (push_bit 5 k) = k"
  proof (rule bit_eqI)
    fix n
    have "bit k n \<longleftrightarrow> n < 3 \<and> bit k n" by (subst (1) k [symmetric]) (simp add: bit_take_bit_iff)
    then show "bit (drop_bit 5 (push_bit 5 k)) n \<longleftrightarrow> bit k n" by (auto simp: bit_simps)
  qed
  ultimately show "drop_bit 5 (push_bit 5 k OR a) = k" by simp
  have "take_bit 5 (push_bit 5 k) = 0" by (simp add: take_bit_push_bit)
  then show "(push_bit 5 k OR a) AND 0x1F = a"
    unfolding m by (simp flip: take_bit_eq_mask) (simp add: a)
qed


lemma unat_ucast_byte: "unat (v :: u64) < 256 \<Longrightarrow> unat (ucast v :: byte) = unat v"
  by (simp add: unsigned_ucast_eq take_bit_nat_eq_self)

lemma ucast_byte_u64: "unat (ucast (b :: byte) :: u64) = unat b" "(ucast (ucast b :: u64) :: byte) = b"
proof -
  have "unat b < 2 ^ 64" by (rule less_trans [OF unat_byte_lt]) simp
  then show "unat (ucast b :: u64) = unat b"
    by (simp add: unsigned_ucast_eq take_bit_nat_eq_self)
  then show "(ucast (ucast b :: u64) :: byte) = b"
    by (simp add: word_unat_eq_iff unat_ucast_byte)
qed

lemma ucast_ucast_byte: "unat (v :: u64) < 256 \<Longrightarrow> ucast (ucast v :: byte) = v"
  by (simp only: word_unat_eq_iff ucast_byte_u64 unat_ucast_byte)

text \<open>The five forms of a head, by the size of the value.\<close>

lemma major_forms:
  "unat v < 24 \<Longrightarrow> major k v = [push_bit 5 k OR ucast v]"
  "24 \<le> unat v \<Longrightarrow> unat v < 2 ^ 8 \<Longrightarrow> major k v = [push_bit 5 k OR 0x18, ucast v]"
  "2 ^ 8 \<le> unat v \<Longrightarrow> unat v < 2 ^ 16 \<Longrightarrow> major k v = (push_bit 5 k OR 0x19) # to_be 2 (unat v)"
  "2 ^ 16 \<le> unat v \<Longrightarrow> unat v < 2 ^ 32 \<Longrightarrow> major k v = (push_bit 5 k OR 0x1A) # to_be 4 (unat v)"
  "2 ^ 32 \<le> unat v \<Longrightarrow> major k v = (push_bit 5 k OR 0x1B) # to_be 8 (unat v)"
  by (simp_all add: major_def word_le_nat_alt u16_to_be_bytes_def u32_to_be_bytes_def
      u64_to_be_bytes_def unsigned_ucast_eq take_bit_nat_eq_self Let_def)

lemma head_fwd:
  assumes k: "unat k < 8" and b: "length (pre @ major k v @ r) < usize_bound"
  shows "decoder_head (at pre (major k v @ r)) = Inr ((k, v), at (pre @ major k v) r)"
proof -
  note split = head_byte_split [OF k]
  consider "unat v < 24" | "24 \<le> unat v" "unat v < 2 ^ 8" | "2 ^ 8 \<le> unat v" "unat v < 2 ^ 16"
    | "2 ^ 16 \<le> unat v" "unat v < 2 ^ 32" | "2 ^ 32 \<le> unat v" by linarith
  then show ?thesis
  proof cases
    case 1
    then have "unat (ucast v :: byte) < 32" "(ucast v :: byte) \<le> 23"
      by (simp_all add: unat_ucast_byte word_le_nat_alt)
    then show ?thesis using 1
      by (simp add: major_forms decoder_head_def codec_simps split Let_def ucast_ucast_byte
          del: drop_bit_or)
  next
    case 2
    then have "\<not> v < 24" by (simp add: word_less_nat_alt)
    then show ?thesis using 2
      by (simp add: major_forms decoder_head_def codec_simps split Let_def ucast_ucast_byte
          del: drop_bit_or)
  next
    case 3
    then have "0xFF < v" by (simp add: word_less_nat_alt)
    then show ?thesis using 3 b head_wide_fwd [of v 2 "0xFF" "pre @ [push_bit 5 k OR 0x19]" r]
      by (simp add: major_forms decoder_head_def codec_simps split Let_def
          del: drop_bit_or)
  next
    case 4
    then have "0xFFFF < v" by (simp add: word_less_nat_alt)
    then show ?thesis using 4 b head_wide_fwd [of v 4 "0xFFFF" "pre @ [push_bit 5 k OR 0x1A]" r]
      by (simp add: major_forms decoder_head_def codec_simps split Let_def
          del: drop_bit_or)
  next
    case 5
    then have "0xFFFFFFFF < v" by (simp add: word_less_nat_alt)
    then show ?thesis using 5 b head_wide_fwd [of v 8 "0xFFFFFFFF" "pre @ [push_bit 5 k OR 0x1B]" r]
      by (simp add: major_forms decoder_head_def codec_simps split Let_def
          del: drop_bit_or)
  qed
qed

lemma unat_drop_bit_5: "unat (drop_bit 5 (h :: byte)) < 8"
  by (simp only: unsigned_drop_bit_eq)
    (simp add: drop_bit_eq_div take_bit_nat_eq_self less_mult_imp_div_less)

lemma head_bwd:
  assumes "decoder_head (at pre s) = Inr ((k, v), d)"
  shows "unat k < 8 \<and> (\<exists>r. s = major k v @ r \<and> d = at (pre @ major k v) r)"
proof -
  from assms obtain h d' where "decoder_byte (at pre s) = Inr (h, d')"
    by (auto simp: decoder_head_def result_simps)
  then obtain t where s: "s = h # t" and d': "d' = at (pre @ [h]) t"
    by (auto dest: at_byte_dest)
  let ?a = "h AND 0x1F"
  have k: "k = drop_bit 5 h"
    using assms by (auto simp: decoder_head_def s codec_simps result_simps Let_def)
  have h: "push_bit 5 k OR ?a = h" unfolding k by (rule head_byte_join)
  let ?goal = "\<exists>r. h # t = major k v @ r \<and> d = at (pre @ major k v) r"
  have wide: ?goal if "head_wide n limit (at (pre @ [h]) t) = Inr (v, d)"
    and "n \<le> 8" and "limit < v \<Longrightarrow> unat v < 256 ^ n \<Longrightarrow> major k v = h # to_be n (unat v)" for n limit
    using head_wide_bwd [OF that(1,2)] that(3) by auto
  consider "?a \<le> 23" | "?a = 24" | "?a = 25" | "?a = 26" | "?a = 27"
    | "\<not> ?a \<le> 23" "?a \<noteq> 24" "?a \<noteq> 25" "?a \<noteq> 26" "?a \<noteq> 27" by blast
  then have ?goal
  proof cases
    case 1
    then have v: "v = ucast ?a" "d = at (pre @ [h]) t"
      using assms by (auto simp: decoder_head_def s codec_simps Let_def)
    have "unat v < 24" using 1 by (simp add: v ucast_byte_u64 word_le_nat_alt)
    then show ?thesis using v h by (simp add: major_forms ucast_byte_u64)
  next
    case 2
    with assms obtain b where b: "decoder_byte (at (pre @ [h]) t) = Inr (b, d)"
      "\<not> ucast b < (24 :: u64)" "v = ucast b"
      by (auto simp: decoder_head_def s codec_simps result_simps Let_def split: if_splits)
    then obtain r where r: "t = b # r" "d = at (pre @ [h, b]) r" by (auto dest: at_byte_dest)
    have "24 \<le> unat v" "unat v < 2 ^ 8"
      using b unat_byte_lt [of b] by (simp_all add: word_less_nat_alt ucast_byte_u64)
    then show ?thesis using b r h 2 by (simp add: major_forms ucast_byte_u64)
  next
    case 3
    then have "head_wide 2 0xFF (at (pre @ [h]) t) = Inr (v, d)"
      using assms by (auto simp: decoder_head_def s codec_simps result_simps Let_def)
    then show ?thesis by (rule wide) (use h 3 in \<open>simp_all add: major_forms word_less_nat_alt\<close>)
  next
    case 4
    then have "head_wide 4 0xFFFF (at (pre @ [h]) t) = Inr (v, d)"
      using assms by (auto simp: decoder_head_def s codec_simps result_simps Let_def)
    then show ?thesis by (rule wide) (use h 4 in \<open>simp_all add: major_forms word_less_nat_alt\<close>)
  next
    case 5
    then have "head_wide 8 0xFFFFFFFF (at (pre @ [h]) t) = Inr (v, d)"
      using assms by (auto simp: decoder_head_def s codec_simps result_simps Let_def)
    then show ?thesis by (rule wide) (use h 5 in \<open>simp_all add: major_forms word_less_nat_alt\<close>)
  next
    case 6
    then show ?thesis using assms by (simp add: decoder_head_def s codec_simps Let_def)
  qed
  then show ?thesis using s k unat_drop_bit_5 by simp
qed

interpretation head: cbor_codec "\<lambda>(k, v). major k v" decoder_head "\<lambda>(k, v). unat k < 8"
proof unfold_locales
  fix x :: "byte \<times> u64" and pre r
  assume "case x of (k, v) \<Rightarrow> unat k < 8"
    and "length (pre @ (case x of (k, v) \<Rightarrow> major k v) @ r) < usize_bound"
  then show "decoder_head (at pre ((case x of (k, v) \<Rightarrow> major k v) @ r)) =
      Inr (x, at (pre @ (case x of (k, v) \<Rightarrow> major k v)) r)"
    by (cases x) (simp add: head_fwd)
next
  fix x :: "byte \<times> u64" and pre s d
  assume "decoder_head (at pre s) = Inr (x, d)"
  then show "(case x of (k, v) \<Rightarrow> unat k < 8) \<and>
      (\<exists>r. s = (case x of (k, v) \<Rightarrow> major k v) @ r \<and> d = at (pre @ (case x of (k, v) \<Rightarrow> major k v)) r)"
    by (cases x) (simp add: head_bwd)
qed

section \<open>The primitive codecs\<close>

lemmas [codec_simps] = head_fwd
lemmas [codec_dests] = head_bwd

interpretation c_unsigned: cbor_codec put_unsigned decoder_unsigned "\<lambda>_. True"
  by unfold_locales
    (auto simp: decoder_unsigned_def put_unsigned_def codec_simps result_simps split: if_splits
      dest!: codec_dests)

lemma unat_less_iff_uint:
  "unat (v :: u64) < 9223372036854775808 \<longleftrightarrow> uint v < 9223372036854775808"
proof -
  have "unat v < 9223372036854775808 \<longleftrightarrow> int (unat v) < int 9223372036854775808"
    by (simp only: of_nat_less_iff)
  then show ?thesis by simp
qed

lemma sint_cases: "sint (v :: i64) = uint v - (if bit v 63 then 2 ^ 64 else 0)"
proof -
  have "take_bit 64 (uint v) = uint v"
    using uint_lt2p [of v] by (simp add: take_bit_int_eq_self_iff)
  then show ?thesis
    by (simp add: sint_uint signed_take_bit_eq_take_bit_minus bit_unsigned_iff)
qed

lemma sint_nonneg_iff: "0 \<le> sint (v :: i64) \<longleftrightarrow> unat v < 2 ^ 63"
proof
  assume nonneg: "0 \<le> sint v"
  have "uint v < 2 ^ 64" using unsigned_less [of v, where ?'a = int] by simp
  with nonneg have "sint v = uint v" by (auto simp: sint_cases split: if_splits)
  then show "unat v < 2 ^ 63" using sint_less [of v] by (simp add: unat_less_iff_uint)
next
  assume "unat v < 2 ^ 63"
  then have "\<not> bit v 63"
    using bit_iff_odd [of "uint v" 63] by (simp add: unat_less_iff_uint bit_unsigned_iff)
  then show "0 \<le> sint v" by (simp add: sint_cases)
qed

lemma unsigned_abs_nonneg:
  "0 \<le> sint v \<Longrightarrow> unsigned_abs v = v" "0 \<le> sint v \<Longrightarrow> unat v < 2 ^ 63"
  by (simp add: unsigned_abs_def) (simp only: sint_nonneg_iff)

lemma unsigned_abs_neg:
  assumes "sint v < 0"
  shows "unsigned_abs v - 1 = - 1 - v" "unat (- 1 - v) < 2 ^ 63"
proof -
  have "unsigned_abs v = - v" using assms by (simp add: unsigned_abs_def)
  then show "unsigned_abs v - 1 = - 1 - v" by simp
  have "sint (- 1 - v) = - 1 - sint v"
  proof -
    have "(- 1 - v) = word_of_int (- 1 - sint v)" by simp
    moreover have "sint (word_of_int (- 1 - sint v) :: i64) = - 1 - sint v"
      using assms sint_greater_eq [of v] by (intro sint_word_of_int) auto
    ultimately show ?thesis by (simp only:)
  qed
  then show "unat (- 1 - v) < 2 ^ 63"
    using assms by (intro unsigned_abs_nonneg) simp
qed

lemma sint_small: "unat (v :: i64) < 2 ^ 63 \<Longrightarrow> sint v = uint v"
  using sint_nonneg_iff [of v] uint_lt2p [of v] by (auto simp: sint_cases split: if_splits)

lemma integer_fwd:
  assumes "length (pre @ put_integer v @ r) < usize_bound"
  shows "decoder_integer (at pre (put_integer v @ r)) = Inr (v, at (pre @ put_integer v) r)"
proof (cases "0 \<le> sint v")
  case True
  then show ?thesis using assms unsigned_abs_nonneg [OF True]
    by (simp add: put_integer_def put_unsigned_def decoder_integer_def codec_simps i64_try_from_def)
next
  case False
  then have neg: "sint v < 0" by simp
  have "put_integer v = major 1 (- 1 - v)"
    using False unfolding put_integer_def unsigned_abs_neg(1) [OF neg] by simp
  moreover note unsigned_abs_neg(2) [OF neg]
  ultimately show ?thesis using assms
    by (simp add: decoder_integer_def codec_simps i64_try_from_def)
qed

lemma integer_bwd:
  assumes "decoder_integer (at pre s) = Inr (v, d)"
  shows "\<exists>r. s = put_integer v @ r \<and> d = at (pre @ put_integer v) r"
proof -
  from assms obtain k u where h: "decoder_head (at pre s) = Inr ((k, u), d)"
    and c: "k = 0 \<and> v = u \<or> k = 1 \<and> v = - 1 - u" and u: "unat u < 2 ^ 63"
    by (auto simp: decoder_integer_def result_simps i64_try_from_def split: if_splits)
  from head_bwd [OF h] obtain r where r: "s = major k u @ r" "d = at (pre @ major k u) r" by auto
  have "major k u = put_integer v"
  proof (cases "k = 0")
    case True
    then have "v = u" "0 \<le> sint v" using c sint_small [OF u] by auto
    with True show ?thesis using unsigned_abs_nonneg(1) [of v]
      by (simp add: put_integer_def put_unsigned_def)
  next
    case False
    then have v: "k = 1" "v = - 1 - u" using c by auto
    have "sint v = - 1 - uint u"
    proof -
      have "v = word_of_int (- 1 - uint u)" using v by simp
      moreover have "sint (word_of_int (- 1 - uint u) :: i64) = - 1 - uint u"
      proof (rule sint_word_of_int)
        have "0 \<le> uint u" "uint u < 9223372036854775808" using u unat_less_iff_uint [of u] by simp_all
        then show "- (2 ^ 63) \<le> - 1 - uint u" by simp
        show "- 1 - uint u < 2 ^ 63" by (rule order_le_less_trans [of _ "- 1"]) simp_all
      qed
      ultimately show ?thesis by (simp only:)
    qed
    then have "sint v < 0" using uint_ge_0 [of u] by linarith
    with v show ?thesis using unsigned_abs_neg(1) [of v] by (simp add: put_integer_def)
  qed
  with r show ?thesis by auto
qed

interpretation c_integer: cbor_codec put_integer decoder_integer "\<lambda>_. True"
  by unfold_locales (simp_all add: integer_fwd integer_bwd)

text \<open>Lengths, for the four major types that have one.\<close>

lemma length_fwd:
  assumes "unat k < 8" "n < usize_bound" "length (pre @ major k (u64_of_usize n) @ r) < usize_bound"
  shows "decoder_length k (at pre (major k (u64_of_usize n) @ r)) =
    Inr (n, at (pre @ major k (u64_of_usize n)) r)"
  using assms by (simp add: decoder_length_def codec_simps unat_u64_of_usize)

lemma length_bwd:
  assumes "decoder_length k (at pre s) = Inr (n, d)"
  shows "n < usize_bound
    \<and> (\<exists>r. s = major k (u64_of_usize n) @ r \<and> d = at (pre @ major k (u64_of_usize n)) r)"
proof -
  from assms obtain u where h: "decoder_head (at pre s) = Inr ((k, u), d)" and n: "n = unat u"
    by (auto simp: decoder_length_def result_simps split: if_splits)
  have "u64_of_usize n = u" "n < usize_bound" by (simp_all add: n u64_of_usize_def usize_bound_def)
  then show ?thesis using head_bwd [OF h] by auto
qed

interpretation c_array: cbor_codec array_len "decoder_length 4" "\<lambda>n. n < usize_bound"
  by unfold_locales (simp_all add: array_len_def length_fwd length_bwd)

interpretation c_map: cbor_codec map_len "decoder_length 5" "\<lambda>n. n < usize_bound"
  by unfold_locales (simp_all add: map_len_def length_fwd length_bwd)

interpretation c_bytes: cbor_codec put_bytes decoder_byte_string "\<lambda>bs. length bs < usize_bound"
  by unfold_locales
    (auto simp: decoder_byte_string_def put_bytes_def codec_simps length_fwd result_simps
      dest!: length_bwd at_take_dest)

interpretation c_text: cbor_codec put_text decoder_text string_ok
  by unfold_locales
    (auto simp: decoder_text_def put_text_def string_ok_def codec_simps length_fwd result_simps
      split: if_splits dest!: length_bwd at_take_dest)

interpretation c_uint32: cbor_codec "\<lambda>w. put_unsigned (u64_from_u32 w)" "decoder_uint32 m" "\<lambda>_. True" for m
  by unfold_locales
    (auto simp: decoder_uint32_def c_unsigned.fwd result_simps u32_try_from_eq_Some dest!: c_unsigned.bwd)

lemma i32_range: "- (2 ^ 31) \<le> sint (v :: i32)" "sint (v :: i32) < 2 ^ 31"
  using sint_greater_eq [of v] sint_less [of v] by simp_all

lemma sint_i64_from_i32: "sint (i64_from_i32 v) = sint v"
  unfolding i64_from_i32_def using i32_range [of v] by (intro sint_word_of_int) auto

lemma i32_try_from_eq_Some: "i32_try_from v = Some w \<longleftrightarrow> v = i64_from_i32 w"
proof
  assume "i32_try_from v = Some w"
  then have r: "- (2 ^ 31) \<le> sint v" "sint v < 2 ^ 31" and w: "w = word_of_int (sint v)"
    by (auto simp: i32_try_from_def split: if_splits)
  have "sint w = signed_take_bit 31 (sint v)" unfolding w by (simp only: sint_sbintrunc') simp
  then have "sint w = sint v" using r by (simp add: signed_take_bit_int_eq_self)
  then show "v = i64_from_i32 w" by (simp add: i64_from_i32_def)
next
  assume v: "v = i64_from_i32 w"
  show "i32_try_from v = Some w"
    using i32_range [of w] by (simp add: i32_try_from_def v sint_i64_from_i32)
qed

interpretation c_int32: cbor_codec "\<lambda>w. put_integer (i64_from_i32 w)" "decoder_int32 m" "\<lambda>_. True" for m
  by unfold_locales
    (auto simp: decoder_int32_def c_integer.fwd result_simps i32_try_from_eq_Some dest!: c_integer.bwd)

interpretation c_byte_array: cbor_codec put_bytes "byte_array n m" "\<lambda>bs. length bs = n \<and> n < usize_bound" for n m
  by unfold_locales
    (auto simp: byte_array_def c_bytes.fwd result_simps split: if_splits dest!: c_bytes.bwd)

lemmas [codec_simps] = c_unsigned.fwd c_integer.fwd c_array.fwd c_map.fwd c_bytes.fwd c_text.fwd
  c_uint32.fwd c_int32.fwd c_byte_array.fwd
  c_unsigned.fwd_last c_integer.fwd_last c_array.fwd_last c_map.fwd_last c_bytes.fwd_last
  c_text.fwd_last c_uint32.fwd_last c_int32.fwd_last c_byte_array.fwd_last

lemmas [codec_dests] = c_unsigned.bwd c_integer.bwd c_array.bwd c_map.bwd c_bytes.bwd c_text.bwd
  c_uint32.bwd c_int32.bwd c_byte_array.bwd

section \<open>The codec of typed scalars\<close>

lemma usize_small [simp]: "2 < usize_bound" "3 < usize_bound" "4 < usize_bound" "5 < usize_bound"
  "7 < usize_bound" "8 < usize_bound" "16 < usize_bound" "32 < usize_bound"
  by (simp_all add: usize_bound_def)

lemma canonical_f32_eq_iff: "canonical_f32 v = v \<longleftrightarrow> \<not> (f32_is_nan v \<and> v \<noteq> 0x7FC00000)"
  by (auto simp: canonical_f32_def)

lemma canonical_f64_eq_iff: "canonical_f64 v = v \<longleftrightarrow> \<not> (f64_is_nan v \<and> v \<noteq> 0x7FF8000000000000)"
  by (auto simp: canonical_f64_def)

lemma map_value_eq_Inr [result_simps]:
  "map_value f r = Inr p \<longleftrightarrow> (\<exists>x d. r = Inr (x, d) \<and> p = (f x, d))"
  by (auto simp: map_value_def result_simps)

lemma map_value_Inr [simp]: "map_value f (Inr (x, d)) = Inr (f x, d)"
  by (simp add: map_value_def)

lemmas payload_defs = decode_null_def decode_boolean_def decode_float32_def decode_float64_def
  decode_decimal_def

lemma typed_scalar_fwd:
  assumes s: "scalar_ok s" and b: "length (pre @ encode_typed_scalar s @ r) < usize_bound"
  shows "decoder_typed_scalar (at pre (encode_typed_scalar s @ r)) =
    Inr (s, at (pre @ encode_typed_scalar s) r)"
  using s b scalar_ok_validate [OF s]
  by (cases s; simp add: encode_typed_scalar_def decoder_typed_scalar_def decode_payload_def
      payload_defs codec_simps Let_def)
    (auto simp: canonical_f32_def canonical_f64_def split: if_splits)

text \<open>
  A payload that is accepted is the one the encoder writes behind its type code. The encoder's
  bytes are \<open>array_len 2\<close>, then these.
\<close>

lemma payload_bwd:
  assumes "decode_payload c (at pre s) = Inr (v, d)"
  shows "(scalar_validate v = Inr () \<longrightarrow> scalar_ok v)
    \<and> (\<exists>e r. encode_typed_scalar v = array_len 2 @ put_unsigned c @ e \<and> s = e @ r \<and> d = at (pre @ e) r)"
proof -
  note enc = encode_typed_scalar_def
  consider "c = 0" | "c = 1" | "c = 2" | "c = 3" | "c = 4" | "c = 5" | "c = 6" | "c = 7" | "c = 8"
    | "c = 9" | "c = 10" | "c = 11" | "c = 12" | "c = 13" | "c = 14"
    using assms by (fastforce simp: decode_payload_def split: if_splits)
  then show ?thesis
  proof cases
    case 1
    then show ?thesis using assms
      by (auto simp: decode_payload_def payload_defs result_simps enc split: if_splits dest!: at_byte_dest)
  next
    case 2
    then show ?thesis using assms
      by (auto simp: decode_payload_def payload_defs result_simps enc split: if_splits dest!: at_byte_dest)
  next
    case 3
    then show ?thesis using assms
      by (auto simp: decode_payload_def result_simps enc dest!: c_int32.bwd)
  next
    case 4
    then show ?thesis using assms
      by (auto simp: decode_payload_def result_simps enc dest!: c_integer.bwd)
  next
    case 5
    with assms obtain bs where bs: "byte_array 4 ''float32 payload must have four bytes'' (at pre s) = Inr (bs, d)"
      and v: "v = TFloat32 (u32_from_be_bytes bs)" "canonical_f32 (u32_from_be_bytes bs) = u32_from_be_bytes bs"
      by (auto simp: decode_payload_def payload_defs result_simps Let_def canonical_f32_eq_iff split: if_splits)
    from c_byte_array.bwd [OF bs] show ?thesis using 5
      by (auto simp: v enc u32_to_from_be_bytes)
  next
    case 6
    with assms obtain bs where bs: "byte_array 8 ''float64 payload must have eight bytes'' (at pre s) = Inr (bs, d)"
      and v: "v = TFloat64 (u64_from_be_bytes bs)" "canonical_f64 (u64_from_be_bytes bs) = u64_from_be_bytes bs"
      by (auto simp: decode_payload_def payload_defs result_simps Let_def canonical_f64_eq_iff split: if_splits)
    from c_byte_array.bwd [OF bs] show ?thesis using 6
      by (auto simp: v enc u64_to_from_be_bytes)
  next
    case 7
    then show ?thesis using assms
      by (auto simp: decode_payload_def payload_defs result_simps enc split: if_splits
          dest!: c_array.bwd c_uint32.bwd c_bytes.bwd)
  next
    case 8
    then show ?thesis using assms
      by (auto simp: decode_payload_def result_simps enc dest!: c_int32.bwd)
  next
    case 9
    then show ?thesis using assms
      by (auto simp: decode_payload_def result_simps enc dest!: c_integer.bwd)
  next
    case 10
    then show ?thesis using assms
      by (auto simp: decode_payload_def result_simps enc dest!: c_integer.bwd)
  next
    case 11
    then show ?thesis using assms
      by (auto simp: decode_payload_def result_simps enc dest!: c_integer.bwd)
  next
    case 12
    then show ?thesis using assms
      by (auto simp: decode_payload_def result_simps enc dest!: c_text.bwd)
  next
    case 13
    then show ?thesis using assms
      by (auto simp: decode_payload_def result_simps enc dest!: c_bytes.bwd)
  next
    case 14
    then show ?thesis using assms
      by (auto simp: decode_payload_def result_simps enc dest!: c_bytes.bwd)
  next
    case 15
    then show ?thesis using assms
      by (auto simp: decode_payload_def result_simps enc dest!: c_byte_array.bwd)
  qed
qed

lemma typed_scalar_bwd:
  assumes "decoder_typed_scalar (at pre s) = Inr (v, d)"
  shows "scalar_ok v
    \<and> (\<exists>r. s = encode_typed_scalar v @ r \<and> d = at (pre @ encode_typed_scalar v) r)"
proof -
  from assms obtain c d1 d2 where l: "decoder_length 4 (at pre s) = Inr (2, d1)"
    and u: "decoder_unsigned d1 = Inr (c, d2)" and p: "decode_payload c d2 = Inr (v, d)"
    and valid: "scalar_validate v = Inr ()"
    by (auto simp: decoder_typed_scalar_def result_simps split: if_splits)
  from c_array.bwd [OF l] obtain r1 where r1: "s = array_len 2 @ r1" "d1 = at (pre @ array_len 2) r1"
    by auto
  with u c_unsigned.bwd [of "pre @ array_len 2" r1 c d2] obtain r2
    where r2: "r1 = put_unsigned c @ r2" "d2 = at (pre @ array_len 2 @ put_unsigned c) r2" by auto
  with payload_bwd [OF p [unfolded r2]] valid r1 show ?thesis by auto
qed

interpretation c_scalar: cbor_codec encode_typed_scalar decoder_typed_scalar scalar_ok
  by unfold_locales (simp_all add: typed_scalar_fwd typed_scalar_bwd)

lemma decode_typed_scalar_complete: "decode_typed_scalar = complete decoder_typed_scalar"
  by (simp add: decode_typed_scalar_def complete_def fun_eq_iff)

section \<open>The codec of partition tuples\<close>

definition tuple_ok :: "(u32, typed_scalar) btree \<Rightarrow> bool" where
  "tuple_ok values = (bt_ok values \<and> list_all (\<lambda>(k, v). k \<noteq> 0 \<and> scalar_ok v) values)"

abbreviation tuple_entry :: "u32 \<times> typed_scalar \<Rightarrow> byte list" where
  "tuple_entry \<equiv> \<lambda>(k, v). put_unsigned (u64_from_u32 k) @ encode_typed_scalar v"

definition last_key :: "('k, 'v) btree \<Rightarrow> 'k option" where
  "last_key m = (if m = [] then None else Some (fst (last m)))"

lemma bt_ok_snoc:
  "bt_ok (m @ [(k, v)]) \<longleftrightarrow>
     bt_ok m \<and> (case last_key m of None \<Rightarrow> True | Some prior \<Rightarrow> prior < k)"
proof (cases m rule: rev_cases)
  case (snoc m' e)
  then show ?thesis
    by (auto simp: bt_ok_def last_key_def sorted_wrt_append intro: less_trans)
qed (simp add: bt_ok_def last_key_def)

lemma bt_insert_last: "\<forall>e \<in> set m. fst e < k \<Longrightarrow> bt_insert k v m = m @ [(k, v)]"
  by (induction m) auto

lemma bt_insert_snoc: "bt_ok (m @ [(k, v)]) \<Longrightarrow> bt_insert k v m = m @ [(k, v)]"
  by (rule bt_insert_last) (auto simp: bt_ok_def sorted_wrt_append)

lemma bt_ok_prefix: "bt_ok (m @ es) \<Longrightarrow> bt_ok m"
  by (simp add: bt_ok_def sorted_wrt_append)

lemma last_key_snoc [simp]: "last_key (m @ [(k, v)]) = Some k"
  by (simp add: last_key_def)

lemma partition_entries_fwd:
  "tuple_ok (acc @ es) \<Longrightarrow> length (pre @ concat (map tuple_entry es) @ r) < usize_bound \<Longrightarrow>
   partition_entries (length es) (last_key acc) acc (at pre (concat (map tuple_entry es) @ r)) =
     Inr (acc @ es, at (pre @ concat (map tuple_entry es)) r)"
proof (induction es arbitrary: acc pre)
  case (Cons e es)
  obtain k v where e: "e = (k, v)" by fastforce
  have ok: "bt_ok (acc @ [(k, v)])" "k \<noteq> 0" "scalar_ok v"
    using Cons.prems bt_ok_prefix [of "acc @ [(k, v)]" es] by (auto simp: tuple_ok_def e)
  have order: "\<not> (case last_key acc of None \<Rightarrow> False | Some prior \<Rightarrow> k \<le> prior)"
    using ok(1) by (auto simp: bt_ok_snoc split: option.splits)
  show ?case
    using Cons.prems ok order Cons.IH [of "acc @ [(k, v)]" "pre @ tuple_entry (k, v)"]
    by (simp add: e c_uint32.fwd c_scalar.fwd bt_insert_snoc)
qed simp

lemma partition_entries_bwd:
  "partition_entries n (last_key acc) acc (at pre s) = Inr (m, d) \<Longrightarrow> tuple_ok acc \<Longrightarrow>
   tuple_ok m \<and> (\<exists>es r. m = acc @ es \<and> length es = n \<and> s = concat (map tuple_entry es) @ r
     \<and> d = at (pre @ concat (map tuple_entry es)) r)"
proof (induction n arbitrary: acc pre s)
  case (Suc n)
  then obtain k d1 v d2 where k: "decoder_uint32 ''partition field ID overflow'' (at pre s) = Inr (k, d1)"
    and order: "k \<noteq> 0" "\<not> (case last_key acc of None \<Rightarrow> False | Some prior \<Rightarrow> k \<le> prior)"
    and v: "decoder_typed_scalar d1 = Inr (v, d2)"
    and rest: "partition_entries n (Some k) (bt_insert k v acc) d2 = Inr (m, d)"
    by (auto simp: result_simps split: if_splits)
  from c_uint32.bwd [OF k] obtain r1 where r1: "s = put_unsigned (u64_from_u32 k) @ r1"
    "d1 = at (pre @ put_unsigned (u64_from_u32 k)) r1" by auto
  from c_scalar.bwd [OF v [unfolded r1]] obtain r2 where r2: "r1 = encode_typed_scalar v @ r2"
    "d2 = at (pre @ tuple_entry (k, v)) r2" and vok: "scalar_ok v" by auto
  have "bt_ok (acc @ [(k, v)])"
    using Suc.prems order by (auto simp: bt_ok_snoc tuple_ok_def split: option.splits)
  then have ok: "tuple_ok (acc @ [(k, v)])" "bt_insert k v acc = acc @ [(k, v)]"
    using Suc.prems order vok by (auto simp: tuple_ok_def bt_insert_snoc)
  have "partition_entries n (last_key (acc @ [(k, v)])) (acc @ [(k, v)])
      (at (pre @ tuple_entry (k, v)) r2) = Inr (m, d)"
    using rest ok r2 by simp
  from Suc.IH [OF this ok(1)] obtain es r where "tuple_ok m" "m = acc @ (k, v) # es" "length es = n"
    "r2 = concat (map tuple_entry es) @ r"
    "d = at (pre @ concat (map tuple_entry ((k, v) # es))) r"
    by auto
  then show ?case unfolding r1 r2
    by (intro conjI exI [of _ "(k, v) # es"] exI [of _ r]) simp_all
qed auto

definition decoder_partition_tuple :: "decoder \<Rightarrow> (u32, typed_scalar) btree decoded" where
  "decoder_partition_tuple d =
     and_then (decoder_length 5 d) (\<lambda>(count, d). partition_entries count None [] d)"

interpretation c_tuple: cbor_codec encode_partition_tuple decoder_partition_tuple
  "\<lambda>values. tuple_ok values \<and> length values < usize_bound"
proof unfold_locales
  fix x pre r
  assume "tuple_ok x \<and> length x < usize_bound" "length (pre @ encode_partition_tuple x @ r) < usize_bound"
  then show "decoder_partition_tuple (at pre (encode_partition_tuple x @ r)) =
      Inr (x, at (pre @ encode_partition_tuple x) r)"
    using partition_entries_fwd [of "[]" x "pre @ map_len (length x)" r]
    by (simp add: decoder_partition_tuple_def encode_partition_tuple_def c_map.fwd last_key_def)
next
  fix pre s x d
  assume "decoder_partition_tuple (at pre s) = Inr (x, d)"
  then obtain n d1 where n: "decoder_length 5 (at pre s) = Inr (n, d1)"
    and es: "partition_entries n None [] d1 = Inr (x, d)"
    by (auto simp: decoder_partition_tuple_def result_simps)
  from c_map.bwd [OF n] obtain r1 where r1: "n < usize_bound" "s = map_len n @ r1"
    "d1 = at (pre @ map_len n) r1" by auto
  from partition_entries_bwd [of n "[]" "pre @ map_len n" r1 x d] es r1
  show "(tuple_ok x \<and> length x < usize_bound) \<and>
      (\<exists>r. s = encode_partition_tuple x @ r \<and> d = at (pre @ encode_partition_tuple x) r)"
    by (auto simp: last_key_def tuple_ok_def bt_ok_def encode_partition_tuple_def)
qed

lemma decode_partition_tuple_complete:
  "decode_partition_tuple = complete decoder_partition_tuple"
  by (auto simp: decode_partition_tuple_def complete_def decoder_partition_tuple_def fun_eq_iff
      and_then_def split: sum.splits)

section \<open>Properties\<close>

text \<open>
  C15: deterministic CBOR of typed scalars. The decoder accepts exactly one byte string for each
  valid scalar, the one the encoder writes: encoding then decoding is the identity, and no other
  form (longer integers, other NaN bits, trailing bytes, non-minimal decimals) is read.
\<close>

theorem typed_scalar_codec:
  assumes "length bs < usize_bound"
  shows "decode_typed_scalar bs = Inr s \<longleftrightarrow> scalar_ok s \<and> bs = encode_typed_scalar s"
  using assms c_scalar.complete_Inr [of bs s] c_scalar.complete_enc [of s]
  by (auto simp: decode_typed_scalar_complete)

theorem typed_scalar_codec_witness:
  "decode_typed_scalar [0x82, 0x03, 0x20] = Inr (TInt64 (- 1))"
proof -
  have "encode_typed_scalar (TInt64 (- 1)) = [0x82, 0x03, 0x20]" by code_simp
  then show ?thesis
    using typed_scalar_codec [of "[0x82, 0x03, 0x20]" "TInt64 (- 1)"] by (simp add: usize_bound_def)
qed

text \<open>
  C24: deterministic CBOR of partition tuples. A tuple with positive, strictly ascending field
  identifiers is read back from its encoding, and the decoder accepts nothing else.
\<close>

theorem partition_tuple_codec:
  assumes "length bs < usize_bound"
  shows "decode_partition_tuple bs = Inr vs \<longleftrightarrow>
    tuple_ok vs \<and> length vs < usize_bound \<and> bs = encode_partition_tuple vs"
  using assms c_tuple.complete_Inr [of bs vs] c_tuple.complete_enc [of vs]
  by (auto simp: decode_partition_tuple_complete)

theorem partition_tuple_codec_witness:
  "decode_partition_tuple (encode_partition_tuple [(1, TBoolean True), (7, TNull)]) =
     Inr [(1, TBoolean True), (7, TNull)]"
proof -
  have "encode_partition_tuple [(1, TBoolean True), (7, TNull)] =
      [0xA2, 1, 0x82, 1, 0xF5, 7, 0x82, 0, 0xF6]" by code_simp
  then show ?thesis
    using partition_tuple_codec [of "encode_partition_tuple [(1, TBoolean True), (7, TNull)]"
        "[(1, TBoolean True), (7, TNull)]"]
    by (simp add: usize_bound_def tuple_ok_def bt_ok_def)
qed

end
