(* ===== verification/Page_Map.thy ===== *)
theory Page_Map
  imports Cbor
begin

text \<open>
  The nodes of a page map, \<^verbatim>\<open>otmp-protocol/src/page_map.rs\<close>: references to stored objects,
  leaf entries that locate a page inside a page pack, branches of internal nodes, the checks of
  \<^verbatim>\<open>PageMapNode::validate\<close>, and the deterministic CBOR form of a node.
\<close>

section \<open>Data\<close>

record page_object_reference =
  por_uri :: relative_uri
  por_sha256 :: sha256
  por_length :: u64

record page_map_root =
  pmr_uri :: relative_uri
  pmr_sha256 :: sha256
  pmr_length :: u64
  pmr_height :: u32

definition root_reference :: "page_map_root \<Rightarrow> page_object_reference" where
  "root_reference r = \<lparr>por_uri = pmr_uri r, por_sha256 = pmr_sha256 r, por_length = pmr_length r\<rparr>"

datatype page_codec = CodecNone | CodecZstd

record page_map_entry =
  pme_page_number :: u64
  pme_pack :: page_object_reference
  pme_offset :: u64
  pme_stored_length :: u32
  pme_raw_length :: u32
  pme_codec :: page_codec
  pme_page_sha256 :: sha256

record page_map_branch =
  pmb_max_page :: u64
  pmb_child :: page_object_reference

datatype page_map_node =
    PageLeaf "page_map_entry list"
  | PageInternal u32 "page_map_branch list"

definition max_page_map_bytes :: nat where
  "max_page_map_bytes = 1024 * 1024"

fun pm_level :: "page_map_node \<Rightarrow> u32" where
  "pm_level (PageLeaf _) = 0"
| "pm_level (PageInternal level _) = level"

definition last_opt :: "'a list \<Rightarrow> 'a option" where
  "last_opt xs = (if xs = [] then None else Some (last xs))"

fun pm_max_page :: "page_map_node \<Rightarrow> u64 option" where
  "pm_max_page (PageLeaf es) = map_option pme_page_number (last_opt es)"
| "pm_max_page (PageInternal _ bs) = map_option pmb_max_page (last_opt bs)"

section \<open>Validation\<close>

text \<open>\<^verbatim>\<open>(512..=65536).contains(&n) && n.is_power_of_two()\<close>.\<close>

definition page_size_ok :: "u32 \<Rightarrow> bool" where
  "page_size_ok n = (512 \<le> n \<and> n \<le> 65536 \<and> is_power_of_two n)"

text \<open>The closure \<^verbatim>\<open>check\<close>, which carries the previous page.\<close>

definition pm_check :: "u64 \<Rightarrow> u64 \<Rightarrow> page_object_reference \<Rightarrow> (protocol_error, u64) result" where
  "pm_check previous page reference =
     (if page \<le> previous \<or> por_length reference = 0
      then Inl (InvalidCbor ''invalid page-map ordering or reference length'') else Inr page)"

definition payload_range_bad :: "page_map_entry \<Rightarrow> bool" where
  "payload_range_bad e =
     (pme_stored_length e = 0 \<or> \<not> page_size_ok (pme_raw_length e)
      \<or> (case checked_add (pme_offset e) (u64_from_u32 (pme_stored_length e)) of
           None \<Rightarrow> True | Some e_end \<Rightarrow> por_length (pme_pack e) < e_end)
      \<or> (pme_codec e = CodecNone \<and> pme_stored_length e \<noteq> pme_raw_length e))"

definition leaf_step :: "u64 \<Rightarrow> page_map_entry \<Rightarrow> (protocol_error, u64) result" where
  "leaf_step previous e =
     and_then (pm_check previous (pme_page_number e) (pme_pack e)) (\<lambda>previous.
       if payload_range_bad e then Inl (InvalidCbor ''invalid page-map payload range'')
       else Inr previous)"

definition branch_step :: "u64 \<Rightarrow> page_map_branch \<Rightarrow> (protocol_error, u64) result" where
  "branch_step previous b = pm_check previous (pmb_max_page b) (pmb_child b)"

fun pm_validate :: "page_map_node \<Rightarrow> (protocol_error, unit) result" where
  "pm_validate (PageLeaf entries) =
     (if entries = [] then Inl (InvalidCbor ''empty page-map node'')
      else and_then (try_fold leaf_step 0 entries) (\<lambda>_. Inr ()))"
| "pm_validate (PageInternal level entries) =
     (if level = 0 \<or> entries = []
      then Inl (InvalidCbor ''invalid internal page-map level or count'')
      else and_then (try_fold branch_step 0 entries) (\<lambda>_. Inr ()))"

section \<open>Encoding\<close>

definition encode_ref :: "page_object_reference \<Rightarrow> byte list" where
  "encode_ref r =
     map_len 3 @ put_text ''uri'' @ put_text (uri_as_str (por_uri r))
     @ put_text ''length'' @ put_unsigned (por_length r)
     @ put_text ''sha256'' @ put_bytes (sha_as_bytes (por_sha256 r))"

definition codec_name :: "page_codec \<Rightarrow> string" where
  "codec_name c = (case c of CodecNone \<Rightarrow> ''none'' | CodecZstd \<Rightarrow> ''zstd'')"

definition encode_leaf_entry :: "page_map_entry \<Rightarrow> byte list" where
  "encode_leaf_entry e =
     map_len 7 @ put_text ''pack'' @ encode_ref (pme_pack e)
     @ put_text ''codec'' @ put_text (codec_name (pme_codec e))
     @ put_text ''offset'' @ put_unsigned (pme_offset e)
     @ put_text ''raw_length'' @ put_unsigned (u64_from_u32 (pme_raw_length e))
     @ put_text ''page_number'' @ put_unsigned (pme_page_number e)
     @ put_text ''page_sha256'' @ put_bytes (sha_as_bytes (pme_page_sha256 e))
     @ put_text ''stored_length'' @ put_unsigned (u64_from_u32 (pme_stored_length e))"

definition encode_branch :: "page_map_branch \<Rightarrow> byte list" where
  "encode_branch b =
     map_len 2 @ put_text ''child'' @ encode_ref (pmb_child b)
     @ put_text ''max_page'' @ put_unsigned (pmb_max_page b)"

fun page_map_bytes :: "page_map_node \<Rightarrow> byte list" where
  "page_map_bytes (PageLeaf entries) =
     map_len 3 @ put_text ''entries'' @ array_len (length entries)
     @ concat (map encode_leaf_entry entries)
     @ put_text ''version'' @ put_unsigned 1 @ put_text ''node_type'' @ put_text ''leaf''"
| "page_map_bytes (PageInternal level entries) =
     map_len 4 @ put_text ''level'' @ put_unsigned (u64_from_u32 level)
     @ put_text ''entries'' @ array_len (length entries)
     @ concat (map encode_branch entries)
     @ put_text ''version'' @ put_unsigned 1 @ put_text ''node_type'' @ put_text ''internal''"

definition encode_page_map :: "page_map_node \<Rightarrow> (protocol_error, byte list) result" where
  "encode_page_map node =
     and_then (pm_validate node) (\<lambda>_.
       let output = page_map_bytes node
       in if length output > max_page_map_bytes
          then Inl (InvalidCbor ''page-map node exceeds 1 MiB'') else Inr output)"

section \<open>Decoding\<close>

text \<open>
  The helpers \<^verbatim>\<open>key\<close>, \<^verbatim>\<open>hash\<close> and \<^verbatim>\<open>reference\<close> occur in \<^verbatim>\<open>page_map.rs\<close> and, with other messages,
  in \<^verbatim>\<open>checkpoint_index.rs\<close>; the messages are arguments.
\<close>

definition key_with :: "string \<Rightarrow> string \<Rightarrow> decoder \<Rightarrow> unit decoded" where
  "key_with message expected d =
     and_then (decoder_text d) (\<lambda>(s, d).
       if s \<noteq> expected then Inl (InvalidCbor message) else Inr ((), d))"

definition hash_with :: "string \<Rightarrow> decoder \<Rightarrow> sha256 decoded" where
  "hash_with message d = map_value Sha256 (byte_array 32 message d)"

definition reference_with :: "string \<Rightarrow> string \<Rightarrow> string \<Rightarrow> decoder \<Rightarrow> page_object_reference decoded" where
  "reference_with fields_message key_message hash_message d =
     and_then (decoder_length 5 d) (\<lambda>(n, d).
       if n \<noteq> 3 then Inl (InvalidCbor fields_message)
       else and_then (key_with key_message ''uri'' d) (\<lambda>(_, d).
            and_then (decoder_text d) (\<lambda>(s, d).
            and_then (uri_from_str s) (\<lambda>uri.
            and_then (key_with key_message ''length'' d) (\<lambda>(_, d).
            and_then (decoder_unsigned d) (\<lambda>(len, d).
            and_then (key_with key_message ''sha256'' d) (\<lambda>(_, d).
            and_then (hash_with hash_message d) (\<lambda>(sha, d).
              Inr (\<lparr>por_uri = uri, por_sha256 = sha, por_length = len\<rparr>, d)))))))))"

definition pm_key :: "string \<Rightarrow> decoder \<Rightarrow> unit decoded" where
  "pm_key = key_with ''unexpected or noncanonical page-map key''"

definition pm_hash :: "decoder \<Rightarrow> sha256 decoded" where
  "pm_hash = hash_with ''page-map hash must be 32 raw bytes''"

definition pm_reference :: "decoder \<Rightarrow> page_object_reference decoded" where
  "pm_reference =
     reference_with ''invalid page-map reference fields''
       ''unexpected or noncanonical page-map key'' ''page-map hash must be 32 raw bytes''"

definition pm_uint32 :: "decoder \<Rightarrow> u32 decoded" where
  "pm_uint32 = decoder_uint32 ''page-map integer overflow''"

definition decode_codec :: "decoder \<Rightarrow> page_codec decoded" where
  "decode_codec d =
     and_then (decoder_text d) (\<lambda>(s, d).
       if s = ''none'' then Inr (CodecNone, d)
       else if s = ''zstd'' then Inr (CodecZstd, d)
       else Inl (InvalidCbor ''unknown page codec''))"

definition decode_leaf_entry :: "decoder \<Rightarrow> page_map_entry decoded" where
  "decode_leaf_entry d =
     and_then (decoder_length 5 d) (\<lambda>(n, d).
       if n \<noteq> 7 then Inl (InvalidCbor ''invalid page-map leaf fields'')
       else and_then (pm_key ''pack'' d) (\<lambda>(_, d).
            and_then (pm_reference d) (\<lambda>(pack, d).
            and_then (pm_key ''codec'' d) (\<lambda>(_, d).
            and_then (decode_codec d) (\<lambda>(codec, d).
            and_then (pm_key ''offset'' d) (\<lambda>(_, d).
            and_then (decoder_unsigned d) (\<lambda>(offset, d).
            and_then (pm_key ''raw_length'' d) (\<lambda>(_, d).
            and_then (pm_uint32 d) (\<lambda>(raw_length, d).
            and_then (pm_key ''page_number'' d) (\<lambda>(_, d).
            and_then (decoder_unsigned d) (\<lambda>(page_number, d).
            and_then (pm_key ''page_sha256'' d) (\<lambda>(_, d).
            and_then (pm_hash d) (\<lambda>(page_sha256, d).
            and_then (pm_key ''stored_length'' d) (\<lambda>(_, d).
            and_then (pm_uint32 d) (\<lambda>(stored_length, d).
              Inr (\<lparr>pme_page_number = page_number, pme_pack = pack, pme_offset = offset,
                    pme_stored_length = stored_length, pme_raw_length = raw_length,
                    pme_codec = codec, pme_page_sha256 = page_sha256\<rparr>, d))))))))))))))))"

definition decode_branch :: "decoder \<Rightarrow> page_map_branch decoded" where
  "decode_branch d =
     and_then (decoder_length 5 d) (\<lambda>(n, d).
       if n \<noteq> 2 then Inl (InvalidCbor ''invalid page-map branch fields'')
       else and_then (pm_key ''child'' d) (\<lambda>(_, d).
            and_then (pm_reference d) (\<lambda>(child, d).
            and_then (pm_key ''max_page'' d) (\<lambda>(_, d).
            and_then (decoder_unsigned d) (\<lambda>(max_page, d).
              Inr (\<lparr>pmb_max_page = max_page, pmb_child = child\<rparr>, d))))))"

text \<open>The closing fields of a node, its end, and the validation.\<close>

definition pm_trailer :: "string \<Rightarrow> page_map_node \<Rightarrow> decoder \<Rightarrow> (protocol_error, page_map_node) result" where
  "pm_trailer node_type node d =
     and_then (pm_key ''version'' d) (\<lambda>(_, d).
     and_then (decoder_unsigned d) (\<lambda>(version, d).
       if version \<noteq> 1 then Inl (InvalidCbor ''unsupported page-map version'')
       else and_then (pm_key ''node_type'' d) (\<lambda>(_, d).
            and_then (decoder_text d) (\<lambda>(s, d).
              if s \<noteq> node_type then Inl (InvalidCbor ''invalid page-map node type'')
              else and_then (decoder_finish d) (\<lambda>_.
                   and_then (pm_validate node) (\<lambda>_. Inr node))))))"

definition decode_page_map :: "byte list \<Rightarrow> (protocol_error, page_map_node) result" where
  "decode_page_map input =
     (if length input > max_page_map_bytes then Inl (InvalidCbor ''page-map node exceeds 1 MiB'')
      else and_then (decoder_length 5 (decoder_new input)) (\<lambda>(fields, d).
        and_then
          (if fields = 4 then and_then (pm_key ''level'' d) (\<lambda>(_, d). pm_uint32 d)
           else if fields = 3 then Inr (0, d)
           else Inl (InvalidCbor ''invalid page-map node fields''))
          (\<lambda>(level, d).
        and_then (pm_key ''entries'' d) (\<lambda>(_, d).
        and_then (decoder_length 4 d) (\<lambda>(count, d).
          if count = 0 \<or> count > length input
          then Inl (InvalidCbor ''invalid page-map entry count'')
          else if fields = 3
            then and_then (decode_n count decode_leaf_entry d) (\<lambda>(entries, d).
                   pm_trailer ''leaf'' (PageLeaf entries) d)
          else and_then (decode_n count decode_branch d) (\<lambda>(entries, d).
                   pm_trailer ''internal'' (PageInternal level entries) d))))))"

section \<open>Type invariants\<close>

definition reference_ok :: "page_object_reference \<Rightarrow> bool" where
  "reference_ok r = (uri_ok (por_uri r) \<and> sha_ok (por_sha256 r))"

definition entry_ok :: "page_map_entry \<Rightarrow> bool" where
  "entry_ok e = (reference_ok (pme_pack e) \<and> sha_ok (pme_page_sha256 e))"

definition branch_ok :: "page_map_branch \<Rightarrow> bool" where
  "branch_ok b = reference_ok (pmb_child b)"

fun pm_node_ok :: "page_map_node \<Rightarrow> bool" where
  "pm_node_ok (PageLeaf es) = list_all entry_ok es"
| "pm_node_ok (PageInternal _ bs) = list_all branch_ok bs"

section \<open>The codec of references, entries and branches\<close>

lemma utf8_valid_ascii: "list_all (\<lambda>c. (of_char c :: nat) < 128) s \<Longrightarrow> utf8_valid (as_bytes s)"
  by (induction s) (auto simp: as_bytes_def word_less_nat_alt)

lemma string_ok_ascii:
  "list_all (\<lambda>c. (of_char c :: nat) < 128) s \<Longrightarrow> length s < 18446744073709551616 \<Longrightarrow> string_ok s"
  by (simp add: string_ok_def utf8_valid_ascii usize_bound_def)

lemma string_ok_keys [simp]:
  "string_ok ''uri''" "string_ok ''length''" "string_ok ''sha256''" "string_ok ''pack''"
  "string_ok ''codec''" "string_ok ''none''" "string_ok ''zstd''" "string_ok ''offset''"
  "string_ok ''raw_length''" "string_ok ''page_number''" "string_ok ''page_sha256''"
  "string_ok ''stored_length''" "string_ok ''child''" "string_ok ''max_page''" "string_ok ''level''"
  "string_ok ''entries''" "string_ok ''version''" "string_ok ''node_type''" "string_ok ''leaf''"
  "string_ok ''internal''" "string_ok ''hashes''" "string_ok ''first_page''" "string_ok ''page_count''"
  by (simp_all add: string_ok_ascii)

interpretation c_key: cbor_codec "\<lambda>_ :: unit. put_text e" "key_with m e" "\<lambda>_. string_ok e" for m e
  by unfold_locales
    (auto simp: key_with_def c_text.fwd result_simps split: if_splits dest!: c_text.bwd)

lemma key_fwd:
  "string_ok e \<Longrightarrow> length (pre @ put_text e @ r) < usize_bound \<Longrightarrow>
     key_with m e (at pre (put_text e @ r)) = Inr ((), at (pre @ put_text e) r)"
  by (rule c_key.fwd)

interpretation c_hash: cbor_codec "\<lambda>h. put_bytes (sha_as_bytes h)" "hash_with m" sha_ok for m
proof unfold_locales
  fix x pre r
  assume "sha_ok x" "length (pre @ put_bytes (sha_as_bytes x) @ r) < usize_bound"
  then show "hash_with m (at pre (put_bytes (sha_as_bytes x) @ r)) =
      Inr (x, at (pre @ put_bytes (sha_as_bytes x)) r)"
    by (simp add: hash_with_def sha_ok_def c_byte_array.fwd)
next
  fix pre s x d
  assume "hash_with m (at pre s) = Inr (x, d)"
  then show "sha_ok x \<and> (\<exists>r. s = put_bytes (sha_as_bytes x) @ r \<and> d = at (pre @ put_bytes (sha_as_bytes x)) r)"
    by (auto simp: hash_with_def sha_ok_def result_simps dest!: c_byte_array.bwd)
qed

lemma uri_from_str_Inr: "uri_from_str s = Inr u \<longleftrightarrow> uri_safe s \<and> u = RelativeUri s"
  by (auto simp: uri_from_str_def)

lemmas key_dests = c_map.bwd c_array.bwd c_key.bwd c_hash.bwd c_unsigned.bwd c_uint32.bwd c_text.bwd
lemmas key_simps = c_map.fwd c_array.fwd key_fwd c_hash.fwd c_unsigned.fwd c_uint32.fwd c_text.fwd

interpretation c_ref: cbor_codec encode_ref "reference_with f k h" reference_ok for f k h
proof unfold_locales
  fix x :: page_object_reference and pre r
  assume "reference_ok x" "length (pre @ encode_ref x @ r) < usize_bound"
  then show "reference_with f k h (at pre (encode_ref x @ r)) = Inr (x, at (pre @ encode_ref x) r)"
    by (simp add: reference_with_def encode_ref_def reference_ok_def uri_ok_def key_simps
        uri_from_str_def)
next
  fix pre s x d
  assume "reference_with f k h (at pre s) = Inr (x, d)"
  then show "reference_ok x \<and> (\<exists>r. s = encode_ref x @ r \<and> d = at (pre @ encode_ref x) r)"
    by (auto simp: reference_with_def encode_ref_def reference_ok_def uri_ok_def result_simps
        uri_from_str_Inr split: if_splits dest!: key_dests)
qed

interpretation c_codec: cbor_codec "\<lambda>c. put_text (codec_name c)" decode_codec "\<lambda>_. True"
proof unfold_locales
  fix c pre r
  assume "length (pre @ put_text (codec_name c) @ r) < usize_bound"
  then show "decode_codec (at pre (put_text (codec_name c) @ r)) =
      Inr (c, at (pre @ put_text (codec_name c)) r)"
    by (cases c) (simp_all add: decode_codec_def codec_name_def c_text.fwd)
next
  fix pre s c d
  assume "decode_codec (at pre s) = Inr (c, d)"
  then show "True \<and> (\<exists>r. s = put_text (codec_name c) @ r \<and> d = at (pre @ put_text (codec_name c)) r)"
    by (auto simp: decode_codec_def codec_name_def result_simps split: if_splits dest!: c_text.bwd)
qed

lemmas pm_decoders = pm_key_def pm_hash_def pm_reference_def pm_uint32_def

interpretation c_branch: cbor_codec encode_branch decode_branch branch_ok
proof unfold_locales
  fix x :: page_map_branch and pre r
  assume "branch_ok x" "length (pre @ encode_branch x @ r) < usize_bound"
  then show "decode_branch (at pre (encode_branch x @ r)) = Inr (x, at (pre @ encode_branch x) r)"
    by (simp add: decode_branch_def encode_branch_def branch_ok_def pm_decoders key_simps c_ref.fwd)
next
  fix pre s x d
  assume "decode_branch (at pre s) = Inr (x, d)"
  then show "branch_ok x \<and> (\<exists>r. s = encode_branch x @ r \<and> d = at (pre @ encode_branch x) r)"
    by (auto simp: decode_branch_def encode_branch_def branch_ok_def pm_decoders result_simps
        split: if_splits dest!: key_dests c_ref.bwd)
qed

interpretation c_entry: cbor_codec encode_leaf_entry decode_leaf_entry entry_ok
proof unfold_locales
  fix x :: page_map_entry and pre r
  assume "entry_ok x" "length (pre @ encode_leaf_entry x @ r) < usize_bound"
  then show "decode_leaf_entry (at pre (encode_leaf_entry x @ r)) =
      Inr (x, at (pre @ encode_leaf_entry x) r)"
    by (simp add: decode_leaf_entry_def encode_leaf_entry_def entry_ok_def pm_decoders key_simps
        c_ref.fwd c_codec.fwd)
next
  fix pre s x d
  assume "decode_leaf_entry (at pre s) = Inr (x, d)"
  then show "entry_ok x \<and> (\<exists>r. s = encode_leaf_entry x @ r \<and> d = at (pre @ encode_leaf_entry x) r)"
    by (auto simp: decode_leaf_entry_def encode_leaf_entry_def entry_ok_def pm_decoders result_simps
        split: if_splits dest!: key_dests c_ref.bwd c_codec.bwd)
qed

section \<open>The codec of nodes\<close>

lemma pm_trailer_fwd:
  assumes "string_ok ty" "length (pre @ put_text ''version'' @ put_unsigned 1 @ put_text ''node_type'' @ put_text ty) < usize_bound"
  shows "pm_trailer ty node (at pre (put_text ''version'' @ put_unsigned 1 @ put_text ''node_type'' @ put_text ty)) =
    and_then (pm_validate node) (\<lambda>_. Inr node)"
  using assms by (simp add: pm_trailer_def pm_decoders key_simps c_text.fwd_last)

lemma pm_trailer_bwd:
  "pm_trailer ty node (at pre s) = Inr n \<Longrightarrow>
     n = node \<and> pm_validate node = Inr ()
     \<and> s = put_text ''version'' @ put_unsigned 1 @ put_text ''node_type'' @ put_text ty"
  by (auto simp: pm_trailer_def pm_decoders result_simps split: if_splits dest!: key_dests)

lemma major_nonempty [simp]: "major k v \<noteq> []" "0 < length (major k v)"
  by (auto simp: major_def Let_def)

lemma length_concat_ge: "(\<And>x. x \<in> set xs \<Longrightarrow> f x \<noteq> []) \<Longrightarrow> length xs \<le> length (concat (map f xs))"
proof (induction xs)
  case (Cons x xs)
  then have "0 < length (f x)" by simp
  moreover have "length xs \<le> length (concat (map f xs))" using Cons by simp
  ultimately show ?case by (simp only: list.map concat.simps length_append length_Cons)
qed simp

lemma entries_fit:
  "length es \<le> length (concat (map encode_leaf_entry es))"
  "length bs \<le> length (concat (map encode_branch bs))"
  by (rule length_concat_ge; simp add: encode_leaf_entry_def encode_branch_def map_len_def)+

lemma entries_fit_node:
  "length es \<le> length (page_map_bytes (PageLeaf es))"
  "length bs \<le> length (page_map_bytes (PageInternal l bs))"
  by (simp_all only: page_map_bytes.simps length_append trans_le_add1 trans_le_add2 entries_fit)

lemma max_page_map_usize: "n \<le> max_page_map_bytes \<Longrightarrow> n < usize_bound"
  by (simp add: max_page_map_bytes_def usize_bound_def)

lemma pm_validate_entries: "pm_validate (PageLeaf es) = Inr () \<Longrightarrow> es \<noteq> []"
  "pm_validate (PageInternal l bs) = Inr () \<Longrightarrow> bs \<noteq> []"
  by (auto split: if_splits)

lemma decode_page_map_bytes:
  assumes "pm_node_ok n" "pm_validate n = Inr ()" "length (page_map_bytes n) \<le> max_page_map_bytes"
  shows "decode_page_map (page_map_bytes n) = Inr n"
proof (cases n)
  case (PageLeaf es)
  have b: "length (page_map_bytes n) < usize_bound" using assms max_page_map_usize by simp
  have "length es < usize_bound" "es \<noteq> []"
    using le_less_trans [OF entries_fit_node(1) [of es]] b assms(2) pm_validate_entries(1) [of es]
    by (simp_all only: PageLeaf simp_thms)
  with assms b entries_fit_node(1) [of es] show ?thesis
    by (simp add: PageLeaf decode_page_map_def decoder_new_at pm_decoders key_simps
        c_entry.decode_n_fwd pm_trailer_fwd del: pm_validate.simps)
next
  case (PageInternal l bs)
  have b: "length (page_map_bytes n) < usize_bound" using assms max_page_map_usize by simp
  have "length bs < usize_bound" "bs \<noteq> []"
    using le_less_trans [OF entries_fit_node(2) [of bs l]] b assms(2) pm_validate_entries(2) [of l bs]
    by (simp_all only: PageInternal simp_thms)
  with assms b entries_fit_node(2) [of bs l] show ?thesis
    by (simp add: PageInternal decode_page_map_def decoder_new_at pm_decoders key_simps
        c_branch.decode_n_fwd pm_trailer_fwd del: pm_validate.simps)
qed

lemma decode_page_map_Inr:
  assumes "decode_page_map bs = Inr n"
  shows "pm_node_ok n \<and> pm_validate n = Inr () \<and> bs = page_map_bytes n
    \<and> length bs \<le> max_page_map_bytes"
proof -
  from assms obtain fields d1 level d2 d3 count d4
    where len: "length bs \<le> max_page_map_bytes"
      and f: "decoder_length 5 (at [] bs) = Inr (fields, d1)"
      and l: "(if fields = 4 then and_then (pm_key ''level'' d1) (\<lambda>(_, d). pm_uint32 d)
           else if fields = 3 then Inr (0, d1)
           else Inl (InvalidCbor ''invalid page-map node fields'')) = Inr (level, d2)"
      and k: "pm_key ''entries'' d2 = Inr ((), d3)"
      and c: "decoder_length 4 d3 = Inr (count, d4)"
      and rest: "(if fields = 3
            then and_then (decode_n count decode_leaf_entry d4) (\<lambda>(entries, d).
                   pm_trailer ''leaf'' (PageLeaf entries) d)
          else and_then (decode_n count decode_branch d4) (\<lambda>(entries, d).
                   pm_trailer ''internal'' (PageInternal level entries) d)) = Inr n"
    by (auto simp: decode_page_map_def decoder_new_at result_simps not_less
      split: if_split_asm)
  show ?thesis
  proof (cases "fields = 3")
    case True
    with f l k c rest len show ?thesis
      by (auto simp: pm_decoders result_simps dest!: key_dests c_entry.decode_n_bwd pm_trailer_bwd
          simp del: pm_validate.simps)
  next
    case False
    with f l k c rest len show ?thesis
      by (auto simp: pm_decoders result_simps dest!: key_dests c_branch.decode_n_bwd pm_trailer_bwd
          simp del: pm_validate.simps split: if_splits)
  qed
qed

lemma encode_page_map_Inr:
  "encode_page_map n = Inr bs \<longleftrightarrow>
     pm_validate n = Inr () \<and> bs = page_map_bytes n \<and> length bs \<le> max_page_map_bytes"
  by (auto simp: encode_page_map_def result_simps Let_def)

section \<open>What validation guarantees\<close>

lemma try_fold_ascending:
  fixes key :: "'a \<Rightarrow> 'k::linorder"
  assumes "\<And>p x. f p x = (if key x \<le> p \<or> bad x then Inl (e p x) else Inr (key x))"
  shows "(\<exists>t. try_fold f p xs = Inr t) \<longleftrightarrow> sorted_wrt (<) (p # map key xs) \<and> list_all (\<lambda>x. \<not> bad x) xs"
proof (induction xs arbitrary: p)
  case (Cons x xs)
  show ?case
  proof (cases "key x \<le> p \<or> bad x")
    case True
    then show ?thesis by (auto simp: assms)
  next
    case False
    then have "try_fold f p (x # xs) = try_fold f (key x) xs" by (simp add: assms)
    then show ?thesis using False Cons [of "key x"] by (auto simp: not_le dest: less_trans)
  qed
qed simp

text \<open>The payload range of an entry lies inside its pack.\<close>

definition payload_in_pack :: "page_map_entry \<Rightarrow> bool" where
  "payload_in_pack e =
     (0 < unat (pme_stored_length e) \<and> page_size_ok (pme_raw_length e)
      \<and> unat (pme_offset e) + unat (pme_stored_length e) \<le> unat (por_length (pme_pack e))
      \<and> (pme_codec e = CodecNone \<longrightarrow> pme_stored_length e = pme_raw_length e))"

lemma payload_range_ok: "\<not> payload_range_bad e \<longleftrightarrow> payload_in_pack e"
proof -
  let ?a = "pme_offset e" and ?b = "u64_from_u32 (pme_stored_length e)" and ?n = "por_length (pme_pack e)"
  have "(case checked_add ?a ?b of None \<Rightarrow> True | Some z \<Rightarrow> ?n < z) \<longleftrightarrow>
      \<not> unat ?a + unat (pme_stored_length e) \<le> unat ?n"
  proof (cases "checked_add ?a ?b")
    case None
    then have "2 ^ 64 \<le> unat ?a + unat (pme_stored_length e)"
      by (simp add: checked_add_def split: if_splits)
    then show ?thesis using None unat_lt_2p [of ?n] by (auto simp del: unat_u64_lt)
  next
    case (Some z)
    then show ?thesis using unat_checked_add [OF Some] by (simp add: word_less_nat_alt not_le)
  qed
  moreover have "pme_stored_length e = 0 \<longleftrightarrow> \<not> 0 < unat (pme_stored_length e)"
    by (simp add: unat_eq_0)
  ultimately show ?thesis unfolding payload_range_bad_def payload_in_pack_def by blast
qed

lemma pm_validate_leaf:
  "pm_validate (PageLeaf es) = Inr () \<longleftrightarrow>
     es \<noteq> [] \<and> sorted_wrt (<) (0 # map pme_page_number es)
     \<and> list_all (\<lambda>e. por_length (pme_pack e) \<noteq> 0 \<and> payload_in_pack e) es"
proof -
  have "(\<exists>t. try_fold leaf_step 0 es = Inr t) \<longleftrightarrow> sorted_wrt (<) (0 # map pme_page_number es)
      \<and> list_all (\<lambda>e. \<not> (por_length (pme_pack e) = 0 \<or> payload_range_bad e)) es"
    by (rule try_fold_ascending [where e = "\<lambda>p e. if pme_page_number e \<le> p \<or> por_length (pme_pack e) = 0
          then InvalidCbor ''invalid page-map ordering or reference length''
          else InvalidCbor ''invalid page-map payload range''"])
      (simp add: leaf_step_def pm_check_def)
  then show ?thesis by (auto simp: result_simps payload_range_ok)
qed

lemma pm_validate_internal:
  "pm_validate (PageInternal l bs) = Inr () \<longleftrightarrow>
     l \<noteq> 0 \<and> bs \<noteq> [] \<and> sorted_wrt (<) (0 # map pmb_max_page bs)
     \<and> list_all (\<lambda>b. por_length (pmb_child b) \<noteq> 0) bs"
proof -
  have "(\<exists>t. try_fold branch_step 0 bs = Inr t) \<longleftrightarrow> sorted_wrt (<) (0 # map pmb_max_page bs)
      \<and> list_all (\<lambda>b. \<not> por_length (pmb_child b) = 0) bs"
    by (rule try_fold_ascending [where e = "\<lambda>p e. InvalidCbor ''invalid page-map ordering or reference length''"])
      (simp add: branch_step_def pm_check_def)
  then show ?thesis by (auto simp: result_simps)
qed

section \<open>Properties\<close>

text \<open>
  C21: page-map nodes have one encoding. For a node within its types, encoding succeeds with a
  byte string exactly when decoding that byte string gives the node, so an object hash of the
  bytes identifies the node and a reader accepts nothing the writer would not write.
\<close>

theorem page_map_codec:
  "decode_page_map bs = Inr n \<longleftrightarrow> pm_node_ok n \<and> encode_page_map n = Inr bs"
  using decode_page_map_Inr [of bs n] decode_page_map_bytes [of n]
  by (auto simp: encode_page_map_Inr)

text \<open>
  What a reader may rely on in a decoded node. Page numbers (or the largest pages of the
  branches) are positive and strictly ascending; a leaf entry has a legal page size and its payload
  lies inside its pack, without wrap-around of offset plus length.
\<close>

theorem decoded_page_map_valid:
  assumes "decode_page_map bs = Inr n"
  shows "case n of
      PageLeaf es \<Rightarrow> es \<noteq> [] \<and> sorted_wrt (<) (0 # map pme_page_number es)
        \<and> (\<forall>e \<in> set es. page_size_ok (pme_raw_length e)
            \<and> unat (pme_offset e) + unat (pme_stored_length e) \<le> unat (por_length (pme_pack e)))
    | PageInternal l bs' \<Rightarrow> l \<noteq> 0 \<and> bs' \<noteq> [] \<and> sorted_wrt (<) (0 # map pmb_max_page bs')"
  using decode_page_map_Inr [OF assms] pm_validate_leaf pm_validate_internal
  by (auto simp: payload_in_pack_def list_all_iff split: page_map_node.split simp del: pm_validate.simps)

definition sample_ref :: page_object_reference where
  "sample_ref = \<lparr>por_uri = RelativeUri ''p'', por_sha256 = Sha256 (replicate 32 7), por_length = 4096\<rparr>"

definition sample_branch_node :: page_map_node where
  "sample_branch_node =
     PageInternal 1 [\<lparr>pmb_max_page = 3, pmb_child = sample_ref\<rparr>, \<lparr>pmb_max_page = 9, pmb_child = sample_ref\<rparr>]"

lemma reference_ok_sample: "reference_ok sample_ref"
  by (simp add: reference_ok_def sample_ref_def uri_ok_def sha_ok_def uri_safe_def starts_with_def
      string_ok_ascii)

lemma decode_sample_branch_node:
  "decode_page_map (page_map_bytes sample_branch_node) = Inr sample_branch_node"
proof (rule decode_page_map_bytes)
  show "pm_node_ok sample_branch_node"
    by (simp add: sample_branch_node_def branch_ok_def reference_ok_sample)
  show "pm_validate sample_branch_node = Inr ()"
    by (simp add: sample_branch_node_def branch_step_def pm_check_def sample_ref_def)
  have "length (page_map_bytes sample_branch_node) = 195"
    by code_simp
  then show "length (page_map_bytes sample_branch_node) \<le> max_page_map_bytes"
    by (simp add: max_page_map_bytes_def)
qed

theorem decoded_page_map_valid_witness:
  "decode_page_map (page_map_bytes sample_branch_node) = Inr sample_branch_node
   \<and> sorted_wrt (<) (0 # [3, 9 :: u64])"
  using decoded_page_map_valid [OF decode_sample_branch_node] decode_sample_branch_node
  by (simp add: sample_branch_node_def)

end
