(* ===== verification/Page_Pack.thy ===== *)
theory Page_Pack
  imports Page_Map "HOL-Library.Product_Lexorder"
begin

text \<open>
  Page packs, \<^verbatim>\<open>otmp-protocol/src/page_pack.rs\<close>: a 64-byte header, an index of 64-byte entries and
  the page payloads. The encoder fills a zeroed buffer by slice copies; the decoder checks the
  header, every index entry and that no two payloads overlap.
\<close>

section \<open>Data\<close>

record pack_index_entry =
  pie_page_number :: u64
  pie_offset :: u64
  pie_stored_length :: u32
  pie_raw_length :: u32
  pie_codec :: page_codec
  pie_page_sha256 :: sha256

record pack_index =
  pki_page_size :: u32
  pki_entries :: "pack_index_entry list"

record pack_header =
  pkh_page_size :: u32
  pkh_entry_count :: u32
  pkh_index_offset :: u64
  pkh_payload_offset :: u64

section \<open>Decoding\<close>

definition pack_number :: "nat \<Rightarrow> byte list \<Rightarrow> nat \<Rightarrow> (protocol_error, byte list) result" where
  "pack_number n bs start =
     (case usize_checked_add start n of
        None \<Rightarrow> Inl (InvalidObject ''pack offset overflow'')
      | Some e \<Rightarrow> ok_or (InvalidObject ''truncated pack'') (get_range bs start e))"

definition pack_magic :: "byte list" where
  "pack_magic = as_bytes ''OTMPPGPK''"

definition decode_pack_header :: "byte list \<Rightarrow> u64 \<Rightarrow> (protocol_error, pack_header) result" where
  "decode_pack_header header full_length =
     (if length header \<noteq> 64 \<or> take 8 header \<noteq> pack_magic
         \<or> take 8 (drop 8 header) \<noteq> [0, 1, 0, 0, 0, 0, 0, 0]
         \<or> list_ex (\<lambda>b. b \<noteq> 0) (take 24 (drop 40 header))
      then Inl (InvalidObject ''invalid page-pack header'')
      else and_then (pack_number 4 header 16) (\<lambda>p.
        let page_size = u32_from_be_bytes p
        in if \<not> page_size_ok page_size then Inl (InvalidObject ''invalid pack page size'')
           else and_then (pack_number 4 header 20) (\<lambda>c.
                and_then (pack_number 8 header 24) (\<lambda>i.
                and_then (pack_number 8 header 32) (\<lambda>po.
                  let entry_count = u32_from_be_bytes c;
                      index_offset = u64_from_be_bytes i;
                      payload_offset = u64_from_be_bytes po
                  in and_then (ok_or (InvalidObject ''pack index overflow'')
                                (checked_mul (u64_from_u32 entry_count) 64)) (\<lambda>size.
                     and_then (ok_or (InvalidObject ''pack index overflow'')
                                (checked_add index_offset size)) (\<lambda>index_end.
                       if entry_count = 0 \<or> index_offset < 64 \<or> index_end > payload_offset
                          \<or> payload_offset > full_length
                       then Inl (InvalidObject ''invalid pack index bounds'')
                       else Inr \<lparr>pkh_page_size = page_size, pkh_entry_count = entry_count,
                                 pkh_index_offset = index_offset,
                                 pkh_payload_offset = payload_offset\<rparr>)))))))"

record pack_loop =
  pl_entries :: "pack_index_entry list"
  pl_ranges :: "(u64 \<times> u64) list"
  pl_previous :: u64

definition pack_codec :: "byte \<Rightarrow> page_codec option" where
  "pack_codec b = (if b = 0 then Some CodecNone else if b = 1 then Some CodecZstd else None)"

definition pack_step :: "pack_header \<Rightarrow> byte list \<Rightarrow> u64 \<Rightarrow> pack_loop \<Rightarrow> nat
    \<Rightarrow> (protocol_error, pack_loop) result" where
  "pack_step header index_bytes full_length s i =
     (let start = i * 64 in
      and_then (pack_number 8 index_bytes start) (\<lambda>n.
      and_then (pack_number 8 index_bytes (start + 8)) (\<lambda>off.
      and_then (pack_number 4 index_bytes (start + 16)) (\<lambda>sl.
      and_then (pack_number 4 index_bytes (start + 20)) (\<lambda>rl.
        let page_number = u64_from_be_bytes n; offset = u64_from_be_bytes off;
            stored_length = u32_from_be_bytes sl; raw_length = u32_from_be_bytes rl
        in and_then (ok_or (InvalidObject ''unsupported pack codec'')
                      (pack_codec (index_bytes ! (start + 24)))) (\<lambda>codec.
             if page_number \<le> pl_previous s
                \<or> list_ex (\<lambda>b. b \<noteq> 0) (take 7 (drop (start + 25) index_bytes))
                \<or> raw_length \<noteq> pkh_page_size header \<or> stored_length = 0
                \<or> offset < pkh_payload_offset header
                \<or> (case checked_add offset (u64_from_u32 stored_length) of
                     None \<Rightarrow> True | Some e \<Rightarrow> e > full_length)
                \<or> (codec = CodecNone \<and> stored_length \<noteq> raw_length)
             then Inl (InvalidObject ''invalid pack entry'')
             else and_then (pack_number 32 index_bytes (start + 32)) (\<lambda>sha.
                    Inr \<lparr>pl_entries = pl_entries s @
                           [\<lparr>pie_page_number = page_number, pie_offset = offset,
                             pie_stored_length = stored_length, pie_raw_length = raw_length,
                             pie_codec = codec, pie_page_sha256 = Sha256 sha\<rparr>],
                         pl_ranges = pl_ranges s @ [(offset, offset + u64_from_u32 stored_length)],
                         pl_previous = page_number\<rparr>)))))))"

text \<open>\<^verbatim>\<open>ranges.windows(2).any(|pair| pair[0].1 > pair[1].0)\<close>.\<close>

fun overlapping :: "(u64 \<times> u64) list \<Rightarrow> bool" where
  "overlapping (a # b # rs) = (snd a > fst b \<or> overlapping (b # rs))"
| "overlapping _ = False"

definition decode_pack_index_parts :: "byte list \<Rightarrow> byte list \<Rightarrow> u64
    \<Rightarrow> (protocol_error, pack_index) result" where
  "decode_pack_index_parts header index_bytes full_length =
     and_then (decode_pack_header header full_length) (\<lambda>h.
     and_then (ok_or (InvalidObject ''pack index overflow'')
                (usize_checked_mul (unat (pkh_entry_count h)) 64)) (\<lambda>size.
       if length index_bytes \<noteq> size then Inl (InvalidObject ''truncated pack index'')
       else and_then (try_fold (pack_step h index_bytes full_length)
                        \<lparr>pl_entries = [], pl_ranges = [], pl_previous = 0\<rparr>
                        [0..<unat (pkh_entry_count h)]) (\<lambda>s.
              if overlapping (sort (pl_ranges s))
              then Inl (InvalidObject ''overlapping pack payloads'')
              else Inr \<lparr>pki_page_size = pkh_page_size h, pki_entries = pl_entries s\<rparr>)))"

definition decode_pack_index :: "byte list \<Rightarrow> (protocol_error, pack_index) result" where
  "decode_pack_index bs =
     and_then (ok_or (InvalidObject ''truncated pack'') (get_range bs 0 64)) (\<lambda>head.
     and_then (decode_pack_header head (u64_of_usize (length bs))) (\<lambda>h.
     and_then (ok_or (InvalidObject ''pack index overflow'')
                (usize_try_from (pkh_index_offset h))) (\<lambda>start.
     and_then (ok_or (InvalidObject ''pack index overflow'')
                (usize_checked_add start (unat (pkh_entry_count h) * 64))) (\<lambda>e.
     and_then (ok_or (InvalidObject ''truncated pack index'') (get_range bs start e)) (\<lambda>idx.
       decode_pack_index_parts (take 64 bs) idx (u64_of_usize (length bs)))))))"

section \<open>Encoding\<close>

text \<open>\<^verbatim>\<open>buf[at..at + src.len()].copy_from_slice(src)\<close>, at a place inside the buffer.\<close>

definition copy_at :: "nat \<Rightarrow> byte list \<Rightarrow> byte list \<Rightarrow> byte list" where
  "copy_at at_pos src buf = take at_pos buf @ src @ drop (at_pos + length src) buf"

definition pack_write_page :: "externals \<Rightarrow> u32 \<Rightarrow> nat \<Rightarrow> byte list \<Rightarrow> nat \<times> u64 \<times> byte list \<Rightarrow> byte list" where
  "pack_write_page x page_size payload buf ipage =
     (case ipage of (i, page_number, page) \<Rightarrow>
        let start = 64 + 64 * i;
            offset = payload + i * unat page_size;
            buf = copy_at start (u64_to_be_bytes page_number) buf;
            buf = copy_at (start + 8) (u64_to_be_bytes (u64_of_usize offset)) buf;
            buf = copy_at (start + 16) (u32_to_be_bytes page_size) buf;
            buf = copy_at (start + 20) (u32_to_be_bytes page_size) buf;
            buf = copy_at (start + 32) (sha_as_bytes (digest x page)) buf
        in copy_at offset page buf)"

definition encode_page_pack :: "externals \<Rightarrow> u32 \<Rightarrow> (u64, byte list) btree
    \<Rightarrow> (protocol_error, byte list) result" where
  "encode_page_pack x page_size pages =
     (if pages = [] \<or> \<not> page_size_ok page_size \<or> fst (hd pages) = 0
         \<or> list_ex (\<lambda>(_, p). length p \<noteq> unat page_size) pages
      then Inl (InvalidObject ''invalid pages for page pack'')
      else if length pages \<ge> 2 ^ 32 then Inl (InvalidObject ''too many pack entries'')
      else and_then (ok_or (InvalidObject ''pack size overflow'')
             (Option.bind (usize_checked_mul (length pages) 64) (\<lambda>n. usize_checked_add n 64)))
             (\<lambda>payload.
           and_then (ok_or (InvalidObject ''pack size overflow'')
             (Option.bind (usize_checked_mul (length pages) (unat page_size))
                (\<lambda>n. usize_checked_add n payload)))
             (\<lambda>total.
               let buf = replicate total 0;
                   buf = copy_at 0 pack_magic buf;
                   buf = copy_at 8 (u16_to_be_bytes 1) buf;
                   buf = copy_at 16 (u32_to_be_bytes page_size) buf;
                   buf = copy_at 20 (u32_to_be_bytes (word_of_nat (length pages))) buf;
                   buf = copy_at 24 (u64_to_be_bytes 64) buf;
                   buf = copy_at 32 (u64_to_be_bytes (u64_of_usize payload)) buf
               in Inr (foldl (pack_write_page x page_size payload) buf (enumerate 0 pages)))))"

section \<open>What an accepted index guarantees\<close>

definition pack_range :: "pack_index_entry \<Rightarrow> u64 \<times> u64" where
  "pack_range e = (pie_offset e, pie_offset e + u64_from_u32 (pie_stored_length e))"

definition pack_entry_good :: "pack_header \<Rightarrow> u64 \<Rightarrow> pack_index_entry \<Rightarrow> bool" where
  "pack_entry_good h full_length e =
     (pie_raw_length e = pkh_page_size h \<and> 0 < unat (pie_stored_length e)
      \<and> pkh_payload_offset h \<le> pie_offset e
      \<and> unat (pie_offset e) + unat (pie_stored_length e) \<le> unat full_length
      \<and> (pie_codec e = CodecNone \<longrightarrow> pie_stored_length e = pie_raw_length e)
      \<and> sha_ok (pie_page_sha256 e))"

definition pack_inv :: "pack_header \<Rightarrow> u64 \<Rightarrow> pack_loop \<Rightarrow> bool" where
  "pack_inv h full_length s =
     (pl_ranges s = map pack_range (pl_entries s)
      \<and> list_all (pack_entry_good h full_length) (pl_entries s)
      \<and> sorted_wrt (<) (0 # map pie_page_number (pl_entries s))
      \<and> pl_previous s = last (0 # map pie_page_number (pl_entries s)))"

lemma pack_number_length: "pack_number n bs i = Inr r \<Longrightarrow> length r = n"
  by (auto simp: pack_number_def result_simps get_range_eq_Some usize_checked_add_eq_Some split: option.splits)

lemma pack_step_Inr:
  assumes "pack_step h idx full s i = Inr s'"
  obtains e where "pl_entries s' = pl_entries s @ [e]" "pl_ranges s' = pl_ranges s @ [pack_range e]"
    "pl_previous s' = pie_page_number e" "pl_previous s < pie_page_number e" "pack_entry_good h full e"
proof -
  have le: "\<not> (case checked_add a (u64_from_u32 b) of None \<Rightarrow> True | Some e \<Rightarrow> full < e) \<longleftrightarrow>
      unat a + unat b \<le> unat full" for a b
  proof (cases "checked_add a (u64_from_u32 b)")
    case None
    then have "2 ^ 64 \<le> unat a + unat b" by (simp add: checked_add_def split: if_splits)
    then show ?thesis using None unat_lt_2p [of full] by (auto simp del: unat_u64_lt)
  next
    case (Some e)
    then show ?thesis using unat_checked_add [OF Some] by (auto simp: word_less_nat_alt not_less)
  qed
  have "\<exists>e. pl_entries s' = pl_entries s @ [e] \<and> pl_ranges s' = pl_ranges s @ [pack_range e]
      \<and> pl_previous s' = pie_page_number e \<and> pl_previous s < pie_page_number e
      \<and> pack_entry_good h full e"
    using assms unfolding pack_step_def Let_def
    by (clarsimp simp only: and_then_eq_Inr ok_or_eq_Inr if_Inl_eq_Inr de_Morgan_disj le not_less not_le)
      (auto simp: pack_range_def pack_entry_good_def sha_ok_def pack_number_length unat_gt_0)
  then show thesis using that by blast
qed

lemma sorted_snoc:
  "sorted_wrt (<) ((xs :: 'a::linorder list) @ [x]) \<longleftrightarrow> sorted_wrt (<) xs \<and> (xs \<noteq> [] \<longrightarrow> last xs < x)"
proof (cases xs rule: rev_cases)
  case (snoc ys y)
  then show ?thesis by (auto simp: sorted_wrt_append intro: less_trans)
qed simp

lemma pack_inv_step:
  assumes inv: "pack_inv h full s" and step: "pack_step h idx full s i = Inr s'"
  shows "pack_inv h full s'"
proof -
  from step obtain e where e: "pl_entries s' = pl_entries s @ [e]"
    "pl_ranges s' = pl_ranges s @ [pack_range e]" "pl_previous s' = pie_page_number e"
    "pl_previous s < pie_page_number e" "pack_entry_good h full e" by (rule pack_step_Inr)
  have "sorted_wrt (<) ((0 # map pie_page_number (pl_entries s)) @ [pie_page_number e])"
    using inv e by (subst sorted_snoc) (auto simp: pack_inv_def)
  then show ?thesis using inv e by (simp add: pack_inv_def)
qed

lemma pack_loop_length:
  "try_fold (pack_step h idx full) s is = Inr t \<Longrightarrow>
     length (pl_entries t) = length (pl_entries s) + length is"
proof (induction "is" arbitrary: s)
  case (Cons i "is")
  then show ?case by (auto simp: result_simps elim!: pack_step_Inr)
qed simp

text \<open>Sorted ranges whose neighbours do not overlap are pairwise disjoint.\<close>

lemma not_overlapping_sorted:
  assumes "\<not> overlapping rs" "\<forall>r \<in> set rs. fst r < snd r"
  shows "sorted_wrt (\<lambda>a b. snd a \<le> fst b) rs"
  using assms
proof (induction rs rule: overlapping.induct)
  case (1 a b rs)
  then have IH: "sorted_wrt (\<lambda>a b. snd a \<le> fst b) (b # rs)" and ab: "snd a \<le> fst b" by auto
  have "snd a \<le> fst r" if "r \<in> set rs" for r
  proof -
    have "snd a \<le> fst b" "fst b < snd b" "snd b \<le> fst r" using IH ab 1 that by auto
    then show ?thesis by simp
  qed
  with IH ab show ?case by auto
qed simp_all

definition ranges_disjoint :: "u64 \<times> u64 \<Rightarrow> u64 \<times> u64 \<Rightarrow> bool" where
  "ranges_disjoint a b = (snd a \<le> fst b \<or> snd b \<le> fst a)"

lemma sort_disjoint:
  assumes "\<not> overlapping (sort rs)" "\<forall>r \<in> set rs. fst r < snd r" "i < j" "j < length rs"
  shows "ranges_disjoint (rs ! i) (rs ! j)"
proof -
  have s: "sorted_wrt (\<lambda>a b. snd a \<le> fst b) (sort rs)"
    using assms by (intro not_overlapping_sorted) auto
  have "distinct (sort rs)" unfolding distinct_conv_nth
  proof (intro allI impI)
    fix k l assume "k < length (sort rs)" "l < length (sort rs)" "k \<noteq> l"
    moreover have "fst (sort rs ! m) < snd (sort rs ! m)" if "m < length rs" for m
      using assms(2) that by (metis length_sort nth_mem set_sort)
    ultimately show "sort rs ! k \<noteq> sort rs ! l"
      using sorted_wrt_nth_less [OF s, of k l] sorted_wrt_nth_less [OF s, of l k]
      by (cases "k < l") (auto simp: not_less dest: leD)
  qed
  then have "rs ! i \<noteq> rs ! j" using assms by (simp add: nth_eq_iff_index_eq)
  moreover have "rs ! i \<in> set (sort rs)" "rs ! j \<in> set (sort rs)" using assms by auto
  ultimately obtain k l where "k < length rs" "l < length rs" "k \<noteq> l" "sort rs ! k = rs ! i" "sort rs ! l = rs ! j"
    by (metis in_set_conv_nth length_sort)
  then show ?thesis
    using sorted_wrt_nth_less [OF s, of k l] sorted_wrt_nth_less [OF s, of l k]
    by (cases "k < l") (auto simp: ranges_disjoint_def)
qed

lemma decode_parts_good:
  assumes "decode_pack_index_parts header idx full = Inr p"
  obtains h where "decode_pack_header header full = Inr h"
    "pki_page_size p = pkh_page_size h" "length (pki_entries p) = unat (pkh_entry_count h)"
    "list_all (pack_entry_good h full) (pki_entries p)"
    "sorted_wrt (<) (0 # map pie_page_number (pki_entries p))"
    "\<forall>i j. i < j \<and> j < length (pki_entries p) \<longrightarrow>
       ranges_disjoint (pack_range (pki_entries p ! i)) (pack_range (pki_entries p ! j))"
proof -
  from assms obtain h s where h: "decode_pack_header header full = Inr h"
    and loop: "try_fold (pack_step h idx full) \<lparr>pl_entries = [], pl_ranges = [], pl_previous = 0\<rparr>
      [0..<unat (pkh_entry_count h)] = Inr s"
    and over: "\<not> overlapping (sort (pl_ranges s))"
    and p: "p = \<lparr>pki_page_size = pkh_page_size h, pki_entries = pl_entries s\<rparr>"
    by (auto simp: decode_pack_index_parts_def result_simps split: if_splits)
  have inv: "pack_inv h full s"
    by (rule try_fold_invariant [OF loop]) (simp add: pack_inv_def, blast intro: pack_inv_step)
  have pos: "\<forall>r \<in> set (pl_ranges s). fst r < snd r"
  proof
    fix r assume "r \<in> set (pl_ranges s)"
    then obtain e where e: "r = pack_range e" "pack_entry_good h full e"
      using inv by (auto simp: pack_inv_def list_all_iff)
    then have "unat (pie_offset e + u64_from_u32 (pie_stored_length e)) =
        unat (pie_offset e) + unat (pie_stored_length e)"
      using unat_lt_2p [of full] by (simp add: pack_entry_good_def unat_word_ariths del: unat_u64_lt)
    then show "fst r < snd r"
      using e by (simp add: pack_range_def pack_entry_good_def word_less_nat_alt)
  qed
  show thesis
  proof (rule that [OF h])
    show "\<forall>i j. i < j \<and> j < length (pki_entries p) \<longrightarrow>
        ranges_disjoint (pack_range (pki_entries p ! i)) (pack_range (pki_entries p ! j))"
      using sort_disjoint [OF over pos] inv by (auto simp: p pack_inv_def)
  qed (use inv pack_loop_length [OF loop] in \<open>auto simp: p pack_inv_def\<close>)
qed

lemma decode_pack_index_parts_of:
  "decode_pack_index bs = Inr p \<Longrightarrow>
     \<exists>idx. decode_pack_index_parts (take 64 bs) idx (u64_of_usize (length bs)) = Inr p"
  by (auto simp: decode_pack_index_def result_simps)

section \<open>The layout the encoder produces\<close>

definition zeros :: "nat \<Rightarrow> byte list" where
  "zeros n = replicate n 0"

lemma length_zeros [simp]: "length (zeros n) = n"
  by (simp add: zeros_def)

lemma zeros_0 [simp]: "zeros 0 = []"
  by (simp add: zeros_def)

definition pack_header_bytes :: "u32 \<Rightarrow> nat \<Rightarrow> nat \<Rightarrow> byte list" where
  "pack_header_bytes page_size count payload =
     pack_magic @ u16_to_be_bytes 1 @ zeros 6 @ u32_to_be_bytes page_size
     @ u32_to_be_bytes (word_of_nat count) @ u64_to_be_bytes 64
     @ u64_to_be_bytes (u64_of_usize payload) @ zeros 24"

definition pack_entry_bytes :: "externals \<Rightarrow> u32 \<Rightarrow> nat \<Rightarrow> nat \<times> u64 \<times> byte list \<Rightarrow> byte list" where
  "pack_entry_bytes x page_size payload = (\<lambda>(i, n, page).
     u64_to_be_bytes n @ u64_to_be_bytes (u64_of_usize (payload + i * unat page_size))
     @ u32_to_be_bytes page_size @ u32_to_be_bytes page_size @ zeros 8
     @ sha_as_bytes (digest x page))"

lemma length_pack_magic [simp]: "length pack_magic = 8"
  by (simp add: pack_magic_def)

lemma length_pack_header [simp]: "length (pack_header_bytes ps c p) = 64"
  by (simp add: pack_header_bytes_def)

lemma length_pack_entry [simp]: "sha_laws x \<Longrightarrow> length (pack_entry_bytes x ps payload e) = 64"
  by (cases e) (simp add: pack_entry_bytes_def digest_def sha_laws_def)

lemma length_concat_const:
  "(\<And>y. y \<in> set ys \<Longrightarrow> length (f y) = n) \<Longrightarrow> length (concat (map f ys)) = n * length ys"
  by (induction ys) auto

lemma copy_mid:
  "length b = length src \<Longrightarrow> p = length a \<Longrightarrow> copy_at p src (a @ b @ c) = a @ src @ c"
  by (simp add: copy_at_def)

lemmas slots = append_assoc length_append length_replicate length_to_be_bytes length_pack_magic

lemma zeros_add: "zeros (m + n) = zeros m @ zeros n"
  by (simp add: zeros_def replicate_add)

lemma write_header:
  assumes "64 \<le> tot"
  shows "copy_at 32 (u64_to_be_bytes p) (copy_at 24 (u64_to_be_bytes 64)
      (copy_at 20 (u32_to_be_bytes c) (copy_at 16 (u32_to_be_bytes ps)
      (copy_at 8 (u16_to_be_bytes 1) (copy_at 0 pack_magic (zeros tot)))))) =
    pack_magic @ u16_to_be_bytes 1 @ zeros 6 @ u32_to_be_bytes ps @ u32_to_be_bytes c
    @ u64_to_be_bytes 64 @ u64_to_be_bytes p @ zeros 24 @ zeros (tot - 64)"
proof -
  let ?r = "zeros 24 @ zeros (tot - 64)"
  have z: "zeros tot = zeros 8 @ zeros 2 @ zeros 6 @ zeros 4 @ zeros 4 @ zeros 8 @ zeros 8 @ ?r"
  proof -
    have "tot = 8 + (2 + (6 + (4 + (4 + (8 + (8 + (24 + (tot - 64))))))))" using assms by simp
    then show ?thesis by (metis zeros_add)
  qed
  note mid = copy_mid [where src = pack_magic and a = "[]" and b = "zeros 8"]
    copy_mid [where src = "u16_to_be_bytes 1" and a = pack_magic and b = "zeros 2"]
    copy_mid [where src = "u32_to_be_bytes ps" and a = "pack_magic @ u16_to_be_bytes 1 @ zeros 6" and b = "zeros 4"]
    copy_mid [where src = "u32_to_be_bytes c" and b = "zeros 4" and
      a = "pack_magic @ u16_to_be_bytes 1 @ zeros 6 @ u32_to_be_bytes ps"]
    copy_mid [where src = "u64_to_be_bytes 64" and b = "zeros 8" and
      a = "pack_magic @ u16_to_be_bytes 1 @ zeros 6 @ u32_to_be_bytes ps @ u32_to_be_bytes c"]
    copy_mid [where src = "u64_to_be_bytes p" and b = "zeros 8" and
      a = "pack_magic @ u16_to_be_bytes 1 @ zeros 6 @ u32_to_be_bytes ps @ u32_to_be_bytes c @ u64_to_be_bytes 64"]
  show ?thesis unfolding z
    using mid(1) mid(2) mid(3) mid(4) mid(5) mid(6) by simp
qed

lemma write_page:
  assumes sha: "sha_laws x" and page: "length page = unat ps"
    and A: "length A = 64 + 64 * i" and M: "length (A @ zeros 64 @ M) = payload + i * unat ps"
  shows "pack_write_page x ps payload (A @ zeros 64 @ M @ zeros (unat ps) @ R) (i, n, page) =
    A @ pack_entry_bytes x ps payload (i, n, page) @ M @ page @ R"
proof -
  let ?n = "u64_to_be_bytes n" and ?o = "u64_to_be_bytes (u64_of_usize (payload + i * unat ps))"
    and ?p = "u32_to_be_bytes ps" and ?h = "sha_as_bytes (digest x page)"
    and ?r = "M @ zeros (unat ps) @ R"
  have h: "length ?h = 32" using sha by (simp add: digest_def sha_laws_def)
  have z: "zeros 64 = zeros 8 @ zeros 8 @ zeros 4 @ zeros 4 @ zeros 8 @ zeros 32"
    by (simp flip: zeros_add)
  note mid = copy_mid [where src = ?n and a = A and b = "zeros 8"]
    copy_mid [where src = ?o and a = "A @ ?n" and b = "zeros 8"]
    copy_mid [where src = ?p and a = "A @ ?n @ ?o" and b = "zeros 4"]
    copy_mid [where src = ?p and a = "A @ ?n @ ?o @ ?p" and b = "zeros 4"]
    copy_mid [where src = ?h and a = "A @ ?n @ ?o @ ?p @ ?p @ zeros 8" and b = "zeros 32"]
  have last: "copy_at (payload + i * unat ps) page
      (A @ ?n @ ?o @ ?p @ ?p @ zeros 8 @ ?h @ M @ zeros (unat ps) @ R) =
      A @ ?n @ ?o @ ?p @ ?p @ zeros 8 @ ?h @ M @ page @ R"
    using copy_mid [where src = page and b = "zeros (unat ps)" and c = R
        and a = "A @ ?n @ ?o @ ?p @ ?p @ zeros 8 @ ?h @ M"] M page h by simp
  show ?thesis unfolding z pack_write_page_def pack_entry_bytes_def
    using mid(1) mid(2) mid(3) mid(4) mid(5) A h last
    by (simp add: Let_def)
qed

lemma write_pages:
  assumes sha: "sha_laws x"
  shows "list_all (\<lambda>(_, p). length p = unat ps) pages \<Longrightarrow> length H = 64 \<Longrightarrow> length I = 64 * i \<Longrightarrow>
    length P = i * unat ps \<Longrightarrow> payload = 64 + 64 * (i + length pages) \<Longrightarrow>
    foldl (pack_write_page x ps payload)
      (H @ I @ zeros (64 * length pages) @ P @ zeros (length pages * unat ps)) (enumerate i pages) =
    H @ I @ concat (map (pack_entry_bytes x ps payload) (enumerate i pages)) @ P @ concat (map snd pages)"
proof (induction pages arbitrary: i I P)
  case (Cons e pages)
  obtain n page where e: "e = (n, page)" by fastforce
  let ?M = "zeros (64 * length pages) @ P" and ?R = "zeros (length pages * unat ps)"
  have z: "zeros (64 * length (e # pages)) = zeros 64 @ zeros (64 * length pages)"
    "zeros (length (e # pages) * unat ps) = zeros (unat ps) @ ?R"
    by (simp_all only: length_Cons mult_Suc mult_Suc_right zeros_add)
  have step: "pack_write_page x ps payload ((H @ I) @ zeros 64 @ ?M @ zeros (unat ps) @ ?R) (i, n, page) =
      (H @ I) @ pack_entry_bytes x ps payload (i, n, page) @ ?M @ page @ ?R"
    using Cons.prems by (intro write_page [OF sha]) (simp_all add: e)
  have IH: "foldl (pack_write_page x ps payload)
      (H @ (I @ pack_entry_bytes x ps payload (i, n, page)) @ zeros (64 * length pages) @ (P @ page) @ ?R)
      (enumerate (Suc i) pages) =
    H @ (I @ pack_entry_bytes x ps payload (i, n, page)) @
      concat (map (pack_entry_bytes x ps payload) (enumerate (Suc i) pages)) @ (P @ page) @ concat (map snd pages)"
    by (rule Cons.IH) (use Cons.prems in \<open>simp_all add: e sha\<close>)
  show ?case unfolding z using step IH by (simp add: e)
qed simp

lemma encode_page_pack_layout:
  assumes sha: "sha_laws x" and enc: "encode_page_pack x ps pages = Inr bs"
  defines "payload \<equiv> 64 + 64 * length pages"
  shows "bs = pack_header_bytes ps (length pages) payload
      @ concat (map (pack_entry_bytes x ps payload) (enumerate 0 pages)) @ concat (map snd pages)"
    and "payload + length pages * unat ps < usize_bound" "length pages < 2 ^ 32" "pages \<noteq> []"
    and "page_size_ok ps" "fst (hd pages) \<noteq> 0" "list_all (\<lambda>(_, p). length p = unat ps) pages"
proof -
  let ?tot = "payload + length pages * unat ps"
  from enc have c: "pages \<noteq> []" "page_size_ok ps" "fst (hd pages) \<noteq> 0" "length pages < 2 ^ 32"
    "list_all (\<lambda>(_, p). length p = unat ps) pages" "?tot < usize_bound"
    by (auto simp: encode_page_pack_def result_simps usize_checked_mul_def usize_checked_add_eq_Some
        payload_def list_all_iff list_ex_iff bind_eq_Some_conv algebra_simps split: if_splits)
  then show "?tot < usize_bound" "length pages < 2 ^ 32" "pages \<noteq> []" "page_size_ok ps"
    "fst (hd pages) \<noteq> 0" "list_all (\<lambda>(_, p). length p = unat ps) pages" by simp_all
  have z: "zeros (?tot - 64) = zeros (64 * length pages) @ zeros (length pages * unat ps)"
    by (simp add: payload_def flip: zeros_add)
  let ?H = "pack_header_bytes ps (length pages) payload"
  have "bs = foldl (pack_write_page x ps payload)
      (?H @ [] @ zeros (64 * length pages) @ [] @ zeros (length pages * unat ps)) (enumerate 0 pages)"
    using enc write_header [of ?tot "u64_of_usize payload" "word_of_nat (length pages)" ps] z
    by (auto simp: encode_page_pack_def result_simps usize_checked_mul_def usize_checked_add_eq_Some
        payload_def bind_eq_Some_conv algebra_simps Let_def pack_header_bytes_def zeros_def [symmetric]
        split: if_splits)
  also have "\<dots> = ?H @ [] @ concat (map (pack_entry_bytes x ps payload) (enumerate 0 pages)) @ [] @ concat (map snd pages)"
    by (rule write_pages [OF sha]) (simp_all add: c payload_def)
  finally show "bs = ?H @ concat (map (pack_entry_bytes x ps payload) (enumerate 0 pages)) @ concat (map snd pages)"
    by simp
qed

section \<open>Reading a pack back\<close>

lemma pack_number_mid:
  "length b = n \<Longrightarrow> p = length a \<Longrightarrow> length a + n < usize_bound \<Longrightarrow>
     pack_number n (a @ b @ c) p = Inr b"
  by (auto simp: pack_number_def usize_checked_add_def)

lemma list_ex_zeros [simp]: "\<not> list_ex (\<lambda>b. b \<noteq> 0) (zeros n)" "\<not> list_ex (\<lambda>b. b \<noteq> 0) (take m (zeros n))"
  by (auto simp: zeros_def list_ex_iff in_set_conv_nth)

lemma version_bytes: "u16_to_be_bytes 1 = [0, 1]" "zeros 6 = [0, 0, 0, 0, 0, 0]" "zeros 8 = 0 # zeros 7"
  by code_simp+

lemma decode_header_bytes:
  assumes ps: "page_size_ok ps" and count: "0 < count" "count < 2 ^ 32"
    and payload: "payload = 64 + 64 * count" and full: "payload \<le> unat full"
  shows "decode_pack_header (pack_header_bytes ps count payload) full =
    Inr \<lparr>pkh_page_size = ps, pkh_entry_count = word_of_nat count, pkh_index_offset = 64,
         pkh_payload_offset = u64_of_usize payload\<rparr>"
proof -
  let ?H = "pack_header_bytes ps count payload"
  let ?a = "pack_magic @ u16_to_be_bytes 1 @ zeros 6" and ?p = "u32_to_be_bytes ps"
    and ?c = "u32_to_be_bytes (word_of_nat count)" and ?i = "u64_to_be_bytes 64"
    and ?o = "u64_to_be_bytes (u64_of_usize payload)"
  have b: "40 < usize_bound" "payload < usize_bound"
    using count by (simp_all add: usize_bound_def payload)
  have nums: "pack_number 4 ?H 16 = Inr ?p" "pack_number 4 ?H 20 = Inr ?c"
    "pack_number 8 ?H 24 = Inr ?i" "pack_number 8 ?H 32 = Inr ?o"
    using pack_number_mid [of ?p 4 16 ?a "?c @ ?i @ ?o @ zeros 24"]
      pack_number_mid [of ?c 4 20 "?a @ ?p" "?i @ ?o @ zeros 24"]
      pack_number_mid [of ?i 8 24 "?a @ ?p @ ?c" "?o @ zeros 24"]
      pack_number_mid [of ?o 8 32 "?a @ ?p @ ?c @ ?i" "zeros 24"] b
    by (simp_all add: pack_header_bytes_def usize_bound_def)
  have "u16_to_be_bytes 1 @ zeros 6 = [0, 1, 0, 0, 0, 0, 0, 0]"
    by (simp add: version_bytes)
  then have shape: "take 8 ?H = pack_magic" "take 8 (drop 8 ?H) = [0, 1, 0, 0, 0, 0, 0, 0]"
    "\<not> list_ex (\<lambda>b. b \<noteq> 0) (take 24 (drop 40 ?H))"
    by (simp_all add: pack_header_bytes_def)
  have cnt: "unat (word_of_nat count :: u32) = count" using count by (simp add: unat_of_nat)
  have mul: "checked_mul (u64_from_u32 (word_of_nat count)) 64 = Some (u64_of_usize (64 * count))"
    using count by (simp add: checked_mul_def cnt word_unat_eq_iff unat_word_ariths u64_of_usize_def unat_of_nat)
  have add: "checked_add 64 (u64_of_usize (64 * count)) = Some (u64_of_usize payload)"
  proof -
    have "unat (u64_of_usize (64 * count)) = 64 * count"
      using count by (intro unat_u64_of_usize) (simp add: usize_bound_def)
    then show ?thesis using count
      by (simp add: checked_add_def payload word_unat_eq_iff unat_word_ariths unat_u64_of_usize usize_bound_def)
  qed
  have "(word_of_nat count :: u32) \<noteq> 0" using cnt count by (auto simp: word_unat_eq_iff)
  moreover have "\<not> full < u64_of_usize payload"
    using full b by (simp add: word_less_nat_alt unat_u64_of_usize)
  ultimately show ?thesis
    using nums shape ps mul add by (simp add: decode_pack_header_def)
qed

definition pack_entry_of :: "externals \<Rightarrow> u32 \<Rightarrow> nat \<Rightarrow> nat \<times> u64 \<times> byte list \<Rightarrow> pack_index_entry" where
  "pack_entry_of x page_size payload = (\<lambda>(i, n, page).
     \<lparr>pie_page_number = n, pie_offset = u64_of_usize (payload + i * unat page_size),
      pie_stored_length = page_size, pie_raw_length = page_size, pie_codec = CodecNone,
      pie_page_sha256 = digest x page\<rparr>)"

lemma page_size_pos: "page_size_ok ps \<Longrightarrow> ps \<noteq> 0 \<and> unat ps \<noteq> 0"
  by (auto simp: page_size_ok_def word_le_nat_alt)

lemma pack_step_entry:
  assumes sha: "sha_laws x" and ps: "page_size_ok ps" and h: "pkh_page_size h = ps"
    "pkh_payload_offset h = u64_of_usize payload"
    and I: "length I = 64 * i" and bound: "payload + Suc i * unat ps \<le> unat full"
    and size: "64 * i + 64 < usize_bound"
    and prev: "pl_previous s < n"
  shows "pack_step h (I @ pack_entry_bytes x ps payload (i, n, page) @ R) full s i =
    Inr \<lparr>pl_entries = pl_entries s @ [pack_entry_of x ps payload (i, n, page)],
         pl_ranges = pl_ranges s @ [pack_range (pack_entry_of x ps payload (i, n, page))],
         pl_previous = n\<rparr>"
proof -
  let ?off = "u64_of_usize (payload + i * unat ps)"
  let ?n = "u64_to_be_bytes n" and ?o = "u64_to_be_bytes ?off"
    and ?p = "u32_to_be_bytes ps" and ?h = "sha_as_bytes (digest x page)"
  define idx where "idx = I @ pack_entry_bytes x ps payload (i, n, page) @ R"
  have sl: "length ?h = 32" using sha by (simp add: digest_def sha_laws_def)
  have nums: "pack_number 8 idx (i * 64) = Inr ?n" "pack_number 8 idx (i * 64 + 8) = Inr ?o"
    "pack_number 4 idx (i * 64 + 16) = Inr ?p" "pack_number 4 idx (i * 64 + 20) = Inr ?p"
    "pack_number 32 idx (i * 64 + 32) = Inr ?h"
    using pack_number_mid [of ?n 8 "i * 64" I "?o @ ?p @ ?p @ zeros 8 @ ?h @ R"]
      pack_number_mid [of ?o 8 "i * 64 + 8" "I @ ?n" "?p @ ?p @ zeros 8 @ ?h @ R"]
      pack_number_mid [of ?p 4 "i * 64 + 16" "I @ ?n @ ?o" "?p @ zeros 8 @ ?h @ R"]
      pack_number_mid [of ?p 4 "i * 64 + 20" "I @ ?n @ ?o @ ?p" "zeros 8 @ ?h @ R"]
      pack_number_mid [of ?h 32 "i * 64 + 32" "I @ ?n @ ?o @ ?p @ ?p @ zeros 8" R] I size sl
    by (simp_all add: idx_def pack_entry_bytes_def)
  have codec: "pack_codec (idx ! (i * 64 + 24)) = Some CodecNone"
    using I by (simp add: idx_def pack_entry_bytes_def nth_append pack_codec_def version_bytes(3))
  have rest: "take 7 (drop (i * 64 + 25) idx) = zeros 7"
    using I by (simp add: idx_def pack_entry_bytes_def version_bytes(3))
  have po: "payload + i * unat ps < 2 ^ 64"
    using bound unat_lt_2p [of full] by (simp del: unat_u64_lt)
  have off: "unat ?off = payload + i * unat ps"
    using po by (simp add: unat_u64_of_usize usize_bound_def)
  have "unat (u64_of_usize payload) = payload"
    using po by (intro unat_u64_of_usize) (simp add: usize_bound_def)
  then have ge: "\<not> ?off < u64_of_usize payload" using off by (simp add: word_less_nat_alt)
  have "unat ?off + unat ps \<le> unat full" using off bound by simp
  moreover then have "unat ?off + unat ps < 2 ^ 64"
    using unat_lt_2p [of full] by (simp del: unat_u64_lt)
  ultimately have fits: "\<not> (case checked_add ?off (u64_from_u32 ps) of None \<Rightarrow> True | Some e \<Rightarrow> full < e)"
    by (simp add: checked_add_def word_less_nat_alt unat_word_ariths not_less)
  show ?thesis unfolding idx_def [symmetric]
    using nums codec rest prev ge fits page_size_pos [OF ps] h
    by (simp add: pack_step_def Let_def pack_entry_of_def pack_range_def digest_def not_le)
qed

lemma pack_loop_entries:
  assumes sha: "sha_laws x" and ps: "page_size_ok ps"
    and h: "pkh_page_size h = ps" "pkh_payload_offset h = u64_of_usize payload"
  shows "length I = 64 * i \<Longrightarrow> sorted_wrt (<) (pl_previous s # map fst rest) \<Longrightarrow>
    payload + (i + length rest) * unat ps \<le> unat full \<Longrightarrow> 64 * (i + length rest) < usize_bound \<Longrightarrow>
    try_fold (pack_step h (I @ concat (map (pack_entry_bytes x ps payload) (enumerate i rest))) full) s
      [i..<i + length rest] =
    Inr \<lparr>pl_entries = pl_entries s @ map (pack_entry_of x ps payload) (enumerate i rest),
         pl_ranges = pl_ranges s @ map (pack_range \<circ> pack_entry_of x ps payload) (enumerate i rest),
         pl_previous = last (pl_previous s # map fst rest)\<rparr>"
proof (induction rest arbitrary: i I s)
  case (Cons e rest)
  obtain n page where e: "e = (n, page)" by fastforce
  let ?e = "pack_entry_bytes x ps payload (i, n, page)"
  let ?R = "concat (map (pack_entry_bytes x ps payload) (enumerate (Suc i) rest))"
  let ?s = "\<lparr>pl_entries = pl_entries s @ [pack_entry_of x ps payload (i, n, page)],
         pl_ranges = pl_ranges s @ [pack_range (pack_entry_of x ps payload (i, n, page))],
         pl_previous = n\<rparr>"
  have "payload + Suc i * unat ps \<le> payload + (i + length (e # rest)) * unat ps"
    by (intro add_left_mono mult_right_mono) auto
  then have bound: "payload + Suc i * unat ps \<le> unat full" using Cons.prems(3) by (rule le_trans)
  have step: "pack_step h (I @ ?e @ ?R) full s i = Inr ?s"
    by (rule pack_step_entry [OF sha ps h Cons.prems(1) bound]) (use Cons.prems e in auto)
  have IH: "try_fold (pack_step h ((I @ ?e) @ ?R) full) ?s [Suc i..<Suc i + length rest] =
    Inr \<lparr>pl_entries = pl_entries ?s @ map (pack_entry_of x ps payload) (enumerate (Suc i) rest),
         pl_ranges = pl_ranges ?s @ map (pack_range \<circ> pack_entry_of x ps payload) (enumerate (Suc i) rest),
         pl_previous = last (pl_previous ?s # map fst rest)\<rparr>"
    by (rule Cons.IH) (use Cons.prems e sha in auto)
  have "[i..<i + length (e # rest)] = i # [Suc i..<Suc i + length rest]"
    using upt_conv_Cons [of i "i + length (e # rest)"] by simp
  then show ?case using step IH by (simp add: e)
qed simp

text \<open>Consecutive payloads: sorted, and each ends where the next begins.\<close>

definition run_range :: "nat \<Rightarrow> nat \<Rightarrow> nat \<Rightarrow> u64 \<times> u64" where
  "run_range p k i = (u64_of_usize (p + i * k), u64_of_usize (p + Suc i * k))"

lemma run_ranges_ok:
  assumes "p + j * k < usize_bound" "0 < k"
  shows "\<not> overlapping (sort (map (run_range p k) [0..<j]))"
proof -
  have lt: "u64_of_usize (p + a * k) < u64_of_usize (p + b * k)" if "a < b" "b \<le> j" for a b
  proof -
    have "b * k \<le> j * k" "a * k < b * k" using that assms by auto
    then have "p + a * k < usize_bound" "p + b * k < usize_bound" "p + a * k < p + b * k"
      using assms by linarith+
    then show ?thesis by (simp only: word_less_nat_alt unat_u64_of_usize)
  qed
  have "sorted (map (run_range p k) [0..<j])"
    unfolding sorted_wrt_iff_nth_less
    using lt by (auto simp: run_range_def less_eq_prod_def less_imp_le)
  then have "sort (map (run_range p k) [0..<j]) = map (run_range p k) [0..<j]" by (simp add: sort_key_id_if_sorted)
  moreover have "\<not> overlapping (map (run_range p k) [i..<m])" for i m
  proof (induction "m - i" arbitrary: i)
    case (Suc d)
    then have eq: "[i..<m] = i # [Suc i..<m]" by (simp add: upt_conv_Cons)
    have IH: "\<not> overlapping (map (run_range p k) [Suc i..<m])" using Suc by simp
    show ?case
    proof (cases "Suc i < m")
      case True
      then have "[Suc i..<m] = Suc i # [Suc (Suc i)..<m]" by (rule upt_conv_Cons)
      then show ?thesis using IH unfolding eq by (simp add: run_range_def)
    qed (simp add: eq)
  qed simp
  ultimately show ?thesis by simp
qed

lemma entry_run_range:
  "pack_range (pack_entry_of x ps payload (i, e)) = run_range payload (unat ps) i"
proof -
  have "(u64_from_u32 ps :: u64) = u64_of_usize (unat ps)"
    by (simp add: u64_of_usize_def u64_from_u32_def)
  then show ?thesis
    by (cases e) (simp add: pack_range_def pack_entry_of_def run_range_def u64_of_usize_def algebra_simps)
qed

lemma entries_run_range:
  "map (pack_range \<circ> pack_entry_of x ps payload) (enumerate 0 pages) =
     map (run_range payload (unat ps)) [0..<length pages]"
  by (rule nth_equalityI) (simp_all add: nth_enumerate_eq entry_run_range)

lemma decode_encode_page_pack:
  assumes sha: "sha_laws x" and bt: "bt_ok pages" and enc: "encode_page_pack x ps pages = Inr bs"
  shows "decode_pack_index bs = Inr \<lparr>pki_page_size = ps,
      pki_entries = map (pack_entry_of x ps (64 + 64 * length pages)) (enumerate 0 pages)\<rparr>"
proof -
  let ?n = "length pages" and ?pl = "64 + 64 * length pages"
  note lay = encode_page_pack_layout [OF sha enc]
  let ?H = "pack_header_bytes ps ?n ?pl"
    and ?I = "concat (map (pack_entry_bytes x ps ?pl) (enumerate 0 pages))"
    and ?P = "concat (map snd pages)"
  have lI: "length ?I = 64 * ?n" using length_concat_const [of "enumerate 0 pages" "pack_entry_bytes x ps ?pl" 64] sha by simp
  have lP: "length ?P = unat ps * ?n"
    using lay(7) by (intro length_concat_const) (auto simp: list_all_iff)
  have lb: "length bs = ?pl + ?n * unat ps" by (simp only: lay(1) length_append length_pack_header lI lP) simp
  have full: "unat (u64_of_usize (length bs)) = ?pl + ?n * unat ps"
    using lay(2) unfolding lb by (rule unat_u64_of_usize)
  let ?h = "\<lparr>pkh_page_size = ps, pkh_entry_count = word_of_nat ?n, pkh_index_offset = 64,
         pkh_payload_offset = u64_of_usize ?pl\<rparr>"
  have head: "decode_pack_header ?H (u64_of_usize (length bs)) = Inr ?h"
    by (rule decode_header_bytes) (use lay full in simp_all)
  have cnt: "unat (word_of_nat ?n :: u32) = ?n" using lay(3) by (simp add: unat_of_nat)
  have t64: "take 64 bs = ?H" "get_range bs 0 64 = Some ?H"
    using lay(1) lb by (simp_all add: get_range_def)
  have idx: "get_range bs 64 (64 + ?n * 64) = Some ?I"
    using get_range_append [of ?H ?I ?P] lay(1) lI by (simp add: mult.commute)
  have b: "64 + ?n * 64 < usize_bound" using lay(2) by simp
  have "0 < fst (hd pages)" using lay(6) by (simp add: word_neq_0_conv)
  then have order: "sorted_wrt (<) (0 # map fst pages)"
    using bt lay(4) by (cases pages) (auto simp: bt_ok_def dest: less_trans)
  have loop: "try_fold (pack_step ?h ([] @ ?I) (u64_of_usize (length bs)))
      \<lparr>pl_entries = [], pl_ranges = [], pl_previous = 0\<rparr> [0..<0 + ?n] =
    Inr \<lparr>pl_entries = [] @ map (pack_entry_of x ps ?pl) (enumerate 0 pages),
         pl_ranges = [] @ map (pack_range \<circ> pack_entry_of x ps ?pl) (enumerate 0 pages),
         pl_previous = last (0 # map fst pages)\<rparr>"
    using pack_loop_entries [OF sha lay(5), of ?h ?pl "[]" 0 "\<lparr>pl_entries = [], pl_ranges = [], pl_previous = 0\<rparr>" pages
        "u64_of_usize (length bs)"] order full b by simp
  have "\<not> overlapping (sort (map (run_range ?pl (unat ps)) [0..<?n]))"
    by (rule run_ranges_ok) (use lay(2) page_size_pos [OF lay(5)] in auto)
  then have parts: "decode_pack_index_parts ?H ?I (u64_of_usize (length bs)) = Inr \<lparr>pki_page_size = ps,
      pki_entries = map (pack_entry_of x ps ?pl) (enumerate 0 pages)\<rparr>"
    using head loop lI b
    by (simp add: decode_pack_index_parts_def cnt usize_checked_mul_def entries_run_range mult.commute)
  show ?thesis
    using head idx t64 parts b by (simp add: decode_pack_index_def cnt usize_checked_add_def)
qed

text \<open>The payload an entry points at is the page.\<close>

lemma concat_slice:
  assumes "list_all (\<lambda>p. length p = k) ps" "i < length ps"
  shows "take k (drop (i * k) (concat ps)) = ps ! i"
  using assms
proof (induction ps arbitrary: i)
  case (Cons p ps)
  then show ?case by (cases i) auto
qed simp

lemma pack_payload:
  assumes sha: "sha_laws x" and enc: "encode_page_pack x ps pages = Inr bs" and i: "i < length pages"
  shows "take (unat ps) (drop (64 + 64 * length pages + i * unat ps) bs) = snd (pages ! i)"
proof -
  note lay = encode_page_pack_layout [OF sha enc]
  let ?A = "pack_header_bytes ps (length pages) (64 + 64 * length pages) @
    concat (map (pack_entry_bytes x ps (64 + 64 * length pages)) (enumerate 0 pages))"
  have "length ?A = 64 + 64 * length pages"
    using length_concat_const [of "enumerate 0 pages" "pack_entry_bytes x ps (64 + 64 * length pages)" 64] sha by simp
  moreover have "bs = ?A @ concat (map snd pages)" using lay(1) by simp
  ultimately have "drop (64 + 64 * length pages + i * unat ps) bs = drop (i * unat ps) (concat (map snd pages))"
    by (simp only: drop_append) simp
  moreover have "list_all (\<lambda>p. length p = unat ps) (map snd pages)"
    using lay(7) by (auto simp: list_all_iff)
  ultimately show ?thesis using concat_slice [of "unat ps" "map snd pages" i] i by simp
qed

lemma encoded_pack_entries:
  assumes "sha_laws x" "bt_ok pages" "encode_page_pack x ps pages = Inr bs"
  shows "\<exists>p. decode_pack_index bs = Inr p \<and> pki_page_size p = ps
    \<and> length (pki_entries p) = length pages
    \<and> (\<forall>i < length pages.
          pie_page_number (pki_entries p ! i) = fst (pages ! i)
          \<and> pie_page_sha256 (pki_entries p ! i) = digest x (snd (pages ! i))
          \<and> take (unat (pie_stored_length (pki_entries p ! i)))
              (drop (unat (pie_offset (pki_entries p ! i))) bs) = snd (pages ! i))"
proof (rule exI, intro conjI allI impI)
  let ?pl = "64 + 64 * length pages"
  let ?p = "\<lparr>pki_page_size = ps, pki_entries = map (pack_entry_of x ps ?pl) (enumerate 0 pages)\<rparr>"
  show "decode_pack_index bs = Inr ?p" using assms by (rule decode_encode_page_pack)
  fix i assume i: "i < length pages"
  have "i * unat ps \<le> length pages * unat ps" using i by (intro mult_right_mono) auto
  then have "?pl + i * unat ps < usize_bound"
    using encode_page_pack_layout(2) [OF assms(1,3)] by linarith
  then have off: "unat (u64_of_usize (?pl + i * unat ps)) = ?pl + i * unat ps"
    by (rule unat_u64_of_usize)
  obtain n page where e: "pages ! i = (n, page)" by fastforce
  have entry: "pki_entries ?p ! i = pack_entry_of x ps ?pl (i, n, page)"
    using i by (simp add: nth_enumerate_eq e)
  show "pie_page_number (pki_entries ?p ! i) = fst (pages ! i)"
    "pie_page_sha256 (pki_entries ?p ! i) = digest x (snd (pages ! i))"
    unfolding entry by (simp_all add: pack_entry_of_def e)
  show "take (unat (pie_stored_length (pki_entries ?p ! i)))
      (drop (unat (pie_offset (pki_entries ?p ! i))) bs) = snd (pages ! i)"
    using pack_payload [OF assms(1,3) i] off unfolding entry
    by (simp add: pack_entry_of_def)
qed simp_all

section \<open>Properties\<close>

text \<open>
  C22: a page pack is read back. Decoding the index of an encoded pack gives one entry per page,
  in page order, with the digest of the page, and the payload an entry points at is the page.
\<close>

theorem page_pack_roundtrip:
  assumes "sha_laws x" "bt_ok pages" "encode_page_pack x ps pages = Inr bs"
  shows "\<exists>p. decode_pack_index bs = Inr p \<and> pki_page_size p = ps
    \<and> length (pki_entries p) = length pages
    \<and> (\<forall>i < length pages.
          pie_page_number (pki_entries p ! i) = fst (pages ! i)
          \<and> pie_page_sha256 (pki_entries p ! i) = digest x (snd (pages ! i))
          \<and> take (unat (pie_stored_length (pki_entries p ! i)))
              (drop (unat (pie_offset (pki_entries p ! i))) bs) = snd (pages ! i))"
  using assms by (rule encoded_pack_entries)

definition sample_pack_pages :: "(u64, byte list) btree" where
  "sample_pack_pages = [(1, replicate 512 7), (4, replicate 512 9)]"

theorem page_pack_roundtrip_witness:
  "\<exists>p bs. encode_page_pack sample_externals 512 sample_pack_pages = Inr bs
     \<and> decode_pack_index bs = Inr p \<and> length (pki_entries p) = 2"
proof -
  have "page_size_ok 512" by code_simp
  then obtain bs where bs: "encode_page_pack sample_externals 512 sample_pack_pages = Inr bs"
    by (simp add: encode_page_pack_def sample_pack_pages_def usize_checked_mul_def usize_checked_add_def
        usize_bound_def Let_def)
  have "bt_ok sample_pack_pages" by (simp add: sample_pack_pages_def bt_ok_def)
  from page_pack_roundtrip [OF sample_laws(2) this bs] bs show ?thesis
    by (auto simp: sample_pack_pages_def)
qed

text \<open>
  C17: an accepted pack index is safe to read from. Page numbers are positive and ascending,
  every payload lies between the payload offset and the end of the object, its raw length is the
  page size of the pack, and no two payloads overlap.
\<close>

theorem pack_index_safe:
  assumes "decode_pack_index_parts header index_bytes full_length = Inr p"
  shows "sorted_wrt (<) (0 # map pie_page_number (pki_entries p))
    \<and> (\<forall>e \<in> set (pki_entries p). pie_raw_length e = pki_page_size p
          \<and> unat (pie_offset e) + unat (pie_stored_length e) \<le> unat full_length)
    \<and> (\<forall>i j. i < j \<and> j < length (pki_entries p) \<longrightarrow>
          ranges_disjoint (pack_range (pki_entries p ! i)) (pack_range (pki_entries p ! j)))"
  using assms by (rule decode_parts_good) (auto simp: pack_entry_good_def list_all_iff)

theorem pack_index_safe_witness:
  "\<exists>h idx n p. decode_pack_index_parts h idx n = Inr p
     \<and> sorted_wrt (<) (0 # map pie_page_number (pki_entries p))"
proof -
  have "page_size_ok 512" by code_simp
  then obtain bs where bs: "encode_page_pack sample_externals 512 sample_pack_pages = Inr bs"
    by (simp add: encode_page_pack_def sample_pack_pages_def usize_checked_mul_def usize_checked_add_def
        usize_bound_def Let_def)
  have "bt_ok sample_pack_pages" by (simp add: sample_pack_pages_def bt_ok_def)
  from decode_pack_index_parts_of [OF decode_encode_page_pack [OF sample_laws(2) this bs]]
  obtain idx p where p: "decode_pack_index_parts (take 64 bs) idx (u64_of_usize (length bs)) = Inr p"
    by blast
  from pack_index_safe [OF p] p show ?thesis by blast
qed

end
