(* ===== verification/Overlay.thy ===== *)
theory Overlay
  imports Page_Pack
begin

text \<open>
  The copy-on-write storage under the SQL engine that writes a candidate image,
  \<^verbatim>\<open>otmp/src/cow_writer.rs\<close>: an overlay of 4 KiB pages above the bytes of the parent image, its
  reads, page writes and truncation, the sticky failure flag, and the freezing of the overlay into
  the set of changed pages.

  A panic of the source (a slice out of range) is the value \<open>None\<close>. The engine is another crate: the
  predicate that tells a failed completion from its value is the argument \<open>fails\<close>, and an operation
  of the engine is a value of \<open>storage_op\<close>. The specification is a flat file of bytes.
\<close>

section \<open>Data\<close>

definition cow_page :: nat where
  "cow_page = 4096"

datatype limbo_error = IntegerOverflow | InvalidArgument string | InternalError string

record overlay =
  ov_parent :: "byte list"
  ov_length :: nat
  ov_parent_limit :: nat
  ov_pages :: "(nat, byte list) btree"
  ov_failed :: bool

definition overlay_new :: "byte list \<Rightarrow> overlay" where
  "overlay_new parent =
     \<lparr>ov_parent = parent, ov_length = length parent, ov_parent_limit = length parent, ov_pages = [],
      ov_failed = False\<rparr>"

record frozen_image =
  fi_parent :: "byte list"
  fi_length :: nat
  fi_changed :: "(u64, byte list) btree"

section \<open>Reading\<close>

text \<open>\<^verbatim>\<open>dst[a..a + n].copy_from_slice(&src[b..b + n])\<close>.\<close>

definition copy_slice :: "nat \<Rightarrow> nat \<Rightarrow> nat \<Rightarrow> byte list \<Rightarrow> byte list \<Rightarrow> byte list option" where
  "copy_slice a b n src dst =
     (if a + n \<le> length dst then map_option (\<lambda>s. copy_at a s dst) (get_range src b (b + n)) else None)"

function read_loop :: "overlay \<Rightarrow> nat \<Rightarrow> nat \<Rightarrow> nat \<Rightarrow> byte list \<Rightarrow> byte list option" where
  "read_loop s offset count copied bytes =
     (if copied < count
      then let pos = offset + copied;
               chunk = min (cow_page - pos mod cow_page) (count - copied)
           in Option.bind
                (case bt_get (ov_pages s) (pos div cow_page) of
                   Some page \<Rightarrow> copy_slice copied (pos mod cow_page) chunk page bytes
                 | None \<Rightarrow>
                     if pos < ov_parent_limit s
                     then copy_slice copied pos (min chunk (ov_parent_limit s - pos)) (ov_parent s) bytes
                     else Some bytes)
                (\<lambda>bytes. read_loop s offset count (copied + chunk) bytes)
      else Some bytes)"
  by pat_completeness auto
termination
  by (relation "measure (\<lambda>(s, offset, count, copied, bytes). count - copied)") (auto simp: cow_page_def)

declare read_loop.simps [simp del]

text \<open>\<^verbatim>\<open>read_at\<close> on a buffer of \<open>n\<close> bytes: the count and what the buffer holds after it.\<close>

definition read_at :: "overlay \<Rightarrow> nat \<Rightarrow> nat \<Rightarrow> (nat \<times> byte list) option" where
  "read_at s offset n =
     (let count = min n (ov_length s - offset)
      in map_option (\<lambda>bytes. (count, bytes)) (read_loop s offset count 0 (replicate n 0)))"

text \<open>\<^verbatim>\<open>c.complete(i32::try_from(count)?)\<close>.\<close>

definition complete_i32 :: "nat \<Rightarrow> (limbo_error, int) result" where
  "complete_i32 count = (if count < 2 ^ 31 then Inr (int count) else Inl IntegerOverflow)"

definition ov_read :: "overlay \<Rightarrow> nat \<Rightarrow> nat \<Rightarrow> ((limbo_error, int) result \<times> byte list) option" where
  "ov_read s offset n = map_option (\<lambda>(count, bytes). (complete_i32 count, bytes)) (read_at s offset n)"

definition read_header_inner :: "overlay \<Rightarrow> nat \<Rightarrow> ((limbo_error, int) result \<times> byte list) option" where
  "read_header_inner s n = ov_read s 0 n"

definition read_page_inner :: "overlay \<Rightarrow> nat \<Rightarrow> byte list \<Rightarrow> ((limbo_error, int) result \<times> byte list) option" where
  "read_page_inner s page_idx buf =
     (case (if page_idx = 0 then None else usize_checked_mul (page_idx - 1) cow_page) of
        None \<Rightarrow> Some (Inl IntegerOverflow, buf)
      | Some offset \<Rightarrow> ov_read s offset (length buf))"

section \<open>Writing\<close>

definition write_page_inner :: "overlay \<Rightarrow> nat \<Rightarrow> byte list \<Rightarrow> overlay \<times> (limbo_error, int) result" where
  "write_page_inner s page_idx buffer =
     (if length buffer \<noteq> cow_page \<or> page_idx = 0 then (s, Inl (InvalidArgument ''expected 4 KiB page''))
      else case usize_checked_mul page_idx cow_page of
             None \<Rightarrow> (s, Inl IntegerOverflow)
           | Some end_pos \<Rightarrow>
               (s\<lparr>ov_pages := bt_insert (page_idx - 1) buffer (ov_pages s),
                  ov_length := max (ov_length s) end_pos\<rparr>, Inr 4096))"

text \<open>The failure flag is set by an error and by a completion that failed, and never cleared.\<close>

definition capture :: "(int \<Rightarrow> bool) \<Rightarrow> overlay \<times> (limbo_error, int) result \<Rightarrow> overlay \<times> (limbo_error, int) result" where
  "capture fails sr =
     (case sr of (s, r) \<Rightarrow>
        (if (case r of Inl _ \<Rightarrow> True | Inr c \<Rightarrow> fails c) then s\<lparr>ov_failed := True\<rparr> else s, r))"

definition write_page :: "(int \<Rightarrow> bool) \<Rightarrow> overlay \<Rightarrow> nat \<Rightarrow> byte list \<Rightarrow> overlay \<times> (limbo_error, int) result" where
  "write_page fails s page_idx buffer = capture fails (write_page_inner s page_idx buffer)"

fun write_each :: "(int \<Rightarrow> bool) \<Rightarrow> overlay \<Rightarrow> nat \<Rightarrow> nat \<Rightarrow> byte list list \<Rightarrow> overlay \<times> (limbo_error, unit) result" where
  "write_each fails s first index [] = (s, Inr ())"
| "write_each fails s first index (buffer # buffers) =
     (case usize_checked_add first index of
        None \<Rightarrow> (s, Inl IntegerOverflow)
      | Some page \<Rightarrow>
          (case write_page fails s page buffer of
             (s, Inl e) \<Rightarrow> (s, Inl e)
           | (s, Inr _) \<Rightarrow> write_each fails s first (index + 1) buffers))"

definition write_pages_inner :: "(int \<Rightarrow> bool) \<Rightarrow> overlay \<Rightarrow> nat \<Rightarrow> nat \<Rightarrow> byte list list
    \<Rightarrow> overlay \<times> (limbo_error, int) result" where
  "write_pages_inner fails s first page_size buffers =
     (if page_size \<noteq> cow_page then (s, Inl (InvalidArgument ''expected 4 KiB page''))
      else case usize_checked_mul (length buffers) cow_page of
             None \<Rightarrow> (s, Inl IntegerOverflow)
           | Some count \<Rightarrow>
               (case write_each fails s first 0 buffers of
                  (s, Inl e) \<Rightarrow> (s, Inl e)
                | (s, Inr _) \<Rightarrow> (s, complete_i32 count)))"

definition div_ceil :: "nat \<Rightarrow> nat \<Rightarrow> nat" where
  "div_ceil a b = (a + b - 1) div b"

text \<open>\<^verbatim>\<open>truncate\<close> before the completion: the boundary page is kept with a zero tail.\<close>

definition truncate_state :: "overlay \<Rightarrow> nat \<Rightarrow> overlay option" where
  "truncate_state s len =
     map_option (\<lambda>s. s\<lparr>ov_length := len\<rparr>)
       (if len < ov_length s
        then map_option
               (\<lambda>pages. s\<lparr>ov_pages := filter (\<lambda>(index, _). index < div_ceil len cow_page) pages,
                          ov_parent_limit := min (ov_parent_limit s) len\<rparr>)
               (if len mod cow_page \<noteq> 0
                then map_option
                       (\<lambda>(_, page). bt_insert (len div cow_page)
                          (take (len mod cow_page) page @ replicate (length page - len mod cow_page) 0) (ov_pages s))
                       (read_at s (len div cow_page * cow_page) cow_page)
                else Some (ov_pages s))
        else Some s)"

section \<open>The storage interface of the engine\<close>

datatype storage_op =
    ReadHeader nat
  | ReadPage nat "byte list"
  | WritePage nat "byte list"
  | WritePages nat nat "byte list list"
  | Sync
  | Truncate nat
  | Size

type_synonym storage_output = "(limbo_error, int) result \<times> byte list"

definition captured_read :: "(int \<Rightarrow> bool) \<Rightarrow> overlay \<Rightarrow> ((limbo_error, int) result \<times> byte list) option
    \<Rightarrow> (overlay \<times> storage_output) option" where
  "captured_read fails s r = map_option (\<lambda>(c, bytes). case capture fails (s, c) of (s, c) \<Rightarrow> (s, (c, bytes))) r"

definition captured_write :: "(int \<Rightarrow> bool) \<Rightarrow> overlay \<times> (limbo_error, int) result \<Rightarrow> (overlay \<times> storage_output) option" where
  "captured_write fails sr = (case capture fails sr of (s, c) \<Rightarrow> Some (s, (c, [])))"

fun ov_exec :: "(int \<Rightarrow> bool) \<Rightarrow> overlay \<Rightarrow> storage_op \<Rightarrow> (overlay \<times> storage_output) option" where
  "ov_exec fails s (ReadHeader n) = captured_read fails s (read_header_inner s n)"
| "ov_exec fails s (ReadPage page buf) = captured_read fails s (read_page_inner s page buf)"
| "ov_exec fails s (WritePage page buffer) = captured_write fails (write_page_inner s page buffer)"
| "ov_exec fails s (WritePages first size_arg buffers) = captured_write fails (write_pages_inner fails s first size_arg buffers)"
| "ov_exec fails s Sync = captured_write fails (s, Inr 0)"
| "ov_exec fails s (Truncate len) = Option.bind (truncate_state s len) (\<lambda>s. captured_write fails (s, Inr 0))"
| "ov_exec fails s Size = Some (s, (Inr (int (ov_length s)), []))"

section \<open>Freezing\<close>

fun freeze_pages :: "overlay \<Rightarrow> nat list \<Rightarrow> (u64, byte list) btree \<Rightarrow> (u64, byte list) btree option" where
  "freeze_pages s [] changed = Some changed"
| "freeze_pages s (index # touched) changed =
     (if index * cow_page \<ge> ov_length s then freeze_pages s touched changed
      else Option.bind (read_at s (index * cow_page) cow_page) (\<lambda>(_, bytes).
        freeze_pages s touched
          (if get_range (ov_parent s) (index * cow_page) ((index + 1) * cow_page) \<noteq> Some bytes
           then bt_insert (u64_of_usize index + 1) bytes changed else changed)))"

definition touched_pages :: "overlay \<Rightarrow> nat list" where
  "touched_pages s =
     sorted_list_of_set (set (map fst (ov_pages s))
       \<union> {ov_parent_limit s div cow_page ..< div_ceil (ov_length s) cow_page})"

definition close_and_freeze :: "overlay \<Rightarrow> (limbo_error, frozen_image) result option" where
  "close_and_freeze s =
     (if ov_failed s then Some (Inl (InternalError ''candidate storage failed before freeze''))
      else if ov_length s mod cow_page \<noteq> 0 then Some (Inl (InvalidArgument ''unaligned frozen image''))
      else map_option (\<lambda>changed. Inr \<lparr>fi_parent = ov_parent s, fi_length = ov_length s, fi_changed = changed\<rparr>)
             (freeze_pages s (touched_pages s) []))"

definition materialize_page :: "nat \<Rightarrow> byte list option \<Rightarrow> u64 \<times> byte list \<Rightarrow> byte list option" where
  "materialize_page len bytes e =
     Option.bind bytes (\<lambda>bytes.
       let start = (unat (fst e) - 1) * cow_page;
           count = min cow_page (len - start)
       in copy_slice start 0 count (snd e) bytes)"

definition materialize :: "frozen_image \<Rightarrow> byte list option" where
  "materialize f =
     (let copied = min (length (fi_parent f)) (fi_length f)
      in foldl (materialize_page (fi_length f))
           (copy_slice 0 0 copied (fi_parent f) (replicate (fi_length f) 0)) (fi_changed f))"

section \<open>The flat file\<close>

definition ov_byte :: "overlay \<Rightarrow> nat \<Rightarrow> byte" where
  "ov_byte s pos =
     (case bt_get (ov_pages s) (pos div cow_page) of
        Some page \<Rightarrow> page ! (pos mod cow_page)
      | None \<Rightarrow> if pos < ov_parent_limit s then ov_parent s ! pos else 0)"

definition ov_content :: "overlay \<Rightarrow> byte list" where
  "ov_content s = map (ov_byte s) [0 ..< ov_length s]"

text \<open>
  The invariant: the part of the parent that is still visible lies in the parent and in the file,
  pages are whole and start inside the file, and nothing but zeros lies past the end of the file.
\<close>

definition ov_inv :: "overlay \<Rightarrow> bool" where
  "ov_inv s =
     (ov_parent_limit s \<le> length (ov_parent s) \<and> ov_parent_limit s \<le> ov_length s
      \<and> ov_length s < usize_bound \<and> bt_ok (ov_pages s)
      \<and> (\<forall>k page. bt_get (ov_pages s) k = Some page \<longrightarrow>
           length page = cow_page \<and> k * cow_page < ov_length s
           \<and> (\<forall>i < cow_page. ov_length s \<le> k * cow_page + i \<longrightarrow> page ! i = 0)))"

lemma cow_page_pos [simp]: "0 < cow_page" "cow_page \<noteq> 0"
  by (simp_all add: cow_page_def)

lemma length_ov_content [simp]: "length (ov_content s) = ov_length s"
  by (simp add: ov_content_def)

lemma ov_byte_beyond:
  assumes "ov_inv s" "ov_length s \<le> pos"
  shows "ov_byte s pos = 0"
proof (cases "bt_get (ov_pages s) (pos div cow_page)")
  case None
  then show ?thesis using assms by (auto simp: ov_byte_def ov_inv_def)
next
  case (Some page)
  moreover have "pos div cow_page * cow_page + pos mod cow_page = pos" "pos mod cow_page < cow_page" by simp_all
  ultimately show ?thesis using assms unfolding ov_byte_def ov_inv_def by auto
qed

section \<open>Reading\<close>

lemma copy_slice_Some:
  "a + n \<le> length dst \<Longrightarrow> b + n \<le> length src \<Longrightarrow>
     copy_slice a b n src dst = Some (take a dst @ take n (drop b src) @ drop (a + n) dst)"
  by (simp add: copy_slice_def get_range_def copy_at_def)

lemma same_page:
  assumes "pos mod cow_page + i < cow_page"
  shows "(pos + i) div cow_page = pos div cow_page" "(pos + i) mod cow_page = pos mod cow_page + i"
proof -
  have "pos + i = pos div cow_page * cow_page + (pos mod cow_page + i)" by simp
  then show "(pos + i) div cow_page = pos div cow_page" "(pos + i) mod cow_page = pos mod cow_page + i"
    using assms by (metis div_mult_self3 cow_page_pos(2) div_less add_0_right, metis mod_mult_self3 mod_less)
qed

text \<open>A step of the loop puts the bytes of the file in place.\<close>

definition filled :: "overlay \<Rightarrow> nat \<Rightarrow> nat \<Rightarrow> nat \<Rightarrow> byte list \<Rightarrow> byte list" where
  "filled s offset copied n bytes = take copied bytes @ map (ov_byte s) [offset + copied ..< offset + copied + n]
     @ drop (copied + n) bytes"

lemma map_upt_eqI:
  "length xs = n \<Longrightarrow> (\<And>i. i < n \<Longrightarrow> xs ! i = f (a + i)) \<Longrightarrow> xs = map f [a ..< a + n]"
  by (rule nth_equalityI) auto

lemma read_chunk:
  assumes inv: "ov_inv s" and len: "copied + chunk \<le> length bytes" and pg: "pos mod cow_page + chunk \<le> cow_page"
    and pos: "pos = offset + copied" and z: "\<forall>i < chunk. bytes ! (copied + i) = 0"
  shows "(case bt_get (ov_pages s) (pos div cow_page) of
            Some page \<Rightarrow> copy_slice copied (pos mod cow_page) chunk page bytes
          | None \<Rightarrow>
              if pos < ov_parent_limit s
              then copy_slice copied pos (min chunk (ov_parent_limit s - pos)) (ov_parent s) bytes
              else Some bytes) = Some (filled s offset copied chunk bytes)"
proof (cases "bt_get (ov_pages s) (pos div cow_page)")
  case (Some page)
  then have l: "length page = cow_page" using inv by (auto simp: ov_inv_def)
  have "take chunk (drop (pos mod cow_page) page) = map (ov_byte s) [pos ..< pos + chunk]"
  proof (rule map_upt_eqI)
    fix i assume i: "i < chunk"
    then show "take chunk (drop (pos mod cow_page) page) ! i = ov_byte s (pos + i)"
      using same_page [of pos i] pg l Some by (simp add: ov_byte_def)
  qed (use pg l in simp)
  with Some l pg len show ?thesis by (simp add: copy_slice_Some filled_def pos)
next
  case None
  define n where "n = (if pos < ov_parent_limit s then min chunk (ov_parent_limit s - pos) else 0)"
  have limit: "ov_parent_limit s \<le> length (ov_parent s)" using inv by (simp add: ov_inv_def)
  have n: "n \<le> chunk" "length (take n (drop pos (ov_parent s))) = n" using limit by (auto simp: n_def)
  have less: "i < n \<longleftrightarrow> pos + i < ov_parent_limit s" if "i < chunk" for i
    using that by (auto simp: n_def)
  have "take n (drop pos (ov_parent s)) @ take (chunk - n) (drop (copied + n) bytes)
      = map (ov_byte s) [pos ..< pos + chunk]"
  proof (rule map_upt_eqI)
    fix i assume i: "i < chunk"
    then have "ov_byte s (pos + i) = (if i < n then ov_parent s ! (pos + i) else 0)"
      using same_page(1) [of pos i] pg None less by (simp add: ov_byte_def)
    then show "(take n (drop pos (ov_parent s)) @ take (chunk - n) (drop (copied + n) bytes)) ! i = ov_byte s (pos + i)"
      using i z n len by (auto simp: nth_append)
  qed (use n len in simp)
  moreover have "take (chunk - n) (drop (copied + n) bytes) @ drop (copied + chunk) bytes = drop (copied + n) bytes"
    using n(1) append_take_drop_id [of "chunk - n" "drop (copied + n) bytes"] by (simp add: add.commute add.left_commute)
  ultimately have "filled s offset copied chunk bytes =
      take copied bytes @ take n (drop pos (ov_parent s)) @ drop (copied + n) bytes"
    unfolding filled_def pos [symmetric] by (metis append_assoc)
  then show ?thesis using None limit len n(1) by (auto simp: copy_slice_Some n_def)
qed

lemma filled_filled:
  assumes "copied + a + b \<le> length bytes"
  shows "filled s offset (copied + a) b (filled s offset copied a bytes) = filled s offset copied (a + b) bytes"
proof -
  have "map (ov_byte s) [offset + copied ..< offset + copied + a] @ map (ov_byte s) [offset + copied + a ..< offset + copied + a + b]
      = map (ov_byte s) [offset + copied ..< offset + copied + (a + b)]"
    using upt_add_eq_append [of "offset + copied" "offset + copied + a" b]
    by (simp add: add.assoc del: upt_add_eq_append flip: map_append)
  moreover have "take (copied + a) (filled s offset copied a bytes) =
      take copied bytes @ map (ov_byte s) [offset + copied ..< offset + copied + a]"
    using assms by (simp add: filled_def)
  moreover have "drop (copied + a + b) (filled s offset copied a bytes) = drop (copied + a + b) bytes"
    using assms by (simp add: filled_def add.commute add.left_commute)
  ultimately show ?thesis unfolding filled_def [of s offset "copied + a"] filled_def [of s offset copied "a + b"]
    by (simp add: add.assoc)
qed

lemma length_filled [simp]: "copied + n \<le> length bytes \<Longrightarrow> length (filled s offset copied n bytes) = length bytes"
  by (simp add: filled_def)

lemma nth_filled_beyond: "copied + n \<le> i \<Longrightarrow> i < length bytes \<Longrightarrow> filled s offset copied n bytes ! i = bytes ! i"
  by (auto simp: filled_def nth_append)

lemma read_loop_filled:
  "ov_inv s \<Longrightarrow> copied \<le> count \<Longrightarrow> count \<le> length bytes \<Longrightarrow> \<forall>i. copied \<le> i \<longrightarrow> i < count \<longrightarrow> bytes ! i = 0 \<Longrightarrow>
     read_loop s offset count copied bytes = Some (filled s offset copied (count - copied) bytes)"
proof (induction s offset count copied bytes rule: read_loop.induct)
  case (1 s offset count copied bytes)
  show ?case
  proof (cases "copied < count")
    case False
    then have "read_loop s offset count copied bytes = Some bytes"
      by (simp add: read_loop.simps [of s offset count copied])
    then show ?thesis using False "1.prems" by (simp add: filled_def)
  next
    case True
    define pos where "pos = offset + copied"
    define chunk where "chunk = min (cow_page - pos mod cow_page) (count - copied)"
    have ch: "copied + chunk \<le> count" "pos mod cow_page + chunk \<le> cow_page"
      using True by (auto simp: chunk_def min_def intro: less_imp_le)
    have "chunk \<le> cow_page - pos mod cow_page" by (simp add: chunk_def)
    with mod_less_divisor [OF cow_page_pos(1), of pos] have pg: "pos mod cow_page + chunk \<le> cow_page" by linarith
    let ?b = "filled s offset copied chunk bytes"
    have z: "\<forall>i < chunk. bytes ! (copied + i) = 0" "copied + chunk \<le> length bytes" using "1.prems" ch by auto
    note step = read_chunk [OF "1.prems"(1) z(2) pg pos_def z(1)]
    have "read_loop s offset count copied bytes = read_loop s offset count (copied + chunk) ?b"
      unfolding read_loop.simps [of s offset count copied bytes] Let_def pos_def [symmetric] chunk_def [symmetric] step
      by (simp only: True if_True bind.bind_lunit)
    also have "\<dots> = Some (filled s offset (copied + chunk) (count - (copied + chunk)) ?b)"
      using "1.IH" [OF True pos_def chunk_def, of ?b] step "1.prems" ch by (simp add: nth_filled_beyond)
    also have "\<dots> = Some (filled s offset copied (count - copied) bytes)"
      using filled_filled [of copied chunk "count - (copied + chunk)" bytes s offset] "1.prems" ch by simp
    finally show ?thesis .
  qed
qed

text \<open>What a read of a flat file gives: the bytes there are, then zeros.\<close>

definition flat_read :: "byte list \<Rightarrow> nat \<Rightarrow> nat \<Rightarrow> nat \<times> byte list" where
  "flat_read f offset n =
     (let count = min n (length f - offset) in (count, take count (drop offset f) @ replicate (n - count) 0))"

lemma read_at_flat: "ov_inv s \<Longrightarrow> read_at s offset n = Some (flat_read (ov_content s) offset n)"
proof -
  assume inv: "ov_inv s"
  define count where "count = min n (ov_length s - offset)"
  have "read_loop s offset count 0 (replicate n 0) = Some (filled s offset 0 count (replicate n 0))"
    using read_loop_filled [OF inv, of 0 count "replicate n 0" offset] by (simp add: count_def)
  moreover have "map (ov_byte s) [offset ..< offset + count] = take count (drop offset (ov_content s))"
    by (rule nth_equalityI) (auto simp: ov_content_def count_def)
  ultimately show ?thesis
    by (simp add: read_at_def flat_read_def Let_def filled_def flip: count_def)
qed

section \<open>Writing\<close>

text \<open>The byte of a flat file, zero past its end, and the writes on it.\<close>

definition flat_byte :: "byte list \<Rightarrow> nat \<Rightarrow> byte" where
  "flat_byte f pos = (if pos < length f then f ! pos else 0)"

definition flat_resize :: "nat \<Rightarrow> byte list \<Rightarrow> byte list" where
  "flat_resize n f = take n f @ replicate (n - length f) 0"

definition flat_write :: "byte list \<Rightarrow> nat \<Rightarrow> byte list \<Rightarrow> byte list" where
  "flat_write f page_idx buffer =
     copy_at ((page_idx - 1) * cow_page) buffer (flat_resize (max (length f) (page_idx * cow_page)) f)"

lemma flat_byte_content: "ov_inv s \<Longrightarrow> flat_byte (ov_content s) pos = ov_byte s pos"
  by (auto simp: flat_byte_def ov_content_def ov_byte_beyond)

lemma flat_byte_beyond: "length f \<le> pos \<Longrightarrow> flat_byte f pos = 0"
  by (simp add: flat_byte_def)

lemma flat_eqI: "length f = length g \<Longrightarrow> (\<And>pos. pos < length f \<Longrightarrow> flat_byte f pos = flat_byte g pos) \<Longrightarrow> f = g"
  by (rule nth_equalityI) (auto simp: flat_byte_def)

lemma length_flat_resize [simp]: "length (flat_resize n f) = n"
  by (auto simp: flat_resize_def)

lemma flat_byte_resize: "flat_byte (flat_resize n f) pos = (if pos < n then flat_byte f pos else 0)"
  by (auto simp: flat_byte_def flat_resize_def nth_append min_def)

lemma length_flat_write [simp]:
  assumes "0 < page_idx" "length buffer = cow_page"
  shows "length (flat_write f page_idx buffer) = max (length f) (page_idx * cow_page)"
proof -
  have "(page_idx - 1) * cow_page + cow_page = page_idx * cow_page" using assms(1) by (cases page_idx) auto
  then show ?thesis using assms(2) by (auto simp: flat_write_def copy_at_def max_def)
qed

lemma div_eq_page: "pos div cow_page = k \<longleftrightarrow> k * cow_page \<le> pos \<and> pos < k * cow_page + cow_page"
proof
  assume "pos div cow_page = k"
  then have "k * cow_page + pos mod cow_page = pos" by (metis div_mult_mod_eq)
  moreover have "pos mod cow_page < cow_page" by simp
  ultimately show "k * cow_page \<le> pos \<and> pos < k * cow_page + cow_page" by linarith
next
  assume "k * cow_page \<le> pos \<and> pos < k * cow_page + cow_page"
  then obtain i where "pos = k * cow_page + i" "i < cow_page"
    by (metis add_diff_cancel_left' le_add_diff_inverse nat_add_left_cancel_less)
  then show "pos div cow_page = k" by simp
qed

lemma flat_byte_copy:
  assumes "a + length src \<le> length f"
  shows "flat_byte (copy_at a src f) pos = (if a \<le> pos \<and> pos < a + length src then src ! (pos - a) else flat_byte f pos)"
  using assms by (auto simp: flat_byte_def copy_at_def nth_append)

lemma flat_byte_write:
  assumes "0 < page_idx" "length buffer = cow_page"
  shows "flat_byte (flat_write f page_idx buffer) pos =
    (if pos div cow_page = page_idx - 1 then buffer ! (pos mod cow_page) else flat_byte f pos)"
proof -
  let ?k = "page_idx - 1"
  have e: "?k * cow_page + cow_page = page_idx * cow_page" using assms(1) by (cases page_idx) auto
  have "pos mod cow_page = pos - ?k * cow_page" if "pos div cow_page = ?k"
    using that by (simp add: minus_div_mult_eq_mod [symmetric])
  moreover have "?k * cow_page + length buffer \<le> length (flat_resize (max (length f) (page_idx * cow_page)) f)"
    using e assms(2) by simp
  ultimately show ?thesis
    unfolding flat_write_def
    by (subst flat_byte_copy) (auto simp: flat_byte_resize assms(2) div_eq_page flat_byte_beyond)
qed

lemma ov_byte_write:
  assumes "bt_ok (ov_pages s)"
  shows "ov_byte (s\<lparr>ov_pages := bt_insert k page (ov_pages s), ov_length := n\<rparr>) pos =
    (if pos div cow_page = k then page ! (pos mod cow_page) else ov_byte s pos)"
  by (simp add: ov_byte_def bt_get_insert [OF assms] split: option.split)

lemma write_page_flat:
  assumes inv: "ov_inv s" and b: "length buffer = cow_page" and k: "0 < page_idx" and e: "page_idx * cow_page < usize_bound"
  defines "t \<equiv> s\<lparr>ov_pages := bt_insert (page_idx - 1) buffer (ov_pages s),
      ov_length := max (ov_length s) (page_idx * cow_page)\<rparr>"
  shows "ov_inv t \<and> ov_content t = flat_write (ov_content s) page_idx buffer"
proof -
  have ok: "bt_ok (ov_pages s)" using inv by (simp add: ov_inv_def)
  have kk: "(page_idx - 1) * cow_page + cow_page = page_idx * cow_page" using k by (cases page_idx) auto
  have it: "ov_inv t"
    using inv b e kk unfolding ov_inv_def t_def
    by (auto simp: bt_get_insert [OF ok] bt_ok_insert less_max_iff_disj less_add_same_cancel1 [symmetric] split: if_splits)
  moreover have "ov_content t = flat_write (ov_content s) page_idx buffer"
  proof (rule flat_eqI)
    show "length (ov_content t) = length (flat_write (ov_content s) page_idx buffer)"
      using b k by (simp add: t_def)
    fix pos
    show "flat_byte (ov_content t) pos = flat_byte (flat_write (ov_content s) page_idx buffer) pos"
      unfolding flat_byte_content [OF it] flat_byte_write [OF k b] flat_byte_content [OF inv]
      by (simp add: t_def ov_byte_write [OF ok])
  qed
  ultimately show ?thesis by blast
qed

section \<open>Truncation\<close>

lemma div_ceil_less: "k < div_ceil n cow_page \<longleftrightarrow> k * cow_page < n"
proof -
  have "k < (n + cow_page - 1) div cow_page \<longleftrightarrow> Suc k * cow_page \<le> n + cow_page - 1"
    by (simp only: Suc_le_eq [symmetric] less_eq_div_iff_mult_less_eq [OF cow_page_pos(1)])
  moreover have "Suc k * cow_page = k * cow_page + cow_page" by simp
  ultimately show ?thesis unfolding div_ceil_def using cow_page_pos(1) by linarith
qed

lemma flat_read_nth:
  "i < n \<Longrightarrow> snd (flat_read f offset n) ! i = flat_byte f (offset + i)" "length (snd (flat_read f offset n)) = n"
  by (auto simp: flat_read_def Let_def nth_append flat_byte_def min_def)

lemma bt_get_filter:
  "bt_ok m \<Longrightarrow> bt_get (filter (\<lambda>(k, _). P k) m) k = (if P k then bt_get m k else None)"
  unfolding bt_get_def by (induction m) (auto simp: bt_ok_def)

lemma bt_ok_filter: "bt_ok m \<Longrightarrow> bt_ok (filter P m)"
  unfolding bt_ok_def by (induction m) auto

lemma truncate_flat:
  assumes inv: "ov_inv s" and len: "len < usize_bound"
  shows "\<exists>t. truncate_state s len = Some t \<and> ov_inv t \<and> ov_failed t = ov_failed s \<and> ov_parent t = ov_parent s
    \<and> ov_content t = flat_resize len (ov_content s)"
proof (cases "len < ov_length s")
  case False
  let ?t = "s\<lparr>ov_length := len\<rparr>"
  have t: "ov_inv ?t" using inv len False unfolding ov_inv_def by fastforce
  have "ov_content ?t = flat_resize len (ov_content s)"
  proof (rule flat_eqI)
    fix pos assume "pos < length (ov_content ?t)"
    then show "flat_byte (ov_content ?t) pos = flat_byte (flat_resize len (ov_content s)) pos"
      unfolding flat_byte_content [OF t] flat_byte_resize flat_byte_content [OF inv]
      by (simp add: ov_byte_def split: option.split)
  qed simp
  then show ?thesis using t False by (simp add: truncate_state_def)
next
  case True
  define page where "page = snd (flat_read (ov_content s) (len div cow_page * cow_page) cow_page)"
  define cut where "cut = take (len mod cow_page) page @ replicate (length page - len mod cow_page) 0"
  define pages where "pages = (if len mod cow_page \<noteq> 0 then bt_insert (len div cow_page) cut (ov_pages s) else ov_pages s)"
  define t where "t = s\<lparr>ov_pages := filter (\<lambda>(index, _). index < div_ceil len cow_page) pages,
      ov_parent_limit := min (ov_parent_limit s) len, ov_length := len\<rparr>"
  have run: "truncate_state s len = Some t"
    using True by (auto simp: truncate_state_def read_at_flat [OF inv] t_def pages_def cut_def page_def
        split: prod.splits)
  have ok: "bt_ok (ov_pages s)" "bt_ok pages" using inv by (auto simp: ov_inv_def pages_def)
  have lc: "length cut = cow_page" 
    using mod_less_divisor [OF cow_page_pos(1), of len] by (simp add: cut_def page_def flat_read_nth)
  define q where "q = len div cow_page * cow_page"
  have q: "len = q + len mod cow_page" "len mod cow_page < cow_page" by (simp_all add: q_def)
  have cut: "cut ! i = (if q + i < len then ov_byte s (q + i) else 0)" if i: "i < cow_page" for i
  proof (cases "i < len mod cow_page")
    case True
    then have "cut ! i = page ! i" by (simp add: cut_def nth_append page_def flat_read_nth)
    also have "\<dots> = ov_byte s (q + i)" using i by (simp add: page_def flat_read_nth flat_byte_content [OF inv] q_def)
    finally show ?thesis using True q by simp
  next
    case False
    then have "cut ! i = 0" using i q(2) by (simp add: cut_def nth_append page_def flat_read_nth)
    then show ?thesis using False q by simp
  qed
  have get: "bt_get (ov_pages t) k = (if k * cow_page < len then
      (if k = len div cow_page \<and> len mod cow_page \<noteq> 0 then Some cut else bt_get (ov_pages s) k) else None)" for k
  proof -
    have "bt_get (ov_pages t) k = (if k * cow_page < len then bt_get pages k else None)"
      using bt_get_filter [OF ok(2), of "\<lambda>i. i < div_ceil len cow_page" k] by (simp add: t_def div_ceil_less)
    then show ?thesis by (simp add: pages_def bt_get_insert [OF ok(1)])
  qed
  have pg: "length p = cow_page \<and> k * cow_page < len \<and> (\<forall>i < cow_page. len \<le> k * cow_page + i \<longrightarrow> p ! i = 0)"
    if p: "bt_get (ov_pages t) k = Some p" for k p
  proof (cases "k = len div cow_page \<and> len mod cow_page \<noteq> 0")
    case True
    with p get [of k] have "p = cut" "k * cow_page < len" "k * cow_page = q" by (auto simp: q_def split: if_splits)
    then show ?thesis using lc cut by auto
  next
    case False
    with p get [of k] have k: "k * cow_page < len" "bt_get (ov_pages s) k = Some p" by (auto split: if_splits)
    have "k * cow_page + cow_page \<le> len"
    proof (rule ccontr)
      assume "\<not> k * cow_page + cow_page \<le> len"
      with k(1) have "len div cow_page = k" by (simp add: div_eq_page)
      with False k(1) show False using q by (simp add: q_def)
    qed
    with k inv show ?thesis by (auto simp: ov_inv_def)
  qed
  have it: "ov_inv t" using inv len ok pg by (auto simp: ov_inv_def t_def bt_ok_filter)
  have "ov_byte t pos = (if pos < len then ov_byte s pos else 0)" for pos
  proof (cases "pos < len")
    case False
    then show ?thesis using ov_byte_beyond [OF it, of pos] by (simp add: t_def)
  next
    case lt: True
    have d: "pos div cow_page * cow_page < len" using lt by (meson div_times_less_eq_dividend le_less_trans)
    show ?thesis
    proof (cases "pos div cow_page = len div cow_page \<and> len mod cow_page \<noteq> 0")
      case True
      then have "bt_get (ov_pages t) (pos div cow_page) = Some cut" using d by (simp add: get)
      moreover have "q + pos mod cow_page = pos" using True by (metis q_def div_mult_mod_eq)
      ultimately show ?thesis using lt cut [of "pos mod cow_page"] by (simp add: ov_byte_def)
    next
      case False
      then have "bt_get (ov_pages t) (pos div cow_page) = bt_get (ov_pages s) (pos div cow_page)" using d by (auto simp: get)
      moreover have "ov_parent_limit t = min (ov_parent_limit s) len" "ov_parent t = ov_parent s" by (simp_all add: t_def)
      ultimately show ?thesis using lt by (simp add: ov_byte_def split: option.split)
    qed
  qed
  then have "ov_content t = flat_resize len (ov_content s)"
    by (intro flat_eqI) (simp_all add: flat_byte_content [OF it] flat_byte_resize flat_byte_content [OF inv], simp add: t_def)
  then show ?thesis using run it by (auto simp: t_def)
qed

section \<open>The overlay refines a flat file\<close>

text \<open>A run of operations, of an implementation that may panic and of a specification.\<close>

fun run_ops :: "('s \<Rightarrow> 'op \<Rightarrow> ('s \<times> 'o) option) \<Rightarrow> 's \<Rightarrow> 'op list \<Rightarrow> ('s \<times> 'o list) option" where
  "run_ops exec s [] = Some (s, [])"
| "run_ops exec s (op # ops) =
     Option.bind (exec s op) (\<lambda>(s, out). map_option (\<lambda>(s, outs). (s, out # outs)) (run_ops exec s ops))"

fun run_spec :: "('a \<Rightarrow> 'op \<Rightarrow> 'a \<times> 'o) \<Rightarrow> 'a \<Rightarrow> 'op list \<Rightarrow> 'a \<times> 'o list" where
  "run_spec spec a [] = (a, [])"
| "run_spec spec a (op # ops) =
     (case spec a op of (a, out) \<Rightarrow> case run_spec spec a ops of (a, outs) \<Rightarrow> (a, out # outs))"

locale storage_refinement =
  fixes exec :: "'s \<Rightarrow> 'op \<Rightarrow> ('s \<times> 'o) option"
    and spec :: "'a \<Rightarrow> 'op \<Rightarrow> 'a \<times> 'o"
    and abs :: "'s \<Rightarrow> 'a"
    and inv :: "'s \<Rightarrow> bool"
    and op_ok :: "'op \<Rightarrow> bool"
  assumes step: "inv s \<Longrightarrow> op_ok op \<Longrightarrow>
    \<exists>s'. exec s op = Some (s', snd (spec (abs s) op)) \<and> inv s' \<and> abs s' = fst (spec (abs s) op)"
begin

lemma run:
  "inv s \<Longrightarrow> list_all op_ok ops \<Longrightarrow>
     \<exists>s'. run_ops exec s ops = Some (s', snd (run_spec spec (abs s) ops)) \<and> inv s'
       \<and> abs s' = fst (run_spec spec (abs s) ops)"
proof (induction ops arbitrary: s)
  case (Cons op ops)
  from step [of s op] Cons.prems obtain t where t: "exec s op = Some (t, snd (spec (abs s) op))" "inv t"
    "abs t = fst (spec (abs s) op)" by auto
  from Cons.IH [OF t(2)] Cons.prems obtain u where "run_ops exec t ops = Some (u, snd (run_spec spec (abs t) ops))"
    "inv u" "abs u = fst (run_spec spec (abs t) ops)" by auto
  with t show ?case by (auto simp: split_beta)
qed simp

end

text \<open>The specification: a file of bytes and a flag that any error or failed completion sets.\<close>

type_synonym flat_state = "byte list \<times> bool"

definition flat_result :: "(int \<Rightarrow> bool) \<Rightarrow> byte list \<Rightarrow> bool \<Rightarrow> (limbo_error, int) result \<Rightarrow> byte list \<Rightarrow> flat_state \<times> storage_output" where
  "flat_result fails f failed c bytes =
     ((f, failed \<or> (case c of Inl _ \<Rightarrow> True | Inr v \<Rightarrow> fails v)), (c, bytes))"

definition flat_write_page :: "byte list \<Rightarrow> nat \<Rightarrow> byte list \<Rightarrow> byte list \<times> (limbo_error, int) result" where
  "flat_write_page f page buffer =
     (if length buffer \<noteq> cow_page \<or> page = 0 then (f, Inl (InvalidArgument ''expected 4 KiB page''))
      else if usize_bound \<le> page * cow_page then (f, Inl IntegerOverflow)
      else (flat_write f page buffer, Inr 4096))"

fun flat_write_each :: "(int \<Rightarrow> bool) \<Rightarrow> flat_state \<Rightarrow> nat \<Rightarrow> byte list list \<Rightarrow> flat_state \<times> (limbo_error, unit) result" where
  "flat_write_each fails (f, failed) page [] = ((f, failed), Inr ())"
| "flat_write_each fails (f, failed) page (buffer # buffers) =
     (if usize_bound \<le> page then ((f, failed), Inl IntegerOverflow)
      else case flat_write_page f page buffer of
             (f, Inl e) \<Rightarrow> ((f, True), Inl e)
           | (f, Inr v) \<Rightarrow> flat_write_each fails (f, failed \<or> fails v) (page + 1) buffers)"

fun flat_exec :: "(int \<Rightarrow> bool) \<Rightarrow> flat_state \<Rightarrow> storage_op \<Rightarrow> flat_state \<times> storage_output" where
  "flat_exec fails (f, failed) (ReadHeader n) =
     (case flat_read f 0 n of (count, bytes) \<Rightarrow> flat_result fails f failed (complete_i32 count) bytes)"
| "flat_exec fails (f, failed) (ReadPage page buf) =
     (if page = 0 \<or> usize_bound \<le> (page - 1) * cow_page then flat_result fails f failed (Inl IntegerOverflow) buf
      else case flat_read f ((page - 1) * cow_page) (length buf) of (count, bytes) \<Rightarrow>
             flat_result fails f failed (complete_i32 count) bytes)"
| "flat_exec fails (f, failed) (WritePage page buffer) =
     (case flat_write_page f page buffer of (f, c) \<Rightarrow> flat_result fails f failed c [])"
| "flat_exec fails (f, failed) (WritePages first size_arg buffers) =
     (if size_arg \<noteq> cow_page then flat_result fails f failed (Inl (InvalidArgument ''expected 4 KiB page'')) []
      else if usize_bound \<le> length buffers * cow_page then flat_result fails f failed (Inl IntegerOverflow) []
      else case flat_write_each fails (f, failed) first buffers of
             ((f, failed), Inl e) \<Rightarrow> flat_result fails f failed (Inl e) []
           | ((f, failed), Inr _) \<Rightarrow> flat_result fails f failed (complete_i32 (length buffers * cow_page)) [])"
| "flat_exec fails (f, failed) Sync = flat_result fails f failed (Inr 0) []"
| "flat_exec fails (f, failed) (Truncate len) = flat_result fails (flat_resize len f) failed (Inr 0) []"
| "flat_exec fails (f, failed) Size = ((f, failed), (Inr (int (length f)), []))"

definition ov_abs :: "overlay \<Rightarrow> flat_state" where
  "ov_abs s = (ov_content s, ov_failed s)"

text \<open>A length that \<^verbatim>\<open>truncate\<close> is called with is a \<^verbatim>\<open>usize\<close>.\<close>

fun storage_op_ok :: "storage_op \<Rightarrow> bool" where
  "storage_op_ok (Truncate len) = (len < usize_bound)"
| "storage_op_ok _ = True"

lemma ov_byte_flag [simp]: "ov_byte (s\<lparr>ov_failed := b\<rparr>) = ov_byte s"
  by (auto simp: fun_eq_iff ov_byte_def split: option.split)

lemma ov_flag [simp]:
  "ov_inv (s\<lparr>ov_failed := b\<rparr>) = ov_inv s" "ov_content (s\<lparr>ov_failed := b\<rparr>) = ov_content s"
  by (simp_all add: ov_inv_def ov_content_def)

lemma capture_spec:
  "capture fails (s, c) = (s\<lparr>ov_failed := ov_failed s \<or> (case c of Inl _ \<Rightarrow> True | Inr v \<Rightarrow> fails v)\<rparr>, c)"
  by (cases s) (auto simp: capture_def split: sum.splits)

lemma capture_refines:
  "ov_inv s \<Longrightarrow> \<exists>s'. captured_write fails (s, c) = Some (s', snd (flat_result fails (ov_content s) (ov_failed s) c []))
     \<and> ov_inv s' \<and> ov_abs s' = fst (flat_result fails (ov_content s) (ov_failed s) c [])"
  "ov_inv s \<Longrightarrow> \<exists>s'. captured_read fails s (Some (c, bytes)) = Some (s', snd (flat_result fails (ov_content s) (ov_failed s) c bytes))
     \<and> ov_inv s' \<and> ov_abs s' = fst (flat_result fails (ov_content s) (ov_failed s) c bytes)"
  by (simp_all add: captured_write_def captured_read_def capture_spec flat_result_def ov_abs_def)

lemma write_page_inner_refines:
  assumes "ov_inv s"
  shows "\<exists>t. write_page_inner s page buffer = (t, snd (flat_write_page (ov_content s) page buffer)) \<and> ov_inv t
    \<and> ov_content t = fst (flat_write_page (ov_content s) page buffer) \<and> ov_failed t = ov_failed s"
  using write_page_flat [OF assms, of buffer page]
  by (auto simp: write_page_inner_def flat_write_page_def usize_checked_mul_def assms not_le)

lemma write_each_refines:
  "ov_inv s \<Longrightarrow> \<exists>t. write_each fails s first index buffers = (t, snd (flat_write_each fails (ov_abs s) (first + index) buffers))
     \<and> ov_inv t \<and> ov_abs t = fst (flat_write_each fails (ov_abs s) (first + index) buffers)"
proof (induction buffers arbitrary: s index)
  case Nil
  then show ?case by (simp add: ov_abs_def)
next
  case (Cons buffer buffers)
  show ?case
  proof (cases "usize_bound \<le> first + index")
    case True
    then show ?thesis using Cons.prems by (simp add: ov_abs_def usize_checked_add_def)
  next
    case False
    from write_page_inner_refines [OF Cons.prems, of "first + index" buffer] obtain t where
      t: "write_page_inner s (first + index) buffer = (t, snd (flat_write_page (ov_content s) (first + index) buffer))"
        "ov_inv t" "ov_content t = fst (flat_write_page (ov_content s) (first + index) buffer)" "ov_failed t = ov_failed s" by blast
    show ?thesis
    proof (cases "snd (flat_write_page (ov_content s) (first + index) buffer)")
      case (Inl e)
      then show ?thesis using False t
        by (auto simp: ov_abs_def usize_checked_add_def write_page_def capture_spec split: prod.splits)
    next
      case (Inr v)
      let ?u = "t\<lparr>ov_failed := ov_failed t \<or> fails v\<rparr>"
      have "ov_abs ?u = (fst (flat_write_page (ov_content s) (first + index) buffer), ov_failed s \<or> fails v)"
        using t by (simp add: ov_abs_def)
      with Cons.IH [of ?u "index + 1"] Inr False t show ?thesis
        by (auto simp: ov_abs_def usize_checked_add_def write_page_def capture_spec split: prod.splits)
    qed
  qed
qed

lemma ov_step_refines:
  assumes inv: "ov_inv s" and op: "storage_op_ok op"
  shows "\<exists>s'. ov_exec fails s op = Some (s', snd (flat_exec fails (ov_abs s) op)) \<and> ov_inv s'
    \<and> ov_abs s' = fst (flat_exec fails (ov_abs s) op)"
proof (cases op)
  case (ReadHeader n)
  then show ?thesis
    using capture_refines(2) [OF inv] by (simp add: read_header_inner_def ov_read_def read_at_flat [OF inv] ov_abs_def split_beta)
next
  case (ReadPage page buf)
  then show ?thesis
    using capture_refines(2) [OF inv]
    by (simp add: read_page_inner_def ov_read_def read_at_flat [OF inv] ov_abs_def split_beta usize_checked_mul_def not_le)
next
  case (WritePage page buffer)
  from write_page_inner_refines [OF inv, of page buffer] obtain t where
    "write_page_inner s page buffer = (t, snd (flat_write_page (ov_content s) page buffer))" "ov_inv t"
    "ov_content t = fst (flat_write_page (ov_content s) page buffer)" "ov_failed t = ov_failed s" by blast
  with capture_refines(1) [of t fails] WritePage show ?thesis by (simp add: ov_abs_def split_beta)
next
  case (WritePages first size_arg buffers)
  from write_each_refines [OF inv, of fails first 0 buffers] obtain t r where
    t: "write_each fails s first 0 buffers = (t, r)" "ov_inv t"
    and f: "flat_write_each fails (ov_content s, ov_failed s) first buffers = ((ov_content t, ov_failed t), r)"
    by (fastforce simp: ov_abs_def prod_eq_iff)
  then show ?thesis using WritePages capture_refines(1) [OF t(2)] capture_refines(1) [OF inv]
    by (cases r) (simp_all add: write_pages_inner_def usize_checked_mul_def not_le ov_abs_def [of s])
next
  case (Truncate len)
  from truncate_flat [OF inv, of len] op Truncate obtain t where
    "truncate_state s len = Some t" "ov_inv t" "ov_failed t = ov_failed s" "ov_content t = flat_resize len (ov_content s)" by auto
  with capture_refines(1) [of t fails] Truncate show ?thesis by (simp add: ov_abs_def)
next
  case Sync
  then show ?thesis using capture_refines(1) [OF inv] by (simp add: ov_abs_def)
next
  case Size
  then show ?thesis using inv by (simp add: ov_abs_def)
qed

interpretation cow: storage_refinement "ov_exec fails" "flat_exec fails" ov_abs ov_inv storage_op_ok
  for fails
  by unfold_locales (rule ov_step_refines)

section \<open>Freezing\<close>

definition flat_page :: "byte list \<Rightarrow> nat \<Rightarrow> byte list" where
  "flat_page f i = take cow_page (drop (i * cow_page) f)"

text \<open>A page of the file that the parent does not have.\<close>

definition page_differs :: "overlay \<Rightarrow> nat \<Rightarrow> bool" where
  "page_differs s i =
     (i * cow_page < ov_length s
      \<and> get_range (ov_parent s) (i * cow_page) ((i + 1) * cow_page) \<noteq> Some (flat_page (ov_content s) i))"

definition page_key :: "nat \<Rightarrow> u64" where
  "page_key i = u64_of_usize i + 1"

definition ov_aligned :: "overlay \<Rightarrow> bool" where
  "ov_aligned s = (ov_inv s \<and> ov_length s mod cow_page = 0)"

lemma aligned_page:
  assumes "ov_aligned s" "i * cow_page < ov_length s"
  shows "(i + 1) * cow_page \<le> ov_length s"
proof -
  from assms(1) obtain n where n: "ov_length s = n * cow_page" by (auto simp: ov_aligned_def mod_eq_0_iff_dvd dvd_def mult.commute)
  with assms(2) have "i + 1 \<le> n" by simp
  then show ?thesis unfolding n by (rule mult_right_mono) simp
qed

lemma length_flat_page: "(i + 1) * cow_page \<le> length f \<Longrightarrow> length (flat_page f i) = cow_page"
  by (simp add: flat_page_def)

lemma flat_page_nth:
  "(i + 1) * cow_page \<le> length f \<Longrightarrow> j < cow_page \<Longrightarrow> flat_page f i ! j = f ! (i * cow_page + j)"
  by (simp add: flat_page_def)

lemma read_page_aligned:
  assumes "ov_aligned s" "i * cow_page < ov_length s"
  shows "read_at s (i * cow_page) cow_page = Some (cow_page, flat_page (ov_content s) i)"
proof -
  have "cow_page \<le> ov_length s - i * cow_page" using aligned_page [OF assms] by simp
  then show ?thesis using assms(1)
    by (simp add: ov_aligned_def read_at_flat flat_read_def flat_page_def)
qed

lemma freeze_pages_extend:
  assumes "ov_aligned s"
  shows "freeze_pages s touched m =
    Some (bt_extend m (map (\<lambda>i. (page_key i, flat_page (ov_content s) i)) (filter (page_differs s) touched)))"
proof (induction touched arbitrary: m)
  case (Cons i touched)
  then show ?case
    using read_page_aligned [OF assms, of i]
    by (auto simp: bt_extend_def page_differs_def page_key_def)
qed (simp add: bt_extend_def)

lemma page_key_unat:
  assumes "ov_inv s" "i * cow_page < ov_length s"
  shows "unat (page_key i) = i + 1"
proof -
  have "i * 4096 < 2 ^ 64" using assms by (simp add: ov_inv_def usize_bound_def cow_page_def)
  then have "i + 1 < usize_bound" by (simp add: usize_bound_def)
  moreover have "page_key i = u64_of_usize (i + 1)" by (simp add: page_key_def u64_of_usize_def)
  ultimately show ?thesis by (simp only: unat_u64_of_usize)
qed

text \<open>An untouched page is the page of the parent.\<close>

lemma differs_touched:
  assumes "ov_aligned s" "page_differs s i"
  shows "i \<in> set (touched_pages s)"
proof (rule ccontr)
  assume "i \<notin> set (touched_pages s)"
  then have pg: "bt_get (ov_pages s) i = None" and "\<not> (ov_parent_limit s div cow_page \<le> i \<and> i < div_ceil (ov_length s) cow_page)"
    by (auto simp: touched_pages_def bt_get_def map_of_eq_None_iff)
  moreover have i: "i * cow_page < ov_length s" using assms(2) by (simp add: page_differs_def)
  ultimately have "i + 1 \<le> ov_parent_limit s div cow_page" by (simp add: div_ceil_less)
  then have lim: "(i + 1) * cow_page \<le> ov_parent_limit s"
    using less_eq_div_iff_mult_less_eq [OF cow_page_pos(1)] by blast
  have inv: "ov_inv s" using assms(1) by (simp add: ov_aligned_def)
  have par: "ov_parent_limit s \<le> length (ov_parent s)" using inv by (simp add: ov_inv_def)
  have "flat_page (ov_parent s) i = flat_page (ov_content s) i"
  proof (rule nth_equalityI)
    show "length (flat_page (ov_parent s) i) = length (flat_page (ov_content s) i)"
      using lim par aligned_page [OF assms(1) i] by (simp add: length_flat_page)
    fix j assume "j < length (flat_page (ov_parent s) i)"
    then have j: "j < cow_page" using lim par by (simp add: length_flat_page)
    then have "(i * cow_page + j) div cow_page = i" by simp
    then have "ov_byte s (i * cow_page + j) = ov_parent s ! (i * cow_page + j)"
      using pg lim j by (simp add: ov_byte_def)
    then show "flat_page (ov_parent s) i ! j = flat_page (ov_content s) i ! j"
      using lim par j aligned_page [OF assms(1) i] by (simp add: flat_page_nth ov_content_def)
  qed
  then have "get_range (ov_parent s) (i * cow_page) ((i + 1) * cow_page) = Some (flat_page (ov_content s) i)"
    using lim par by (simp add: get_range_def flat_page_def)
  then show False using assms(2) by (simp add: page_differs_def)
qed

lemma differs_inside: "page_differs s i \<Longrightarrow> i * cow_page < ov_length s"
  unfolding page_differs_def by blast

lemma page_key_inj:
  assumes "ov_inv s" "page_differs s i" "page_differs s j" "page_key i = page_key j"
  shows "i = j"
proof -
  have "unat (page_key i) = i + 1" "unat (page_key j) = j + 1"
    by (rule page_key_unat [OF assms(1) differs_inside [OF assms(2)]], rule page_key_unat [OF assms(1) differs_inside [OF assms(3)]])
  then have "i + 1 = j + 1" unfolding assms(4) by (rule HOL.trans [OF HOL.sym])
  then show ?thesis by (rule add_right_imp_eq)
qed

lemma set_differing:
  "ov_aligned s \<Longrightarrow> set (filter (page_differs s) (touched_pages s)) = Collect (page_differs s)"
  unfolding set_filter using differs_touched by blast

lemma frozen_pages:
  assumes al: "ov_aligned s"
  obtains changed where "freeze_pages s (touched_pages s) [] = Some changed" "bt_ok changed"
    "\<And>n page. bt_get changed n = Some page \<longleftrightarrow> (\<exists>i. n = page_key i \<and> page_differs s i \<and> page = flat_page (ov_content s) i)"
proof -
  define ks where "ks = filter (page_differs s) (touched_pages s)"
  define es where "es = map (\<lambda>i. (page_key i, flat_page (ov_content s) i)) ks"
  have inv: "ov_inv s" using al by (simp add: ov_aligned_def)
  have set_ks: "set ks = Collect (page_differs s)" unfolding ks_def by (rule set_differing [OF al])
  have "inj_on page_key (set ks)" unfolding set_ks by (rule inj_onI) (metis page_key_inj [OF inv] mem_Collect_eq)
  moreover have "distinct ks" unfolding ks_def touched_pages_def
    by (rule distinct_filter) (rule distinct_sorted_list_of_set)
  ultimately have "distinct (map page_key ks)" by (simp only: distinct_map simp_thms)
  moreover have "map fst es = map page_key ks" unfolding es_def map_map comp_def fst_conv by (rule refl)
  ultimately have "distinct (map fst es)" by simp
  then have d: "distinct (map fst (rev es))" by (simp only: rev_map [symmetric] distinct_rev)
  have ok: "bt_ok (bt_extend [] es)" by (rule bt_ok_extend) (simp add: bt_ok_def)
  have "bt_ok ([] :: (u64, byte list) btree)" by (simp add: bt_ok_def)
  then have "bt_get (bt_extend [] es) = map_of (rev es)"
    by (simp only: bt_get_extend bt.lookup_empty empty_map_add)
  then have get: "bt_get (bt_extend [] es) n = Some page \<longleftrightarrow> (n, page) \<in> set es" for n page
    by (simp only: map_of_eq_Some_iff [OF d] set_rev)
  have mem: "(n, page) \<in> set es \<longleftrightarrow> (\<exists>i. n = page_key i \<and> page_differs s i \<and> page = flat_page (ov_content s) i)" for n page
    unfolding es_def set_map set_ks by blast
  have run: "freeze_pages s (touched_pages s) [] = Some (bt_extend [] es)"
    unfolding freeze_pages_extend [OF al] es_def ks_def by (rule refl)
  show thesis by (rule that [OF run ok]) (simp only: get mem)
qed

section \<open>Materializing\<close>

lemma flat_page_cong:
  assumes "length f = length g" "\<And>j. j < cow_page \<Longrightarrow> flat_byte f (i * cow_page + j) = flat_byte g (i * cow_page + j)"
  shows "flat_page f i = flat_page g i"
proof (rule nth_equalityI)
  fix j assume "j < length (flat_page f i)"
  then show "flat_page f i ! j = flat_page g i ! j"
    using assms(1) assms(2) [of j] by (auto simp: flat_page_def flat_byte_def less_diff_conv add.commute split: if_splits)
qed (simp add: flat_page_def assms(1))

lemma flat_page_copy:
  assumes "length page = cow_page" "(k + 1) * cow_page \<le> length f"
  shows "flat_page (copy_at (k * cow_page) page f) i = (if i = k then page else flat_page f i)"
proof (cases "i = k")
  case True
  then show ?thesis using assms by (simp add: flat_page_def copy_at_def)
next
  case False
  have l: "k * cow_page + length page \<le> length f" using assms by simp
  have "flat_page (copy_at (k * cow_page) page f) i = flat_page f i"
  proof (rule flat_page_cong)
    fix j assume "j < cow_page"
    then have "(i * cow_page + j) div cow_page = i" by simp
    then have "\<not> (k * cow_page \<le> i * cow_page + j \<and> i * cow_page + j < k * cow_page + length page)"
      using False assms(1) div_eq_page by metis
    then show "flat_byte (copy_at (k * cow_page) page f) (i * cow_page + j) = flat_byte f (i * cow_page + j)"
      unfolding flat_byte_copy [OF l] by (rule if_not_P)
  qed (use l in \<open>simp add: copy_at_def\<close>)
  with False show ?thesis by simp
qed

lemma materialize_pages:
  defines "at_index \<equiv> map (\<lambda>(n, page). (unat n - 1, page))"
  shows "(\<And>n page. (n, page) \<in> set es \<Longrightarrow> 0 < unat n \<and> unat n * cow_page \<le> len \<and> length page = cow_page) \<Longrightarrow>
   length bytes = len \<Longrightarrow> distinct (map fst (at_index es)) \<Longrightarrow>
    \<exists>out. foldl (materialize_page len) (Some bytes) es = Some out \<and> length out = len
      \<and> (\<forall>i. flat_page out i = (case map_of (at_index es) i of Some page \<Rightarrow> page | None \<Rightarrow> flat_page bytes i))"
proof (induction es rule: rev_induct)
  case (snoc e es)
  obtain n page where e: "e = (n, page)" by fastforce
  have d: "distinct (map fst (at_index es))" "unat n - 1 \<notin> fst ` set (at_index es)"
    using snoc.prems(3) unfolding at_index_def map_append distinct_append e set_map by auto
  from snoc d(1) obtain out where out: "foldl (materialize_page len) (Some bytes) es = Some out" "length out = len"
    and pages: "\<And>i. flat_page out i = (case map_of (at_index es) i of Some page \<Rightarrow> page | None \<Rightarrow> flat_page bytes i)"
    by auto
  have n: "0 < unat n" "unat n * cow_page \<le> len" "length page = cow_page" using snoc.prems(1) [of n page] by (auto simp: e)
  define k where "k = unat n - 1"
  have k: "unat n = k + 1" using n(1) by (simp add: k_def)
  have kl: "(k + 1) * cow_page \<le> length out" using n(2) out(2) unfolding k by simp
  then have "min cow_page (len - k * cow_page) = cow_page" using out(2) by simp
  then have step: "materialize_page len (Some out) e = Some (copy_at (k * cow_page) page out)"
    using kl n(3) by (simp add: materialize_page_def e k copy_slice_Some copy_at_def)
  have at: "map_of (at_index (es @ [e])) i = (if i = k then Some page else map_of (at_index es) i)" for i
    using d(2) map_of_eq_None_iff [of "at_index es" k] unfolding k_def [symmetric]
    by (simp add: at_index_def e k_def [symmetric] map_add_def del: One_nat_def split: option.split)
  have "flat_page (copy_at (k * cow_page) page out) i =
      (case map_of (at_index (es @ [e])) i of Some page \<Rightarrow> page | None \<Rightarrow> flat_page bytes i)" for i
    unfolding flat_page_copy [OF n(3) kl] at by (simp add: pages)
  moreover have "length (copy_at (k * cow_page) page out) = len" using kl n(3) out(2) by (simp add: copy_at_def)
  ultimately show ?case using out(1) step by simp
qed (simp add: at_index_def)

text \<open>Two files of whole pages are equal when their pages are.\<close>

lemma flat_pages_eqI:
  assumes "length f = length g" "length f mod cow_page = 0" "\<And>i. i * cow_page < length f \<Longrightarrow> flat_page f i = flat_page g i"
  shows "f = g"
proof (rule nth_equalityI)
  fix pos assume pos: "pos < length f"
  define i j where "i = pos div cow_page" and "j = pos mod cow_page"
  have p: "pos = i * cow_page + j" "j < cow_page" by (simp_all add: i_def j_def)
  have i: "i * cow_page < length f" using pos p by linarith
  obtain n where "length f = n * cow_page" using assms(2) by (auto simp: mod_eq_0_iff_dvd dvd_def mult.commute)
  with i have "(i + 1) * cow_page \<le> length f" using mult_le_mono1 [of "i + 1" n cow_page] by simp
  then have "f ! pos = flat_page f i ! j" "g ! pos = flat_page g i ! j"
    using assms(1) p by (simp_all add: flat_page_nth)
  with assms(3) [OF i] show "f ! pos = g ! pos" by simp
qed (rule assms(1))

lemma materialize_frozen:
  assumes al: "ov_aligned s" and ok: "bt_ok changed"
    and ch: "\<And>n page. bt_get changed n = Some page \<longleftrightarrow>
      (\<exists>i. n = page_key i \<and> page_differs s i \<and> page = flat_page (ov_content s) i)"
  shows "materialize \<lparr>fi_parent = ov_parent s, fi_length = ov_length s, fi_changed = changed\<rparr> = Some (ov_content s)"
proof -
  let ?len = "ov_length s" and ?par = "ov_parent s" and ?idx = "map (\<lambda>(n, page). (unat n - 1, page)) changed"
  have inv: "ov_inv s" using al by (simp add: ov_aligned_def)
  have dist: "distinct (map fst changed)" using ok by (simp add: bt_ok_def sorted_wrt_irrefl_distinct)
  have mem: "(n, page) \<in> set changed \<longleftrightarrow> (\<exists>i. n = page_key i \<and> page_differs s i \<and> page = flat_page (ov_content s) i)" for n page
    using ch map_of_eq_Some_iff [OF dist] by (simp add: bt_get_def)
  have entry: "0 < unat n \<and> unat n * cow_page \<le> ?len \<and> length page = cow_page" if "(n, page) \<in> set changed" for n page
  proof -
    from that mem obtain i where i: "n = page_key i" "page_differs s i" "page = flat_page (ov_content s) i" by blast
    note len = aligned_page [OF al differs_inside [OF i(2)]]
    then show ?thesis using i page_key_unat [OF inv differs_inside [OF i(2)]] by (simp add: length_flat_page)
  qed
  have idx: "distinct (map fst ?idx)"
  proof -
    have "inj_on (\<lambda>n. unat n - 1) (set (map fst changed))"
      by (rule inj_onI) (auto dest!: entry simp: word_unat_eq_iff)
    moreover have "map fst ?idx = map (\<lambda>n. unat n - 1) (map fst changed)" by auto
    ultimately show ?thesis using dist by (simp only: distinct_map [of "\<lambda>n. unat n - 1"] simp_thms)
  qed
  have "(i, page) \<in> set ?idx \<longleftrightarrow> page_differs s i \<and> page = flat_page (ov_content s) i" for i page
  proof -
    have "(i, page) \<in> set ?idx \<longleftrightarrow> (\<exists>n. (n, page) \<in> set changed \<and> i = unat n - 1)" by force
    also have "\<dots> \<longleftrightarrow> (\<exists>j. page_differs s j \<and> page = flat_page (ov_content s) j \<and> i = unat (page_key j) - 1)"
      unfolding mem by blast
    also have "\<dots> \<longleftrightarrow> page_differs s i \<and> page = flat_page (ov_content s) i"
      using page_key_unat [OF inv differs_inside] by fastforce
    finally show ?thesis .
  qed
  then have some: "map_of ?idx i = Some page \<longleftrightarrow> page_differs s i \<and> page = flat_page (ov_content s) i" for i page
    by (simp only: map_of_eq_Some_iff [OF idx])
  have at: "map_of ?idx i = (if page_differs s i then Some (flat_page (ov_content s) i) else None)" for i
    using some [of i "flat_page (ov_content s) i"] some [of i] by (cases "map_of ?idx i") auto
  let ?start = "take (min (length ?par) ?len) ?par @ replicate (?len - length ?par) 0"
  have start: "copy_slice 0 0 (min (length ?par) ?len) ?par (replicate ?len 0) = Some ?start"
    by (simp add: copy_slice_Some min_def)
  have "length ?start = ?len" by (simp add: min_def)
  from materialize_pages [of changed ?len ?start, OF entry this idx] obtain out where
    out: "foldl (materialize_page ?len) (Some ?start) changed = Some out" "length out = ?len"
    and pages: "\<And>i. flat_page out i = (case map_of ?idx i of Some page \<Rightarrow> page | None \<Rightarrow> flat_page ?start i)"
    by blast
  have "out = ov_content s"
  proof (rule flat_pages_eqI)
    fix i assume "i * cow_page < length out"
    then have i: "i * cow_page < ?len" by (simp add: out)
    show "flat_page out i = flat_page (ov_content s) i"
    proof (cases "page_differs s i")
      case False
      with i have "get_range ?par (i * cow_page) ((i + 1) * cow_page) = Some (flat_page (ov_content s) i)"
        by (simp add: page_differs_def)
      then have "(i + 1) * cow_page \<le> length ?par" "flat_page ?par i = flat_page (ov_content s) i"
        by (auto simp: get_range_eq_Some flat_page_def)
      moreover from this(1) have "flat_page ?start i = flat_page ?par i"
        using aligned_page [OF al i] by (simp add: flat_page_def min_def drop_take)
      ultimately show ?thesis unfolding pages at using False by simp
    next
      case True
      then show ?thesis unfolding pages at by simp
    qed
  qed (use al out in \<open>simp_all add: ov_aligned_def\<close>)
  then show ?thesis using out start by (simp add: materialize_def)
qed

lemma overlay_new_inv: "length parent < usize_bound \<Longrightarrow> ov_inv (overlay_new parent) \<and> ov_abs (overlay_new parent) = (parent, False)"
proof -
  assume "length parent < usize_bound"
  moreover have "map (ov_byte (overlay_new parent)) [0..<length parent] = parent"
    by (rule nth_equalityI) (auto simp: ov_byte_def overlay_new_def bt_get_def)
  ultimately show ?thesis
    by (simp add: ov_inv_def ov_abs_def ov_content_def overlay_new_def bt_ok_def bt_get_def)
qed

section \<open>Properties\<close>

text \<open>
  C9: to the engine the copy-on-write overlay is a plain file. From the overlay of a parent image
  every sequence of operations runs without a panic, and gives the outputs, contents and failure
  flag of a flat byte file that starts as the parent: reads stop at the end of the file, pages
  written past the end leave zeros in between, a file cut short and extended again shows zeros, and
  an invalid write changes nothing but the flag.
\<close>

theorem overlay_refines_file:
  assumes "length parent < usize_bound" "list_all storage_op_ok ops"
  shows "\<exists>s. run_ops (ov_exec fails) (overlay_new parent) ops = Some (s, snd (run_spec (flat_exec fails) (parent, False) ops))
    \<and> ov_inv s \<and> (ov_content s, ov_failed s) = fst (run_spec (flat_exec fails) (parent, False) ops)"
  using cow.run [of "overlay_new parent" ops fails] overlay_new_inv [OF assms(1)] assms(2)
  by (auto simp: ov_abs_def)

theorem overlay_refines_file_witness:
  "\<exists>s. run_ops (ov_exec (\<lambda>_. False)) (overlay_new [1, 2, 3]) [Truncate 2, Truncate 4, ReadHeader 6]
      = Some (s, [(Inr 0, []), (Inr 0, []), (Inr 4, [1, 2, 0, 0, 0, 0])])
    \<and> ov_inv s \<and> ov_content s = [1, 2, 0, 0]"
proof -
  have two: "replicate 2 (0 :: byte) = [0, 0]" by (simp add: numeral_2_eq_2)
  have "run_spec (flat_exec (\<lambda>_. False)) ([1, 2, 3], False) [Truncate 2, Truncate 4, ReadHeader 6] =
      (([1, 2, 0, 0], False), [(Inr 0, []), (Inr 0, []), (Inr 4, [1, 2, 0, 0, 0, 0])])"
    by (simp add: flat_resize_def flat_result_def flat_read_def complete_i32_def two)
  then show ?thesis
    using overlay_refines_file [of "[1, 2, 3]" "[Truncate 2, Truncate 4, ReadHeader 6]" "\<lambda>_. False"]
    by (auto simp: usize_bound_def simp del: run_ops.simps run_spec.simps)
qed

text \<open>
  C16: freezing loses nothing. On a whole number of pages, and when no operation failed, freezing
  returns exactly the pages that the parent image does not have, and materializing the frozen image
  gives the contents of the file back.
\<close>

theorem freeze_materialize:
  assumes "ov_inv s" "\<not> ov_failed s" "ov_length s mod cow_page = 0"
  shows "\<exists>frozen. close_and_freeze s = Some (Inr frozen) \<and> materialize frozen = Some (ov_content s)
    \<and> (\<forall>n page. bt_get (fi_changed frozen) n = Some page \<longleftrightarrow>
         (\<exists>i. n = page_key i \<and> page_differs s i \<and> page = flat_page (ov_content s) i))"
proof -
  have al: "ov_aligned s" using assms by (simp add: ov_aligned_def)
  obtain changed where c: "freeze_pages s (touched_pages s) [] = Some changed" "bt_ok changed"
    "\<And>n page. bt_get changed n = Some page \<longleftrightarrow> (\<exists>i. n = page_key i \<and> page_differs s i \<and> page = flat_page (ov_content s) i)"
    using frozen_pages [OF al] by blast
  from materialize_frozen [OF al c(2,3)] c show ?thesis using assms(2,3) by (simp add: close_and_freeze_def)
qed

theorem freeze_materialize_witness:
  "\<exists>frozen. close_and_freeze (overlay_new (replicate 4096 7)) = Some (Inr frozen)
     \<and> materialize frozen = Some (replicate 4096 7)"
proof -
  have i: "ov_inv (overlay_new (replicate 4096 7))" "ov_content (overlay_new (replicate 4096 7)) = replicate 4096 7"
    using overlay_new_inv [of "replicate 4096 7"] by (simp_all add: usize_bound_def ov_abs_def)
  have "\<not> ov_failed (overlay_new (replicate 4096 7))" "ov_length (overlay_new (replicate 4096 7)) mod cow_page = 0"
    by (simp_all add: overlay_new_def cow_page_def)
  from freeze_materialize [OF i(1) this] i(2) show ?thesis by auto
qed

end
