(* ===== verification/Canonical_Json.thy ===== *)
theory Canonical_Json
  imports Values
begin

text \<open>
  Canonical JSON, \<^verbatim>\<open>otmp-protocol/src/canonical_json.rs\<close>: the scanner of number tokens, the
  visitor that builds a value and refuses duplicate keys and floating-point numbers, the mapping
  of parser messages to protocol errors, the canonical encoder and the check that bytes are
  canonical.

  The tokenizer and the string quoting are those of the \<^verbatim>\<open>serde_json\<close> crate. Its effect on the
  visitor is the stream of visitor calls \<open>json_event\<close>, in which the tokenizer may fail at any
  point; \<open>serde\<close> collects what the code calls of the crate.
\<close>

section \<open>The parser crate\<close>

datatype json_event =
    EUnit
  | EBool bool
  | EI64 i64
  | EU64 u64
  | EI128 int
  | EU128 int
  | EF64
  | EStr string
  | ESeq "json_event list" "string option"
  | EMap "(string \<times> json_event) list" "string option"
  | EFail string

text \<open>
  \<open>sj_events\<close> is the visitor calls for the first value of the bytes, \<open>sj_end\<close> the check that only white
  space follows, \<open>sj_render\<close> the display of a custom error with its position, and \<open>sj_to_vec\<close> the
  compact printer.
\<close>

record serde =
  sj_events :: "byte list \<Rightarrow> json_event"
  sj_end :: "byte list \<Rightarrow> (string, unit) result"
  sj_render :: "string \<Rightarrow> string"
  sj_to_vec :: "canonical_value \<Rightarrow> (string, byte list) result"

section \<open>Texts\<close>

fun find_sub :: "string \<Rightarrow> string \<Rightarrow> nat option" where
  "find_sub needle s =
     (if take (length needle) s = needle then Some 0
      else case s of [] \<Rightarrow> None | _ # rest \<Rightarrow> map_option Suc (find_sub needle rest))"

declare find_sub.simps [simp del]

definition contains_sub :: "string \<Rightarrow> string \<Rightarrow> bool" where
  "contains_sub needle s = (find_sub needle s \<noteq> None)"

text \<open>\<^verbatim>\<open>s.split(pat).next()\<close>.\<close>

definition before_sub :: "string \<Rightarrow> string \<Rightarrow> string" where
  "before_sub needle s = (case find_sub needle s of None \<Rightarrow> s | Some i \<Rightarrow> take i s)"

definition map_json_error :: "string \<Rightarrow> protocol_error" where
  "map_json_error message =
     (case find_sub ''OTMP_DUPLICATE_KEY:'' message of
        Some position \<Rightarrow>
          DuplicateJsonKey (before_sub '' at line'' (drop (position + length ''OTMP_DUPLICATE_KEY:'') message))
      | None \<Rightarrow>
          if contains_sub ''OTMP_FLOATING_POINT_JSON'' message then FloatingPointJson
          else if contains_sub ''OTMP_INTEGER_OUT_OF_RANGE'' message
                  \<or> contains_sub ''number out of range'' message
          then IntegerOutOfRange
          else InvalidJson message)"

section \<open>The visitor\<close>

definition visit_end :: "string option \<Rightarrow> canonical_value \<Rightarrow> (string, canonical_value) result" where
  "visit_end failure v = (case failure of None \<Rightarrow> Inr v | Some m \<Rightarrow> Inl m)"

fun visit :: "(string \<Rightarrow> string) \<Rightarrow> json_event \<Rightarrow> (string, canonical_value) result"
  and visit_seq :: "(string \<Rightarrow> string) \<Rightarrow> json_event list \<Rightarrow> (string, canonical_value list) result"
  and visit_map :: "(string \<Rightarrow> string) \<Rightarrow> (string \<times> json_event) list \<Rightarrow> (string, canonical_value) btree
      \<Rightarrow> (string, (string, canonical_value) btree) result" where
  "visit render EUnit = Inr CNull"
| "visit render (EBool b) = Inr (CBool b)"
| "visit render (EI64 v) = Inr (CInteger (sint v))"
| "visit render (EU64 v) = Inr (CInteger (uint v))"
| "visit render (EI128 v) = Inr (CInteger v)"
| "visit render (EU128 v) =
     (if v < 2 ^ 127 then Inr (CInteger v) else Inl (render ''OTMP_INTEGER_OUT_OF_RANGE''))"
| "visit render EF64 = Inl (render ''OTMP_FLOATING_POINT_JSON'')"
| "visit render (EStr s) = Inr (CString s)"
| "visit render (ESeq es failure) = and_then (visit_seq render es) (\<lambda>vs. visit_end failure (CArray vs))"
| "visit render (EMap es failure) = and_then (visit_map render es []) (\<lambda>m. visit_end failure (CObject m))"
| "visit render (EFail m) = Inl m"
| "visit_seq render [] = Inr []"
| "visit_seq render (e # es) =
     and_then (visit render e) (\<lambda>v. and_then (visit_seq render es) (\<lambda>vs. Inr (v # vs)))"
| "visit_map render [] m = Inr m"
| "visit_map render ((key, e) # es) m =
     (if bt_get m key \<noteq> None then Inl (render (''OTMP_DUPLICATE_KEY:'' @ key))
      else and_then (visit render e) (\<lambda>v. visit_map render es (bt_insert key v m)))"

section \<open>The number scanner\<close>

definition byte_digit :: "byte \<Rightarrow> bool" where
  "byte_digit b = (0x30 \<le> b \<and> b \<le> 0x39)"

definition token_byte :: "byte \<Rightarrow> bool" where
  "token_byte b = (byte_digit b \<or> b = 0x2E \<or> b = 0x65 \<or> b = 0x45 \<or> b = 0x2B \<or> b = 0x2D)"

definition check_token :: "byte list \<Rightarrow> (protocol_error, unit) result" where
  "check_token token =
     (let s = string_of_bytes token
      in if CHR ''.'' \<in> set s \<or> CHR ''e'' \<in> set s \<or> CHR ''E'' \<in> set s then Inl FloatingPointJson
         else if (if starts_with ''-'' s then parse_i64 s \<noteq> None else parse_u64 s \<noteq> None) then Inr ()
         else Inl IntegerOutOfRange)"

text \<open>
  The loop of \<^verbatim>\<open>validate_number_tokens\<close> on the rest of the bytes. A token consists of ASCII bytes, so
  reading it as UTF-8 cannot fail.
\<close>

function scan_numbers :: "bool \<Rightarrow> bool \<Rightarrow> byte list \<Rightarrow> (protocol_error, unit) result" where
  "scan_numbers in_string escaped [] = Inr ()"
| "scan_numbers in_string escaped (b # bs) =
     (if in_string
      then if escaped then scan_numbers True False bs
           else if b = 0x5C then scan_numbers True True bs
           else if b = 0x22 then scan_numbers False False bs
           else scan_numbers True False bs
      else if b = 0x22 then scan_numbers True escaped bs
      else if b = 0x2D \<or> byte_digit b
      then and_then (check_token (b # takeWhile token_byte bs)) (\<lambda>_.
             scan_numbers in_string escaped (dropWhile token_byte bs))
      else scan_numbers in_string escaped bs)"
  by pat_completeness auto
termination
  by (relation "measure (\<lambda>(_, _, bs). length bs)") (auto simp: le_imp_less_Suc length_dropWhile_le)

definition validate_number_tokens :: "byte list \<Rightarrow> (protocol_error, unit) result" where
  "validate_number_tokens bs = scan_numbers False False bs"

section \<open>The encoder\<close>

fun comma_join :: "string list \<Rightarrow> string" where
  "comma_join [] = []"
| "comma_join [s] = s"
| "comma_join (s # ss) = s @ '','' @ comma_join ss"

fun encode_into :: "externals \<Rightarrow> canonical_value \<Rightarrow> string" where
  "encode_into x CNull = ''null''"
| "encode_into x (CBool b) = (if b then ''true'' else ''false'')"
| "encode_into x (CInteger i) = show_int i"
| "encode_into x (CString s) = json_quote x s"
| "encode_into x (CArray vs) = ''['' @ comma_join (map (encode_into x) vs) @ '']''"
| "encode_into x (CObject es) =
     ''{'' @ comma_join (map (\<lambda>(k, v). json_quote x k @ '':'' @ encode_into x v) es) @ ''}''"

definition encode :: "externals \<Rightarrow> canonical_value \<Rightarrow> (protocol_error, byte list) result" where
  "encode x v = Inr (as_bytes (encode_into x v))"

section \<open>Entry points\<close>

definition parse :: "serde \<Rightarrow> byte list \<Rightarrow> (protocol_error, canonical_value) result" where
  "parse j bs =
     and_then (validate_number_tokens bs) (\<lambda>_.
     and_then (map_err map_json_error (visit (sj_render j) (sj_events j bs))) (\<lambda>value.
     and_then (map_err map_json_error (sj_end j bs)) (\<lambda>_.
       Inr value)))"

definition parse_canonical :: "serde \<Rightarrow> externals \<Rightarrow> byte list \<Rightarrow> (protocol_error, canonical_value) result" where
  "parse_canonical j x bs =
     and_then (parse j bs) (\<lambda>value.
     and_then (encode x value) (\<lambda>canonical.
       if canonical \<noteq> bs then Inl NonCanonicalJson else Inr value))"

text \<open>
  \<^verbatim>\<open>from_slice::<T>\<close>: the bytes are parsed for their shape, then read by the deserializer of \<open>T\<close>, which
  is the argument \<open>typed\<close>.
\<close>

definition from_slice :: "serde \<Rightarrow> (byte list \<Rightarrow> (string, 'a) result) \<Rightarrow> byte list \<Rightarrow> (protocol_error, 'a) result" where
  "from_slice j typed bs = and_then (parse j bs) (\<lambda>_. map_err map_json_error (typed bs))"

definition from_slice_canonical :: "serde \<Rightarrow> externals \<Rightarrow> (byte list \<Rightarrow> (string, 'a) result) \<Rightarrow> byte list
    \<Rightarrow> (protocol_error, 'a) result" where
  "from_slice_canonical j x typed bs =
     and_then (parse_canonical j x bs) (\<lambda>_. map_err map_json_error (typed bs))"

definition to_value :: "serde \<Rightarrow> canonical_value \<Rightarrow> (protocol_error, canonical_value) result" where
  "to_value j v = and_then (map_err Encoding (sj_to_vec j v)) (\<lambda>bs. parse j bs)"

definition to_vec :: "serde \<Rightarrow> externals \<Rightarrow> canonical_value \<Rightarrow> (protocol_error, byte list) result" where
  "to_vec j x v = and_then (to_value j v) (\<lambda>v. encode x v)"

text \<open>The deserializer of typed scalars, which reads a canonical value first.\<close>

definition scalar_from_json :: "serde \<Rightarrow> externals \<Rightarrow> byte list \<Rightarrow> (string, typed_scalar) result" where
  "scalar_from_json j x bs =
     and_then (visit (sj_render j) (sj_events j bs)) (\<lambda>v.
     and_then (map_err (sj_render j) (scalar_from_value x v)) (\<lambda>s.
     and_then (sj_end j bs) (\<lambda>_. Inr s)))"

section \<open>Quoted strings\<close>

text \<open>The inside of a JSON string: a backslash takes the next character with it, a quotation mark ends it.\<close>

fun json_body :: "string \<Rightarrow> bool" where
  "json_body [] = True"
| "json_body (c # cs) =
     (if c = CHR 0x5C then (case cs of [] \<Rightarrow> False | _ # ds \<Rightarrow> json_body ds)
      else c \<noteq> CHR 0x22 \<and> json_body cs)"

text \<open>What \<^verbatim>\<open>serde_json::to_string\<close> of a string gives: a JSON string, and different ones for different strings.\<close>

definition quote_laws :: "externals \<Rightarrow> bool" where
  "quote_laws x =
     ((\<forall>s. \<exists>b. json_body b \<and> json_quote x s = CHR 0x22 # b @ [CHR 0x22]) \<and> inj (json_quote x))"

lemma json_body_prefix:
  "json_body b \<Longrightarrow> json_body b' \<Longrightarrow> b @ CHR 0x22 # r = b' @ CHR 0x22 # r' \<Longrightarrow> b = b' \<and> r = r'"
proof (induction b arbitrary: b' rule: json_body.induct)
  case 1
  then show ?case by (cases b') (auto split: if_splits)
next
  case (2 c cs)
  then obtain cs' where b': "b' = c # cs'" by (cases b') (auto split: if_splits)
  show ?case
  proof (cases "c = CHR 0x5C")
    case True
    then obtain d ds where ds: "cs = d # ds" "json_body ds" using "2.prems"(1) by (cases cs) auto
    moreover obtain d' ds' where ds': "cs' = d' # ds'" "json_body ds'" using True "2.prems"(2) b' by (cases cs') auto
    ultimately have "d = d'" "ds @ CHR 0x22 # r = ds' @ CHR 0x22 # r'" using "2.prems"(3) b' by simp_all
    with "2.IH"(1) [OF True ds(1) ds(2) ds'(2)] show ?thesis by (simp add: b' ds ds')
  next
    case False
    then have "json_body cs" "json_body cs'" "cs @ CHR 0x22 # r = cs' @ CHR 0x22 # r'" using "2.prems" b' by simp_all
    with "2.IH"(2) [OF False] show ?thesis by (simp add: b')
  qed
qed

lemma quote_prefix:
  assumes "quote_laws x" "json_quote x s @ r = json_quote x t @ r'"
  shows "s = t \<and> r = r'"
proof -
  obtain b b' where b: "json_body b" "json_quote x s = CHR 0x22 # b @ [CHR 0x22]"
    "json_body b'" "json_quote x t = CHR 0x22 # b' @ [CHR 0x22]"
    using assms(1) unfolding quote_laws_def by metis
  with assms(2) have "b = b' \<and> r = r'" using json_body_prefix [of b b' r r'] by simp
  moreover from this b have "json_quote x s = json_quote x t" by simp
  ultimately show ?thesis using assms(1) by (auto simp: quote_laws_def inj_eq)
qed

section \<open>Canonical encodings are unambiguous\<close>

definition stops :: "string \<Rightarrow> bool" where
  "stops r = (r = [] \<or> hd r = CHR '','' \<or> hd r = CHR '']'' \<or> hd r = CHR ''}'')"

text \<open>A printer whose outputs can be told apart when something that stops follows.\<close>

definition unambiguous :: "('a \<Rightarrow> string) \<Rightarrow> 'a set \<Rightarrow> bool" where
  "unambiguous f A =
     (\<forall>v \<in> A. \<forall>w r r'. f v @ r = f w @ r' \<longrightarrow> stops r \<longrightarrow> stops r' \<longrightarrow> v = w \<and> r = r')"

lemma unambiguousD:
  "unambiguous f A \<Longrightarrow> f v @ r = f w @ r' \<Longrightarrow> v \<in> A \<Longrightarrow> stops r \<Longrightarrow> stops r' \<Longrightarrow> v = w \<and> r = r'"
  unfolding unambiguous_def by blast

lemma unambiguous_mono: "unambiguous f B \<Longrightarrow> A \<subseteq> B \<Longrightarrow> unambiguous f A"
  unfolding unambiguous_def by blast

definition starts_well :: "('a \<Rightarrow> string) \<Rightarrow> bool" where
  "starts_well f = (\<forall>v. f v \<noteq> [] \<and> \<not> stops (f v))"

lemma comma_join_Cons: "comma_join (s # ss) = s @ concat (map (\<lambda>s. CHR '','' # s) ss)"
  by (induction ss arbitrary: s) auto

abbreviation joined :: "('a \<Rightarrow> string) \<Rightarrow> 'a list \<Rightarrow> string" where
  "joined f vs \<equiv> concat (map (\<lambda>v. CHR '','' # f v) vs)"

lemma stops_joined: "c = CHR '']'' \<or> c = CHR ''}'' \<Longrightarrow> stops (joined f vs @ c # r)"
  by (cases vs) (auto simp: stops_def)

lemma joined_prefix:
  assumes "c = CHR '']'' \<or> c = CHR ''}''"
  shows "unambiguous f (set vs) \<Longrightarrow> joined f vs @ c # r = joined f ws @ c # r' \<Longrightarrow> vs = ws \<and> r = r'"
proof (induction vs arbitrary: ws)
  case Nil
  then show ?case using assms by (cases ws) auto
next
  case (Cons v vs)
  then obtain w ws' where ws: "ws = w # ws'" using assms by (cases ws) auto
  with Cons.prems(2) have "f v @ (joined f vs @ c # r) = f w @ (joined f ws' @ c # r')" by simp
  then have "v = w \<and> joined f vs @ c # r = joined f ws' @ c # r'"
    by (rule unambiguousD [OF Cons.prems(1)]) (simp_all add: stops_joined [OF assms])
  moreover from this have "vs = ws' \<and> r = r'"
    using Cons.IH [OF unambiguous_mono [OF Cons.prems(1) set_subset_Cons], of ws'] by blast
  ultimately show ?case by (simp add: ws)
qed

lemma comma_join_prefix:
  assumes c: "c = CHR '']'' \<or> c = CHR ''}''" and f: "unambiguous f (set vs)" "starts_well f"
    and eq: "comma_join (map f vs) @ c # r = comma_join (map f ws) @ c # r'"
  shows "vs = ws \<and> r = r'"
proof (cases vs)
  case Nil
  show ?thesis
  proof (cases ws)
    case (Cons w ws')
    have "\<not> stops (f w)" "f w \<noteq> []" using f(2) by (auto simp: starts_well_def)
    then show ?thesis using eq c Nil Cons by (cases "f w") (auto simp: comma_join_Cons stops_def)
  qed (use Nil eq in simp)
next
  case (Cons v vs')
  then obtain w ws' where ws: "ws = w # ws'"
  proof (cases ws)
    case Nil
    have "\<not> stops (f v)" "f v \<noteq> []" using f(2) by (auto simp: starts_well_def)
    then show ?thesis using eq c Nil Cons by (cases "f v") (auto simp: comma_join_Cons stops_def)
  qed blast
  have "joined f vs @ c # r = joined f ws @ c # r'"
    using eq unfolding Cons ws by (simp add: comma_join_Cons comp_def)
  then show ?thesis by (rule joined_prefix [OF c f(1)])
qed

lemma show_nat_chars: "c \<in> set (show_nat n) \<Longrightarrow> is_digit c"
  using all_digits_show_nat [of n] by (auto simp: all_digits_def list_all_iff)

lemma stops_not_num: "stops r \<Longrightarrow> r = [] \<or> \<not> (is_digit (hd r) \<or> hd r = CHR ''-'')"
  by (auto simp: stops_def is_digit_def)

lemma show_int_takeWhile:
  assumes "stops r"
  shows "takeWhile (\<lambda>c. is_digit c \<or> c = CHR ''-'') (show_int i @ r) = show_int i"
proof -
  have "\<forall>c \<in> set (show_int i). is_digit c \<or> c = CHR ''-''"
    by (auto simp: show_int_def show_nat_chars split: if_splits)
  moreover have "takeWhile (\<lambda>c. is_digit c \<or> c = CHR ''-'') r = []"
    using stops_not_num [OF assms] by (cases r) auto
  ultimately show ?thesis by (simp add: takeWhile_append2)
qed

lemma show_nat_inj: "show_nat m = show_nat n \<Longrightarrow> m = n"
  by (metis digits_val_show_nat)

lemma show_int_inj: "show_int i = show_int k \<Longrightarrow> i = k"
proof -
  have dash: "show_nat n \<noteq> CHR ''-'' # s" for n s
    using show_nat_chars [of "CHR ''-''" n] by (auto simp: is_digit_def)
  assume "show_int i = show_int k"
  then show ?thesis using dash dash [symmetric]
    by (auto simp: show_int_def dest!: show_nat_inj split: if_splits)
qed

lemma show_int_prefix: "show_int i @ r = show_int k @ r' \<Longrightarrow> stops r \<Longrightarrow> stops r' \<Longrightarrow> i = k \<and> r = r'"
  using show_int_takeWhile [of r i] show_int_takeWhile [of r' k] show_int_inj by (metis same_append_eq)

lemma quote_hd: "quote_laws x \<Longrightarrow> \<exists>t. json_quote x s = CHR 0x22 # t"
  unfolding quote_laws_def by blast

lemma show_int_hd: "\<exists>c t. show_int i = c # t \<and> (is_digit c \<or> c = CHR ''-'')"
proof -
  have "\<exists>c t. show_nat n = c # t \<and> is_digit c" for n
    using show_nat_nonempty [of n] show_nat_chars [of _ n] by (cases "show_nat n") auto
  then have "\<exists>c t. show_nat (nat i) = c # t \<and> is_digit c" by blast
  then show ?thesis by (cases "i < 0") (auto simp: show_int_def)
qed

text \<open>The first character tells the kind of a value.\<close>

fun first_char_ok :: "canonical_value \<Rightarrow> char \<Rightarrow> bool" where
  "first_char_ok CNull c = (c = CHR ''n'')"
| "first_char_ok (CBool b) c = (c = (if b then CHR ''t'' else CHR ''f''))"
| "first_char_ok (CInteger i) c = (is_digit c \<or> c = CHR ''-'')"
| "first_char_ok (CString s) c = (c = CHR 0x22)"
| "first_char_ok (CArray vs) c = (c = CHR ''['')"
| "first_char_ok (CObject es) c = (c = CHR ''{'')"

lemma encode_first_char:
  assumes "quote_laws x"
  shows "\<exists>c t. encode_into x v = c # t \<and> first_char_ok v c"
proof (cases v)
  case (CString s)
  then show ?thesis using quote_hd [OF assms, of s] by auto
next
  case (CInteger i)
  then show ?thesis using show_int_hd [of i] by simp
qed auto

lemma first_char_not_stops: "first_char_ok v c \<Longrightarrow> \<not> stops (c # t)"
  by (cases v) (auto simp: stops_def is_digit_def)

lemma starts_well_encode: "quote_laws x \<Longrightarrow> starts_well (encode_into x)"
  unfolding starts_well_def using encode_first_char first_char_not_stops by (metis list.distinct(1))

definition encode_entry :: "externals \<Rightarrow> string \<times> canonical_value \<Rightarrow> string" where
  "encode_entry x e = json_quote x (fst e) @ '':'' @ encode_into x (snd e)"

lemma encode_object: "encode_into x (CObject es) = ''{'' @ comma_join (map (encode_entry x) es) @ ''}''"
proof -
  have "(\<lambda>(k, v). json_quote x k @ '':'' @ encode_into x v) = encode_entry x"
    by (auto simp: fun_eq_iff encode_entry_def)
  then show ?thesis by simp
qed

lemma starts_well_entry: "quote_laws x \<Longrightarrow> starts_well (encode_entry x)"
proof -
  assume q: "quote_laws x"
  have "encode_entry x e \<noteq> [] \<and> \<not> stops (encode_entry x e)" for e
    using quote_hd [OF q, of "fst e"] by (auto simp: encode_entry_def stops_def)
  then show ?thesis by (simp add: starts_well_def)
qed

lemma unambiguous_entry:
  assumes "quote_laws x" "unambiguous (encode_into x) (snd ` A)"
  shows "unambiguous (encode_entry x) A"
  unfolding unambiguous_def
proof (intro ballI allI impI)
  fix v w r r' assume v: "v \<in> A" "encode_entry x v @ r = encode_entry x w @ r'" "stops r" "stops r'"
  then have "fst v = fst w \<and> CHR '':'' # encode_into x (snd v) @ r = CHR '':'' # encode_into x (snd w) @ r'"
    by (intro quote_prefix [OF assms(1)]) (simp add: encode_entry_def)
  with v unambiguousD [OF assms(2), of "snd v" r "snd w" r'] show "v = w \<and> r = r'"
    by (auto simp: prod_eq_iff)
qed

lemma encode_unambiguous: "quote_laws x \<Longrightarrow> unambiguous (encode_into x) UNIV"
proof -
  assume q: "quote_laws x"
  have kind: "\<exists>c. first_char_ok v c \<and> first_char_ok w c" if "encode_into x v @ r = encode_into x w @ r'" for v w r r'
    using encode_first_char [OF q, of v] encode_first_char [OF q, of w] that by auto
  have "encode_into x v @ r = encode_into x w @ r' \<Longrightarrow> stops r \<Longrightarrow> stops r' \<Longrightarrow> v = w \<and> r = r'" for v w r r'
  proof (induction v arbitrary: w r r')
    case CNull
    then show ?case using kind [OF CNull.prems(1)] by (cases w) (auto simp: is_digit_def split: if_splits)
  next
    case (CBool b)
    then show ?case using kind [OF CBool.prems(1)] by (cases w) (auto simp: is_digit_def split: if_splits)
  next
    case (CInteger i)
    then obtain k where w: "w = CInteger k" using kind [OF CInteger.prems(1)] by (cases w) (auto simp: is_digit_def split: if_splits)
    with CInteger show_int_prefix [of i r k r'] show ?case by simp
  next
    case (CString s)
    then obtain u where w: "w = CString u" using kind [OF CString.prems(1)] by (cases w) (auto simp: is_digit_def split: if_splits)
    with CString quote_prefix [OF q, of s r u r'] show ?case by simp
  next
    case (CArray vs)
    then obtain ws where w: "w = CArray ws" using kind [OF CArray.prems(1)] by (cases w) (auto simp: is_digit_def split: if_splits)
    have "unambiguous (encode_into x) (set vs)" unfolding unambiguous_def using CArray.IH by blast
    from comma_join_prefix [OF _ this starts_well_encode [OF q], of "CHR '']''" r ws r'] CArray.prems(1) w
    show ?case by simp
  next
    case (CObject es)
    then obtain fs where w: "w = CObject fs" using kind [OF CObject.prems(1)] by (cases w) (auto simp: is_digit_def split: if_splits)
    have "unambiguous (encode_into x) (snd ` set es)" unfolding unambiguous_def using CObject.IH by (fastforce simp: snds.simps)
    from comma_join_prefix [OF _ unambiguous_entry [OF q this] starts_well_entry [OF q], of "CHR ''}''" r fs r']
      CObject.prems(1) w show ?case unfolding w encode_object by simp
  qed
  then show ?thesis unfolding unambiguous_def by blast
qed

section \<open>The scanner on canonical encodings\<close>

text \<open>The integers the scanner lets pass: those of \<^verbatim>\<open>i64\<close> and \<^verbatim>\<open>u64\<close>.\<close>

fun ints_ok :: "canonical_value \<Rightarrow> bool" where
  "ints_ok (CInteger i) = (- (2 ^ 63) \<le> i \<and> i < 2 ^ 64)"
| "ints_ok (CArray vs) = list_all ints_ok vs"
| "ints_ok (CObject es) = list_all (\<lambda>e. ints_ok (snd e)) es"
| "ints_ok _ = True"

abbreviation scan :: "string \<Rightarrow> (protocol_error, unit) result" where
  "scan s \<equiv> scan_numbers False False (as_bytes s)"

lemma byte_of_char_simps [simp]:
  "(of_char c :: byte) = of_char d \<longleftrightarrow> c = d"
  by (metis unat_of_char of_char_eq_iff)

lemma as_bytes_Cons [simp]: "as_bytes (c # s) = of_char c # as_bytes s" "as_bytes [] = []"
  by (simp_all add: as_bytes_def)

lemma byte_digit_of_char [simp]: "byte_digit (of_char c) = is_digit c"
  by (simp add: byte_digit_def is_digit_def word_le_nat_alt)

lemma of_char_is: "(of_char c :: byte) = 0x22 \<longleftrightarrow> c = CHR 0x22" "(of_char c :: byte) = 0x5C \<longleftrightarrow> c = CHR 0x5C"
  "(of_char c :: byte) = 0x2D \<longleftrightarrow> c = CHR ''-''" "(of_char c :: byte) = 0x2E \<longleftrightarrow> c = CHR ''.''"
  "(of_char c :: byte) = 0x65 \<longleftrightarrow> c = CHR ''e''" "(of_char c :: byte) = 0x45 \<longleftrightarrow> c = CHR ''E''"
  "(of_char c :: byte) = 0x2B \<longleftrightarrow> c = CHR ''+''"
proof -
  have k: "(of_char c :: byte) = of_char d \<longleftrightarrow> c = d" for d by simp
  show "(of_char c :: byte) = 0x22 \<longleftrightarrow> c = CHR 0x22" using k [of "CHR 0x22"] by simp
  show "(of_char c :: byte) = 0x5C \<longleftrightarrow> c = CHR 0x5C" using k [of "CHR 0x5C"] by simp
  show "(of_char c :: byte) = 0x2D \<longleftrightarrow> c = CHR ''-''" using k [of "CHR ''-''"] by simp
  show "(of_char c :: byte) = 0x2E \<longleftrightarrow> c = CHR ''.''" using k [of "CHR ''.''"] by simp
  show "(of_char c :: byte) = 0x65 \<longleftrightarrow> c = CHR ''e''" using k [of "CHR ''e''"] by simp
  show "(of_char c :: byte) = 0x45 \<longleftrightarrow> c = CHR ''E''" using k [of "CHR ''E''"] by simp
  show "(of_char c :: byte) = 0x2B \<longleftrightarrow> c = CHR ''+''" using k [of "CHR ''+''"] by simp
qed

definition plain_char :: "char \<Rightarrow> bool" where
  "plain_char c = (c \<noteq> CHR 0x22 \<and> c \<noteq> CHR ''-'' \<and> \<not> is_digit c)"

lemma scan_plain: "list_all plain_char s \<Longrightarrow> scan (s @ r) = scan r"
  by (induction s) (auto simp: plain_char_def of_char_is as_bytes_append)

lemma scan_body: "json_body b \<Longrightarrow> scan_numbers True False (as_bytes (b @ CHR 0x22 # r)) = scan r"
proof (induction b rule: json_body.induct)
  case (2 c cs)
  then show ?case by (cases cs) (auto simp: of_char_is split: if_splits)
qed (simp add: of_char_is)

lemma scan_quote: "quote_laws x \<Longrightarrow> scan (json_quote x s @ r) = scan r"
proof -
  assume "quote_laws x"
  then obtain b where "json_body b" "json_quote x s = CHR 0x22 # b @ [CHR 0x22]" by (auto simp: quote_laws_def)
  then show ?thesis using scan_body [of b r] by (simp add: of_char_is)
qed

lemma token_byte_of_char:
  "token_byte (of_char c) \<longleftrightarrow> is_digit c \<or> c \<in> {CHR ''.'', CHR ''e'', CHR ''E'', CHR ''+'', CHR ''-''}"
  by (auto simp: token_byte_def of_char_is)

lemma show_int_no_dot: "c \<in> set (show_int i) \<Longrightarrow> is_digit c \<or> c = CHR ''-''"
  by (auto simp: show_int_def show_nat_chars split: if_splits)

lemma check_token_chars:
  "check_token (as_bytes s) =
     (if CHR ''.'' \<in> set s \<or> CHR ''e'' \<in> set s \<or> CHR ''E'' \<in> set s then Inl FloatingPointJson
      else if (if starts_with ''-'' s then parse_i64 s \<noteq> None else parse_u64 s \<noteq> None) then Inr ()
      else Inl IntegerOutOfRange)"
  unfolding check_token_def Let_def string_of_bytes_as_bytes by (rule refl)

lemma check_show_int:
  "check_token (as_bytes (show_int i)) = (if - (2 ^ 63) \<le> i \<and> i < 2 ^ 64 then Inr () else Inl IntegerOutOfRange)"
proof -
  have f: "CHR ''.'' \<notin> set (show_int i)" "CHR ''e'' \<notin> set (show_int i)" "CHR ''E'' \<notin> set (show_int i)"
    using show_int_no_dot [of "CHR ''.''" i] show_int_no_dot [of "CHR ''e''" i] show_int_no_dot [of "CHR ''E''" i]
    by (auto simp: is_digit_def)
  show ?thesis
  proof (cases "i < 0")
    case True
    then have "show_int i = CHR ''-'' # show_nat (nat (- i))" by (simp add: show_int_def)
    moreover have "nat (- i) \<le> 2 ^ 63 \<longleftrightarrow> - (2 ^ 63) \<le> i" by (simp add: nat_le_iff) linarith
    ultimately show ?thesis using True f unfolding check_token_chars
      by (auto simp: starts_with_def parse_i64_def)
  next
    case False
    then have s: "show_int i = show_nat (nat i)" by (simp add: show_int_def)
    have "\<not> starts_with ''-'' (show_nat (nat i))"
      using show_nat_hd_digit [of "nat i"] show_nat_nonempty [of "nat i"]
      by (cases "show_nat (nat i)") (auto simp: starts_with_def is_digit_def)
    moreover have "nat i < 2 ^ 64 \<longleftrightarrow> i < 2 ^ 64" using False by (simp add: nat_less_iff)
    moreover have "- (2 ^ 63) \<le> i" using False by simp
    ultimately show ?thesis using f unfolding check_token_chars s by (simp add: parse_u64_digits)
  qed
qed

lemma takeWhile_as_bytes: "takeWhile P (as_bytes s) = as_bytes (takeWhile (\<lambda>c. P (of_char c)) s)"
  "dropWhile P (as_bytes s) = as_bytes (dropWhile (\<lambda>c. P (of_char c)) s)"
  by (simp_all add: as_bytes_def takeWhile_map dropWhile_map comp_def)

lemma scan_int:
  assumes "stops r"
  shows "scan (show_int i @ r) = (if - (2 ^ 63) \<le> i \<and> i < 2 ^ 64 then scan r else Inl IntegerOutOfRange)"
proof -
  obtain c t where ct: "show_int i = c # t" "is_digit c \<or> c = CHR ''-''" using show_int_hd by blast
  have tok: "\<forall>d \<in> set t. token_byte (of_char d)"
    using show_int_no_dot [of _ i] ct by (auto simp: token_byte_of_char)
  have no: "r = [] \<or> \<not> token_byte (of_char (hd r))"
    using assms by (auto simp: stops_def token_byte_of_char is_digit_def)
  have "takeWhile (\<lambda>c. token_byte (of_char c)) (t @ r) = t" "dropWhile (\<lambda>c. token_byte (of_char c)) (t @ r) = r"
    using tok no by (cases r; simp add: takeWhile_append2 dropWhile_append2)+
  then have "scan (show_int i @ r) = and_then (check_token (as_bytes (show_int i))) (\<lambda>_. scan r)"
    using ct by (auto simp: of_char_is takeWhile_as_bytes is_digit_def)
  then show ?thesis by (simp add: check_show_int)
qed

definition scan_through :: "('a \<Rightarrow> string) \<Rightarrow> ('a \<Rightarrow> bool) \<Rightarrow> 'a set \<Rightarrow> bool" where
  "scan_through f ok A =
     (\<forall>v \<in> A. \<forall>r. stops r \<longrightarrow> scan (f v @ r) = (if ok v then scan r else Inl IntegerOutOfRange))"

lemma scan_throughD:
  "scan_through f ok A \<Longrightarrow> v \<in> A \<Longrightarrow> stops r \<Longrightarrow> scan (f v @ r) = (if ok v then scan r else Inl IntegerOutOfRange)"
  unfolding scan_through_def by blast

lemma scan_joined:
  assumes "c = CHR '']'' \<or> c = CHR ''}''"
  shows "scan_through f ok (set vs) \<Longrightarrow>
    scan (joined f vs @ c # r) = (if list_all ok vs then scan r else Inl IntegerOutOfRange)"
proof (induction vs)
  case Nil
  have "plain_char c" using assms by (auto simp: plain_char_def is_digit_def)
  then show ?case using scan_plain [of "[c]" r] by simp
next
  case (Cons v vs)
  have "plain_char CHR '',''" by (simp add: plain_char_def is_digit_def)
  then have "scan (joined f (v # vs) @ c # r) = scan (f v @ (joined f vs @ c # r))"
    using scan_plain [of "'',''" "f v @ (joined f vs @ c # r)"] by simp
  also have "\<dots> = (if ok v then scan (joined f vs @ c # r) else Inl IntegerOutOfRange)"
    by (rule scan_throughD [OF Cons.prems]) (simp_all add: stops_joined [OF assms])
  moreover have "scan_through f ok (set vs)" using Cons.prems unfolding scan_through_def by simp
  ultimately show ?case using Cons.IH by simp
qed

lemma scan_list:
  assumes "c = CHR '']'' \<or> c = CHR ''}''" "scan_through f ok (set vs)"
  shows "scan (comma_join (map f vs) @ c # r) = (if list_all ok vs then scan r else Inl IntegerOutOfRange)"
proof (cases vs)
  case (Cons v ws)
  have "plain_char CHR '',''" by (simp add: plain_char_def is_digit_def)
  then have "scan (comma_join (map f vs) @ c # r) = scan (joined f vs @ c # r)"
    using scan_plain [of "'',''" "comma_join (map f vs) @ c # r"] by (simp add: Cons comma_join_Cons comp_def)
  then show ?thesis using scan_joined [OF assms] by simp
qed (use scan_joined [OF assms] in simp)

lemma scan_encode: "quote_laws x \<Longrightarrow> scan_through (encode_into x) ints_ok UNIV"
proof -
  assume q: "quote_laws x"
  have bracket: "scan (c # s) = scan s" if "c \<in> {CHR ''['', CHR ''{'', CHR '':''}" for c s
    using that scan_plain [of "[c]" s] by (auto simp: plain_char_def is_digit_def)
  have "stops r \<Longrightarrow> scan (encode_into x v @ r) = (if ints_ok v then scan r else Inl IntegerOutOfRange)" for v r
  proof (induction v arbitrary: r)
    case CNull
    show ?case using scan_plain [of "''null''" r] by (simp add: plain_char_def is_digit_def)
  next
    case (CBool b)
    show ?case using scan_plain [of "''true''" r] scan_plain [of "''false''" r] by (simp add: plain_char_def is_digit_def)
  next
    case (CInteger i)
    then show ?case using scan_int [of r i] by simp
  next
    case (CString s)
    then show ?case using scan_quote [OF q] by simp
  next
    case (CArray vs)
    have "scan_through (encode_into x) ints_ok (set vs)" unfolding scan_through_def using CArray.IH by blast
    from scan_list [OF _ this, of "CHR '']''" r] show ?case using bracket [of "CHR ''[''"] by simp
  next
    case (CObject es)
    have "scan_through (encode_entry x) (\<lambda>e. ints_ok (snd e)) (set es)"
      unfolding scan_through_def
    proof (intro ballI allI impI)
      fix e r assume e: "e \<in> set es" "stops r"
      then have "scan (encode_into x (snd e) @ r) = (if ints_ok (snd e) then scan r else Inl IntegerOutOfRange)"
        using CObject.IH [of e "snd e" r] by (simp add: snds.simps)
      then show "scan (encode_entry x e @ r) = (if ints_ok (snd e) then scan r else Inl IntegerOutOfRange)"
        using scan_quote [OF q] bracket [of "CHR '':''"] by (simp add: encode_entry_def)
    qed
    from scan_list [OF _ this, of "CHR ''}''" r] show ?case
      using bracket [of "CHR ''{''"] unfolding encode_object by simp
  qed
  then show ?thesis unfolding scan_through_def by blast
qed

section \<open>What the visitor builds\<close>

text \<open>The strings and integers a tokenizer can hand over.\<close>

fun event_ok :: "json_event \<Rightarrow> bool" where
  "event_ok (EI128 v) = (- (2 ^ 127) \<le> v \<and> v < 2 ^ 127)"
| "event_ok (EU128 v) = (0 \<le> v)"
| "event_ok (EStr s) = string_ok s"
| "event_ok (ESeq es _) = list_all event_ok es"
| "event_ok (EMap es _) = list_all (\<lambda>e. string_ok (fst e) \<and> event_ok (snd e)) es"
| "event_ok _ = True"

lemma bt_insert_all: "list_all P m \<Longrightarrow> P (k, v) \<Longrightarrow> list_all P (bt_insert k v m)"
  by (induction k v m rule: bt_insert.induct) auto

lemma visit_cv_ok:
  "visit render e = Inr v \<Longrightarrow> event_ok e \<Longrightarrow> cv_ok v"
  "visit_seq render es = Inr vs \<Longrightarrow> list_all event_ok es \<Longrightarrow> list_all cv_ok vs"
  "visit_map render ms m = Inr m' \<Longrightarrow> list_all (\<lambda>e. string_ok (fst e) \<and> event_ok (snd e)) ms \<Longrightarrow> cv_ok (CObject m)
     \<Longrightarrow> cv_ok (CObject m')"
proof (induction render e and render es and render ms m arbitrary: v and vs and m'
    rule: visit_visit_seq_visit_map.induct)
  case (3 render i)
  have "- (2 ^ 63) \<le> sint i" "sint i < 2 ^ 63" using sint_greater_eq [of i] sint_less [of i] by simp_all
  with 3 show ?case by auto
next
  case (4 render i)
  have "0 \<le> uint i" "uint i < 2 ^ 64" using uint_lt2p [of i] by simp_all
  moreover have "- (2 ^ 127) \<le> (0 :: int)" "(2 ^ 64 :: int) < 2 ^ 127" by simp_all
  ultimately have "- (2 ^ 127) \<le> uint i \<and> uint i < 2 ^ 127" by (meson less_trans order_trans)
  with 4 show ?case by auto
next
  case (15 render key e es m)
  from "15.prems"(1) obtain v where "\<not> bt_get m key \<noteq> None" and v: "visit render e = Inr v"
    "visit_map render es (bt_insert key v m) = Inr m'" by (auto simp: result_simps split: if_splits)
  moreover have "cv_ok (CObject (bt_insert key v m))"
    using "15.IH"(1) [OF calculation(1) v(1)] "15.prems"(2,3) by (simp add: bt_insert_all bt_ok_insert)
  ultimately show ?case using "15.IH"(2) "15.prems"(2) by simp
qed (auto simp: result_simps visit_end_def bt_ok_def split: if_splits option.splits)

section \<open>What the parser crate reads\<close>

text \<open>
  The visitor calls for a value: a negative number is read as \<^verbatim>\<open>i64\<close>, another one as \<^verbatim>\<open>u64\<close>, members in the order of
  the text.
\<close>

fun events_of :: "canonical_value \<Rightarrow> json_event" where
  "events_of CNull = EUnit"
| "events_of (CBool b) = EBool b"
| "events_of (CInteger i) = (if i < 0 then EI64 (word_of_int i) else EU64 (word_of_int i))"
| "events_of (CString s) = EStr s"
| "events_of (CArray vs) = ESeq (map events_of vs) None"
| "events_of (CObject es) = EMap (map (\<lambda>(k, v). (k, events_of v)) es) None"

fun json_depth :: "canonical_value \<Rightarrow> nat" where
  "json_depth (CArray vs) = Suc (fold max (map json_depth vs) 0)"
| "json_depth (CObject es) = Suc (fold max (map (\<lambda>(_, v). json_depth v) es) 0)"
| "json_depth _ = 0"

text \<open>
  What \<^verbatim>\<open>serde_json\<close> does with the compact text of a value: it reads the members back in order. This holds for the
  numbers of 64 bits, a larger one being read as a floating-point number, and below the recursion limit of 128.
\<close>

definition reads_compact :: "serde \<Rightarrow> externals \<Rightarrow> canonical_value \<Rightarrow> bool" where
  "reads_compact j x v =
     (cv_ok v \<longrightarrow> ints_ok v \<longrightarrow> json_depth v < 128 \<longrightarrow>
        sj_events j (as_bytes (encode_into x v)) = events_of v \<and> sj_end j (as_bytes (encode_into x v)) = Inr ())"

lemma visit_seq_map: "(\<And>v. v \<in> set vs \<Longrightarrow> visit render (f v) = Inr v) \<Longrightarrow> visit_seq render (map f vs) = Inr vs"
  by (induction vs) auto

lemma visit_map_sorted:
  "(\<And>e. e \<in> set es \<Longrightarrow> visit render (f (snd e)) = Inr (snd e)) \<Longrightarrow> bt_ok (m @ es) \<Longrightarrow>
     visit_map render (map (\<lambda>(k, v). (k, f v)) es) m = Inr (m @ es)"
proof (induction es arbitrary: m)
  case (Cons e es)
  obtain k v where e: "e = (k, v)" by (cases e)
  have lt: "\<forall>a \<in> set (map fst m). a < k" using Cons.prems(2) by (auto simp: e bt_ok_def sorted_wrt_append)
  have "bt_get m k = None" using lt by (auto simp: bt_get_def map_of_eq_None_iff)
  moreover have "bt_insert k v m = m @ [(k, v)]"
    using lt by (induction k v m rule: bt_insert.induct) (auto dest: less_asym)
  moreover have "visit render (f v) = Inr v" using Cons.prems(1) [of e] by (simp add: e)
  ultimately show ?case using Cons.IH [of "m @ [(k, v)]"] Cons.prems by (simp add: e)
qed simp

lemma visit_events: "cv_ok v \<Longrightarrow> ints_ok v \<Longrightarrow> visit render (events_of v) = Inr v"
proof (induction v)
  case (CInteger i)
  then have "i < 0 \<Longrightarrow> sint (word_of_int i :: i64) = i" "\<not> i < 0 \<Longrightarrow> uint (word_of_int i :: u64) = i"
    by (simp_all add: sint_sbintrunc' signed_take_bit_int_eq_self uint_word_of_int)
  then show ?case by simp
next
  case (CArray vs)
  then have "visit_seq render (map events_of vs) = Inr vs" by (intro visit_seq_map) (auto simp: list_all_iff)
  then show ?case by (simp add: visit_end_def)
next
  case (CObject es)
  then have "visit_map render (map (\<lambda>(k, v). (k, events_of v)) es) [] = Inr ([] @ es)"
    by (intro visit_map_sorted) (auto simp: list_all_iff snds.simps)
  then show ?case by (simp add: visit_end_def)
qed simp_all

text \<open>The parser takes the compact text of a value exactly when its integers have 64 bits.\<close>

lemma parse_compact:
  assumes "quote_laws x" "reads_compact j x v" "cv_ok v" "json_depth v < 128"
  shows "parse j (as_bytes (encode_into x v)) = (if ints_ok v then Inr v else Inl IntegerOutOfRange)"
proof -
  have "scan (encode_into x v) = (if ints_ok v then Inr () else Inl IntegerOutOfRange)"
    using scan_throughD [OF scan_encode [OF assms(1)], of v "[]"] by (simp add: stops_def)
  then show ?thesis
    using assms(2-4) visit_events [OF assms(3)] by (simp add: parse_def validate_number_tokens_def reads_compact_def)
qed

lemma parse_canonical_compact:
  assumes "quote_laws x" "reads_compact j x v" "cv_ok v" "json_depth v < 128"
  shows "parse_canonical j x (as_bytes (encode_into x v)) = (if ints_ok v then Inr v else Inl IntegerOutOfRange)"
  using parse_compact [OF assms] by (simp add: parse_canonical_def encode_def)

section \<open>A sample of the parser crate\<close>

definition escape_char :: "char \<Rightarrow> string" where
  "escape_char c = (if c = CHR 0x22 \<or> c = CHR 0x5C then [CHR 0x5C, c] else [c])"

definition sample_json :: externals where
  "sample_json = sample_externals\<lparr>json_quote := (\<lambda>s. CHR 0x22 # concat (map escape_char s) @ [CHR 0x22])\<rparr>"

lemma escape_inj: "concat (map escape_char s) = concat (map escape_char t) \<Longrightarrow> s = t"
proof (induction s arbitrary: t)
  case Nil
  then show ?case by (cases t) (auto simp: escape_char_def split: if_splits)
next
  case (Cons c s)
  then obtain d u where t: "t = d # u" by (cases t) (auto simp: escape_char_def split: if_splits)
  with Cons.prems have "c = d \<and> concat (map escape_char s) = concat (map escape_char u)"
    by (auto simp: escape_char_def [of c] escape_char_def [of d] split: if_splits)
  with Cons.IH [of u] t show ?case by simp
qed

lemma sample_quote_laws: "quote_laws sample_json"
proof -
  have "json_body (concat (map escape_char s))" for s
    by (induction s) (auto simp: escape_char_def)
  then show ?thesis by (auto simp: quote_laws_def sample_json_def inj_def dest: escape_inj)
qed

definition sample_value :: canonical_value where
  "sample_value = CObject [(''a'', CInteger (- 5)), (''b'', CString ''1e9'')]"

definition sample_serde :: serde where
  "sample_serde =
     \<lparr>sj_events = (\<lambda>_. EMap [(''a'', EI64 (- 5)), (''b'', EStr ''1e9'')] None), sj_end = (\<lambda>_. Inr ()),
      sj_render = (\<lambda>m. m @ '' at line 1 column 1''),
      sj_to_vec = (\<lambda>v. Inr (as_bytes (encode_into sample_json v)))\<rparr>"

section \<open>Properties\<close>

text \<open>
  C20: canonical JSON is a faithful name for a value. With the string quoting of JSON, two values
  with the same canonical bytes are equal; bytes that are accepted as canonical are the encoding of
  the value they are read as, so no two byte strings are accepted for one value; and a value read
  from a stream of well-formed tokens has sorted keys, no duplicates and 128-bit integers.
\<close>

theorem canonical_json_unique:
  assumes "quote_laws x"
  shows "(encode x v = encode x w \<longleftrightarrow> v = w)
    \<and> (parse_canonical j x bs = Inr v \<longrightarrow> encode x v = Inr bs)
    \<and> (parse_canonical j x bs = Inr v \<longrightarrow> event_ok (sj_events j bs) \<longrightarrow> cv_ok v)"
proof -
  have "v = w" if "encode x v = encode x w"
    using unambiguousD [OF encode_unambiguous [OF assms], of v "[]" w "[]"] that by (simp add: encode_def stops_def)
  moreover have "encode x v = Inr bs" if "parse_canonical j x bs = Inr v"
    using that by (auto simp: parse_canonical_def result_simps)
  moreover have "cv_ok v" if "parse_canonical j x bs = Inr v" "event_ok (sj_events j bs)"
    using that visit_cv_ok(1) by (auto simp: parse_canonical_def parse_def result_simps)
  ultimately show ?thesis by blast
qed

theorem canonical_json_unique_witness:
  "encode sample_json sample_value \<noteq> encode sample_json (CString ''1e9'')"
  using canonical_json_unique [OF sample_quote_laws, of sample_value "CString ''1e9''"]
  by (simp add: sample_value_def)

text \<open>
  C19: the round trip of canonical JSON. With a tokenizer that reads compact text in the order it is written, \<^verbatim>\<open>parse_canonical\<close>
  accepts the canonical bytes of a value and gives the value back, members, strings and numbers included, exactly when every integer in it
  fits \<^verbatim>\<open>i64\<close> or \<^verbatim>\<open>u64\<close>, and reports an integer out of range otherwise; digits inside strings are never taken for
  numbers. The value has sorted members and UTF-8 strings and is nested less than 128 deep.
\<close>

theorem canonical_json_roundtrip:
  assumes "quote_laws x" "reads_compact j x v" "cv_ok v" "json_depth v < 128"
  shows "and_then (encode x v) (parse_canonical j x) = (if ints_ok v then Inr v else Inl IntegerOutOfRange)"
  using parse_canonical_compact [OF assms] by (simp add: encode_def)

lemma sample_value_reads: "reads_compact sample_serde sample_json sample_value" "cv_ok sample_value" "json_depth sample_value < 128"
proof -
  have "string_ok ''a''" "string_ok ''b''" "string_ok ''1e9''" 
    by (simp_all add: string_ok_def usize_bound_def word_less_nat_alt)
  then have "cv_ok sample_value" by (simp add: sample_value_def bt_ok_def)
  then show "reads_compact sample_serde sample_json sample_value" "cv_ok sample_value" "json_depth sample_value < 128"
    by (simp_all add: reads_compact_def sample_serde_def sample_value_def)
qed

theorem canonical_json_roundtrip_witness:
  "and_then (encode sample_json sample_value) (parse_canonical sample_serde sample_json) = Inr sample_value"
  using canonical_json_roundtrip [OF sample_quote_laws sample_value_reads] by (simp add: sample_value_def)

end
