(* ===== verification/Schema_Types.thy ===== *)
theory Schema_Types
  imports Values
begin

text \<open>
  Logical schemas, \<^verbatim>\<open>otmp-protocol/src/types.rs\<close>: the type grammar, which scalars a type accepts, and
  the validation of a schema, with a declarative description of the schemas it accepts.

  A \<^verbatim>\<open>BTreeSet\<close> that is only tested and extended is a set.
\<close>

section \<open>Data\<close>

datatype logical_type =
    LBoolean
  | LInt32
  | LInt64
  | LFloat32
  | LFloat64
  | LDecimal u32 u32
  | LDate
  | LTimeMicros
  | LTimestampMicros
  | LTimestamptzMicros
  | LString
  | LBinary
  | LFixed u32
  | LUuid
  | LStruct "field list"
  | LList field
  | LMap field field
and field =
  Field (f_field_id: u32) (f_name: string) (f_required: bool) (f_field_type: logical_type)
    (f_doc: "string option") (f_initial_default: "typed_scalar option") (f_write_default: "typed_scalar option")

record schema =
  sch_schema_id :: u32
  sch_parent_schema_id :: "u32 option"
  sch_fields :: "field list"
  sch_identifier_field_ids :: "u32 list"
  sch_doc :: "string option"

definition is_identifier_primitive :: "logical_type \<Rightarrow> bool" where
  "is_identifier_primitive t =
     (case t of
        LBoolean \<Rightarrow> True | LInt32 \<Rightarrow> True | LInt64 \<Rightarrow> True | LDecimal _ _ \<Rightarrow> True | LDate \<Rightarrow> True
      | LTimeMicros \<Rightarrow> True | LTimestampMicros \<Rightarrow> True | LTimestamptzMicros \<Rightarrow> True | LString \<Rightarrow> True
      | LBinary \<Rightarrow> True | LFixed _ \<Rightarrow> True | LUuid \<Rightarrow> True | _ \<Rightarrow> False)"

text \<open>\<^verbatim>\<open>matches!((self, value), ...)\<close>, arm by arm.\<close>

definition accepts :: "logical_type \<Rightarrow> typed_scalar \<Rightarrow> bool" where
  "accepts t value =
     (value = TNull
      \<or> (case value of
           TBoolean _ \<Rightarrow> t = LBoolean
         | TInt32 _ \<Rightarrow> t = LInt32
         | TInt64 _ \<Rightarrow> t = LInt64
         | TFloat32 _ \<Rightarrow> t = LFloat32
         | TFloat64 _ \<Rightarrow> t = LFloat64
         | TDate _ \<Rightarrow> t = LDate
         | TTimeMicros _ \<Rightarrow> t = LTimeMicros
         | TTimestampMicros _ \<Rightarrow> t = LTimestampMicros
         | TTimestamptzMicros _ \<Rightarrow> t = LTimestamptzMicros
         | TString _ \<Rightarrow> t = LString
         | TBinary _ \<Rightarrow> t = LBinary
         | TUuid _ \<Rightarrow> t = LUuid
         | TDecimal p s _ \<Rightarrow> t = LDecimal p s
         | TFixed bytes \<Rightarrow> (case t of LFixed len \<Rightarrow> unat len = length bytes | _ \<Rightarrow> False)
         | TNull \<Rightarrow> True))"

definition is_float :: "logical_type \<Rightarrow> bool" where
  "is_float t = (t = LFloat32 \<or> t = LFloat64)"

definition is_primitive :: "logical_type \<Rightarrow> bool" where
  "is_primitive t = (case t of LStruct _ \<Rightarrow> False | LList _ \<Rightarrow> False | LMap _ _ \<Rightarrow> False | _ \<Rightarrow> True)"

section \<open>Validation\<close>

definition validate_type :: "logical_type \<Rightarrow> (protocol_error, unit) result" where
  "validate_type t =
     (case t of
        LDecimal precision scale \<Rightarrow>
          if precision = 0 \<or> scale > precision
          then Inl (InvalidSchema ''decimal requires precision > 0 and scale <= precision'') else Inr ()
      | LFixed len \<Rightarrow> if len = 0 then Inl (InvalidSchema ''fixed length must be positive'') else Inr ()
      | _ \<Rightarrow> Inr ())"

definition validate_default :: "field \<Rightarrow> typed_scalar option \<Rightarrow> (protocol_error, unit) result" where
  "validate_default f d =
     (case d of
        None \<Rightarrow> Inr ()
      | Some v \<Rightarrow>
          and_then (scalar_validate v) (\<lambda>_.
            if \<not> accepts (f_field_type f) v \<or> (f_required f \<and> v = TNull)
            then Inl (InvalidSchema ''field default is not type compatible'') else Inr ()))"

type_synonym field_paths = "(u32, field \<times> bool) btree"

text \<open>What the recursion on nested types decreases.\<close>

fun type_size :: "logical_type \<Rightarrow> nat" and field_size :: "field \<Rightarrow> nat" where
  "type_size (LStruct fs) = sum_list (map field_size fs) + 3"
| "type_size (LList e) = field_size e + 3"
| "type_size (LMap k v) = field_size k + field_size v + 3"
| "type_size _ = 0"
| "field_size (Field _ _ _ t _ _ _) = type_size t + 1"

lemma field_size_type [simp]: "field_size f = type_size (f_field_type f) + 1"
  by (cases f) simp

declare field_size.simps [simp del]

function validate_siblings :: "field list \<Rightarrow> nat \<Rightarrow> bool \<Rightarrow> u32 set \<times> field_paths
      \<Rightarrow> (protocol_error, u32 set \<times> field_paths) result"
  and validate_each :: "field list \<Rightarrow> nat \<Rightarrow> bool \<Rightarrow> string set \<Rightarrow> u32 set \<times> field_paths
      \<Rightarrow> (protocol_error, u32 set \<times> field_paths) result"
  and validate_nested :: "logical_type \<Rightarrow> nat \<Rightarrow> bool \<Rightarrow> u32 set \<times> field_paths
      \<Rightarrow> (protocol_error, u32 set \<times> field_paths) result" where
  "validate_siblings fs depth under_optional s =
     (if depth > 64 then Inl (InvalidSchema ''maximum nesting depth is 64'')
      else validate_each fs depth under_optional {} s)"
| "validate_each [] depth under_optional names s = Inr s"
| "validate_each (f # fs) depth under_optional names s =
     (case s of (ids, paths) \<Rightarrow>
      if f_field_id f = 0 \<or> f_field_id f \<in> ids
      then Inl (InvalidSchema ''field IDs must be unique and positive'')
      else if f_name f = [] \<or> f_name f \<in> names
      then Inl (InvalidSchema ''sibling field names must be unique and nonempty'')
      else and_then (validate_type (f_field_type f)) (\<lambda>_.
           and_then (validate_default f (f_initial_default f)) (\<lambda>_.
           and_then (validate_default f (f_write_default f)) (\<lambda>_.
           and_then (validate_nested (f_field_type f) depth (under_optional \<or> \<not> f_required f)
                       (insert (f_field_id f) ids, bt_insert (f_field_id f) (f, under_optional) paths)) (\<lambda>s.
             validate_each fs depth under_optional (insert (f_name f) names) s)))))"
| "validate_nested t depth nested_optional s =
     (case t of
        LStruct inner \<Rightarrow> validate_siblings inner (depth + 1) nested_optional s
      | LList element \<Rightarrow> validate_siblings [element] (depth + 1) nested_optional s
      | LMap key value \<Rightarrow>
          if \<not> f_required key \<or> \<not> is_primitive (f_field_type key)
          then Inl (InvalidSchema ''map keys must be required primitives'')
          else and_then (validate_siblings [key] (depth + 1) nested_optional s) (\<lambda>s.
                 validate_siblings [value] (depth + 1) nested_optional s)
      | _ \<Rightarrow> Inr s)"
  by pat_completeness auto
termination
  by (relation "measure (\<lambda>a. case a of
        Inl (fs, _) \<Rightarrow> sum_list (map field_size fs) + 2
      | Inr (Inl (fs, _)) \<Rightarrow> sum_list (map field_size fs) + 1
      | Inr (Inr (t, _)) \<Rightarrow> type_size t)") auto

declare validate_nested.simps [simp del]

definition identifier_step :: "field_paths \<Rightarrow> u32 set \<Rightarrow> u32 \<Rightarrow> (protocol_error, u32 set) result" where
  "identifier_step paths seen field_id =
     (if field_id \<in> seen then Inl (InvalidSchema ''duplicate identifier field ID'')
      else case bt_get paths field_id of
             None \<Rightarrow> Inl (InvalidSchema ''identifier field does not exist'')
           | Some (f, under_optional) \<Rightarrow>
               if \<not> f_required f \<or> under_optional \<or> \<not> is_identifier_primitive (f_field_type f)
               then Inl (InvalidSchema ''identifier fields must be required non-floating primitives outside optional containers'')
               else Inr (insert field_id seen))"

definition schema_validate :: "schema \<Rightarrow> (protocol_error, unit) result" where
  "schema_validate s =
     (if sch_schema_id s = 0 then Inl (InvalidSchema ''schema_id must be positive'')
      else and_then (validate_siblings (sch_fields s) 1 False ({}, [])) (\<lambda>(ids, paths).
           and_then (try_fold (identifier_step paths) {} (sch_identifier_field_ids s)) (\<lambda>_. Inr ())))"

section \<open>What validation accepts\<close>

text \<open>The fields of a schema, each with whether an optional field contains it.\<close>

fun type_paths :: "bool \<Rightarrow> logical_type \<Rightarrow> (u32 \<times> field \<times> bool) list"
  and field_paths :: "bool \<Rightarrow> field \<Rightarrow> (u32 \<times> field \<times> bool) list" where
  "type_paths u (LStruct fs) = concat (map (field_paths u) fs)"
| "type_paths u (LList e) = field_paths u e"
| "type_paths u (LMap k v) = field_paths u k @ field_paths u v"
| "type_paths u _ = []"
| "field_paths u (Field i n r t d a b) = (i, Field i n r t d a b, u) # type_paths (u \<or> \<not> r) t"

lemma field_paths_eq: "field_paths u f = (f_field_id f, f, u) # type_paths (u \<or> \<not> f_required f) (f_field_type f)"
  by (cases f) simp

declare field_paths.simps [simp del]

abbreviation paths_of :: "bool \<Rightarrow> field list \<Rightarrow> (u32 \<times> field \<times> bool) list" where
  "paths_of u fs \<equiv> concat (map (field_paths u) fs)"

text \<open>The shape of fields at a nesting depth.\<close>

definition default_ok :: "field \<Rightarrow> typed_scalar option \<Rightarrow> bool" where
  "default_ok f d = (validate_default f d = Inr ())"

definition own_ok :: "field \<Rightarrow> bool" where
  "own_ok f = (f_name f \<noteq> [] \<and> validate_type (f_field_type f) = Inr ()
     \<and> default_ok f (f_initial_default f) \<and> default_ok f (f_write_default f))"

fun type_ok :: "nat \<Rightarrow> logical_type \<Rightarrow> bool" and field_ok :: "nat \<Rightarrow> field \<Rightarrow> bool" where
  "type_ok d (LStruct fs) = (d < 64 \<and> distinct (map f_name fs) \<and> list_all (field_ok (Suc d)) fs)"
| "type_ok d (LList e) = (d < 64 \<and> field_ok (Suc d) e)"
| "type_ok d (LMap k v) =
     (d < 64 \<and> f_required k \<and> is_primitive (f_field_type k) \<and> field_ok (Suc d) k \<and> field_ok (Suc d) v)"
| "type_ok d _ = True"
| "field_ok d (Field i n r t c a b) = (own_ok (Field i n r t c a b) \<and> type_ok d t)"

lemma field_ok_eq: "field_ok d f = (own_ok f \<and> type_ok d (f_field_type f))"
  by (cases f) simp

declare field_ok.simps [simp del]

definition siblings_ok :: "nat \<Rightarrow> field list \<Rightarrow> bool" where
  "siblings_ok d fs = (d \<le> 64 \<and> distinct (map f_name fs) \<and> list_all (field_ok d) fs)"

text \<open>Identifiers that are new, distinct and positive.\<close>

definition fresh_ids :: "u32 set \<Rightarrow> (u32 \<times> 'a) list \<Rightarrow> bool" where
  "fresh_ids ids ps = (distinct (map fst ps) \<and> 0 \<notin> fst ` set ps \<and> fst ` set ps \<inter> ids = {})"

lemma fresh_ids_Cons: "fresh_ids ids (p # ps) \<longleftrightarrow> fst p \<noteq> 0 \<and> fst p \<notin> ids \<and> fresh_ids (insert (fst p) ids) ps"
  by (auto simp: fresh_ids_def)

lemma fresh_ids_append: "fresh_ids ids (ps @ qs) \<longleftrightarrow> fresh_ids ids ps \<and> fresh_ids (ids \<union> fst ` set ps) qs"
  by (auto simp: fresh_ids_def)

lemma fresh_ids_Nil [simp]: "fresh_ids ids []"
  by (simp add: fresh_ids_def)

definition collects :: "u32 set \<times> field_paths \<Rightarrow> (u32 \<times> field \<times> bool) list \<Rightarrow> u32 set \<times> field_paths \<Rightarrow> bool" where
  "collects s ps s' = (fresh_ids (fst s) ps \<and> s' = (fst s \<union> fst ` set ps, bt_extend (snd s) ps))"

lemma collects_Nil [simp]: "collects s [] s' \<longleftrightarrow> s' = s"
  by (auto simp: collects_def bt_extend_def)

lemma collects_append: "collects s (ps @ qs) s' \<longleftrightarrow> (\<exists>t. collects s ps t \<and> collects t qs s')"
  by (auto simp: collects_def fresh_ids_append bt_extend_def Un_assoc)

lemma collects_Cons:
  "collects s ((i, p) # ps) s' \<longleftrightarrow> i \<noteq> 0 \<and> i \<notin> fst s \<and> collects (insert i (fst s), bt_insert i p (snd s)) ps s'"
  by (auto simp: collects_def fresh_ids_Cons bt_extend_def)

lemma validate_siblings_iff:
  "validate_siblings fs d u s = Inr s' \<longleftrightarrow> siblings_ok d fs \<and> collects s (paths_of u fs) s'"
  "validate_each fs d u names s = Inr s' \<longleftrightarrow> distinct (map f_name fs) \<and> f_name ` set fs \<inter> names = {}
     \<and> list_all (field_ok d) fs \<and> collects s (paths_of u fs) s'"
  "validate_nested t d u s = Inr s' \<longleftrightarrow> type_ok d t \<and> collects s (type_paths u t) s'"
proof (induction fs d u s and fs d u names s and t d u s arbitrary: s' and s' and s'
    rule: validate_siblings_validate_each_validate_nested.induct)
  case (1 fs d u s)
  then show ?case by (auto simp: siblings_ok_def)
next
  case (2 d u names s)
  then show ?case by auto
next
  case (3 f fs d u names s)
  obtain ids paths where s: "s = (ids, paths)" by (cases s)
  show ?case
  proof (cases "f_field_id f \<noteq> 0 \<and> f_field_id f \<notin> ids \<and> f_name f \<notin> names \<and> own_ok f")
    case True
    note nested = 3(1) [OF s [symmetric]] and each = 3(2) [OF s [symmetric]]
    from True show ?thesis
      by (auto simp: s own_ok_def default_ok_def field_paths_eq field_ok_eq collects_Cons collects_append nested each and_then_eq_Inr)
  next
    case False
    then show ?thesis
      by (auto simp: s own_ok_def default_ok_def field_paths_eq field_ok_eq collects_Cons and_then_eq_Inr)
  qed
next
  case (4 t d u s)
  then show ?case
    by (cases t) (auto simp: validate_nested.simps siblings_ok_def collects_append and_then_eq_Inr
        simp del: validate_siblings.simps split_paired_Ex split_paired_All)
qed

declare validate_siblings.simps [simp del]

text \<open>A fold over identifiers that refuses a repeated or an unsuitable one.\<close>

definition identifier_ok :: "field_paths \<Rightarrow> u32 \<Rightarrow> bool" where
  "identifier_ok paths i =
     (case bt_get paths i of None \<Rightarrow> False
      | Some (f, u) \<Rightarrow> f_required f \<and> \<not> u \<and> is_identifier_primitive (f_field_type f))"

lemma identifier_ok_iff:
  "identifier_ok paths i \<longleftrightarrow> (\<exists>f. bt_get paths i = Some (f, False) \<and> f_required f \<and> is_identifier_primitive (f_field_type f))"
  by (auto simp: identifier_ok_def split: option.splits)

lemma identifier_fold:
  "(\<exists>seen'. try_fold (identifier_step paths) seen ids = Inr seen')
    \<longleftrightarrow> distinct ids \<and> set ids \<inter> seen = {} \<and> list_all (identifier_ok paths) ids"
proof (induction ids arbitrary: seen)
  case (Cons i ids)
  show ?case
  proof (cases "i \<in> seen \<or> \<not> identifier_ok paths i")
    case True
    then show ?thesis
      by (auto simp: identifier_step_def identifier_ok_def split: option.splits)
  next
    case False
    then have "identifier_step paths seen i = Inr (insert i seen)"
      by (auto simp: identifier_step_def identifier_ok_def split: option.splits)
    with False Cons show ?thesis by auto
  qed
qed simp

lemma bt_get_extend_distinct:
  assumes "distinct (map fst ps)"
  shows "bt_get (bt_extend [] ps) k = map_of ps k"
proof -
  have "map_of (rev ps) = map_of ps"
    by (rule map_of_inject_set [THEN iffD2]) (use assms in \<open>auto simp: rev_map [symmetric]\<close>)
  then show ?thesis
    using bt_get_extend [of "[]" ps] by (simp add: bt_ok_def bt_get_def [abs_def] map_add_def split: option.split)
qed

section \<open>Equality and positions\<close>

text \<open>
  The derived \<^verbatim>\<open>PartialEq\<close> of scalars, types and fields: floats compare as numbers, so a NaN equals nothing and the two zeros
  are equal.
\<close>

definition typed_scalar_eq :: "typed_scalar \<Rightarrow> typed_scalar \<Rightarrow> bool" where
  "typed_scalar_eq a b =
     (case (a, b) of
        (TFloat32 u, TFloat32 v) \<Rightarrow> f32_partial_cmp u v = Some Equal
      | (TFloat64 u, TFloat64 v) \<Rightarrow> f64_partial_cmp u v = Some Equal
      | _ \<Rightarrow> a = b)"

fun type_eq :: "logical_type \<Rightarrow> logical_type \<Rightarrow> bool"
  and field_eq :: "field \<Rightarrow> field \<Rightarrow> bool"
  and fields_eq :: "field list \<Rightarrow> field list \<Rightarrow> bool" where
  "type_eq (LStruct fs) t = (case t of LStruct gs \<Rightarrow> fields_eq fs gs | _ \<Rightarrow> False)"
| "type_eq (LList e) t = (case t of LList d \<Rightarrow> field_eq e d | _ \<Rightarrow> False)"
| "type_eq (LMap k v) t = (case t of LMap l w \<Rightarrow> field_eq k l \<and> field_eq v w | _ \<Rightarrow> False)"
| "type_eq s t = (s = t)"
| "field_eq (Field i n r s c a b) f =
     (i = f_field_id f \<and> n = f_name f \<and> r = f_required f \<and> type_eq s (f_field_type f) \<and> c = f_doc f
      \<and> rel_option typed_scalar_eq a (f_initial_default f) \<and> rel_option typed_scalar_eq b (f_write_default f))"
| "fields_eq [] gs = (gs = [])"
| "fields_eq (f # fs) gs = (case gs of [] \<Rightarrow> False | g # gs \<Rightarrow> field_eq f g \<and> fields_eq fs gs)"

text \<open>The fields directly inside a type, and the field a list of indexes leads to.\<close>

definition nested_fields :: "logical_type \<Rightarrow> field list" where
  "nested_fields t = (case t of LStruct inner \<Rightarrow> inner | LList element \<Rightarrow> [element] | LMap key value \<Rightarrow> [key, value] | _ \<Rightarrow> [])"

fun field_at :: "field list \<Rightarrow> nat list \<Rightarrow> field option" where
  "field_at fs [] = None"
| "field_at fs (i # p) =
     (if i < length fs then if p = [] then Some (fs ! i) else field_at (nested_fields (f_field_type (fs ! i))) p else None)"

lemma field_at_Nil [simp]: "field_at [] p = None"
  by (cases p) simp_all

lemma field_at_Cons [simp]:
  "field_at (f # fs) (0 # p) = (if p = [] then Some f else field_at (nested_fields (f_field_type f)) p)"
  "field_at (f # fs) (Suc i # p) = field_at fs (i # p)"
  by simp_all

declare field_at.simps(2) [simp del]

lemma all_positions: "(\<forall>p. P p) \<longleftrightarrow> P [] \<and> P [0] \<and> (\<forall>p. p \<noteq> [] \<longrightarrow> P (0 # p)) \<and> (\<forall>i p. P (Suc i # p))"
  by (metis list.exhaust nat.exhaust)

lemma all_field_at: "(\<forall>i p. P (i # p)) \<Longrightarrow> P [] \<Longrightarrow> P (q :: nat list)"
  by (cases q) auto

lemma type_paths_nested: "type_paths u t = paths_of u (nested_fields t)"
  by (cases t) (simp_all add: nested_fields_def)

lemma field_at_path:
  "field_at fs p = Some f \<Longrightarrow> \<exists>v. (f_field_id f, f, v) \<in> set (paths_of u fs)"
proof (induction fs p arbitrary: u rule: field_at.induct)
  case (2 fs i p)
  then have i: "i < length fs" by (simp add: field_at.simps split: if_splits)
  have sub: "set (field_paths u (fs ! i)) \<subseteq> set (paths_of u fs)" using i by (auto intro: nth_mem)
  show ?case
  proof (cases "p = []")
    case True
    then have "fs ! i = f" using 2 i by (simp add: field_at.simps)
    then show ?thesis using sub field_paths_eq [of u f] by auto
  next
    case False
    then have "field_at (nested_fields (f_field_type (fs ! i))) p = Some f" using "2.prems" i by (simp add: field_at.simps)
    from "2.IH" [OF i False this] obtain v where
      "(f_field_id f, f, v) \<in> set (type_paths (u \<or> \<not> f_required (fs ! i)) (f_field_type (fs ! i)))"
      unfolding type_paths_nested by blast
    then have "(f_field_id f, f, v) \<in> set (field_paths u (fs ! i))" by (simp add: field_paths_eq [of u "fs ! i"])
    then show ?thesis using sub by blast
  qed
qed simp

lemma distinct_concat_apart:
  assumes "distinct (concat xss)" "i < k" "k < length xss"
  shows "set (xss ! i) \<inter> set (xss ! k) = {}"
proof -
  have "concat xss = concat (take i xss) @ xss ! i @ concat (drop (Suc i) xss)"
    using arg_cong [OF id_take_nth_drop [of i xss], of concat] assms(2,3) by simp
  moreover have "xss ! k = drop (Suc i) xss ! (k - Suc i)" "k - Suc i < length (drop (Suc i) xss)" using assms(2,3) by simp_all
  then have "xss ! k \<in> set (drop (Suc i) xss)" by (metis nth_mem)
  ultimately show ?thesis using assms(1) by auto
qed

text \<open>An identifier has one position.\<close>

lemma field_at_unique:
  "distinct (map fst (paths_of u fs)) \<Longrightarrow> field_at fs p = Some f \<Longrightarrow> field_at fs q = Some g \<Longrightarrow> f_field_id f = f_field_id g
    \<Longrightarrow> p = q"
proof (induction fs p arbitrary: u q rule: field_at.induct)
  case (2 fs i p)
  let ?n = "nested_fields (f_field_type (fs ! i))" and ?u = "u \<or> \<not> f_required (fs ! i)"
  obtain k r where q: "q = k # r" using "2.prems"(3) by (cases q) auto
  have ik: "i < length fs" "k < length fs" using "2.prems"(2,3) q by (simp_all add: field_at.simps split: if_splits)
  have at: "f_field_id h \<in> fst ` set (field_paths u (fs ! j))" if "field_at fs (j # s) = Some h" for j s h
  proof (cases "s = []")
    case True
    then have "fs ! j = h" using that by (simp add: field_at.simps split: if_splits)
    then show ?thesis by (simp add: field_paths_eq)
  next
    case False
    then have "field_at (nested_fields (f_field_type (fs ! j))) s = Some h" using that by (simp add: field_at.simps split: if_splits)
    from field_at_path [OF this] show ?thesis
      unfolding field_paths_eq [of u "fs ! j"] type_paths_nested by force
  qed
  have parts: "distinct (map fst (field_paths u (fs ! i)))"
    "i \<noteq> k \<Longrightarrow> fst ` set (field_paths u (fs ! i)) \<inter> fst ` set (field_paths u (fs ! k)) = {}"
  proof -
    have "map fst (paths_of u fs) = concat (map (\<lambda>f. map fst (field_paths u f)) fs)" by (simp add: map_concat comp_def)
    with "2.prems"(1) have d: "distinct (concat (map (\<lambda>f. map fst (field_paths u f)) fs))" by simp
    have ne: "map fst (field_paths u f) \<noteq> []" for f by (simp add: field_paths_eq)
    from d ik show "distinct (map fst (field_paths u (fs ! i)))" by (auto simp: distinct_concat_iff)
    show "fst ` set (field_paths u (fs ! i)) \<inter> fst ` set (field_paths u (fs ! k)) = {}" if "i \<noteq> k"
      using distinct_concat_apart [OF d, of i k] distinct_concat_apart [OF d, of k i] ik that by (cases i k rule: linorder_cases) auto
  qed
  have "i = k" using parts(2) at [OF "2.prems"(2)] at [OF "2.prems"(3) [unfolded q]] "2.prems"(4) by auto
  then have r: "field_at fs (i # r) = Some g" using "2.prems"(3) q by simp
  have own: "f_field_id (fs ! i) \<notin> fst ` set (paths_of ?u ?n)" "distinct (map fst (paths_of ?u ?n))"
    using parts(1) unfolding field_paths_eq [of u "fs ! i"] type_paths_nested by auto
  have deep: "f_field_id h \<in> fst ` set (paths_of ?u ?n)" if "field_at ?n s = Some h" for s h
    using field_at_path [OF that, of ?u] by force
  show ?case
  proof (cases "p = [] \<or> r = []")
    case True
    then have "p = [] \<and> r = []"
      using "2.prems"(2,4) r ik own(1) deep by (auto simp: field_at.simps split: if_splits) metis+
    then show ?thesis using q \<open>i = k\<close> by simp
  next
    case False
    then have "p = r" using "2.IH" [OF ik(1) _ own(2), of r] "2.prems"(2,4) r ik by (simp add: field_at.simps)
    then show ?thesis using q \<open>i = k\<close> by simp
  qed
qed simp

text \<open>
  The schemas that are accepted: a positive schema identifier; every field named, with a well-formed type
  and defaults of that type, sibling names distinct and nesting at most sixty-four deep; field identifiers
  positive and distinct in the whole tree; identifier fields distinct, each an existing required field of a
  primitive type that is not a float, with no optional field above it.
\<close>

definition schema_ok :: "schema \<Rightarrow> bool" where
  "schema_ok s =
     (sch_schema_id s \<noteq> 0 \<and> siblings_ok 1 (sch_fields s)
      \<and> fresh_ids {} (paths_of False (sch_fields s))
      \<and> distinct (sch_identifier_field_ids s)
      \<and> (\<forall>i \<in> set (sch_identifier_field_ids s). \<exists>f.
           (i, f, False) \<in> set (paths_of False (sch_fields s)) \<and> f_required f
           \<and> is_identifier_primitive (f_field_type f)))"

text \<open>
  C14: Validation accepts exactly the schemas that meet the declarative description: whatever the nesting, the
  recursive pass with its shared identifier set and path map decides it.\<close>

theorem schema_validate_iff: "schema_validate s = Inr () \<longleftrightarrow> schema_ok s"
proof -
  let ?ps = "paths_of False (sch_fields s)"
  have ids: "list_all (identifier_ok (bt_extend [] ?ps)) is \<longleftrightarrow>
      (\<forall>i \<in> set is. \<exists>f. (i, f, False) \<in> set ?ps \<and> f_required f \<and> is_identifier_primitive (f_field_type f))"
    if "fresh_ids {} ?ps" for "is"
  proof -
    have d: "distinct (map fst ?ps)" using that by (simp add: fresh_ids_def)
    show ?thesis
      by (simp add: list_all_iff identifier_ok_iff bt_get_extend_distinct [OF d] map_of_eq_Some_iff [OF d]
          del: set_concat)
  qed
  show ?thesis
    unfolding schema_validate_def schema_ok_def
    using identifier_fold [of "bt_extend [] ?ps" "{}" "sch_identifier_field_ids s"]
    by (auto simp: and_then_eq_Inr validate_siblings_iff collects_def ids split: prod.splits)
qed

end
