(* ===== verification/Checkpoint_Index.thy ===== *)
theory Checkpoint_Index
  imports Page_Map
begin

text \<open>
  The nodes of a checkpoint page index, \<^verbatim>\<open>otmp-protocol/src/checkpoint_index.rs\<close>: leaves hold
  the hashes of consecutive pages, internal nodes the intervals of their children. A valid node
  covers one interval of pages without gaps, and its CBOR form is deterministic.
\<close>

section \<open>Data\<close>

definition checkpoint_index_capacity :: nat where
  "checkpoint_index_capacity = 128"

definition max_checkpoint_index_bytes :: nat where
  "max_checkpoint_index_bytes = 1024 * 1024"

record checkpoint_index_child =
  cic_first_page :: u64
  cic_page_count :: u64
  cic_child :: page_object_reference

datatype checkpoint_index_node =
    IndexLeaf u64 "sha256 list"
  | IndexInternal u32 "checkpoint_index_child list"

fun ci_level :: "checkpoint_index_node \<Rightarrow> u32" where
  "ci_level (IndexLeaf _ _) = 0"
| "ci_level (IndexInternal level _) = level"

fun ci_first_page :: "checkpoint_index_node \<Rightarrow> u64" where
  "ci_first_page (IndexLeaf first_page _) = first_page"
| "ci_first_page (IndexInternal _ entries) =
     (case entries of [] \<Rightarrow> 0 | e # _ \<Rightarrow> cic_first_page e)"

text \<open>\<^verbatim>\<open>Iterator::sum\<close> on \<^verbatim>\<open>u64\<close>; it wraps in a release build.\<close>

fun ci_page_count :: "checkpoint_index_node \<Rightarrow> u64" where
  "ci_page_count (IndexLeaf _ hashes) = u64_of_usize (length hashes)"
| "ci_page_count (IndexInternal _ entries) = sum_list (map cic_page_count entries)"

section \<open>Validation\<close>

definition child_step :: "u64 option \<Rightarrow> checkpoint_index_child \<Rightarrow> (protocol_error, u64 option) result" where
  "child_step expected e =
     (if cic_first_page e = 0 \<or> cic_page_count e = 0 \<or> por_length (cic_child e) = 0
         \<or> por_length (cic_child e) > u64_of_usize max_checkpoint_index_bytes
         \<or> (case expected of None \<Rightarrow> False | Some page \<Rightarrow> page \<noteq> cic_first_page e)
      then Inl (InvalidCbor ''noncontiguous checkpoint-index interval or reference'')
      else and_then
             (ok_or (InvalidCbor ''checkpoint-index interval overflow'')
               (checked_add (cic_first_page e) (cic_page_count e)))
             (\<lambda>page. Inr (Some page)))"

fun ci_validate :: "checkpoint_index_node \<Rightarrow> (protocol_error, unit) result" where
  "ci_validate (IndexLeaf first_page hashes) =
     (if first_page = 0 \<or> hashes = [] \<or> length hashes > checkpoint_index_capacity
      then Inl (InvalidCbor ''invalid checkpoint-index leaf interval'')
      else and_then
             (ok_or (InvalidCbor ''checkpoint-index leaf interval overflow'')
               (checked_add first_page (u64_of_usize (length hashes) - 1)))
             (\<lambda>_. Inr ()))"
| "ci_validate (IndexInternal level entries) =
     (if level = 0 \<or> entries = [] \<or> length entries > checkpoint_index_capacity
      then Inl (InvalidCbor ''invalid checkpoint-index internal level or count'')
      else and_then (try_fold child_step None entries) (\<lambda>_. Inr ()))"

section \<open>Encoding\<close>

definition ci_encode_ref :: "page_object_reference \<Rightarrow> byte list" where
  "ci_encode_ref r =
     map_len 3 @ put_text ''uri'' @ put_text (uri_as_str (por_uri r))
     @ put_text ''length'' @ put_unsigned (por_length r)
     @ put_text ''sha256'' @ put_bytes (sha_as_bytes (por_sha256 r))"

definition encode_child :: "checkpoint_index_child \<Rightarrow> byte list" where
  "encode_child e =
     map_len 3 @ put_text ''child'' @ ci_encode_ref (cic_child e)
     @ put_text ''page_count'' @ put_unsigned (cic_page_count e)
     @ put_text ''first_page'' @ put_unsigned (cic_first_page e)"

fun checkpoint_index_bytes :: "checkpoint_index_node \<Rightarrow> byte list" where
  "checkpoint_index_bytes (IndexLeaf first_page hashes) =
     map_len 4 @ put_text ''hashes'' @ array_len (length hashes)
     @ concat (map (\<lambda>h. put_bytes (sha_as_bytes h)) hashes)
     @ put_text ''version'' @ put_unsigned 1 @ put_text ''node_type'' @ put_text ''leaf''
     @ put_text ''first_page'' @ put_unsigned first_page"
| "checkpoint_index_bytes (IndexInternal level entries) =
     map_len 4 @ put_text ''level'' @ put_unsigned (u64_from_u32 level)
     @ put_text ''entries'' @ array_len (length entries)
     @ concat (map encode_child entries)
     @ put_text ''version'' @ put_unsigned 1 @ put_text ''node_type'' @ put_text ''internal''"

definition encode_checkpoint_index :: "checkpoint_index_node \<Rightarrow> (protocol_error, byte list) result" where
  "encode_checkpoint_index node =
     and_then (ci_validate node) (\<lambda>_.
       let output = checkpoint_index_bytes node
       in if length output > max_checkpoint_index_bytes
          then Inl (InvalidCbor ''checkpoint-index node exceeds 1 MiB'') else Inr output)"

section \<open>Decoding\<close>

definition ci_key :: "string \<Rightarrow> decoder \<Rightarrow> unit decoded" where
  "ci_key = key_with ''unexpected or noncanonical checkpoint-index key''"

definition ci_hash :: "decoder \<Rightarrow> sha256 decoded" where
  "ci_hash = hash_with ''checkpoint-index hash must be 32 raw bytes''"

definition ci_reference :: "decoder \<Rightarrow> page_object_reference decoded" where
  "ci_reference =
     reference_with ''invalid checkpoint-index reference fields''
       ''unexpected or noncanonical checkpoint-index key''
       ''checkpoint-index hash must be 32 raw bytes''"

definition ci_u32_value :: "decoder \<Rightarrow> u32 decoded" where
  "ci_u32_value = decoder_uint32 ''checkpoint-index integer overflow''"

definition decode_child :: "decoder \<Rightarrow> checkpoint_index_child decoded" where
  "decode_child d =
     and_then (decoder_length 5 d) (\<lambda>(n, d).
       if n \<noteq> 3 then Inl (InvalidCbor ''invalid checkpoint-index child fields'')
       else and_then (ci_key ''child'' d) (\<lambda>(_, d).
            and_then (ci_reference d) (\<lambda>(child, d).
            and_then (ci_key ''page_count'' d) (\<lambda>(_, d).
            and_then (decoder_unsigned d) (\<lambda>(page_count, d).
            and_then (ci_key ''first_page'' d) (\<lambda>(_, d).
            and_then (decoder_unsigned d) (\<lambda>(first_page, d).
              Inr (\<lparr>cic_first_page = first_page, cic_page_count = page_count, cic_child = child\<rparr>, d))))))))"

text \<open>The version and node type that close both kinds of node.\<close>

definition ci_version :: "string \<Rightarrow> decoder \<Rightarrow> unit decoded" where
  "ci_version node_type d =
     and_then (ci_key ''version'' d) (\<lambda>(_, d).
     and_then (decoder_unsigned d) (\<lambda>(version, d).
       if version \<noteq> 1 then Inl (InvalidCbor ''unsupported checkpoint-index version'')
       else and_then (ci_key ''node_type'' d) (\<lambda>(_, d).
            and_then (decoder_text d) (\<lambda>(s, d).
              if s \<noteq> node_type then Inl (InvalidCbor ''invalid checkpoint-index node type'')
              else Inr ((), d)))))"

definition ci_leaf_body :: "nat \<Rightarrow> decoder \<Rightarrow> checkpoint_index_node decoded" where
  "ci_leaf_body input_len d =
     and_then (decoder_length 4 d) (\<lambda>(count, d).
       if count = 0 \<or> count > checkpoint_index_capacity \<or> count > input_len
       then Inl (InvalidCbor ''invalid checkpoint-index leaf count'')
       else and_then (decode_n count ci_hash d) (\<lambda>(hashes, d).
            and_then (ci_version ''leaf'' d) (\<lambda>(_, d).
            and_then (ci_key ''first_page'' d) (\<lambda>(_, d).
            and_then (decoder_unsigned d) (\<lambda>(first_page, d).
              Inr (IndexLeaf first_page hashes, d))))))"

definition ci_internal_body :: "nat \<Rightarrow> decoder \<Rightarrow> checkpoint_index_node decoded" where
  "ci_internal_body input_len d =
     and_then (ci_u32_value d) (\<lambda>(level, d).
     and_then (ci_key ''entries'' d) (\<lambda>(_, d).
     and_then (decoder_length 4 d) (\<lambda>(count, d).
       if count = 0 \<or> count > checkpoint_index_capacity \<or> count > input_len
       then Inl (InvalidCbor ''invalid checkpoint-index internal count'')
       else and_then (decode_n count decode_child d) (\<lambda>(entries, d).
            and_then (ci_version ''internal'' d) (\<lambda>(_, d).
              Inr (IndexInternal level entries, d))))))"

definition decode_checkpoint_index :: "byte list \<Rightarrow> (protocol_error, checkpoint_index_node) result" where
  "decode_checkpoint_index input =
     (if length input > max_checkpoint_index_bytes
      then Inl (InvalidCbor ''checkpoint-index node exceeds 1 MiB'')
      else and_then (decoder_length 5 (decoder_new input)) (\<lambda>(fields, d).
        if fields \<noteq> 4 then Inl (InvalidCbor ''invalid checkpoint-index node fields'')
        else and_then (decoder_text d) (\<lambda>(first_key, d).
          and_then
            (if first_key = ''hashes'' then ci_leaf_body (length input) d
             else if first_key = ''level'' then ci_internal_body (length input) d
             else Inl (InvalidCbor ''unexpected or noncanonical checkpoint-index key''))
            (\<lambda>(node, d).
               and_then (decoder_finish d) (\<lambda>_.
               and_then (ci_validate node) (\<lambda>_. Inr node))))))"

section \<open>Type invariants\<close>

fun ci_node_ok :: "checkpoint_index_node \<Rightarrow> bool" where
  "ci_node_ok (IndexLeaf _ hashes) = list_all sha_ok hashes"
| "ci_node_ok (IndexInternal _ es) = list_all (\<lambda>e. reference_ok (cic_child e)) es"

section \<open>The codec of nodes\<close>

lemma ci_encode_ref_eq: "ci_encode_ref = encode_ref"
  by (simp add: ci_encode_ref_def encode_ref_def fun_eq_iff)

lemmas ci_decoders = ci_key_def ci_hash_def ci_reference_def ci_u32_value_def

interpretation c_child: cbor_codec encode_child decode_child "\<lambda>e. reference_ok (cic_child e)"
proof unfold_locales
  fix x :: checkpoint_index_child and pre r
  assume "reference_ok (cic_child x)" "length (pre @ encode_child x @ r) < usize_bound"
  then show "decode_child (at pre (encode_child x @ r)) = Inr (x, at (pre @ encode_child x) r)"
    by (simp add: decode_child_def encode_child_def ci_encode_ref_eq ci_decoders key_simps c_ref.fwd)
next
  fix pre s x d
  assume "decode_child (at pre s) = Inr (x, d)"
  then show "reference_ok (cic_child x) \<and> (\<exists>r. s = encode_child x @ r \<and> d = at (pre @ encode_child x) r)"
    by (auto simp: decode_child_def encode_child_def ci_encode_ref_eq ci_decoders result_simps
        split: if_splits dest!: key_dests c_ref.bwd)
qed

definition ci_version_bytes :: "string \<Rightarrow> byte list" where
  "ci_version_bytes ty = put_text ''version'' @ put_unsigned 1 @ put_text ''node_type'' @ put_text ty"

lemma ci_version_fwd:
  assumes "string_ok ty" "length (pre @ ci_version_bytes ty @ r) < usize_bound"
  shows "ci_version ty (at pre (ci_version_bytes ty @ r)) = Inr ((), at (pre @ ci_version_bytes ty) r)"
  using assms by (simp add: ci_version_def ci_version_bytes_def ci_decoders key_simps)

lemma ci_version_bwd:
  "ci_version ty (at pre s) = Inr (u, d) \<Longrightarrow>
     \<exists>r. s = ci_version_bytes ty @ r \<and> d = at (pre @ ci_version_bytes ty) r"
  by (auto simp: ci_version_def ci_version_bytes_def ci_decoders result_simps split: if_splits
      dest!: key_dests)

lemma checkpoint_index_bytes_split:
  "checkpoint_index_bytes (IndexLeaf first_page hashes) =
     map_len 4 @ put_text ''hashes'' @ array_len (length hashes)
     @ concat (map (\<lambda>h. put_bytes (sha_as_bytes h)) hashes)
     @ ci_version_bytes ''leaf'' @ put_text ''first_page'' @ put_unsigned first_page"
  "checkpoint_index_bytes (IndexInternal level entries) =
     map_len 4 @ put_text ''level'' @ put_unsigned (u64_from_u32 level)
     @ put_text ''entries'' @ array_len (length entries)
     @ concat (map encode_child entries) @ ci_version_bytes ''internal''"
  by (simp_all add: ci_version_bytes_def)

lemma ci_entries_fit:
  "length hs \<le> length (checkpoint_index_bytes (IndexLeaf p hs))"
  "length es \<le> length (checkpoint_index_bytes (IndexInternal l es))"
proof -
  have "length hs \<le> length (concat (map (\<lambda>h. put_bytes (sha_as_bytes h)) hs))"
    by (rule length_concat_ge) (simp add: put_bytes_def)
  then show "length hs \<le> length (checkpoint_index_bytes (IndexLeaf p hs))"
    by (simp only: checkpoint_index_bytes_split length_append trans_le_add1 trans_le_add2)
  have "length es \<le> length (concat (map encode_child es))"
    by (rule length_concat_ge) (simp add: encode_child_def map_len_def)
  then show "length es \<le> length (checkpoint_index_bytes (IndexInternal l es))"
    by (simp only: checkpoint_index_bytes_split length_append trans_le_add1 trans_le_add2)
qed

lemma ci_validate_count:
  "ci_validate (IndexLeaf p hs) = Inr () \<Longrightarrow> hs \<noteq> [] \<and> length hs \<le> checkpoint_index_capacity"
  "ci_validate (IndexInternal l es) = Inr () \<Longrightarrow> es \<noteq> [] \<and> length es \<le> checkpoint_index_capacity"
  by (auto split: if_splits)

lemma max_checkpoint_index_usize: "n \<le> max_checkpoint_index_bytes \<Longrightarrow> n < usize_bound"
  by (simp add: max_checkpoint_index_bytes_def usize_bound_def)

lemma ci_version_last:
  "string_ok ty \<Longrightarrow> length (pre @ ci_version_bytes ty) < usize_bound \<Longrightarrow>
     ci_version ty (at pre (ci_version_bytes ty)) = Inr ((), at (pre @ ci_version_bytes ty) [])"
  using ci_version_fwd [of ty pre "[]"] by simp

lemma decode_checkpoint_index_bytes:
  assumes "ci_node_ok n" "ci_validate n = Inr ()"
    "length (checkpoint_index_bytes n) \<le> max_checkpoint_index_bytes"
  shows "decode_checkpoint_index (checkpoint_index_bytes n) = Inr n"
proof (cases n)
  case (IndexLeaf p hs)
  have b: "length (checkpoint_index_bytes n) < usize_bound"
    using assms max_checkpoint_index_usize by simp
  have "length hs < usize_bound"
    using le_less_trans [OF ci_entries_fit(1) [of hs p]] b by (simp only: IndexLeaf)
  with assms b ci_entries_fit(1) [of hs p] ci_validate_count(1) [of p hs] show ?thesis
    by (simp add: IndexLeaf decode_checkpoint_index_def ci_leaf_body_def decoder_new_at ci_decoders
        key_simps c_hash.decode_n_fwd ci_version_fwd c_unsigned.fwd_last checkpoint_index_bytes_split
        del: ci_validate.simps checkpoint_index_bytes.simps)
next
  case (IndexInternal l es)
  have b: "length (checkpoint_index_bytes n) < usize_bound"
    using assms max_checkpoint_index_usize by simp
  have "length es < usize_bound"
    using le_less_trans [OF ci_entries_fit(2) [of es l]] b by (simp only: IndexInternal)
  with assms b ci_entries_fit(2) [of es l] ci_validate_count(2) [of l es] show ?thesis
    by (simp add: IndexInternal decode_checkpoint_index_def ci_internal_body_def decoder_new_at
        ci_decoders key_simps c_child.decode_n_fwd ci_version_last checkpoint_index_bytes_split
        del: ci_validate.simps checkpoint_index_bytes.simps)
qed

lemma ci_leaf_body_bwd:
  "ci_leaf_body k (at pre s) = Inr (n, d) \<Longrightarrow>
     ci_node_ok n \<and> (\<exists>r. map_len 4 @ put_text ''hashes'' @ s = checkpoint_index_bytes n @ r
       \<and> (\<exists>q. d = at q r))"
  by (auto simp: ci_leaf_body_def ci_decoders result_simps checkpoint_index_bytes_split
      split: if_splits dest!: key_dests c_hash.decode_n_bwd ci_version_bwd
      simp del: checkpoint_index_bytes.simps)

lemma ci_internal_body_bwd:
  "ci_internal_body k (at pre s) = Inr (n, d) \<Longrightarrow>
     ci_node_ok n \<and> (\<exists>r. map_len 4 @ put_text ''level'' @ s = checkpoint_index_bytes n @ r
       \<and> (\<exists>q. d = at q r))"
  by (auto simp: ci_internal_body_def ci_decoders result_simps checkpoint_index_bytes_split
      split: if_splits dest!: key_dests c_child.decode_n_bwd ci_version_bwd
      simp del: checkpoint_index_bytes.simps)

lemma decode_checkpoint_index_Inr:
  assumes "decode_checkpoint_index bs = Inr n"
  shows "ci_node_ok n \<and> ci_validate n = Inr () \<and> bs = checkpoint_index_bytes n
    \<and> length bs \<le> max_checkpoint_index_bytes"
proof -
  from assms obtain d1 key d2 d3
    where len: "length bs \<le> max_checkpoint_index_bytes"
      and f: "decoder_length 5 (at [] bs) = Inr (4, d1)"
      and k: "decoder_text d1 = Inr (key, d2)"
      and body: "key = ''hashes'' \<and> ci_leaf_body (length bs) d2 = Inr (n, d3)
          \<or> key = ''level'' \<and> ci_internal_body (length bs) d2 = Inr (n, d3)"
      and fin: "decoder_finish d3 = Inr ()" "ci_validate n = Inr ()"
    by (auto simp: decode_checkpoint_index_def decoder_new_at result_simps not_less
        simp del: ci_validate.simps split: if_split_asm)
  from c_map.bwd [OF f] obtain r1 where r1: "bs = map_len 4 @ r1" "d1 = at (map_len 4) r1" by auto
  from c_text.bwd [OF k [unfolded r1]] obtain r2
    where r2: "r1 = put_text key @ r2" "d2 = at (map_len 4 @ put_text key) r2" by auto
  from body have "ci_node_ok n \<and> (\<exists>r. bs = checkpoint_index_bytes n @ r \<and> (\<exists>q. d3 = at q r))"
    unfolding r1 r2 by (auto dest!: ci_leaf_body_bwd ci_internal_body_bwd)
  with fin len show ?thesis by (auto split: if_splits)
qed

lemma encode_checkpoint_index_Inr:
  "encode_checkpoint_index n = Inr bs \<longleftrightarrow>
     ci_validate n = Inr () \<and> bs = checkpoint_index_bytes n
     \<and> length bs \<le> max_checkpoint_index_bytes"
  by (auto simp: encode_checkpoint_index_def result_simps Let_def)

section \<open>Intervals\<close>

text \<open>The children of a valid internal node follow each other without gap, from \<open>p\<close> on.\<close>

fun contiguous :: "nat \<Rightarrow> checkpoint_index_child list \<Rightarrow> bool" where
  "contiguous p [] = True"
| "contiguous p (e # es) =
     (unat (cic_first_page e) = p \<and> 0 < unat (cic_page_count e)
      \<and> contiguous (p + unat (cic_page_count e)) es)"

definition total_pages :: "checkpoint_index_child list \<Rightarrow> nat" where
  "total_pages es = (\<Sum>e\<leftarrow>es. unat (cic_page_count e))"

lemma child_step_Inr:
  assumes "child_step x e = Inr z"
  obtains q where "checked_add (cic_first_page e) (cic_page_count e) = Some q" "z = Some q"
    "cic_page_count e \<noteq> 0" "\<And>page. x = Some page \<Longrightarrow> page = cic_first_page e"
  using assms by (auto simp: child_step_def result_simps split: if_splits option.splits)

lemma child_steps:
  "try_fold child_step x es = Inr y \<Longrightarrow> (case x of None \<Rightarrow> es \<noteq> [] \<and> p = unat (cic_first_page (hd es))
       | Some q \<Rightarrow> p = unat q) \<Longrightarrow>
   contiguous p es \<and> p + total_pages es < 2 ^ 64"
proof (induction es arbitrary: x p)
  case Nil
  then show ?case by (auto simp: total_pages_def split: option.splits)
next
  case (Cons e es)
  from Cons.prems(1) obtain z where "child_step x e = Inr z" and z: "try_fold child_step z es = Inr y"
    by (auto simp: result_simps)
  then obtain q where q: "checked_add (cic_first_page e) (cic_page_count e) = Some q" "z = Some q"
    and ok: "cic_page_count e \<noteq> 0" "\<And>page. x = Some page \<Longrightarrow> page = cic_first_page e"
    by (blast elim: child_step_Inr)
  have rest: "try_fold child_step (Some q) es = Inr y" using z q by simp
  have p: "p = unat (cic_first_page e)" using Cons.prems(2) ok by (auto split: option.splits)
  have "unat q = p + unat (cic_page_count e)" using unat_checked_add [OF q(1)] p by simp
  with Cons.IH [OF rest, of "p + unat (cic_page_count e)"] p ok show ?case
    by (simp add: total_pages_def unat_gt_0 add.assoc)
qed

lemma sum_list_unat:
  "(\<Sum>w\<leftarrow>ws. unat w) < 2 ^ LENGTH('a) \<Longrightarrow> unat (sum_list (ws :: 'a::len word list)) = (\<Sum>w\<leftarrow>ws. unat w)"
  by (induction ws) (simp_all add: unat_word_ariths)

lemma valid_internal_interval:
  assumes "ci_validate (IndexInternal l es) = Inr ()"
  shows "contiguous (unat (ci_first_page (IndexInternal l es))) es"
    and "unat (ci_page_count (IndexInternal l es)) = total_pages es"
    and "unat (ci_first_page (IndexInternal l es)) + total_pages es < 2 ^ 64"
proof -
  from assms obtain y where y: "try_fold child_step None es = Inr y" and ne: "es \<noteq> []"
    by (auto simp: result_simps split: if_splits)
  have c: "contiguous (unat (cic_first_page (hd es))) es
      \<and> unat (cic_first_page (hd es)) + total_pages es < 2 ^ 64"
    by (rule child_steps [OF y]) (simp add: ne)
  moreover have f: "ci_first_page (IndexInternal l es) = cic_first_page (hd es)"
    using ne by (cases es) auto
  ultimately show "contiguous (unat (ci_first_page (IndexInternal l es))) es"
    "unat (ci_first_page (IndexInternal l es)) + total_pages es < 2 ^ 64" by simp_all
  have "(\<Sum>w\<leftarrow>map cic_page_count es. unat w) < 2 ^ 64"
    using c by (simp add: total_pages_def comp_def)
  then show "unat (ci_page_count (IndexInternal l es)) = total_pages es"
    by (simp add: total_pages_def sum_list_unat comp_def del: map_map) (simp add: comp_def)
qed

section \<open>Properties\<close>

text \<open>
  C25: checkpoint-index nodes have one encoding: decoding a byte string gives a node exactly
  when encoding the node gives the byte string.
\<close>

theorem checkpoint_index_codec:
  "decode_checkpoint_index bs = Inr n \<longleftrightarrow> ci_node_ok n \<and> encode_checkpoint_index n = Inr bs"
  using decode_checkpoint_index_Inr [of bs n] decode_checkpoint_index_bytes [of n]
  by (auto simp: encode_checkpoint_index_Inr)

text \<open>
  A decoded internal node covers one interval of pages. Each child starts where the one
  before it ends, no child is empty, and the number of pages the node reports is the exact sum:
  the wrapping addition of \<open>page_count\<close> cannot wrap.
\<close>

theorem decoded_index_interval:
  assumes "decode_checkpoint_index bs = Inr (IndexInternal l es)"
  shows "contiguous (unat (ci_first_page (IndexInternal l es))) es
    \<and> unat (ci_page_count (IndexInternal l es)) = (\<Sum>e\<leftarrow>es. unat (cic_page_count e))
    \<and> unat (ci_first_page (IndexInternal l es)) + (\<Sum>e\<leftarrow>es. unat (cic_page_count e)) < 2 ^ 64"
  using decode_checkpoint_index_Inr [OF assms] valid_internal_interval [of l es]
  unfolding total_pages_def by blast

definition sample_index_children :: "checkpoint_index_child list" where
  "sample_index_children =
     [\<lparr>cic_first_page = 1, cic_page_count = 128, cic_child = sample_ref\<rparr>,
      \<lparr>cic_first_page = 129, cic_page_count = 5, cic_child = sample_ref\<rparr>]"

lemma decode_sample_index:
  "decode_checkpoint_index (checkpoint_index_bytes (IndexInternal 1 sample_index_children)) =
     Inr (IndexInternal 1 sample_index_children)"
proof (rule decode_checkpoint_index_bytes)
  show "ci_node_ok (IndexInternal 1 sample_index_children)"
    by (simp add: sample_index_children_def reference_ok_sample)
  show "ci_validate (IndexInternal 1 sample_index_children) = Inr ()"
    by (simp add: sample_index_children_def child_step_def sample_ref_def checked_add_def
        u64_of_usize_def max_checkpoint_index_bytes_def checkpoint_index_capacity_def word_less_nat_alt)
  have "length (checkpoint_index_bytes (IndexInternal 1 sample_index_children)) \<le> 1024"
    by code_simp
  then show "length (checkpoint_index_bytes (IndexInternal 1 sample_index_children)) \<le> max_checkpoint_index_bytes"
    by (simp add: max_checkpoint_index_bytes_def)
qed

theorem decoded_index_interval_witness:
  "contiguous 1 sample_index_children"
  using decoded_index_interval [OF decode_sample_index]
  by (simp add: sample_index_children_def)

end
