(* ===== verification/Objects.thy ===== *)
theory Objects
  imports Canonical_Json Schema_Types Checkpoint_Index
begin

text \<open>
  The protocol objects of \<^verbatim>\<open>otmp-protocol/src/objects.rs\<close>: the head, the semantic commit with its
  intents, requirements and operations, and the metadata generation with its checkpoint, each with its
  validation, and the narrower runtime profile of the local implementation.

  A \<^verbatim>\<open>BTreeSet\<close> that is only tested and extended is a set. Where the code says \<^verbatim>\<open>unreachable!()\<close> or
  indexes a map, the result can be \<open>Panicked\<close>; validation is shown never to give it.
\<close>

section \<open>Failures\<close>

datatype 'e fault = Fail 'e | Panicked

type_synonym 'a checked = "(protocol_error fault, 'a) result"
type_synonym members = "(string, canonical_value) btree"

definition lift :: "('e, 'a) result \<Rightarrow> ('e fault, 'a) result" where
  "lift r = map_err Fail r"

definition reject :: "string \<Rightarrow> 'a checked" where
  "reject m = Inl (Fail (InvalidObject m))"

definition check :: "bool \<Rightarrow> string \<Rightarrow> unit checked" where
  "check bad m = (if bad then reject m else Inr ())"

text \<open>
  What other crates do for the validators: the parser and the canonical encoder, the generated deserializers of
  \<^verbatim>\<open>Schema\<close> and of \<^verbatim>\<open>String\<close>, and the debug form of a string, which only error messages contain.
\<close>

record wire =
  w_serde :: serde
  w_ext :: externals
  w_schema :: "byte list \<Rightarrow> (string, schema) result"
  w_string :: "byte list \<Rightarrow> (string, string) result"
  w_debug :: "string \<Rightarrow> string"

section \<open>Data\<close>

definition PROTOCOL :: string where "PROTOCOL = ''otmp''"
definition PROTOCOL_VERSION :: string where "PROTOCOL_VERSION = ''0.0.2-alpha''"
definition COMMIT_MEDIA_TYPE :: string where "COMMIT_MEDIA_TYPE = ''application/vnd.otmp.commit+json''"
definition GENERATION_MEDIA_TYPE :: string where "GENERATION_MEDIA_TYPE = ''application/vnd.otmp.generation+json''"

record object_reference =
  or_uri :: relative_uri
  or_sha256 :: sha256
  or_length :: "u64 option"
  or_media_type :: "string option"

record head =
  h_protocol :: string
  h_protocol_version :: string
  h_table_id :: id
  h_table_version :: u64
  h_root_revision :: u64
  h_semantic_state_sha256 :: sha256
  h_semantic_commit :: object_reference
  h_metadata_generation :: object_reference
  h_required_reader_features :: feature_set
  h_required_writer_features :: feature_set

record intent_record =
  ir_key :: string
  ir_intent_sha256 :: sha256
  ir_operation_ids :: "string list"
  ir_result :: canonical_value

record semantic_commit =
  sc_kind :: string
  sc_format_version :: u32
  sc_table_id :: id
  sc_table_version :: u64
  sc_parent_table_version :: "u64 option"
  sc_commit_id :: id
  sc_parent_commit :: "object_reference option"
  sc_created_at_ms :: i64
  sc_intents :: "intent_record list"
  sc_requirements :: "canonical_value list"
  sc_operations :: "canonical_value list"
  sc_required_reader_features_after_commit :: feature_set
  sc_required_writer_features_after_commit :: feature_set
  sc_previous_semantic_state_sha256 :: "sha256 option"
  sc_semantic_state_sha256 :: sha256
  sc_metadata :: canonical_value

record checkpoint =
  cp_table_version :: u64
  cp_uri :: relative_uri
  cp_sha256 :: sha256
  cp_length :: u64

record checkpoint_page_index =
  cpi_checkpoint_sha256 :: sha256
  cpi_checkpoint_length :: u64
  cpi_page_size :: u32
  cpi_page_count :: u64
  cpi_root :: page_map_root

record metadata_image =
  mi_codec :: string
  mi_page_size :: u32
  mi_page_count :: u64
  mi_checkpoint :: checkpoint
  mi_page_map :: "page_map_root option"
  mi_checkpoint_page_index :: "checkpoint_page_index option"
  mi_image_root_sha256 :: sha256

record generation =
  g_kind :: string
  g_format_version :: u32
  g_table_id :: id
  g_table_version :: u64
  g_generation_id :: id
  g_created_at_ms :: i64
  g_semantic_state_sha256 :: sha256
  g_semantic_commit :: object_reference
  g_physical_parent :: "object_reference option"
  g_metadata_image :: metadata_image
  g_scan_projection :: "canonical_value option"
  g_metadata :: members

section \<open>The head\<close>

definition head_validate :: "head \<Rightarrow> string list \<Rightarrow> (protocol_error, unit) result" where
  "head_validate h supported =
     (if h_protocol h \<noteq> PROTOCOL \<or> h_protocol_version h \<noteq> PROTOCOL_VERSION
      then Inl (InvalidObject ''unsupported protocol or protocol version'')
      else and_then (require_supported (h_required_reader_features h) supported) (\<lambda>_.
        if or_media_type (h_semantic_commit h) \<noteq> Some COMMIT_MEDIA_TYPE
           \<or> or_media_type (h_metadata_generation h) \<noteq> Some GENERATION_MEDIA_TYPE
        then Inl (InvalidObject ''incorrect object media type'') else Inr ()))"

section \<open>Fields of an object\<close>

definition require_fields :: "members \<Rightarrow> string list \<Rightarrow> string list \<Rightarrow> string \<Rightarrow> unit checked" where
  "require_fields object required optional ctx =
     check (list_ex (\<lambda>f. bt_get object f = None) required
            \<or> list_ex (\<lambda>(f, _). f \<notin> set required \<and> f \<notin> set optional) object)
       (ctx @ '' has missing or unknown fields'')"

definition require_exact_fields :: "members \<Rightarrow> string list \<Rightarrow> string \<Rightarrow> unit checked" where
  "require_exact_fields object required ctx = require_fields object required [] ctx"

definition require_nonempty_string :: "members \<Rightarrow> string \<Rightarrow> string \<Rightarrow> string checked" where
  "require_nonempty_string object f ctx =
     (case bt_get object f of
        Some (CString value) \<Rightarrow> if value \<noteq> [] then Inr value else reject (ctx @ '' '' @ f @ '' must be a nonempty string'')
      | _ \<Rightarrow> reject (ctx @ '' '' @ f @ '' must be a nonempty string''))"

definition require_decimal_u64 :: "members \<Rightarrow> string \<Rightarrow> string \<Rightarrow> u64 checked" where
  "require_decimal_u64 object f ctx =
     and_then (require_nonempty_string object f ctx) (\<lambda>value.
     and_then (ok_or (Fail (InvalidIntegerString value)) (parse_u64 value)) (\<lambda>parsed.
       if show_nat (unat parsed) \<noteq> value then Inl (Fail (InvalidIntegerString value)) else Inr parsed))"

definition require_sqlite_i64 :: "members \<Rightarrow> string \<Rightarrow> string \<Rightarrow> u64 checked" where
  "require_sqlite_i64 object f ctx =
     and_then (require_decimal_u64 object f ctx) (\<lambda>value.
       if value > 0x7FFFFFFFFFFFFFFF
       then reject (ctx @ '' '' @ f @ '' exceeds the local/full-image profile SQLite INTEGER range'')
       else Inr value)"

definition require_u32 :: "members \<Rightarrow> string \<Rightarrow> string \<Rightarrow> u32 checked" where
  "require_u32 object f ctx =
     and_then (require_decimal_u64 object f ctx) (\<lambda>value.
       case u32_try_from value of
         None \<Rightarrow> reject (ctx @ '' '' @ f @ '' is outside the u32 range'')
       | Some v \<Rightarrow> Inr v)"

definition require_positive_u32 :: "members \<Rightarrow> string \<Rightarrow> string \<Rightarrow> u32 checked" where
  "require_positive_u32 object f ctx =
     and_then (require_u32 object f ctx) (\<lambda>value.
       if value = 0 then reject (ctx @ '' '' @ f @ '' must be positive'') else Inr value)"

definition parse_id :: "externals \<Rightarrow> members \<Rightarrow> string \<Rightarrow> string \<Rightarrow> id checked" where
  "parse_id x object f ctx = and_then (require_nonempty_string object f ctx) (\<lambda>s. lift (id_from_str x s))"

definition is_object :: "canonical_value option \<Rightarrow> bool" where
  "is_object v = (case v of Some (CObject _) \<Rightarrow> True | _ \<Rightarrow> False)"

text \<open>Indexing a map panics when the key is absent.\<close>

definition index :: "members \<Rightarrow> string \<Rightarrow> canonical_value checked" where
  "index object f = ok_or Panicked (bt_get object f)"

section \<open>Files and snapshots\<close>

definition validate_added_file :: "externals \<Rightarrow> members \<Rightarrow> id checked" where
  "validate_added_file x file =
     and_then (parse_id x file ''file_id'' ''commit_snapshot added file'') (\<lambda>file_id.
     and_then (require_nonempty_string file ''uri'' ''commit_snapshot added file'') (\<lambda>_.
       if bt_get file ''metadata'' \<noteq> None \<and> \<not> is_object (bt_get file ''metadata'')
       then reject ''commit_snapshot added file metadata must be an object''
       else Inr file_id))"

definition added_step :: "externals \<Rightarrow> id set \<Rightarrow> canonical_value \<Rightarrow> id set checked" where
  "added_step x added_file_ids v =
     (case v of
        CObject file \<Rightarrow>
          and_then (validate_added_file x file) (\<lambda>file_id.
            if file_id \<in> added_file_ids then reject ''commit_snapshot added file IDs must be unique''
            else Inr (insert file_id added_file_ids))
      | _ \<Rightarrow> reject ''commit_snapshot added_files entries must be objects'')"

definition removed_step :: "externals \<Rightarrow> id set \<Rightarrow> id set \<Rightarrow> canonical_value \<Rightarrow> id set checked" where
  "removed_step x added_file_ids removed v =
     (case v of
        CString s \<Rightarrow>
          and_then (lift (id_from_str x s)) (\<lambda>file_id.
            if file_id \<in> removed \<or> file_id \<in> added_file_ids
            then reject ''commit_snapshot file changes must be unique and disjoint''
            else Inr (insert file_id removed))
      | _ \<Rightarrow> reject ''commit_snapshot removed_file_ids entries must be IDs'')"

definition validate_snapshot_file_changes :: "externals \<Rightarrow> members \<Rightarrow> unit checked" where
  "validate_snapshot_file_changes x operation =
     (case bt_get operation ''added_files'' of
        Some (CArray added_files) \<Rightarrow>
          and_then (try_fold (added_step x) {} added_files) (\<lambda>added_file_ids.
            case bt_get operation ''removed_file_ids'' of
              Some (CArray removed_file_ids) \<Rightarrow>
                and_then (try_fold (removed_step x added_file_ids) {} removed_file_ids) (\<lambda>_. Inr ())
            | _ \<Rightarrow> reject ''commit_snapshot removed_file_ids must be an array'')
      | _ \<Rightarrow> reject ''commit_snapshot added_files must be an array'')"

definition snapshot_labels :: "string list" where
  "snapshot_labels =
     [''append'', ''overwrite'', ''rewrite'', ''delete'', ''update'', ''merge'', ''optimize'', ''metadata'']"

definition snapshot_parent :: "externals \<Rightarrow> members \<Rightarrow> unit checked" where
  "snapshot_parent x snapshot =
     (case bt_get snapshot ''parent_snapshot_id'' of
        Some CNull \<Rightarrow> Inr ()
      | Some (CString value) \<Rightarrow> and_then (lift (id_from_str x value)) (\<lambda>_. Inr ())
      | _ \<Rightarrow> reject ''commit_snapshot parent_snapshot_id must be null or an ID'')"

definition validate_snapshot :: "externals \<Rightarrow> members \<Rightarrow> id checked" where
  "validate_snapshot x snapshot =
     (let ctx = ''commit_snapshot snapshot'' in
      and_then (require_exact_fields snapshot
        [''snapshot_id'', ''parent_snapshot_id'', ''sequence_number'', ''schema_id'', ''partition_spec_id'',
         ''sort_order_id'', ''operation'', ''summary'', ''metadata''] ctx) (\<lambda>_.
      and_then (parse_id x snapshot ''snapshot_id'' ctx) (\<lambda>snapshot_id.
      and_then (snapshot_parent x snapshot) (\<lambda>_.
      and_then (require_decimal_u64 snapshot ''sequence_number'' ctx) (\<lambda>sequence_number.
      and_then (check (sequence_number = 0) ''commit_snapshot sequence_number must be positive'') (\<lambda>_.
      and_then (require_positive_u32 snapshot ''schema_id'' ctx) (\<lambda>_.
      and_then (require_u32 snapshot ''partition_spec_id'' ctx) (\<lambda>_.
      and_then (require_u32 snapshot ''sort_order_id'' ctx) (\<lambda>_.
      and_then (require_nonempty_string snapshot ''operation'' ctx) (\<lambda>operation_label.
      and_then (check (operation_label \<notin> set snapshot_labels)
        ''commit_snapshot has an unknown snapshot operation label'') (\<lambda>_.
      and_then (check (\<not> is_object (bt_get snapshot ''summary''))
        ''commit_snapshot snapshot summary must be an object'') (\<lambda>_.
      and_then (check (\<not> is_object (bt_get snapshot ''metadata''))
        ''commit_snapshot snapshot metadata must be an object'') (\<lambda>_.
        Inr snapshot_id)))))))))))))"

definition validate_commit_snapshot :: "externals \<Rightarrow> members \<Rightarrow> id checked" where
  "validate_commit_snapshot x operation =
     (let ctx = ''commit_snapshot'' in
      and_then (require_exact_fields operation
        [''operation_id'', ''type'', ''target_ref'', ''snapshot'', ''added_files'', ''removed_file_ids'',
         ''scan_projection'', ''rebase_mode''] ctx) (\<lambda>_.
      and_then (require_nonempty_string operation ''target_ref'' ctx) (\<lambda>_.
      and_then (require_nonempty_string operation ''rebase_mode'' ctx) (\<lambda>_.
      case bt_get operation ''snapshot'' of
        Some (CObject snapshot) \<Rightarrow>
          and_then (validate_snapshot x snapshot) (\<lambda>snapshot_id.
          and_then (validate_snapshot_file_changes x operation) (\<lambda>_.
          and_then (check (bt_get operation ''scan_projection'' \<noteq> Some CNull
                           \<and> \<not> is_object (bt_get operation ''scan_projection''))
            ''commit_snapshot scan_projection must be null or an object'') (\<lambda>_.
            Inr snapshot_id)))
      | _ \<Rightarrow> reject ''commit_snapshot snapshot must be an object''))))"

section \<open>Metadata operations\<close>

text \<open>\<^verbatim>\<open>from_slice(&to_vec(value)?)?\<close> and its canonical form, at the type \<^verbatim>\<open>Schema\<close>.\<close>

definition schema_from_value :: "wire \<Rightarrow> canonical_value \<Rightarrow> schema checked" where
  "schema_from_value w v =
     lift (and_then (to_vec (w_serde w) (w_ext w) v) (\<lambda>bs. from_slice (w_serde w) (w_schema w) bs))"

definition schema_from_value_canonical :: "wire \<Rightarrow> canonical_value \<Rightarrow> schema checked" where
  "schema_from_value_canonical w v =
     lift (and_then (to_vec (w_serde w) (w_ext w) v) (\<lambda>bs.
       from_slice_canonical (w_serde w) (w_ext w) (w_schema w) bs))"

definition validate_initialize_table :: "wire \<Rightarrow> members \<Rightarrow> id \<Rightarrow> unit checked" where
  "validate_initialize_table w operation table_id =
     (let ctx = ''initialize_table'' in
      and_then (require_exact_fields operation
        [''operation_id'', ''type'', ''table_id'', ''schema'', ''partition_spec_id'', ''sort_order_id'',
         ''target_ref''] ctx) (\<lambda>_.
      and_then (parse_id (w_ext w) operation ''table_id'' ctx) (\<lambda>i.
      and_then (check (i \<noteq> table_id) ''initialize_table table ID differs from the semantic commit'') (\<lambda>_.
      and_then (ok_or (Fail (InvalidObject ''initialize_table has no schema'')) (bt_get operation ''schema'')) (\<lambda>v.
      and_then (schema_from_value w v) (\<lambda>s.
      and_then (lift (schema_validate s)) (\<lambda>_.
      let bad = reject ''initialize_table must create partition spec 0, sort order 0, and main'' in
      and_then (require_decimal_u64 operation ''partition_spec_id'' ctx) (\<lambda>p.
        if p \<noteq> 0 then bad
        else and_then (require_decimal_u64 operation ''sort_order_id'' ctx) (\<lambda>q.
          if q \<noteq> 0 then bad
          else and_then (require_nonempty_string operation ''target_ref'' ctx) (\<lambda>r.
            if r \<noteq> ''main'' then bad else Inr ()))))))))))"

definition metadata_keys :: "string \<Rightarrow> string list option" where
  "metadata_keys kind =
     (if kind = ''set_properties'' then Some [''type'', ''operation_id'', ''updates'', ''removals'']
      else if kind = ''create_ref'' then Some [''type'', ''operation_id'', ''ref'', ''ref_type'', ''snapshot_id'']
      else if kind = ''replace_ref'' then Some [''type'', ''operation_id'', ''ref'', ''snapshot_id'']
      else if kind = ''drop_ref'' then Some [''type'', ''operation_id'', ''ref'']
      else if kind = ''add_schema'' then Some [''type'', ''operation_id'', ''schema'']
      else if kind = ''set_current_schema'' then Some [''type'', ''operation_id'', ''schema_id'']
      else None)"

definition string_array :: "canonical_value option \<Rightarrow> bool" where
  "string_array v =
     (case v of
        Some (CArray vs) \<Rightarrow> list_all (\<lambda>v. case v of CString _ \<Rightarrow> True | _ \<Rightarrow> False) vs
      | _ \<Rightarrow> False)"

definition validate_ref_operation :: "externals \<Rightarrow> members \<Rightarrow> string \<Rightarrow> unit checked" where
  "validate_ref_operation x object kind =
     and_then (require_nonempty_string object ''ref'' kind) (\<lambda>_.
     and_then (if kind = ''create_ref''
               then and_then (require_nonempty_string object ''ref_type'' kind) (\<lambda>t.
                      check (t \<noteq> ''branch'' \<and> t \<noteq> ''tag'') ''invalid ref type'')
               else Inr ()) (\<lambda>_.
     and_then (if kind \<noteq> ''drop_ref'' \<and> bt_get object ''snapshot_id'' \<noteq> Some CNull
               then and_then (parse_id x object ''snapshot_id'' kind) (\<lambda>_. Inr ())
               else Inr ()) (\<lambda>_.
       check (kind = ''replace_ref'' \<and> bt_get object ''snapshot_id'' = Some CNull)
         ''replacement requires snapshot'')))"

definition validate_metadata_operation :: "wire \<Rightarrow> members \<Rightarrow> string \<Rightarrow> unit checked" where
  "validate_metadata_operation w object kind =
     (case metadata_keys kind of
        None \<Rightarrow> Inl Panicked
      | Some keys \<Rightarrow>
          and_then (require_exact_fields object keys kind) (\<lambda>_.
            if kind = ''set_properties''
            then check (\<not> is_object (bt_get object ''updates'') \<or> \<not> string_array (bt_get object ''removals''))
                   ''invalid properties shape''
            else if kind = ''create_ref'' \<or> kind = ''replace_ref'' \<or> kind = ''drop_ref''
            then validate_ref_operation (w_ext w) object kind
            else if kind = ''add_schema''
            then and_then (index object ''schema'') (\<lambda>v.
                 and_then (schema_from_value_canonical w v) (\<lambda>s. lift (schema_validate s)))
            else if kind = ''set_current_schema''
            then and_then (require_u32 object ''schema_id'' kind) (\<lambda>_. Inr ())
            else Inl Panicked))"

section \<open>Requirements\<close>

text \<open>\<^verbatim>\<open>from_slice_canonical::<JsonU64>\<close>.\<close>

definition json_u64_from_json :: "wire \<Rightarrow> byte list \<Rightarrow> (string, u64) result" where
  "json_u64_from_json w bs =
     and_then (w_string w bs) (\<lambda>s.
     and_then (map_err (\<lambda>e. sj_render (w_serde w) (protocol_error_message e)) (parse_decimal s)) (\<lambda>v.
     and_then (sj_end (w_serde w) bs) (\<lambda>_. Inr v)))"

definition field_id_step :: "wire \<Rightarrow> u64 set \<Rightarrow> canonical_value \<Rightarrow> u64 set checked" where
  "field_id_step w seen v =
     and_then (lift (and_then (to_vec (w_serde w) (w_ext w) v) (\<lambda>bs.
       from_slice_canonical (w_serde w) (w_ext w) (json_u64_from_json w) bs))) (\<lambda>n.
       if n = 0 \<or> n > 0xFFFFFFFF \<or> n \<in> seen then reject ''invalid field IDs'' else Inr (insert n seen))"

definition requirement_keys :: "string \<Rightarrow> string list option" where
  "requirement_keys kind =
     (if kind = ''property_is'' then Some [''type'', ''key'', ''value'']
      else if kind = ''ref_absent'' then Some [''type'', ''ref'']
      else if kind = ''ref_exists'' then Some [''type'', ''ref'', ''ref_type'']
      else if kind = ''ref_snapshot_is'' then Some [''type'', ''ref'', ''snapshot_id'']
      else if kind = ''snapshot_exists'' then Some [''type'', ''snapshot_id'']
      else if kind = ''current_schema_is'' \<or> kind = ''schema_id_absent'' then Some [''type'', ''schema_id'']
      else if kind = ''field_ids_absent'' then Some [''type'', ''field_ids'']
      else if kind = ''default_partition_spec_is'' then Some [''type'', ''partition_spec_id'']
      else if kind = ''default_sort_order_is'' then Some [''type'', ''sort_order_id'']
      else if kind = ''table_version_is'' then Some [''type'', ''table_version'']
      else if kind = ''semantic_state_is'' then Some [''type'', ''sha256'']
      else None)"

definition requirement_key :: "wire \<Rightarrow> members \<Rightarrow> string \<Rightarrow> string \<Rightarrow> unit checked" where
  "requirement_key w object kind key =
     (let ctx = ''requirement'' in
      if key = ''ref'' \<or> key = ''key'' then and_then (require_nonempty_string object key ctx) (\<lambda>_. Inr ())
      else if key = ''ref_type''
      then and_then (require_nonempty_string object key ctx) (\<lambda>t.
             check (t \<noteq> ''branch'' \<and> t \<noteq> ''tag'') ''invalid ref type'')
      else if key = ''snapshot_id'' \<and> (kind = ''snapshot_exists'' \<or> bt_get object key \<noteq> Some CNull)
      then and_then (parse_id (w_ext w) object key ctx) (\<lambda>_. Inr ())
      else if key = ''schema_id'' \<or> key = ''partition_spec_id'' \<or> key = ''sort_order_id''
      then and_then (require_u32 object key ctx) (\<lambda>_. Inr ())
      else if key = ''table_version'' then and_then (require_decimal_u64 object key ctx) (\<lambda>_. Inr ())
      else if key = ''field_ids''
      then and_then (index object key) (\<lambda>v.
             case v of
               CArray ids \<Rightarrow> and_then (try_fold (field_id_step w) {} ids) (\<lambda>_. Inr ())
             | _ \<Rightarrow> reject ''field IDs must be array'')
      else Inr ())"

definition validate_requirement :: "wire \<Rightarrow> canonical_value \<Rightarrow> unit checked" where
  "validate_requirement w value =
     (case value of
        CObject object \<Rightarrow>
          and_then (require_nonempty_string object ''type'' ''requirement'') (\<lambda>kind.
            case requirement_keys kind of
              None \<Rightarrow> if CHR ''.'' \<in> set kind then Inr () else reject ''unknown requirement''
            | Some keys \<Rightarrow>
                and_then (require_exact_fields object keys ''requirement'') (\<lambda>_.
                  try_fold (\<lambda>_ key. requirement_key w object kind key) () keys))
      | _ \<Rightarrow> reject ''requirement must be an object'')"

section \<open>Semantic commits\<close>

definition metadata_kinds :: "string list" where
  "metadata_kinds =
     [''set_properties'', ''create_ref'', ''replace_ref'', ''drop_ref'', ''add_schema'', ''set_current_schema'']"

definition other_kinds :: "string list" where
  "other_kinds =
     [''upgrade_features'', ''add_partition_spec'', ''set_default_partition_spec'', ''add_sort_order'',
      ''set_default_sort_order'']"

definition operation_type_step :: "wire \<Rightarrow> bool \<Rightarrow> id \<Rightarrow> id set \<Rightarrow> members \<Rightarrow> string \<Rightarrow> id set checked" where
  "operation_type_step w genesis table_id snapshots object operation_type =
     (if operation_type = ''initialize_table''
      then if genesis then and_then (validate_initialize_table w object table_id) (\<lambda>_. Inr snapshots)
           else reject ''initialize_table is only valid at genesis''
      else if operation_type = ''commit_snapshot''
      then and_then (validate_commit_snapshot (w_ext w) object) (\<lambda>snapshot_id.
             if snapshot_id \<in> snapshots then reject ''commit_snapshot snapshot IDs must be unique''
             else Inr (insert snapshot_id snapshots))
      else if operation_type \<in> set metadata_kinds
      then and_then (validate_metadata_operation w object operation_type) (\<lambda>_. Inr snapshots)
      else if operation_type \<in> set other_kinds \<or> CHR ''.'' \<in> set operation_type then Inr snapshots
      else reject (''unsupported semantic operation type '' @ w_debug w operation_type))"

definition operation_step :: "wire \<Rightarrow> bool \<Rightarrow> id \<Rightarrow> string set \<times> id set \<Rightarrow> canonical_value
    \<Rightarrow> (string set \<times> id set) checked" where
  "operation_step w genesis table_id s operation =
     (case s of (operation_ids, snapshots) \<Rightarrow>
      case operation of
        CObject object \<Rightarrow>
          (case bt_get object ''operation_id'' of
             Some (CString operation_id) \<Rightarrow>
               if operation_id = [] \<or> operation_id \<in> operation_ids
               then reject ''semantic operation IDs must be nonempty and unique''
               else (case bt_get object ''type'' of
                       Some (CString operation_type) \<Rightarrow>
                         and_then (operation_type_step w genesis table_id snapshots object operation_type)
                           (\<lambda>snapshots. Inr (insert operation_id operation_ids, snapshots))
                     | _ \<Rightarrow> reject ''semantic operation has no string type'')
           | _ \<Rightarrow> reject ''semantic operation has no operation_id'')
      | _ \<Rightarrow> reject ''semantic operation must be an object'')"

definition validate_operations :: "wire \<Rightarrow> canonical_value list \<Rightarrow> bool \<Rightarrow> id \<Rightarrow> string set checked" where
  "validate_operations w operations genesis table_id =
     and_then (try_fold (operation_step w genesis table_id) ({}, {}) operations) (\<lambda>(operation_ids, _). Inr operation_ids)"

definition reference_step :: "string set \<Rightarrow> string set \<Rightarrow> string \<Rightarrow> string set checked" where
  "reference_step operation_ids referenced operation_id =
     (if operation_id \<notin> operation_ids then reject ''intent references an unknown operation''
      else Inr (insert operation_id referenced))"

definition intent_step :: "string set \<Rightarrow> string set \<Rightarrow> intent_record \<Rightarrow> string set checked" where
  "intent_step operation_ids referenced intent =
     (if ir_key intent = [] \<or> ir_operation_ids intent = []
      then reject ''intent key and operation IDs must be nonempty''
      else try_fold (reference_step operation_ids) referenced (ir_operation_ids intent))"

definition is_initialize :: "canonical_value list \<Rightarrow> bool" where
  "is_initialize operations =
     (case operations of
        [CObject object] \<Rightarrow> bt_get object ''type'' = Some (CString ''initialize_table'')
      | _ \<Rightarrow> False)"

definition parent_shape :: "semantic_commit \<Rightarrow> unit checked" where
  "parent_shape c =
     (let genesis = (sc_table_version c = 0) in
      and_then (check (genesis \<noteq> (sc_parent_table_version c = None \<and> sc_parent_commit c = None
                                   \<and> sc_previous_semantic_state_sha256 c = None))
        ''invalid semantic parent shape'') (\<lambda>_.
      and_then (check (\<not> genesis \<and>
          Option.bind (sc_parent_table_version c) (\<lambda>v. checked_add v 1) \<noteq> Some (sc_table_version c))
        ''nonconsecutive table version'') (\<lambda>_.
        check (case sc_parent_commit c of None \<Rightarrow> False | Some p \<Rightarrow> or_media_type p \<noteq> Some COMMIT_MEDIA_TYPE)
          ''incorrect parent commit media type'')))"

definition commit_validate :: "wire \<Rightarrow> semantic_commit \<Rightarrow> unit checked" where
  "commit_validate w c =
     (let genesis = (sc_table_version c = 0) in
      and_then (check (sc_kind c \<noteq> ''otmp.semantic-commit'' \<or> sc_format_version c \<noteq> 1)
        ''invalid semantic commit kind'') (\<lambda>_.
      and_then (parent_shape c) (\<lambda>_.
      and_then (check (sc_intents c = [] \<or> sc_operations c = []) ''empty semantic commit'') (\<lambda>_.
      and_then (check (\<not> is_object (Some (sc_metadata c))) ''semantic commit metadata must be an object'') (\<lambda>_.
      and_then (check (\<not> distinct (map ir_key (sc_intents c))) ''duplicate idempotency key'') (\<lambda>_.
      and_then (try_fold (\<lambda>_ r. validate_requirement w r) () (sc_requirements c)) (\<lambda>_.
      and_then (validate_operations w (sc_operations c) genesis (sc_table_id c)) (\<lambda>operation_ids.
      and_then (try_fold (intent_step operation_ids) {} (sc_intents c)) (\<lambda>referenced.
      and_then (check (referenced \<noteq> operation_ids) ''every operation must be referenced by an intent'') (\<lambda>_.
        check (genesis \<and> \<not> is_initialize (sc_operations c))
          ''genesis must contain exactly one initialize_table operation''))))))))))"

section \<open>The runtime profile\<close>

definition metric_count_fields :: "string list" where
  "metric_count_fields = [''column_size_bytes'', ''value_count'', ''null_count'', ''nan_count'', ''distinct_count'']"

definition metric_count :: "members \<Rightarrow> string \<Rightarrow> unit checked" where
  "metric_count metric f =
     (if bt_get metric f = Some CNull then Inr ()
      else and_then (require_sqlite_i64 metric f ''local/full-image profile metric'') (\<lambda>_. Inr ()))"

definition metric_bound :: "wire \<Rightarrow> members \<Rightarrow> string \<Rightarrow> unit checked" where
  "metric_bound w metric f =
     (case bt_get metric f of
        Some CNull \<Rightarrow> Inr ()
      | Some (CObject m) \<Rightarrow>
          lift (and_then (to_vec (w_serde w) (w_ext w) (CObject m)) (\<lambda>bs.
                and_then (from_slice (w_serde w) (scalar_from_json (w_serde w) (w_ext w)) bs) (\<lambda>scalar.
                  scalar_validate scalar)))
      | _ \<Rightarrow> reject (''local/full-image profile metric '' @ f @ '' must be null or a typed scalar''))"

definition metric_step :: "wire \<Rightarrow> u32 set \<Rightarrow> canonical_value \<Rightarrow> u32 set checked" where
  "metric_step w field_ids v =
     (let ctx = ''local/full-image profile metric'' in
      case v of
        CObject metric \<Rightarrow>
          and_then (require_exact_fields metric
            [''field_id'', ''column_size_bytes'', ''value_count'', ''null_count'', ''nan_count'', ''distinct_count'',
             ''lower_bound'', ''upper_bound'', ''metadata''] ctx) (\<lambda>_.
          and_then (require_positive_u32 metric ''field_id'' ctx) (\<lambda>field_id.
          and_then (check (field_id \<in> field_ids) ''local/full-image profile metric field IDs must be unique'') (\<lambda>_.
          and_then (try_fold (\<lambda>_ f. metric_count metric f) () metric_count_fields) (\<lambda>_.
          and_then (try_fold (\<lambda>_ f. metric_bound w metric f) () [''lower_bound'', ''upper_bound'']) (\<lambda>_.
          and_then (check (\<not> is_object (bt_get metric ''metadata''))
            ''local/full-image profile metric metadata must be an object'') (\<lambda>_.
            Inr (insert field_id field_ids)))))))
      | _ \<Rightarrow> reject ''local/full-image profile metrics entries must be objects'')"

definition validate_runtime_profile_metrics :: "wire \<Rightarrow> members \<Rightarrow> unit checked" where
  "validate_runtime_profile_metrics w file =
     (case bt_get file ''metrics'' of
        Some (CArray metrics) \<Rightarrow> and_then (try_fold (metric_step w) {} metrics) (\<lambda>_. Inr ())
      | _ \<Rightarrow> reject ''local/full-image profile file metrics must be an array'')"

definition validate_runtime_profile_added_file :: "wire \<Rightarrow> members \<Rightarrow> u32 \<Rightarrow> unit checked" where
  "validate_runtime_profile_added_file w file snapshot_schema_id =
     (let ctx = ''local/full-image profile added file'';
          bad = reject ''local/full-image profile file descriptor is outside the Parquet append profile'' in
      and_then (require_exact_fields file
        [''file_id'', ''uri'', ''object_identity'', ''file_format'', ''file_size_bytes'', ''record_count'',
         ''schema_id'', ''partition_spec_id'', ''sort_order_id'', ''content_sha256'', ''partition_values'',
         ''metrics'', ''metadata''] ctx) (\<lambda>_.
      and_then (require_nonempty_string file ''uri'' ctx) (\<lambda>uri.
      and_then (lift (uri_from_str uri)) (\<lambda>_.
      and_then (if bt_get file ''object_identity'' \<noteq> Some CNull then bad
        else and_then (require_nonempty_string file ''file_format'' ctx) (\<lambda>format.
          if format \<noteq> ''parquet'' then bad
          else and_then (require_positive_u32 file ''schema_id'' ctx) (\<lambda>schema_id.
            if schema_id \<noteq> snapshot_schema_id then bad
            else and_then (require_u32 file ''partition_spec_id'' ctx) (\<lambda>spec.
              if spec \<noteq> 0 then bad
              else and_then (require_u32 file ''sort_order_id'' ctx) (\<lambda>order.
                if order \<noteq> 0 \<or> bt_get file ''partition_values'' \<noteq> Some (CObject [])
                   \<or> \<not> is_object (bt_get file ''metadata'')
                then bad else Inr ()))))) (\<lambda>_.
      and_then (require_sqlite_i64 file ''file_size_bytes'' ctx) (\<lambda>_.
      and_then (require_sqlite_i64 file ''record_count'' ctx) (\<lambda>_.
      and_then (require_nonempty_string file ''content_sha256'' ctx) (\<lambda>content_sha256.
      and_then (lift (sha_from_str (w_ext w) content_sha256)) (\<lambda>_.
        validate_runtime_profile_metrics w file)))))))))"

definition profile_file :: "wire \<Rightarrow> u32 \<Rightarrow> canonical_value \<Rightarrow> unit checked" where
  "profile_file w snapshot_schema_id v =
     (case v of
        CObject file \<Rightarrow> validate_runtime_profile_added_file w file snapshot_schema_id
      | _ \<Rightarrow> Inl Panicked)"

definition validate_append_profile :: "wire \<Rightarrow> members \<Rightarrow> unit checked" where
  "validate_append_profile w operation =
     (let ctx = ''commit_snapshot snapshot'';
          bad_mode = reject ''local/full-image profile commit_snapshot must append safely to main without a scan projection'';
          bad_kind = reject ''local/full-image profile snapshot must be an unpartitioned, unsorted append'' in
      and_then (require_nonempty_string operation ''target_ref'' ''commit_snapshot'') (\<lambda>_.
      and_then (require_nonempty_string operation ''rebase_mode'' ''commit_snapshot'') (\<lambda>mode.
      if mode \<noteq> ''append-safe'' \<or> bt_get operation ''scan_projection'' \<noteq> Some CNull then bad_mode
      else case bt_get operation ''snapshot'' of
        Some (CObject snapshot) \<Rightarrow>
          and_then (require_nonempty_string snapshot ''operation'' ctx) (\<lambda>label.
          and_then (if label \<noteq> ''append'' then bad_kind
            else and_then (require_u32 snapshot ''partition_spec_id'' ctx) (\<lambda>spec.
              if spec \<noteq> 0 then bad_kind
              else and_then (require_u32 snapshot ''sort_order_id'' ctx) (\<lambda>order.
                if order \<noteq> 0 then bad_kind else Inr ()))) (\<lambda>_.
          and_then (require_positive_u32 snapshot ''schema_id'' ctx) (\<lambda>snapshot_schema_id.
          and_then (require_sqlite_i64 snapshot ''sequence_number'' ctx) (\<lambda>_.
          case bt_get operation ''added_files'' of
            Some (CArray added_files) \<Rightarrow>
              and_then (try_fold (\<lambda>_ v. profile_file w snapshot_schema_id v) () added_files) (\<lambda>_.
                check (bt_get operation ''removed_file_ids'' \<noteq> Some (CArray []))
                  ''local/full-image profile append cannot remove files'')
          | _ \<Rightarrow> Inl Panicked))))
      | _ \<Rightarrow> Inl Panicked)))"

definition runtime_kinds :: "string list" where
  "runtime_kinds =
     [''initialize_table'', ''set_properties'', ''create_ref'', ''replace_ref'', ''drop_ref'', ''add_schema'',
      ''set_current_schema'']"

definition runtime_requirements :: "string list" where
  "runtime_requirements =
     [''property_is'', ''ref_absent'', ''ref_exists'', ''ref_snapshot_is'', ''snapshot_exists'', ''current_schema_is'',
      ''schema_id_absent'', ''field_ids_absent'', ''default_partition_spec_is'', ''default_sort_order_is'']"

text \<open>The \<^verbatim>\<open>type\<close> of an operation or a requirement that validation accepted.\<close>

definition accepted_kind :: "canonical_value \<Rightarrow> (members \<times> string) checked" where
  "accepted_kind v =
     (case v of
        CObject object \<Rightarrow>
          (case bt_get object ''type'' of Some (CString kind) \<Rightarrow> Inr (object, kind) | _ \<Rightarrow> Inl Panicked)
      | _ \<Rightarrow> Inl Panicked)"

definition profile_operation :: "wire \<Rightarrow> nat \<Rightarrow> canonical_value \<Rightarrow> nat checked" where
  "profile_operation w snapshots v =
     and_then (accepted_kind v) (\<lambda>(object, kind).
       if kind = ''commit_snapshot'' then and_then (validate_append_profile w object) (\<lambda>_. Inr (snapshots + 1))
       else if kind \<in> set runtime_kinds then Inr snapshots
       else reject ''unsupported runtime operation'')"

definition profile_requirement :: "canonical_value \<Rightarrow> unit checked" where
  "profile_requirement v =
     and_then (accepted_kind v) (\<lambda>(object, kind).
       check (kind \<notin> set runtime_requirements) ''unsupported runtime requirement'')"

definition commit_validate_runtime_profile :: "wire \<Rightarrow> semantic_commit \<Rightarrow> unit checked" where
  "commit_validate_runtime_profile w c =
     and_then (commit_validate w c) (\<lambda>_.
     and_then (try_fold (profile_operation w) 0 (sc_operations c)) (\<lambda>snapshots.
     and_then (check (snapshots > 1 \<or> snapshots = 1 \<and> length (sc_operations c) \<noteq> 1)
       ''runtime supports metadata transactions or one append'') (\<lambda>_.
       try_fold (\<lambda>_ v. profile_requirement v) () (sc_requirements c))))"

section \<open>Generations\<close>

definition checkpoint_page_index_validate ::
  "checkpoint_page_index \<Rightarrow> checkpoint \<Rightarrow> u32 \<Rightarrow> (protocol_error, unit) result" where
  "checkpoint_page_index_validate i c page_size =
     and_then (ok_or (InvalidObject ''checkpoint page-index length overflow'')
       (checked_mul (cpi_page_count i) (u64_from_u32 (cpi_page_size i)))) (\<lambda>expected_length.
       if cpi_checkpoint_sha256 i \<noteq> cp_sha256 c \<or> cpi_checkpoint_length i \<noteq> cp_length c
          \<or> cpi_page_size i \<noteq> page_size \<or> cpi_page_size i = 0 \<or> cpi_page_count i = 0
          \<or> expected_length \<noteq> cp_length c \<or> pmr_length (cpi_root i) = 0
          \<or> pmr_length (cpi_root i) > word_of_nat max_checkpoint_index_bytes \<or> pmr_height (cpi_root i) > 64
       then Inl (InvalidObject ''checkpoint page-index does not bind checkpoint geometry'')
       else Inr ())"

definition generation_validate_runtime_profile :: "generation \<Rightarrow> (protocol_error, unit) result" where
  "generation_validate_runtime_profile g =
     (let m = g_metadata_image g in
      if g_kind g \<noteq> ''otmp.metadata-generation'' \<or> g_format_version g \<noteq> 1
         \<or> mi_codec m \<noteq> ''otmp.metadata.sqlite3-cow.v1'' \<or> mi_page_size m \<noteq> 4096
         \<or> g_scan_projection g \<noteq> None \<or> cp_table_version (mi_checkpoint m) > g_table_version g
         \<or> mi_page_map m = None \<and> cp_table_version (mi_checkpoint m) \<noteq> g_table_version g
      then Inl (InvalidObject ''generation is outside the runtime metadata-image profile'')
      else case mi_checkpoint_page_index m of
             Some i \<Rightarrow> checkpoint_page_index_validate i (mi_checkpoint m) (mi_page_size m)
           | None \<Rightarrow> Inr ())"

section \<open>Results of the validators\<close>

lemma lift_eq_Inr [result_simps]: "lift r = Inr v \<longleftrightarrow> r = Inr v"
  by (simp add: lift_def map_err_eq_Inr)

lemma reject_not_Inr [simp]: "reject m \<noteq> Inr v"
  by (simp add: reject_def)

lemma if_reject_eq_Inr [result_simps]: "(if c then reject m else r) = Inr v \<longleftrightarrow> \<not> c \<and> r = Inr v"
  by simp

lemma check_eq_Inr [result_simps]: "check bad m = Inr u \<longleftrightarrow> \<not> bad"
  by (simp add: check_def)

lemma try_fold_unit: "try_fold (\<lambda>_ x. f x) () xs = Inr () \<longleftrightarrow> (\<forall>x \<in> set xs. f x = Inr ())"
  by (induction xs) (auto simp: and_then_eq_Inr)

lemma try_fold_all:
  "try_fold f s xs = Inr t \<Longrightarrow> x \<in> set xs \<Longrightarrow> \<exists>s s'. f s x = Inr s'"
  by (induction xs arbitrary: s) (auto simp: and_then_eq_Inr)

subsection \<open>Validation does not panic\<close>

definition safe :: "('e fault, 'a) result \<Rightarrow> bool" where
  "safe r = (r \<noteq> Inl Panicked)"

named_theorems safe_intros

lemma safe_and_then [safe_intros]: "safe r \<Longrightarrow> (\<And>v. r = Inr v \<Longrightarrow> safe (f v)) \<Longrightarrow> safe (and_then r f)"
  by (cases r) (auto simp: safe_def)

lemma safe_basic [simp, safe_intros]: "safe (Inr v)" "safe (reject m)" "safe (check b m)" "safe (lift r)" "safe (Inl (Fail e))"
  by (auto simp: safe_def reject_def check_def lift_def map_err_def split: sum.splits)

lemma safe_if [safe_intros]: "(b \<Longrightarrow> safe r) \<Longrightarrow> (\<not> b \<Longrightarrow> safe r') \<Longrightarrow> safe (if b then r else r')"
  by simp

lemma safe_try_fold:
  "(\<And>s v. v \<in> set vs \<Longrightarrow> safe (f s v)) \<Longrightarrow> safe (try_fold f s vs)"
proof (induction vs arbitrary: s)
  case (Cons v vs)
  have "safe (f s v)" by (rule Cons.prems) simp
  moreover have "safe (try_fold f s' vs)" for s' by (rule Cons.IH) (simp add: Cons.prems)
  ultimately show ?case by (simp add: safe_and_then)
qed simp

lemma safe_require [simp]:
  "safe (require_exact_fields m ks ctx)" "safe (require_nonempty_string m f ctx)" "safe (require_decimal_u64 m f ctx)"
  "safe (require_sqlite_i64 m f ctx)" "safe (require_u32 m f ctx)" "safe (require_positive_u32 m f ctx)"
  "safe (parse_id x m f ctx)"
proof -
  show s: "safe (require_nonempty_string m f ctx)" for f
    by (auto simp: require_nonempty_string_def split: option.split canonical_value.split)
  show d: "safe (require_decimal_u64 m f ctx)" for f
    unfolding require_decimal_u64_def by (intro safe_intros s) (auto simp: ok_or_def split: option.split)
  show u: "safe (require_u32 m f ctx)" for f
    unfolding require_u32_def by (intro safe_intros d) (auto split: option.split)
  show "safe (require_exact_fields m ks ctx)" by (simp add: require_exact_fields_def require_fields_def)
  show "safe (require_sqlite_i64 m f ctx)" unfolding require_sqlite_i64_def by (intro safe_intros d)
  show "safe (require_positive_u32 m f ctx)" unfolding require_positive_u32_def by (intro safe_intros u)
  show "safe (parse_id x m f ctx)" unfolding parse_id_def by (intro safe_intros s)
qed

lemma require_exact_fields_eq_Inr:
  "require_exact_fields m ks ctx = Inr () \<longleftrightarrow> (\<forall>k \<in> set ks. bt_get m k \<noteq> None) \<and> fst ` set m \<subseteq> set ks"
  by (auto simp: require_exact_fields_def require_fields_def check_eq_Inr list_ex_iff)

lemma safe_snapshot [simp]: "safe (validate_commit_snapshot x m)"
proof -
  have a: "safe (validate_added_file x f)" for f
    unfolding validate_added_file_def by (intro safe_intros safe_require)
  have b: "safe (added_step x s v)" for s v
    by (cases v) (simp_all add: added_step_def a safe_and_then)
  have c: "safe (removed_step x s t v)" for s t v
    by (cases v) (simp_all add: removed_step_def safe_and_then)
  have d: "safe (validate_snapshot_file_changes x m)"
    unfolding validate_snapshot_file_changes_def
    by (auto split: option.split canonical_value.split intro!: safe_and_then safe_try_fold b c)
  have e: "safe (validate_snapshot x s)" for s
    unfolding validate_snapshot_def snapshot_parent_def Let_def
    by (intro safe_intros safe_require) (auto split: option.split canonical_value.split intro!: safe_and_then)
  show ?thesis
    unfolding validate_commit_snapshot_def Let_def
    by (intro safe_intros safe_require) (auto split: option.split canonical_value.split intro!: safe_and_then d e)
qed

lemma metadata_kinds_keys: "kind \<in> set metadata_kinds \<longleftrightarrow> metadata_keys kind \<noteq> None"
  by (auto simp: metadata_kinds_def metadata_keys_def)

lemma safe_metadata_operation:
  assumes "kind \<in> set metadata_kinds"
  shows "safe (validate_metadata_operation w m kind)"
proof -
  have ref: "safe (validate_ref_operation x m kind)" for x
    unfolding validate_ref_operation_def by (intro safe_intros safe_require)
  obtain ks where ks: "metadata_keys kind = Some ks" using assms metadata_kinds_keys by blast
  have schema: "safe (index m ''schema'')" if "require_exact_fields m ks kind = Inr ()" "kind = ''add_schema''"
    using ks that by (auto simp: metadata_keys_def require_exact_fields_eq_Inr index_def)
  have last: "kind = ''set_current_schema''" if "kind \<noteq> ''set_properties''"
    "\<not> (kind = ''create_ref'' \<or> kind = ''replace_ref'' \<or> kind = ''drop_ref'')" "kind \<noteq> ''add_schema''"
    using assms that by (simp add: metadata_kinds_def)
  show ?thesis
    unfolding validate_metadata_operation_def ks option.case schema_from_value_canonical_def
    by (intro safe_intros safe_require ref) (use schema last in auto)
qed

lemma safe_initialize: "safe (validate_initialize_table w m i)"
  unfolding validate_initialize_table_def schema_from_value_def Let_def
  by (intro safe_intros safe_require) (auto simp: ok_or_def split: option.split)

lemma safe_requirement: "safe (validate_requirement w v)"
proof -
  have step: "safe (field_id_step w s u)" for s u
    unfolding field_id_step_def by (intro safe_intros)
  have ids: "safe (case v of CArray ids \<Rightarrow> and_then (try_fold (field_id_step w) {} ids) (\<lambda>_. Inr ())
      | _ \<Rightarrow> reject ''field IDs must be array'')" for v
    by (cases v) (auto intro!: safe_and_then safe_try_fold step)
  have key: "safe (requirement_key w m kind key)" if "bt_get m key \<noteq> None" for m kind key
  proof -
    have "safe (index m key)" using that by (auto simp: index_def)
    then show ?thesis unfolding requirement_key_def Let_def by (intro safe_intros safe_require ids)
  qed
  have keys: "safe (and_then (require_exact_fields m ks ctx) (\<lambda>_. try_fold (\<lambda>_. requirement_key w m kind) () ks))"
    for m ks ctx kind
    by (intro safe_intros safe_require safe_try_fold key) (simp add: require_exact_fields_eq_Inr)
  have "safe (case requirement_keys kind of
       None \<Rightarrow> if CHR ''.'' \<in> set kind then Inr () else reject ''unknown requirement''
     | Some keys \<Rightarrow> and_then (require_exact_fields m keys ''requirement'') (\<lambda>_.
         try_fold (\<lambda>_. requirement_key w m kind) () keys))" for m kind
    by (cases "requirement_keys kind") (simp_all add: keys)
  then show ?thesis
    unfolding validate_requirement_def by (cases v) (simp_all add: safe_and_then)
qed

lemma safe_operation: "safe (operation_step w genesis i s v)"
proof -
  have "safe (operation_type_step w genesis i t m kind)" for t m kind
    unfolding operation_type_step_def by (intro safe_intros safe_initialize safe_snapshot safe_metadata_operation)
  then show ?thesis
    unfolding operation_step_def
    by (auto split: prod.split canonical_value.split option.split intro!: safe_and_then)
qed

lemma safe_commit_validate: "safe (commit_validate w c)"
proof -
  have ref: "safe (try_fold (reference_step ids) s is)" for ids s "is"
    by (rule safe_try_fold) (simp add: reference_step_def)
  have intents: "safe (try_fold (intent_step ids) {} (sc_intents c))" for ids
    by (rule safe_try_fold) (auto simp: intent_step_def ref)
  have ops: "safe (validate_operations w vs g i)" for vs g i
    unfolding validate_operations_def
    by (auto intro!: safe_and_then safe_try_fold safe_operation)
  show ?thesis
    unfolding commit_validate_def parent_shape_def Let_def
    by (intro safe_intros safe_try_fold safe_requirement ops intents)
qed

section \<open>Accepted operations\<close>

lemma require_nonempty_string_eq_Inr [result_simps]:
  "require_nonempty_string m f ctx = Inr s \<longleftrightarrow> bt_get m f = Some (CString s) \<and> s \<noteq> []"
  by (auto simp: require_nonempty_string_def split: option.split canonical_value.split)

lemma require_decimal_u64_eq_Inr:
  assumes "require_decimal_u64 m f ctx = Inr n"
  shows "bt_get m f = Some (CString (show_nat (unat n)))"
  using assms by (auto simp: require_decimal_u64_def result_simps)

lemma require_u32_eq_Inr:
  assumes "require_u32 m f ctx = Inr n"
  shows "bt_get m f = Some (CString (show_nat (unat n)))"
  using assms
  by (auto simp: require_u32_def result_simps u32_try_from_def unsigned_ucast_eq take_bit_eq_mod
      dest!: require_decimal_u64_eq_Inr split: option.splits if_splits)

lemma accepted_operation:
  assumes "operation_step w g i s v = Inr s'"
  obtains m op kind where "v = CObject m" "bt_get m ''operation_id'' = Some (CString op)" "op \<noteq> []" "op \<notin> fst s"
    "bt_get m ''type'' = Some (CString kind)" "fst s' = insert op (fst s)"
    "operation_type_step w g i (snd s) m kind = Inr (snd s')"
  using assms that unfolding operation_step_def
  by (auto simp: result_simps split: prod.splits canonical_value.splits option.splits)

definition array_of_objects :: "canonical_value option \<Rightarrow> bool" where
  "array_of_objects v = (\<exists>vs. v = Some (CArray vs) \<and> (\<forall>e \<in> set vs. \<exists>m. e = CObject m))"

lemma accepted_snapshot:
  assumes "validate_commit_snapshot x m = Inr i"
  shows "is_object (bt_get m ''snapshot'')" "validate_snapshot_file_changes x m = Inr ()"
  using assms unfolding validate_commit_snapshot_def Let_def
  by (auto simp: result_simps is_object_def split: option.splits canonical_value.splits)

lemma accepted_files:
  assumes "validate_snapshot_file_changes x m = Inr ()"
  shows "array_of_objects (bt_get m ''added_files'')"
proof -
  obtain v where v: "bt_get m ''added_files'' = Some v"
    using assms unfolding validate_snapshot_file_changes_def by (cases "bt_get m ''added_files''") auto
  obtain vs s where vs: "v = CArray vs" "try_fold (added_step x) {} vs = Inr s"
    using assms v unfolding validate_snapshot_file_changes_def by (cases v) (auto simp: and_then_eq_Inr)
  have "\<exists>m. e = CObject m" if "e \<in> set vs" for e
    using try_fold_all [OF vs(2) that] by (cases e) (auto simp: added_step_def)
  with v vs(1) show ?thesis by (auto simp: array_of_objects_def)
qed

lemma safe_append_profile:
  assumes "is_object (bt_get m ''snapshot'')" "array_of_objects (bt_get m ''added_files'')"
  shows "safe (validate_append_profile w m)"
proof -
  obtain sn where sn: "bt_get m ''snapshot'' = Some (CObject sn)"
    using assms(1) by (auto simp: is_object_def split: option.splits canonical_value.splits)
  obtain vs where vs: "bt_get m ''added_files'' = Some (CArray vs)" "\<forall>e \<in> set vs. \<exists>m. e = CObject m"
    using assms(2) by (auto simp: array_of_objects_def)
  have bound: "safe (metric_bound w mt f)" for mt f
    by (auto simp: metric_bound_def split: option.split canonical_value.split)
  have count: "safe (metric_count mt f)" for mt f
    by (auto simp: metric_count_def safe_and_then)
  have metric: "safe (metric_step w s v)" for s v
    unfolding metric_step_def Let_def
    by (cases v) (simp_all, intro safe_intros safe_require safe_try_fold count bound)
  have metrics: "safe (validate_runtime_profile_metrics w mt)" for mt
    unfolding validate_runtime_profile_metrics_def
    by (auto split: option.split canonical_value.split intro!: safe_and_then safe_try_fold metric)
  have descriptor: "safe (validate_runtime_profile_added_file w mt k)" for mt k
    unfolding validate_runtime_profile_added_file_def Let_def by (intro safe_intros safe_require metrics)
  have descriptors: "safe (try_fold (\<lambda>_. profile_file w k) () vs)" for k
    by (rule safe_try_fold) (use vs(2) descriptor in \<open>auto simp: profile_file_def\<close>)
  show ?thesis
    unfolding validate_append_profile_def Let_def sn vs(1) option.case canonical_value.case
    by (intro safe_intros safe_require descriptors)
qed

lemma safe_profile_operation:
  assumes "operation_step w g i s v = Inr s'"
  shows "safe (profile_operation w n v)"
  using assms
proof (rule accepted_operation)
  fix m op kind
  assume v: "v = CObject m" "bt_get m ''type'' = Some (CString kind)"
    and step: "operation_type_step w g i (snd s) m kind = Inr (snd s')"
  have "safe (validate_append_profile w m)" if k: "kind = ''commit_snapshot''"
  proof -
    obtain j where j: "validate_commit_snapshot (w_ext w) m = Inr j"
      using step k by (auto simp: operation_type_step_def result_simps)
    show ?thesis
      by (intro safe_append_profile accepted_snapshot(1) [OF j] accepted_files [OF accepted_snapshot(2) [OF j]])
  qed
  then show ?thesis
    by (auto simp: profile_operation_def accepted_kind_def v safe_and_then)
qed

lemma accepted_requirement:
  assumes "validate_requirement w v = Inr ()"
  shows "safe (profile_requirement v)"
  using assms unfolding validate_requirement_def profile_requirement_def accepted_kind_def
  by (auto simp: result_simps split: canonical_value.splits)

lemma commit_validate_folds:
  assumes "commit_validate w c = Inr ()"
  obtains ids sn where
    "try_fold (operation_step w (sc_table_version c = 0) (sc_table_id c)) ({}, {}) (sc_operations c) = Inr (ids, sn)"
    "try_fold (intent_step ids) {} (sc_intents c) = Inr ids"
    "\<forall>r \<in> set (sc_requirements c). validate_requirement w r = Inr ()"
    "parent_shape c = Inr ()" "distinct (map ir_key (sc_intents c))" "sc_intents c \<noteq> []" "sc_operations c \<noteq> []"
    "sc_table_version c = 0 \<Longrightarrow> is_initialize (sc_operations c)"
  using assms that unfolding commit_validate_def validate_operations_def Let_def
  by (auto simp: result_simps try_fold_unit)

lemma safe_commit_runtime_profile: "safe (commit_validate_runtime_profile w c)"
  unfolding commit_validate_runtime_profile_def
proof (rule safe_and_then [OF safe_commit_validate])
  fix u
  assume "commit_validate w c = Inr u"
  then have "commit_validate w c = Inr ()" by simp
  then obtain ids sn where
    ops: "try_fold (operation_step w (sc_table_version c = 0) (sc_table_id c)) ({}, {}) (sc_operations c) = Inr (ids, sn)"
    and reqs: "\<forall>r \<in> set (sc_requirements c). validate_requirement w r = Inr ()"
    by (rule commit_validate_folds)
  have "safe (try_fold (profile_operation w) 0 (sc_operations c))"
    by (rule safe_try_fold) (use try_fold_all [OF ops] safe_profile_operation in blast)
  moreover have "safe (try_fold (\<lambda>_. profile_requirement) () (sc_requirements c))"
    by (rule safe_try_fold) (use reqs accepted_requirement in blast)
  ultimately show "safe (and_then (try_fold (profile_operation w) 0 (sc_operations c)) (\<lambda>snapshots.
      and_then (check (snapshots > 1 \<or> snapshots = 1 \<and> length (sc_operations c) \<noteq> 1)
        ''runtime supports metadata transactions or one append'') (\<lambda>_.
        try_fold (\<lambda>_ v. profile_requirement v) () (sc_requirements c))))"
    by (intro safe_and_then safe_basic)
qed

text \<open>
  C30: Whatever the commit, neither its validation nor that of the runtime profile panics: the branches the
  code marks unreachable are.\<close>

theorem commit_validation_no_panic:
  "commit_validate w c \<noteq> Inl Panicked \<and> commit_validate_runtime_profile w c \<noteq> Inl Panicked"
  using safe_commit_validate [of w c] safe_commit_runtime_profile [of w c] by (simp add: safe_def)

section \<open>Accepted commits\<close>

definition op_member :: "string \<Rightarrow> canonical_value \<Rightarrow> string option" where
  "op_member key v =
     (case v of
        CObject m \<Rightarrow> (case bt_get m key of Some (CString s) \<Rightarrow> Some s | _ \<Rightarrow> None)
      | _ \<Rightarrow> None)"

abbreviation op_id :: "canonical_value \<Rightarrow> string option" where
  "op_id \<equiv> op_member ''operation_id''"

abbreviation op_kind :: "canonical_value \<Rightarrow> string option" where
  "op_kind \<equiv> op_member ''type''"

lemma operations_fold:
  assumes "try_fold (operation_step w g i) s vs = Inr s'"
  shows "\<exists>ids. map op_id vs = map Some ids \<and> [] \<notin> set ids \<and> distinct ids \<and> set ids \<inter> fst s = {}
    \<and> fst s' = fst s \<union> set ids \<and> (\<not> g \<longrightarrow> Some ''initialize_table'' \<notin> set (map op_kind vs))"
  using assms
proof (induction vs arbitrary: s)
  case (Cons v vs)
  obtain t where t: "operation_step w g i s v = Inr t" "try_fold (operation_step w g i) t vs = Inr s'"
    using Cons.prems by (auto simp: and_then_eq_Inr)
  obtain ids where ids: "map op_id vs = map Some ids" "[] \<notin> set ids" "distinct ids" "set ids \<inter> fst t = {}"
    "fst s' = fst t \<union> set ids" "\<not> g \<longrightarrow> Some ''initialize_table'' \<notin> set (map op_kind vs)"
    using Cons.IH [OF t(2)] by blast
  from t(1) show ?case
  proof (rule accepted_operation)
    fix m op kind
    assume v: "v = CObject m" "bt_get m ''operation_id'' = Some (CString op)" "op \<noteq> []" "op \<notin> fst s"
      "bt_get m ''type'' = Some (CString kind)" "fst t = insert op (fst s)"
      and kind: "operation_type_step w g i (snd s) m kind = Inr (snd t)"
    have id: "op_id v = Some op" "op_kind v = Some kind" by (simp_all add: op_member_def v)
    have init: "kind \<noteq> ''initialize_table''" if "\<not> g"
      using kind that by (auto simp: operation_type_step_def)
    show ?thesis
      by (rule exI [of _ "op # ids"]) (use ids id v init in auto)
  qed
qed simp

lemma references_fold:
  "try_fold (reference_step known) s ops = Inr t \<Longrightarrow> t = s \<union> set ops"
  by (induction ops arbitrary: s) (auto simp: and_then_eq_Inr reference_step_def if_reject_eq_Inr)

lemma intents_fold:
  "try_fold (intent_step known) s rs = Inr t \<Longrightarrow>
    t = s \<union> (\<Union>r \<in> set rs. set (ir_operation_ids r)) \<and> [] \<notin> set (map ir_key rs)"
  by (induction rs arbitrary: s)
    (auto simp: and_then_eq_Inr intent_step_def if_reject_eq_Inr dest!: references_fold)

lemma parent_shape_eq_Inr:
  "parent_shape c = Inr () \<Longrightarrow>
    (if sc_table_version c = 0
     then sc_parent_table_version c = None \<and> sc_parent_commit c = None \<and> sc_previous_semantic_state_sha256 c = None
     else (\<exists>p. sc_parent_table_version c = Some p \<and> unat (sc_table_version c) = unat p + 1))"
  by (auto simp: parent_shape_def Let_def result_simps bind_eq_Some_conv dest: unat_checked_add)

lemma is_initialize_kinds: "is_initialize vs \<Longrightarrow> map op_kind vs = [Some ''initialize_table'']"
  by (cases vs; cases "tl vs") (auto simp: is_initialize_def op_member_def split: canonical_value.splits)

text \<open>
  C11: The shape of an accepted commit. Its operations carry nonempty, distinct identifiers, and exactly those
  are referenced by its intents, whose keys are nonempty and distinct. At table version 0 there is no parent of
  any kind and the single operation initializes the table; at any other version the parent version is
  the predecessor, without wrap-around, and no operation initializes a table.\<close>

theorem commit_accepted:
  assumes "commit_validate w c = Inr ()"
  shows "\<exists>ids. map op_id (sc_operations c) = map Some ids \<and> distinct ids \<and> [] \<notin> set ids
      \<and> (\<Union>r \<in> set (sc_intents c). set (ir_operation_ids r)) = set ids
      \<and> distinct (map ir_key (sc_intents c)) \<and> [] \<notin> set (map ir_key (sc_intents c))
      \<and> (if sc_table_version c = 0
         then sc_parent_table_version c = None \<and> sc_parent_commit c = None
              \<and> sc_previous_semantic_state_sha256 c = None \<and> map op_kind (sc_operations c) = [Some ''initialize_table'']
         else (\<exists>p. sc_parent_table_version c = Some p \<and> unat (sc_table_version c) = unat p + 1)
              \<and> Some ''initialize_table'' \<notin> set (map op_kind (sc_operations c)))"
  using assms
proof (rule commit_validate_folds)
  fix known sn
  assume ops: "try_fold (operation_step w (sc_table_version c = 0) (sc_table_id c)) ({}, {}) (sc_operations c) = Inr (known, sn)"
    and ints: "try_fold (intent_step known) {} (sc_intents c) = Inr known"
    and shape: "parent_shape c = Inr ()" and keys: "distinct (map ir_key (sc_intents c))"
    and init: "sc_table_version c = 0 \<Longrightarrow> is_initialize (sc_operations c)"
  have init: "map op_kind (sc_operations c) = [Some ''initialize_table'']" if "sc_table_version c = 0"
    using init [OF that] by (rule is_initialize_kinds)
  show ?thesis
    using operations_fold [OF ops] intents_fold [OF ints] parent_shape_eq_Inr [OF shape] keys init by auto
qed

definition sample_wire :: wire where
  "sample_wire = \<lparr>w_serde = sample_serde, w_ext = sample_externals, w_schema = (\<lambda>_. Inl ''no schema''),
     w_string = (\<lambda>_. Inl ''no string''), w_debug = (\<lambda>s. s)\<rparr>"

definition sample_sha :: sha256 where
  "sample_sha = Sha256 (replicate 32 7)"

definition sample_object :: object_reference where
  "sample_object = \<lparr>or_uri = RelativeUri ''c'', or_sha256 = sample_sha, or_length = None,
     or_media_type = Some COMMIT_MEDIA_TYPE\<rparr>"

definition sample_commit :: semantic_commit where
  "sample_commit =
     \<lparr>sc_kind = ''otmp.semantic-commit'', sc_format_version = 1, sc_table_id = sample_id, sc_table_version = 5,
      sc_parent_table_version = Some 4, sc_commit_id = sample_id, sc_parent_commit = Some sample_object,
      sc_created_at_ms = 0,
      sc_intents = [\<lparr>ir_key = ''k'', ir_intent_sha256 = sample_sha, ir_operation_ids = [''o1''], ir_result = CNull\<rparr>],
      sc_requirements = [],
      sc_operations = [CObject [(''operation_id'', CString ''o1''), (''ref'', CString ''dev''), (''type'', CString ''drop_ref'')]],
      sc_required_reader_features_after_commit = FeatureSet [],
      sc_required_writer_features_after_commit = FeatureSet [],
      sc_previous_semantic_state_sha256 = Some sample_sha, sc_semantic_state_sha256 = sample_sha,
      sc_metadata = CObject []\<rparr>"

lemma sample_commit_valid: "commit_validate sample_wire sample_commit = Inr ()"
proof -
  have op: "operation_step sample_wire False sample_id ({}, {})
      (CObject [(''operation_id'', CString ''o1''), (''ref'', CString ''dev''), (''type'', CString ''drop_ref'')])
    = Inr ({''o1''}, {})"
    by (simp add: operation_step_def operation_type_step_def metadata_kinds_def validate_metadata_operation_def metadata_keys_def
        require_exact_fields_def require_fields_def check_def bt_get_def validate_ref_operation_def require_nonempty_string_def)
  have add: "checked_add (4 :: u64) 1 = Some 5" by (simp add: checked_add_def)
  show ?thesis
    by (simp add: commit_validate_def sample_commit_def parent_shape_def validate_operations_def op add check_def
        sample_object_def is_object_def intent_step_def reference_step_def)
qed

theorem commit_accepted_witness:
  "commit_validate sample_wire sample_commit = Inr () \<and>
    (\<exists>ids. map op_id (sc_operations sample_commit) = map Some ids \<and> distinct ids)"
  using commit_accepted [OF sample_commit_valid] sample_commit_valid by blast

section \<open>Accepted generations\<close>

text \<open>
  In an accepted generation the checkpoint is not newer than the table version, and is of that version when
  there is no page map. An index names that very checkpoint, whose length is its number of pages times the page
  size without wrap-around, so there are fewer than \<open>2^52\<close> pages; the root of the index is at most sixty-four
  levels high and has between one byte and the node limit.\<close>

theorem generation_geometry:
  assumes "generation_validate_runtime_profile g = Inr ()"
    and "mi_checkpoint_page_index (g_metadata_image g) = Some i"
  defines "c \<equiv> mi_checkpoint (g_metadata_image g)"
  shows "unat (cp_length c) = unat (cpi_page_count i) * 4096 \<and> 0 < unat (cpi_page_count i)
    \<and> unat (cpi_page_count i) < 2 ^ 52
    \<and> cpi_checkpoint_sha256 i = cp_sha256 c \<and> cpi_checkpoint_length i = cp_length c
    \<and> 0 < unat (pmr_length (cpi_root i)) \<and> unat (pmr_length (cpi_root i)) \<le> max_checkpoint_index_bytes
    \<and> unat (pmr_height (cpi_root i)) \<le> 64
    \<and> unat (cp_table_version c) \<le> unat (g_table_version g)
    \<and> (mi_page_map (g_metadata_image g) = None \<longrightarrow> cp_table_version c = g_table_version g)"
proof -
  have index: "checkpoint_page_index_validate i c 4096 = Inr ()"
    and versions: "cp_table_version c \<le> g_table_version g"
      "mi_page_map (g_metadata_image g) = None \<longrightarrow> cp_table_version c = g_table_version g"
    using assms by (auto simp: generation_validate_runtime_profile_def Let_def not_less split: if_splits)
  obtain l where l: "checked_mul (cpi_page_count i) (u64_from_u32 (cpi_page_size i)) = Some l"
    and fields: "cpi_checkpoint_sha256 i = cp_sha256 c" "cpi_checkpoint_length i = cp_length c" "cpi_page_size i = 4096"
      "cpi_page_count i \<noteq> 0" "l = cp_length c" "pmr_length (cpi_root i) \<noteq> 0"
      "pmr_length (cpi_root i) \<le> word_of_nat max_checkpoint_index_bytes" "pmr_height (cpi_root i) \<le> 64"
    using index by (auto simp: checkpoint_page_index_validate_def result_simps not_less)
  have length: "unat (cp_length c) = unat (cpi_page_count i) * 4096"
    using unat_checked_mul [OF l] by (simp add: fields)
  have "unat (cpi_page_count i) < 2 ^ 52" using unat_u64_lt [of "cp_length c"] unfolding length by simp
  moreover have "unat (pmr_length (cpi_root i)) \<le> max_checkpoint_index_bytes"
    using fields(7) by (simp add: word_le_nat_alt max_checkpoint_index_bytes_def)
  moreover have "unat (pmr_height (cpi_root i)) \<le> 64" using fields(8) by (simp add: word_le_nat_alt)
  ultimately show ?thesis
    using length fields versions by (simp add: word_le_nat_alt unat_gt_0)
qed

definition sample_checkpoint :: checkpoint where
  "sample_checkpoint = \<lparr>cp_table_version = 3, cp_uri = RelativeUri ''k'', cp_sha256 = sample_sha, cp_length = 8192\<rparr>"

definition sample_page_index :: checkpoint_page_index where
  "sample_page_index = \<lparr>cpi_checkpoint_sha256 = sample_sha, cpi_checkpoint_length = 8192, cpi_page_size = 4096,
     cpi_page_count = 2,
     cpi_root = \<lparr>pmr_uri = RelativeUri ''r'', pmr_sha256 = sample_sha, pmr_length = 100, pmr_height = 0\<rparr>\<rparr>"

definition sample_generation :: generation where
  "sample_generation = \<lparr>g_kind = ''otmp.metadata-generation'', g_format_version = 1, g_table_id = sample_id,
     g_table_version = 3, g_generation_id = sample_id, g_created_at_ms = 0, g_semantic_state_sha256 = sample_sha,
     g_semantic_commit = sample_object, g_physical_parent = None,
     g_metadata_image = \<lparr>mi_codec = ''otmp.metadata.sqlite3-cow.v1'', mi_page_size = 4096, mi_page_count = 2,
       mi_checkpoint = sample_checkpoint, mi_page_map = None, mi_checkpoint_page_index = Some sample_page_index,
       mi_image_root_sha256 = sample_sha\<rparr>,
     g_scan_projection = None, g_metadata = []\<rparr>"

lemma sample_generation_valid:
  "generation_validate_runtime_profile sample_generation = Inr ()"
  "mi_checkpoint_page_index (g_metadata_image sample_generation) = Some sample_page_index"
proof -
  have mul: "checked_mul (2 :: u64) (u64_from_u32 4096) = Some 8192"
    by (simp add: checked_mul_def u64_from_u32_def)
  show "generation_validate_runtime_profile sample_generation = Inr ()"
    by (simp add: generation_validate_runtime_profile_def sample_generation_def checkpoint_page_index_validate_def
        sample_checkpoint_def sample_page_index_def mul max_checkpoint_index_bytes_def)
qed (simp add: sample_generation_def)

theorem generation_geometry_witness:
  "generation_validate_runtime_profile sample_generation = Inr ()
    \<and> unat (cp_length sample_checkpoint) = unat (cpi_page_count sample_page_index) * 4096"
  using generation_geometry [OF sample_generation_valid] sample_generation_valid(1)
  by (simp add: sample_generation_def)

section \<open>Accepted file changes\<close>

definition file_key :: "externals \<Rightarrow> canonical_value \<Rightarrow> id option" where
  "file_key x v =
     (case op_member ''file_id'' v of
        None \<Rightarrow> None
      | Some s \<Rightarrow> (case id_from_str x s of Inl _ \<Rightarrow> None | Inr i \<Rightarrow> Some i))"

definition removed_key :: "externals \<Rightarrow> canonical_value \<Rightarrow> id option" where
  "removed_key x v =
     (case v of CString s \<Rightarrow> (case id_from_str x s of Inl _ \<Rightarrow> None | Inr i \<Rightarrow> Some i) | _ \<Rightarrow> None)"

text \<open>A fold that collects keys and refuses one it has.\<close>

lemma keyed_fold:
  assumes "try_fold step seen vs = Inr t"
    and "\<And>s v s'. step s v = Inr s' \<Longrightarrow> \<exists>i. key v = Some i \<and> i \<notin> s \<and> i \<notin> other \<and> s' = insert i s"
  shows "\<exists>ids. map key vs = map Some ids \<and> distinct ids \<and> set ids \<inter> (seen \<union> other) = {} \<and> t = seen \<union> set ids"
  using assms(1)
proof (induction vs arbitrary: seen)
  case (Cons v vs)
  obtain s where s: "step seen v = Inr s" "try_fold step s vs = Inr t"
    using Cons.prems by (auto simp: and_then_eq_Inr)
  obtain i where i: "key v = Some i" "i \<notin> seen" "i \<notin> other" "s = insert i seen" using assms(2) [OF s(1)] by blast
  obtain ids where "map key vs = map Some ids" "distinct ids" "set ids \<inter> (s \<union> other) = {}" "t = s \<union> set ids"
    using Cons.IH [OF s(2)] by blast
  with i show ?case by (intro exI [of _ "i # ids"]) auto
qed simp

lemma added_step_key:
  "added_step x s v = Inr s' \<Longrightarrow> \<exists>i. file_key x v = Some i \<and> i \<notin> s \<and> i \<notin> {} \<and> s' = insert i s"
  by (cases v) (auto simp: added_step_def validate_added_file_def parse_id_def file_key_def op_member_def result_simps
      split: if_splits)

lemma removed_step_key:
  "removed_step x added s v = Inr s' \<Longrightarrow> \<exists>i. removed_key x v = Some i \<and> i \<notin> s \<and> i \<notin> added \<and> s' = insert i s"
  by (cases v) (auto simp: removed_step_def removed_key_def result_simps split: if_splits)

lemma file_changes_arrays:
  assumes "validate_snapshot_file_changes x m = Inr ()"
  obtains vs ws s t where "bt_get m ''added_files'' = Some (CArray vs)" "try_fold (added_step x) {} vs = Inr s"
    "bt_get m ''removed_file_ids'' = Some (CArray ws)" "try_fold (removed_step x s) {} ws = Inr t"
proof -
  obtain v where v: "bt_get m ''added_files'' = Some v"
    using assms unfolding validate_snapshot_file_changes_def by (cases "bt_get m ''added_files''") auto
  obtain vs s where vs: "v = CArray vs" "try_fold (added_step x) {} vs = Inr s"
    using assms v unfolding validate_snapshot_file_changes_def by (cases v) (auto simp: and_then_eq_Inr)
  note rest = assms [unfolded validate_snapshot_file_changes_def v option.case vs canonical_value.case and_then_simps]
  obtain r where r: "bt_get m ''removed_file_ids'' = Some r" using rest by (cases "bt_get m ''removed_file_ids''") auto
  obtain ws t where "r = CArray ws" "try_fold (removed_step x s) {} ws = Inr t"
    using rest r by (cases r) (auto simp: and_then_eq_Inr)
  with v vs r that show thesis by blast
qed

text \<open>
  A snapshot operation that is accepted names every added and every removed file by a valid identifier, each
  once, and no file is both added and removed.\<close>

theorem file_changes_disjoint:
  assumes "validate_commit_snapshot x m = Inr snapshot_id"
  shows "\<exists>vs ws added removed.
    bt_get m ''added_files'' = Some (CArray vs) \<and> map (file_key x) vs = map Some added
    \<and> bt_get m ''removed_file_ids'' = Some (CArray ws) \<and> map (removed_key x) ws = map Some removed
    \<and> distinct (added @ removed)"
  using accepted_snapshot(2) [OF assms]
proof (rule file_changes_arrays)
  fix vs ws s t
  assume arrays: "bt_get m ''added_files'' = Some (CArray vs)" "bt_get m ''removed_file_ids'' = Some (CArray ws)"
    and folds: "try_fold (added_step x) {} vs = Inr s" "try_fold (removed_step x s) {} ws = Inr t"
  obtain added where "map (file_key x) vs = map Some added" "distinct added" "s = set added"
    using keyed_fold [where key = "file_key x" and other = "{}", OF folds(1) added_step_key] by auto
  moreover obtain removed where "map (removed_key x) ws = map Some removed" "distinct removed" "set removed \<inter> s = {}"
    using keyed_fold [where key = "removed_key x" and other = s, OF folds(2) removed_step_key] by auto
  ultimately show ?thesis using arrays by auto
qed

section \<open>Accepted appends\<close>

lemma profile_operation_count:
  "profile_operation w n v = Inr k \<Longrightarrow> k = (if op_kind v = Some ''commit_snapshot'' then n + 1 else n)"
  by (auto simp: and_then_eq_Inr profile_operation_def accepted_kind_def op_member_def if_reject_eq_Inr
      split: canonical_value.splits option.splits if_splits)

lemma profile_operations_count:
  "try_fold (profile_operation w) n vs = Inr k \<Longrightarrow> k = n + length (filter (\<lambda>v. op_kind v = Some ''commit_snapshot'') vs)"
proof (induction vs arbitrary: n)
  case (Cons v vs)
  then obtain n' where "profile_operation w n v = Inr n'" "try_fold (profile_operation w) n' vs = Inr k"
    by (auto simp: and_then_eq_Inr)
  with Cons.IH [of n'] profile_operation_count [of w n v n'] show ?case by simp
qed simp

lemma require_sqlite_i64_eq_Inr:
  "require_sqlite_i64 m f ctx = Inr n \<Longrightarrow> bt_get m f = Some (CString (show_nat (unat n))) \<and> unat n < 2 ^ 63"
  by (auto simp: require_sqlite_i64_def and_then_eq_Inr if_reject_eq_Inr not_less word_le_nat_alt
      dest: require_decimal_u64_eq_Inr)

definition small_decimal :: "members \<Rightarrow> string \<Rightarrow> bool" where
  "small_decimal m f = (\<exists>n < 2 ^ 63. bt_get m f = Some (CString (show_nat n)))"

lemma require_positive_u32_eq_Inr:
  "require_positive_u32 m f ctx = Inr n \<Longrightarrow> bt_get m f = Some (CString (show_nat (unat n))) \<and> n \<noteq> 0"
  by (auto simp: require_positive_u32_def and_then_eq_Inr if_reject_eq_Inr dest: require_u32_eq_Inr)

definition file_in_profile :: "externals \<Rightarrow> canonical_value option \<Rightarrow> canonical_value \<Rightarrow> bool" where
  "file_in_profile x schema_id v =
     (\<exists>m uri hash. v = CObject m \<and> bt_get m ''schema_id'' = schema_id
        \<and> bt_get m ''file_format'' = Some (CString ''parquet'')
        \<and> bt_get m ''uri'' = Some (CString uri) \<and> uri_safe uri
        \<and> (\<exists>s. bt_get m ''content_sha256'' = Some (CString s) \<and> sha_from_str x s = Inr hash)
        \<and> small_decimal m ''record_count'' \<and> small_decimal m ''file_size_bytes'')"

lemma profile_file_accepted:
  assumes "profile_file w k v = Inr ()"
  shows "file_in_profile (w_ext w) (Some (CString (show_nat (unat k)))) v"
proof -
  obtain m where v: "v = CObject m" and m: "validate_runtime_profile_added_file w m k = Inr ()"
    using assms by (auto simp: profile_file_def split: canonical_value.splits)
  obtain uri u n r s h where "bt_get m ''uri'' = Some (CString uri)" "uri_from_str uri = Inr u"
    "require_sqlite_i64 m ''file_size_bytes'' ''local/full-image profile added file'' = Inr n"
    "require_sqlite_i64 m ''record_count'' ''local/full-image profile added file'' = Inr r"
    "bt_get m ''content_sha256'' = Some (CString s)" "sha_from_str (w_ext w) s = Inr h"
    "bt_get m ''file_format'' = Some (CString ''parquet'')"
    "require_positive_u32 m ''schema_id'' ''local/full-image profile added file'' = Inr k"
    using m unfolding validate_runtime_profile_added_file_def Let_def
    by (auto simp: result_simps)
  then show ?thesis
    unfolding file_in_profile_def small_decimal_def
    using v by (auto simp: uri_from_str_def split: if_splits dest!: require_sqlite_i64_eq_Inr require_positive_u32_eq_Inr)
qed

lemma append_profile_accepted:
  assumes "validate_append_profile w m = Inr ()"
  shows "bt_get m ''removed_file_ids'' = Some (CArray []) \<and> bt_get m ''scan_projection'' = Some CNull
    \<and> (\<exists>sn vs. bt_get m ''snapshot'' = Some (CObject sn) \<and> bt_get sn ''operation'' = Some (CString ''append'')
        \<and> small_decimal sn ''sequence_number''
        \<and> bt_get m ''added_files'' = Some (CArray vs)
        \<and> (\<forall>v \<in> set vs. file_in_profile (w_ext w) (bt_get sn ''schema_id'') v))"
proof -
  note def = assms [unfolded validate_append_profile_def Let_def]
  obtain o1 where o1: "bt_get m ''snapshot'' = Some o1"
    using def by (cases "bt_get m ''snapshot''") (auto simp: result_simps)
  obtain sn where sn: "o1 = CObject sn" using def o1 by (cases o1) (auto simp: result_simps)
  obtain o2 where o2: "bt_get m ''added_files'' = Some o2"
    using def o1 sn by (cases "bt_get m ''added_files''") (auto simp: result_simps)
  obtain vs where vs: "o2 = CArray vs" using def o1 sn o2 by (cases o2) (auto simp: result_simps)
  obtain k n where "bt_get sn ''operation'' = Some (CString ''append'')"
    "require_positive_u32 sn ''schema_id'' ''commit_snapshot snapshot'' = Inr k"
    "require_sqlite_i64 sn ''sequence_number'' ''commit_snapshot snapshot'' = Inr n"
    "bt_get m ''scan_projection'' = Some CNull" "bt_get m ''removed_file_ids'' = Some (CArray [])"
    "\<forall>v \<in> set vs. profile_file w k v = Inr ()"
    using def unfolding o1 sn o2 vs by (auto simp: result_simps try_fold_unit)
  then show ?thesis
    using o1 sn o2 vs require_positive_u32_eq_Inr require_sqlite_i64_eq_Inr profile_file_accepted
    unfolding small_decimal_def by fastforce
qed

text \<open>
  C18: A commit that the runtime profile accepts and that has a snapshot operation has no other operation. The
  snapshot is an append without a scan projection that removes nothing; each added file is a Parquet file at a safe
  relative location with a well-formed hash, is written in the schema of the snapshot, and its sizes and counts,
  like the sequence number, fit a signed 64-bit column.\<close>

theorem profile_append_shape:
  assumes "commit_validate_runtime_profile w c = Inr ()"
    and "CObject m \<in> set (sc_operations c)" "bt_get m ''type'' = Some (CString ''commit_snapshot'')"
  shows "sc_operations c = [CObject m]
    \<and> bt_get m ''removed_file_ids'' = Some (CArray []) \<and> bt_get m ''scan_projection'' = Some CNull
    \<and> (\<exists>sn vs. bt_get m ''snapshot'' = Some (CObject sn) \<and> bt_get sn ''operation'' = Some (CString ''append'')
        \<and> small_decimal sn ''sequence_number''
        \<and> bt_get m ''added_files'' = Some (CArray vs)
        \<and> (\<forall>v \<in> set vs. file_in_profile (w_ext w) (bt_get sn ''schema_id'') v))"
proof -
  let ?P = "\<lambda>v. op_kind v = Some ''commit_snapshot''"
  have kind: "?P (CObject m)" using assms(3) by (simp add: op_member_def)
  obtain k where k: "try_fold (profile_operation w) 0 (sc_operations c) = Inr k"
    "\<not> (k > 1 \<or> k = 1 \<and> length (sc_operations c) \<noteq> 1)"
    using assms(1) by (auto simp: commit_validate_runtime_profile_def result_simps)
  have count: "k = length (filter ?P (sc_operations c))" using profile_operations_count [OF k(1)] by simp
  have "filter ?P (sc_operations c) \<noteq> []" using assms(2) kind by (auto simp: filter_empty_conv)
  then have "k > 0" unfolding count by blast
  with k(2) have "length (sc_operations c) = 1" by auto
  then have ops: "sc_operations c = [CObject m]" using assms(2) by (cases "sc_operations c") auto
  then have "validate_append_profile w m = Inr ()"
    using k(1) assms(3) by (auto simp: profile_operation_def accepted_kind_def and_then_eq_Inr)
  with ops append_profile_accepted show ?thesis by blast
qed

section \<open>A sample append\<close>

definition sample_decimal :: "nat \<Rightarrow> canonical_value" where
  "sample_decimal n = CString (show_nat n)"

abbreviation sample_id_text :: canonical_value where
  "sample_id_text \<equiv> CString (id_to_string sample_externals sample_id)"

definition sample_file :: members where
  "sample_file =
     [(''content_sha256'', CString (sha_to_string sample_externals sample_sha)), (''file_format'', CString ''parquet''),
      (''file_id'', sample_id_text), (''file_size_bytes'', sample_decimal 900), (''metadata'', CObject []),
      (''metrics'', CArray []), (''object_identity'', CNull), (''partition_spec_id'', sample_decimal 0),
      (''partition_values'', CObject []), (''record_count'', sample_decimal 12), (''schema_id'', sample_decimal 1),
      (''sort_order_id'', sample_decimal 0), (''uri'', CString ''data'')]"

definition sample_snapshot :: members where
  "sample_snapshot =
     [(''metadata'', CObject []), (''operation'', CString ''append''), (''parent_snapshot_id'', CNull),
      (''partition_spec_id'', sample_decimal 0), (''schema_id'', sample_decimal 1), (''sequence_number'', sample_decimal 7),
      (''snapshot_id'', sample_id_text), (''sort_order_id'', sample_decimal 0), (''summary'', CObject [])]"

definition sample_append :: members where
  "sample_append =
     [(''added_files'', CArray [CObject sample_file]), (''operation_id'', CString ''o1''),
      (''rebase_mode'', CString ''append-safe''), (''removed_file_ids'', CArray []), (''scan_projection'', CNull),
      (''snapshot'', CObject sample_snapshot), (''target_ref'', CString ''main''), (''type'', CString ''commit_snapshot'')]"

definition sample_append_commit :: semantic_commit where
  "sample_append_commit = sample_commit\<lparr>sc_operations := [CObject sample_append]\<rparr>"

lemma require_decimal_sample:
  assumes "bt_get m f = Some (sample_decimal n)" "n < 2 ^ 32"
  shows "require_decimal_u64 m f ctx = Inr (word_of_nat n)" "require_u32 m f ctx = Inr (word_of_nat n)"
    "require_sqlite_i64 m f ctx = Inr (word_of_nat n)"
proof -
  have n: "unat (word_of_nat n :: u64) = n" "unat (word_of_nat n :: u32) = n" using assms(2) by (simp_all add: unat_of_nat)
  have "parse_u64 (show_nat n) = Some (word_of_nat n)" using parse_u64_show [of "word_of_nat n"] n by simp
  with assms(1) n show d: "require_decimal_u64 m f ctx = Inr (word_of_nat n)"
    by (simp add: require_decimal_u64_def require_nonempty_string_def sample_decimal_def)
  have "u32_try_from (word_of_nat n) = Some (word_of_nat n)"
    using n assms(2) by (auto simp: u32_try_from_def word_unat_eq_iff unsigned_ucast_eq take_bit_eq_mod)
  with d show "require_u32 m f ctx = Inr (word_of_nat n)" by (simp add: require_u32_def)
  from d n assms(2) show "require_sqlite_i64 m f ctx = Inr (word_of_nat n)"
    by (simp add: require_sqlite_i64_def word_less_nat_alt)
qed

lemma sample_id_parse:
  "id_from_str sample_externals (id_to_string sample_externals sample_id) = Inr sample_id"
  "id_to_string sample_externals sample_id \<noteq> []"
  by (rule id_from_to_string [OF sample_laws(1) sample_id_ok(2,1)])
    (simp add: id_to_string_def format_uuid_def Let_def)

lemma sample_sha_parse:
  "sha_from_str sample_externals (sha_to_string sample_externals sample_sha) = Inr sample_sha"
  "sha_to_string sample_externals sample_sha \<noteq> []"
  by (rule sha_from_to_string [OF sample_laws(1)]) (simp_all add: sha_ok_def sample_sha_def sha_to_string_def)

lemmas sample_defs = sample_file_def sample_snapshot_def sample_append_def bt_get_def require_exact_fields_def
  require_fields_def check_def is_object_def require_nonempty_string_def parse_id_def lift_def Let_def

lemma sample_file_added: "validate_added_file sample_externals sample_file = Inr sample_id"
  by (simp add: validate_added_file_def sample_defs sample_id_parse)

lemma sample_decimals:
  "require_u32 sample_file ''partition_spec_id'' ctx = Inr 0" "require_u32 sample_file ''sort_order_id'' ctx = Inr 0"
  "require_positive_u32 sample_file ''schema_id'' ctx = Inr 1"
  "require_sqlite_i64 sample_file ''file_size_bytes'' ctx = Inr 900" "require_sqlite_i64 sample_file ''record_count'' ctx = Inr 12"
  "require_u32 sample_snapshot ''partition_spec_id'' ctx = Inr 0" "require_u32 sample_snapshot ''sort_order_id'' ctx = Inr 0"
  "require_positive_u32 sample_snapshot ''schema_id'' ctx = Inr 1"
  "require_decimal_u64 sample_snapshot ''sequence_number'' ctx = Inr 7"
  "require_sqlite_i64 sample_snapshot ''sequence_number'' ctx = Inr 7"
  by (simp_all add: require_decimal_sample [where n = 0] require_decimal_sample [where n = 1] require_decimal_sample [where n = 900]
      require_decimal_sample [where n = 12] require_decimal_sample [where n = 7] require_positive_u32_def
      sample_file_def sample_snapshot_def bt_get_def)

lemma sample_file_members:
  "bt_get sample_file ''object_identity'' = Some CNull" "bt_get sample_file ''file_format'' = Some (CString ''parquet'')"
  "bt_get sample_file ''partition_values'' = Some (CObject [])" "bt_get sample_file ''metadata'' = Some (CObject [])"
  "bt_get sample_file ''uri'' = Some (CString ''data'')" "bt_get sample_file ''metrics'' = Some (CArray [])"
  "bt_get sample_file ''content_sha256'' = Some (CString (sha_to_string sample_externals sample_sha))"
  "bt_get sample_snapshot ''operation'' = Some (CString ''append'')"
  by (simp_all add: sample_file_def sample_snapshot_def bt_get_def)

lemma sample_file_exact:
  "require_exact_fields sample_file
     [''file_id'', ''uri'', ''object_identity'', ''file_format'', ''file_size_bytes'', ''record_count'',
      ''schema_id'', ''partition_spec_id'', ''sort_order_id'', ''content_sha256'', ''partition_values'',
      ''metrics'', ''metadata''] ctx = Inr ()"
  by (simp add: require_exact_fields_def require_fields_def check_def sample_file_def bt_get_def)

lemma sample_profile_file: "profile_file sample_wire 1 (CObject sample_file) = Inr ()"
proof -
  have uri: "uri_from_str ''data'' = Inr (RelativeUri ''data'')" by (simp add: uri_from_str_def uri_safe_def starts_with_def)
  have w: "w_ext sample_wire = sample_externals" by (simp add: sample_wire_def)
  show ?thesis
    unfolding profile_file_def validate_runtime_profile_added_file_def Let_def
    by (simp add: sample_decimals w sample_file_exact sample_file_members require_nonempty_string_def lift_def
        sample_sha_parse uri validate_runtime_profile_metrics_def is_object_def)
qed

lemma sample_append_snapshot: "validate_commit_snapshot sample_externals sample_append = Inr sample_id"
proof -
  have "validate_snapshot sample_externals sample_snapshot = Inr sample_id"
    unfolding validate_snapshot_def Let_def
    by (simp add: sample_decimals) (simp add: sample_defs sample_id_parse snapshot_parent_def snapshot_labels_def)
  moreover have "validate_snapshot_file_changes sample_externals sample_append = Inr ()"
    by (simp add: validate_snapshot_file_changes_def sample_append_def bt_get_def added_step_def sample_file_added)
  ultimately show ?thesis
    by (simp add: validate_commit_snapshot_def sample_append_def bt_get_def require_exact_fields_def
        require_fields_def check_def is_object_def require_nonempty_string_def)
qed

lemma sample_append_members:
  "bt_get sample_append ''target_ref'' = Some (CString ''main'')" "bt_get sample_append ''rebase_mode'' = Some (CString ''append-safe'')"
  "bt_get sample_append ''scan_projection'' = Some CNull" "bt_get sample_append ''snapshot'' = Some (CObject sample_snapshot)"
  "bt_get sample_append ''added_files'' = Some (CArray [CObject sample_file])"
  "bt_get sample_append ''removed_file_ids'' = Some (CArray [])"
  by (simp_all add: sample_append_def bt_get_def)

lemma sample_append_profile: "validate_append_profile sample_wire sample_append = Inr ()"
  unfolding validate_append_profile_def Let_def
  by (simp add: sample_append_members require_nonempty_string_def sample_decimals sample_profile_file check_def sample_file_members)

lemma sample_append_valid: "commit_validate_runtime_profile sample_wire sample_append_commit = Inr ()"
proof -
  have kind: "bt_get sample_append ''type'' = Some (CString ''commit_snapshot'')"
    and id: "bt_get sample_append ''operation_id'' = Some (CString ''o1'')" by (simp_all add: sample_append_def bt_get_def)
  have op: "operation_step sample_wire False sample_id ({}, {}) (CObject sample_append) = Inr ({''o1''}, {sample_id})"
    by (simp add: operation_step_def kind id operation_type_step_def sample_wire_def sample_append_snapshot)
  have add: "checked_add (4 :: u64) 1 = Some 5" by (simp add: checked_add_def)
  have "commit_validate sample_wire sample_append_commit = Inr ()"
    by (simp add: commit_validate_def sample_append_commit_def sample_commit_def parent_shape_def validate_operations_def
        op add check_def sample_object_def is_object_def intent_step_def reference_step_def)
  moreover have "profile_operation sample_wire 0 (CObject sample_append) = Inr 1"
    by (simp add: profile_operation_def accepted_kind_def kind sample_append_profile)
  ultimately show ?thesis
    by (simp add: commit_validate_runtime_profile_def sample_append_commit_def sample_commit_def check_def)
qed

theorem profile_append_shape_witness:
  "commit_validate_runtime_profile sample_wire sample_append_commit = Inr ()
    \<and> sc_operations sample_append_commit = [CObject sample_append]
    \<and> bt_get sample_append ''removed_file_ids'' = Some (CArray [])"
proof -
  have op: "CObject sample_append \<in> set (sc_operations sample_append_commit)"
    and kind: "bt_get sample_append ''type'' = Some (CString ''commit_snapshot'')"
    by (simp_all add: sample_append_commit_def sample_append_def bt_get_def)
  show ?thesis using profile_append_shape [OF sample_append_valid op kind] sample_append_valid by blast
qed

theorem file_changes_disjoint_witness:
  "validate_commit_snapshot sample_externals sample_append = Inr sample_id
    \<and> (\<exists>vs added. bt_get sample_append ''added_files'' = Some (CArray vs)
         \<and> map (file_key sample_externals) vs = map Some added \<and> distinct added)"
  using file_changes_disjoint [OF sample_append_snapshot] sample_append_snapshot by auto

end
