(* ===== verification/Storage.thy ===== *)
theory Storage
  imports Values
begin

text \<open>
  The storage layer, \<^verbatim>\<open>otmp/src/storage.rs\<close>, and the runtime's errors, \<^verbatim>\<open>otmp/src/error.rs\<close>: the
  errors with their codes, the checks of bounded range reads, and the in-memory object store with
  its immutable objects, its conditionally written head object and its injected outcomes.

  The store's mutex makes every locked section atomic, so an operation is a function on the
  locked state. \<^verbatim>\<open>create_from_reader\<close> takes the lock twice; its two sections are separate
  steps of the relation \<open>mem_step\<close>, with any other steps between them. The reader argument is the
  byte sequence it yields, or the error it reports.
\<close>

section \<open>Storage errors\<close>

datatype storage_error =
    NotFound string
  | ImmutableConflict string
  | UnsafeKey string
  | StorageIo string
  | MaximumLengthExceeded
  | VerificationFailed string
  | Injected string
  | Unsupported string

fun storage_error_code :: "storage_error \<Rightarrow> string" where
  "storage_error_code (NotFound _) = ''OTMP_OBJECT_NOT_FOUND''"
| "storage_error_code (ImmutableConflict _) = ''OTMP_IMMUTABLE_OBJECT_CONFLICT''"
| "storage_error_code (UnsafeKey _) = ''OTMP_UNSAFE_URI''"
| "storage_error_code MaximumLengthExceeded = ''OTMP_FINGERPRINT_MISMATCH''"
| "storage_error_code (VerificationFailed _) = ''OTMP_FINGERPRINT_MISMATCH''"
| "storage_error_code (StorageIo _) = ''OTMP_STORAGE_ERROR''"
| "storage_error_code (Injected _) = ''OTMP_STORAGE_ERROR''"
| "storage_error_code (Unsupported _) = ''OTMP_STORAGE_ERROR''"

fun storage_error_message :: "storage_error \<Rightarrow> string" where
  "storage_error_message (NotFound m) = ''object not found: '' @ m"
| "storage_error_message (ImmutableConflict m) = ''immutable object already exists: '' @ m"
| "storage_error_message (UnsafeKey m) = ''unsafe object key: '' @ m"
| "storage_error_message (StorageIo m) = ''storage I/O failure: '' @ m"
| "storage_error_message MaximumLengthExceeded = ''source exceeded the declared maximum length''"
| "storage_error_message (VerificationFailed m) = ''stored object failed exact byte verification: '' @ m"
| "storage_error_message (Injected m) = ''injected storage failure: '' @ m"
| "storage_error_message (Unsupported m) = ''storage operation is unsupported: '' @ m"

definition storage_retryable :: "storage_error \<Rightarrow> bool" where
  "storage_retryable e = (case e of StorageIo _ \<Rightarrow> True | Injected _ \<Rightarrow> True | _ \<Rightarrow> False)"

section \<open>Runtime errors\<close>

text \<open>The foreign errors of \<^verbatim>\<open>rusqlite\<close>, \<^verbatim>\<open>turso_core\<close> and \<^verbatim>\<open>std::io\<close> are their message texts.\<close>

datatype runtime_error =
    SharedCause runtime_error
  | ResourceExhausted string
  | AuthenticatedRangesUnavailable
  | Cancelled
  | InvalidTransaction string
  | SemanticConflict string
  | SnapshotNotFound
  | MetadataVersionNotFound u64
  | HistoryNotRetained u64
  | ProtocolErr protocol_error
  | StorageErr storage_error
  | SqliteErr string
  | TursoErr string
  | IoErr string
  | AlreadyExists
  | IdempotencyConflict
  | FingerprintMismatch
  | StagingMismatch string
  | InvalidAppend string
  | InvalidInitialize string
  | PublicationIndeterminate
  | RebaseExhausted
  | Corrupt string
  | RefNotFound string

fun runtime_error_code :: "runtime_error \<Rightarrow> string" where
  "runtime_error_code (SharedCause e) = runtime_error_code e"
| "runtime_error_code (ResourceExhausted _) = ''OTMP_RESOURCE_EXHAUSTED''"
| "runtime_error_code AuthenticatedRangesUnavailable = ''OTMP_AUTHENTICATED_RANGES_UNAVAILABLE''"
| "runtime_error_code Cancelled = ''OTMP_CANCELLED''"
| "runtime_error_code (InvalidTransaction _) = ''OTMP_INVALID_TRANSACTION''"
| "runtime_error_code (SemanticConflict _) = ''OTMP_SEMANTIC_CONFLICT''"
| "runtime_error_code SnapshotNotFound = ''OTMP_SNAPSHOT_NOT_FOUND''"
| "runtime_error_code (MetadataVersionNotFound _) = ''OTMP_METADATA_VERSION_NOT_FOUND''"
| "runtime_error_code (HistoryNotRetained _) = ''OTMP_HISTORY_NOT_RETAINED''"
| "runtime_error_code (ProtocolErr e) = protocol_error_code e"
| "runtime_error_code (StorageErr e) = storage_error_code e"
| "runtime_error_code (SqliteErr _) = ''OTMP_SQLITE_ERROR''"
| "runtime_error_code (TursoErr _) = ''OTMP_TURSO_ERROR''"
| "runtime_error_code (IoErr _) = ''OTMP_IO_ERROR''"
| "runtime_error_code AlreadyExists = ''OTMP_ALREADY_EXISTS''"
| "runtime_error_code IdempotencyConflict = ''OTMP_IDEMPOTENCY_CONFLICT''"
| "runtime_error_code FingerprintMismatch = ''OTMP_FINGERPRINT_MISMATCH''"
| "runtime_error_code (StagingMismatch _) = ''OTMP_STAGING_MISMATCH''"
| "runtime_error_code (InvalidAppend _) = ''OTMP_INVALID_APPEND''"
| "runtime_error_code (InvalidInitialize _) = ''OTMP_INVALID_INITIALIZE''"
| "runtime_error_code PublicationIndeterminate = ''OTMP_PUBLICATION_INDETERMINATE''"
| "runtime_error_code RebaseExhausted = ''OTMP_REBASE_EXHAUSTED''"
| "runtime_error_code (Corrupt _) = ''OTMP_CORRUPT_TABLE''"
| "runtime_error_code (RefNotFound _) = ''OTMP_REF_NOT_FOUND''"

fun runtime_retryable :: "runtime_error \<Rightarrow> bool" where
  "runtime_retryable (SharedCause e) = runtime_retryable e"
| "runtime_retryable PublicationIndeterminate = True"
| "runtime_retryable RebaseExhausted = True"
| "runtime_retryable (StorageErr e) = storage_retryable e"
| "runtime_retryable _ = False"

text \<open>\<^verbatim>\<open>Arc::try_unwrap\<close> succeeds when no other reference is left.\<close>

definition from_shared :: "bool \<Rightarrow> runtime_error \<Rightarrow> runtime_error" where
  "from_shared unique e = (if unique then e else SharedCause e)"

section \<open>Object versions and ranges\<close>

type_synonym object_version = string

definition version_from_sha256 :: "externals \<Rightarrow> sha256 \<Rightarrow> object_version" where
  "version_from_sha256 x h = sha_to_string x h"

definition content_version :: "externals \<Rightarrow> byte list \<Rightarrow> object_version" where
  "content_version x bs = version_from_sha256 x (digest x bs)"

record stored_object =
  so_bytes :: "byte list"
  so_version :: object_version

record object_metadata =
  om_length :: u64
  om_version :: object_version

record stored_range =
  sr_bytes :: "byte list"
  sr_start :: u64
  sr_end :: u64
  sr_metadata :: object_metadata

record created_object =
  co_version :: object_version
  co_sha256 :: sha256
  co_length :: u64

definition maximum_range_length :: u64 where
  "maximum_range_length = 64 * 1024 * 1024"

definition validate_range_request :: "object_metadata \<Rightarrow> u64 \<Rightarrow> u64 \<Rightarrow> (storage_error, unit) result" where
  "validate_range_request m a b =
     and_then (ok_or (VerificationFailed ''range end precedes its start'') (checked_sub b a)) (\<lambda>len.
       if len = 0 \<or> len > maximum_range_length \<or> b > om_length m
       then Inl (VerificationFailed ''range is empty, oversized, or outside the object'')
       else and_then (ok_or (VerificationFailed ''range cannot fit this platform's memory model'')
                       (usize_try_from len)) (\<lambda>_. Inr ()))"

definition stored_range_validate :: "stored_range \<Rightarrow> object_metadata \<Rightarrow> u64 \<Rightarrow> u64
    \<Rightarrow> (storage_error, unit) result" where
  "stored_range_validate r expected a b =
     and_then (validate_range_request expected a b) (\<lambda>_.
       if sr_metadata r \<noteq> expected \<or> sr_start r \<noteq> a \<or> sr_end r \<noteq> b
          \<or> u64_of_usize (length (sr_bytes r)) \<noteq> b - a
       then Inl (VerificationFailed ''range response did not match the requested object revision'')
       else Inr ())"

datatype conditional_outcome =
    Applied object_version
  | Conflict "object_version option"
  | Indeterminate storage_error

section \<open>The in-memory store\<close>

record memory_object =
  mo_bytes :: "byte list"
  mo_revision :: u64

datatype injected_conditional = InjectConflict | IndeterminateBefore | IndeterminateAfter

record memory_state =
  ms_objects :: "(string, memory_object) btree"
  ms_next_revision :: u64
  ms_conditional_outcomes :: "injected_conditional list"
  ms_reads :: u64
  ms_listings :: u64

definition memory_default :: memory_state where
  "memory_default =
     \<lparr>ms_objects = [], ms_next_revision = 0, ms_conditional_outcomes = [], ms_reads = 0, ms_listings = 0\<rparr>"

definition head_key :: string where
  "head_key = ''_otmp/HEAD''"

definition inject_conditional :: "injected_conditional \<Rightarrow> memory_state \<Rightarrow> memory_state" where
  "inject_conditional o' s = s\<lparr>ms_conditional_outcomes := ms_conditional_outcomes s @ [o']\<rparr>"

text \<open>A new revision of an object: the counter is advanced and the bytes are stored under it.\<close>

definition put_object :: "string \<Rightarrow> byte list \<Rightarrow> memory_state \<Rightarrow> memory_state" where
  "put_object k bs s =
     (let rev = ms_next_revision s + 1
      in s\<lparr>ms_next_revision := rev,
           ms_objects := bt_insert k \<lparr>mo_bytes = bs, mo_revision = rev\<rparr> (ms_objects s)\<rparr>)"

definition replace_object_for_test :: "string \<Rightarrow> byte list \<Rightarrow> memory_state \<Rightarrow> memory_state" where
  "replace_object_for_test k bs s = put_object k bs s"

definition conditional :: "externals \<Rightarrow> object_version option \<Rightarrow> byte list \<Rightarrow> memory_state
    \<Rightarrow> conditional_outcome \<times> memory_state" where
  "conditional x expected bs s =
     (let injected = (case ms_conditional_outcomes s of [] \<Rightarrow> None | i # _ \<Rightarrow> Some i);
          s = s\<lparr>ms_conditional_outcomes := tl (ms_conditional_outcomes s)\<rparr>;
          current = map_option (\<lambda>o'. content_version x (mo_bytes o')) (bt_get (ms_objects s) head_key)
      in if injected = Some IndeterminateBefore
         then (Indeterminate (Injected ''before conditional write''), s)
         else if current \<noteq> expected then (Conflict current, s)
         else if injected = Some InjectConflict then (Conflict current, s)
         else (let s = put_object head_key bs s
               in if injected = Some IndeterminateAfter
                  then (Indeterminate (Injected ''after conditional write''), s)
                  else (Applied (content_version x bs), s)))"

definition create_head :: "externals \<Rightarrow> byte list \<Rightarrow> memory_state \<Rightarrow> conditional_outcome \<times> memory_state" where
  "create_head x bs s = conditional x None bs s"

definition replace_head :: "externals \<Rightarrow> object_version \<Rightarrow> byte list \<Rightarrow> memory_state
    \<Rightarrow> conditional_outcome \<times> memory_state" where
  "replace_head x expected bs s = conditional x (Some expected) bs s"

definition mem_read :: "externals \<Rightarrow> relative_uri \<Rightarrow> memory_state
    \<Rightarrow> (storage_error, stored_object) result \<times> memory_state" where
  "mem_read x key s =
     (let s = s\<lparr>ms_reads := ms_reads s + 1\<rparr>
      in (and_then (ok_or (NotFound (uri_as_str key))
                     (map_option mo_bytes (bt_get (ms_objects s) (uri_as_str key))))
            (\<lambda>bs. Inr \<lparr>so_bytes = bs, so_version = content_version x bs\<rparr>), s))"

definition memory_metadata :: "memory_object \<Rightarrow> object_metadata" where
  "memory_metadata o' =
     \<lparr>om_length = u64_of_usize (length (mo_bytes o')),
      om_version = ''otmp-memory-range-v1:'' @ show_nat (unat (mo_revision o'))\<rparr>"

definition mem_stat :: "relative_uri \<Rightarrow> memory_state \<Rightarrow> (storage_error, object_metadata) result" where
  "mem_stat key s =
     and_then (ok_or (NotFound (uri_as_str key)) (bt_get (ms_objects s) (uri_as_str key)))
       (\<lambda>o'. Inr (memory_metadata o'))"

definition mem_read_range :: "relative_uri \<Rightarrow> u64 \<Rightarrow> u64 \<Rightarrow> object_metadata \<Rightarrow> memory_state
    \<Rightarrow> (storage_error, stored_range) result" where
  "mem_read_range key a b expected s =
     and_then (validate_range_request expected a b) (\<lambda>_.
     and_then (ok_or (NotFound (uri_as_str key)) (bt_get (ms_objects s) (uri_as_str key))) (\<lambda>o'.
       let actual = memory_metadata o'
       in if actual \<noteq> expected
          then Inl (VerificationFailed ''in-memory object version changed before range read'')
          else and_then (ok_or (VerificationFailed ''range cannot fit this platform's memory model'')
                          (usize_try_from a)) (\<lambda>start.
               and_then (ok_or (VerificationFailed ''range cannot fit this platform's memory model'')
                          (usize_try_from b)) (\<lambda>e.
                 Inr \<lparr>sr_bytes = take (e - start) (drop start (mo_bytes o')), sr_start = a, sr_end = b,
                      sr_metadata = actual\<rparr>))))"

text \<open>\<^verbatim>\<open>create_from_reader\<close>: the check before the reader is drained, and the section after it.\<close>

definition create_check :: "relative_uri \<Rightarrow> memory_state \<Rightarrow> (storage_error, unit) result" where
  "create_check key s =
     (if bt_get (ms_objects s) (uri_as_str key) \<noteq> None
      then Inl (ImmutableConflict (uri_as_str key)) else Inr ())"

definition create_commit :: "externals \<Rightarrow> relative_uri \<Rightarrow> (storage_error, byte list) result \<Rightarrow> u64 option
    \<Rightarrow> memory_state \<Rightarrow> (storage_error, created_object) result \<times> memory_state" where
  "create_commit x key reader maximum_length s =
     (case reader of
        Inl e \<Rightarrow> (Inl e, s)
      | Inr bs \<Rightarrow>
          if (case maximum_length of None \<Rightarrow> False | Some m \<Rightarrow> u64_of_usize (length bs) > m)
          then (Inl MaximumLengthExceeded, s)
          else if bt_get (ms_objects s) (uri_as_str key) \<noteq> None
          then (Inl (ImmutableConflict (uri_as_str key)), s)
          else (Inr \<lparr>co_version = content_version x bs, co_sha256 = digest x bs,
                     co_length = u64_of_usize (length bs)\<rparr>,
                put_object (uri_as_str key) bs s))"

definition create_from_reader :: "externals \<Rightarrow> relative_uri \<Rightarrow> (storage_error, byte list) result
    \<Rightarrow> u64 option \<Rightarrow> memory_state \<Rightarrow> (storage_error, created_object) result \<times> memory_state" where
  "create_from_reader x key reader maximum_length s =
     (case create_check key s of
        Inl e \<Rightarrow> (Inl e, s)
      | Inr _ \<Rightarrow> create_commit x key reader maximum_length s)"

definition create_bytes :: "externals \<Rightarrow> relative_uri \<Rightarrow> byte list \<Rightarrow> memory_state
    \<Rightarrow> (storage_error, created_object) result \<times> memory_state" where
  "create_bytes x key bs s = create_from_reader x key (Inr bs) (Some (u64_of_usize (length bs))) s"

definition delete_if_version :: "externals \<Rightarrow> relative_uri \<Rightarrow> object_version \<Rightarrow> memory_state
    \<Rightarrow> (storage_error, bool) result \<times> memory_state" where
  "delete_if_version x key version s =
     (let same = (case bt_get (ms_objects s) (uri_as_str key) of
                    None \<Rightarrow> False | Some o' \<Rightarrow> content_version x (mo_bytes o') = version)
      in (Inr same,
          if same then s\<lparr>ms_objects := bt_remove (uri_as_str key) (ms_objects s)\<rparr> else s))"

definition confirm_readable :: "externals \<Rightarrow> relative_uri \<Rightarrow> sha256 \<Rightarrow> u64 \<Rightarrow> memory_state
    \<Rightarrow> (storage_error, object_version) result \<times> memory_state" where
  "confirm_readable x key sha len s =
     (case mem_read x key s of
        (Inl e, s) \<Rightarrow> (Inl e, s)
      | (Inr obj, s) \<Rightarrow>
          if u64_of_usize (length (so_bytes obj)) \<noteq> len \<or> digest x (so_bytes obj) \<noteq> sha
          then (Inl (VerificationFailed (''object verification failed for '' @ uri_as_str key)), s)
          else (Inr (so_version obj), s))"

section \<open>Steps\<close>

text \<open>
  The atomic sections of the store under concurrent clients: reads, the two sections of a
  creation, conditional head writes, injected outcomes. Deletion is a separate action: only
  garbage collection of unreachable objects uses it.
\<close>

datatype mem_action =
    DoRead relative_uri
  | DoCheck relative_uri
  | DoCommit relative_uri "(storage_error, byte list) result" "u64 option"
  | DoConditional "object_version option" "byte list"
  | DoInject injected_conditional
  | DoDelete relative_uri object_version

fun mem_exec :: "externals \<Rightarrow> mem_action \<Rightarrow> memory_state \<Rightarrow> memory_state" where
  "mem_exec x (DoRead k) s = snd (mem_read x k s)"
| "mem_exec x (DoCheck k) s = s"
| "mem_exec x (DoCommit k r m) s = snd (create_commit x k r m s)"
| "mem_exec x (DoConditional e bs) s = snd (conditional x e bs s)"
| "mem_exec x (DoInject i) s = inject_conditional i s"
| "mem_exec x (DoDelete k v) s = snd (delete_if_version x k v s)"

inductive mem_step :: "externals \<Rightarrow> memory_state \<Rightarrow> mem_action \<Rightarrow> memory_state \<Rightarrow> bool" for x where
  step: "mem_step x s a (mem_exec x a s)"

inductive mem_steps :: "externals \<Rightarrow> memory_state \<Rightarrow> mem_action list \<Rightarrow> memory_state \<Rightarrow> bool" for x where
  none: "mem_steps x s [] s"
| some: "mem_step x s a t \<Longrightarrow> mem_steps x t as u \<Longrightarrow> mem_steps x s (a # as) u"

inductive_cases mem_stepE: "mem_step x s a t"
inductive_cases mem_steps_NilE: "mem_steps x s [] t"
inductive_cases mem_steps_ConsE: "mem_steps x s (a # as) t"

section \<open>The contract of an object store\<close>

text \<open>
  What the runtime relies on: created objects appear once and never change, and the head object
  is replaced only from the version the writer has seen. The operations are those of the trait
  \<^verbatim>\<open>ObjectStore\<close> that write.
\<close>

locale object_store =
  fixes lookup :: "'s \<Rightarrow> string \<Rightarrow> byte list option"
    and create :: "relative_uri \<Rightarrow> byte list \<Rightarrow> 's \<Rightarrow> (storage_error, created_object) result \<times> 's"
    and cas :: "object_version option \<Rightarrow> byte list \<Rightarrow> 's \<Rightarrow> conditional_outcome \<times> 's"
    and version_of :: "byte list \<Rightarrow> object_version"
    and invar :: "'s \<Rightarrow> bool"
  assumes create_invar: "invar s \<Longrightarrow> invar (snd (create k bs s))"
    and cas_invar: "invar s \<Longrightarrow> invar (snd (cas e bs s))"
    and create_created: "invar s \<Longrightarrow> create k bs s = (Inr c, t) \<Longrightarrow>
      lookup s (uri_as_str k) = None \<and> lookup t = (lookup s)(uri_as_str k \<mapsto> bs) \<and> co_version c = version_of bs"
    and create_refused: "invar s \<Longrightarrow> create k bs s = (Inl err, t) \<Longrightarrow> lookup t = lookup s"
    and cas_applied: "invar s \<Longrightarrow> cas e bs s = (Applied v, t) \<Longrightarrow>
      map_option version_of (lookup s head_key) = e \<and> lookup t = (lookup s)(head_key \<mapsto> bs) \<and> v = version_of bs"
    and cas_conflict: "invar s \<Longrightarrow> cas e bs s = (Conflict cv, t) \<Longrightarrow> lookup t = lookup s"
    and cas_indeterminate: "invar s \<Longrightarrow> cas e bs s = (Indeterminate err, t) \<Longrightarrow>
      lookup t = lookup s
      \<or> map_option version_of (lookup s head_key) = e \<and> lookup t = (lookup s)(head_key \<mapsto> bs)"
begin

lemma cas_outcomes:
  assumes "invar s" "cas e bs s = (r, t)"
  shows "lookup t = lookup s
    \<or> map_option version_of (lookup s head_key) = e \<and> lookup t = (lookup s)(head_key \<mapsto> bs)"
  using assms cas_applied cas_conflict cas_indeterminate by (cases r) blast+

text \<open>Other objects survive every write.\<close>

lemma create_keeps: "invar s \<Longrightarrow> lookup s k' = Some b \<Longrightarrow> lookup (snd (create k bs s)) k' = Some b"
proof (cases "create k bs s")
  case (Pair r t)
  assume "invar s" "lookup s k' = Some b"
  with Pair show ?thesis
    using create_created [of s k bs _ t] create_refused [of s k bs _ t] by (cases r) auto
qed

lemma cas_keeps: "invar s \<Longrightarrow> k' \<noteq> head_key \<Longrightarrow> lookup (snd (cas e bs s)) k' = lookup s k'"
proof (cases "cas e bs s")
  case (Pair r t)
  assume "invar s" "k' \<noteq> head_key"
  with Pair show ?thesis using cas_outcomes [OF _ Pair] by auto
qed

text \<open>
  Of two writers that saw the same head, the second finds a conflict after the first has written,
  unless the first wrote an object with the version it replaced.
\<close>

lemma cas_once:
  assumes inv: "invar s" and first: "cas e bs s = (r, t)" "lookup t \<noteq> lookup s"
    and fresh: "e \<noteq> Some (version_of bs)" and second: "cas e bs' t = (r', u)"
  shows "lookup u = lookup t \<and> (\<forall>v. r' \<noteq> Applied v)"
proof -
  have t: "invar t" using cas_invar [OF inv, of e bs] first by simp
  have "lookup t head_key = Some bs" using cas_outcomes [OF inv first(1)] first(2) by auto
  then have "map_option version_of (lookup t head_key) \<noteq> e" using fresh by simp
  then show ?thesis using cas_outcomes [OF t second] cas_applied [OF t] second by blast
qed

end

section \<open>The in-memory store fulfils the contract\<close>

definition mem_lookup :: "memory_state \<Rightarrow> string \<Rightarrow> byte list option" where
  "mem_lookup s k = map_option mo_bytes (bt_get (ms_objects s) k)"

definition mem_ok :: "memory_state \<Rightarrow> bool" where
  "mem_ok s = bt_ok (ms_objects s)"

lemma mem_lookup_put: "mem_ok s \<Longrightarrow> mem_lookup (put_object k bs s) = (mem_lookup s)(k \<mapsto> bs)"
  by (auto simp: mem_lookup_def mem_ok_def put_object_def Let_def bt_get_insert fun_eq_iff)

lemma mem_absent: "bt_get (ms_objects s) k = None \<longleftrightarrow> mem_lookup s k = None"
  by (simp add: mem_lookup_def)

lemma mem_ok_put: "mem_ok s \<Longrightarrow> mem_ok (put_object k bs s)"
  by (auto simp: mem_ok_def put_object_def Let_def)

lemma mem_update_simps [simp]:
  "mem_lookup (s\<lparr>ms_conditional_outcomes := c\<rparr>) = mem_lookup s"
  "mem_lookup (s\<lparr>ms_reads := n\<rparr>) = mem_lookup s"
  "mem_ok (s\<lparr>ms_conditional_outcomes := c\<rparr>) = mem_ok s" "mem_ok (s\<lparr>ms_reads := n\<rparr>) = mem_ok s"
  by (simp_all add: mem_lookup_def mem_ok_def fun_eq_iff)

lemma conditional_cases:
  obtains (before) "conditional x e bs s =
      (Indeterminate (Injected ''before conditional write''), s\<lparr>ms_conditional_outcomes := tl (ms_conditional_outcomes s)\<rparr>)"
  | (conflict) "conditional x e bs s =
      (Conflict (map_option (content_version x) (mem_lookup s head_key)), s\<lparr>ms_conditional_outcomes := tl (ms_conditional_outcomes s)\<rparr>)"
  | (written) r where "conditional x e bs s =
      (r, put_object head_key bs (s\<lparr>ms_conditional_outcomes := tl (ms_conditional_outcomes s)\<rparr>))"
      "map_option (content_version x) (mem_lookup s head_key) = e"
      "r = Applied (content_version x bs) \<or> r = Indeterminate (Injected ''after conditional write'')"
proof -
  have cur: "map_option (\<lambda>o'. content_version x (mo_bytes o')) (bt_get (ms_objects s) head_key) =
      map_option (content_version x) (mem_lookup s head_key)"
    by (simp add: mem_lookup_def option.map_comp comp_def)
  show thesis
  proof (cases "\<exists>is. ms_conditional_outcomes s = IndeterminateBefore # is")
    case True
    then show thesis by (intro before) (auto simp: conditional_def Let_def)
  next
    case False
    then have nb: "(case ms_conditional_outcomes s of [] \<Rightarrow> None | i # _ \<Rightarrow> Some i) \<noteq> Some IndeterminateBefore"
      by (cases "ms_conditional_outcomes s") auto
    show thesis
    proof (cases "map_option (content_version x) (mem_lookup s head_key) = e
        \<and> (case ms_conditional_outcomes s of [] \<Rightarrow> None | i # _ \<Rightarrow> Some i) \<noteq> Some InjectConflict")
      case True
      then show thesis using nb cur
        by (intro written [of "fst (conditional x e bs s)"]) (auto simp: conditional_def Let_def)
    next
      case False
      then show thesis using nb cur by (intro conflict) (auto simp: conditional_def Let_def)
    qed
  qed
qed

lemma create_bytes_eq:
  "create_bytes x k bs s =
     (if mem_lookup s (uri_as_str k) = None
      then (Inr \<lparr>co_version = content_version x bs, co_sha256 = digest x bs,
                 co_length = u64_of_usize (length bs)\<rparr>, put_object (uri_as_str k) bs s)
      else (Inl (ImmutableConflict (uri_as_str k)), s))"
  by (simp add: create_bytes_def create_from_reader_def create_check_def create_commit_def mem_lookup_def)

interpretation mem: object_store mem_lookup "create_bytes x" "conditional x" "content_version x" mem_ok for x
proof unfold_locales
  fix s k bs e
  assume s: "mem_ok s"
  show "mem_ok (snd (create_bytes x k bs s))" using s by (simp add: create_bytes_eq mem_ok_put)
  show "mem_ok (snd (conditional x e bs s))"
    by (cases rule: conditional_cases [of x e bs s]) (use s in \<open>simp_all add: mem_ok_put\<close>)
next
  fix s k bs c t
  assume "mem_ok s" "create_bytes x k bs s = (Inr c, t)"
  then show "mem_lookup s (uri_as_str k) = None \<and> mem_lookup t = (mem_lookup s)(uri_as_str k \<mapsto> bs)
      \<and> co_version c = content_version x bs"
    by (auto simp: create_bytes_eq mem_lookup_put split: if_splits)
next
  fix s k bs err t
  assume "mem_ok s" "create_bytes x k bs s = (Inl err, t)"
  then show "mem_lookup t = mem_lookup s" by (auto simp: create_bytes_eq split: if_splits)
next
  fix s e bs v t
  assume "mem_ok s" "conditional x e bs s = (Applied v, t)"
  then show "map_option (content_version x) (mem_lookup s head_key) = e
      \<and> mem_lookup t = (mem_lookup s)(head_key \<mapsto> bs) \<and> v = content_version x bs"
    by (cases rule: conditional_cases [of x e bs s]) (auto simp: mem_lookup_put)
next
  fix s e bs v t
  assume "mem_ok s" "conditional x e bs s = (Conflict v, t)"
  then show "mem_lookup t = mem_lookup s"
    by (cases rule: conditional_cases [of x e bs s]) auto
next
  fix s e bs err t
  assume "mem_ok s" "conditional x e bs s = (Indeterminate err, t)"
  then show "mem_lookup t = mem_lookup s
      \<or> map_option (content_version x) (mem_lookup s head_key) = e \<and> mem_lookup t = (mem_lookup s)(head_key \<mapsto> bs)"
    by (cases rule: conditional_cases [of x e bs s]) (auto simp: mem_lookup_put)
qed

section \<open>Immutability under concurrent steps\<close>

lemma mem_exec_ok: "mem_ok s \<Longrightarrow> mem_ok (mem_exec x a s)"
proof (cases a)
  case (DoConditional e bs)
  assume "mem_ok s"
  then show ?thesis using mem.cas_invar [of s x e bs] DoConditional by simp
next
  case (DoDelete k v)
  assume "mem_ok s"
  then show ?thesis using DoDelete by (auto simp: delete_if_version_def mem_ok_def Let_def)
qed (auto simp: mem_read_def Let_def create_commit_def mem_ok_put inject_conditional_def
    split: sum.splits)

text \<open>A step keeps an object that is neither the head nor deleted by the step.\<close>

lemma mem_exec_keeps:
  assumes "mem_ok s" "k \<noteq> head_key" "mem_lookup s k = Some bs" "\<forall>u v. a = DoDelete u v \<longrightarrow> uri_as_str u \<noteq> k"
  shows "mem_lookup (mem_exec x a s) k = Some bs"
proof (cases a)
  case (DoConditional e b)
  then show ?thesis using assms mem.cas_keeps [of s k x e b] by simp
next
  case (DoCommit u r m)
  then show ?thesis using assms
    by (auto simp: create_commit_def mem_lookup_put mem_absent split: sum.splits)
next
  case (DoDelete u v)
  then show ?thesis using assms
    by (auto simp: delete_if_version_def mem_lookup_def bt_get_remove Let_def)
qed (use assms in \<open>auto simp: mem_read_def Let_def inject_conditional_def\<close>)

lemma mem_steps_keeps:
  "mem_steps x s as t \<Longrightarrow> mem_ok s \<Longrightarrow> k \<noteq> head_key \<Longrightarrow> mem_lookup s k = Some bs \<Longrightarrow>
     \<forall>u v. DoDelete u v \<in> set as \<longrightarrow> uri_as_str u \<noteq> k \<Longrightarrow> mem_ok t \<and> mem_lookup t k = Some bs"
proof (induction rule: mem_steps.induct)
  case (some s a t as u)
  from some.hyps(1) have t: "t = mem_exec x a s" by (auto elim: mem_stepE)
  have "mem_lookup t k = Some bs" unfolding t
    using some.prems by (intro mem_exec_keeps) auto
  then show ?case using some.IH some.prems mem_exec_ok [of s x a] t by auto
qed auto

section \<open>Range reads\<close>

lemma validate_range_request_Inr:
  "validate_range_request m a b = Inr () \<longleftrightarrow>
     unat a < unat b \<and> unat b - unat a \<le> unat maximum_range_length \<and> unat b \<le> unat (om_length m)"
proof (cases "unat a \<le> unat b")
  case True
  then have sub: "unat (b - a) = unat b - unat a"
    by (simp add: unat_sub word_le_nat_alt)
  have "b - a = 0 \<longleftrightarrow> unat b = unat a" by (simp add: word_unat_eq_iff [symmetric])
  then show ?thesis using True sub
    by (auto simp: validate_range_request_def checked_sub_def word_less_nat_alt not_less result_simps)
qed (auto simp: validate_range_request_def checked_sub_def)

lemma mem_steps_ok: "mem_steps x s as t \<Longrightarrow> mem_ok s \<Longrightarrow> mem_ok t"
  by (induction rule: mem_steps.induct) (auto elim!: mem_stepE simp: mem_exec_ok)

lemma mem_ok_default [simp]: "mem_ok memory_default"
  by (simp add: mem_ok_def memory_default_def bt_ok_def)

section \<open>Properties\<close>

text \<open>
  C13: stored objects are immutable. From an empty store, whatever reads, creations by concurrent
  writers, head updates and injected failures happen before and after, an object other than the
  head keeps its bytes until it is deleted by name.
\<close>

theorem objects_immutable:
  assumes "mem_steps x memory_default earlier s" "mem_lookup s k = Some bs" "k \<noteq> head_key"
    and "mem_steps x s later t" "\<forall>u v. DoDelete u v \<in> set later \<longrightarrow> uri_as_str u \<noteq> k"
  shows "mem_lookup t k = Some bs"
  using mem_steps_keeps [OF assms(4) _ assms(3,2,5)] mem_steps_ok [OF assms(1)] by simp

definition sample_store :: memory_state where
  "sample_store = put_object ''a'' [1, 2] memory_default"

lemma sample_store_steps:
  "mem_steps x memory_default [DoCommit (RelativeUri ''a'') (Inr [1, 2]) None] sample_store"
proof -
  have "mem_exec x (DoCommit (RelativeUri ''a'') (Inr [1, 2]) None) memory_default = sample_store"
    by (simp add: create_commit_def memory_default_def bt_get_def sample_store_def)
  then show ?thesis by (metis mem_step.step mem_steps.intros)
qed

lemma sample_store_lookup: "mem_lookup sample_store = [''a'' \<mapsto> [1, 2]]"
  by (simp add: sample_store_def mem_lookup_put)
    (simp add: mem_lookup_def memory_default_def bt_get_def fun_eq_iff)

theorem objects_immutable_witness:
  "mem_lookup (mem_exec sample_externals (DoCommit (RelativeUri ''a'') (Inr [9]) None) sample_store) ''a'' = Some [1, 2]"
proof (rule objects_immutable [OF sample_store_steps [of sample_externals]])
  show "mem_lookup sample_store ''a'' = Some [1, 2]" by (simp add: sample_store_lookup)
  show "''a'' \<noteq> head_key" by (simp add: head_key_def)
  show "mem_steps sample_externals sample_store [DoCommit (RelativeUri ''a'') (Inr [9]) None]
      (mem_exec sample_externals (DoCommit (RelativeUri ''a'') (Inr [9]) None) sample_store)"
    by (rule mem_steps.some [OF mem_step.step mem_steps.none])
qed simp

text \<open>
  C12: the head is replaced atomically from the version that was seen. When two writers use the
  same expected version and the first one's bytes reach the store, whether it was told so or got
  an indeterminate answer, the second writer is never told that it applied and changes nothing,
  provided the first did not rewrite an object of the version it replaced.
\<close>

theorem head_single_winner:
  assumes "mem_ok s" "conditional x e bs s = (r, t)" "mem_lookup t \<noteq> mem_lookup s"
    and "e \<noteq> Some (content_version x bs)" "conditional x e bs' t = (r', u)"
  shows "mem_lookup t head_key = Some bs \<and> mem_lookup u = mem_lookup t \<and> (\<forall>v. r' \<noteq> Applied v)"
  using mem.cas_once [OF assms] mem.cas_outcomes [OF assms(1,2)] assms(3) by auto

theorem head_single_winner_witness:
  "\<exists>r t r' u. conditional sample_externals None [1] memory_default = (r, t)
     \<and> conditional sample_externals None [2] t = (r', u) \<and> mem_lookup u head_key = Some [1]"
proof -
  obtain r t where t: "conditional sample_externals None [1] memory_default = (r, t)" by fastforce
  obtain r' u where u: "conditional sample_externals None [2] t = (r', u)" by fastforce
  have "mem_lookup memory_default head_key = None"
    by (simp add: mem_lookup_def memory_default_def bt_get_def)
  moreover have "mem_lookup t head_key = Some [1]"
    using t by (auto simp: conditional_def memory_default_def bt_get_def put_object_def Let_def mem_lookup_def)
  ultimately have "mem_lookup t \<noteq> mem_lookup memory_default" by auto
  from head_single_winner [OF mem_ok_default t this _ u] t u show ?thesis by auto
qed

text \<open>
  C29: bounded range reads. With the metadata \<open>stat\<close> returned, a range read succeeds exactly for
  the nonempty ranges of at most 64 MiB inside the object, returns that slice of the object, and
  the response passes the caller's check.
\<close>

theorem range_read_exact:
  assumes "mem_stat key s = Inr m" "mem_lookup s (uri_as_str key) = Some bs" "length bs < usize_bound"
  shows "(mem_read_range key a b m s = Inr r \<longleftrightarrow>
      unat a < unat b \<and> unat b - unat a \<le> 64 * 1024 * 1024 \<and> unat b \<le> length bs
      \<and> r = \<lparr>sr_bytes = take (unat b - unat a) (drop (unat a) bs), sr_start = a, sr_end = b, sr_metadata = m\<rparr>)
    \<and> (mem_read_range key a b m s = Inr r \<longrightarrow> stored_range_validate r m a b = Inr ())"
    (is "(?r \<longleftrightarrow> ?eq) \<and> (?r \<longrightarrow> ?v)")
proof -
  from assms obtain o' where o': "bt_get (ms_objects s) (uri_as_str key) = Some o'"
    "m = memory_metadata o'" "mo_bytes o' = bs"
    by (auto simp: mem_stat_def mem_lookup_def result_simps)
  have valid: "validate_range_request m a b = Inr () \<longleftrightarrow>
      unat a < unat b \<and> unat b - unat a \<le> 64 * 1024 * 1024 \<and> unat b \<le> length bs"
    using assms(3) by (simp add: validate_range_request_Inr o' memory_metadata_def unat_u64_of_usize
        maximum_range_length_def)
  have eq: "?r \<longleftrightarrow> ?eq"
    unfolding mem_read_range_def and_then_eq_Inr using valid by (auto simp: o' Let_def)
  moreover have ?v if ?r
  proof -
    from that have r: "unat a < unat b" "unat b \<le> length bs"
      "sr_bytes r = take (unat b - unat a) (drop (unat a) bs)" "sr_start r = a" "sr_end r = b"
      "sr_metadata r = m" and v: "validate_range_request m a b = Inr ()"
      using eq valid by auto
    have "u64_of_usize (length (sr_bytes r)) = b - a"
      using r by (simp add: word_unat_eq_iff unat_sub word_le_nat_alt unat_u64_of_usize usize_bound_def
          diff_less_mono less_imp_diff_less)
    then show ?thesis using r v by (simp add: stored_range_validate_def)
  qed
  ultimately show ?thesis by blast
qed

theorem range_read_exact_witness:
  "\<exists>m. mem_stat (RelativeUri ''a'') sample_store = Inr m
     \<and> mem_read_range (RelativeUri ''a'') 1 2 m sample_store =
         Inr \<lparr>sr_bytes = [2], sr_start = 1, sr_end = 2, sr_metadata = m\<rparr>"
proof -
  obtain m where m: "mem_stat (RelativeUri ''a'') sample_store = Inr m"
    by (simp add: mem_stat_def sample_store_def put_object_def memory_default_def bt_get_def Let_def)
  have "mem_read_range (RelativeUri ''a'') 1 2 m sample_store =
      Inr \<lparr>sr_bytes = [2], sr_start = 1, sr_end = 2, sr_metadata = m\<rparr>"
    using range_read_exact [OF m, of "[1, 2]" 1 2 "\<lparr>sr_bytes = [2], sr_start = 1, sr_end = 2, sr_metadata = m\<rparr>"]
    by (simp add: sample_store_lookup usize_bound_def)
  with m show ?thesis by blast
qed

fun root_cause :: "runtime_error \<Rightarrow> runtime_error" where
  "root_cause (SharedCause e) = root_cause e"
| "root_cause e = e"

text \<open>
  What a client may retry. Sharing an error between waiters changes neither its code nor
  whether it is retryable, and a retryable error is a lost publication race, an indeterminate
  publication, or a storage failure that is not about the object's identity.
\<close>

theorem retry_classification:
  "runtime_error_code (from_shared u e) = runtime_error_code e
   \<and> runtime_retryable (from_shared u e) = runtime_retryable e
   \<and> (runtime_retryable e \<longleftrightarrow> root_cause e = PublicationIndeterminate \<or> root_cause e = RebaseExhausted
       \<or> (\<exists>m. root_cause e = StorageErr (StorageIo m)) \<or> (\<exists>m. root_cause e = StorageErr (Injected m)))"
proof -
  have "runtime_retryable e \<longleftrightarrow> root_cause e = PublicationIndeterminate \<or> root_cause e = RebaseExhausted
       \<or> (\<exists>m. root_cause e = StorageErr (StorageIo m)) \<or> (\<exists>m. root_cause e = StorageErr (Injected m))"
    by (induction e) (simp_all add: storage_retryable_def split: storage_error.split)
  then show ?thesis by (simp add: from_shared_def)
qed

end
