(* ===== verification/Hashes.thy ===== *)
theory Hashes
  imports Values
begin

text \<open>
  The hashes of \<^verbatim>\<open>otmp-protocol/src/hash.rs\<close>. Each hash is the digest of its preimage: a tag that
  names what is hashed, ended by a zero byte, then the fields. The preimages are definitions of
  their own, because what the construction promises is about them: a preimage determines its tag
  and its fields.
\<close>

section \<open>Preimages\<close>

definition tag :: "string \<Rightarrow> byte list" where
  "tag s = as_bytes s @ [0]"

definition intent_preimage :: "byte list \<Rightarrow> byte list" where
  "intent_preimage canonical_intent = tag ''OTMP-INTENT'' @ canonical_intent"

definition genesis_preimage :: "byte list \<Rightarrow> byte list" where
  "genesis_preimage canonical_genesis_body = tag ''OTMP-GENESIS'' @ canonical_genesis_body"

definition state_preimage :: "sha256 \<Rightarrow> byte list \<Rightarrow> byte list" where
  "state_preimage previous canonical_commit_body =
     tag ''OTMP-STATE'' @ sha_as_bytes previous @ canonical_commit_body"

definition partition_preimage :: "u32 \<Rightarrow> byte list \<Rightarrow> byte list" where
  "partition_preimage partition_spec_id tuple_cbor =
     tag ''OTMP-PARTITION'' @ u32_to_be_bytes partition_spec_id @ tuple_cbor"

definition page_map_bytes_of :: "sha256 option \<Rightarrow> byte list" where
  "page_map_bytes_of root = (case root of None \<Rightarrow> replicate 32 0 | Some h \<Rightarrow> sha_as_bytes h)"

definition image_preimage :: "id \<Rightarrow> u64 \<Rightarrow> u32 \<Rightarrow> u64 \<Rightarrow> sha256 \<Rightarrow> sha256 option \<Rightarrow> byte list" where
  "image_preimage table_id table_version page_size page_count checkpoint page_map_root =
     tag ''OTMP-SQLITE-IMAGE'' @ id_as_bytes table_id @ u64_to_be_bytes table_version @ u32_to_be_bytes page_size
       @ u64_to_be_bytes page_count @ sha_as_bytes checkpoint @ page_map_bytes_of page_map_root"

section \<open>Hashes\<close>

definition object_hash :: "externals \<Rightarrow> byte list \<Rightarrow> sha256" where
  "object_hash x bs = digest x bs"

definition intent_hash :: "externals \<Rightarrow> byte list \<Rightarrow> sha256" where
  "intent_hash x canonical_intent = digest x (intent_preimage canonical_intent)"

definition genesis_state_hash :: "externals \<Rightarrow> byte list \<Rightarrow> sha256" where
  "genesis_state_hash x body = digest x (genesis_preimage body)"

definition next_state_hash :: "externals \<Rightarrow> sha256 \<Rightarrow> byte list \<Rightarrow> sha256" where
  "next_state_hash x previous body = digest x (state_preimage previous body)"

definition partition_hash :: "externals \<Rightarrow> u32 \<Rightarrow> byte list \<Rightarrow> sha256" where
  "partition_hash x partition_spec_id tuple_cbor = digest x (partition_preimage partition_spec_id tuple_cbor)"

definition image_root_hash :: "externals \<Rightarrow> id \<Rightarrow> u64 \<Rightarrow> u32 \<Rightarrow> u64 \<Rightarrow> sha256 \<Rightarrow> sha256 option \<Rightarrow> sha256" where
  "image_root_hash x table_id table_version page_size page_count checkpoint page_map_root =
     digest x (image_preimage table_id table_version page_size page_count checkpoint page_map_root)"

section \<open>Preimages determine what was hashed\<close>

text \<open>Text without a zero byte before a zero byte can be split off again.\<close>

lemma zero_split:
  "0 \<notin> set as \<Longrightarrow> 0 \<notin> set bs \<Longrightarrow> as @ 0 # cs = bs @ 0 # ds \<Longrightarrow> as = bs \<and> cs = ds" for cs ds :: "byte list"
proof (induction as arbitrary: bs)
  case Nil
  then show ?case by (cases bs) auto
next
  case (Cons a as)
  then show ?case by (cases bs) auto
qed

definition plain_tag :: "string \<Rightarrow> bool" where
  "plain_tag s = (0 \<notin> set (as_bytes s))"

lemma tag_split:
  "plain_tag s \<Longrightarrow> plain_tag t \<Longrightarrow> tag s @ cs = tag t @ ds \<longleftrightarrow> s = t \<and> cs = ds"
  using zero_split [of "as_bytes s" "as_bytes t" cs ds] by (auto simp: plain_tag_def tag_def)

lemma plain_tags [simp]:
  "plain_tag ''OTMP-INTENT''" "plain_tag ''OTMP-GENESIS''" "plain_tag ''OTMP-STATE''" "plain_tag ''OTMP-PARTITION''"
  "plain_tag ''OTMP-SQLITE-IMAGE''"
  by (simp_all add: plain_tag_def as_bytes_def)

lemmas preimage_defs = intent_preimage_def genesis_preimage_def state_preimage_def partition_preimage_def image_preimage_def

text \<open>
  Domains are separated: no preimage of one kind of hash is a preimage of another kind, whatever the
  inputs, so a hash of one kind can only be presented as another through a collision of the digest.\<close>

theorem hash_domains_separated:
  "intent_preimage a \<noteq> genesis_preimage b \<and> intent_preimage a \<noteq> state_preimage h b
    \<and> intent_preimage a \<noteq> partition_preimage k b \<and> intent_preimage a \<noteq> image_preimage i v s n c r
    \<and> genesis_preimage a \<noteq> state_preimage h b \<and> genesis_preimage a \<noteq> partition_preimage k b
    \<and> genesis_preimage a \<noteq> image_preimage i v s n c r \<and> state_preimage h a \<noteq> partition_preimage k b
    \<and> state_preimage h a \<noteq> image_preimage i v s n c r \<and> partition_preimage k a \<noteq> image_preimage i v s n c r"
  by (simp add: preimage_defs tag_split)

lemma to_be_inj: "to_be n a = to_be n b \<Longrightarrow> a < 256 ^ n \<Longrightarrow> b < 256 ^ n \<Longrightarrow> a = b"
  by (metis be_val_to_be mod_less)

lemma u32_to_be_bytes_inj [simp]: "u32_to_be_bytes a = u32_to_be_bytes b \<longleftrightarrow> a = b"
  unfolding u32_to_be_bytes_def using to_be_inj [of 4 "unat a" "unat b"] by (auto simp: word_unat_eq_iff)

lemma u64_to_be_bytes_inj [simp]: "u64_to_be_bytes a = u64_to_be_bytes b \<longleftrightarrow> a = b"
  unfolding u64_to_be_bytes_def using to_be_inj [of 8 "unat a" "unat b"] by (auto simp: word_unat_eq_iff)

lemma be_bytes_length [simp]: "length (u32_to_be_bytes a) = 4" "length (u64_to_be_bytes b) = 8"
  by (simp_all add: u32_to_be_bytes_def u64_to_be_bytes_def)

definition present :: "sha256 option \<Rightarrow> sha256" where
  "present r = (case r of None \<Rightarrow> Sha256 (replicate 32 0) | Some h \<Rightarrow> h)"

lemma page_map_bytes_of_eq: "page_map_bytes_of r = sha_as_bytes (present r)"
  by (simp add: page_map_bytes_of_def present_def split: option.split)

text \<open>
  Fields cannot be shifted between one another: the preimage of a chained state determines the previous
  hash and the commit body, that of a partition its spec and tuple, and that of an image root the table, the
  version, the geometry, the checkpoint and the root of the page map, where an absent root reads as the
  all-zero hash.\<close>

theorem preimages_injective:
  assumes "sha_ok h" "sha_ok h'" "sha_ok c" "sha_ok c'" "id_ok i" "id_ok i'"
    and "pred_option sha_ok r" "pred_option sha_ok r'"
  shows "(state_preimage h b = state_preimage h' b' \<longleftrightarrow> h = h' \<and> b = b')
    \<and> (partition_preimage k t = partition_preimage k' t' \<longleftrightarrow> k = k' \<and> t = t')
    \<and> (image_preimage i v s n c r = image_preimage i' v' s' n' c' r' \<longleftrightarrow>
        i = i' \<and> v = v' \<and> s = s' \<and> n = n' \<and> c = c' \<and> present r = present r')"
proof -
  have r: "length (sha_as_bytes (present r)) = 32" "length (sha_as_bytes (present r')) = 32"
    using assms(7,8) by (auto simp: present_def sha_ok_def split: option.split)
  have sha: "sha_as_bytes a = sha_as_bytes a' \<longleftrightarrow> a = a'" for a a' by (cases a; cases a') simp
  have id: "id_as_bytes i = id_as_bytes i' \<longleftrightarrow> i = i'" by (cases i; cases i') simp
  show ?thesis
    using assms(1-6) r by (auto simp: preimage_defs tag_split page_map_bytes_of_eq sha_ok_def id_ok_def sha id)
qed

theorem preimages_injective_witness:
  "(let h = Sha256 (replicate 32 1); h' = Sha256 (replicate 32 2) in
     sha_ok h \<and> sha_ok h' \<and> state_preimage h [5] \<noteq> state_preimage h' [5])"
proof -
  let ?h = "Sha256 (replicate 32 1)" and ?h' = "Sha256 (replicate 32 2)"
  have ok: "sha_ok ?h" "sha_ok ?h'" "id_ok sample_id" "pred_option sha_ok None"
    by (simp_all add: sha_ok_def sample_id_ok)
  have "?h \<noteq> ?h'" by simp
  then show ?thesis
    using preimages_injective [OF ok(1,2,1,1,3,3,4,4), of "[5]" "[5]"] ok by (simp add: Let_def)
qed

end
