(* ===== verification/Object_Json.thy ===== *)
theory Object_Json
  imports Objects Storage Hashes
begin

text \<open>
  The JSON forms of the protocol objects, as the derived serializers of \<^verbatim>\<open>otmp-protocol/src/objects.rs\<close> give them, and
  the helpers of \<^verbatim>\<open>otmp/src/runtime.rs\<close> over them: the body of a commit that its state hash covers, the feature
  set of the runtime, references to stored objects, and the checks of column values read from the database.

  A derived serializer writes the fields in the order of the declaration. \<^verbatim>\<open>canonical_json\<close> parses that text
  into a sorted map before anything else sees it, so the forms here are the sorted maps.
\<close>

section \<open>Objects and strings\<close>

definition obj_of :: "(string \<times> canonical_value) list \<Rightarrow> canonical_value" where
  "obj_of entries = CObject (bt_extend [] entries)"

definition or_null :: "('a \<Rightarrow> canonical_value) \<Rightarrow> 'a option \<Rightarrow> canonical_value" where
  "or_null f v = (case v of None \<Rightarrow> CNull | Some u \<Rightarrow> f u)"

text \<open>\<^verbatim>\<open>skip_serializing_if = "Option::is_none"\<close>: an absent field has no entry.\<close>

definition if_some :: "string \<Rightarrow> ('a \<Rightarrow> canonical_value) \<Rightarrow> 'a option \<Rightarrow> (string \<times> canonical_value) list" where
  "if_some k f v = (case v of None \<Rightarrow> [] | Some u \<Rightarrow> [(k, f u)])"

definition u64_value :: "u64 \<Rightarrow> canonical_value" where
  "u64_value v = CString (json_u64_to_string v)"

definition u32_value :: "u32 \<Rightarrow> canonical_value" where
  "u32_value v = CInteger (uint v)"

definition sha_value :: "externals \<Rightarrow> sha256 \<Rightarrow> canonical_value" where
  "sha_value x h = CString (sha_to_string x h)"

definition id_value :: "externals \<Rightarrow> id \<Rightarrow> canonical_value" where
  "id_value x i = CString (id_to_string x i)"

definition uri_value :: "relative_uri \<Rightarrow> canonical_value" where
  "uri_value u = CString (uri_as_str u)"

definition features_value :: "feature_set \<Rightarrow> canonical_value" where
  "features_value fs = CArray (map CString (features_as_slice fs))"

section \<open>Serialized objects\<close>

definition object_reference_to_value :: "externals \<Rightarrow> object_reference \<Rightarrow> canonical_value" where
  "object_reference_to_value x r =
     obj_of ([(''uri'', uri_value (or_uri r)), (''sha256'', sha_value x (or_sha256 r))]
       @ if_some ''length'' u64_value (or_length r) @ if_some ''media_type'' CString (or_media_type r))"

definition head_to_value :: "externals \<Rightarrow> head \<Rightarrow> canonical_value" where
  "head_to_value x h =
     obj_of [(''protocol'', CString (h_protocol h)), (''protocol_version'', CString (h_protocol_version h)),
       (''table_id'', id_value x (h_table_id h)), (''table_version'', u64_value (h_table_version h)),
       (''root_revision'', u64_value (h_root_revision h)),
       (''semantic_state_sha256'', sha_value x (h_semantic_state_sha256 h)),
       (''semantic_commit'', object_reference_to_value x (h_semantic_commit h)),
       (''metadata_generation'', object_reference_to_value x (h_metadata_generation h)),
       (''required_reader_features'', features_value (h_required_reader_features h)),
       (''required_writer_features'', features_value (h_required_writer_features h))]"

definition intent_record_to_value :: "externals \<Rightarrow> intent_record \<Rightarrow> canonical_value" where
  "intent_record_to_value x i =
     obj_of [(''key'', CString (ir_key i)), (''intent_sha256'', sha_value x (ir_intent_sha256 i)),
       (''operation_ids'', CArray (map CString (ir_operation_ids i))), (''result'', ir_result i)]"

definition commit_to_value :: "externals \<Rightarrow> semantic_commit \<Rightarrow> canonical_value" where
  "commit_to_value x c =
     obj_of [(''kind'', CString (sc_kind c)), (''format_version'', u32_value (sc_format_version c)),
       (''table_id'', id_value x (sc_table_id c)), (''table_version'', u64_value (sc_table_version c)),
       (''parent_table_version'', or_null u64_value (sc_parent_table_version c)),
       (''commit_id'', id_value x (sc_commit_id c)),
       (''parent_commit'', or_null (object_reference_to_value x) (sc_parent_commit c)),
       (''created_at_ms'', CString (json_i64_to_string (sc_created_at_ms c))),
       (''intents'', CArray (map (intent_record_to_value x) (sc_intents c))),
       (''requirements'', CArray (sc_requirements c)), (''operations'', CArray (sc_operations c)),
       (''required_reader_features_after_commit'', features_value (sc_required_reader_features_after_commit c)),
       (''required_writer_features_after_commit'', features_value (sc_required_writer_features_after_commit c)),
       (''previous_semantic_state_sha256'', or_null (sha_value x) (sc_previous_semantic_state_sha256 c)),
       (''semantic_state_sha256'', sha_value x (sc_semantic_state_sha256 c)), (''metadata'', sc_metadata c)]"

definition page_map_root_to_value :: "externals \<Rightarrow> page_map_root \<Rightarrow> canonical_value" where
  "page_map_root_to_value x r =
     obj_of [(''uri'', uri_value (pmr_uri r)), (''sha256'', sha_value x (pmr_sha256 r)),
       (''length'', u64_value (pmr_length r)), (''height'', u32_value (pmr_height r))]"

definition checkpoint_to_value :: "externals \<Rightarrow> checkpoint \<Rightarrow> canonical_value" where
  "checkpoint_to_value x c =
     obj_of [(''table_version'', u64_value (cp_table_version c)), (''uri'', uri_value (cp_uri c)),
       (''sha256'', sha_value x (cp_sha256 c)), (''length'', u64_value (cp_length c))]"

definition checkpoint_page_index_to_value :: "externals \<Rightarrow> checkpoint_page_index \<Rightarrow> canonical_value" where
  "checkpoint_page_index_to_value x p =
     obj_of [(''checkpoint_sha256'', sha_value x (cpi_checkpoint_sha256 p)),
       (''checkpoint_length'', u64_value (cpi_checkpoint_length p)), (''page_size'', u32_value (cpi_page_size p)),
       (''page_count'', u64_value (cpi_page_count p)), (''root'', page_map_root_to_value x (cpi_root p))]"

definition metadata_image_to_value :: "externals \<Rightarrow> metadata_image \<Rightarrow> canonical_value" where
  "metadata_image_to_value x m =
     obj_of ([(''codec'', CString (mi_codec m)), (''page_size'', u32_value (mi_page_size m)),
       (''page_count'', u64_value (mi_page_count m)), (''checkpoint'', checkpoint_to_value x (mi_checkpoint m)),
       (''page_map'', or_null (page_map_root_to_value x) (mi_page_map m))]
       @ if_some ''checkpoint_page_index'' (checkpoint_page_index_to_value x) (mi_checkpoint_page_index m)
       @ [(''image_root_sha256'', sha_value x (mi_image_root_sha256 m))])"

definition generation_to_value :: "externals \<Rightarrow> generation \<Rightarrow> canonical_value" where
  "generation_to_value x g =
     obj_of ([(''kind'', CString (g_kind g)), (''format_version'', u32_value (g_format_version g)),
       (''table_id'', id_value x (g_table_id g)), (''table_version'', u64_value (g_table_version g)),
       (''generation_id'', id_value x (g_generation_id g)),
       (''created_at_ms'', CString (json_i64_to_string (g_created_at_ms g))),
       (''semantic_state_sha256'', sha_value x (g_semantic_state_sha256 g)),
       (''semantic_commit'', object_reference_to_value x (g_semantic_commit g))]
       @ if_some ''physical_parent'' (object_reference_to_value x) (g_physical_parent g)
       @ [(''metadata_image'', metadata_image_to_value x (g_metadata_image g)),
          (''scan_projection'', or_null (\<lambda>v. v) (g_scan_projection g)), (''metadata'', CObject (g_metadata g))])"

section \<open>Helpers of the runtime\<close>

definition json_value :: "wire \<Rightarrow> canonical_value \<Rightarrow> (runtime_error, canonical_value) result" where
  "json_value w v = map_err ProtocolErr (to_value (w_serde w) v)"

definition json_vec :: "wire \<Rightarrow> canonical_value \<Rightarrow> (runtime_error, byte list) result" where
  "json_vec w v = map_err ProtocolErr (to_vec (w_serde w) (w_ext w) v)"

definition commit_body :: "wire \<Rightarrow> semantic_commit \<Rightarrow> (runtime_error, byte list) result" where
  "commit_body w commit =
     and_then (json_value w (commit_to_value (w_ext w) commit)) (\<lambda>value.
       case value of
         CObject entries \<Rightarrow>
           map_err ProtocolErr (encode (w_ext w) (CObject (bt_remove ''semantic_state_sha256'' entries)))
       | _ \<Rightarrow> Inl (Corrupt ''commit did not encode as an object''))"

text \<open>\<^verbatim>\<open>String::from_utf8\<close> of the canonical bytes; the error's text is the argument \<open>bad\<close>.\<close>

definition canonical_text :: "wire \<Rightarrow> (byte list \<Rightarrow> string) \<Rightarrow> canonical_value \<Rightarrow> (runtime_error, string) result" where
  "canonical_text w bad v =
     and_then (json_vec w v) (\<lambda>bs.
       if utf8_valid bs then Inr (string_of_bytes bs) else Inl (Corrupt (bad bs)))"

definition CORE_FEATURE :: string where "CORE_FEATURE = ''otmp.core.v2''"
definition SQLITE_COW_FEATURE :: string where "SQLITE_COW_FEATURE = ''otmp.metadata.sqlite3-cow.v1''"
definition PARQUET_FEATURE :: string where "PARQUET_FEATURE = ''otmp.data.parquet.v1''"

definition runtime_features :: "(protocol_error, feature_set) result" where
  "runtime_features = feature_set_new [CORE_FEATURE, PARQUET_FEATURE, SQLITE_COW_FEATURE, ''otmp.refs.v1'']"

definition object_reference_of :: "relative_uri \<Rightarrow> sha256 \<Rightarrow> u64 \<Rightarrow> string \<Rightarrow> object_reference" where
  "object_reference_of uri sha len media_type =
     \<lparr>or_uri = uri, or_sha256 = sha, or_length = Some len, or_media_type = Some media_type\<rparr>"

definition id_from_blob :: "externals \<Rightarrow> byte list \<Rightarrow> (runtime_error, id) result" where
  "id_from_blob x blob =
     (if length blob \<noteq> 16 then Inl (Corrupt ''invalid ID blob'')
      else map_err ProtocolErr (id_try_from_bytes x blob))"

definition hash_from_blob :: "byte list \<Rightarrow> (runtime_error, sha256) result" where
  "hash_from_blob blob =
     (if length blob \<noteq> 32 then Inl (Corrupt ''invalid SHA-256 blob'') else Inr (Sha256 blob))"

definition nonnegative :: "i64 \<Rightarrow> string \<Rightarrow> (runtime_error, u64) result" where
  "nonnegative v name = (if sint v < 0 then Inl (Corrupt (''negative '' @ name)) else Inr v)"

definition scalar_is_nan :: "typed_scalar \<Rightarrow> bool" where
  "scalar_is_nan v =
     (case v of TFloat32 b \<Rightarrow> f32_is_nan b | TFloat64 b \<Rightarrow> f64_is_nan b | _ \<Rightarrow> False)"

text \<open>The integers of results: \<^verbatim>\<open>u64_string\<close>.\<close>

definition u64_string_deserialize :: "string \<Rightarrow> (string, u64) result" where
  "u64_string_deserialize s =
     (if s = [] \<or> starts_with ''+'' s \<or> (starts_with ''0'' s \<and> length s > 1) \<or> \<not> list_all is_digit s
      then Inl ''noncanonical u64 decimal string''
      else ok_or ''number too large to fit in target type'' (parse_u64 s))"

end
