(* ===== verification/Transactions.thy ===== *)
theory Transactions
  imports Object_Json "HOL-Library.Multiset"
begin

text \<open>
  Metadata transactions, \<^verbatim>\<open>otmp/src/runtime/transactions.rs\<close>: requirements and their evaluation, additive schema
  evolution, and the matrix of operations and the preconditions each of them needs.

  A connection is the answers of its queries (\<open>connection\<close>); SQLite and the assembly of a stored schema stand
  outside. The derived debug form of a requirement, which only an error message contains, is an argument too.
\<close>

section \<open>Data\<close>

datatype ref_type = Branch | Tag

fun ref_type_as_str :: "ref_type \<Rightarrow> string" where
  "ref_type_as_str Branch = ''branch''"
| "ref_type_as_str Tag = ''tag''"

datatype requirement =
    PropertyIs string canonical_value
  | RefAbsent string
  | RefExists string ref_type
  | RefSnapshotIs string "id option"
  | SnapshotExists id
  | CurrentSchemaIs u32
  | SchemaIdAbsent u32
  | FieldIdsAbsent "u32 list"
  | DefaultPartitionSpecIs u32
  | DefaultSortOrderIs u32

datatype operation_request =
    SetProperties (operation_id: string) "(string, canonical_value) btree" "string list"
  | CreateRef (operation_id: string) string ref_type "id option"
  | ReplaceRef (operation_id: string) string id
  | DropRef (operation_id: string) string
  | AddSchema (operation_id: string) schema
  | SetCurrentSchema (operation_id: string) u32

record transaction_request =
  tr_idempotency_key :: string
  tr_requirements :: "requirement list"
  tr_operations :: "operation_request list"
  tr_commit_metadata :: members

datatype operation_result =
    PropertiesResult (result_id: string) "string list"
  | RefResult (result_id: string) string ref_type "id option"
  | SchemaResult (result_id: string) u32

text \<open>The columns of a snapshot: parent, sequence number, table version, schema, partition spec, sort order, operation,
  time, summary and metadata.\<close>

type_synonym snapshot_row = "byte list option \<times> i64 \<times> i64 \<times> u32 \<times> u32 \<times> u32 \<times> string \<times> i64 \<times> string \<times> string"

record connection =
  cn_ext :: externals
  cn_serde :: serde
  cn_debug :: "requirement \<Rightarrow> string"
  cn_property :: "string \<Rightarrow> (runtime_error, string option) result"
  cn_ref :: "string \<Rightarrow> (runtime_error, (string \<times> byte list option) option) result"
  cn_snapshot_exists :: "byte list \<Rightarrow> (runtime_error, bool) result"
  cn_snapshot_row :: "byte list \<Rightarrow> (runtime_error, snapshot_row option) result"
  cn_schema_exists :: "u32 \<Rightarrow> (runtime_error, bool) result"
  cn_field_exists :: "u32 \<Rightarrow> (runtime_error, bool) result"
  cn_current_schema :: "(runtime_error, u32) result"
  cn_default_partition_spec :: "(runtime_error, u32) result"
  cn_default_sort_order :: "(runtime_error, u32) result"
  cn_read_schema :: "u32 \<Rightarrow> (runtime_error, schema) result"

definition invalid :: "string \<Rightarrow> (runtime_error, 'a) result" where
  "invalid m = Inl (InvalidTransaction m)"

section \<open>Requirements\<close>

definition ref_row :: "connection \<Rightarrow> string \<Rightarrow> (runtime_error, (ref_type \<times> id option) option) result" where
  "ref_row cn name =
     and_then (cn_ref cn name) (\<lambda>row.
       case row of
         None \<Rightarrow> Inr None
       | Some (kind, blob) \<Rightarrow>
           and_then (if kind = ''branch'' then Inr Branch else if kind = ''tag'' then Inr Tag
                     else Inl (Corrupt ''invalid ref type'')) (\<lambda>kind.
           and_then (case blob of None \<Rightarrow> Inr None
                     | Some b \<Rightarrow> and_then (id_from_blob (cn_ext cn) b) (\<lambda>i. Inr (Some i))) (\<lambda>snapshot.
             Inr (Some (kind, snapshot)))))"

text \<open>One field identifier of \<^verbatim>\<open>field_ids_absent\<close>.\<close>

definition field_absent_step :: "connection \<Rightarrow> u32 set \<Rightarrow> u32 \<Rightarrow> (runtime_error, u32 set) result" where
  "field_absent_step cn absent i =
     (if i = 0 \<or> i \<in> absent then Inl (SemanticConflict ''field ID already exists or is invalid'')
      else and_then (cn_field_exists cn i) (\<lambda>taken.
        if taken then Inl (SemanticConflict ''field ID already exists or is invalid'') else Inr (insert i absent)))"

fun matched :: "connection \<Rightarrow> requirement \<Rightarrow> (runtime_error, bool) result" where
  "matched cn (PropertyIs key value) =
     and_then (cn_property cn key) (\<lambda>actual.
       case actual of
         None \<Rightarrow> Inr (value = CNull)
       | Some text \<Rightarrow>
           and_then (map_err ProtocolErr (parse_canonical (cn_serde cn) (cn_ext cn) (as_bytes text))) (\<lambda>v. Inr (v = value)))"
| "matched cn (RefAbsent name) = and_then (ref_row cn name) (\<lambda>r. Inr (r = None))"
| "matched cn (RefExists name kind) =
     and_then (ref_row cn name) (\<lambda>r. Inr (case r of None \<Rightarrow> False | Some (k, _) \<Rightarrow> k = kind))"
| "matched cn (RefSnapshotIs name snapshot) =
     and_then (ref_row cn name) (\<lambda>r. Inr (case r of None \<Rightarrow> False | Some (_, s) \<Rightarrow> s = snapshot))"
| "matched cn (SnapshotExists i) = cn_snapshot_exists cn (id_as_bytes i)"
| "matched cn (CurrentSchemaIs i) = and_then (cn_current_schema cn) (\<lambda>c. Inr (c = i))"
| "matched cn (SchemaIdAbsent i) = and_then (cn_schema_exists cn i) (\<lambda>b. Inr (\<not> b))"
| "matched cn (FieldIdsAbsent is) = and_then (try_fold (field_absent_step cn) {} is) (\<lambda>_. Inr True)"
| "matched cn (DefaultPartitionSpecIs i) = and_then (cn_default_partition_spec cn) (\<lambda>c. Inr (c = i))"
| "matched cn (DefaultSortOrderIs i) = and_then (cn_default_sort_order cn) (\<lambda>c. Inr (c = i))"

definition evaluate :: "connection \<Rightarrow> requirement list \<Rightarrow> (runtime_error, unit) result" where
  "evaluate cn requirements =
     try_fold (\<lambda>_ r. and_then (matched cn r) (\<lambda>ok.
       if \<not> ok then Inl (SemanticConflict (''requirement failed: '' @ cn_debug cn r)) else Inr ())) () requirements"

definition required :: "transaction_request \<Rightarrow> requirement \<Rightarrow> (runtime_error, unit) result" where
  "required request r =
     (if length (filter (\<lambda>q. q = r) (tr_requirements request)) \<noteq> 1
      then invalid ''operation requires exactly one matching precondition'' else Inr ())"

text \<open>\<^verbatim>\<open>chars().any(char::is_control)\<close> on UTF-8: the controls below the space, the delete character, and \<^verbatim>\<open>U+0080\<close> to \<^verbatim>\<open>U+009F\<close>.\<close>

fun has_control :: "string \<Rightarrow> bool" where
  "has_control [] = False"
| "has_control (c # cs) =
     ((of_char c :: nat) < 32 \<or> (of_char c :: nat) = 127
      \<or> ((of_char c :: nat) = 0xC2 \<and> (case cs of [] \<Rightarrow> False | d # _ \<Rightarrow> 0x80 \<le> (of_char d :: nat) \<and> (of_char d :: nat) \<le> 0x9F))
      \<or> has_control cs)"

definition validate_ref_name :: "string \<Rightarrow> string set \<Rightarrow> (runtime_error, string set) result" where
  "validate_ref_name name refs =
     (if name = [] \<or> has_control name \<or> name \<in> refs then invalid ''invalid or repeated ref name''
      else Inr (insert name refs))"

section \<open>Additive schemas\<close>

fun collect_new_field :: "field \<Rightarrow> u32 set \<Rightarrow> (runtime_error, u32 set) result"
  and collect_new_type :: "logical_type \<Rightarrow> u32 set \<Rightarrow> (runtime_error, u32 set) result"
  and collect_new_fields :: "field list \<Rightarrow> u32 set \<Rightarrow> (runtime_error, u32 set) result" where
  "collect_new_field (Field i n req t d a b) ids =
     (if req then invalid ''new fields must be optional'' else collect_new_type t (insert i ids))"
| "collect_new_type (LStruct fs) ids = collect_new_fields fs ids"
| "collect_new_type (LList e) ids = collect_new_field e ids"
| "collect_new_type (LMap k v) ids = and_then (collect_new_field k ids) (\<lambda>ids. collect_new_field v ids)"
| "collect_new_type _ ids = Inr ids"
| "collect_new_fields [] ids = Inr ids"
| "collect_new_fields (f # fs) ids = and_then (collect_new_field f ids) (\<lambda>ids. collect_new_fields fs ids)"

definition with_type :: "field \<Rightarrow> logical_type \<Rightarrow> field" where
  "with_type f t = Field (f_field_id f) (f_name f) (f_required f) t (f_doc f) (f_initial_default f) (f_write_default f)"

text \<open>
  \<^verbatim>\<open>additive_fields\<close>: the pairs of the zipped lists, then the rest of the new list. The old list is never the longer
  one when \<open>additive_pairs\<close> is entered.
\<close>

function additive_fields :: "field list \<Rightarrow> field list \<Rightarrow> u32 set \<Rightarrow> (runtime_error, u32 set) result"
  and additive_pairs :: "field list \<Rightarrow> field list \<Rightarrow> u32 set \<Rightarrow> (runtime_error, u32 set) result"
  and additive_type :: "logical_type \<Rightarrow> logical_type \<Rightarrow> u32 set \<Rightarrow> (runtime_error, u32 set) result" where
  "additive_fields old new ids =
     (if length new < length old then invalid ''field removal'' else additive_pairs old new ids)"
| "additive_pairs [] new ids = collect_new_fields new ids"
| "additive_pairs (a # old) [] ids = Inr ids"
| "additive_pairs (a # old) (b # new) ids =
     (if \<not> field_eq a (with_type b (f_field_type a)) then invalid ''existing field changed or reordered''
      else and_then (additive_type (f_field_type a) (f_field_type b) ids) (\<lambda>ids. additive_pairs old new ids))"
| "additive_type a b ids =
     (case (a, b) of
        (LStruct fa, LStruct fb) \<Rightarrow> additive_fields fa fb ids
      | (LList ea, LList eb) \<Rightarrow> additive_fields [ea] [eb] ids
      | (LMap ka va, LMap kb vb) \<Rightarrow>
          if field_eq ka kb then additive_fields [va] [vb] ids else invalid ''type change is not additive''
      | _ \<Rightarrow> if type_eq a b then Inr ids else invalid ''type change is not additive'')"
  by pat_completeness auto
termination
  by (relation "measure (\<lambda>a. case a of
        Inl (old, _) \<Rightarrow> sum_list (map field_size old) + 2
      | Inr (Inl (old, _)) \<Rightarrow> sum_list (map field_size old) + 1
      | Inr (Inr (t, _)) \<Rightarrow> type_size t)") auto

declare additive_type.simps [simp del]

definition additive_schema :: "schema \<Rightarrow> schema \<Rightarrow> (runtime_error, u32 list) result" where
  "additive_schema old new =
     and_then (map_err ProtocolErr (schema_validate new)) (\<lambda>_.
       if sch_parent_schema_id new \<noteq> Some (sch_schema_id old) \<or> sch_identifier_field_ids new \<noteq> sch_identifier_field_ids old
       then invalid ''schema parent or identifiers changed''
       else and_then (additive_fields (sch_fields old) (sch_fields new) {}) (\<lambda>ids. Inr (sorted_list_of_set ids)))"

section \<open>Preparing operations\<close>

record prepare_state =
  ps_ids :: "string set"
  ps_keys :: "string set"
  ps_refs :: "string set"
  ps_add_schema :: bool
  ps_set_schema :: bool

definition property_key_step :: "transaction_request \<Rightarrow> string set \<Rightarrow> string \<Rightarrow> (runtime_error, string set) result" where
  "property_key_step request keys key =
     (if key = [] \<or> starts_with ''otmp.'' key \<or> key \<in> keys
      then invalid ''reserved, empty, overlapping, or repeated property key''
      else if length (filter (\<lambda>r. case r of PropertyIs k _ \<Rightarrow> k = key | _ \<Rightarrow> False) (tr_requirements request)) \<noteq> 1
      then invalid ''each property key requires exactly one property_is''
      else Inr (insert key keys))"

definition prepare_add_schema :: "connection \<Rightarrow> transaction_request \<Rightarrow> schema \<Rightarrow> (runtime_error, unit) result" where
  "prepare_add_schema cn request schema =
     and_then (cn_current_schema cn) (\<lambda>current.
     and_then (required request (CurrentSchemaIs current)) (\<lambda>_.
     and_then (required request (SchemaIdAbsent (sch_schema_id schema))) (\<lambda>_.
     and_then (cn_read_schema cn current) (\<lambda>old.
     and_then (additive_schema old schema) (\<lambda>new_ids.
       case concat (map (\<lambda>r. case r of FieldIdsAbsent is \<Rightarrow> [is] | _ \<Rightarrow> []) (tr_requirements request)) of
         [] \<Rightarrow> invalid ''field_ids_absent required''
       | actual # others \<Rightarrow>
           if others \<noteq> [] \<or> sort actual \<noteq> new_ids
           then invalid ''field_ids_absent must cover exactly all new IDs'' else Inr ())))))"

fun prepare_operation :: "connection \<Rightarrow> transaction_request \<Rightarrow> prepare_state \<Rightarrow> operation_request
    \<Rightarrow> (runtime_error, operation_result \<times> prepare_state) result" where
  "prepare_operation cn request s (SetProperties i updates removals) =
     (if list_ex (\<lambda>(_, v). v = CNull) updates then invalid ''top-level null property value''
      else
        and_then (try_fold (property_key_step request) (ps_keys s) (map fst updates @ removals)) (\<lambda>keys.
          Inr (PropertiesResult i (sort (map fst updates @ removals)), s\<lparr>ps_keys := keys\<rparr>)))"
| "prepare_operation cn request s (CreateRef i name kind snapshot) =
     and_then (required request (RefAbsent name)) (\<lambda>_.
     if kind = Tag \<and> snapshot = None then invalid ''tags require a snapshot''
     else
       and_then (case snapshot of None \<Rightarrow> Inr () | Some h \<Rightarrow> required request (SnapshotExists h)) (\<lambda>_.
       and_then (validate_ref_name name (ps_refs s)) (\<lambda>refs.
         Inr (RefResult i name kind snapshot, s\<lparr>ps_refs := refs\<rparr>))))"
| "prepare_operation cn request s (ReplaceRef i name snapshot) =
     and_then (ref_row cn name) (\<lambda>row.
     and_then (ok_or (RefNotFound name) row) (\<lambda>(_, old).
     and_then (required request (RefExists name Branch)) (\<lambda>_.
     and_then (required request (RefSnapshotIs name old)) (\<lambda>_.
     and_then (required request (SnapshotExists snapshot)) (\<lambda>_.
     and_then (validate_ref_name name (ps_refs s)) (\<lambda>refs.
       Inr (RefResult i name Branch (Some snapshot), s\<lparr>ps_refs := refs\<rparr>)))))))"
| "prepare_operation cn request s (DropRef i name) =
     (if name = ''main'' then invalid ''main cannot be dropped''
      else
        and_then (ref_row cn name) (\<lambda>row.
        and_then (ok_or (RefNotFound name) row) (\<lambda>(kind, old).
        and_then (required request (RefExists name kind)) (\<lambda>_.
        and_then (required request (RefSnapshotIs name old)) (\<lambda>_.
        and_then (validate_ref_name name (ps_refs s)) (\<lambda>refs.
          Inr (RefResult i name kind old, s\<lparr>ps_refs := refs\<rparr>)))))))"
| "prepare_operation cn request s (AddSchema i schema) =
     (if ps_add_schema s then invalid ''only one add_schema is supported''
      else
        and_then (prepare_add_schema cn request schema) (\<lambda>_.
          Inr (SchemaResult i (sch_schema_id schema), s\<lparr>ps_add_schema := True\<rparr>)))"
| "prepare_operation cn request s (SetCurrentSchema i schema_id) =
     (if ps_set_schema s then invalid ''only one set_current_schema is supported''
      else
        and_then (cn_current_schema cn) (\<lambda>current.
        and_then (required request (CurrentSchemaIs current)) (\<lambda>_.
          Inr (SchemaResult i schema_id, s\<lparr>ps_set_schema := True\<rparr>))))"

definition prepare_step :: "connection \<Rightarrow> transaction_request \<Rightarrow> operation_result list \<times> prepare_state \<Rightarrow> operation_request
    \<Rightarrow> (runtime_error, operation_result list \<times> prepare_state) result" where
  "prepare_step cn request acc op =
     (case acc of (results, s) \<Rightarrow>
      if operation_id op = [] \<or> operation_id op \<in> ps_ids s then invalid ''operation IDs must be nonempty and unique''
      else
        and_then (prepare_operation cn request (s\<lparr>ps_ids := insert (operation_id op) (ps_ids s)\<rparr>) op) (\<lambda>(result, s).
          Inr (results @ [result], s)))"

definition prepare_operations :: "connection \<Rightarrow> transaction_request \<Rightarrow> (runtime_error, operation_result list) result" where
  "prepare_operations cn request =
     (if tr_idempotency_key request = [] \<or> tr_idempotency_key request = ''otmp.genesis'' \<or> tr_operations request = []
      then invalid ''nonempty key and operations required''
      else
        and_then (evaluate cn (tr_requirements request)) (\<lambda>_.
        and_then (try_fold (prepare_step cn request)
            ([], \<lparr>ps_ids = {}, ps_keys = {}, ps_refs = {}, ps_add_schema = False, ps_set_schema = False\<rparr>)
            (tr_operations request)) (\<lambda>(results, _).
          Inr results)))"

section \<open>Additive schemas keep the old fields\<close>

text \<open>A field declared as another one but for its type, with equal defaults; and types of the same kind, map keys being equal as a whole.\<close>

definition declared_as :: "field \<Rightarrow> field \<Rightarrow> bool" where
  "declared_as f g =
     (f_field_id f = f_field_id g \<and> f_name f = f_name g \<and> f_required f = f_required g \<and> f_doc f = f_doc g
      \<and> rel_option typed_scalar_eq (f_initial_default f) (f_initial_default g)
      \<and> rel_option typed_scalar_eq (f_write_default f) (f_write_default g))"

definition same_kind :: "logical_type \<Rightarrow> logical_type \<Rightarrow> bool" where
  "same_kind s t =
     (case (s, t) of
        (LStruct _, LStruct _) \<Rightarrow> True
      | (LList _, LList _) \<Rightarrow> True
      | (LMap k _, LMap l _) \<Rightarrow> field_eq k l
      | _ \<Rightarrow> s = t)"

definition keeps_positions :: "field list \<Rightarrow> field list \<Rightarrow> bool" where
  "keeps_positions old new =
     (\<forall>p f. field_at old p = Some f \<longrightarrow>
        (\<exists>g. field_at new p = Some g \<and> declared_as f g \<and> same_kind (f_field_type f) (f_field_type g)))"

definition added_fields :: "field list \<Rightarrow> field list \<Rightarrow> field set" where
  "added_fields old new = {g. \<exists>p. field_at new p = Some g \<and> field_at old p = None}"

lemma ex_positions: "(\<exists>p. P p) \<longleftrightarrow> P [] \<or> P [0] \<or> (\<exists>p. p \<noteq> [] \<and> P (0 # p)) \<or> (\<exists>i p. P (Suc i # p))"
  using all_positions [of "\<lambda>p. \<not> P p"] by blast

lemma nonempty_field_at: "(p \<noteq> [] \<longrightarrow> field_at fs p = Some f \<longrightarrow> Q) \<longleftrightarrow> (field_at fs p = Some f \<longrightarrow> Q)"
  by auto

lemma all_tail_positions: "P [] \<Longrightarrow> (\<forall>i p. P (i # p)) \<longleftrightarrow> (\<forall>p. P p)"
  by (metis list.exhaust)

lemma keeps_positions_simps:
  "keeps_positions [] new"
  "keeps_positions (f # fs) [] \<longleftrightarrow> False"
  "keeps_positions (f # fs) (g # gs) \<longleftrightarrow> declared_as f g \<and> same_kind (f_field_type f) (f_field_type g)
     \<and> keeps_positions (nested_fields (f_field_type f)) (nested_fields (f_field_type g)) \<and> keeps_positions fs gs"
proof -
  show "keeps_positions [] new" by (simp add: keeps_positions_def)
  show "keeps_positions (f # fs) [] \<longleftrightarrow> False" by (auto simp: keeps_positions_def intro!: exI [of _ "[0]"])
  let ?R = "\<lambda>a b. declared_as a b \<and> same_kind (f_field_type a) (f_field_type b)"
  let ?K = "\<lambda>old new p. \<forall>a. field_at old p = Some a \<longrightarrow> (\<exists>b. field_at new p = Some b \<and> ?R a b)"
  have k: "keeps_positions old new \<longleftrightarrow> (\<forall>p. ?K old new p)" for old new by (simp add: keeps_positions_def)
  have "(\<forall>p. p \<noteq> [] \<longrightarrow> ?K (f # fs) (g # gs) (0 # p)) \<longleftrightarrow> (\<forall>p. ?K (nested_fields (f_field_type f)) (nested_fields (f_field_type g)) p)"
    by (auto simp: neq_Nil_conv) (metis field_at.simps(1) list.exhaust option.distinct(1))
  moreover have "(\<forall>i p. ?K (f # fs) (g # gs) (Suc i # p)) \<longleftrightarrow> (\<forall>p. ?K fs gs p)"
    using all_tail_positions [of "?K fs gs"] by simp
  moreover have "?K (f # fs) (g # gs) [0] \<longleftrightarrow> ?R f g" by simp
  ultimately show "keeps_positions (f # fs) (g # gs) \<longleftrightarrow> declared_as f g \<and> same_kind (f_field_type f) (f_field_type g)
     \<and> keeps_positions (nested_fields (f_field_type f)) (nested_fields (f_field_type g)) \<and> keeps_positions fs gs"
    unfolding k using all_positions [of "?K (f # fs) (g # gs)"] by simp
qed

lemma added_fields_simps:
  "added_fields old [] = {}"
  "added_fields [] (g # gs) = insert g (added_fields [] (nested_fields (f_field_type g)) \<union> added_fields [] gs)"
  "added_fields (f # fs) (g # gs) = added_fields (nested_fields (f_field_type f)) (nested_fields (f_field_type g)) \<union> added_fields fs gs"
proof -
  show "added_fields old [] = {}" by (simp add: added_fields_def)
  let ?A = "\<lambda>old new h p. field_at new p = Some h \<and> field_at old p = None"
  have m: "h \<in> added_fields old new \<longleftrightarrow> (\<exists>p. ?A old new h p)" for h old new by (simp add: added_fields_def)
  have tail: "(\<exists>i p. ?A old new h (i # p)) \<longleftrightarrow> (\<exists>p. ?A old new h p)" for old new h
    by (metis list.exhaust field_at.simps(1) option.distinct(1))
  have inner: "(\<exists>p. p \<noteq> [] \<and> ?A old new h p) \<longleftrightarrow> (\<exists>p. ?A old new h p)" for old new h by (metis field_at.simps(1) option.distinct(1))
  show "added_fields [] (g # gs) = insert g (added_fields [] (nested_fields (f_field_type g)) \<union> added_fields [] gs)"
  proof (rule set_eqI)
    fix h
    have "(\<exists>p. p \<noteq> [] \<and> ?A [] (g # gs) h (0 # p)) \<longleftrightarrow> h \<in> added_fields [] (nested_fields (f_field_type g))"
      unfolding m inner [symmetric] by (auto cong: conj_cong)
    moreover have "(\<exists>i p. ?A [] (g # gs) h (Suc i # p)) \<longleftrightarrow> h \<in> added_fields [] gs" unfolding m tail [symmetric] by simp
    ultimately show "h \<in> added_fields [] (g # gs) \<longleftrightarrow> h \<in> insert g (added_fields [] (nested_fields (f_field_type g)) \<union> added_fields [] gs)"
      unfolding m [of h "[]" "g # gs"] using ex_positions [of "?A [] (g # gs) h"] by auto
  qed
  show "added_fields (f # fs) (g # gs) = added_fields (nested_fields (f_field_type f)) (nested_fields (f_field_type g)) \<union> added_fields fs gs"
  proof (rule set_eqI)
    fix h
    have "(\<exists>p. p \<noteq> [] \<and> ?A (f # fs) (g # gs) h (0 # p)) \<longleftrightarrow> h \<in> added_fields (nested_fields (f_field_type f)) (nested_fields (f_field_type g))"
      unfolding m inner [symmetric] by (auto cong: conj_cong)
    moreover have "(\<exists>i p. ?A (f # fs) (g # gs) h (Suc i # p)) \<longleftrightarrow> h \<in> added_fields fs gs" unfolding m tail [symmetric] by simp
    ultimately show "h \<in> added_fields (f # fs) (g # gs)
        \<longleftrightarrow> h \<in> added_fields (nested_fields (f_field_type f)) (nested_fields (f_field_type g)) \<union> added_fields fs gs"
      unfolding m [of h "f # fs" "g # gs"] using ex_positions [of "?A (f # fs) (g # gs) h"] by auto
  qed
qed

lemma typed_scalar_eq_refl: "typed_scalar_eq a b \<Longrightarrow> typed_scalar_eq a a"
  by (cases a; cases b)
    (auto simp: typed_scalar_eq_def f32_partial_cmp_def f64_partial_cmp_def float_cmp_def split: if_splits)

lemma declared_as_refl: "declared_as f g \<Longrightarrow> declared_as f f"
  using typed_scalar_eq_refl by (auto simp: declared_as_def option_rel_Some1 elim!: option.rel_cases)

lemma field_eq_declared: "field_eq f g \<longleftrightarrow> declared_as f g \<and> type_eq (f_field_type f) (f_field_type g)"
  by (cases f) (auto simp: declared_as_def)

lemma declared_with_type: "declared_as f (with_type g t) \<longleftrightarrow> declared_as f g"
  by (simp add: declared_as_def with_type_def)

text \<open>Equal fields keep their positions and add nothing; what keeps its positions is free of NaN and so equals itself.\<close>

lemma type_eq_keeps:
  "type_eq s t \<Longrightarrow> same_kind s t \<and> keeps_positions (nested_fields s) (nested_fields t) \<and> added_fields (nested_fields s) (nested_fields t) = {}"
  "field_eq f g \<Longrightarrow> keeps_positions [f] [g] \<and> added_fields [f] [g] = {}"
  "fields_eq fs gs \<Longrightarrow> keeps_positions fs gs \<and> added_fields fs gs = {}"
proof (induction s t and f g and fs gs rule: type_eq_field_eq_fields_eq.induct)
  case (1 fs t)
  then show ?case by (cases t) (auto simp: same_kind_def nested_fields_def)
next
  case (2 e t)
  then show ?case by (cases t) (auto simp: same_kind_def nested_fields_def)
next
  case (3 k v t)
  then show ?case by (cases t) (auto simp: same_kind_def nested_fields_def keeps_positions_simps added_fields_simps)
next
  case (5 i n r s c a b f)
  then show ?case by (cases f) (auto simp: keeps_positions_simps added_fields_simps declared_as_def)
next
  case (7 f fs gs)
  then show ?case by (cases gs) (auto simp: keeps_positions_simps added_fields_simps field_eq_declared)
qed (auto simp: same_kind_def nested_fields_def keeps_positions_simps added_fields_simps)

lemma type_eq_nested: "fields_eq (nested_fields s) (nested_fields s) \<Longrightarrow> type_eq s s"
  by (cases s) (simp_all add: nested_fields_def)

lemma nested_smaller: "sum_list (map field_size (nested_fields (f_field_type f))) < field_size f"
  by (cases f; cases "f_field_type f") (auto simp: nested_fields_def)

lemma keeps_positions_refl: "keeps_positions fs gs \<Longrightarrow> fields_eq fs fs"
proof (induction fs arbitrary: gs rule: measure_induct_rule [where f = "\<lambda>fs. sum_list (map field_size fs)"])
  case (less fs)
  show ?case
  proof (cases fs)
    case (Cons f fs')
    then obtain g gs' where g: "declared_as f g" "keeps_positions (nested_fields (f_field_type f)) (nested_fields (f_field_type g))"
      "keeps_positions fs' gs'" using less.prems by (cases gs) (auto simp: keeps_positions_simps)
    have "fields_eq (nested_fields (f_field_type f)) (nested_fields (f_field_type f))"
      by (rule less.IH [OF _ g(2)]) (use nested_smaller [of f] in \<open>simp add: Cons del: field_size_type\<close>)
    moreover have "fields_eq fs' fs'" by (rule less.IH [OF _ g(3)]) (simp add: Cons)
    ultimately show ?thesis by (simp add: Cons field_eq_declared type_eq_nested declared_as_refl [OF g(1)])
  qed simp
qed

lemma collect_new:
  "collect_new_field f ids = Inr ids' \<longleftrightarrow> (\<forall>g \<in> added_fields [] [f]. \<not> f_required g) \<and> ids' = ids \<union> f_field_id ` added_fields [] [f]"
  "collect_new_type t ids = Inr ids' \<longleftrightarrow> (\<forall>g \<in> added_fields [] (nested_fields t). \<not> f_required g)
     \<and> ids' = ids \<union> f_field_id ` added_fields [] (nested_fields t)"
  "collect_new_fields fs ids = Inr ids' \<longleftrightarrow> (\<forall>g \<in> added_fields [] fs. \<not> f_required g) \<and> ids' = ids \<union> f_field_id ` added_fields [] fs"
proof (induction f ids and t ids and fs ids arbitrary: ids' and ids' and ids'
    rule: collect_new_field_collect_new_type_collect_new_fields.induct)
  case (1 i n req t c a b ids)
  then show ?case by (auto simp: added_fields_simps invalid_def)
next
  case (4 k v ids)
  then show ?case by (auto simp: added_fields_simps nested_fields_def and_then_eq_Inr)
next
  case (7 f fs ids)
  then show ?case by (auto simp: added_fields_simps and_then_eq_Inr)
qed (auto simp: added_fields_simps nested_fields_def)

lemma additive_positions:
  "additive_fields old new ids = Inr ids' \<longleftrightarrow> keeps_positions old new \<and> (\<forall>g \<in> added_fields old new. \<not> f_required g)
     \<and> ids' = ids \<union> f_field_id ` added_fields old new"
  "length old \<le> length new \<Longrightarrow>
     additive_pairs old new ids = Inr ids' \<longleftrightarrow> keeps_positions old new \<and> (\<forall>g \<in> added_fields old new. \<not> f_required g)
     \<and> ids' = ids \<union> f_field_id ` added_fields old new"
  "additive_type a b ids = Inr ids' \<longleftrightarrow> same_kind a b \<and> keeps_positions (nested_fields a) (nested_fields b)
     \<and> (\<forall>g \<in> added_fields (nested_fields a) (nested_fields b). \<not> f_required g)
     \<and> ids' = ids \<union> f_field_id ` added_fields (nested_fields a) (nested_fields b)"
proof (induction old new ids and old new ids and a b ids arbitrary: ids' and ids' and ids'
    rule: additive_fields_additive_pairs_additive_type.induct)
  case (1 old new ids)
  have "length old \<le> length new" if "keeps_positions old new"
    using that
  proof (induction old arbitrary: new)
    case (Cons a old)
    then show ?case by (cases new) (auto simp: keeps_positions_simps)
  qed simp
  then show ?case using 1 by (auto simp: invalid_def)
next
  case (2 new ids)
  then show ?case by (simp add: keeps_positions_simps collect_new)
next
  case (3 a old ids)
  then show ?case by simp
next
  case (4 a old b new ids)
  have own: "field_eq a (with_type b (f_field_type a)) \<longleftrightarrow> declared_as a b \<and> type_eq (f_field_type a) (f_field_type a)"
    by (simp add: field_eq_declared declared_with_type) (simp add: with_type_def)
  have self: "type_eq (f_field_type a) (f_field_type a)"
    if "keeps_positions (nested_fields (f_field_type a)) (nested_fields (f_field_type b))"
    using that by (rule type_eq_nested [OF keeps_positions_refl])
  show ?case
  proof (cases "declared_as a b \<and> type_eq (f_field_type a) (f_field_type a)")
    case True
    have len: "length old \<le> length new" using "4.prems" by simp
    show ?thesis
      using True "4.IH"(1) [unfolded own not_not, OF True] "4.IH"(2) [unfolded own not_not, OF True len]
      by (auto simp: own and_then_eq_Inr keeps_positions_simps added_fields_simps)
  next
    case False
    then show ?thesis using self by (auto simp: own invalid_def keeps_positions_simps)
  qed
next
  case (5 a b ids)
  show ?case
  proof (cases a)
    case (LStruct fa)
    then show ?thesis using 5(1) [OF refl LStruct]
      by (cases b) (auto simp: additive_type.simps same_kind_def nested_fields_def invalid_def)
  next
    case (LList ea)
    then show ?thesis using 5(2) [OF refl LList]
      by (cases b) (auto simp: additive_type.simps same_kind_def nested_fields_def invalid_def)
  next
    case (LMap ka va)
    then show ?thesis using 5(3) [OF refl LMap] type_eq_keeps(2) [of ka]
      by (cases b) (auto simp: additive_type.simps same_kind_def nested_fields_def invalid_def keeps_positions_simps added_fields_simps)
  qed (cases b; auto simp: additive_type.simps same_kind_def nested_fields_def invalid_def keeps_positions_simps added_fields_simps)+
qed

text \<open>The reported identifiers and those of the old schema lie at different positions.\<close>

lemma added_finite: "finite (f_field_id ` added_fields old new)"
proof -
  have "f_field_id g \<in> fst ` set (paths_of False new)" if "field_at new p = Some g" for p g
    using field_at_path [OF that, of False] by force
  then have "f_field_id ` added_fields old new \<subseteq> fst ` set (paths_of False new)" by (auto simp: added_fields_def)
  then show ?thesis by (rule finite_subset) simp
qed

lemma additive_new_ids:
  assumes "schema_validate new = Inr ()" "keeps_positions (sch_fields old) (sch_fields new)"
    and "field_at (sch_fields old) p = Some f"
  shows "f_field_id f \<notin> f_field_id ` added_fields (sch_fields old) (sch_fields new)"
proof
  assume "f_field_id f \<in> f_field_id ` added_fields (sch_fields old) (sch_fields new)"
  then obtain h q where h: "f_field_id f = f_field_id h" "field_at (sch_fields new) q = Some h" "field_at (sch_fields old) q = None"
    by (auto simp: added_fields_def)
  obtain g where g: "field_at (sch_fields new) p = Some g" "f_field_id f = f_field_id g"
    using assms(2,3) by (auto simp: keeps_positions_def declared_as_def)
  obtain s where "validate_siblings (sch_fields new) 1 False ({}, []) = Inr s"
    using assms(1) by (auto simp: schema_validate_def result_simps split: if_splits)
  then have "distinct (map fst (paths_of False (sch_fields new)))"
    unfolding validate_siblings_iff by (auto simp: collects_def fresh_ids_def)
  from field_at_unique [OF this g(1) h(2)] h(1,3) g(2) assms(3) show False by simp
qed

text \<open>
  C5: a schema is accepted as an additive change of another one exactly when it is valid, names the old one as its parent, keeps the
  identifier fields, and has, at the position of every old field, however deep, a field with the same identifier, name, requiredness,
  documentation and equal defaults, whose type is the same, or of the same kind for a structure, a list and a map (the key of a map
  being equal as a whole); the fields at all other positions are optional. So no field is moved, retyped or removed. The reported
  identifiers are those of the fields at the new positions, in ascending order, none of which the old schema uses. Defaults
  are compared as the derived \<^verbatim>\<open>PartialEq\<close> does: no field with a NaN among its defaults can be kept.
\<close>

theorem additive_schema_iff:
  "additive_schema old new = Inr ids \<longleftrightarrow>
     schema_validate new = Inr () \<and> sch_parent_schema_id new = Some (sch_schema_id old)
     \<and> sch_identifier_field_ids new = sch_identifier_field_ids old
     \<and> (\<forall>p f. field_at (sch_fields old) p = Some f \<longrightarrow>
          (\<exists>g. field_at (sch_fields new) p = Some g \<and> declared_as f g \<and> same_kind (f_field_type f) (f_field_type g))
          \<and> f_field_id f \<notin> set ids)
     \<and> (\<forall>p g. field_at (sch_fields new) p = Some g \<longrightarrow> field_at (sch_fields old) p = None \<longrightarrow> \<not> f_required g)
     \<and> sorted_wrt (<) ids
     \<and> set ids = {f_field_id g | p g. field_at (sch_fields new) p = Some g \<and> field_at (sch_fields old) p = None}"
proof -
  let ?A = "added_fields (sch_fields old) (sch_fields new)" and ?K = "keeps_positions (sch_fields old) (sch_fields new)"
  have "additive_schema old new = Inr ids \<longleftrightarrow>
     schema_validate new = Inr () \<and> sch_parent_schema_id new = Some (sch_schema_id old)
     \<and> sch_identifier_field_ids new = sch_identifier_field_ids old \<and> ?K \<and> (\<forall>g \<in> ?A. \<not> f_required g)
     \<and> ids = sorted_list_of_set (f_field_id ` ?A)"
    by (auto simp: additive_schema_def and_then_eq_Inr map_err_eq_Inr additive_positions(1) invalid_def simp del: additive_fields.simps)
  also have "ids = sorted_list_of_set (f_field_id ` ?A) \<longleftrightarrow> sorted_wrt (<) ids \<and> set ids = f_field_id ` ?A"
  proof
    show "ids = sorted_list_of_set (f_field_id ` ?A) \<Longrightarrow> sorted_wrt (<) ids \<and> set ids = f_field_id ` ?A"
      using added_finite [of "sch_fields old" "sch_fields new"] by simp
    assume "sorted_wrt (<) ids \<and> set ids = f_field_id ` ?A"
    then show "ids = sorted_list_of_set (f_field_id ` ?A)"
      using sorted_list_of_set.idem_if_sorted_distinct [of ids] by (simp add: strict_sorted_iff)
  qed
  also have "f_field_id ` ?A = {f_field_id g | p g. field_at (sch_fields new) p = Some g \<and> field_at (sch_fields old) p = None}"
    by (auto simp: added_fields_def)
  also have "(\<forall>g \<in> ?A. \<not> f_required g)
      \<longleftrightarrow> (\<forall>p g. field_at (sch_fields new) p = Some g \<longrightarrow> field_at (sch_fields old) p = None \<longrightarrow> \<not> f_required g)"
    by (auto simp: added_fields_def)
  finally show ?thesis
    using additive_new_ids [of new old] unfolding keeps_positions_def added_fields_def by blast
qed

definition sample_field :: "u32 \<Rightarrow> string \<Rightarrow> field" where
  "sample_field i n = Field i n False LInt64 None None None"

definition sample_schema :: schema where
  "sample_schema = \<lparr>sch_schema_id = 1, sch_parent_schema_id = None, sch_fields = [sample_field 1 ''a''],
     sch_identifier_field_ids = [], sch_doc = None\<rparr>"

definition sample_new_schema :: schema where
  "sample_new_schema = \<lparr>sch_schema_id = 2, sch_parent_schema_id = Some 1,
     sch_fields = [sample_field 1 ''a'', Field 2 ''b'' False (LList (sample_field 3 ''element'')) None None None],
     sch_identifier_field_ids = [], sch_doc = None\<rparr>"

lemma sample_additive: "additive_schema sample_schema sample_new_schema = Inr [2, 3]"
proof -
  have "schema_validate sample_new_schema = Inr ()"
    by code_simp
  moreover have "additive_fields (sch_fields sample_schema) (sch_fields sample_new_schema) {} = Inr {2, 3}"
    by (simp add: sample_schema_def sample_new_schema_def sample_field_def with_type_def additive_type.simps) auto
  moreover have "sorted_list_of_set {2, 3 :: u32} = [2, 3]"
    by (simp add: sorted_list_of_set_insert_remove)
  ultimately show ?thesis
    by (simp add: additive_schema_def) (simp add: sample_schema_def sample_new_schema_def)
qed

theorem additive_schema_iff_witness:
  "additive_schema sample_schema sample_new_schema = Inr [2, 3]
    \<and> (\<exists>g. field_at (sch_fields sample_new_schema) [0] = Some g \<and> declared_as (sample_field 1 ''a'') g
          \<and> same_kind LInt64 (f_field_type g))"
proof -
  have at: "field_at (sch_fields sample_schema) [0] = Some (sample_field 1 ''a'')" "f_field_type (sample_field 1 ''a'') = LInt64"
    by (simp_all add: sample_schema_def sample_field_def)
  show ?thesis using additive_schema_iff [of sample_schema sample_new_schema "[2, 3]"] sample_additive at by fastforce
qed

text \<open>A valid field with a NaN default is not even carried unchanged.\<close>

lemma nan_default_refused:
  "\<not> declared_as (Field 1 ''a'' False LFloat32 None (Some (TFloat32 0x7FC00000)) None)
       (Field 1 ''a'' False LFloat32 None (Some (TFloat32 0x7FC00000)) None)
   \<and> own_ok (Field 1 ''a'' False LFloat32 None (Some (TFloat32 0x7FC00000)) None)"
  by (simp add: declared_as_def typed_scalar_eq_def f32_partial_cmp_def f32_is_nan_def) code_simp

section \<open>Prepared transactions\<close>

fun touched_keys :: "operation_request \<Rightarrow> string list" where
  "touched_keys (SetProperties _ updates removals) = map fst updates @ removals"
| "touched_keys _ = []"

fun touched_refs :: "operation_request \<Rightarrow> string list" where
  "touched_refs (CreateRef _ name _ _) = [name]"
| "touched_refs (ReplaceRef _ name _) = [name]"
| "touched_refs (DropRef _ name) = [name]"
| "touched_refs _ = []"

fun schema_change :: "operation_request \<Rightarrow> bool option" where
  "schema_change (AddSchema _ _) = Some True"
| "schema_change (SetCurrentSchema _ _) = Some False"
| "schema_change _ = None"

text \<open>What holds of the database the transaction is based on, for each of its operations.\<close>

fun guarded :: "connection \<Rightarrow> requirement set \<Rightarrow> operation_request \<Rightarrow> bool" where
  "guarded cn rs (SetProperties _ updates removals) =
     ((\<forall>v \<in> snd ` set updates. v \<noteq> CNull)
      \<and> (\<forall>k \<in> set (map fst updates @ removals). k \<noteq> [] \<and> \<not> starts_with ''otmp.'' k \<and> (\<exists>!v. PropertyIs k v \<in> rs)))"
| "guarded cn rs (CreateRef _ name kind snapshot) =
     (name \<noteq> [] \<and> \<not> has_control name \<and> ref_row cn name = Inr None \<and> (kind = Tag \<longrightarrow> snapshot \<noteq> None)
      \<and> (\<forall>i. snapshot = Some i \<longrightarrow> cn_snapshot_exists cn (id_as_bytes i) = Inr True))"
| "guarded cn rs (ReplaceRef _ name snapshot) =
     ((\<exists>old. ref_row cn name = Inr (Some (Branch, old)) \<and> RefSnapshotIs name old \<in> rs)
      \<and> cn_snapshot_exists cn (id_as_bytes snapshot) = Inr True)"
| "guarded cn rs (DropRef _ name) =
     (name \<noteq> ''main'' \<and> (\<exists>kind old. ref_row cn name = Inr (Some (kind, old)) \<and> RefSnapshotIs name old \<in> rs))"
| "guarded cn rs (AddSchema _ schema) =
     (\<exists>current old ids. cn_current_schema cn = Inr current \<and> CurrentSchemaIs current \<in> rs
        \<and> cn_read_schema cn current = Inr old \<and> additive_schema old schema = Inr ids
        \<and> cn_schema_exists cn (sch_schema_id schema) = Inr False \<and> (\<forall>i \<in> set ids. cn_field_exists cn i = Inr False))"
| "guarded cn rs (SetCurrentSchema _ _) =
     (\<exists>current. cn_current_schema cn = Inr current \<and> CurrentSchemaIs current \<in> rs)"

lemma evaluate_Inr: "evaluate cn rs = Inr () \<Longrightarrow> r \<in> set rs \<Longrightarrow> matched cn r = Inr True"
  unfolding evaluate_def by (induction rs) (auto simp: result_simps split: if_splits)

lemma required_Inr: "required request r = Inr u \<Longrightarrow> r \<in> set (tr_requirements request)"
proof -
  assume "required request r = Inr u"
  then have "length (filter (\<lambda>q. q = r) (tr_requirements request)) = 1"
    by (auto simp: required_def invalid_def split: if_splits)
  then have "filter (\<lambda>q. q = r) (tr_requirements request) \<noteq> []" by auto
  then show ?thesis by (auto simp: filter_empty_conv)
qed

lemma one_property:
  assumes "length (filter (\<lambda>r. case r of PropertyIs k _ \<Rightarrow> k = key | _ \<Rightarrow> False) rs) = 1"
  shows "\<exists>!v. PropertyIs key v \<in> set rs"
proof -
  let ?P = "\<lambda>r. case r of PropertyIs k _ \<Rightarrow> k = key | _ \<Rightarrow> False"
  obtain r where r: "filter ?P rs = [r]" using assms by (auto simp: length_Suc_conv)
  have "r \<in> set (filter ?P rs)" unfolding r by simp
  then have "r \<in> set rs" "?P r" by auto
  then obtain v where v: "r = PropertyIs key v" "r \<in> set rs" by (cases r rule: requirement.exhaust) auto
  have "w = v" if "PropertyIs key w \<in> set rs" for w
  proof -
    have "PropertyIs key w \<in> set (filter ?P rs)" using that by simp
    then show ?thesis using r v by simp
  qed
  with v show ?thesis by blast
qed

lemma property_keys:
  assumes "try_fold (property_key_step request) keys ks = Inr keys'"
  shows "keys' = keys \<union> set ks \<and> distinct ks \<and> set ks \<inter> keys = {}
    \<and> (\<forall>k \<in> set ks. k \<noteq> [] \<and> \<not> starts_with ''otmp.'' k \<and> (\<exists>!v. PropertyIs k v \<in> set (tr_requirements request)))"
  using assms
proof (induction ks arbitrary: keys)
  case (Cons k ks)
  then obtain m where m: "property_key_step request keys k = Inr m" "try_fold (property_key_step request) m ks = Inr keys'"
    by (auto simp: and_then_eq_Inr)
  from m(1) have k: "m = insert k keys" "k \<noteq> []" "\<not> starts_with ''otmp.'' k" "k \<notin> keys"
    and one: "\<exists>!v. PropertyIs k v \<in> set (tr_requirements request)"
    by (auto simp: property_key_step_def invalid_def split: if_splits intro!: one_property)
  with Cons.IH [OF m(2)] show ?case by auto
qed simp

lemma field_absent:
  "try_fold (field_absent_step cn) absent ks = Inr absent' \<Longrightarrow> i \<in> set ks \<Longrightarrow> cn_field_exists cn i = Inr False"
proof (induction ks arbitrary: absent)
  case (Cons k ks)
  then obtain m where m: "field_absent_step cn absent k = Inr m" "try_fold (field_absent_step cn) m ks = Inr absent'"
    by (auto simp: and_then_eq_Inr)
  from m(1) have "cn_field_exists cn k = Inr False"
    by (auto simp: field_absent_step_def and_then_eq_Inr split: if_splits)
  with Cons m show ?case by auto
qed simp

lemma one_field_list:
  "concat (map (\<lambda>r. case r of FieldIdsAbsent is \<Rightarrow> [is] | _ \<Rightarrow> []) rs) = [a] \<Longrightarrow> FieldIdsAbsent a \<in> set rs"
proof -
  let ?f = "\<lambda>r. case r of FieldIdsAbsent is \<Rightarrow> [is] | _ \<Rightarrow> []"
  assume "concat (map ?f rs) = [a]"
  then have "a \<in> set (concat (map ?f rs))" by simp
  then obtain r where "r \<in> set rs" "a \<in> set (?f r)" by auto
  then show ?thesis by (cases r rule: requirement.exhaust) auto
qed


lemma prepare_add_schema_guarded:
  assumes "prepare_add_schema cn request schema = Inr u" "evaluate cn (tr_requirements request) = Inr ()"
  shows "guarded cn (set (tr_requirements request)) (AddSchema i schema)"
proof -
  from assms(1) obtain current old ids where c: "cn_current_schema cn = Inr current"
    "CurrentSchemaIs current \<in> set (tr_requirements request)"
    "SchemaIdAbsent (sch_schema_id schema) \<in> set (tr_requirements request)"
    "cn_read_schema cn current = Inr old" "additive_schema old schema = Inr ids"
    and f: "(case concat (map (\<lambda>r. case r of FieldIdsAbsent is \<Rightarrow> [is] | _ \<Rightarrow> []) (tr_requirements request)) of
         [] \<Rightarrow> invalid ''field_ids_absent required''
       | actual # others \<Rightarrow>
           if others \<noteq> [] \<or> sort actual \<noteq> ids
           then invalid ''field_ids_absent must cover exactly all new IDs'' else Inr ()) = Inr u"
    by (auto simp: prepare_add_schema_def and_then_eq_Inr dest!: required_Inr)
  from f obtain a where a: "concat (map (\<lambda>r. case r of FieldIdsAbsent is \<Rightarrow> [is] | _ \<Rightarrow> []) (tr_requirements request)) = [a]" "sort a = ids"
    by (auto simp: invalid_def split: list.splits if_splits)
  have "matched cn (FieldIdsAbsent a) = Inr True" "matched cn (SchemaIdAbsent (sch_schema_id schema)) = Inr True"
    using evaluate_Inr [OF assms(2)] one_field_list [OF a(1)] c(3) by blast+
  then have "cn_schema_exists cn (sch_schema_id schema) = Inr False" "\<forall>i \<in> set ids. cn_field_exists cn i = Inr False"
    using a(2) by (auto simp: and_then_eq_Inr dest: field_absent)
  with c show ?thesis by auto
qed

lemma ref_guards:
  assumes "matched cn (RefExists name kind) = Inr True" "ref_row cn name = Inr (Some (k, s))"
  shows "k = kind"
  using assms by simp

lemma prepare_operation_guarded:
  assumes "prepare_operation cn request s op = Inr (result, s')" "evaluate cn (tr_requirements request) = Inr ()"
  shows "guarded cn (set (tr_requirements request)) op \<and> result_id result = operation_id op
    \<and> ps_ids s' = ps_ids s
    \<and> ps_keys s' = ps_keys s \<union> set (touched_keys op) \<and> distinct (touched_keys op) \<and> set (touched_keys op) \<inter> ps_keys s = {}
    \<and> ps_refs s' = ps_refs s \<union> set (touched_refs op) \<and> set (touched_refs op) \<inter> ps_refs s = {}
    \<and> ps_add_schema s' = (ps_add_schema s \<or> schema_change op = Some True) \<and> (schema_change op = Some True \<longrightarrow> \<not> ps_add_schema s)
    \<and> ps_set_schema s' = (ps_set_schema s \<or> schema_change op = Some False) \<and> (schema_change op = Some False \<longrightarrow> \<not> ps_set_schema s)"
proof (cases op)
  case (SetProperties i updates removals)
  with assms(1) obtain keys where k: "try_fold (property_key_step request) (ps_keys s) (map fst updates @ removals) = Inr keys"
    "\<not> list_ex (\<lambda>(_, v). v = CNull) updates" "result = PropertiesResult i (sort (map fst updates @ removals))" "s' = s\<lparr>ps_keys := keys\<rparr>"
    by (auto simp: and_then_eq_Inr invalid_def split: if_splits)
  show ?thesis using property_keys [OF k(1)] k(2-4) SetProperties by (auto simp: list_ex_iff)
next
  case (CreateRef i name kind snapshot)
  with assms show ?thesis
    using evaluate_Inr [OF assms(2), of "RefAbsent name"] evaluate_Inr [OF assms(2), of "SnapshotExists (the snapshot)"]
    by (auto simp: and_then_eq_Inr invalid_def validate_ref_name_def dest!: required_Inr split: if_splits option.splits)
next
  case (ReplaceRef i name snapshot)
  with assms show ?thesis
    using evaluate_Inr [OF assms(2), of "RefExists name Branch"] evaluate_Inr [OF assms(2), of "SnapshotExists snapshot"]
    by (auto simp: and_then_eq_Inr invalid_def validate_ref_name_def ok_or_eq_Inr dest!: required_Inr split: if_splits option.splits)
next
  case (DropRef i name)
  with assms show ?thesis
    by (auto simp: and_then_eq_Inr invalid_def validate_ref_name_def ok_or_eq_Inr dest!: required_Inr split: if_splits option.splits)
next
  case (AddSchema i schema)
  with assms show ?thesis using prepare_add_schema_guarded [of cn request schema _ i]
    by (auto simp: and_then_eq_Inr invalid_def simp del: guarded.simps split: if_splits)
next
  case (SetCurrentSchema i schema_id)
  with assms show ?thesis by (auto simp: and_then_eq_Inr invalid_def dest!: required_Inr split: if_splits)
qed

text \<open>What the loop has seen.\<close>

definition seen :: "connection \<Rightarrow> transaction_request \<Rightarrow> operation_request list \<Rightarrow> operation_result list \<times> prepare_state \<Rightarrow> bool" where
  "seen cn request ops acc =
     (case acc of (results, s) \<Rightarrow>
      map result_id results = map operation_id ops \<and> [] \<notin> set (map operation_id ops)
      \<and> distinct (map operation_id ops) \<and> ps_ids s = set (map operation_id ops)
      \<and> distinct (concat (map touched_keys ops)) \<and> ps_keys s = set (concat (map touched_keys ops))
      \<and> distinct (concat (map touched_refs ops)) \<and> ps_refs s = set (concat (map touched_refs ops))
      \<and> length (filter (\<lambda>op. schema_change op = Some True) ops) = of_bool (ps_add_schema s)
      \<and> length (filter (\<lambda>op. schema_change op = Some False) ops) = of_bool (ps_set_schema s)
      \<and> list_all (guarded cn (set (tr_requirements request))) ops)"

lemma distinct_touched_refs: "distinct (touched_refs op)"
  by (cases op) auto

lemma prepare_step_seen:
  assumes "seen cn request ops acc" "prepare_step cn request acc op = Inr acc'" "evaluate cn (tr_requirements request) = Inr ()"
  shows "seen cn request (ops @ [op]) acc'"
proof -
  obtain results s where acc: "acc = (results, s)" by fastforce
  with assms(2) obtain result s' where p: "prepare_operation cn request (s\<lparr>ps_ids := insert (operation_id op) (ps_ids s)\<rparr>) op = Inr (result, s')"
    "acc' = (results @ [result], s')" "operation_id op \<noteq> []" "operation_id op \<notin> ps_ids s"
    by (auto simp: prepare_step_def and_then_eq_Inr invalid_def split: if_splits)
  note g = prepare_operation_guarded [OF p(1) assms(3)]
  consider "schema_change op = None" | "schema_change op = Some True" | "schema_change op = Some False"
    by (cases "schema_change op") (auto intro: bool.exhaust)
  then show ?thesis using assms(1) g p(2-4) acc distinct_touched_refs [of op]
    by cases (simp_all add: seen_def Un_commute Int_commute)
qed

lemma prepare_fold_seen:
  assumes "try_fold (prepare_step cn request) acc ops = Inr acc'" "seen cn request prev acc" "evaluate cn (tr_requirements request) = Inr ()"
  shows "seen cn request (prev @ ops) acc'"
  using assms
proof (induction ops arbitrary: acc prev)
  case (Cons op ops)
  then obtain m where m: "prepare_step cn request acc op = Inr m" "try_fold (prepare_step cn request) m ops = Inr acc'"
    by (auto simp: and_then_eq_Inr)
  from Cons.IH [OF m(2) prepare_step_seen [OF Cons.prems(2) m(1) Cons.prems(3)] Cons.prems(3)] show ?case by simp
qed simp

text \<open>
  C3: what a prepared metadata transaction has been checked for. Every requirement holds of the database it is based on;
  it has one result per operation, and the operations have distinct nonempty identifiers and touch distinct property
  keys and distinct refs, so that no two of them meet; at most one adds and at most one selects a schema; and every
  operation is guarded: each property key by exactly one expected value, a new ref by its absence, a moved or dropped
  ref by its current snapshot, a ref's target by its existence, an added schema by being additive over the
  current one with unused identifiers. The branch \<^verbatim>\<open>main\<close> is never dropped.
\<close>

theorem prepared_transaction_guarded:
  assumes "prepare_operations cn request = Inr results"
  shows "tr_idempotency_key request \<noteq> [] \<and> tr_operations request \<noteq> []
    \<and> (\<forall>r \<in> set (tr_requirements request). matched cn r = Inr True)
    \<and> map result_id results = map operation_id (tr_operations request)
    \<and> distinct (map operation_id (tr_operations request)) \<and> [] \<notin> set (map operation_id (tr_operations request))
    \<and> distinct (concat (map touched_keys (tr_operations request)))
    \<and> distinct (concat (map touched_refs (tr_operations request)))
    \<and> (\<forall>b. length (filter (\<lambda>op. schema_change op = Some b) (tr_operations request)) \<le> 1)
    \<and> (\<forall>op \<in> set (tr_operations request). guarded cn (set (tr_requirements request)) op)"
proof -
  from assms obtain s where k: "tr_idempotency_key request \<noteq> []" "tr_operations request \<noteq> []"
    and e: "evaluate cn (tr_requirements request) = Inr ()"
    and f: "try_fold (prepare_step cn request)
            ([], \<lparr>ps_ids = {}, ps_keys = {}, ps_refs = {}, ps_add_schema = False, ps_set_schema = False\<rparr>)
            (tr_operations request) = Inr (results, s)"
    by (auto simp: prepare_operations_def and_then_eq_Inr invalid_def split: if_splits)
  have "seen cn request (tr_operations request) (results, s)"
    using prepare_fold_seen [OF f _ e, of "[]"] by (simp add: seen_def)
  moreover have "length (filter (\<lambda>op. schema_change op = Some b) (tr_operations request)) \<le> 1" if "seen cn request (tr_operations request) (results, s)" for b
    using that by (cases b) (auto simp: seen_def)
  ultimately show ?thesis using k evaluate_Inr [OF e] by (auto simp: seen_def list_all_iff)
qed

definition sample_connection :: connection where
  "sample_connection = \<lparr>cn_ext = sample_externals, cn_serde = sample_serde, cn_debug = (\<lambda>_. ''''),
     cn_property = (\<lambda>_. Inr None), cn_ref = (\<lambda>n. Inr (if n = ''dev'' then Some (''branch'', None) else None)),
     cn_snapshot_exists = (\<lambda>_. Inr False), cn_snapshot_row = (\<lambda>_. Inr None), cn_schema_exists = (\<lambda>i. Inr (i = 1)), cn_field_exists = (\<lambda>i. Inr (i = 1)),
     cn_current_schema = Inr 1, cn_default_partition_spec = Inr 0, cn_default_sort_order = Inr 0,
     cn_read_schema = (\<lambda>_. Inr sample_schema)\<rparr>"

definition sample_request :: transaction_request where
  "sample_request = \<lparr>tr_idempotency_key = ''k'',
     tr_requirements = [RefExists ''dev'' Branch, RefSnapshotIs ''dev'' None, CurrentSchemaIs 1, SchemaIdAbsent 2,
       FieldIdsAbsent [3, 2], PropertyIs ''owner'' CNull],
     tr_operations = [DropRef ''o1'' ''dev'', AddSchema ''o2'' sample_new_schema, SetProperties ''o3'' [(''owner'', CBool True)] []],
     tr_commit_metadata = []\<rparr>"

lemma sample_prepared: "prepare_operations sample_connection sample_request =
    Inr [RefResult ''o1'' ''dev'' Branch None, SchemaResult ''o2'' 2, PropertiesResult ''o3'' [''owner'']]"
proof -
  have dev: "ref_row sample_connection ''dev'' = Inr (Some (Branch, None))" by (simp add: ref_row_def sample_connection_def)
  have name: "validate_ref_name ''dev'' {} = Inr {''dev''}" by (simp add: validate_ref_name_def)
  have sorted: "sort [3, 2 :: u32] = [2, 3]" by (simp add: sort_key_def)
  have id2: "sch_schema_id sample_new_schema = 2" by (simp add: sample_new_schema_def)
  have "evaluate sample_connection (tr_requirements sample_request) = Inr ()"
    by (simp add: evaluate_def sample_request_def dev) (simp add: sample_connection_def field_absent_step_def)
  moreover have "prepare_add_schema sample_connection sample_request sample_new_schema = Inr ()"
    by (simp add: prepare_add_schema_def sample_connection_def sample_request_def required_def sample_additive id2 sorted)
  ultimately show ?thesis
    by (simp add: prepare_operations_def) (simp add: sample_request_def prepare_step_def dev required_def name id2
        property_key_step_def starts_with_def)
qed

theorem prepared_transaction_guarded_witness:
  "prepare_operations sample_connection sample_request =
     Inr [RefResult ''o1'' ''dev'' Branch None, SchemaResult ''o2'' 2, PropertiesResult ''o3'' [''owner'']]
   \<and> distinct (concat (map touched_keys (tr_operations sample_request)))"
  using prepared_transaction_guarded [OF sample_prepared] sample_prepared by blast

end
