(* ===== verification/Page_Tree.thy ===== *)
theory Page_Tree
  imports Page_Pack Storage Hashes
begin

text \<open>
  Persistent page-map trees, \<^verbatim>\<open>otmp/src/physical.rs\<close>: building leaves and internal nodes under a
  capacity and a byte limit, the copy-on-write update of a tree by changed pages and a new end of
  file, flattening, the reachable references, and the incremental image of a commit.

  The map \<^verbatim>\<open>artifacts\<close> of new objects is passed and returned. A node that does not fit is split in
  halves; a failed attempt leaves the artifacts as they were.
\<close>

section \<open>Data\<close>

definition tree_capacity :: nat where
  "tree_capacity = 128"

definition pack_target :: nat where
  "pack_target = 1024 * 1024"

definition image_page_size :: u32 where
  "image_page_size = 4096"

record artifact =
  art_uri :: relative_uri
  art_bytes :: "byte list"

type_synonym artifacts = "(string, artifact) btree"

datatype tree =
  Tree (t_reference: page_object_reference) (t_node: page_map_node) (t_children: "tree list")
    (t_min: u64) (t_max: u64)

record incremental_image =
  ii_root :: "page_map_root option"
  ii_artifacts :: "artifact list"
  ii_reachable_bytes :: u64

section \<open>Flattening\<close>

lemma size_child [termination_simp]: "c \<in> set (t_children t) \<Longrightarrow> size c < size t"
  by (cases t) (auto dest!: size_list_estimation' [of c _ "size c" size])

function flatten_tree :: "tree \<Rightarrow> (u64, page_map_entry) btree \<Rightarrow> (u64, page_map_entry) btree" where
  "flatten_tree t entries =
     (case t_node t of
        PageLeaf pages \<Rightarrow> fold (\<lambda>page. bt_insert (pme_page_number page) page) pages entries
      | PageInternal _ _ \<Rightarrow> fold flatten_tree (t_children t) entries)"
  by pat_completeness auto
termination
  by (relation "measure (\<lambda>(t, _). size t)") (auto simp: termination_simp)

declare flatten_tree.simps [simp del]

section \<open>Building nodes\<close>

text \<open>A reference to new bytes, at the address their hash gives.\<close>

definition content_uri :: "externals \<Rightarrow> string \<Rightarrow> string \<Rightarrow> byte list \<Rightarrow> string" where
  "content_uri x prefix suffix bs =
     prefix @ hex_encode x (sha_as_bytes (object_hash x bs)) @ suffix"

definition content_reference :: "externals \<Rightarrow> relative_uri \<Rightarrow> byte list \<Rightarrow> page_object_reference" where
  "content_reference x uri bs =
     \<lparr>por_uri = uri, por_sha256 = object_hash x bs, por_length = u64_of_usize (length bs)\<rparr>"

definition create_tree :: "externals \<Rightarrow> page_map_node \<Rightarrow> tree list \<Rightarrow> artifacts
    \<Rightarrow> (runtime_error, tree \<times> artifacts) result" where
  "create_tree x node children arts =
     and_then (map_err ProtocolErr (encode_page_map node)) (\<lambda>bs.
     and_then (map_err ProtocolErr (uri_from_str (content_uri x ''_otmp/page-maps/'' ''.cbor'' bs))) (\<lambda>uri.
       let reference = content_reference x uri bs;
           mn = (case node of PageLeaf es \<Rightarrow> pme_page_number (hd es) | PageInternal _ _ \<Rightarrow> t_min (hd children));
           mx = the (pm_max_page node)
       in Inr (Tree reference node children mn mx,
               bt_insert (uri_as_str uri) \<lparr>art_uri = uri, art_bytes = bs\<rparr> arts)))"

text \<open>
  The match on the attempt to write one node: a node ends the recursion, an error ends it only
  when there is nothing left to split, and no attempt is made above the capacity.
\<close>

definition node_attempt :: "nat \<Rightarrow> (runtime_error, tree \<times> artifacts) result
    \<Rightarrow> (runtime_error, tree list \<times> artifacts) result option" where
  "node_attempt n r =
     (if n \<le> tree_capacity
      then case r of
             Inr (node, arts) \<Rightarrow> Some (Inr ([node], arts))
           | Inl e \<Rightarrow> if n = 1 then Some (Inl e) else None
      else None)"

lemma node_attempt_None: "node_attempt n r = None \<Longrightarrow> n \<noteq> 1"
  by (auto simp: node_attempt_def tree_capacity_def split: if_splits sum.splits)

lemma half_lt: "xs \<noteq> [] \<Longrightarrow> length xs \<noteq> 1 \<Longrightarrow> length xs div 2 < length xs \<and> 0 < length xs div 2"
  by (cases xs) (auto simp: Suc_le_eq div_greater_zero_iff)

function leaf_nodes :: "externals \<Rightarrow> page_map_entry list \<Rightarrow> artifacts
    \<Rightarrow> (runtime_error, tree list \<times> artifacts) result" where
  "leaf_nodes x entries arts =
     (if entries = [] then Inr ([], arts)
      else and_then (map_err ProtocolErr (pm_validate (PageLeaf entries))) (\<lambda>_.
        case node_attempt (length entries) (create_tree x (PageLeaf entries) [] arts) of
          Some r \<Rightarrow> r
        | None \<Rightarrow>
            and_then (leaf_nodes x (take (length entries div 2) entries) arts) (\<lambda>(nodes, arts).
            and_then (leaf_nodes x (drop (length entries div 2) entries) arts) (\<lambda>(right, arts).
              Inr (nodes @ right, arts)))))"
  by pat_completeness auto
termination
proof (relation "measure (\<lambda>(x, entries, arts). length entries)")
qed (auto simp: min_def dest!: node_attempt_None half_lt)

declare leaf_nodes.simps [simp del]

definition branch_of :: "tree \<Rightarrow> page_map_branch" where
  "branch_of c = \<lparr>pmb_max_page = t_max c, pmb_child = t_reference c\<rparr>"

function internal_nodes :: "externals \<Rightarrow> tree list \<Rightarrow> u32 \<Rightarrow> artifacts
    \<Rightarrow> (runtime_error, tree list \<times> artifacts) result" where
  "internal_nodes x children level arts =
     (if children = [] then Inr ([], arts)
      else
        let node = PageInternal level (map branch_of children)
        in and_then (map_err ProtocolErr (pm_validate node)) (\<lambda>_.
           case node_attempt (length children) (create_tree x node children arts) of
             Some r \<Rightarrow> r
           | None \<Rightarrow>
               and_then (internal_nodes x (take (length children div 2) children) level arts) (\<lambda>(nodes, arts).
               and_then (internal_nodes x (drop (length children div 2) children) level arts) (\<lambda>(right, arts).
                 Inr (nodes @ right, arts)))))"
  by pat_completeness auto
termination
proof (relation "measure (\<lambda>(x, children, level, arts). length children)")
qed (auto simp: min_def dest!: node_attempt_None half_lt)

declare internal_nodes.simps [simp del]

section \<open>Updating a tree\<close>

definition leaf_pages :: "page_map_entry list \<Rightarrow> page_map_entry list \<Rightarrow> u64 \<Rightarrow> page_map_entry list" where
  "leaf_pages entries changes eof =
     (let pages = bt_extend [] (map (\<lambda>e. (pme_page_number e, e))
                    (filter (\<lambda>e. pme_page_number e \<le> eof) entries));
          pages = bt_extend pages (map (\<lambda>e. (pme_page_number e, e)) changes)
      in map snd pages)"

lemma size_children: "Suc (2 * size_list size (t_children t)) < 2 * size t"
  by (cases t) simp

function update_tree :: "externals \<Rightarrow> tree \<Rightarrow> page_map_entry list \<Rightarrow> u64 \<Rightarrow> artifacts
      \<Rightarrow> (runtime_error, tree list \<times> artifacts) result"
  and update_children :: "externals \<Rightarrow> tree list \<Rightarrow> page_map_entry list \<Rightarrow> u64 \<Rightarrow> artifacts
      \<Rightarrow> (runtime_error, tree list \<times> artifacts) result" where
  "update_tree x t changes eof arts =
     (if changes = [] \<and> t_max t \<le> eof then Inr ([t], arts)
      else if t_min t > eof \<and> changes = [] then Inr ([], arts)
      else case t_node t of
             PageLeaf entries \<Rightarrow> leaf_nodes x (leaf_pages entries changes eof) arts
           | PageInternal level _ \<Rightarrow>
               and_then (update_children x (t_children t) changes eof arts) (\<lambda>(children, arts).
                 internal_nodes x children level arts))"
| "update_children x [] remaining eof arts = Inr ([], arts)"
| "update_children x (c # cs) remaining eof arts =
     (let count = (if cs = [] then length remaining
                   else partition_point (\<lambda>e. pme_page_number e \<le> t_max c) remaining)
      in and_then (update_tree x c (take count remaining) eof arts) (\<lambda>(here, arts).
         and_then (update_children x cs (drop count remaining) eof arts) (\<lambda>(rest, arts).
           Inr (here @ rest, arts))))"
  by pat_completeness auto
termination
  by (relation "measure (\<lambda>s. case s of Inl (x, t, _) \<Rightarrow> 2 * size t | Inr (x, cs, _) \<Rightarrow> 2 * size_list size cs + 1)")
    (simp_all add: size_children)

declare update_tree.simps [simp del]

section \<open>Reachable references\<close>

lemma try_fold_cong [fundef_cong]:
  "xs = ys \<Longrightarrow> s = t \<Longrightarrow> (\<And>s x. x \<in> set ys \<Longrightarrow> f s x = g s x) \<Longrightarrow> try_fold f s xs = try_fold g t ys"
proof (induction xs arbitrary: ys s t)
  case (Cons x xs)
  then have IH: "try_fold f u xs = try_fold g u xs" for u by auto
  from Cons.prems show ?case by (auto simp: IH)
qed simp

type_synonym references = "(string, page_object_reference) btree"

definition add_reference :: "references \<Rightarrow> page_object_reference \<Rightarrow> (runtime_error, references) result" where
  "add_reference refs r =
     (let old = bt_get refs (uri_as_str (por_uri r))
      in if old \<noteq> None \<and> old \<noteq> Some r then Inl (Corrupt ''conflicting reachable object references'')
         else Inr (bt_insert (uri_as_str (por_uri r)) r refs))"

function reachable :: "references \<Rightarrow> tree \<Rightarrow> (runtime_error, references) result" where
  "reachable refs t =
     and_then (add_reference refs (t_reference t)) (\<lambda>refs.
       case t_node t of
         PageLeaf entries \<Rightarrow> try_fold (\<lambda>refs e. add_reference refs (pme_pack e)) refs entries
       | PageInternal _ _ \<Rightarrow> try_fold reachable refs (t_children t))"
  by pat_completeness auto
termination
  by (relation "measure (\<lambda>(refs, t). size t)") (auto simp: termination_simp)

declare reachable.simps [simp del]

section \<open>The incremental image of a commit\<close>

definition pack_capacity :: nat where
  "pack_capacity = (pack_target - 64) div (64 + unat image_page_size)"

definition mapping_of :: "page_object_reference \<Rightarrow> pack_index_entry \<Rightarrow> page_map_entry" where
  "mapping_of pack e =
     \<lparr>pme_page_number = pie_page_number e, pme_pack = pack, pme_offset = pie_offset e,
      pme_stored_length = pie_stored_length e, pme_raw_length = pie_raw_length e,
      pme_codec = pie_codec e, pme_page_sha256 = pie_page_sha256 e\<rparr>"

definition persist_chunk :: "externals \<Rightarrow> u64 \<Rightarrow> page_map_entry list \<times> artifacts \<Rightarrow> (u64 \<times> byte list) list
    \<Rightarrow> (runtime_error, page_map_entry list \<times> artifacts) result" where
  "persist_chunk x eof s chunk =
     (case s of (mappings, arts) \<Rightarrow>
        let pages = bt_extend [] chunk
        in if list_ex (\<lambda>(n, _). n > eof) pages
           then Inl (Corrupt ''candidate changed page beyond EOF'')
           else and_then (map_err ProtocolErr (encode_page_pack x image_page_size pages)) (\<lambda>bs.
                and_then (map_err ProtocolErr
                   (uri_from_str (content_uri x ''_otmp/page-packs/'' ''.otmppg'' bs))) (\<lambda>uri.
                and_then (map_err ProtocolErr (decode_pack_index bs)) (\<lambda>idx.
                  Inr (mappings @ map (mapping_of (content_reference x uri bs)) (pki_entries idx),
                       bt_insert (uri_as_str uri) \<lparr>art_uri = uri, art_bytes = bs\<rparr> arts)))))"

text \<open>
  \<^verbatim>\<open>while roots.len() > 1\<close>. The loop need not end when a node can hold a single child only, so not
  returning is the value \<open>None\<close>.
\<close>

partial_function (option) collapse_roots :: "externals \<Rightarrow> tree list \<Rightarrow> artifacts
    \<Rightarrow> (runtime_error, tree list \<times> artifacts) result option" where
  "collapse_roots x roots arts =
     (if length roots > 1
      then case internal_nodes x roots (pm_level (t_node (hd roots)) + 1) arts of
             Inl e \<Rightarrow> Some (Inl e)
           | Inr (roots, arts) \<Rightarrow> collapse_roots x roots arts
      else Some (Inr (roots, arts)))"

text \<open>\<^verbatim>\<open>while root has one child\<close>.\<close>

function strip_single :: "tree \<Rightarrow> tree" where
  "strip_single t = (case t_children t of [c] \<Rightarrow> strip_single c | _ \<Rightarrow> t)"
  by pat_completeness auto
termination
proof (relation "measure size")
  fix t c and cs :: "tree list"
  show "t_children t = c # cs \<Longrightarrow> cs = [] \<Longrightarrow> (c, t) \<in> measure size"
    using size_child [of c t] by simp
qed simp

declare strip_single.simps [simp del]

definition root_of_tree :: "tree \<Rightarrow> page_map_root" where
  "root_of_tree t =
     \<lparr>pmr_uri = por_uri (t_reference t), pmr_sha256 = por_sha256 (t_reference t),
      pmr_length = por_length (t_reference t), pmr_height = pm_level (t_node t)\<rparr>"

definition finish_image :: "tree option \<Rightarrow> artifacts \<Rightarrow> (runtime_error, incremental_image) result" where
  "finish_image root arts =
     and_then (case root of None \<Rightarrow> Inr [] | Some t \<Rightarrow> reachable [] t) (\<lambda>refs.
     and_then (try_fold (\<lambda>n r. ok_or (Corrupt ''reachable bytes overflow'') (checked_add n (por_length r)))
                 0 (map snd refs)) (\<lambda>reachable_bytes.
       Inr \<lparr>ii_root = map_option root_of_tree root,
            ii_artifacts = map snd (filter (\<lambda>(uri, _). bt_get refs uri \<noteq> None) arts),
            ii_reachable_bytes = reachable_bytes\<rparr>))"

definition persist_root :: "externals \<Rightarrow> tree option \<Rightarrow> (u64, byte list) btree \<Rightarrow> u64
    \<Rightarrow> (runtime_error, tree option \<times> artifacts) result option" where
  "persist_root x parent changed eof =
     (case and_then (try_fold (persist_chunk x eof) ([], []) (chunks pack_capacity changed)) (\<lambda>(mappings, arts).
             case parent of
               Some p \<Rightarrow> update_tree x p mappings eof arts
             | None \<Rightarrow> leaf_nodes x mappings arts) of
        Inl e \<Rightarrow> Some (Inl e)
      | Inr (roots, arts) \<Rightarrow>
          map_option (\<lambda>r. and_then r (\<lambda>(roots, arts). Inr (map_option strip_single (last_opt roots), arts)))
            (collapse_roots x roots arts))"

definition persist :: "externals \<Rightarrow> tree option \<Rightarrow> (u64, byte list) btree \<Rightarrow> u64
    \<Rightarrow> (runtime_error, incremental_image) result option" where
  "persist x parent changed eof =
     map_option (\<lambda>r. and_then r (\<lambda>(root, arts). finish_image root arts)) (persist_root x parent changed eof)"

section \<open>The contents of a tree\<close>

text \<open>The entries of a tree in order, and the page map they form.\<close>

function tree_entries :: "tree \<Rightarrow> page_map_entry list" where
  "tree_entries t =
     (case t_node t of
        PageLeaf es \<Rightarrow> es
      | PageInternal _ _ \<Rightarrow> concat (map tree_entries (t_children t)))"
  by pat_completeness auto
termination
  by (relation "measure size") (auto simp: termination_simp)

declare tree_entries.simps [simp del]

abbreviation forest_entries :: "tree list \<Rightarrow> page_map_entry list" where
  "forest_entries ts \<equiv> concat (map tree_entries ts)"

abbreviation keyed :: "page_map_entry list \<Rightarrow> (u64 \<times> page_map_entry) list" where
  "keyed es \<equiv> map (\<lambda>e. (pme_page_number e, e)) es"

abbreviation ascending :: "page_map_entry list \<Rightarrow> bool" where
  "ascending es \<equiv> sorted_wrt (<) (map pme_page_number es)"

definition page_map_of :: "page_map_entry list \<Rightarrow> u64 \<Rightarrow> page_map_entry option" where
  "page_map_of es = map_of (keyed es)"

text \<open>
  The shape every loaded or built tree has: leaves are ascending, the children of an internal
  node have disjoint ascending page ranges, and the recorded bounds are those of the entries.
\<close>

function tree_inv :: "tree \<Rightarrow> bool" where
  "tree_inv t =
     (case t_node t of
        PageLeaf es \<Rightarrow> t_children t = [] \<and> es \<noteq> [] \<and> ascending es
          \<and> t_min t = pme_page_number (hd es) \<and> t_max t = pme_page_number (last es)
      | PageInternal _ bs \<Rightarrow> t_children t \<noteq> [] \<and> bs = map branch_of (t_children t)
          \<and> list_all tree_inv (t_children t)
          \<and> sorted_wrt (\<lambda>a b. t_max a < t_min b) (t_children t)
          \<and> t_min t = t_min (hd (t_children t)) \<and> t_max t = t_max (last (t_children t)))"
  by pat_completeness auto
termination
  by (relation "measure size") (auto simp: termination_simp)

declare tree_inv.simps [simp del]

definition forest_inv :: "tree list \<Rightarrow> bool" where
  "forest_inv ts = (list_all tree_inv ts \<and> sorted_wrt (\<lambda>a b. t_max a < t_min b) ts)"

lemma tree_induct [case_names tree]:
  "(\<And>t. (\<And>c. c \<in> set (t_children t) \<Longrightarrow> P c) \<Longrightarrow> P t) \<Longrightarrow> P t"
  by (induction t rule: measure_induct_rule [where f = size]) (auto simp: termination_simp)

text \<open>What the bounds mean.\<close>

definition bounded_entries :: "page_map_entry list \<Rightarrow> u64 \<Rightarrow> u64 \<Rightarrow> bool" where
  "bounded_entries es a b = (es \<noteq> [] \<and> ascending es \<and> pme_page_number (hd es) = a \<and> pme_page_number (last es) = b)"

lemma ascending_hd_last:
  assumes "ascending es" "e \<in> set es"
  shows "pme_page_number (hd es) \<le> pme_page_number e" "pme_page_number e \<le> pme_page_number (last es)"
proof -
  from assms(2) obtain as bs where es: "es = as @ e # bs" by (meson split_list)
  show "pme_page_number (hd es) \<le> pme_page_number e"
    using assms es by (cases as) (auto simp: sorted_wrt_append intro: less_imp_le)
  show "pme_page_number e \<le> pme_page_number (last es)"
    using assms es by (cases bs rule: rev_cases) (auto simp: sorted_wrt_append intro: less_imp_le)
qed

lemma ascending_append:
  "ascending as \<Longrightarrow> ascending bs \<Longrightarrow>
     (\<And>a b. a \<in> set as \<Longrightarrow> b \<in> set bs \<Longrightarrow> pme_page_number a < pme_page_number b) \<Longrightarrow> ascending (as @ bs)"
  by (auto simp: sorted_wrt_append)

lemma bounded_append:
  assumes "bounded_entries as a b" "bounded_entries bs c d" "b < c"
  shows "ascending (as @ bs)"
proof (rule ascending_append)
  fix e f assume ef: "e \<in> set as" "f \<in> set bs"
  from assms(1) ef have "pme_page_number e \<le> b" by (auto simp: bounded_entries_def ascending_hd_last)
  moreover from assms(2) ef have "c \<le> pme_page_number f" by (auto simp: bounded_entries_def ascending_hd_last)
  ultimately show "pme_page_number e < pme_page_number f" using assms(3) by order
qed (use assms in \<open>simp_all add: bounded_entries_def\<close>)

lemma forest_bounded:
  "ts \<noteq> [] \<Longrightarrow> sorted_wrt (\<lambda>a b. t_max a < t_min b) ts \<Longrightarrow>
     (\<And>t. t \<in> set ts \<Longrightarrow> bounded_entries (tree_entries t) (t_min t) (t_max t)) \<Longrightarrow>
   bounded_entries (forest_entries ts) (t_min (hd ts)) (t_max (last ts))"
proof (induction ts)
  case (Cons t ts)
  have t: "bounded_entries (tree_entries t) (t_min t) (t_max t)" using Cons.prems by simp
  show ?case
  proof (cases "ts = []")
    case True
    then show ?thesis using t by simp
  next
    case False
    then have IH: "bounded_entries (forest_entries ts) (t_min (hd ts)) (t_max (last ts))"
      using Cons by auto
    have "t_max t < t_min (hd ts)" using Cons.prems(2) False by (cases ts) auto
    then have "ascending (tree_entries t @ forest_entries ts)"
      by (rule bounded_append [OF t IH])
    then show ?thesis using t IH False by (auto simp: bounded_entries_def)
  qed
qed simp

lemma tree_inv_bounded: "tree_inv t \<Longrightarrow> bounded_entries (tree_entries t) (t_min t) (t_max t)"
proof (induction t rule: tree_induct)
  case (tree t)
  show ?case
  proof (cases "t_node t")
    case (PageLeaf es)
    then show ?thesis using tree.prems
      by (simp add: tree_inv.simps [of t] tree_entries.simps [of t] bounded_entries_def)
  next
    case (PageInternal l bs)
    then show ?thesis
      using tree.prems tree.IH forest_bounded [of "t_children t"]
      by (simp add: tree_inv.simps [of t] tree_entries.simps [of t] list_all_iff)
  qed
qed

lemma forest_inv_bounded:
  "forest_inv ts \<Longrightarrow> ts \<noteq> [] \<Longrightarrow> bounded_entries (forest_entries ts) (t_min (hd ts)) (t_max (last ts))"
  by (rule forest_bounded) (auto simp: forest_inv_def list_all_iff tree_inv_bounded)

lemma forest_inv_ascending: "forest_inv ts \<Longrightarrow> ascending (forest_entries ts)"
  using forest_inv_bounded [of ts] by (cases "ts = []") (auto simp: bounded_entries_def)

text \<open>Trees that are each in shape form a forest exactly when their entries ascend.\<close>

lemma forest_invI:
  assumes "list_all tree_inv ts" "ascending (forest_entries ts)"
  shows "forest_inv ts"
proof -
  have "sorted_wrt (\<lambda>a b. t_max a < t_min b) ts"
    using assms
  proof (induction ts)
    case (Cons t ts)
    have "t_max t < t_min u" if "u \<in> set ts" for u
    proof -
      have t: "bounded_entries (tree_entries t) (t_min t) (t_max t)"
        and u: "bounded_entries (tree_entries u) (t_min u) (t_max u)"
        using Cons.prems that by (auto simp: list_all_iff tree_inv_bounded)
      have h: "hd (tree_entries u) \<in> set (tree_entries u)" "last (tree_entries t) \<in> set (tree_entries t)"
        using t u by (simp_all add: bounded_entries_def)
      have "pme_page_number (last (tree_entries t)) < pme_page_number (hd (tree_entries u))"
        using Cons.prems(2) h that by (auto simp: sorted_wrt_append)
      then show ?thesis using t u by (simp add: bounded_entries_def)
    qed
    then show ?case using Cons by (auto simp: sorted_wrt_append)
  qed simp
  with assms show ?thesis by (simp add: forest_inv_def)
qed

section \<open>Page maps of ascending entries\<close>

lemma page_map_of_Some: "ascending es \<Longrightarrow> page_map_of es p = Some e \<longleftrightarrow> e \<in> set es \<and> pme_page_number e = p"
proof -
  assume "ascending es"
  then have "distinct (map fst (keyed es))"
    by (simp add: comp_def sorted_wrt_irrefl_distinct)
  then show ?thesis unfolding page_map_of_def by (auto simp: map_of_eq_Some_iff)
qed

lemma page_map_of_append: "page_map_of (as @ bs) = page_map_of bs ++ page_map_of as"
  by (simp add: page_map_of_def)

lemma dom_page_map_of: "dom (page_map_of es) = pme_page_number ` set es"
  by (auto simp: page_map_of_def dom_map_of_conv_image_fst image_image)

lemma page_map_of_None: "p \<notin> pme_page_number ` set es \<Longrightarrow> page_map_of es p = None"
  using dom_page_map_of [of es] by (auto simp: domIff)

lemma page_map_of_append_disjoint:
  "ascending (as @ bs) \<Longrightarrow> page_map_of (as @ bs) = page_map_of as ++ page_map_of bs"
  unfolding page_map_of_append
  by (rule map_add_comm) (force simp: dom_page_map_of sorted_wrt_append)

lemma page_map_of_inj:
  "ascending as \<Longrightarrow> ascending bs \<Longrightarrow> page_map_of as = page_map_of bs \<Longrightarrow> as = bs"
proof -
  assume a: "ascending as" "ascending bs" "page_map_of as = page_map_of bs"
  have "keyed as = keyed bs"
    using a by (intro bt.entries_determined) (auto simp: bt_ok_def comp_def bt_get_def page_map_of_def)
  then have "map snd (keyed as) = map snd (keyed bs)" by simp
  then show "as = bs" by (simp add: comp_def)
qed

section \<open>Building nodes keeps the entries\<close>

lemma create_tree_Inr:
  assumes "create_tree x node children arts = Inr (t, arts')"
  shows "pm_validate node = Inr ()" "t_node t = node" "t_children t = children"
    "t_min t = (case node of PageLeaf es \<Rightarrow> pme_page_number (hd es) | PageInternal _ _ \<Rightarrow> t_min (hd children))"
    "t_max t = the (pm_max_page node)"
  using assms by (auto simp: create_tree_def result_simps Let_def encode_page_map_Inr)

lemma node_attempt_Inr:
  "node_attempt n r = Some (Inr (ts, arts)) \<longleftrightarrow> n \<le> tree_capacity \<and> (\<exists>t. r = Inr (t, arts) \<and> ts = [t])"
  by (auto simp: node_attempt_def split: sum.splits if_splits)

lemma create_leaf_inv:
  assumes "create_tree x (PageLeaf es) [] arts = Inr (t, arts')"
  shows "tree_inv t" "tree_entries t = es"
proof -
  note c = create_tree_Inr [OF assms]
  have "es \<noteq> []" "ascending es" using c(1) unfolding pm_validate_leaf by auto
  then show "tree_inv t" "tree_entries t = es" using c
    by (simp_all add: tree_inv.simps [of t] tree_entries.simps [of t] last_opt_def)
qed

text \<open>Induction over the splitting of a row of entries or children.\<close>

lemma leaf_nodes_induct [consumes 1, case_names none one split]:
  assumes run: "leaf_nodes x es arts = Inr (ts, arts')"
    and none: "\<And>arts. P [] arts [] arts"
    and one: "\<And>es arts t arts'. length es \<le> tree_capacity \<Longrightarrow>
           create_tree x (PageLeaf es) [] arts = Inr (t, arts') \<Longrightarrow> P es arts [t] arts'"
    and split: "\<And>es arts ls a rs arts'. 2 \<le> length es \<Longrightarrow>
           P (take (length es div 2) es) arts ls a \<Longrightarrow> P (drop (length es div 2) es) a rs arts' \<Longrightarrow>
           P es arts (ls @ rs) arts'"
  shows "P es arts ts arts'"
  using run one split
proof (induction x es arts arbitrary: ts arts' rule: leaf_nodes.induct)
  case (1 x es arts)
  note run = "1.prems"(1)
  show ?case
  proof (cases "es = []")
    case True
    then show ?thesis using run none by (simp add: leaf_nodes.simps [of x "[]"])
  next
    case False
    let ?att = "node_attempt (length es) (create_tree x (PageLeaf es) [] arts)"
    from run False have v: "pm_validate (PageLeaf es) = Inr ()"
      by (auto simp: leaf_nodes.simps [of x es] result_simps)
    show ?thesis
    proof (cases ?att)
      case None
      with run False v obtain ls a rs where
        l: "leaf_nodes x (take (length es div 2) es) arts = Inr (ls, a)"
        and r: "leaf_nodes x (drop (length es div 2) es) a = Inr (rs, arts')" and ts: "ts = ls @ rs"
        by (auto simp: leaf_nodes.simps [of x es] result_simps)
      have two: "2 \<le> length es" using node_attempt_None [OF None] False by (cases es) (auto simp: Suc_le_eq)
      note IH = "1.IH"(1) [OF False None l "1.prems"(2,3)] "1.IH"(2) [OF False None r "1.prems"(2,3)]
      show ?thesis unfolding ts by (rule "1.prems"(3) [OF two IH])
    next
      case (Some r)
      with run False v have "?att = Some (Inr (ts, arts'))" by (simp add: leaf_nodes.simps [of x es])
      then show ?thesis using "1.prems"(2) by (auto simp: node_attempt_Inr)
    qed
  qed
qed

lemma leaf_nodes_Inr:
  "leaf_nodes x es arts = Inr (ts, arts') \<Longrightarrow> list_all tree_inv ts \<and> forest_entries ts = es"
  by (induction rule: leaf_nodes_induct) (auto dest: create_leaf_inv)

lemma forest_inv_take_drop: "forest_inv ts \<Longrightarrow> forest_inv (take n ts)" "forest_inv ts \<Longrightarrow> forest_inv (drop n ts)"
  by (auto simp: forest_inv_def list_all_iff sorted_wrt_take sorted_wrt_drop dest: in_set_takeD in_set_dropD)

lemma create_internal_inv:
  assumes "create_tree x (PageInternal l (map branch_of cs)) cs arts = Inr (t, arts')" "forest_inv cs"
  shows "tree_inv t" "tree_entries t = forest_entries cs"
proof -
  note c = create_tree_Inr [OF assms(1)]
  have "cs \<noteq> []" using c(1) unfolding pm_validate_internal by auto
  then show "tree_inv t" "tree_entries t = forest_entries cs" using c assms(2)
    by (simp_all add: tree_inv.simps [of t] tree_entries.simps [of t] last_opt_def forest_inv_def
        last_map branch_of_def)
qed

lemma internal_nodes_induct [consumes 1, case_names none one split]:
  assumes run: "internal_nodes x cs l arts = Inr (ts, arts')"
    and none: "\<And>arts. P [] arts [] arts"
    and one: "\<And>cs arts t arts'. cs \<noteq> [] \<Longrightarrow> length cs \<le> tree_capacity \<Longrightarrow>
           create_tree x (PageInternal l (map branch_of cs)) cs arts = Inr (t, arts') \<Longrightarrow> P cs arts [t] arts'"
    and split: "\<And>cs arts ls a rs arts'. 2 \<le> length cs \<Longrightarrow>
           pm_validate (PageInternal l (map branch_of cs)) = Inr () \<Longrightarrow>
           node_attempt (length cs) (create_tree x (PageInternal l (map branch_of cs)) cs arts) = None \<Longrightarrow>
           P (take (length cs div 2) cs) arts ls a \<Longrightarrow> P (drop (length cs div 2) cs) a rs arts' \<Longrightarrow>
           P cs arts (ls @ rs) arts'"
  shows "P cs arts ts arts'"
  using run one split
proof (induction x cs l arts arbitrary: ts arts' rule: internal_nodes.induct)
  case (1 x cs l arts)
  let ?node = "PageInternal l (map branch_of cs)"
  note run = "1.prems"(1)
  show ?case
  proof (cases "cs = []")
    case True
    then show ?thesis using run none by (simp add: internal_nodes.simps [of x "[]"])
  next
    case False
    let ?att = "node_attempt (length cs) (create_tree x ?node cs arts)"
    from run False have v: "pm_validate ?node = Inr ()"
      by (auto simp: internal_nodes.simps [of x cs] result_simps Let_def)
    show ?thesis
    proof (cases ?att)
      case None
      with run False v obtain ls a rs where
        l: "internal_nodes x (take (length cs div 2) cs) l arts = Inr (ls, a)"
        and r: "internal_nodes x (drop (length cs div 2) cs) l a = Inr (rs, arts')" and ts: "ts = ls @ rs"
        by (auto simp: internal_nodes.simps [of x cs] result_simps Let_def)
      have two: "2 \<le> length cs" using node_attempt_None [OF None] False by (cases cs) (auto simp: Suc_le_eq)
      note IH = "1.IH"(1) [OF False refl None l "1.prems"(2,3)] "1.IH"(2) [OF False refl None r "1.prems"(2,3)]
      show ?thesis unfolding ts by (rule "1.prems"(3) [OF two v None IH])
    next
      case (Some r)
      with run False v have "?att = Some (Inr (ts, arts'))" by (simp add: internal_nodes.simps [of x cs])
      then show ?thesis using "1.prems"(2) False by (auto simp: node_attempt_Inr)
    qed
  qed
qed

lemma forest_entries_halves: "forest_entries (take n cs) @ forest_entries (drop n cs) = forest_entries cs"
  by (simp flip: concat_append map_append)

lemma internal_nodes_Inr:
  "internal_nodes x cs l arts = Inr (ts, arts') \<Longrightarrow> forest_inv cs \<Longrightarrow>
     list_all tree_inv ts \<and> forest_entries ts = forest_entries cs"
  by (induction rule: internal_nodes_induct)
    (auto dest: create_internal_inv simp: forest_inv_take_drop forest_entries_halves)

section \<open>The update of a tree\<close>

text \<open>What an update should do to the page map: drop what lies past the end of the file, then let
  the changed pages win.\<close>

definition updated_map :: "(u64 \<rightharpoonup> page_map_entry) \<Rightarrow> page_map_entry list \<Rightarrow> u64 \<Rightarrow> (u64 \<rightharpoonup> page_map_entry)" where
  "updated_map m changes eof = (m |` {..eof}) ++ page_map_of changes"

lemma page_map_of_filter: "ascending es \<Longrightarrow> page_map_of (filter (\<lambda>e. P (pme_page_number e)) es) = page_map_of es |` {p. P p}"
  unfolding page_map_of_def by (induction es) (auto simp: fun_eq_iff restrict_map_def)

lemma ascending_filter: "ascending es \<Longrightarrow> ascending (filter P es)"
  by (induction es) auto

lemma map_of_rev_distinct: "distinct (map fst xs) \<Longrightarrow> map_of (rev xs) = map_of xs"
proof (rule ext)
  fix k assume d: "distinct (map fst xs)"
  show "map_of (rev xs) k = map_of xs k"
  proof (cases "map_of xs k")
    case None
    then have "map_of (rev xs) k = None" by (simp add: map_of_eq_None_iff)
    with None show ?thesis by simp
  next
    case (Some v)
    then have "(k, v) \<in> set (rev xs)" by (simp add: map_of_SomeD)
    moreover have "distinct (map fst (rev xs))" using d by (simp add: rev_map [symmetric])
    ultimately show ?thesis using Some by (simp add: map_of_is_SomeI)
  qed
qed

lemma map_of_rev_keyed: "ascending es \<Longrightarrow> map_of (rev (keyed es)) = page_map_of es"
  unfolding page_map_of_def
  by (rule map_of_rev_distinct) (simp add: comp_def sorted_wrt_irrefl_distinct)

lemma keyed_values: "\<forall>(k, e) \<in> set m. k = pme_page_number e \<Longrightarrow> keyed (map snd m) = m"
  by (induction m) auto

lemma set_bt_insert_sub: "set (bt_insert k v m) \<subseteq> insert (k, v) (set m)"
  by (induction k v m rule: bt_insert.induct) auto

lemma set_bt_extend_sub: "set (bt_extend m es) \<subseteq> set m \<union> set es"
  unfolding bt_extend_def
proof (induction es arbitrary: m)
  case (Cons e es)
  obtain k v where "e = (k, v)" by fastforce
  then show ?case using Cons [of "bt_insert k v m"] set_bt_insert_sub [of k v m] by auto
qed simp

lemma leaf_pages_spec:
  assumes "ascending es" "ascending changes"
  shows "ascending (leaf_pages es changes eof) \<and>
    page_map_of (leaf_pages es changes eof) = updated_map (page_map_of es) changes eof"
proof -
  define low where "low = filter (\<lambda>e. pme_page_number e \<le> eof) es"
  define m where "m = bt_extend (bt_extend [] (keyed low)) (keyed changes)"
  have lp: "leaf_pages es changes eof = map snd m" by (simp add: leaf_pages_def m_def low_def Let_def)
  have "set m \<subseteq> set (keyed low) \<union> set (keyed changes)"
    unfolding m_def using set_bt_extend_sub [of "[]" "keyed low"]
      set_bt_extend_sub [of "bt_extend [] (keyed low)" "keyed changes"] by fastforce
  then have k: "keyed (map snd m) = m" by (intro keyed_values) auto
  have ok: "bt_ok ([] :: (u64, page_map_entry) btree)" by (simp add: bt_ok_def)
  have asc: "ascending low" unfolding low_def by (rule ascending_filter [OF assms(1)])
  have low_map: "page_map_of low = page_map_of es |` {..eof}"
    unfolding low_def using page_map_of_filter [OF assms(1), of "\<lambda>p. p \<le> eof"] by (simp add: atMost_def)
  have "bt_ok m" unfolding m_def by (intro bt_ok_extend ok)
  moreover have "map pme_page_number (map snd m) = map fst m"
    by (subst (2) k [symmetric]) (simp add: comp_def)
  ultimately have "ascending (map snd m)" by (simp add: bt_ok_def del: map_map)
  moreover have "page_map_of (map snd m) = bt_get m" by (simp only: page_map_of_def k bt_get_def [abs_def])
  moreover have "bt_get m = updated_map (page_map_of es) changes eof"
    by (simp add: m_def bt_get_extend bt_ok_extend ok map_of_rev_keyed asc assms(2) updated_map_def
        bt.lookup_empty low_map)
  ultimately show ?thesis by (simp add: lp)
qed

lemma updated_map_append:
  assumes "\<forall>p \<in> dom m. p \<le> b" "\<forall>p \<in> dom m'. b < p"
    "\<forall>c \<in> set cs. pme_page_number c \<le> b" "\<forall>c \<in> set cs'. b < pme_page_number c"
    "ascending (cs @ cs')"
  shows "updated_map m cs eof ++ updated_map m' cs' eof = updated_map (m ++ m') (cs @ cs') eof"
proof
  fix p
  have m: "m p = None" if "b < p" using assms(1) that by (meson domIff not_le)
  have m': "m' p = None" if "p \<le> b" using assms(2) that by (meson domIff not_le)
  have c: "page_map_of cs p = None" if "b < p"
    using assms(3) that by (intro page_map_of_None) auto
  have c': "page_map_of cs' p = None" if "p \<le> b"
    using assms(4) that by (intro page_map_of_None) auto
  show "(updated_map m cs eof ++ updated_map m' cs' eof) p = updated_map (m ++ m') (cs @ cs') eof p"
    unfolding updated_map_def page_map_of_append_disjoint [OF assms(5)]
    using m m' c c'
    by (cases "b < p") (auto simp: map_add_def restrict_map_def split: option.split)
qed

lemma dom_updated_mapD:
  "updated_map m cs eof p = Some e \<Longrightarrow> p \<in> dom m \<or> (\<exists>c. c \<in> set cs \<and> p = pme_page_number c)"
  using dom_page_map_of [of cs]
  by (auto simp: updated_map_def map_add_Some_iff restrict_map_def dom_def split: if_splits)

lemma partition_point_le:
  assumes "ascending es"
  shows "\<forall>e \<in> set (take (partition_point (\<lambda>e. pme_page_number e \<le> b) es) es). pme_page_number e \<le> b"
    "\<forall>e \<in> set (drop (partition_point (\<lambda>e. pme_page_number e \<le> b) es) es). b < pme_page_number e"
proof -
  show "\<forall>e \<in> set (take (partition_point (\<lambda>e. pme_page_number e \<le> b) es) es). pme_page_number e \<le> b"
    unfolding partition_point_def takeWhile_eq_take [symmetric] by (auto dest: set_takeWhileD)
  show "\<forall>e \<in> set (drop (partition_point (\<lambda>e. pme_page_number e \<le> b) es) es). b < pme_page_number e"
    unfolding partition_point_def dropWhile_eq_drop [symmetric] using assms
    by (induction es) (auto intro: less_trans)
qed

definition forest_map :: "tree list \<Rightarrow> (u64 \<rightharpoonup> page_map_entry)" where
  "forest_map ts = page_map_of (forest_entries ts)"

text \<open>What the results of an update are: in shape, ascending, and with the page map asked for.\<close>

definition update_result :: "tree list \<Rightarrow> (u64 \<rightharpoonup> page_map_entry) \<Rightarrow> bool" where
  "update_result ts m = (forest_inv ts \<and> forest_map ts = m)"

lemma forest_inv_Cons: "forest_inv (t # ts) \<longleftrightarrow> tree_inv t \<and> forest_inv ts \<and> (\<forall>u \<in> set ts. t_max t < t_min u)"
  by (auto simp: forest_inv_def)

lemma tree_entries_range:
  assumes "tree_inv t" "e \<in> set (tree_entries t)"
  shows "t_min t \<le> pme_page_number e" "pme_page_number e \<le> t_max t"
  using tree_inv_bounded [OF assms(1)] ascending_hd_last [of "tree_entries t" e] assms(2)
  by (auto simp: bounded_entries_def)

lemma forest_update_append:
  assumes inv: "forest_inv (c # cs)" and asc: "ascending changes"
    and here: "update_result here (updated_map (forest_map [c]) (take n changes) eof)"
    and rest: "update_result rest (updated_map (forest_map cs) (drop n changes) eof)"
    and n: "n = partition_point (\<lambda>e. pme_page_number e \<le> t_max c) changes"
  shows "update_result (here @ rest) (updated_map (forest_map (c # cs)) changes eof)"
proof -
  note pp = partition_point_le [OF asc, of "t_max c", folded n]
  have lo: "\<forall>p \<in> dom (forest_map [c]). p \<le> t_max c"
    using inv by (auto simp: forest_map_def dom_page_map_of forest_inv_Cons tree_entries_range)
  have hi: "\<forall>p \<in> dom (forest_map cs). t_max c < p"
  proof
    fix p assume "p \<in> dom (forest_map cs)"
    then obtain u e where u: "u \<in> set cs" "e \<in> set (tree_entries u)" "p = pme_page_number e"
      by (auto simp: forest_map_def dom_page_map_of)
    with inv have "t_max c < t_min u" "tree_inv u" by (auto simp: forest_inv_def list_all_iff)
    with tree_entries_range [of u e] u show "t_max c < p" by auto
  qed
  have "\<forall>p \<in> dom (forest_map here). p \<le> t_max c"
    using here by (auto simp: update_result_def dest!: dom_updated_mapD lo [rule_format] pp(1) [rule_format])
  moreover have "\<forall>p \<in> dom (forest_map rest). t_max c < p"
    using rest by (auto simp: update_result_def dest!: dom_updated_mapD hi [rule_format] pp(2) [rule_format])
  ultimately have sep: "pme_page_number e < pme_page_number f"
    if "e \<in> set (forest_entries here)" "f \<in> set (forest_entries rest)" for e f
    using that unfolding forest_map_def dom_page_map_of by (meson imageI le_less_trans)
  have asc': "ascending (forest_entries here @ forest_entries rest)"
    using here rest sep unfolding update_result_def
    by (intro ascending_append forest_inv_ascending) auto
  have "forest_inv (here @ rest)"
    using here rest asc' unfolding update_result_def
    by (intro forest_invI) (simp_all add: forest_inv_def)
  moreover have "forest_map (here @ rest) = forest_map here ++ forest_map rest"
    using page_map_of_append_disjoint [OF asc'] by (simp add: forest_map_def)
  moreover have "forest_map (c # cs) = forest_map [c] ++ forest_map cs"
    using page_map_of_append_disjoint [of "tree_entries c" "forest_entries cs"] forest_inv_ascending [OF inv]
    by (simp add: forest_map_def)
  moreover have "updated_map (forest_map [c]) (take n changes) eof ++ updated_map (forest_map cs) (drop n changes) eof
      = updated_map (forest_map [c] ++ forest_map cs) (take n changes @ drop n changes) eof"
    by (rule updated_map_append [OF lo hi pp]) (simp add: asc)
  ultimately show ?thesis using here rest by (simp add: update_result_def)
qed

lemma forest_inv_single [simp]: "forest_inv [t] \<longleftrightarrow> tree_inv t"
  by (simp add: forest_inv_def)

lemma updated_map_same:
  "(\<And>p. p \<in> dom m \<Longrightarrow> p \<le> eof) \<Longrightarrow> updated_map m [] eof = m"
  by (auto simp: updated_map_def page_map_of_def fun_eq_iff restrict_map_def dom_def)
    (metis not_None_eq)

lemma updated_map_beyond:
  "(\<And>p. p \<in> dom m \<Longrightarrow> eof < p) \<Longrightarrow> updated_map m [] eof = Map.empty"
  by (auto simp: updated_map_def page_map_of_def fun_eq_iff restrict_map_def dom_def)
    (metis leD not_None_eq)

lemma dom_forest_single: "tree_inv t \<Longrightarrow> p \<in> dom (forest_map [t]) \<Longrightarrow> t_min t \<le> p \<and> p \<le> t_max t"
  by (auto simp: forest_map_def dom_page_map_of tree_entries_range)

lemma update_result_empty [simp]: "update_result [] Map.empty"
  by (simp add: update_result_def forest_inv_def forest_map_def page_map_of_def)

lemma leaf_nodes_result:
  assumes "leaf_nodes x es arts = Inr (ts, arts')" "ascending es"
  shows "update_result ts (page_map_of es)"
  using leaf_nodes_Inr [OF assms(1)] assms(2)
  by (simp add: update_result_def forest_map_def forest_invI)

lemma internal_nodes_result:
  assumes "internal_nodes x cs l arts = Inr (ts, arts')" "update_result cs m"
  shows "update_result ts m"
  using internal_nodes_Inr [OF assms(1)] assms(2)
  by (simp add: update_result_def forest_map_def forest_invI forest_inv_ascending)

lemma update_correct:
  "update_tree x t changes eof arts = Inr (ts, arts') \<Longrightarrow> tree_inv t \<Longrightarrow> ascending changes \<Longrightarrow>
     update_result ts (updated_map (forest_map [t]) changes eof)"
  "update_children x cs changes eof arts = Inr (ts, arts') \<Longrightarrow> forest_inv cs \<Longrightarrow> cs \<noteq> [] \<Longrightarrow>
     ascending changes \<Longrightarrow> update_result ts (updated_map (forest_map cs) changes eof)"
proof (induction x t changes eof arts and x cs changes eof arts arbitrary: ts arts' and ts arts'
    rule: update_tree_update_children.induct)
  case (1 x t changes eof arts)
  note range = dom_forest_single [OF "1.prems"(2)]
  show ?case
  proof (cases "changes = [] \<and> (t_max t \<le> eof \<or> eof < t_min t)")
    case True
    then show ?thesis
    proof (cases "t_max t \<le> eof")
      case True
      with \<open>changes = [] \<and> _\<close> "1.prems" have "ts = [t]" by (simp add: update_tree.simps [of x t])
      moreover have "updated_map (forest_map [t]) changes eof = forest_map [t]"
        using \<open>changes = [] \<and> _\<close> True range order_trans by (auto intro!: updated_map_same)
      ultimately show ?thesis using "1.prems" by (simp add: update_result_def)
    next
      case False
      with \<open>changes = [] \<and> _\<close> "1.prems" have "ts = []" by (auto simp: update_tree.simps [of x t])
      moreover have "updated_map (forest_map [t]) changes eof = Map.empty"
        using \<open>changes = [] \<and> _\<close> False range less_le_trans by (auto intro!: updated_map_beyond)
      ultimately show ?thesis by simp
    qed
  next
    case False
    then have g: "\<not> (changes = [] \<and> t_max t \<le> eof)" "\<not> (eof < t_min t \<and> changes = [])" by auto
    show ?thesis
    proof (cases "t_node t")
      case (PageLeaf es)
      then have es: "tree_entries t = es" "ascending es" using "1.prems"(2)
        by (simp_all add: tree_entries.simps [of t] tree_inv.simps [of t])
      from "1.prems"(1) g PageLeaf have "leaf_nodes x (leaf_pages es changes eof) arts = Inr (ts, arts')"
        by (simp add: update_tree.simps [of x t])
      from leaf_nodes_result [OF this] leaf_pages_spec [OF es(2) "1.prems"(3)]
      show ?thesis by (simp add: es forest_map_def)
    next
      case (PageInternal l bs)
      then have inv: "forest_inv (t_children t)" "t_children t \<noteq> []" "forest_map (t_children t) = forest_map [t]"
        using "1.prems"(2)
        by (simp_all add: tree_entries.simps [of t] tree_inv.simps [of t] forest_inv_def forest_map_def)
      from "1.prems"(1) g PageInternal obtain cs a where
        cs: "update_children x (t_children t) changes eof arts = Inr (cs, a)"
        and i: "internal_nodes x cs l a = Inr (ts, arts')"
        by (auto simp: update_tree.simps [of x t] result_simps)
      from internal_nodes_result [OF i] "1.IH" [OF g PageInternal cs inv(1,2) "1.prems"(3)] inv(3)
      show ?thesis by simp
    qed
  qed
next
  case (2 x changes eof arts)
  then show ?case by simp
next
  case (3 x c cs changes eof arts)
  define n where "n = (if cs = [] then length changes
      else partition_point (\<lambda>e. pme_page_number e \<le> t_max c) changes)"
  from "3.prems"(1) obtain here a rest where
    h: "update_tree x c (take n changes) eof arts = Inr (here, a)"
    and r: "update_children x cs (drop n changes) eof a = Inr (rest, arts')" and ts: "ts = here @ rest"
    by (auto simp: n_def Let_def result_simps)
  have inv: "tree_inv c" "forest_inv cs" using "3.prems"(2) by (auto simp: forest_inv_Cons)
  have asc: "ascending (take n changes)" "ascending (drop n changes)"
    using "3.prems"(4) by (simp_all add: take_map [symmetric] drop_map [symmetric] sorted_wrt_take sorted_wrt_drop)
  note here = "3.IH"(1) [OF n_def h inv(1) asc(1)]
  show ?case
  proof (cases "cs = []")
    case True
    then show ?thesis using here r by (simp add: ts n_def)
  next
    case False
    note rest = "3.IH"(2) [OF n_def r inv(2) False asc(2)]
    show ?thesis unfolding ts
      by (rule forest_update_append [OF "3.prems"(2,4) here rest]) (simp add: n_def False)
  qed
qed

lemma flatten_entries:
  "tree_inv t \<Longrightarrow> flatten_tree t m = bt_extend m (keyed (tree_entries t))"
proof (induction t arbitrary: m rule: tree_induct)
  case (tree t)
  show ?case
  proof (cases "t_node t")
    case (PageLeaf es)
    have "fold (\<lambda>page. bt_insert (pme_page_number page) page) es m = bt_extend m (keyed es)"
      by (simp add: bt_extend_def fold_map comp_def)
    then show ?thesis using PageLeaf by (simp add: flatten_tree.simps [of t] tree_entries.simps [of t])
  next
    case (PageInternal l bs)
    have "fold flatten_tree cs m = bt_extend m (keyed (forest_entries cs))"
      if "set cs \<subseteq> set (t_children t)" for cs m
      using that
    proof (induction cs arbitrary: m)
      case (Cons c cs)
      then have "tree_inv c" using tree.prems PageInternal by (auto simp: tree_inv.simps [of t] list_all_iff)
      with Cons tree.IH show ?case by (simp add: bt_extend_def)
    qed (simp add: bt_extend_def)
    from this [OF subset_refl] show ?thesis using PageInternal
      by (simp add: flatten_tree.simps [of t] tree_entries.simps [of t])
  qed
qed

lemma flatten_forest_map: "tree_inv t \<Longrightarrow> bt_get (flatten_tree t []) = forest_map [t]"
proof -
  assume t: "tree_inv t"
  have "bt_get (flatten_tree t []) = map_of (rev (keyed (tree_entries t)))"
    unfolding flatten_entries [OF t] by (simp add: bt_get_extend bt_ok_def bt.lookup_empty)
  also have "\<dots> = page_map_of (tree_entries t)"
    using tree_inv_bounded [OF t] by (intro map_of_rev_keyed) (simp add: bounded_entries_def)
  finally show ?thesis by (simp add: forest_map_def)
qed

section \<open>Collapsing the roots\<close>

text \<open>
  A node of at most \<^const>\<open>tree_capacity\<close> branches fits the byte limit when the URIs of its children are
  not longer than 4096 bytes; every URI the writer makes is shorter.
\<close>

definition short_reference :: "page_object_reference \<Rightarrow> bool" where
  "short_reference r = (length (uri_as_str (por_uri r)) \<le> 4096 \<and> sha_ok (por_sha256 r))"

lemma length_major: "length (major k v) \<le> 9"
  by (simp add: major_def Let_def)

lemma put_lengths:
  "length (put_text s) \<le> 9 + length s" "length (put_bytes bs) \<le> 9 + length bs"
  "length (put_unsigned v) \<le> 9" "length (array_len n) \<le> 9" "length (map_len n) \<le> 9"
  unfolding put_text_def put_bytes_def put_unsigned_def array_len_def map_len_def
  using length_major by (simp_all add: add_mono)

lemma length_encode_ref: "short_reference r \<Longrightarrow> length (encode_ref r) \<le> 4096 + 120"
  using put_lengths(5) [of 3] put_lengths(1) [of "''uri''"] put_lengths(1) [of "uri_as_str (por_uri r)"]
    put_lengths(1) [of "''length''"] put_lengths(3) [of "por_length r"] put_lengths(1) [of "''sha256''"]
    put_lengths(2) [of "sha_as_bytes (por_sha256 r)"]
  by (simp add: encode_ref_def short_reference_def sha_ok_def)

lemma length_encode_branch: "short_reference (pmb_child b) \<Longrightarrow> length (encode_branch b) \<le> 4096 + 170"
  using put_lengths(5) [of 2] put_lengths(1) [of "''child''"] length_encode_ref [of "pmb_child b"]
    put_lengths(1) [of "''max_page''"] put_lengths(3) [of "pmb_max_page b"]
  by (simp add: encode_branch_def)

lemma length_concat_le:
  "(\<And>x. x \<in> set xs \<Longrightarrow> length (f x) \<le> k) \<Longrightarrow> length (concat (map f xs)) \<le> k * length xs"
proof (induction xs)
  case (Cons a xs)
  then have "length (f a) \<le> k" "length (concat (map f xs)) \<le> k * length xs" by auto
  then show ?case by simp
qed simp

lemma short_node_fits:
  assumes "length bs \<le> tree_capacity" "\<And>b. b \<in> set bs \<Longrightarrow> short_reference (pmb_child b)"
  shows "length (page_map_bytes (PageInternal l bs)) \<le> max_page_map_bytes"
proof -
  have "length (concat (map encode_branch bs)) \<le> (4096 + 170) * length bs"
    by (rule length_concat_le) (use assms(2) in \<open>simp only: length_encode_branch\<close>)
  with assms(1) have "length (concat (map encode_branch bs)) \<le> 546048"
    by (simp add: tree_capacity_def)
  then show ?thesis
    using put_lengths(5) [of 4] put_lengths(1) [of "''level''"] put_lengths(3) [of "u64_from_u32 l"]
      put_lengths(1) [of "''entries''"] put_lengths(4) [of "length bs"] put_lengths(1) [of "''version''"]
      put_lengths(3) [of 1] put_lengths(1) [of "''node_type''"] put_lengths(1) [of "''internal''"]
    by (simp add: max_page_map_bytes_def)
qed

lemma split_on_no_sep: "c \<notin> set s \<Longrightarrow> split_on c s = [s]"
  by (induction s) auto

lemma content_uri_safe:
  assumes "hex_laws x" "p \<in> {''_otmp/page-maps/'', ''_otmp/page-packs/''}" "s \<in> {''.cbor'', ''.otmppg''}"
  shows "uri_safe (content_uri x p s bs)"
proof -
  let ?h = "hex_encode x (sha_as_bytes (object_hash x bs))"
  have h: "list_all is_lower_hex ?h" using assms(1) by (simp add: hex_laws_def)
  then have "CHR ''/'' \<notin> set ?h" "CHR 0x5C \<notin> set ?h" "CHR '':'' \<notin> set ?h"
    by (auto simp: list_all_iff is_lower_hex_def is_digit_def)
  then show ?thesis using assms(2,3)
    by (auto simp: uri_safe_def content_uri_def starts_with_def split_on_no_sep)
qed

lemma content_uri_length:
  assumes "hex_laws x" "sha_laws x"
  shows "length (content_uri x p s bs) = length p + 64 + length s"
  using assms by (simp add: content_uri_def hex_laws_def sha_laws_def object_hash_def digest_def)

definition short_tree :: "tree \<Rightarrow> bool" where
  "short_tree t = short_reference (t_reference t)"

lemma create_tree_short:
  assumes "hex_laws x" "sha_laws x" "create_tree x node cs arts = Inr (t, arts')"
  shows "short_tree t"
proof -
  from assms(3) obtain bs where
    "t_reference t = content_reference x (RelativeUri (content_uri x ''_otmp/page-maps/'' ''.cbor'' bs)) bs"
    by (auto simp: create_tree_def result_simps Let_def uri_from_str_Inr)
  then show ?thesis using assms(1,2)
    by (simp add: short_tree_def short_reference_def content_reference_def content_uri_length
        sha_ok_def sha_laws_def object_hash_def digest_def)
qed

lemma create_short_internal:
  assumes x: "hex_laws x" and v: "pm_validate (PageInternal l (map branch_of cs)) = Inr ()"
    and "length cs \<le> tree_capacity" "list_all short_tree cs"
  shows "\<exists>t arts'. create_tree x (PageInternal l (map branch_of cs)) cs arts = Inr (t, arts')"
proof -
  have "length (page_map_bytes (PageInternal l (map branch_of cs))) \<le> max_page_map_bytes"
    by (rule short_node_fits) (use assms in \<open>auto simp: list_all_iff short_tree_def branch_of_def\<close>)
  then obtain bs where "encode_page_map (PageInternal l (map branch_of cs)) = Inr bs"
    using v by (simp add: encode_page_map_def Let_def)
  then show ?thesis
    using content_uri_safe [OF x, of "''_otmp/page-maps/''" "''.cbor''" bs]
    by (simp add: create_tree_def uri_from_str_def Let_def)
qed

text \<open>A row of nodes is shorter than the row of its children.\<close>

lemma internal_nodes_shrink:
  "internal_nodes x cs l arts = Inr (ts, arts') \<Longrightarrow> hex_laws x \<Longrightarrow> sha_laws x \<Longrightarrow> list_all short_tree cs \<Longrightarrow>
     length ts \<le> length cs \<and> (2 \<le> length cs \<longrightarrow> length ts < length cs)"
proof (induction rule: internal_nodes_induct)
  case (split cs arts ls a rs arts')
  have "tree_capacity < length cs"
  proof (rule ccontr)
    assume "\<not> tree_capacity < length cs"
    then show False
      using create_short_internal [OF split.prems(1) split.hyps(2), of arts] split.hyps(3) split.prems(3)
      by (auto simp: node_attempt_def)
  qed
  then have "2 \<le> length cs div 2" "2 \<le> length cs - length cs div 2" by (auto simp: tree_capacity_def)
  moreover have "list_all short_tree (take n cs)" "list_all short_tree (drop n cs)" for n
    using split.prems by (auto simp: list_all_iff dest: in_set_takeD in_set_dropD)
  ultimately show ?case using split.IH split.prems by auto
qed (auto simp: Suc_le_eq)

lemma internal_nodes_short:
  "internal_nodes x cs l arts = Inr (ts, arts') \<Longrightarrow> hex_laws x \<Longrightarrow> sha_laws x \<Longrightarrow> list_all short_tree ts"
  by (induction rule: internal_nodes_induct) (auto dest: create_tree_short)

lemma leaf_nodes_short:
  "leaf_nodes x cs arts = Inr (ts, arts') \<Longrightarrow> hex_laws x \<Longrightarrow> sha_laws x \<Longrightarrow> list_all short_tree ts"
  by (induction rule: leaf_nodes_induct) (auto dest: create_tree_short)

lemma update_tree_short:
  "update_tree x t changes eof arts = Inr (ts, arts') \<Longrightarrow> hex_laws x \<Longrightarrow> sha_laws x \<Longrightarrow> short_tree t
    \<Longrightarrow> list_all short_tree ts"
  by (auto simp: update_tree.simps [of x t] result_simps split: if_splits page_map_node.splits
      dest: leaf_nodes_short internal_nodes_short)

lemma collapse_roots_returns:
  assumes x: "hex_laws x" "sha_laws x"
  shows "list_all short_tree roots \<Longrightarrow> \<exists>r. collapse_roots x roots arts = Some r"
proof (induction roots arbitrary: arts rule: measure_induct_rule [where f = length])
  case (less roots)
  show ?case
  proof (cases "1 < length roots")
    case True
    let ?r = "internal_nodes x roots (pm_level (t_node (hd roots)) + 1) arts"
    show ?thesis
    proof (cases ?r)
      case (Inr p)
      obtain ts a where p: "p = (ts, a)" by fastforce
      have "length ts < length roots" "list_all short_tree ts"
        using internal_nodes_shrink [OF Inr [unfolded p] x less.prems] True
          internal_nodes_short [OF Inr [unfolded p] x] by auto
      with less.IH [of ts a] True Inr p show ?thesis by (simp add: collapse_roots.simps [of x roots])
    qed (use True in \<open>simp add: collapse_roots.simps [of x roots]\<close>)
  qed (simp add: collapse_roots.simps [of x roots])
qed

lemma collapse_roots_result:
  assumes "collapse_roots x roots arts = Some r"
  shows "r = Inr (ts, arts') \<longrightarrow> update_result roots m \<longrightarrow> length ts \<le> 1 \<and> update_result ts m"
proof (rule collapse_roots.raw_induct [of "\<lambda>x roots arts r. r = Inr (ts, arts') \<longrightarrow>
    update_result roots m \<longrightarrow> length ts \<le> 1 \<and> update_result ts m" "((x, roots), arts)", unfolded prod.case,
    OF _ assms], intro impI)
  fix rec x roots arts r
  assume IH: "\<And>x roots arts r. rec x roots arts = Some r \<Longrightarrow> r = Inr (ts, arts') \<longrightarrow>
      update_result roots m \<longrightarrow> length ts \<le> 1 \<and> update_result ts m"
    and body: "(if 1 < length roots
        then case internal_nodes x roots (pm_level (t_node (hd roots)) + 1) arts of
               Inl e \<Rightarrow> Some (Inl e) | Inr (roots, arts) \<Rightarrow> rec x roots arts
        else Some (Inr (roots, arts))) = Some r"
    and r: "r = Inr (ts, arts')" and m: "update_result roots m"
  show "length ts \<le> 1 \<and> update_result ts m"
    using body r m IH internal_nodes_result
    by (fastforce split: if_splits sum.splits prod.splits)
qed

lemma strip_single_same: "tree_inv t \<Longrightarrow> tree_inv (strip_single t) \<and> tree_entries (strip_single t) = tree_entries t"
proof (induction t rule: strip_single.induct)
  case (1 t)
  show ?case
  proof (cases "\<exists>c. t_children t = [c]")
    case True
    then obtain c where c: "t_children t = [c]" by blast
    with "1.prems" have "tree_inv c" "tree_entries t = tree_entries c"
      by (auto simp: tree_inv.simps [of t] tree_entries.simps [of t] split: page_map_node.splits)
    with "1.IH" [OF c refl] c show ?thesis by (simp add: strip_single.simps [of t])
  next
    case False
    then have "strip_single t = t" by (auto simp: strip_single.simps [of t] split: list.split)
    with "1.prems" show ?thesis by simp
  qed
qed

section \<open>Packing the changed pages\<close>

text \<open>The entry names a pack by the hash of its bytes, and those bytes hold the page.\<close>

definition holds_page :: "externals \<Rightarrow> page_map_entry \<Rightarrow> byte list \<Rightarrow> bool" where
  "holds_page x e page =
     (pme_page_sha256 e = digest x page \<and>
      (\<exists>bs. pme_pack e = content_reference x (RelativeUri (content_uri x ''_otmp/page-packs/'' ''.otmppg'' bs)) bs
          \<and> take (unat (pme_stored_length e)) (drop (unat (pme_offset e)) bs) = page))"

definition packed :: "externals \<Rightarrow> u64 \<times> byte list \<Rightarrow> page_map_entry \<Rightarrow> bool" where
  "packed x page e = (pme_page_number e = fst page \<and> holds_page x e (snd page))"

lemma bt_ok_append: "bt_ok (as @ bs) \<Longrightarrow> bt_ok as \<and> bt_ok bs"
  by (simp add: bt_ok_def sorted_wrt_append)

lemma bt_extend_sorted: "bt_ok (m @ es) \<Longrightarrow> bt_extend m es = m @ es"
proof (induction es arbitrary: m)
  case (Cons e es)
  obtain k v where e: "e = (k, v)" by fastforce
  have "bt_ok (m @ [(k, v)])" using Cons.prems bt_ok_append [of "m @ [(k, v)]" es] by (simp add: e)
  then have "bt_insert k v m = m @ [(k, v)]" by (rule bt_insert_snoc)
  then show ?case using Cons.IH [of "m @ [(k, v)]"] Cons.prems by (simp add: e bt_extend_def)
qed (simp add: bt_extend_def)

lemma persist_chunk_Inr:
  assumes "persist_chunk x eof (ms, arts) c = Inr (ms', arts')" "sha_laws x" "bt_ok c"
  shows "(\<forall>p \<in> set c. fst p \<le> eof) \<and> (\<exists>es. ms' = ms @ es \<and> list_all2 (packed x) c es)"
proof -
  have c: "bt_extend [] c = c" using bt_extend_sorted [of "[]" c] assms(3) by simp
  from assms(1) obtain bs uri idx where b: "encode_page_pack x image_page_size c = Inr bs"
    and u: "uri_from_str (content_uri x ''_otmp/page-packs/'' ''.otmppg'' bs) = Inr uri"
    and d: "decode_pack_index bs = Inr idx"
    and ms: "ms' = ms @ map (mapping_of (content_reference x uri bs)) (pki_entries idx)"
    and eof: "\<not> list_ex (\<lambda>(n, _). eof < n) c"
    by (auto simp: persist_chunk_def result_simps Let_def c)
  from encoded_pack_entries [OF assms(2,3) b] d have
    len: "length (pki_entries idx) = length c"
    and es: "\<And>i. i < length c \<Longrightarrow> pie_page_number (pki_entries idx ! i) = fst (c ! i)
          \<and> pie_page_sha256 (pki_entries idx ! i) = digest x (snd (c ! i))
          \<and> take (unat (pie_stored_length (pki_entries idx ! i)))
              (drop (unat (pie_offset (pki_entries idx ! i))) bs) = snd (c ! i)"
    by auto
  have "list_all2 (packed x) c (map (mapping_of (content_reference x uri bs)) (pki_entries idx))"
    using es u by (auto simp: list_all2_conv_all_nth len packed_def holds_page_def mapping_of_def uri_from_str_Inr)
  moreover have "\<forall>p \<in> set c. fst p \<le> eof" using eof by (force simp: list_ex_iff)
  ultimately show ?thesis using ms by blast
qed

lemma persist_chunks_Inr:
  assumes "sha_laws x"
  shows "try_fold (persist_chunk x eof) (ms, arts) cs = Inr (ms', arts') \<Longrightarrow> bt_ok (concat cs) \<Longrightarrow>
     (\<forall>p \<in> set (concat cs). fst p \<le> eof) \<and> (\<exists>es. ms' = ms @ es \<and> list_all2 (packed x) (concat cs) es)"
proof (induction cs arbitrary: ms arts)
  case (Cons c cs)
  from Cons.prems(1) obtain m a where c: "persist_chunk x eof (ms, arts) c = Inr (m, a)"
    and r: "try_fold (persist_chunk x eof) (m, a) cs = Inr (ms', arts')"
    by (auto simp: result_simps)
  have ok: "bt_ok c" "bt_ok (concat cs)" using Cons.prems(2) bt_ok_append [of c "concat cs"] by auto
  from persist_chunk_Inr [OF c assms ok(1)] Cons.IH [OF r ok(2)]
  show ?case by (auto intro: list_all2_appendI)
qed simp

text \<open>The page map of a tree that may be absent.\<close>

definition root_map :: "tree option \<Rightarrow> (u64 \<rightharpoonup> page_map_entry)" where
  "root_map root = (case root of None \<Rightarrow> Map.empty | Some t \<Rightarrow> bt_get (flatten_tree t []))"

lemma packed_page_map:
  assumes "list_all2 (packed x) pages es" "bt_ok pages"
  shows "ascending es"
    "case bt_get pages p of Some page \<Rightarrow> (\<exists>e. page_map_of es p = Some e \<and> holds_page x e page)
     | None \<Rightarrow> page_map_of es p = None"
proof -
  have keys: "map pme_page_number es = map fst pages"
    using assms(1) by (induction rule: list_all2_induct) (auto simp: packed_def)
  then show asc: "ascending es" using assms(2) by (simp add: bt_ok_def)
  show "case bt_get pages p of Some page \<Rightarrow> (\<exists>e. page_map_of es p = Some e \<and> holds_page x e page)
     | None \<Rightarrow> page_map_of es p = None"
    using assms(1) unfolding bt_get_def page_map_of_def
    by (induction rule: list_all2_induct) (auto simp: packed_def split: option.splits)
qed

lemma root_map_strip:
  assumes "update_result ts m" "length ts \<le> 1"
  shows "root_map (map_option strip_single (last_opt ts)) = m"
    "pred_option tree_inv (map_option strip_single (last_opt ts))"
proof -
  consider "ts = []" | t where "ts = [t]" using assms(2) by (cases ts) auto
  then have "root_map (map_option strip_single (last_opt ts)) = m \<and>
    pred_option tree_inv (map_option strip_single (last_opt ts))"
  proof cases
    case 1
    then show ?thesis using assms(1)
      by (simp add: last_opt_def root_map_def update_result_def forest_map_def page_map_of_def fun_eq_iff)
  next
    case (2 t)
    with assms(1) have "tree_inv t" "forest_map [t] = m" by (simp_all add: update_result_def)
    with strip_single_same [of t] 2 show ?thesis
      by (simp add: last_opt_def root_map_def flatten_forest_map forest_map_def)
  qed
  then show "root_map (map_option strip_single (last_opt ts)) = m"
    "pred_option tree_inv (map_option strip_single (last_opt ts))" by auto
qed

lemma pack_capacity_pos: "0 < pack_capacity"
  by (simp add: pack_capacity_def pack_target_def image_page_size_def)

lemma persist_root_steps:
  assumes x: "sha_laws x" and ch: "bt_ok changed" and parent: "pred_option tree_inv parent"
    and run: "persist_root x parent changed eof = Some (Inr (root, arts))"
  obtains ms a roots b ts where
    "try_fold (persist_chunk x eof) ([], []) (chunks pack_capacity changed) = Inr (ms, a)"
    "(case parent of Some p \<Rightarrow> update_tree x p ms eof a | None \<Rightarrow> leaf_nodes x ms a) = Inr (roots, b)"
    "collapse_roots x roots b = Some (Inr (ts, arts))" "root = map_option strip_single (last_opt ts)"
    "length ts \<le> 1" "list_all2 (packed x) changed ms" "\<forall>p \<in> set changed. fst p \<le> eof"
    "update_result ts (updated_map (root_map parent) ms eof)"
proof -
  from run obtain ms a roots b ts where
    m: "try_fold (persist_chunk x eof) ([], []) (chunks pack_capacity changed) = Inr (ms, a)"
    and u: "(case parent of Some p \<Rightarrow> update_tree x p ms eof a | None \<Rightarrow> leaf_nodes x ms a) = Inr (roots, b)"
    and c: "collapse_roots x roots b = Some (Inr (ts, arts))"
    and root: "root = map_option strip_single (last_opt ts)"
    by (auto simp: persist_root_def result_simps split: sum.splits)
  have cc: "concat (chunks pack_capacity changed) = changed" by (rule concat_chunks [OF pack_capacity_pos])
  from persist_chunks_Inr [OF x m] ch have pk: "list_all2 (packed x) changed ms" "\<forall>p \<in> set changed. fst p \<le> eof"
    unfolding cc by auto
  have asc: "ascending ms" by (rule packed_page_map(1) [OF pk(1) ch])
  have "update_result roots (updated_map (root_map parent) ms eof)"
  proof (cases parent)
    case None
    then show ?thesis using u leaf_nodes_result [OF _ asc, of x a roots b]
      by (simp add: root_map_def updated_map_def)
  next
    case (Some t)
    then show ?thesis using u update_correct(1) [OF _ _ asc, of x t eof a roots b] parent
      by (simp add: root_map_def flatten_forest_map)
  qed
  with collapse_roots_result [OF c] have "length ts \<le> 1" "update_result ts (updated_map (root_map parent) ms eof)"
    by auto
  then show thesis using that m u c root pk by blast
qed

section \<open>References and artifacts\<close>

text \<open>Every reference a tree contains: its nodes and the packs of its pages.\<close>

function tree_refs :: "tree \<Rightarrow> page_object_reference set" where
  "tree_refs t = insert (t_reference t)
     (case t_node t of
        PageLeaf es \<Rightarrow> pme_pack ` set es
      | PageInternal _ _ \<Rightarrow> \<Union> (tree_refs ` set (t_children t)))"
  by pat_completeness auto
termination
  by (relation "measure size") (auto simp: termination_simp)

declare tree_refs.simps [simp del]

definition content_kinds :: "(string \<times> string) set" where
  "content_kinds = {(''_otmp/page-maps/'', ''.cbor''), (''_otmp/page-packs/'', ''.otmppg'')}"

text \<open>An object to be written stands under the URI of the reference and has its hash.\<close>

definition covered :: "externals \<Rightarrow> artifacts \<Rightarrow> page_object_reference \<Rightarrow> bool" where
  "covered x arts r =
     (sha_ok (por_sha256 r)
      \<and> (\<exists>(p, s) \<in> content_kinds. uri_as_str (por_uri r) = p @ hex_encode x (sha_as_bytes (por_sha256 r)) @ s)
      \<and> (\<exists>a. bt_get arts (uri_as_str (por_uri r)) = Some a \<and> art_uri a = por_uri r
             \<and> object_hash x (art_bytes a) = por_sha256 r))"

lemma content_name_inj:
  assumes "hex_laws x" "sha_ok h" "sha_ok h'" "(p, s) \<in> content_kinds" "(p', s') \<in> content_kinds"
    "p @ hex_encode x (sha_as_bytes h) @ s = p' @ hex_encode x (sha_as_bytes h') @ s'"
  shows "h = h'"
proof -
  have len: "length (hex_encode x (sha_as_bytes h)) = 64" "length (hex_encode x (sha_as_bytes h')) = 64"
    using assms(1-3) by (simp_all add: hex_laws_def sha_ok_def)
  have "hex_encode x (sha_as_bytes h) = hex_encode x (sha_as_bytes h')"
    using assms(4-6) len by (auto simp: content_kinds_def)
  then have "hex_decode x (hex_encode x (sha_as_bytes h)) = hex_decode x (hex_encode x (sha_as_bytes h'))"
    by simp
  then show ?thesis using assms(1) by (simp add: hex_laws_def sha256.expand)
qed

lemma object_hash_ok: "sha_laws x \<Longrightarrow> sha_ok (object_hash x bs)"
  by (simp add: sha_ok_def object_hash_def digest_def sha_laws_def)

lemma covered_insert:
  assumes x: "hex_laws x" "sha_laws x" and ok: "bt_ok arts" and c: "covered x arts r"
    and k: "(p, s) \<in> content_kinds"
  shows "covered x (bt_insert (content_uri x p s bs)
    \<lparr>art_uri = RelativeUri (content_uri x p s bs), art_bytes = bs\<rparr> arts) r"
proof (cases "uri_as_str (por_uri r) = content_uri x p s bs")
  case True
  with c obtain p' s' where "(p', s') \<in> content_kinds" "sha_ok (por_sha256 r)"
    "p' @ hex_encode x (sha_as_bytes (por_sha256 r)) @ s' = p @ hex_encode x (sha_as_bytes (object_hash x bs)) @ s"
    by (auto simp: covered_def content_uri_def)
  then have "por_sha256 r = object_hash x bs"
    using content_name_inj [OF x(1) _ object_hash_ok [OF x(2)] _ k] by blast
  moreover have "RelativeUri (content_uri x p s bs) = por_uri r"
    using True by (metis relative_uri.collapse)
  ultimately show ?thesis using c True by (simp add: covered_def bt_get_insert [OF ok])
next
  case False
  then show ?thesis using c by (simp add: covered_def bt_get_insert [OF ok])
qed

lemma covered_new:
  assumes "sha_laws x" "bt_ok arts" "(p, s) \<in> content_kinds"
  shows "covered x (bt_insert (content_uri x p s bs)
    \<lparr>art_uri = RelativeUri (content_uri x p s bs), art_bytes = bs\<rparr> arts)
    (content_reference x (RelativeUri (content_uri x p s bs)) bs)"
  using assms by (auto simp: covered_def bt_get_insert content_reference_def object_hash_ok content_uri_def)

text \<open>Later artifacts keep what earlier ones cover.\<close>

definition arts_grow :: "externals \<Rightarrow> artifacts \<Rightarrow> artifacts \<Rightarrow> bool" where
  "arts_grow x arts arts' = (bt_ok arts \<longrightarrow> bt_ok arts' \<and> (\<forall>r. covered x arts r \<longrightarrow> covered x arts' r))"

lemma arts_grow_refl [simp]: "arts_grow x arts arts"
  by (simp add: arts_grow_def)

lemma arts_grow_trans: "arts_grow x a b \<Longrightarrow> arts_grow x b c \<Longrightarrow> arts_grow x a c"
  by (auto simp: arts_grow_def)

lemma arts_grow_insert:
  "hex_laws x \<Longrightarrow> sha_laws x \<Longrightarrow> (p, s) \<in> content_kinds \<Longrightarrow>
     arts_grow x arts (bt_insert (content_uri x p s bs) \<lparr>art_uri = RelativeUri (content_uri x p s bs), art_bytes = bs\<rparr> arts)"
  by (auto simp: arts_grow_def bt_ok_insert covered_insert)

lemma create_tree_covered:
  assumes x: "hex_laws x" "sha_laws x" and run: "create_tree x node cs arts = Inr (t, arts')"
  shows "arts_grow x arts arts' \<and> (bt_ok arts \<longrightarrow> covered x arts' (t_reference t))"
proof -
  have k: "(''_otmp/page-maps/'', ''.cbor'') \<in> content_kinds" by (simp add: content_kinds_def)
  from run obtain bs where
    "t_reference t = content_reference x (RelativeUri (content_uri x ''_otmp/page-maps/'' ''.cbor'' bs)) bs"
    "arts' = bt_insert (content_uri x ''_otmp/page-maps/'' ''.cbor'' bs)
       \<lparr>art_uri = RelativeUri (content_uri x ''_otmp/page-maps/'' ''.cbor'' bs), art_bytes = bs\<rparr> arts"
    by (auto simp: create_tree_def result_simps Let_def uri_from_str_Inr)
  then show ?thesis using arts_grow_insert [OF x k] covered_new [OF x(2) _ k] by simp
qed

text \<open>Every reference of a row of trees is either old or covered.\<close>

definition closed_refs :: "externals \<Rightarrow> page_object_reference set \<Rightarrow> artifacts \<Rightarrow> page_object_reference set \<Rightarrow> bool" where
  "closed_refs x old arts rs = (\<forall>r \<in> rs. r \<in> old \<or> covered x arts r)"

lemma closed_refs_grow:
  "closed_refs x old arts rs \<Longrightarrow> arts_grow x arts arts' \<Longrightarrow> bt_ok arts \<Longrightarrow> closed_refs x old arts' rs"
  by (auto simp: closed_refs_def arts_grow_def)

abbreviation forest_refs :: "tree list \<Rightarrow> page_object_reference set" where
  "forest_refs ts \<equiv> \<Union> (tree_refs ` set ts)"

lemma leaf_nodes_closed:
  "leaf_nodes x es arts = Inr (ts, arts') \<Longrightarrow> hex_laws x \<Longrightarrow> sha_laws x \<Longrightarrow> bt_ok arts \<Longrightarrow>
     closed_refs x old arts (pme_pack ` set es) \<Longrightarrow>
     arts_grow x arts arts' \<and> bt_ok arts' \<and> closed_refs x old arts' (forest_refs ts)"
proof (induction rule: leaf_nodes_induct)
  case (one es arts t arts')
  note c = create_tree_covered [OF one.prems(1,2) one.hyps(2)] and f = create_tree_Inr [OF one.hyps(2)]
  have "tree_refs t = insert (t_reference t) (pme_pack ` set es)"
    by (simp add: tree_refs.simps [of t] f)
  with c one.prems closed_refs_grow [OF one.prems(4)] show ?case
    by (auto simp: arts_grow_def closed_refs_def)
next
  case (split es arts ls a rs arts')
  have l: "closed_refs x old arts (pme_pack ` set (take n es))" "closed_refs x old arts (pme_pack ` set (drop n es))" for n
    using split.prems(4) by (auto simp: closed_refs_def dest: in_set_takeD in_set_dropD)
  note A = split.IH(1) [OF split.prems(1-3) l(1)]
  then have B: "arts_grow x a arts' \<and> bt_ok arts' \<and> closed_refs x old arts' (forest_refs rs)"
    using split.IH(2) [OF split.prems(1,2)] closed_refs_grow [OF l(2)] split.prems(3) by blast
  with A show ?case using closed_refs_grow [of x old a "forest_refs ls" arts'] arts_grow_trans
    by (auto simp: closed_refs_def)
qed (auto simp: closed_refs_def)

lemma internal_nodes_closed:
  "internal_nodes x cs l arts = Inr (ts, arts') \<Longrightarrow> hex_laws x \<Longrightarrow> sha_laws x \<Longrightarrow> bt_ok arts \<Longrightarrow>
     closed_refs x old arts (forest_refs cs) \<Longrightarrow>
     arts_grow x arts arts' \<and> bt_ok arts' \<and> closed_refs x old arts' (forest_refs ts)"
proof (induction rule: internal_nodes_induct)
  case (one cs arts t arts')
  note c = create_tree_covered [OF one.prems(1,2) one.hyps(3)] and f = create_tree_Inr [OF one.hyps(3)]
  have "tree_refs t = insert (t_reference t) (forest_refs cs)"
    by (simp add: tree_refs.simps [of t] f)
  with c one.prems closed_refs_grow [OF one.prems(4)] show ?case
    by (auto simp: arts_grow_def closed_refs_def)
next
  case (split cs arts ls a rs arts')
  have l: "closed_refs x old arts (forest_refs (take n cs))" "closed_refs x old arts (forest_refs (drop n cs))" for n
    using split.prems(4) by (auto simp: closed_refs_def dest: in_set_takeD in_set_dropD)
  note A = split.IH(1) [OF split.prems(1-3) l(1)]
  then have B: "arts_grow x a arts' \<and> bt_ok arts' \<and> closed_refs x old arts' (forest_refs rs)"
    using split.IH(2) [OF split.prems(1,2)] closed_refs_grow [OF l(2)] split.prems(3) by blast
  with A show ?case using closed_refs_grow [of x old a "forest_refs ls" arts'] arts_grow_trans
    by (auto simp: closed_refs_def)
qed (auto simp: closed_refs_def)

lemma tree_refs_self [simp]: "t_reference t \<in> tree_refs t"
  by (simp add: tree_refs.simps)

lemma leaf_pages_sub: "set (leaf_pages es changes eof) \<subseteq> set es \<union> set changes"
  unfolding leaf_pages_def Let_def
  using set_bt_extend_sub [of "bt_extend [] (keyed (filter (\<lambda>e. pme_page_number e \<le> eof) es))" "keyed changes"]
    set_bt_extend_sub [of "[]" "keyed (filter (\<lambda>e. pme_page_number e \<le> eof) es)"]
  by fastforce

lemma closed_refs_sub: "closed_refs x old arts b \<Longrightarrow> a \<subseteq> b \<Longrightarrow> closed_refs x old arts a"
  by (auto simp: closed_refs_def)

lemma closed_refs_Un: "closed_refs x old arts (a \<union> b) \<longleftrightarrow> closed_refs x old arts a \<and> closed_refs x old arts b"
  by (auto simp: closed_refs_def)

lemma update_closed:
  "update_tree x t changes eof arts = Inr (ts, arts') \<Longrightarrow> hex_laws x \<Longrightarrow> sha_laws x \<Longrightarrow> bt_ok arts \<Longrightarrow>
     tree_refs t \<subseteq> old \<Longrightarrow> closed_refs x old arts (pme_pack ` set changes) \<Longrightarrow>
     arts_grow x arts arts' \<and> bt_ok arts' \<and> closed_refs x old arts' (forest_refs ts)"
  "update_children x cs changes eof arts = Inr (ts, arts') \<Longrightarrow> hex_laws x \<Longrightarrow> sha_laws x \<Longrightarrow> bt_ok arts \<Longrightarrow>
     forest_refs cs \<subseteq> old \<Longrightarrow> closed_refs x old arts (pme_pack ` set changes) \<Longrightarrow>
     arts_grow x arts arts' \<and> bt_ok arts' \<and> closed_refs x old arts' (forest_refs ts)"
proof (induction x t changes eof arts and x cs changes eof arts arbitrary: ts arts' and ts arts'
    rule: update_tree_update_children.induct)
  case (1 x t changes eof arts)
  consider (same) "changes = [] \<and> t_max t \<le> eof" | (gone) "changes = [] \<and> eof < t_min t \<and> \<not> t_max t \<le> eof"
    | (work) "\<not> (changes = [] \<and> t_max t \<le> eof)" "\<not> (eof < t_min t \<and> changes = [])"
    by auto
  then show ?case
  proof cases
    case work
    show ?thesis
    proof (cases "t_node t")
      case (PageLeaf es)
      then have "pme_pack ` set es \<subseteq> old" using "1.prems"(5) by (simp add: tree_refs.simps [of t])
      then have "closed_refs x old arts (pme_pack ` set (leaf_pages es changes eof))"
        using "1.prems"(6) leaf_pages_sub [of es changes eof] by (auto simp: closed_refs_def)
      moreover have "leaf_nodes x (leaf_pages es changes eof) arts = Inr (ts, arts')"
        using "1.prems"(1) work PageLeaf by (simp add: update_tree.simps [of x t])
      ultimately show ?thesis using leaf_nodes_closed "1.prems" by blast
    next
      case (PageInternal l bs)
      from "1.prems"(1) work PageInternal obtain cs a where
        cs: "update_children x (t_children t) changes eof arts = Inr (cs, a)"
        and i: "internal_nodes x cs l a = Inr (ts, arts')"
        by (auto simp: update_tree.simps [of x t] result_simps)
      have "forest_refs (t_children t) \<subseteq> old" using "1.prems"(5) PageInternal by (simp add: tree_refs.simps [of t])
      note A = "1.IH" [OF work PageInternal cs "1.prems"(2-4) this "1.prems"(6)]
      with internal_nodes_closed [OF i "1.prems"(2,3), of old] arts_grow_trans show ?thesis by blast
    qed
  qed (use "1.prems" in \<open>auto simp: update_tree.simps [of x t] closed_refs_def\<close>)
next
  case (2 x changes eof arts)
  then show ?case by (simp add: closed_refs_def)
next
  case (3 x c cs changes eof arts)
  define n where "n = (if cs = [] then length changes
      else partition_point (\<lambda>e. pme_page_number e \<le> t_max c) changes)"
  from "3.prems"(1) obtain here a rest where
    h: "update_tree x c (take n changes) eof arts = Inr (here, a)"
    and r: "update_children x cs (drop n changes) eof a = Inr (rest, arts')" and ts: "ts = here @ rest"
    by (auto simp: n_def Let_def result_simps)
  have sub: "pme_pack ` set (take n changes) \<subseteq> pme_pack ` set changes" "pme_pack ` set (drop n changes) \<subseteq> pme_pack ` set changes"
    by (auto dest: in_set_takeD in_set_dropD)
  have old: "tree_refs c \<subseteq> old" "forest_refs cs \<subseteq> old" using "3.prems"(5) by auto
  note A = "3.IH"(1) [OF n_def h "3.prems"(2-4) old(1) closed_refs_sub [OF "3.prems"(6) sub(1)]]
  then have "closed_refs x old a (pme_pack ` set (drop n changes))"
    using closed_refs_grow [OF closed_refs_sub [OF "3.prems"(6) sub(2)]] "3.prems"(4) by blast
  note B = "3.IH"(2) [OF n_def r "3.prems"(2,3) _ old(2) this]
  show ?case using A B closed_refs_grow [of x old a "forest_refs here" arts'] arts_grow_trans
    by (auto simp: ts closed_refs_Un)
qed

lemma persist_chunk_closed:
  assumes "persist_chunk x eof (ms, arts) c = Inr (ms', arts')" "hex_laws x" "sha_laws x" "bt_ok arts"
    "closed_refs x old arts (pme_pack ` set ms)"
  shows "bt_ok arts' \<and> closed_refs x old arts' (pme_pack ` set ms')"
proof -
  have k: "(''_otmp/page-packs/'', ''.otmppg'') \<in> content_kinds" by (simp add: content_kinds_def)
  from assms(1) obtain bs uri idx where
    "encode_page_pack x image_page_size (bt_extend [] c) = Inr bs" "decode_pack_index bs = Inr idx"
    "uri_from_str (content_uri x ''_otmp/page-packs/'' ''.otmppg'' bs) = Inr uri"
    and ms: "ms' = ms @ map (mapping_of (content_reference x uri bs)) (pki_entries idx)"
    and a: "arts' = bt_insert (uri_as_str uri) \<lparr>art_uri = uri, art_bytes = bs\<rparr> arts"
    by (auto simp: persist_chunk_def result_simps Let_def)
  then have uri: "uri = RelativeUri (content_uri x ''_otmp/page-packs/'' ''.otmppg'' bs)"
    by (simp add: uri_from_str_Inr)
  note arts = a [unfolded uri, simplified]
  have "closed_refs x old arts' (pme_pack ` set ms)"
    unfolding arts using closed_refs_grow [OF assms(5) arts_grow_insert [OF assms(2,3) k] assms(4)] .
  then show ?thesis using covered_new [OF assms(3,4) k, of bs] assms(4)
    unfolding ms by (auto simp: arts uri closed_refs_def mapping_of_def)
qed

lemma persist_chunks_closed:
  assumes "hex_laws x" "sha_laws x" "try_fold (persist_chunk x eof) ([], []) cs = Inr (ms, arts)"
  shows "bt_ok arts \<and> closed_refs x old arts (pme_pack ` set ms)"
proof -
  have "case (ms, arts) of (ms, arts) \<Rightarrow> bt_ok arts \<and> closed_refs x old arts (pme_pack ` set ms)"
  proof (rule try_fold_invariant [OF assms(3)])
    fix s c s' assume s: "case s of (ms, arts) \<Rightarrow> bt_ok arts \<and> closed_refs x old arts (pme_pack ` set ms)"
      "persist_chunk x eof s c = Inr s'"
    obtain m a m' a' where "s = (m, a)" "s' = (m', a')" by fastforce
    with s persist_chunk_closed [OF _ assms(1,2), of eof m a c m' a' old]
    show "case s' of (ms, arts) \<Rightarrow> bt_ok arts \<and> closed_refs x old arts (pme_pack ` set ms)" by simp
  qed (simp add: bt_ok_def closed_refs_def)
  then show ?thesis by simp
qed

lemma collapse_roots_closed:
  assumes "collapse_roots x roots arts = Some r" "hex_laws x" "sha_laws x"
  shows "r = Inr (ts, arts') \<longrightarrow> bt_ok arts \<longrightarrow> closed_refs x old arts (forest_refs roots) \<longrightarrow>
    bt_ok arts' \<and> closed_refs x old arts' (forest_refs ts)"
proof -
  let ?P = "\<lambda>x roots arts r. hex_laws x \<longrightarrow> sha_laws x \<longrightarrow> r = Inr (ts, arts') \<longrightarrow> bt_ok arts \<longrightarrow>
    closed_refs x old arts (forest_refs roots) \<longrightarrow> bt_ok arts' \<and> closed_refs x old arts' (forest_refs ts)"
  have "?P x roots arts r"
  proof (rule collapse_roots.raw_induct [of ?P "((x, roots), arts)", unfolded prod.case, OF _ assms(1)], intro impI)
    fix rec x roots arts r
    assume IH: "\<And>x roots arts r. rec x roots arts = Some r \<Longrightarrow> ?P x roots arts r"
      and body: "(if 1 < length roots
          then case internal_nodes x roots (pm_level (t_node (hd roots)) + 1) arts of
                 Inl e \<Rightarrow> Some (Inl e) | Inr (roots, arts) \<Rightarrow> rec x roots arts
          else Some (Inr (roots, arts))) = Some r"
      and h: "hex_laws x" "sha_laws x" "r = Inr (ts, arts')" "bt_ok arts" "closed_refs x old arts (forest_refs roots)"
    show "bt_ok arts' \<and> closed_refs x old arts' (forest_refs ts)"
      using body h IH internal_nodes_closed [OF _ h(1,2,4,5)]
      by (fastforce split: if_splits sum.splits prod.splits)
  qed
  with assms(2,3) show ?thesis by blast
qed

lemma strip_single_refs: "tree_inv t \<Longrightarrow> tree_refs (strip_single t) \<subseteq> tree_refs t"
proof (induction t rule: strip_single.induct)
  case (1 t)
  show ?case
  proof (cases "\<exists>c. t_children t = [c]")
    case True
    then obtain c where c: "t_children t = [c]" by blast
    with "1.prems" have "tree_inv c" "tree_refs c \<subseteq> tree_refs t"
      by (auto simp: tree_inv.simps [of t] tree_refs.simps [of t] split: page_map_node.splits)
    with "1.IH" [OF c refl] c show ?thesis by (auto simp: strip_single.simps [of t])
  next
    case False
    then have "strip_single t = t" by (auto simp: strip_single.simps [of t] split: list.split)
    then show ?thesis by simp
  qed
qed

definition root_refs :: "tree option \<Rightarrow> page_object_reference set" where
  "root_refs root = (case root of None \<Rightarrow> {} | Some t \<Rightarrow> tree_refs t)"

lemma persist_root_closed:
  assumes x: "hex_laws x" "sha_laws x" and ch: "bt_ok changed" and parent: "pred_option tree_inv parent"
    and run: "persist_root x parent changed eof = Some (Inr (root, arts))"
  shows "bt_ok arts \<and> closed_refs x (root_refs parent) arts (root_refs root)"
proof -
  obtain ms a roots b ts where
    m: "try_fold (persist_chunk x eof) ([], []) (chunks pack_capacity changed) = Inr (ms, a)"
    and u: "(case parent of Some p \<Rightarrow> update_tree x p ms eof a | None \<Rightarrow> leaf_nodes x ms a) = Inr (roots, b)"
    and c: "collapse_roots x roots b = Some (Inr (ts, arts))"
    and root: "root = map_option strip_single (last_opt ts)"
    and len: "length ts \<le> 1" and "list_all2 (packed x) changed ms" "\<forall>p \<in> set changed. fst p \<le> eof"
    and "update_result ts (updated_map (root_map parent) ms eof)"
    by (rule persist_root_steps [OF x(2) ch parent run])
  then have ts: "length ts \<le> 1" "list_all tree_inv ts" by (simp_all add: update_result_def forest_inv_def)
  note M = persist_chunks_closed [OF x m, of "root_refs parent"]
  have "bt_ok b \<and> closed_refs x (root_refs parent) b (forest_refs roots)"
  proof (cases parent)
    case None
    then show ?thesis using u leaf_nodes_closed [OF _ x, of ms a roots b "root_refs parent"] M by simp
  next
    case (Some t)
    then show ?thesis using u update_closed(1) [OF _ x, of t ms eof a roots b "root_refs parent"] M
      by (simp add: root_refs_def)
  qed
  with collapse_roots_closed [OF c x] have cl: "bt_ok arts" "closed_refs x (root_refs parent) arts (forest_refs ts)"
    by auto
  have "root_refs root \<subseteq> forest_refs ts"
    using ts strip_single_refs unfolding root
    by (cases ts) (auto simp: root_refs_def last_opt_def subset_iff)
  with cl closed_refs_sub show ?thesis by blast
qed

text \<open>The collected references are those of the tree, each under its URI.\<close>

definition collected :: "references \<Rightarrow> page_object_reference set \<Rightarrow> bool" where
  "collected refs rs = (bt_ok refs \<and> (\<forall>k r. bt_get refs k = Some r \<longleftrightarrow> r \<in> rs \<and> k = uri_as_str (por_uri r)))"

lemma add_reference_collected:
  "add_reference refs r = Inr refs' \<Longrightarrow> collected refs rs \<Longrightarrow> collected refs' (insert r rs)"
  by (auto simp: add_reference_def collected_def Let_def bt_get_insert bt_ok_insert split: if_splits)
    (metis option.inject)

lemma try_fold_collected:
  assumes "\<And>x refs refs' rs. x \<in> set xs \<Longrightarrow> f refs x = Inr refs' \<Longrightarrow> collected refs rs \<Longrightarrow> collected refs' (rs \<union> g x)"
  shows "try_fold f refs xs = Inr refs' \<Longrightarrow> collected refs rs \<Longrightarrow> collected refs' (rs \<union> \<Union> (g ` set xs))"
  using assms
proof (induction xs arbitrary: refs rs)
  case (Cons a xs)
  from Cons.prems(1) obtain u where u: "f refs a = Inr u" "try_fold f u xs = Inr refs'" by (auto simp: result_simps)
  have "collected u (rs \<union> g a)" using Cons.prems(3) u(1) Cons.prems(2) by simp
  from Cons.IH [OF u(2) this] Cons.prems(3) show ?case by (simp add: Un_assoc)
qed simp

lemma reachable_collected:
  "reachable refs t = Inr refs' \<Longrightarrow> collected refs rs \<Longrightarrow> collected refs' (rs \<union> tree_refs t)"
proof (induction t arbitrary: refs refs' rs rule: tree_induct)
  case (tree t)
  from tree.prems(1) obtain u where u: "add_reference refs (t_reference t) = Inr u"
    and v: "(case t_node t of PageLeaf es \<Rightarrow> try_fold (\<lambda>refs e. add_reference refs (pme_pack e)) u es
        | PageInternal _ _ \<Rightarrow> try_fold reachable u (t_children t)) = Inr refs'"
    by (auto simp: reachable.simps [of refs t] result_simps)
  have U: "collected u (insert (t_reference t) rs)" by (rule add_reference_collected [OF u tree.prems(2)])
  show ?case
  proof (cases "t_node t")
    case (PageLeaf es)
    have "collected refs' (insert (t_reference t) rs \<union> \<Union> ((\<lambda>e. {pme_pack e}) ` set es))"
      by (rule try_fold_collected [OF _ _ U]) (use v PageLeaf add_reference_collected in auto)
    then show ?thesis using PageLeaf by (simp add: tree_refs.simps [of t] UNION_singleton_eq_range)
  next
    case (PageInternal l bs)
    have "collected refs' (insert (t_reference t) rs \<union> \<Union> (tree_refs ` set (t_children t)))"
      by (rule try_fold_collected [OF _ _ U]) (use v PageInternal tree.IH in auto)
    then show ?thesis using PageInternal by (simp add: tree_refs.simps [of t])
  qed
qed

section \<open>The finished image\<close>

lemma try_fold_checked_sum:
  "try_fold (\<lambda>n r. ok_or e (checked_add n (f r))) s rs = Inr (n :: 'a::len word) \<Longrightarrow>
     unat n = unat s + sum_list (map (\<lambda>r. unat (f r)) rs)"
  by (induction rs arbitrary: s) (auto simp: result_simps dest: unat_checked_add)

lemma collected_values:
  assumes "collected refs rs"
  shows "set (map snd refs) = rs" "distinct (map snd refs)"
proof -
  have ok: "distinct (map fst refs)"
    using assms unfolding collected_def bt_ok_def by (simp add: sorted_wrt_irrefl_distinct)
  have mem: "(k, r) \<in> set refs \<longleftrightarrow> r \<in> rs \<and> k = uri_as_str (por_uri r)" for k r
    using assms map_of_eq_Some_iff [OF ok, of k r] unfolding collected_def bt_get_def by blast
  have "r \<in> set (map snd refs) \<longleftrightarrow> (\<exists>k. (k, r) \<in> set refs)" for r by force
  then show "set (map snd refs) = rs" unfolding mem by blast
  have "inj_on snd (set refs)"
  proof (rule inj_onI)
    fix a b assume ab: "a \<in> set refs" "b \<in> set refs" "snd a = snd b"
    obtain k r l where "a = (k, r)" "b = (l, r)" using ab(3) by (metis prod.collapse)
    then show "a = b" using ab(1,2) by (simp add: mem)
  qed
  moreover have "distinct refs" using ok by (simp add: distinct_map)
  ultimately show "distinct (map snd refs)" by (simp add: distinct_map)
qed

lemma finish_image_spec:
  assumes "finish_image root arts = Inr img"
  obtains refs where "collected refs (root_refs root)" "ii_root img = map_option root_of_tree root"
    "ii_artifacts img = map snd (filter (\<lambda>(uri, _). bt_get refs uri \<noteq> None) arts)"
    "unat (ii_reachable_bytes img) = (\<Sum>r \<in> root_refs root. unat (por_length r))"
proof -
  from assms obtain refs n where
    refs: "(case root of None \<Rightarrow> Inr [] | Some t \<Rightarrow> reachable [] t) = Inr refs"
    and n: "try_fold (\<lambda>n r. ok_or (Corrupt ''reachable bytes overflow'') (checked_add n (por_length r)))
                 0 (map snd refs) = Inr n"
    and img: "img = \<lparr>ii_root = map_option root_of_tree root,
            ii_artifacts = map snd (filter (\<lambda>(uri, _). bt_get refs uri \<noteq> None) arts),
            ii_reachable_bytes = n\<rparr>"
    by (auto simp: finish_image_def result_simps)
  have empty: "collected [] {}" by (simp add: collected_def bt_ok_def bt_get_def)
  have col: "collected refs (root_refs root)"
    using refs empty reachable_collected [OF _ empty]
    by (cases root) (auto simp: root_refs_def)
  have "unat n = sum_list (map (\<lambda>r. unat (por_length r)) (map snd refs))"
    using try_fold_checked_sum [OF n] by simp
  also have "\<dots> = (\<Sum>r \<in> root_refs root. unat (por_length r))"
    using collected_values [OF col] by (metis sum.distinct_set_conv_list)
  finally show thesis using that col img by simp
qed

section \<open>A sample tree\<close>

definition sample_entry :: "u64 \<Rightarrow> page_map_entry" where
  "sample_entry n =
     \<lparr>pme_page_number = n, pme_pack = sample_ref \<lparr>por_length := 8192\<rparr>, pme_offset = 64, pme_stored_length = 4096,
      pme_raw_length = 4096, pme_codec = CodecNone, pme_page_sha256 = Sha256 (replicate 32 1)\<rparr>"

lemma sample_entry_number: "pme_page_number (sample_entry n) = n"
  by (simp add: sample_entry_def)

definition sample_tree :: tree where
  "sample_tree = Tree sample_ref (PageLeaf [sample_entry 1, sample_entry 2]) [] 1 2"

definition sample_leaf_bytes :: "byte list" where
  "sample_leaf_bytes = page_map_bytes (PageLeaf [sample_entry 1])"

lemma sample_tree_inv: "tree_inv sample_tree"
  by (simp add: tree_inv.simps sample_tree_def sample_entry_def)

lemma sample_leaf_valid: "pm_validate (PageLeaf [sample_entry 1]) = Inr ()"
proof -
  have "page_size_ok 4096" by (simp add: page_size_ok_def is_power_of_two_def word_le_nat_alt)
  then show ?thesis unfolding pm_validate_leaf by (simp add: payload_in_pack_def sample_entry_def sample_ref_def)
qed

lemma sample_leaf_encodes: "encode_page_map (PageLeaf [sample_entry 1]) = Inr sample_leaf_bytes"
proof -
  have "length sample_leaf_bytes = 208" by code_simp
  then have "length sample_leaf_bytes \<le> max_page_map_bytes" by (simp add: max_page_map_bytes_def)
  then show ?thesis by (simp add: encode_page_map_def sample_leaf_bytes_def Let_def sample_leaf_valid del: pm_validate.simps)
qed

definition sample_new_tree :: tree where
  "sample_new_tree =
     Tree (content_reference sample_externals
            (RelativeUri (content_uri sample_externals ''_otmp/page-maps/'' ''.cbor'' sample_leaf_bytes)) sample_leaf_bytes)
       (PageLeaf [sample_entry 1]) [] 1 1"

lemma sample_persist:
  "\<exists>arts. persist_root sample_externals (Some sample_tree) [] 1 = Some (Inr (Some sample_new_tree, arts))"
proof -
  let ?t = sample_new_tree
  obtain arts where c: "create_tree sample_externals (PageLeaf [sample_entry 1]) [] [] = Inr (?t, arts)"
    using content_uri_safe [OF sample_laws(1), of "''_otmp/page-maps/''" "''.cbor''" sample_leaf_bytes]
    by (auto simp: create_tree_def sample_leaf_encodes uri_from_str_def Let_def sample_new_tree_def
        last_opt_def sample_entry_number)
  have "leaf_pages [sample_entry 1, sample_entry 2] [] 1 = [sample_entry 1]"
    by (simp add: leaf_pages_def sample_entry_def bt_extend_def word_le_nat_alt)
  then have "update_tree sample_externals sample_tree [] 1 [] = Inr ([?t], arts)"
    by (simp add: update_tree.simps sample_tree_def leaf_nodes.simps c node_attempt_def tree_capacity_def
        sample_leaf_valid word_le_nat_alt del: pm_validate.simps)
  moreover have "strip_single ?t = ?t" by (simp add: strip_single.simps sample_new_tree_def)
  ultimately show ?thesis by (simp add: persist_root_def collapse_roots.simps last_opt_def)
qed

section \<open>Properties\<close>

text \<open>
  C7: the incremental image of a commit holds exactly the pages it should. A changed page is mapped
  to a pack, named by its hash, that holds its bytes; an unchanged page keeps the entry of the
  parent when it lies before the new end of the file and has none otherwise. The new tree is in
  shape whenever the parent is.
\<close>

theorem persist_updates_pages:
  assumes "sha_laws x" "bt_ok changed" "pred_option tree_inv parent"
    and "persist_root x parent changed eof = Some (Inr (root, arts))"
  shows "pred_option tree_inv root \<and>
    (\<forall>p. case bt_get changed p of
           Some page \<Rightarrow> p \<le> eof \<and> (\<exists>e. root_map root p = Some e \<and> holds_page x e page)
         | None \<Rightarrow> root_map root p = (if p \<le> eof then root_map parent p else None))"
proof -
  obtain ms a roots b ts where
    "try_fold (persist_chunk x eof) ([], []) (chunks pack_capacity changed) = Inr (ms, a)"
    "(case parent of Some p \<Rightarrow> update_tree x p ms eof a | None \<Rightarrow> leaf_nodes x ms a) = Inr (roots, b)"
    "collapse_roots x roots b = Some (Inr (ts, arts))"
    and r: "root = map_option strip_single (last_opt ts)" "length ts \<le> 1"
    and pk: "list_all2 (packed x) changed ms" and eof: "\<forall>p \<in> set changed. fst p \<le> eof"
    and ts: "update_result ts (updated_map (root_map parent) ms eof)"
    by (rule persist_root_steps [OF assms])
  have root: "root_map root = updated_map (root_map parent) ms eof" "pred_option tree_inv root"
    unfolding r(1) using root_map_strip [OF ts r(2)] by auto
  have "case bt_get changed p of
           Some page \<Rightarrow> p \<le> eof \<and> (\<exists>e. root_map root p = Some e \<and> holds_page x e page)
         | None \<Rightarrow> root_map root p = (if p \<le> eof then root_map parent p else None)" for p
    using packed_page_map(2) [OF pk assms(2), of p] eof
    by (fastforce simp: root updated_map_def map_add_def restrict_map_def bt_get_def split: option.splits
        dest: map_of_SomeD)
  with root(2) show ?thesis by blast
qed

theorem persist_updates_pages_witness:
  "\<exists>t arts. persist_root sample_externals (Some sample_tree) [] 1 = Some (Inr (Some t, arts))
     \<and> root_map (Some t) 1 = Some (sample_entry 1) \<and> root_map (Some t) 2 = None"
proof -
  obtain t arts where r: "persist_root sample_externals (Some sample_tree) [] 1 = Some (Inr (Some t, arts))"
    using sample_persist by blast
  have "\<forall>p. root_map (Some t) p = (if p \<le> 1 then root_map (Some sample_tree) p else None)"
    using persist_updates_pages [OF sample_laws(2) _ _ r] sample_tree_inv by (simp add: bt_ok_def bt_get_def)
  moreover have "root_map (Some sample_tree) 1 = Some (sample_entry 1)"
    by (simp add: root_map_def sample_tree_def sample_entry_def flatten_tree.simps bt_get_def)
  moreover have "\<not> (2 :: u64) \<le> 1" by (simp add: word_le_nat_alt)
  ultimately show ?thesis using r by (metis order_refl)
qed

text \<open>
  The loops of the image writer end. When the hash names the writer relies on have their
  documented length and the root of the parent has a URI of at most 4096 bytes, writing the image
  returns, with an image or with an error.
\<close>

theorem persist_returns:
  assumes "hex_laws x" "sha_laws x" "pred_option short_tree parent"
  shows "\<exists>r. persist x parent changed eof = Some r"
proof -
  have "\<exists>r. persist_root x parent changed eof = Some r"
  proof (cases "and_then (try_fold (persist_chunk x eof) ([], []) (chunks pack_capacity changed)) (\<lambda>(mappings, arts).
             case parent of
               Some p \<Rightarrow> update_tree x p mappings eof arts
             | None \<Rightarrow> leaf_nodes x mappings arts)")
    case (Inl e)
    then show ?thesis by (simp add: persist_root_def)
  next
    case (Inr p)
    obtain roots arts where p: "p = (roots, arts)" by fastforce
    have "list_all short_tree roots"
      using Inr assms update_tree_short leaf_nodes_short
      by (auto simp: p result_simps split: option.splits)
    from collapse_roots_returns [OF assms(1,2) this] Inr p show ?thesis
      by (auto simp: persist_root_def)
  qed
  then show ?thesis by (auto simp: persist_def)
qed

theorem persist_returns_witness:
  "\<exists>r. persist sample_externals (Some sample_tree) [] 1 = Some r"
  using persist_returns [OF sample_laws, of "Some sample_tree" "[]" 1]
  by (simp add: short_tree_def short_reference_def sample_tree_def sample_ref_def sha_ok_def)

text \<open>
  C10: no reference of a written image dangles. Every node and pack the new tree refers to was
  referred to by the parent or is among the objects to upload, under the URI of the reference and
  with its hash; and the byte count of the image is the sum of the lengths of its distinct
  references.
\<close>

theorem persist_closed:
  assumes "hex_laws x" "sha_laws x" "bt_ok changed" "pred_option tree_inv parent"
    and "persist x parent changed eof = Some (Inr img)"
  shows "\<exists>root arts. persist_root x parent changed eof = Some (Inr (root, arts))
    \<and> ii_root img = map_option root_of_tree root
    \<and> (\<forall>r \<in> root_refs root. r \<in> root_refs parent
         \<or> (\<exists>a \<in> set (ii_artifacts img). art_uri a = por_uri r \<and> object_hash x (art_bytes a) = por_sha256 r))
    \<and> unat (ii_reachable_bytes img) = (\<Sum>r \<in> root_refs root. unat (por_length r))"
proof -
  from assms(5) obtain root arts where r: "persist_root x parent changed eof = Some (Inr (root, arts))"
    and f: "finish_image root arts = Inr img"
    by (auto simp: persist_def result_simps)
  from persist_root_closed [OF assms(1-4) r] have cl: "closed_refs x (root_refs parent) arts (root_refs root)" by blast
  obtain refs where col: "collected refs (root_refs root)" and img: "ii_root img = map_option root_of_tree root"
    "ii_artifacts img = map snd (filter (\<lambda>(uri, _). bt_get refs uri \<noteq> None) arts)"
    "unat (ii_reachable_bytes img) = (\<Sum>r \<in> root_refs root. unat (por_length r))"
    by (rule finish_image_spec [OF f])
  have "\<exists>a \<in> set (ii_artifacts img). art_uri a = por_uri r \<and> object_hash x (art_bytes a) = por_sha256 r"
    if "r \<in> root_refs root" "r \<notin> root_refs parent" for r
  proof -
    from cl that obtain a where a: "bt_get arts (uri_as_str (por_uri r)) = Some a" "art_uri a = por_uri r"
      "object_hash x (art_bytes a) = por_sha256 r" by (auto simp: closed_refs_def covered_def)
    moreover have "bt_get refs (uri_as_str (por_uri r)) = Some r" using col that by (simp add: collected_def)
    ultimately have "a \<in> set (ii_artifacts img)" by (force simp: img bt_get_def dest: map_of_SomeD)
    with a show ?thesis by blast
  qed
  then show ?thesis using r img by blast
qed

lemma sample_finish: "\<exists>img. finish_image (Some sample_new_tree) arts = Inr img"
proof -
  let ?t = sample_new_tree and ?u = "content_uri sample_externals ''_otmp/page-maps/'' ''.cbor'' sample_leaf_bytes"
  have "?u \<noteq> ''p''" using content_uri_length [OF sample_laws, of "''_otmp/page-maps/''" "''.cbor''" sample_leaf_bytes]
    by (metis One_nat_def add_Suc_right length_append_singleton list.size(3) length_Cons nat.inject numeral_eq_Suc
        old.nat.distinct(1) pred_numeral_simps(2) semiring_norm(26))
  moreover have "length sample_leaf_bytes = 208" by code_simp
  ultimately show ?thesis
    by (simp add: finish_image_def reachable.simps add_reference_def sample_new_tree_def bt_get_def sample_entry_def
        sample_ref_def content_reference_def Let_def checked_add_def u64_of_usize_def)
qed

theorem persist_closed_witness:
  "\<exists>img. persist sample_externals (Some sample_tree) [] 1 = Some (Inr img)
     \<and> ii_root img = Some (root_of_tree sample_new_tree)"
proof -
  obtain arts where r: "persist_root sample_externals (Some sample_tree) [] 1 = Some (Inr (Some sample_new_tree, arts))"
    using sample_persist by blast
  obtain img where "finish_image (Some sample_new_tree) arts = Inr img" using sample_finish by blast
  then have p: "persist sample_externals (Some sample_tree) [] 1 = Some (Inr img)"
    by (simp add: persist_def r)
  from persist_closed [OF sample_laws _ _ p] sample_tree_inv r show ?thesis using p by (auto simp: bt_ok_def)
qed

end
