(* ===== verification/Image_Resolve.thy ===== *)
theory Image_Resolve
  imports Objects Page_Tree
begin

text \<open>
  Reading a metadata image back, \<^verbatim>\<open>otmp/src/physical.rs\<close>: verified reads of immutable objects with the cache of
  \<^verbatim>\<open>otmp/src/runtime/history.rs\<close>, the walk over the checkpoint page index, loading a page-map tree with its bounds, and
  the assembly of the image from the checkpoint, the tree and the page packs.

  The calls outside this code are the record \<open>reader\<close>: the store's \<^verbatim>\<open>read\<close>, the query of the checkpoint by
  SQLite and the allocator. The cache is threaded through the reads. Slicing, indexing and unwrapping out of range
  is \<open>Panicked\<close>.
\<close>

section \<open>Reads with a cache\<close>

record verified_metadata =
  vm_object :: stored_object
  vm_sha256 :: sha256

type_synonym metadata_cache = "(string, verified_metadata) btree option"
type_synonym 'a io = "metadata_cache \<Rightarrow> (runtime_error fault, 'a) result \<times> metadata_cache"

record reader =
  rd_ext :: externals
  rd_read :: "relative_uri \<Rightarrow> (storage_error, stored_object) result"
  rd_query :: "byte list \<Rightarrow> (runtime_error, byte list \<times> i64 \<times> u32 \<times> u64) result"
  rd_reserve :: "nat \<Rightarrow> bool"

definition io_of :: "(runtime_error fault, 'a) result \<Rightarrow> 'a io" where
  "io_of r c = (r, c)"

definition io_return :: "'a \<Rightarrow> 'a io" where
  "io_return v = io_of (Inr v)"

definition corrupt :: "string \<Rightarrow> 'a io" where
  "corrupt m = io_of (Inl (Fail (Corrupt m)))"

definition panic :: "'a io" where
  "panic = io_of (Inl Panicked)"

definition io_bind :: "'a io \<Rightarrow> ('a \<Rightarrow> 'b io) \<Rightarrow> 'b io" where
  "io_bind m f c = (case m c of (Inl e, c) \<Rightarrow> (Inl e, c) | (Inr v, c) \<Rightarrow> f v c)"

fun io_fold :: "('s \<Rightarrow> 'a \<Rightarrow> 's io) \<Rightarrow> 's \<Rightarrow> 'a list \<Rightarrow> 's io" where
  "io_fold f s [] = io_return s"
| "io_fold f s (x # xs) = io_bind (f s x) (\<lambda>s. io_fold f s xs)"

text \<open>An option whose absence is a panic, and one whose absence is an error.\<close>

definition io_some :: "'a option \<Rightarrow> 'a io" where
  "io_some v = io_of (ok_or Panicked v)"

definition io_or :: "string \<Rightarrow> 'a option \<Rightarrow> 'a io" where
  "io_or m v = io_of (ok_or (Fail (Corrupt m)) v)"

definition io_protocol :: "(protocol_error, 'a) result \<Rightarrow> 'a io" where
  "io_protocol r = io_of (lift (map_err ProtocolErr r))"

definition verified_read :: "reader \<Rightarrow> object_reference \<Rightarrow> (runtime_error, stored_object) result" where
  "verified_read rd reference =
     and_then (map_err StorageErr (rd_read rd (or_uri reference))) (\<lambda>object.
       if digest (rd_ext rd) (so_bytes object) \<noteq> or_sha256 reference
          \<or> (case or_length reference of None \<Rightarrow> False | Some l \<Rightarrow> l \<noteq> u64_of_usize (length (so_bytes object)))
       then Inl (Corrupt (''object hash or length mismatch: '' @ uri_as_str (or_uri reference)))
       else Inr object)"

definition vm_check :: "verified_metadata \<Rightarrow> object_reference \<Rightarrow> (runtime_error, unit) result" where
  "vm_check v reference =
     (if vm_sha256 v \<noteq> or_sha256 reference
         \<or> (case or_length reference of None \<Rightarrow> False | Some l \<Rightarrow> l \<noteq> u64_of_usize (length (so_bytes (vm_object v))))
      then Inl (Corrupt (''conflicting object reference: '' @ uri_as_str (or_uri reference)))
      else Inr ())"

definition read_metadata :: "reader \<Rightarrow> object_reference \<Rightarrow> stored_object io" where
  "read_metadata rd reference c =
     (case c of
        None \<Rightarrow> (lift (verified_read rd reference), c)
      | Some objects \<Rightarrow>
          (case bt_get objects (uri_as_str (or_uri reference)) of
             Some cached \<Rightarrow> (lift (and_then (vm_check cached reference) (\<lambda>_. Inr (vm_object cached))), c)
           | None \<Rightarrow>
               (case verified_read rd reference of
                  Inl e \<Rightarrow> (Inl (Fail e), c)
                | Inr object \<Rightarrow>
                    (Inr object,
                     Some (bt_insert (uri_as_str (or_uri reference))
                             \<lparr>vm_object = object, vm_sha256 = or_sha256 reference\<rparr> objects)))))"

definition CHECKPOINT_MEDIA_TYPE :: string where
  "CHECKPOINT_MEDIA_TYPE = ''application/vnd.sqlite3''"

definition CHECKPOINT_PAGE_INDEX_MEDIA_TYPE :: string where
  "CHECKPOINT_PAGE_INDEX_MEDIA_TYPE = ''application/vnd.otmp.checkpoint-page-index+cbor''"

definition PAGE_MAP_MEDIA_TYPE :: string where
  "PAGE_MAP_MEDIA_TYPE = ''application/vnd.otmp.page-map+cbor''"

definition PAGE_PACK_MEDIA_TYPE :: string where
  "PAGE_PACK_MEDIA_TYPE = ''application/vnd.otmp.page-pack''"

definition object :: "page_object_reference \<Rightarrow> string \<Rightarrow> object_reference" where
  "object r media_type =
     \<lparr>or_uri = por_uri r, or_sha256 = por_sha256 r, or_length = Some (por_length r), or_media_type = Some media_type\<rparr>"

section \<open>The checkpoint page index\<close>

text \<open>One hash of a leaf.\<close>

definition verify_page :: "externals \<Rightarrow> nat \<Rightarrow> byte list \<Rightarrow> u64 \<Rightarrow> nat \<times> sha256 \<Rightarrow> unit io" where
  "verify_page x page_size bs first_page item =
     (case item of (offset, hash) \<Rightarrow>
      io_bind (io_or ''checkpoint-index page overflow'' (checked_add first_page (u64_of_usize offset))) (\<lambda>page.
      io_bind (io_some (checked_sub page 1)) (\<lambda>before.
      io_bind (io_or ''checkpoint-index byte offset overflow''
                 (Option.bind (usize_try_from before) (\<lambda>p. usize_checked_mul p page_size))) (\<lambda>start.
      io_bind (io_or ''checkpoint-index byte range overflow'' (usize_checked_add start page_size)) (\<lambda>e.
        case get_range bs start e of
          None \<Rightarrow> corrupt ''checkpoint page disagrees with authenticated index''
        | Some page \<Rightarrow>
            if digest x page \<noteq> hash then corrupt ''checkpoint page disagrees with authenticated index''
            else io_return ())))))"

text \<open>The checks and the read that precede the recursion; the level is below the recursion bound.\<close>

definition verify_node :: "reader \<Rightarrow> nat \<Rightarrow> page_object_reference \<Rightarrow> u64 \<Rightarrow> u64 \<Rightarrow> string set
    \<Rightarrow> (checkpoint_index_node \<times> string set) io" where
  "verify_node rd level reference first_page page_count seen =
     (if level > 64 \<or> uri_as_str (por_uri reference) \<in> seen
         \<or> por_length reference > u64_of_usize max_checkpoint_index_bytes
      then corrupt ''invalid checkpoint-index height, cycle, repeated subtree, or size''
      else
        io_bind (read_metadata rd (object reference CHECKPOINT_PAGE_INDEX_MEDIA_TYPE)) (\<lambda>raw.
        io_bind (io_protocol (decode_checkpoint_index (so_bytes raw))) (\<lambda>node.
          if ci_level node \<noteq> word_of_nat level \<or> ci_first_page node \<noteq> first_page \<or> ci_page_count node \<noteq> page_count
          then corrupt ''checkpoint-index node does not match declared interval''
          else io_return (node, insert (uri_as_str (por_uri reference)) seen))))"

fun verify_checkpoint_index_node :: "reader \<Rightarrow> nat \<Rightarrow> byte list \<Rightarrow> nat \<Rightarrow> page_object_reference \<Rightarrow> u64 \<Rightarrow> u64 \<Rightarrow> string set
    \<Rightarrow> string set io" where
  "verify_checkpoint_index_node rd page_size bs level reference first_page page_count seen =
     io_bind (verify_node rd level reference first_page page_count seen) (\<lambda>(node, seen).
       case node of
         IndexLeaf first_page hashes \<Rightarrow>
           io_bind (io_fold (\<lambda>_. verify_page (rd_ext rd) page_size bs first_page) () (enumerate 0 hashes)) (\<lambda>_.
             io_return seen)
       | IndexInternal _ entries \<Rightarrow>
           (case level of
              0 \<Rightarrow> panic
            | Suc below \<Rightarrow>
                io_fold (\<lambda>seen entry.
                    verify_checkpoint_index_node rd page_size bs below (cic_child entry) (cic_first_page entry)
                      (cic_page_count entry) seen) seen entries))"

declare verify_checkpoint_index_node.simps [simp del]

definition verify_checkpoint_index :: "reader \<Rightarrow> metadata_image \<Rightarrow> byte list \<Rightarrow> unit io" where
  "verify_checkpoint_index rd img bs =
     (case mi_checkpoint_page_index img of
        None \<Rightarrow> io_return ()
      | Some idx \<Rightarrow>
          io_bind (io_protocol (checkpoint_page_index_validate idx (mi_checkpoint img) (mi_page_size img))) (\<lambda>_.
          io_bind (verify_checkpoint_index_node rd (unat (mi_page_size img)) bs (unat (pmr_height (cpi_root idx)))
                     (root_reference (cpi_root idx)) 1 (cpi_page_count idx) {}) (\<lambda>_.
            io_return ())))"

section \<open>Loading a page-map tree\<close>

definition load_node :: "reader \<Rightarrow> nat \<Rightarrow> page_object_reference \<Rightarrow> string set \<Rightarrow> (page_map_node \<times> string set) io" where
  "load_node rd level reference seen =
     (if level > 64 \<or> uri_as_str (por_uri reference) \<in> seen
         \<or> por_length reference > u64_of_usize max_page_map_bytes
      then corrupt ''invalid page-map height, cycle, repeated subtree, or size''
      else
        io_bind (read_metadata rd (object reference PAGE_MAP_MEDIA_TYPE)) (\<lambda>raw.
        io_bind (io_protocol (decode_page_map (so_bytes raw))) (\<lambda>node.
          if pm_level node \<noteq> word_of_nat level then corrupt ''page-map level mismatch''
          else io_return (node, insert (uri_as_str (por_uri reference)) seen))))"

function load_tree :: "reader \<Rightarrow> nat \<Rightarrow> page_object_reference \<Rightarrow> u64 \<Rightarrow> u64 \<Rightarrow> string set \<Rightarrow> (tree \<times> string set) io"
  and load_children :: "reader \<Rightarrow> nat \<Rightarrow> page_map_branch list \<Rightarrow> u64 \<Rightarrow> u64 \<Rightarrow> string set
    \<Rightarrow> (tree list \<times> string set) io" where
  "load_tree rd level reference lower upper seen =
     io_bind (load_node rd level reference seen) (\<lambda>(node, seen).
     io_bind
       (case node of
          PageLeaf entries \<Rightarrow>
            if entries = [] then panic
            else io_return ([], pme_page_number (hd entries), pme_page_number (last entries), seen)
        | PageInternal _ entries \<Rightarrow>
            (case level of
               0 \<Rightarrow> panic
             | Suc below \<Rightarrow>
                 io_bind (load_children rd below entries lower upper seen) (\<lambda>(children, seen).
                   if children = [] then panic
                   else io_return (children, t_min (hd children), t_max (last children), seen)))) (\<lambda>(children, mn, mx, seen).
       if mn \<le> lower \<or> mx > upper then corrupt ''page-map entry outside subtree bounds''
       else io_return (Tree reference node children mn mx, seen)))"
| "load_children rd level [] previous upper seen = io_return ([], seen)"
| "load_children rd level (entry # entries) previous upper seen =
     (if pmb_max_page entry \<le> previous \<or> pmb_max_page entry > upper then corrupt ''invalid page-map subtree boundary''
      else
        io_bind (load_tree rd level (pmb_child entry) previous (pmb_max_page entry) seen) (\<lambda>(child, seen).
          if t_max child \<noteq> pmb_max_page entry then corrupt ''page-map maximum disagrees with child''
          else
            io_bind (load_children rd level entries (pmb_max_page entry) upper seen) (\<lambda>(children, seen).
              io_return (child # children, seen))))"
  by pat_completeness auto
termination
  by (relation "measures [\<lambda>a. case a of Inl (_, level, _) \<Rightarrow> level | Inr (_, level, _) \<Rightarrow> level,
        \<lambda>a. case a of Inl _ \<Rightarrow> 0 | Inr (_, _, es, _) \<Rightarrow> length es + 1]") auto

declare load_tree.simps [simp del]

section \<open>Assembling the image\<close>

record resolved_generation =
  rg_checkpoint :: stored_object
  rg_bytes :: "byte list"
  rg_tree :: "tree option"

type_synonym open_packs = "(string, page_object_reference \<times> stored_object \<times> pack_index) btree"

text \<open>The pack of an entry, opened when it is first needed.\<close>

definition open_pack :: "reader \<Rightarrow> u32 \<Rightarrow> open_packs \<Rightarrow> page_map_entry \<Rightarrow> open_packs io" where
  "open_pack rd page_size packs entry =
     (case bt_get packs (uri_as_str (por_uri (pme_pack entry))) of
        Some (reference, _, _) \<Rightarrow>
          if reference \<noteq> pme_pack entry then corrupt ''conflicting pack references'' else io_return packs
      | None \<Rightarrow>
          io_bind (read_metadata rd (object (pme_pack entry) PAGE_PACK_MEDIA_TYPE)) (\<lambda>raw.
          io_bind (io_protocol (decode_pack_index (so_bytes raw))) (\<lambda>idx.
            if pki_page_size idx \<noteq> page_size then corrupt ''pack page size mismatch''
            else io_return (bt_insert (uri_as_str (por_uri (pme_pack entry))) (pme_pack entry, raw, idx) packs))))"

text \<open>The page an entry stands for, out of its pack.\<close>

definition entry_page :: "externals \<Rightarrow> nat \<Rightarrow> page_map_entry \<Rightarrow> byte list \<Rightarrow> pack_index \<Rightarrow> byte list io" where
  "entry_page x page_size entry raw idx =
     (case binary_search_by (\<lambda>e. cmp (pie_page_number e) (pme_page_number entry)) (pki_entries idx) of
        Inl _ \<Rightarrow> corrupt ''mapped page absent from pack index''
      | Inr position \<Rightarrow>
          (let indexed = pki_entries idx ! position in
           if pie_offset indexed \<noteq> pme_offset entry \<or> pie_codec indexed \<noteq> pme_codec entry
              \<or> pie_raw_length indexed \<noteq> pme_raw_length entry \<or> pie_stored_length indexed \<noteq> pme_stored_length entry
              \<or> pie_page_sha256 indexed \<noteq> pme_page_sha256 entry
           then corrupt ''map disagrees with pack index''
           else
             io_bind (io_or ''pack offset overflow'' (usize_try_from (pme_offset entry))) (\<lambda>start.
             io_bind (io_some (get_range raw start (start + unat (pme_stored_length entry)))) (\<lambda>stored.
             io_bind (case pme_codec entry of
                        CodecNone \<Rightarrow> io_return stored
                      | CodecZstd \<Rightarrow> io_of (lift (map_err IoErr (zstd_decompress x stored page_size)))) (\<lambda>page.
               if length page \<noteq> page_size \<or> digest x page \<noteq> pme_page_sha256 entry
               then corrupt ''invalid decompressed page length or hash''
               else io_return page)))))"

definition resolve_entry :: "reader \<Rightarrow> u32 \<Rightarrow> byte list \<times> open_packs \<Rightarrow> page_map_entry \<Rightarrow> (byte list \<times> open_packs) io" where
  "resolve_entry rd page_size s entry =
     (case s of (bytes, packs) \<Rightarrow>
      if pme_raw_length entry \<noteq> page_size then corrupt ''page-map raw length mismatch''
      else
        io_bind (open_pack rd page_size packs entry) (\<lambda>packs.
        io_bind (io_some (bt_get packs (uri_as_str (por_uri (pme_pack entry))))) (\<lambda>(_, raw, idx).
        io_bind (entry_page (rd_ext rd) (unat page_size) entry (so_bytes raw) idx) (\<lambda>page.
        io_bind (io_or ''page index overflow'' (usize_try_from (pme_page_number entry))) (\<lambda>number.
          if number = 0 \<or> (number - 1) * unat page_size + unat page_size > length bytes then panic
          else io_return (copy_at ((number - 1) * unat page_size) page bytes, packs))))))"

definition sqlite_magic :: "byte list" where
  "sqlite_magic = as_bytes ''SQLite format 3'' @ [0]"

text \<open>The checks of the base checkpoint: its layout, its page index and its identity.\<close>

definition resolve_checkpoint :: "reader \<Rightarrow> generation \<Rightarrow> stored_object io" where
  "resolve_checkpoint rd g =
     (let img = g_metadata_image g; cp = mi_checkpoint img; page_size = unat (mi_page_size img) in
      io_bind (read_metadata rd \<lparr>or_uri = cp_uri cp, or_sha256 = cp_sha256 cp, or_length = Some (cp_length cp),
                                 or_media_type = Some CHECKPOINT_MEDIA_TYPE\<rparr>) (\<lambda>checkpoint.
      let bs = so_bytes checkpoint in
      if length bs < page_size then corrupt ''invalid base checkpoint layout''
      else if page_size = 0 then panic
      else if length bs mod page_size \<noteq> 0 then corrupt ''invalid base checkpoint layout''
      else if length bs < 16 then panic
      else if take 16 bs \<noteq> sqlite_magic then corrupt ''invalid base checkpoint layout''
      else
        io_bind (verify_checkpoint_index rd img bs) (\<lambda>_.
        io_bind (io_of (lift (rd_query rd bs))) (\<lambda>(table, version, base_page_size, base_pages).
          if table \<noteq> id_as_bytes (g_table_id g)
             \<or> (if sint version < 0 then None else Some version) \<noteq> Some (cp_table_version cp)
             \<or> base_page_size \<noteq> mi_page_size img \<or> base_pages \<noteq> u64_of_usize (length bs div page_size)
          then corrupt ''base checkpoint identity mismatch''
          else io_return checkpoint))))"

definition resolve_tree :: "reader \<Rightarrow> metadata_image \<Rightarrow> nat \<Rightarrow> nat \<Rightarrow> tree option io" where
  "resolve_tree rd img len base_len =
     (case mi_page_map img of
        Some root \<Rightarrow>
          io_bind (load_tree rd (unat (pmr_height root)) (root_reference root) 0 (mi_page_count img) {}) (\<lambda>(t, _).
            io_return (Some t))
      | None \<Rightarrow>
          if len \<noteq> base_len then corrupt ''incomplete null-map checkpoint'' else io_return None)"

definition resolve_generation :: "reader \<Rightarrow> generation \<Rightarrow> resolved_generation io" where
  "resolve_generation rd g =
     (let img = g_metadata_image g; page_size = unat (mi_page_size img) in
      io_bind (resolve_checkpoint rd g) (\<lambda>checkpoint.
      let bs = so_bytes checkpoint in
      if image_root_hash (rd_ext rd) (g_table_id g) (g_table_version g) (mi_page_size img) (mi_page_count img)
           (cp_sha256 (mi_checkpoint img)) (map_option pmr_sha256 (mi_page_map img)) \<noteq> mi_image_root_sha256 img
      then corrupt ''metadata image root mismatch''
      else
        io_bind (io_or ''image length overflow''
          (Option.bind (usize_try_from (mi_page_count img)) (\<lambda>n. usize_checked_mul n page_size))) (\<lambda>len.
        if len = 0 then corrupt ''empty metadata image''
        else
          io_bind (resolve_tree rd img len (length bs)) (\<lambda>tree.
          let entries = (case tree of None \<Rightarrow> [] | Some t \<Rightarrow> flatten_tree t []);
              base_pages = u64_of_usize (length bs div page_size) in
          io_bind (io_some (checked_add base_pages 1)) (\<lambda>first_new.
          if u64_of_usize (length (filter (\<lambda>(n, _). first_new \<le> n) entries))
               \<noteq> (if mi_page_count img \<le> base_pages then 0 else mi_page_count img - base_pages)
          then corrupt ''missing extended image page''
          else if \<not> rd_reserve rd len then corrupt ''metadata image exceeds materialization capacity''
          else
            let copied = min len (length bs) in
            io_bind (io_fold (resolve_entry rd (mi_page_size img))
                (copy_at 0 (take copied bs) (replicate len 0), []) (map snd entries)) (\<lambda>(bytes, _).
            io_bind (io_some (get_range bytes 28 32)) (\<lambda>h.
              if u64_from_u32 (u32_from_be_bytes h) \<noteq> mi_page_count img
              then corrupt ''resolved header page count mismatch''
              else io_return \<lparr>rg_checkpoint = checkpoint, rg_bytes = bytes, rg_tree = tree\<rparr>)))))))"

section \<open>Reasoning about reads\<close>

text \<open>
  The store returns byte strings a machine can hold. The cache holds, under its URI, the object the store has there, with the hash it
  was verified against.
\<close>

definition reader_ok :: "reader \<Rightarrow> bool" where
  "reader_ok rd = (\<forall>uri o'. rd_read rd uri = Inr o' \<longrightarrow> length (so_bytes o') < usize_bound)"

definition authentic :: "externals \<Rightarrow> sha256 \<Rightarrow> stored_object \<Rightarrow> bool" where
  "authentic x h o' = (digest x (so_bytes o') = h \<and> length (so_bytes o') < usize_bound)"

definition cache_ok :: "reader \<Rightarrow> metadata_cache \<Rightarrow> bool" where
  "cache_ok rd c =
     (case c of
        None \<Rightarrow> True
      | Some m \<Rightarrow> list_all (\<lambda>(k, v). rd_read rd (RelativeUri k) = Inr (vm_object v)
                             \<and> authentic (rd_ext rd) (vm_sha256 v) (vm_object v)) m)"

text \<open>
  \<open>ensures rd m Q\<close>: from a cache in order, \<open>m\<close> does not panic, leaves the cache in order, and a value it
  returns satisfies \<open>Q\<close>.
\<close>

definition ensures :: "reader \<Rightarrow> 'a io \<Rightarrow> ('a \<Rightarrow> bool) \<Rightarrow> bool" where
  "ensures rd m Q =
     (\<forall>c. cache_ok rd c \<longrightarrow> safe (fst (m c)) \<and> cache_ok rd (snd (m c)) \<and> (\<forall>v. fst (m c) = Inr v \<longrightarrow> Q v))"

named_theorems ensures_intros

lemma ensures_of: "safe r \<Longrightarrow> (\<And>v. r = Inr v \<Longrightarrow> Q v) \<Longrightarrow> ensures rd (io_of r) Q"
  by (simp add: ensures_def io_of_def)

lemma ensures_return [ensures_intros]: "Q v \<Longrightarrow> ensures rd (io_return v) Q"
  unfolding io_return_def by (rule ensures_of) simp_all

lemma ensures_corrupt [ensures_intros]: "ensures rd (corrupt m) Q"
  unfolding corrupt_def by (rule ensures_of) simp_all

lemma ensures_or [ensures_intros]: "(\<And>u. v = Some u \<Longrightarrow> Q u) \<Longrightarrow> ensures rd (io_or m v) Q"
  unfolding io_or_def by (rule ensures_of) (auto simp: ok_or_def split: option.splits)

lemma ensures_some: "v = Some u \<Longrightarrow> Q u \<Longrightarrow> ensures rd (io_some v) Q"
  unfolding io_some_def by (rule ensures_of) auto

lemma ensures_protocol [ensures_intros]: "(\<And>u. r = Inr u \<Longrightarrow> Q u) \<Longrightarrow> ensures rd (io_protocol r) Q"
  unfolding io_protocol_def by (rule ensures_of) (auto simp: lift_eq_Inr map_err_eq_Inr)

lemma ensures_lift [ensures_intros]: "(\<And>u. r = Inr u \<Longrightarrow> Q u) \<Longrightarrow> ensures rd (io_of (lift r)) Q"
  by (rule ensures_of) (auto simp: lift_eq_Inr)

lemma ensures_bind:
  assumes "ensures rd m P" "\<And>v. P v \<Longrightarrow> ensures rd (f v) Q"
  shows "ensures rd (io_bind m f) Q"
  unfolding ensures_def
proof (intro allI impI)
  fix c assume c: "cache_ok rd c"
  obtain r c' where m: "m c = (r, c')" by (cases "m c")
  have r: "safe r" "cache_ok rd c'" "\<And>v. r = Inr v \<Longrightarrow> P v" using assms(1) c m by (auto simp: ensures_def)
  show "safe (fst (io_bind m f c)) \<and> cache_ok rd (snd (io_bind m f c))
      \<and> (\<forall>v. fst (io_bind m f c) = Inr v \<longrightarrow> Q v)"
  proof (cases r)
    case (Inl e)
    then show ?thesis using m r by (simp add: io_bind_def safe_def)
  next
    case (Inr v)
    then show ?thesis using m r assms(2) [of v] by (simp add: io_bind_def ensures_def)
  qed
qed

lemma ensures_weaken: "ensures rd m P \<Longrightarrow> (\<And>v. P v \<Longrightarrow> Q v) \<Longrightarrow> ensures rd m Q"
  by (simp add: ensures_def)

lemma ensures_if [ensures_intros]:
  "(b \<Longrightarrow> ensures rd m Q) \<Longrightarrow> (\<not> b \<Longrightarrow> ensures rd n Q) \<Longrightarrow> ensures rd (if b then m else n) Q"
  by simp

lemma ensures_fold:
  assumes "P s []" "\<And>s xs y ys. us = xs @ y # ys \<Longrightarrow> P s xs \<Longrightarrow> ensures rd (f s y) (\<lambda>s. P s (xs @ [y]))"
  shows "ensures rd (io_fold f s us) (\<lambda>s. P s us)"
proof -
  have "ensures rd (io_fold f s ys) (\<lambda>s. P s us)" if "us = xs @ ys" "P s xs" for s xs ys
    using that
  proof (induction ys arbitrary: s xs)
    case (Cons y ys)
    show ?case
      by (simp, rule ensures_bind [OF assms(2) [OF Cons.prems]]) (rule Cons.IH, simp_all add: Cons.prems)
  qed (simp add: ensures_return)
  from this [of "[]" us] show ?thesis using assms(1) by simp
qed

lemma cache_ok_insert: "list_all P m \<Longrightarrow> P (k, v) \<Longrightarrow> list_all P (bt_insert k v m)"
  by (rule bt_insert_all)

definition page_at :: "nat \<Rightarrow> byte list \<Rightarrow> nat \<Rightarrow> byte list" where
  "page_at psize bs p = take psize (drop ((p - 1) * psize) bs)"

text \<open>What reading a reference gives: the object stored at its URI, with its hash and length.\<close>

definition read_as :: "reader \<Rightarrow> object_reference \<Rightarrow> stored_object \<Rightarrow> bool" where
  "read_as rd reference o' = (rd_read rd (or_uri reference) = Inr o' \<and> authentic (rd_ext rd) (or_sha256 reference) o'
     \<and> (\<forall>l. or_length reference = Some l \<longrightarrow> l = u64_of_usize (length (so_bytes o'))))"

lemma verified_read_Inr: "reader_ok rd \<Longrightarrow> verified_read rd reference = Inr o' \<Longrightarrow> read_as rd reference o'"
  by (auto simp: verified_read_def result_simps read_as_def authentic_def reader_ok_def split: option.splits)

lemma ensures_read:
  assumes "reader_ok rd"
  shows "ensures rd (read_metadata rd reference) (read_as rd reference)"
proof -
  let ?k = "uri_as_str (or_uri reference)"
  let ?ok = "\<lambda>(k, v). rd_read rd (RelativeUri k) = Inr (vm_object v) \<and> authentic (rd_ext rd) (vm_sha256 v) (vm_object v)"
  have cached: "read_as rd reference (vm_object v)" if "?ok (?k, v)" "vm_check v reference = Inr ()" for v
    using that by (auto simp: vm_check_def read_as_def split: if_splits option.splits)
  have found: "?ok (?k, v)" if "list_all ?ok m" "bt_get m ?k = Some v" for m v
  proof -
    have "(?k, v) \<in> set m" using that(2) by (auto simp: bt_get_def dest: map_of_SomeD)
    then show ?thesis using that(1) unfolding list_all_iff by blast
  qed
  have new: "list_all ?ok (bt_insert ?k \<lparr>vm_object = o', vm_sha256 = or_sha256 reference\<rparr> m)"
    if "read_as rd reference o'" "list_all ?ok m" for o' m
    by (rule cache_ok_insert [OF that(2)]) (use that(1) in \<open>simp add: read_as_def\<close>)
  show ?thesis
    unfolding ensures_def
  proof (intro allI impI)
    fix c assume c: "cache_ok rd c"
    show "safe (fst (read_metadata rd reference c)) \<and> cache_ok rd (snd (read_metadata rd reference c))
        \<and> (\<forall>v. fst (read_metadata rd reference c) = Inr v \<longrightarrow> read_as rd reference v)"
    proof (cases c)
      case None
      then show ?thesis using verified_read_Inr [OF assms] by (auto simp: read_metadata_def cache_ok_def lift_eq_Inr)
    next
      case (Some m)
      then have m: "list_all ?ok m" using c by (simp add: cache_ok_def)
      show ?thesis
      proof (cases "bt_get m ?k")
        case None
        then show ?thesis
          using Some c m new verified_read_Inr [OF assms] by (cases "verified_read rd reference") (simp_all add: read_metadata_def cache_ok_def)
      next
        case (Some v)
        then show ?thesis
          using \<open>c = Some m\<close> c cached [OF found [OF m Some]]
          by (auto simp: read_metadata_def lift_eq_Inr and_then_eq_Inr)
      qed
    qed
  qed
qed

section \<open>Walking the index and the tree\<close>

lemma decode_checkpoint_index_valid: "decode_checkpoint_index bs = Inr n \<Longrightarrow> ci_validate n = Inr ()"
  using decode_checkpoint_index_Inr by blast

lemma decode_page_map_validates: "decode_page_map bs = Inr n \<Longrightarrow> pm_validate n = Inr ()"
  using decode_page_map_Inr by blast

text \<open>A page of the checkpoint with its recorded hash, and a checkpoint all of whose pages have the hashes an index records.\<close>

definition page_hashed :: "externals \<Rightarrow> nat \<Rightarrow> byte list \<Rightarrow> nat \<Rightarrow> sha256 \<Rightarrow> bool" where
  "page_hashed x psize bs p h = (p * psize \<le> length bs \<and> digest x (page_at psize bs p) = h)"

fun index_agrees :: "reader \<Rightarrow> nat \<Rightarrow> byte list \<Rightarrow> nat \<Rightarrow> page_object_reference \<Rightarrow> u64 \<Rightarrow> u64 \<Rightarrow> bool" where
  "index_agrees rd psize bs level reference first_page page_count =
     (\<exists>raw node. read_as rd (object reference CHECKPOINT_PAGE_INDEX_MEDIA_TYPE) raw
        \<and> decode_checkpoint_index (so_bytes raw) = Inr node
        \<and> ci_first_page node = first_page \<and> ci_page_count node = page_count
        \<and> (case node of
             IndexLeaf first hashes \<Rightarrow> \<forall>k < length hashes. page_hashed (rd_ext rd) psize bs (unat first + k) (hashes ! k)
           | IndexInternal _ entries \<Rightarrow>
               (case level of
                  0 \<Rightarrow> False
                | Suc below \<Rightarrow>
                    list_all (\<lambda>e. index_agrees rd psize bs below (cic_child e) (cic_first_page e) (cic_page_count e)) entries)))"

declare index_agrees.simps [simp del]

lemma ensures_verify_page:
  assumes "first_page \<noteq> 0" "k < usize_bound"
  shows "ensures rd (verify_page x page_size bs first_page (k, h)) (\<lambda>_. page_hashed x page_size bs (unat first_page + k) h)"
proof -
  have k: "unat (u64_of_usize k) = k" using assms(2) by (simp add: u64_of_usize_def usize_bound_def unat_of_nat)
  have page: "\<exists>v. checked_sub page 1 = Some v \<and> unat v = unat first_page + k - 1"
    if "checked_add first_page (u64_of_usize k) = Some page" for page
  proof -
    have "unat page = unat first_page + k" using unat_checked_add [OF that] k by simp
    moreover have "0 < unat first_page" using assms(1) by (simp add: unat_gt_0)
    ultimately show ?thesis by (simp add: checked_sub_def unat_sub_if_size word_le_nat_alt)
  qed
  have last: "ensures rd (case get_range bs start e of
          None \<Rightarrow> corrupt ''checkpoint page disagrees with authenticated index''
        | Some page \<Rightarrow> if digest x page \<noteq> h then corrupt ''checkpoint page disagrees with authenticated index''
            else io_return ()) (\<lambda>_. page_hashed x page_size bs (unat first_page + k) h)"
    if "start = (unat first_page + k - 1) * page_size" "usize_checked_add start page_size = Some e" for start e
  proof -
    have "0 < unat first_page" using assms(1) by (simp add: unat_gt_0)
    then have "(unat first_page + k) * page_size = start + page_size"
      using that(1) by (cases "unat first_page + k") auto
    moreover have "e = start + page_size" using that(2) by (simp add: usize_checked_add_eq_Some)
    ultimately have e: "e = (unat first_page + k) * page_size" "e = start + page_size" by simp_all
    show ?thesis
    proof (cases "get_range bs start e")
      case (Some page)
      then have r: "e \<le> length bs" "page = take (e - start) (drop start bs)" by (simp_all add: get_range_eq_Some)
      have "e - start = page_size" using e(2) by simp
      with r have "page = page_at page_size bs (unat first_page + k)" "(unat first_page + k) * page_size \<le> length bs"
        using e(1) by (simp_all add: page_at_def that(1))
      then show ?thesis unfolding Some option.case
        by (intro ensures_if ensures_corrupt ensures_return) (simp add: page_hashed_def)
    qed (simp add: ensures_corrupt)
  qed
  show ?thesis
    unfolding verify_page_def prod.case
  proof (rule ensures_bind [OF ensures_or [where Q = "\<lambda>page. checked_add first_page (u64_of_usize k) = Some page"]], assumption)
    fix p assume "checked_add first_page (u64_of_usize k) = Some p"
    from page [OF this] obtain v where v: "checked_sub p 1 = Some v" "unat v = unat first_page + k - 1" by blast
    show "ensures rd (io_bind (io_some (checked_sub p 1)) (\<lambda>before.
      io_bind (io_or ''checkpoint-index byte offset overflow''
                 (Option.bind (usize_try_from before) (\<lambda>p. usize_checked_mul p page_size))) (\<lambda>start.
      io_bind (io_or ''checkpoint-index byte range overflow'' (usize_checked_add start page_size)) (\<lambda>e.
        case get_range bs start e of
          None \<Rightarrow> corrupt ''checkpoint page disagrees with authenticated index''
        | Some page \<Rightarrow>
            if digest x page \<noteq> h then corrupt ''checkpoint page disagrees with authenticated index''
            else io_return ())))) (\<lambda>_. page_hashed x page_size bs (unat first_page + k) h)"
      by (rule ensures_bind [OF ensures_some [OF v(1), where Q = "\<lambda>w. w = v"]], simp,
          rule ensures_bind [OF ensures_or [where Q = "\<lambda>start. start = (unat first_page + k - 1) * page_size"]],
          use v(2) in \<open>auto simp: bind_eq_Some_conv usize_try_from_def usize_checked_mul_def split: if_splits\<close>)
        (auto intro!: ensures_bind [OF ensures_or [where Q = "\<lambda>e. usize_checked_add _ page_size = Some e"]] last)
  qed
qed

lemma ensures_verify_pages:
  assumes "first_page \<noteq> 0" "length hashes < usize_bound"
  shows "ensures rd (io_fold (\<lambda>_. verify_page x page_size bs first_page) () (enumerate 0 hashes))
    (\<lambda>_. \<forall>k < length hashes. page_hashed x page_size bs (unat first_page + k) (hashes ! k))"
proof -
  have "ensures rd (io_fold (\<lambda>_. verify_page x page_size bs first_page) () (enumerate 0 hashes))
    (\<lambda>_. \<forall>(k, h) \<in> set (enumerate 0 hashes). page_hashed x page_size bs (unat first_page + k) h)"
  proof (rule ensures_fold [where P = "\<lambda>_ es. \<forall>(k, h) \<in> set es. page_hashed x page_size bs (unat first_page + k) h"])
    fix s :: unit and xs y ys
    assume e: "enumerate 0 hashes = xs @ y # ys" and xs: "\<forall>(k, h) \<in> set xs. page_hashed x page_size bs (unat first_page + k) h"
    obtain k h where y: "y = (k, h)" by (cases y)
    have "(k, h) \<in> set (enumerate 0 hashes)" unfolding e y by simp
    then have "k < usize_bound" using assms(2) by (auto simp: in_set_enumerate_eq)
    from ensures_verify_page [OF assms(1) this]
    show "ensures rd (verify_page x page_size bs first_page y)
        (\<lambda>_. \<forall>(k, h) \<in> set (xs @ [y]). page_hashed x page_size bs (unat first_page + k) h)"
      unfolding y by (rule ensures_weaken) (use xs in auto)
  qed simp
  then show ?thesis by (rule ensures_weaken) (auto simp: in_set_enumerate_eq)
qed

lemma ensures_verify_node:
  assumes "reader_ok rd"
  shows "ensures rd (verify_node rd level reference first_page page_count seen)
    (\<lambda>(node, _). level \<le> 64 \<and> ci_level node = word_of_nat level \<and> ci_validate node = Inr ()
       \<and> ci_first_page node = first_page \<and> ci_page_count node = page_count
       \<and> (\<exists>raw. read_as rd (object reference CHECKPOINT_PAGE_INDEX_MEDIA_TYPE) raw \<and> decode_checkpoint_index (so_bytes raw) = Inr node))"
  unfolding verify_node_def
  by (intro ensures_intros ensures_bind [OF ensures_read [OF assms]]
      ensures_bind [OF ensures_protocol [where Q = "\<lambda>node. decode_checkpoint_index (so_bytes _) = Inr node"]])
    (auto dest: decode_checkpoint_index_valid)

lemma ensures_verify_index_node:
  assumes "reader_ok rd"
  shows "ensures rd (verify_checkpoint_index_node rd page_size bs level reference first_page page_count seen)
    (\<lambda>_. index_agrees rd page_size bs level reference first_page page_count)"
proof (induction level arbitrary: reference first_page page_count seen rule: less_induct)
  case (less level)
  let ?named = "\<lambda>node. ci_first_page node = first_page \<and> ci_page_count node = page_count
       \<and> (\<exists>raw. read_as rd (object reference CHECKPOINT_PAGE_INDEX_MEDIA_TYPE) raw \<and> decode_checkpoint_index (so_bytes raw) = Inr node)"
  have leaf: "ensures rd (io_bind (io_fold (\<lambda>_. verify_page (rd_ext rd) page_size bs p) () (enumerate 0 hashes)) (\<lambda>_.
      io_return s)) (\<lambda>_. index_agrees rd page_size bs level reference first_page page_count)"
    if "ci_validate (IndexLeaf p hashes) = Inr ()" "?named (IndexLeaf p hashes)" for p hashes s
  proof -
    have p: "p \<noteq> 0" "length hashes < usize_bound"
      using that(1) by (auto simp: checkpoint_index_capacity_def usize_bound_def split: if_splits)
    show ?thesis
      by (rule ensures_bind [OF ensures_verify_pages [OF p]])
        (use that(2) in \<open>auto intro!: ensures_return simp: index_agrees.simps [of rd page_size bs level]\<close>)
  qed
  have internal: "ensures rd (case level of 0 \<Rightarrow> panic | Suc below \<Rightarrow> io_fold (\<lambda>seen entry.
      verify_checkpoint_index_node rd page_size bs below (cic_child entry) (cic_first_page entry) (cic_page_count entry) seen) s es)
      (\<lambda>_. index_agrees rd page_size bs level reference first_page page_count)"
    if pos: "level \<noteq> 0" and named: "?named (IndexInternal l es)" for s es l
  proof -
    obtain below where l: "level = Suc below" using pos by (cases level) auto
    have "ensures rd (io_fold (\<lambda>seen entry.
        verify_checkpoint_index_node rd page_size bs below (cic_child entry) (cic_first_page entry) (cic_page_count entry) seen) s es)
        (\<lambda>_. list_all (\<lambda>e. index_agrees rd page_size bs below (cic_child e) (cic_first_page e) (cic_page_count e)) es)"
      by (rule ensures_fold [where P = "\<lambda>_ es. list_all (\<lambda>e. index_agrees rd page_size bs below (cic_child e) (cic_first_page e)
            (cic_page_count e)) es"]) (auto intro: ensures_weaken [OF less.IH] simp: l)
    then show ?thesis unfolding l nat.case
      by (rule ensures_weaken) (use named in \<open>auto simp: index_agrees.simps [of rd page_size bs "Suc below"]\<close>)
  qed
  show ?case
    unfolding verify_checkpoint_index_node.simps [of rd page_size bs level]
  proof (rule ensures_bind [OF ensures_verify_node [OF assms]])
    fix v :: "checkpoint_index_node \<times> string set"
    assume "case v of (node, _) \<Rightarrow> level \<le> 64 \<and> ci_level node = word_of_nat level \<and> ci_validate node = Inr () \<and> ?named node"
    then obtain node s where v: "v = (node, s)" "level \<le> 64" "ci_level node = word_of_nat level" "ci_validate node = Inr ()"
      "?named node" by (cases v) auto
    have "level \<noteq> 0" if "node = IndexInternal l es" for l es
      using v that by (cases level) (auto split: if_splits)
    then show "ensures rd (case v of (node, seen) \<Rightarrow> (case node of
         IndexLeaf first_page hashes \<Rightarrow>
           io_bind (io_fold (\<lambda>_. verify_page (rd_ext rd) page_size bs first_page) () (enumerate 0 hashes)) (\<lambda>_. io_return seen)
       | IndexInternal _ entries \<Rightarrow> (case level of 0 \<Rightarrow> panic | Suc below \<Rightarrow> io_fold (\<lambda>seen entry.
           verify_checkpoint_index_node rd page_size bs below (cic_child entry) (cic_first_page entry) (cic_page_count entry) seen)
             seen entries))) (\<lambda>_. index_agrees rd page_size bs level reference first_page page_count)"
      using v leaf internal unfolding v(1) prod.case by (cases node) (simp_all only: checkpoint_index_node.case simp_thms)
  qed
qed

definition checkpoint_indexed :: "reader \<Rightarrow> metadata_image \<Rightarrow> byte list \<Rightarrow> bool" where
  "checkpoint_indexed rd img bs =
     (case mi_checkpoint_page_index img of
        None \<Rightarrow> True
      | Some idx \<Rightarrow>
          checkpoint_page_index_validate idx (mi_checkpoint img) (mi_page_size img) = Inr ()
          \<and> index_agrees rd (unat (mi_page_size img)) bs (unat (pmr_height (cpi_root idx))) (root_reference (cpi_root idx))
              1 (cpi_page_count idx))"

lemma ensures_verify_index: "reader_ok rd \<Longrightarrow> ensures rd (verify_checkpoint_index rd img bs) (\<lambda>_. checkpoint_indexed rd img bs)"
  unfolding verify_checkpoint_index_def
  by (cases "mi_checkpoint_page_index img")
    (auto intro!: ensures_return ensures_bind [OF ensures_protocol
          [where Q = "\<lambda>_. checkpoint_page_index_validate _ (mi_checkpoint img) (mi_page_size img) = Inr ()"]]
        ensures_bind [OF ensures_verify_index_node] simp: checkpoint_indexed_def)

text \<open>The node a reference names, and a tree all of whose nodes are the ones their references name.\<close>

definition node_named :: "reader \<Rightarrow> page_object_reference \<Rightarrow> page_map_node \<Rightarrow> bool" where
  "node_named rd reference node =
     (\<exists>raw. read_as rd (object reference PAGE_MAP_MEDIA_TYPE) raw \<and> decode_page_map (so_bytes raw) = Inr node)"

fun tree_named :: "reader \<Rightarrow> tree \<Rightarrow> bool" where
  "tree_named rd (Tree reference node children mn mx) = (node_named rd reference node \<and> list_all (tree_named rd) children)"

lemma ensures_load_node:
  assumes "reader_ok rd"
  shows "ensures rd (load_node rd level reference seen)
    (\<lambda>(node, _). level \<le> 64 \<and> pm_level node = word_of_nat level \<and> pm_validate node = Inr () \<and> node_named rd reference node)"
  unfolding load_node_def
  by (intro ensures_intros ensures_bind [OF ensures_read [OF assms]]
      ensures_bind [OF ensures_protocol [where Q = "\<lambda>node. decode_page_map (so_bytes _) = Inr node"]])
    (auto simp: node_named_def dest: decode_page_map_validates)

text \<open>What loading promises of a subtree: its shape, its bounds and its address.\<close>

definition loaded :: "reader \<Rightarrow> page_object_reference \<Rightarrow> u64 \<Rightarrow> u64 \<Rightarrow> tree \<Rightarrow> bool" where
  "loaded rd reference lower upper t =
     (tree_inv t \<and> tree_named rd t \<and> lower < t_min t \<and> t_max t \<le> upper \<and> t_reference t = reference)"

definition loaded_children :: "reader \<Rightarrow> page_map_branch list \<Rightarrow> u64 \<Rightarrow> u64 \<Rightarrow> tree list \<Rightarrow> bool" where
  "loaded_children rd entries lower upper ts =
     (forest_inv ts \<and> map branch_of ts = entries \<and> (\<forall>t \<in> set ts. tree_named rd t \<and> lower < t_min t \<and> t_max t \<le> upper))"

lemma loaded_children_Cons:
  assumes "loaded rd (pmb_child e) previous (pmb_max_page e) t" "t_max t = pmb_max_page e"
    and "loaded_children rd es (pmb_max_page e) upper ts" "previous < pmb_max_page e" "pmb_max_page e \<le> upper"
  shows "loaded_children rd (e # es) previous upper (t # ts)"
proof -
  have "branch_of t = e" using assms(1,2) by (simp add: branch_of_def loaded_def)
  moreover have "tree_named rd u \<and> previous < t_min u \<and> t_max u \<le> upper" if "u \<in> set ts" for u
    using assms(3,4) that by (force simp: loaded_children_def)
  ultimately show ?thesis
    using assms by (auto simp: loaded_children_def loaded_def forest_inv_Cons)
qed

lemma ensures_load_children:
  assumes "\<And>reference lower upper seen. ensures rd (load_tree rd level reference lower upper seen)
    (\<lambda>(t, _). loaded rd reference lower upper t)"
  shows "ensures rd (load_children rd level entries previous upper seen)
    (\<lambda>(ts, _). loaded_children rd entries previous upper ts)"
proof (induction entries arbitrary: previous seen)
  case Nil
  then show ?case by (auto simp: loaded_children_def forest_inv_def intro: ensures_return)
next
  case (Cons e es)
  have rest: "ensures rd (if t_max t \<noteq> pmb_max_page e then corrupt ''page-map maximum disagrees with child''
      else io_bind (load_children rd level es (pmb_max_page e) upper s) (\<lambda>(ts, seen). io_return (t # ts, seen)))
      (\<lambda>(ts, _). loaded_children rd (e # es) previous upper ts)"
    if "loaded rd (pmb_child e) previous (pmb_max_page e) t" "previous < pmb_max_page e" "pmb_max_page e \<le> upper" for t s
    using that loaded_children_Cons
    by (intro ensures_if ensures_corrupt ensures_bind [OF Cons.IH]) (auto intro!: ensures_return)
  show ?case
    by (simp, intro conjI impI ensures_corrupt ensures_bind [OF assms]) (auto intro: rest)
qed

lemma ensures_load_tree:
  assumes rd: "reader_ok rd"
  shows "ensures rd (load_tree rd level reference lower upper seen) (\<lambda>(t, _). loaded rd reference lower upper t)"
proof (induction level arbitrary: reference lower upper seen rule: less_induct)
  case (less level)
  let ?bounds = "\<lambda>node (children, mn, mx, _). tree_inv (Tree reference node children mn mx) \<and> list_all (tree_named rd) children"
  have body: "ensures rd (case node of
      PageLeaf entries \<Rightarrow> if entries = [] then panic
        else io_return ([], pme_page_number (hd entries), pme_page_number (last entries), s)
    | PageInternal _ entries \<Rightarrow> (case level of 0 \<Rightarrow> panic | Suc below \<Rightarrow>
        io_bind (load_children rd below entries lower upper s) (\<lambda>(children, s).
          if children = [] then panic
          else io_return (children, t_min (hd children), t_max (last children), s)))) (?bounds node)"
    if node: "pm_level node = word_of_nat level" "pm_validate node = Inr ()" for node s
  proof (cases node)
    case (PageLeaf es)
    have "es \<noteq> []" "ascending es" using node(2) unfolding PageLeaf pm_validate_leaf by auto
    then show ?thesis unfolding PageLeaf by (auto intro!: ensures_return simp: tree_inv.simps)
  next
    case (PageInternal l bs)
    have "l \<noteq> 0" "bs \<noteq> []" using node(2) unfolding PageInternal pm_validate_internal by auto
    with node(1) PageInternal obtain below where level: "level = Suc below" by (cases level) auto
    have "ensures rd (load_children rd below bs lower upper s) (\<lambda>(ts, _). loaded_children rd bs lower upper ts)"
      by (rule ensures_load_children) (rule less.IH, simp add: level)
    moreover have "ts \<noteq> [] \<and> ?bounds node (ts, t_min (hd ts), t_max (last ts), s)" if "loaded_children rd bs lower upper ts" for ts s
      using that \<open>bs \<noteq> []\<close> by (auto simp: PageInternal loaded_children_def forest_inv_def list_all_iff tree_inv.simps [of "Tree _ _ _ _ _"])
    ultimately show ?thesis
      unfolding PageInternal level page_map_node.case nat.case
      by (elim ensures_bind) (auto intro!: ensures_return)
  qed
  have last: "ensures rd (case r of (children, mn, mx, s) \<Rightarrow>
      if mn \<le> lower \<or> mx > upper then corrupt ''page-map entry outside subtree bounds''
      else io_return (Tree reference node children mn mx, s)) (\<lambda>(t, _). loaded rd reference lower upper t)"
    if "?bounds node r" "node_named rd reference node" for node and r :: "tree list \<times> u64 \<times> u64 \<times> string set"
    using that by (cases r) (auto intro!: ensures_intros simp: loaded_def)
  show ?case
    unfolding load_tree.simps [of rd level]
    by (rule ensures_bind [OF ensures_load_node [OF rd]]) (auto intro!: ensures_bind [OF body last])
qed

section \<open>Pages out of packs\<close>

lemma decode_pack_index_entries:
  assumes "decode_pack_index bs = Inr p" "length bs < usize_bound" "e \<in> set (pki_entries p)"
  shows "unat (pie_offset e) + unat (pie_stored_length e) \<le> length bs"
proof -
  obtain hd idx where "decode_pack_index_parts hd idx (u64_of_usize (length bs)) = Inr p"
    using assms(1) by (auto simp: decode_pack_index_def and_then_eq_Inr)
  then obtain h where "list_all (pack_entry_good h (u64_of_usize (length bs))) (pki_entries p)"
    by (rule decode_parts_good)
  with assms(2,3) show ?thesis
    by (auto simp: list_all_iff pack_entry_good_def u64_of_usize_def usize_bound_def unat_of_nat)
qed

text \<open>The page that an entry takes out of the bytes of its pack.\<close>

definition pack_page :: "externals \<Rightarrow> nat \<Rightarrow> page_map_entry \<Rightarrow> byte list \<Rightarrow> byte list \<Rightarrow> bool" where
  "pack_page x psize e raw page =
     (let stored = take (unat (pme_stored_length e)) (drop (unat (pme_offset e)) raw) in
      case pme_codec e of CodecNone \<Rightarrow> page = stored | CodecZstd \<Rightarrow> zstd_decompress x stored psize = Inr page)"

definition entry_stored :: "reader \<Rightarrow> nat \<Rightarrow> page_map_entry \<Rightarrow> byte list \<Rightarrow> bool" where
  "entry_stored rd psize e page =
     (digest (rd_ext rd) page = pme_page_sha256 e
      \<and> (\<exists>raw. read_as rd (object (pme_pack e) PAGE_PACK_MEDIA_TYPE) raw \<and> pack_page (rd_ext rd) psize e (so_bytes raw) page))"

lemma ensures_entry_page:
  assumes "decode_pack_index raw = Inr idx" "length raw < usize_bound"
  shows "ensures rd (entry_page x page_size entry raw idx)
    (\<lambda>page. length page = page_size \<and> digest x page = pme_page_sha256 entry \<and> pack_page x page_size entry raw page)"
proof (cases "binary_search_by (\<lambda>e. cmp (pie_page_number e) (pme_page_number entry)) (pki_entries idx)")
  case (Inl k)
  then show ?thesis by (simp add: entry_page_def ensures_corrupt)
next
  case (Inr position)
  let ?e = "pki_entries idx ! position"
  let ?stored = "take (unat (pme_stored_length entry)) (drop (unat (pme_offset entry)) raw)"
  have "?e \<in> set (pki_entries idx)" using binary_search_found [OF Inr] by simp
  then have fits: "unat (pie_offset ?e) + unat (pie_stored_length ?e) \<le> length raw"
    by (rule decode_pack_index_entries [OF assms])
  have stored: "get_range raw start (start + unat (pme_stored_length entry)) = Some ?stored"
    if "pie_offset ?e = pme_offset entry" "pie_stored_length ?e = pme_stored_length entry"
      "usize_try_from (pme_offset entry) = Some start" for start
    using fits that by (auto simp: get_range_def usize_try_from_def split: if_splits)
  have codec: "ensures rd (case pme_codec entry of CodecNone \<Rightarrow> io_return ?stored
      | CodecZstd \<Rightarrow> io_of (lift (map_err IoErr (zstd_decompress x ?stored page_size)))) (pack_page x page_size entry raw)"
    by (cases "pme_codec entry") (auto intro!: ensures_return ensures_lift simp: pack_page_def map_err_eq_Inr)
  have some: "ensures rd (io_some v) (\<lambda>u. u = ?stored)" if "v = Some ?stored" for v :: "byte list option"
    using that by (auto intro: ensures_some)
  show ?thesis
    unfolding entry_page_def Inr sum.case Let_def
    by (auto intro!: ensures_if ensures_corrupt ensures_bind [OF some] ensures_bind [OF codec] ensures_return stored
        ensures_bind [OF ensures_or [where Q = "\<lambda>start. usize_try_from (pme_offset entry) = Some start"]])
qed

definition packs_ok :: "reader \<Rightarrow> open_packs \<Rightarrow> bool" where
  "packs_ok rd packs = (bt_ok packs \<and> (\<forall>k r raw idx. bt_get packs k = Some (r, raw, idx) \<longrightarrow>
     decode_pack_index (so_bytes raw) = Inr idx \<and> length (so_bytes raw) < usize_bound \<and> read_as rd (object r PAGE_PACK_MEDIA_TYPE) raw))"

lemma packs_ok_insert:
  "packs_ok rd packs \<Longrightarrow> decode_pack_index (so_bytes raw) = Inr idx \<Longrightarrow> length (so_bytes raw) < usize_bound
    \<Longrightarrow> read_as rd (object r PAGE_PACK_MEDIA_TYPE) raw \<Longrightarrow> packs_ok rd (bt_insert k (r, raw, idx) packs)"
  by (auto simp: packs_ok_def bt_ok_insert bt_get_insert)

lemma ensures_open_pack:
  assumes "reader_ok rd" "packs_ok rd packs"
  shows "ensures rd (open_pack rd page_size packs entry)
    (\<lambda>packs. packs_ok rd packs \<and> (\<exists>raw idx. bt_get packs (uri_as_str (por_uri (pme_pack entry))) = Some (pme_pack entry, raw, idx)))"
proof (cases "bt_get packs (uri_as_str (por_uri (pme_pack entry)))")
  case None
  have "bt_ok packs" using assms(2) by (simp add: packs_ok_def)
  then show ?thesis
    unfolding open_pack_def None option.case
    by (intro ensures_bind [OF ensures_read [OF assms(1)]]
        ensures_bind [OF ensures_protocol [where Q = "\<lambda>idx. decode_pack_index (so_bytes _) = Inr idx"]] ensures_if ensures_corrupt ensures_return)
      (auto simp: read_as_def authentic_def bt_get_insert intro: packs_ok_insert [OF assms(2)])
next
  case (Some p)
  then show ?thesis
    using assms(2) by (cases p) (auto simp: open_pack_def intro!: ensures_if ensures_corrupt ensures_return)
qed

section \<open>Pages of a file\<close>

lemma page_at_copy:
  assumes "length page = n" "q * n + n \<le> length bs"
  shows "page_at n (copy_at (q * n) page bs) p = (if p - 1 = q then page else page_at n bs p)"
proof -
  define k where "k = p - 1"
  have small: "k * n + n \<le> q * n" if "k < q"
    using mult_le_mono1 [of "Suc k" q n] that by simp
  have large: "q * n + n \<le> k * n" if "q < k"
    using mult_le_mono1 [of "Suc q" k n] that by simp
  consider "k < q" | "k = q" | "q < k" by linarith
  then have "take n (drop (k * n) (copy_at (q * n) page bs)) = (if k = q then page else take n (drop (k * n) bs))"
  proof cases
    case 1
    then have "n \<le> q * n - k * n" "q * n - k * n \<le> length bs - k * n" using small assms by linarith+
    then show ?thesis using 1 small assms by (simp add: copy_at_def drop_take min_absorb1)
  next
    case 2
    then show ?thesis using assms by (simp add: copy_at_def)
  next
    case 3
    then show ?thesis using large assms by (simp add: copy_at_def)
  qed
  then show ?thesis by (simp add: page_at_def k_def)
qed

abbreviation entry_number :: "page_map_entry \<Rightarrow> nat" where
  "entry_number e \<equiv> unat (pme_page_number e)"

text \<open>A file in which the pages of some entries have been put in place.\<close>

definition patched :: "reader \<Rightarrow> nat \<Rightarrow> byte list \<Rightarrow> page_map_entry list \<Rightarrow> byte list \<Rightarrow> bool" where
  "patched rd psize start es bs =
     (length bs = length start
      \<and> (\<forall>e \<in> set es. entry_stored rd psize e (page_at psize bs (entry_number e)))
      \<and> (\<forall>p. 0 < p \<longrightarrow> p \<notin> entry_number ` set es \<longrightarrow> page_at psize bs p = page_at psize start p))"

lemma patched_step:
  assumes "patched rd psize start es bs" "length page = psize" "entry_stored rd psize e page"
    and "0 < entry_number e" "(entry_number e - 1) * psize + psize \<le> length bs" "entry_number e \<notin> entry_number ` set es"
    and "\<forall>e \<in> set es. 0 < entry_number e"
  shows "patched rd psize start (es @ [e]) (copy_at ((entry_number e - 1) * psize) page bs)"
proof -
  have len: "length (copy_at ((entry_number e - 1) * psize) page bs) = length bs"
    using assms(2,5) by (simp add: copy_at_def)
  have "p - 1 = entry_number e - 1 \<longleftrightarrow> p = entry_number e" if "0 < p" for p
    using that assms(4) by auto
  then show ?thesis
    using assms len unfolding patched_def page_at_copy [OF assms(2,5)] by (force simp: image_iff)
qed

lemma ensures_resolve_entry:
  assumes rd: "reader_ok rd" and packs: "packs_ok rd packs" and bs: "patched rd (unat psize) start es bs"
    and e: "0 < entry_number e" "entry_number e * unat psize \<le> length start" "entry_number e \<notin> entry_number ` set es"
    "\<forall>e \<in> set es. 0 < entry_number e"
  shows "ensures rd (resolve_entry rd psize (bs, packs) e)
    (\<lambda>(bs, packs). packs_ok rd packs \<and> patched rd (unat psize) start (es @ [e]) bs)"
proof -
  have fits: "(entry_number e - 1) * unat psize + unat psize \<le> length bs"
    using e(1,2) bs by (cases "entry_number e") (auto simp: patched_def)
  have last: "ensures rd (if number = 0 \<or> (number - 1) * unat psize + unat psize > length bs then panic
      else io_return (copy_at ((number - 1) * unat psize) page bs, packs'))
      (\<lambda>(bs, packs). packs_ok rd packs \<and> patched rd (unat psize) start (es @ [e]) bs)"
    if "usize_try_from (pme_page_number e) = Some number" "packs_ok rd packs'"
      "length page = unat psize \<and> entry_stored rd (unat psize) e page" for number page packs'
    using that fits e patched_step [OF bs] by (auto simp: usize_try_from_def not_le intro!: ensures_return split: if_splits)
  show ?thesis
    unfolding resolve_entry_def prod.case
  proof (rule ensures_if [OF ensures_corrupt], rule ensures_bind [OF ensures_open_pack [OF rd packs]])
    fix packs'
    assume p: "packs_ok rd packs' \<and> (\<exists>raw idx. bt_get packs' (uri_as_str (por_uri (pme_pack e))) = Some (pme_pack e, raw, idx))"
    then obtain raw idx where get: "bt_get packs' (uri_as_str (por_uri (pme_pack e))) = Some (pme_pack e, raw, idx)" by blast
    then have raw: "decode_pack_index (so_bytes raw) = Inr idx" "length (so_bytes raw) < usize_bound"
      and named: "read_as rd (object (pme_pack e) PAGE_PACK_MEDIA_TYPE) raw"
      using p by (auto simp: packs_ok_def)
    have page: "ensures rd (entry_page (rd_ext rd) (unat psize) e (so_bytes raw) idx)
        (\<lambda>page. length page = unat psize \<and> entry_stored rd (unat psize) e page)"
      by (rule ensures_weaken [OF ensures_entry_page [OF raw]]) (use named in \<open>auto simp: entry_stored_def\<close>)
    show "ensures rd (io_bind (io_some (bt_get packs' (uri_as_str (por_uri (pme_pack e))))) (\<lambda>(_, raw, idx).
        io_bind (entry_page (rd_ext rd) (unat psize) e (so_bytes raw) idx) (\<lambda>page.
        io_bind (io_or ''page index overflow'' (usize_try_from (pme_page_number e))) (\<lambda>number.
          if number = 0 \<or> (number - 1) * unat psize + unat psize > length bs then panic
          else io_return (copy_at ((number - 1) * unat psize) page bs, packs')))))
        (\<lambda>(bs, packs). packs_ok rd packs \<and> patched rd (unat psize) start (es @ [e]) bs)"
      unfolding get
      by (rule ensures_bind [OF ensures_some [OF refl, where Q = "\<lambda>v. v = (pme_pack e, raw, idx)"]])
        (simp_all only: prod.case, intro ensures_bind [OF page] last conjunct1 [OF p]
          ensures_bind [OF ensures_or [where Q = "\<lambda>n. usize_try_from (pme_page_number e) = Some n"]])
  qed
qed

lemma ensures_resolve_entries:
  assumes "reader_ok rd" "ascending es" "\<forall>e \<in> set es. 0 < entry_number e \<and> entry_number e * unat psize \<le> length start"
  shows "ensures rd (io_fold (resolve_entry rd psize) (start, []) es)
    (\<lambda>(bs, _). patched rd (unat psize) start es bs)"
proof -
  have "ensures rd (io_fold (resolve_entry rd psize) (start, []) es)
    (\<lambda>s. (case s of (bs, packs) \<Rightarrow> packs_ok rd packs \<and> patched rd (unat psize) start es bs))"
  proof (rule ensures_fold [where P = "\<lambda>s es. case s of (bs, packs) \<Rightarrow> packs_ok rd packs \<and> patched rd (unat psize) start es bs"])
    show "case (start, []) of (bs, packs) \<Rightarrow> packs_ok rd packs \<and> patched rd (unat psize) start [] bs"
      by (simp add: packs_ok_def patched_def bt_ok_def bt_get_def)
    fix s xs y ys
    assume es: "es = xs @ y # ys"
      and s: "case s of (bs, packs) \<Rightarrow> packs_ok rd packs \<and> patched rd (unat psize) start xs bs"
    obtain bs packs where bs: "s = (bs, packs)" "packs_ok rd packs" "patched rd (unat psize) start xs bs"
      using s by (cases s) auto
    have "entry_number y \<notin> entry_number ` set xs"
      using assms(2) unfolding es by (auto simp: sorted_wrt_append word_less_nat_alt)
    then show "ensures rd (resolve_entry rd psize s y)
        (\<lambda>s. case s of (bs, packs) \<Rightarrow> packs_ok rd packs \<and> patched rd (unat psize) start (xs @ [y]) bs)"
      unfolding bs(1) using assms(3) es by (intro ensures_resolve_entry [OF assms(1) bs(2,3)]) auto
  qed
  then show ?thesis by (rule ensures_weaken) auto
qed

section \<open>The resolved image\<close>

definition checkpoint_reference :: "checkpoint \<Rightarrow> object_reference" where
  "checkpoint_reference cp =
     \<lparr>or_uri = cp_uri cp, or_sha256 = cp_sha256 cp, or_length = Some (cp_length cp), or_media_type = Some CHECKPOINT_MEDIA_TYPE\<rparr>"

text \<open>The base checkpoint a generation names: its object, its index and the identity that the database states.\<close>

definition checkpoint_named :: "reader \<Rightarrow> generation \<Rightarrow> stored_object \<Rightarrow> bool" where
  "checkpoint_named rd g o' =
     (let img = g_metadata_image g; cp = mi_checkpoint img; bs = so_bytes o' in
      read_as rd (checkpoint_reference cp) o' \<and> 4096 \<le> length bs \<and> length bs mod 4096 = 0 \<and> checkpoint_indexed rd img bs
      \<and> 0 \<le> sint (cp_table_version cp)
      \<and> rd_query rd bs = Inr (id_as_bytes (g_table_id g), cp_table_version cp, 4096, u64_of_usize (length bs div 4096)))"

lemma ensures_resolve_checkpoint:
  assumes "reader_ok rd" "mi_page_size (g_metadata_image g) = 4096"
  shows "ensures rd (resolve_checkpoint rd g) (checkpoint_named rd g)"
proof -
  have query: "ensures rd (io_of (lift (rd_query rd bs))) (\<lambda>v. rd_query rd bs = Inr v)" for bs
    by (rule ensures_lift)
  show ?thesis
    unfolding resolve_checkpoint_def Let_def assms(2) checkpoint_reference_def [symmetric]
    by (rule ensures_bind [OF ensures_read [OF assms(1)]])
      (auto intro!: ensures_corrupt ensures_bind [OF ensures_verify_index [OF assms(1)]] ensures_bind [OF query] ensures_return
        simp: checkpoint_named_def Let_def assms(2) not_less split: if_splits)
qed

lemma flatten_snd: "tree_inv t \<Longrightarrow> flatten_tree t [] = keyed (tree_entries t)"
  using tree_inv_bounded [of t] bt_extend_sorted [of "[]" "keyed (tree_entries t)"]
  by (simp add: flatten_entries bounded_entries_def bt_ok_def comp_def)

definition tree_list :: "tree option \<Rightarrow> page_map_entry list" where
  "tree_list t = (case t of None \<Rightarrow> [] | Some t \<Rightarrow> tree_entries t)"

text \<open>The tree belongs to the root that the image names, and maps only pages of the image.\<close>

definition tree_of :: "reader \<Rightarrow> metadata_image \<Rightarrow> tree option \<Rightarrow> bool" where
  "tree_of rd img t =
     (case t of
        None \<Rightarrow> mi_page_map img = None
      | Some t \<Rightarrow> tree_inv t \<and> tree_named rd t \<and> map_option root_reference (mi_page_map img) = Some (t_reference t))"

lemma ensures_resolve_tree:
  assumes "reader_ok rd"
  shows "ensures rd (resolve_tree rd img len base)
    (\<lambda>t. tree_of rd img t \<and> (t = None \<longrightarrow> len = base) \<and> ascending (tree_list t)
       \<and> (\<forall>e \<in> set (tree_list t). 0 < pme_page_number e \<and> pme_page_number e \<le> mi_page_count img))"
proof (cases "mi_page_map img")
  case None
  then show ?thesis
    by (auto simp: resolve_tree_def tree_of_def tree_list_def intro!: ensures_corrupt ensures_return)
next
  case (Some root)
  have tree: "tree_of rd img (Some t) \<and> ascending (tree_list (Some t))
      \<and> (\<forall>e \<in> set (tree_list (Some t)). 0 < pme_page_number e \<and> pme_page_number e \<le> mi_page_count img)"
    if "loaded rd (root_reference root) 0 (mi_page_count img) t" for t
  proof -
    have t: "tree_inv t" "tree_named rd t" "0 < t_min t" "t_max t \<le> mi_page_count img" "t_reference t = root_reference root"
      using that by (auto simp: loaded_def)
    have b: "bounded_entries (tree_entries t) (t_min t) (t_max t)" by (rule tree_inv_bounded [OF t(1)])
    have "t_min t \<le> pme_page_number e \<and> pme_page_number e \<le> t_max t" if "e \<in> set (tree_entries t)" for e
      using b that ascending_hd_last [of "tree_entries t" e] by (auto simp: bounded_entries_def)
    then show ?thesis
      using t b Some by (force simp: tree_of_def tree_list_def bounded_entries_def)
  qed
  show ?thesis
    unfolding resolve_tree_def Some option.case
    by (rule ensures_bind [OF ensures_load_tree [OF assms]]) (use tree in \<open>auto intro!: ensures_return\<close>)
qed

lemma numbers_distinct: "ascending es \<Longrightarrow> distinct (map entry_number es)"
  by (induction es) (auto simp: word_less_nat_alt)

text \<open>Pages past the base are all mapped when their number is right.\<close>

lemma all_extended:
  assumes "ascending es" "\<forall>e \<in> set es. pme_page_number e \<le> count"
    and "length (filter (\<lambda>e. base < entry_number e) es) = unat count - base"
    and "base < p" "p \<le> unat count"
  shows "p \<in> entry_number ` set es"
proof -
  let ?es = "filter (\<lambda>e. base < entry_number e) es"
  have "distinct (map entry_number ?es)" using numbers_distinct [OF assms(1)] by (rule distinct_map_filter)
  then have "card (entry_number ` set ?es) = unat count - base"
    using assms(3) distinct_card [of "map entry_number ?es"] by simp
  moreover have "entry_number ` set ?es \<subseteq> {base<..unat count}"
    using assms(2) by (auto simp: word_le_nat_alt)
  ultimately have "entry_number ` set ?es = {base<..unat count}"
    by (intro card_subset_eq) auto
  with assms(4,5) have "p \<in> entry_number ` set ?es" by simp
  then show ?thesis by auto
qed

text \<open>
  The image a generation stands for: of the length it names, on the checkpoint it names, with the root hash it records. The tree is the
  one at the root that the image names, each node decoded from the object its reference names. Every page that the tree maps is
  the one its entry takes out of its pack and has the hash of the entry, every other page is that page of the checkpoint, and the
  header agrees on the number of pages.
\<close>

definition resolved :: "reader \<Rightarrow> generation \<Rightarrow> resolved_generation \<Rightarrow> bool" where
  "resolved rd g r =
     (let img = g_metadata_image g; base = so_bytes (rg_checkpoint r) in
      checkpoint_named rd g (rg_checkpoint r)
      \<and> image_root_hash (rd_ext rd) (g_table_id g) (g_table_version g) 4096 (mi_page_count img) (cp_sha256 (mi_checkpoint img))
          (map_option pmr_sha256 (mi_page_map img)) = mi_image_root_sha256 img
      \<and> length (rg_bytes r) = unat (mi_page_count img) * 4096
      \<and> be_val (take 4 (drop 28 (rg_bytes r))) = unat (mi_page_count img)
      \<and> tree_of rd img (rg_tree r)
      \<and> (\<forall>p \<in> {1..unat (mi_page_count img)}.
           case root_map (rg_tree r) (word_of_nat p) of
             Some e \<Rightarrow> entry_stored rd 4096 e (page_at 4096 (rg_bytes r) p)
           | None \<Rightarrow> p * 4096 \<le> length base \<and> page_at 4096 (rg_bytes r) p = page_at 4096 base p))"

definition root_recorded :: "reader \<Rightarrow> generation \<Rightarrow> bool" where
  "root_recorded rd g =
     (let img = g_metadata_image g in
      image_root_hash (rd_ext rd) (g_table_id g) (g_table_version g) 4096 (mi_page_count img) (cp_sha256 (mi_checkpoint img))
          (map_option pmr_sha256 (mi_page_map img)) = mi_image_root_sha256 img)"

lemma extended_count:
  assumes "ascending es" "\<forall>e \<in> set es. 0 < pme_page_number e \<and> pme_page_number e \<le> count"
    and "checked_add base 1 = Some first_new"
    and "u64_of_usize (length (filter (\<lambda>(n, _). first_new \<le> n) (keyed es))) = (if count \<le> base then 0 else count - base)"
  shows "length (filter (\<lambda>e. unat base < entry_number e) es) = unat count - unat base"
proof -
  let ?es = "filter (\<lambda>e. unat base < entry_number e) es"
  have first: "unat first_new = unat base + 1" using unat_checked_add [OF assms(3)] by simp
  have "filter (\<lambda>(n, _). first_new \<le> n) (keyed es) = keyed (filter (\<lambda>e. first_new \<le> pme_page_number e) es)"
    by (simp add: filter_map comp_def)
  moreover have "filter (\<lambda>e. first_new \<le> pme_page_number e) es = ?es"
    by (simp add: word_le_nat_alt first Suc_le_eq)
  ultimately have len: "u64_of_usize (length ?es) = (if count \<le> base then 0 else count - base)"
    using assms(4) by simp
  have "distinct (map entry_number ?es)" using numbers_distinct [OF assms(1)] by (rule distinct_map_filter)
  then have "length ?es = card (entry_number ` set ?es)" using distinct_card [of "map entry_number ?es"] by simp
  also have "\<dots> \<le> card {0<..unat count}"
    by (rule card_mono) (use assms(2) in \<open>auto simp: word_le_nat_alt\<close>)
  finally have "length ?es < 2 ^ 64" using unat_lt_2p [of count] by (simp del: unat_u64_lt)
  then have "length ?es = unat (u64_of_usize (length ?es))" by (simp add: u64_of_usize_def unat_of_nat)
  also have "\<dots> = unat count - unat base"
    unfolding len by (auto simp: word_le_nat_alt unat_sub_if_size)
  finally show ?thesis .
qed

lemma start_pages:
  assumes "0 < p" "p * n \<le> length base" "p * n \<le> len"
  shows "page_at n (copy_at 0 (take (min len (length base)) base) (replicate len 0)) p = page_at n base p"
proof -
  have "(p - 1) * n + n = p * n" using assms(1) by (cases p) auto
  then have "n \<le> min len (length base) - (p - 1) * n" using assms by linarith
  then show ?thesis using assms by (simp add: page_at_def copy_at_def drop_take min_absorb1)
qed

lemma header_count:
  assumes "get_range bs 28 32 = Some h" "u64_from_u32 (u32_from_be_bytes h) = count"
  shows "be_val (take 4 (drop 28 bs)) = unat count"
proof -
  have h: "h = take 4 (drop 28 bs)" "length h = 4" using assms(1) by (auto simp: get_range_eq_Some)
  have "be_val h < 2 ^ 32" using be_val_lt [of h] h(2) by simp
  then have "unat (u32_from_be_bytes h) = be_val h" by (simp add: u32_from_be_bytes_def unat_of_nat)
  then show ?thesis using assms(2) h(1) by (metis unat_u64_from_u32)
qed

lemma root_map_list: "tree_of rd img t \<Longrightarrow> root_map t = page_map_of (tree_list t)"
  by (auto simp: root_map_def tree_of_def tree_list_def page_map_of_def flatten_forest_map forest_map_def
      split: option.splits)

lemma resolved_intro:
  fixes g base t bytes
  defines "count \<equiv> mi_page_count (g_metadata_image g)"
  assumes base: "checkpoint_named rd g base" and root: "root_recorded rd g"
    and tree: "tree_of rd (g_metadata_image g) t" "ascending (tree_list t)"
      "\<forall>e \<in> set (tree_list t). 0 < pme_page_number e \<and> pme_page_number e \<le> count"
    and ext: "length (filter (\<lambda>e. length (so_bytes base) div 4096 < entry_number e) (tree_list t))
      = unat count - length (so_bytes base) div 4096"
    and len: "len = unat count * 4096"
    and patch: "patched rd 4096 (copy_at 0 (take (min len (length (so_bytes base))) (so_bytes base)) (replicate len 0))
      (tree_list t) bytes"
    and head: "get_range bytes 28 32 = Some h" "u64_from_u32 (u32_from_be_bytes h) = count"
  shows "resolved rd g \<lparr>rg_checkpoint = base, rg_bytes = bytes, rg_tree = t\<rparr>"
proof -
  have mod0: "length (so_bytes base) mod 4096 = 0" using base by (simp add: checkpoint_named_def Let_def)
  have page: "case page_map_of (tree_list t) (word_of_nat p) of
         Some e \<Rightarrow> entry_stored rd 4096 e (page_at 4096 bytes p)
       | None \<Rightarrow> p * 4096 \<le> length (so_bytes base) \<and> page_at 4096 bytes p = page_at 4096 (so_bytes base) p"
    if p: "p \<in> {1..unat count}" for p
  proof (cases "page_map_of (tree_list t) (word_of_nat p)")
    case None
    have num: "unat (word_of_nat p :: u64) = p" using p unat_lt_2p [of count] by (simp add: unat_of_nat del: unat_u64_lt)
    have "word_of_nat p \<notin> pme_page_number ` set (tree_list t)"
      using None dom_page_map_of [of "tree_list t"] by (auto simp: domIff)
    then have out: "p \<notin> entry_number ` set (tree_list t)"
      using num by (auto simp: image_iff word_unat_eq_iff)
    have "p \<le> length (so_bytes base) div 4096"
      using all_extended [OF tree(2) _ ext, of p] tree(3) p out by force
    then have "p * 4096 \<le> length (so_bytes base)" using mod0 by (metis div_mult_mod_eq add.right_neutral mult_le_mono1)
    moreover have "p * 4096 \<le> len" using p len by simp
    ultimately show ?thesis
      using None patch out p start_pages [of p 4096 "so_bytes base" len] by (simp add: patched_def)
  next
    case (Some e)
    then have e: "e \<in> set (tree_list t)" "pme_page_number e = word_of_nat p"
      using page_map_of_Some [OF tree(2)] by auto
    then have "entry_number e = p" using p unat_lt_2p [of count] by (simp add: unat_of_nat del: unat_u64_lt)
    then show ?thesis using Some e(1) patch by (auto simp: patched_def)
  qed
  have "length bytes = unat count * 4096" using patch len by (simp add: patched_def copy_at_def)
  then show ?thesis
    unfolding resolved_def Let_def resolved_generation.select_convs root_map_list [OF tree(1)] count_def [symmetric]
    using base root [unfolded root_recorded_def Let_def, folded count_def] tree(1) header_count [OF head] page by blast
qed

lemma ensures_assemble:
  assumes rd: "reader_ok rd"
    and base: "checkpoint_named rd g base" and root: "root_recorded rd g"
    and tree: "tree_of rd (g_metadata_image g) t" "ascending (tree_list t)"
      "\<forall>e \<in> set (tree_list t). 0 < pme_page_number e \<and> pme_page_number e \<le> mi_page_count (g_metadata_image g)"
    and ext: "length (filter (\<lambda>e. length (so_bytes base) div 4096 < entry_number e) (tree_list t))
      = unat (mi_page_count (g_metadata_image g)) - length (so_bytes base) div 4096"
    and len: "len = unat (mi_page_count (g_metadata_image g)) * 4096" "len \<noteq> 0"
  shows "ensures rd (io_bind (io_fold (resolve_entry rd 4096)
        (copy_at 0 (take (min len (length (so_bytes base))) (so_bytes base)) (replicate len 0), [])
        (map snd (case t of None \<Rightarrow> [] | Some t \<Rightarrow> flatten_tree t []))) (\<lambda>(bytes, _).
      io_bind (io_some (get_range bytes 28 32)) (\<lambda>h.
        if u64_from_u32 (u32_from_be_bytes h) \<noteq> mi_page_count (g_metadata_image g)
        then corrupt ''resolved header page count mismatch''
        else io_return \<lparr>rg_checkpoint = base, rg_bytes = bytes, rg_tree = t\<rparr>))) (resolved rd g)"
proof -
  let ?img = "g_metadata_image g"
  have psize: "unat (4096 :: u32) = 4096" by simp
  let ?start = "copy_at 0 (take (min len (length (so_bytes base))) (so_bytes base)) (replicate len 0)"
  have start: "length ?start = len" by (simp add: copy_at_def)
  have es: "map snd (case t of None \<Rightarrow> [] | Some t \<Rightarrow> flatten_tree t []) = tree_list t"
    using tree(1) by (auto simp: tree_list_def tree_of_def flatten_snd comp_def split: option.split)
  have "\<forall>e \<in> set (tree_list t). 0 < entry_number e \<and> entry_number e * unat (4096 :: u32) \<le> length ?start"
    unfolding start using tree(3) len(1) by (auto simp: word_less_nat_alt word_le_nat_alt)
  note fold = ensures_resolve_entries [OF rd tree(2) this]
  show ?thesis unfolding es
  proof (rule ensures_bind [OF fold])
    fix s
    assume "case s of (bs, _) \<Rightarrow> patched rd (unat (4096 :: u32)) ?start (tree_list t) bs"
    then obtain bytes packs where s: "s = (bytes, packs)" and patch: "patched rd 4096 ?start (tree_list t) bytes"
      by (cases s) (simp add: psize)
    have "length bytes = len" using patch start by (simp add: patched_def)
    then have "\<exists>h. get_range bytes 28 32 = Some h" using len by (cases "unat (mi_page_count ?img)") (auto simp: get_range_def)
    then obtain h where h: "get_range bytes 28 32 = Some h" by blast
    show "ensures rd (case s of (bytes, _) \<Rightarrow> io_bind (io_some (get_range bytes 28 32)) (\<lambda>h.
        if u64_from_u32 (u32_from_be_bytes h) \<noteq> mi_page_count ?img then corrupt ''resolved header page count mismatch''
        else io_return \<lparr>rg_checkpoint = base, rg_bytes = bytes, rg_tree = t\<rparr>)) (resolved rd g)"
      unfolding s prod.case
      by (rule ensures_bind [OF ensures_some [OF h, where Q = "\<lambda>v. v = h"]], simp)
        (use resolved_intro [OF base root tree ext len(1) patch h] in \<open>auto intro!: ensures_corrupt ensures_return\<close>)
  qed
qed

lemma ensures_resolve_generation:
  assumes rd: "reader_ok rd" and g: "mi_page_size (g_metadata_image g) = 4096"
  shows "ensures rd (resolve_generation rd g) (resolved rd g)"
proof -
  let ?count = "mi_page_count (g_metadata_image g)"
  have psize: "unat (4096 :: u32) = 4096" by simp
  have len: "ensures rd (io_or m (Option.bind (usize_try_from ?count) (\<lambda>n. usize_checked_mul n 4096)))
      (\<lambda>l. l = unat ?count * 4096)" for m
    by (rule ensures_or) (auto simp: bind_eq_Some_conv usize_try_from_def usize_checked_mul_def split: if_splits)
  have base: "\<exists>v. checked_add (u64_of_usize (n div 4096)) 1 = Some v" "unat (u64_of_usize (n div 4096)) = n div 4096"
    if "n < usize_bound" for n
    using that by (auto simp: u64_of_usize_def usize_bound_def checked_add_def unat_of_nat)
  have list: "(case t of None \<Rightarrow> [] | Some t \<Rightarrow> flatten_tree t []) = keyed (tree_list t)" if "tree_of rd (g_metadata_image g) t" for t
    using that by (auto simp: tree_of_def tree_list_def flatten_snd split: option.splits)
  have tail: "ensures rd (io_bind (io_some (checked_add (u64_of_usize (length (so_bytes o') div 4096)) 1)) (\<lambda>first_new.
      if u64_of_usize (length (filter (\<lambda>(n, _). first_new \<le> n) (case t of None \<Rightarrow> [] | Some t \<Rightarrow> flatten_tree t [])))
           \<noteq> (if ?count \<le> u64_of_usize (length (so_bytes o') div 4096) then 0
              else ?count - u64_of_usize (length (so_bytes o') div 4096))
      then corrupt m else if \<not> rd_reserve rd l then corrupt m' else k t))
      (resolved rd g)"
    if o': "length (so_bytes o') < usize_bound"
      and t: "tree_of rd (g_metadata_image g) t" "ascending (tree_list t)"
        "\<forall>e \<in> set (tree_list t). 0 < pme_page_number e \<and> pme_page_number e \<le> ?count"
      and k: "length (filter (\<lambda>e. length (so_bytes o') div 4096 < entry_number e) (tree_list t))
        = unat ?count - length (so_bytes o') div 4096 \<Longrightarrow> ensures rd (k t) (resolved rd g)"
    for o' t l m m' and k :: "tree option \<Rightarrow> resolved_generation io"
  proof -
    obtain v where v: "checked_add (u64_of_usize (length (so_bytes o') div 4096)) 1 = Some v" using base(1) [OF o'] by blast
    show ?thesis
      unfolding list [OF t(1)]
      by (rule ensures_bind [OF ensures_some [OF v, where Q = "\<lambda>w. w = v"]], simp)
        (use k extended_count [OF t(2,3) v] in \<open>auto simp: base(2) [OF o'] intro!: ensures_corrupt\<close>)
  qed
  show ?thesis
    unfolding resolve_generation_def Let_def g psize
    by (intro ensures_bind [OF ensures_resolve_checkpoint [OF rd g]] ensures_if ensures_corrupt
        ensures_bind [OF len] ensures_bind [OF ensures_resolve_tree [OF rd]] tail ensures_assemble [OF rd])
      (auto simp: checkpoint_named_def read_as_def authentic_def root_recorded_def Let_def)
qed

text \<open>
  C8: Resolving a generation of the runtime profile. Whatever the store holds, and with a cache of objects read from it, resolution does
  not panic; the cache it leaves holds, under each URI, the object the store has there, with its verified hash; and an image it
  returns is the one the generation names. Its checkpoint is the object at the URI the generation gives, with the hash, length, page
  index and database identity of the generation; every node of its tree is decoded from the object stored at the node's reference and has the hash and
  length of that reference, from the root in the generation down; every page the tree maps is the one its entry takes out of the pack
  stored at the entry's reference and has the hash of the entry; every other page is that page of the checkpoint, and no page is
  made up; the root hash and the page count agree with the generation.\<close>

theorem resolve_generation_correct:
  assumes "reader_ok rd" "cache_ok rd c" "generation_validate_runtime_profile g = Inr ()"
  shows "cache_ok rd (snd (resolve_generation rd g c))
    \<and> (case fst (resolve_generation rd g c) of
         Inl f \<Rightarrow> f \<noteq> Panicked
       | Inr r \<Rightarrow> resolved rd g r)"
proof -
  have "mi_page_size (g_metadata_image g) = 4096"
    using assms(3) by (auto simp: generation_validate_runtime_profile_def Let_def split: if_splits)
  from ensures_resolve_generation [OF assms(1) this] show ?thesis
    using assms(2) by (auto simp: ensures_def safe_def split: sum.split)
qed

section \<open>A sample image\<close>

definition sample_image_bytes :: "byte list" where
  "sample_image_bytes = sqlite_magic @ replicate 12 0 @ [0, 0, 0, 1] @ replicate 4064 0"

definition sample_stored :: stored_object where
  "sample_stored = \<lparr>so_bytes = sample_image_bytes, so_version = content_version sample_externals sample_image_bytes\<rparr>"

definition sample_image :: metadata_image where
  "sample_image =
     \<lparr>mi_codec = ''otmp.metadata.sqlite3-cow.v1'', mi_page_size = 4096, mi_page_count = 1,
      mi_checkpoint = \<lparr>cp_table_version = 3, cp_uri = RelativeUri ''k'',
        cp_sha256 = digest sample_externals sample_image_bytes, cp_length = 4096\<rparr>,
      mi_page_map = None, mi_checkpoint_page_index = None,
      mi_image_root_sha256 = image_root_hash sample_externals sample_id 3 4096 1
        (digest sample_externals sample_image_bytes) None\<rparr>"

definition sample_resolved_generation :: generation where
  "sample_resolved_generation = sample_generation\<lparr>g_metadata_image := sample_image\<rparr>"

definition sample_reader :: reader where
  "sample_reader =
     \<lparr>rd_ext = sample_externals, rd_read = (\<lambda>_. Inr sample_stored),
      rd_query = (\<lambda>_. Inr (id_as_bytes sample_id, 3, 4096, 1)), rd_reserve = (\<lambda>_. True)\<rparr>"

lemma sample_image_facts:
  "length sample_image_bytes = 4096" "take 16 sample_image_bytes = sqlite_magic"
  "get_range sample_image_bytes 28 32 = Some [0, 0, 0, 1]"
  by (simp_all add: sample_image_bytes_def sqlite_magic_def get_range_def)

lemma sample_reader_ok: "reader_ok sample_reader" "cache_ok sample_reader None"
  "generation_validate_runtime_profile sample_resolved_generation = Inr ()"
  by (simp_all add: reader_ok_def sample_reader_def sample_stored_def sample_image_facts usize_bound_def cache_ok_def
      generation_validate_runtime_profile_def sample_resolved_generation_def sample_generation_def sample_image_def)

lemma sample_resolves:
  "resolve_generation sample_reader sample_resolved_generation None =
     (Inr \<lparr>rg_checkpoint = sample_stored, rg_bytes = sample_image_bytes, rg_tree = None\<rparr>, None)"
proof -
  have one: "u64_of_usize (Suc 0) = 1" "u64_of_usize 4096 = 4096" "u64_of_usize 0 = 0" by (simp_all add: u64_of_usize_def)
  have header: "u64_from_u32 (u32_from_be_bytes [0, 0, 0, 1]) = 1"
    by (simp add: u32_from_be_bytes_def be_val_def u64_from_u32_def)
  have add: "checked_add (1 :: u64) 1 = Some 2" by (simp add: checked_add_def)
  have "resolve_checkpoint sample_reader sample_resolved_generation None = (Inr sample_stored, None)"
    by (simp add: resolve_checkpoint_def Let_def sample_reader_def sample_resolved_generation_def sample_generation_def sample_image_def
        io_bind_def read_metadata_def verified_read_def sample_stored_def sample_image_facts one lift_def
        verify_checkpoint_index_def io_return_def io_of_def)
  then show ?thesis
    by (simp add: resolve_generation_def Let_def io_bind_def sample_reader_def sample_resolved_generation_def sample_generation_def
        sample_image_def sample_stored_def sample_image_facts io_or_def io_of_def usize_checked_mul_def usize_bound_def
        resolve_tree_def io_return_def io_some_def one add copy_at_def header lift_def)
qed

theorem resolve_generation_correct_witness:
  "reader_ok sample_reader \<and> generation_validate_runtime_profile sample_resolved_generation = Inr ()
    \<and> (\<exists>r. fst (resolve_generation sample_reader sample_resolved_generation None) = Inr r
         \<and> resolved sample_reader sample_resolved_generation r)"
  using resolve_generation_correct [OF sample_reader_ok] sample_resolves sample_reader_ok
  by (simp add: sample_reader_def)

end
