(* ===== verification/Publication.thy ===== *)
theory Publication
  imports Transactions Image_Resolve
begin

text \<open>
  Pinning a table and publishing a transaction, \<^verbatim>\<open>otmp/src/runtime.rs\<close>: reading the head and the objects it names,
  the uploads of a candidate, and the state machine around the conditional write of the head with its conflicts,
  lost answers, reconciliations and rebases.

  The store is shared. A client's calls are interleaved with the steps of other clients: a \<open>world\<close> holds the
  store and a schedule, one list of foreign steps for each call, which run before the call. The objects that a pin
  reads after the head are immutable, so they are read at one moment, after another list of foreign steps. The
  head writes of the client itself are recorded in \<open>wd_trace\<close>, which the code does not have.

  Other parts are arguments: the queries that SQLite answers (\<open>database\<close>), the derived deserializers, and the
  construction of a candidate, which draws fresh identifiers and so may differ from one rebase to the next. The
  counters of the loops are checked additions. Failpoints and qualification probes are left out.
\<close>

section \<open>Data\<close>

record retry_policy =
  rp_maximum_rebases :: u32
  rp_maximum_indeterminate_reconciliations :: u32

definition retry_policy_default :: retry_policy where
  "retry_policy_default = \<lparr>rp_maximum_rebases = 8, rp_maximum_indeterminate_reconciliations = 3\<rparr>"

record expected_image =
  ei_table_id :: id
  ei_table_version :: u64
  ei_semantic_state :: sha256
  ei_commit_id :: id
  ei_commit_hash :: sha256
  ei_commit_uri :: string
  ei_reader_features_json :: string
  ei_writer_features_json :: string
  ei_previous_semantic_state :: "sha256 option"

text \<open>What the runtime asks of the SQLite image with the given bytes.\<close>

record database =
  db_materialize :: "byte list \<Rightarrow> (runtime_error, unit) result"
  db_validate :: "byte list \<Rightarrow> expected_image \<Rightarrow> (runtime_error, unit) result"
  db_validate_commit_projection :: "byte list \<Rightarrow> semantic_commit \<Rightarrow> (runtime_error, unit) result"
  db_main_snapshot :: "byte list \<Rightarrow> (runtime_error, byte list option) result"
  db_idempotency_row :: "byte list \<Rightarrow> string \<Rightarrow> (runtime_error, (byte list \<times> string) option) result"
  db_commit_state :: "byte list \<Rightarrow> string \<Rightarrow> (runtime_error, byte list) result"
  db_state_of_commit :: "byte list \<Rightarrow> byte list \<Rightarrow> (runtime_error, byte list) result"
  db_open :: "byte list \<Rightarrow> (runtime_error, connection) result"
  db_meta_row :: "byte list \<Rightarrow> (runtime_error, i64 \<times> byte list option \<times> i64) result"
  db_field_type_rows :: "byte list \<Rightarrow> u32 \<Rightarrow> (runtime_error, (runtime_error, i64 \<times> string) result list) result"
  db_summaries_after :: "byte list \<Rightarrow> i64 \<Rightarrow> (runtime_error, (runtime_error, string) result list) result"

record runtime =
  rt_wire :: wire
  rt_head_json :: "byte list \<Rightarrow> (string, head) result"
  rt_commit_json :: "byte list \<Rightarrow> (string, semantic_commit) result"
  rt_generation_json :: "byte list \<Rightarrow> (string, generation) result"
  rt_utf8_error :: "byte list \<Rightarrow> string"
  rt_checkpoint_query :: "byte list \<Rightarrow> (runtime_error, byte list \<times> i64 \<times> u32 \<times> u64) result"
  rt_reserve :: "nat \<Rightarrow> bool"
  rt_db :: database
  rt_policy :: retry_policy

abbreviation rt_ext :: "runtime \<Rightarrow> externals" where
  "rt_ext rt \<equiv> w_ext (rt_wire rt)"

record pinned_table =
  pt_raw_head :: "byte list"
  pt_head_version :: object_version
  pt_head :: head
  pt_commit :: semantic_commit
  pt_generation :: generation
  pt_current_main :: "id option"
  pt_checkpoint :: stored_object
  pt_page_tree :: "tree option"
  pt_resolved :: "byte list"

datatype file_format = Parquet

fun format_as_str :: "file_format \<Rightarrow> string" where
  "format_as_str Parquet = ''parquet''"

record staged_file =
  sf_table_id :: id
  sf_ordinal :: nat
  sf_file_id :: id
  sf_uri :: relative_uri
  sf_version :: object_version
  sf_sha256 :: sha256
  sf_length :: u64
  sf_format :: file_format
  sf_object_identity :: "string option"

record 'r candidate =
  cd_semantic_state :: sha256
  cd_commit_uri :: relative_uri
  cd_commit_bytes :: "byte list"
  cd_image_artifacts :: "artifact list"
  cd_generation_uri :: relative_uri
  cd_generation_bytes :: "byte list"
  cd_head_bytes :: "byte list"
  cd_result :: 'r

section \<open>Calls to a shared store\<close>

record world =
  wd_store :: memory_state
  wd_env :: "mem_action list list"
  wd_trace :: "(memory_state \<times> conditional_outcome \<times> memory_state) list"

definition interfere :: "externals \<Rightarrow> world \<Rightarrow> world" where
  "interfere x w =
     (case wd_env w of
        [] \<Rightarrow> w
      | actions # rest \<Rightarrow> w\<lparr>wd_store := fold (mem_exec x) actions (wd_store w), wd_env := rest\<rparr>)"

definition call :: "externals \<Rightarrow> (memory_state \<Rightarrow> 'a \<times> memory_state) \<Rightarrow> world \<Rightarrow> 'a \<times> world" where
  "call x operation w =
     (let w = interfere x w in
      case operation (wd_store w) of (r, s) \<Rightarrow> (r, w\<lparr>wd_store := s\<rparr>))"

definition call_replace_head :: "externals \<Rightarrow> object_version \<Rightarrow> byte list \<Rightarrow> world \<Rightarrow> conditional_outcome \<times> world" where
  "call_replace_head x expected bs w =
     (let w = interfere x w in
      case replace_head x expected bs (wd_store w) of
        (outcome, s) \<Rightarrow> (outcome, w\<lparr>wd_store := s, wd_trace := wd_trace w @ [(wd_store w, outcome, s)]\<rparr>))"

section \<open>Pinning\<close>

definition supported_features :: "string list" where
  "supported_features = [CORE_FEATURE, PARQUET_FEATURE, SQLITE_COW_FEATURE, ''otmp.refs.v1'']"

definition validate_head_features :: "head \<Rightarrow> (runtime_error, unit) result" where
  "validate_head_features head =
     map_err ProtocolErr
       (and_then (head_validate head supported_features) (\<lambda>_.
          require_supported (h_required_writer_features head) supported_features))"

definition idempotency :: "database \<Rightarrow> byte list \<Rightarrow> string \<Rightarrow> (runtime_error, (sha256 \<times> string) option) result" where
  "idempotency db img key =
     and_then (db_idempotency_row db img key) (\<lambda>row.
       case row of
         None \<Rightarrow> Inr None
       | Some (hash, result) \<Rightarrow>
           if length hash \<noteq> 32 then Inl (Corrupt ''invalid idempotency hash'')
           else Inr (Some (Sha256 hash, result)))"

definition query_optional_id :: "externals \<Rightarrow> (runtime_error, byte list option) result \<Rightarrow> (runtime_error, id option) result" where
  "query_optional_id x row =
     and_then row (\<lambda>blob.
       case blob of None \<Rightarrow> Inr None | Some b \<Rightarrow> and_then (id_from_blob x b) (\<lambda>i. Inr (Some i)))"

definition recomputed_state :: "wire \<Rightarrow> semantic_commit \<Rightarrow> (runtime_error, sha256) result" where
  "recomputed_state w commit =
     and_then (commit_body w commit) (\<lambda>body.
       Inr (case sc_previous_semantic_state_sha256 commit of
              Some previous \<Rightarrow> next_state_hash (w_ext w) previous body
            | None \<Rightarrow> genesis_state_hash (w_ext w) body))"

definition runtime_fault :: "(protocol_error fault, 'a) result \<Rightarrow> (runtime_error fault, 'a) result" where
  "runtime_fault r = map_err (\<lambda>e. case e of Fail p \<Rightarrow> Fail (ProtocolErr p) | Panicked \<Rightarrow> Panicked) r"

text \<open>The checks between the head, the commit and the generation.\<close>

definition check_pin_objects :: "runtime \<Rightarrow> head \<Rightarrow> semantic_commit \<Rightarrow> generation \<Rightarrow> (runtime_error fault, unit) result" where
  "check_pin_objects rt head commit generation =
     and_then (lift (validate_head_features head)) (\<lambda>_.
     and_then (runtime_fault (commit_validate_runtime_profile (rt_wire rt) commit)) (\<lambda>_.
     if sc_table_id commit \<noteq> h_table_id head \<or> sc_table_version commit \<noteq> h_table_version head
        \<or> sc_semantic_state_sha256 commit \<noteq> h_semantic_state_sha256 head
        \<or> sc_required_reader_features_after_commit commit \<noteq> h_required_reader_features head
        \<or> sc_required_writer_features_after_commit commit \<noteq> h_required_writer_features head
     then Inl (Fail (Corrupt ''semantic commit does not match HEAD''))
     else
       and_then (lift (recomputed_state (rt_wire rt) commit)) (\<lambda>state.
       if state \<noteq> sc_semantic_state_sha256 commit then Inl (Fail (Corrupt ''semantic state hash mismatch''))
       else
         and_then (lift (map_err ProtocolErr (generation_validate_runtime_profile generation))) (\<lambda>_.
         if g_table_id generation \<noteq> h_table_id head \<or> g_table_version generation \<noteq> h_table_version head
            \<or> g_semantic_state_sha256 generation \<noteq> h_semantic_state_sha256 head
            \<or> g_semantic_commit generation \<noteq> h_semantic_commit head
         then Inl (Fail (Corrupt ''generation does not match HEAD''))
         else Inr ()))))"

text \<open>The questions to the materialized image.\<close>

definition check_pin_image :: "runtime \<Rightarrow> head \<Rightarrow> semantic_commit \<Rightarrow> byte list \<Rightarrow> (runtime_error, id option) result" where
  "check_pin_image rt head commit img =
     and_then (db_materialize (rt_db rt) img) (\<lambda>_.
     and_then (canonical_text (rt_wire rt) (rt_utf8_error rt) (features_value (h_required_reader_features head))) (\<lambda>readers.
     and_then (canonical_text (rt_wire rt) (rt_utf8_error rt) (features_value (h_required_writer_features head))) (\<lambda>writers.
     and_then (db_validate (rt_db rt) img
        \<lparr>ei_table_id = h_table_id head, ei_table_version = h_table_version head,
         ei_semantic_state = h_semantic_state_sha256 head, ei_commit_id = sc_commit_id commit,
         ei_commit_hash = or_sha256 (h_semantic_commit head),
         ei_commit_uri = uri_as_str (or_uri (h_semantic_commit head)),
         ei_reader_features_json = readers, ei_writer_features_json = writers,
         ei_previous_semantic_state = sc_previous_semantic_state_sha256 commit\<rparr>) (\<lambda>_.
     and_then (db_validate_commit_projection (rt_db rt) img commit) (\<lambda>_.
       query_optional_id (rt_ext rt) (db_main_snapshot (rt_db rt) img))))))"

definition load_pin_objects :: "runtime \<Rightarrow> reader \<Rightarrow> stored_object \<Rightarrow> head \<Rightarrow> semantic_commit \<Rightarrow> generation \<Rightarrow> pinned_table io" where
  "load_pin_objects rt rd raw_head head commit generation =
     io_bind (io_of (check_pin_objects rt head commit generation)) (\<lambda>_.
     io_bind (resolve_generation rd generation) (\<lambda>physical.
     io_bind (io_of (lift (check_pin_image rt head commit (rg_bytes physical)))) (\<lambda>current_main.
       io_return
         \<lparr>pt_raw_head = so_bytes raw_head, pt_head_version = so_version raw_head, pt_head = head,
          pt_commit = commit, pt_generation = generation, pt_current_main = current_main,
          pt_checkpoint = rg_checkpoint physical, pt_page_tree = rg_tree physical, pt_resolved = rg_bytes physical\<rparr>)))"

definition io_json :: "runtime \<Rightarrow> (byte list \<Rightarrow> (string, 'a) result) \<Rightarrow> byte list \<Rightarrow> 'a io" where
  "io_json rt typed bs = io_protocol (from_slice_canonical (w_serde (rt_wire rt)) (rt_ext rt) typed bs)"

definition load_pin :: "runtime \<Rightarrow> reader \<Rightarrow> stored_object \<Rightarrow> head \<Rightarrow> pinned_table io" where
  "load_pin rt rd raw_head head =
     io_bind (io_of (lift (validate_head_features head))) (\<lambda>_.
     io_bind (read_metadata rd (h_semantic_commit head)) (\<lambda>commit_object.
     io_bind (io_json rt (rt_commit_json rt) (so_bytes commit_object)) (\<lambda>commit.
     io_bind (read_metadata rd (h_metadata_generation head)) (\<lambda>generation_object.
     io_bind (io_json rt (rt_generation_json rt) (so_bytes generation_object)) (\<lambda>generation.
       load_pin_objects rt rd raw_head head commit generation)))))"

definition store_reader :: "runtime \<Rightarrow> memory_state \<Rightarrow> reader" where
  "store_reader rt s =
     \<lparr>rd_ext = rt_ext rt, rd_read = (\<lambda>key. fst (mem_read (rt_ext rt) key s)),
      rd_query = rt_checkpoint_query rt, rd_reserve = rt_reserve rt\<rparr>"

definition pin :: "runtime \<Rightarrow> world \<Rightarrow> (runtime_error fault, pinned_table) result \<times> world" where
  "pin rt w =
     (case uri_from_str head_key of
        Inl e \<Rightarrow> (Inl (Fail (ProtocolErr e)), w)
      | Inr key \<Rightarrow>
          (case call (rt_ext rt) (mem_read (rt_ext rt) key) w of
             (Inl e, w) \<Rightarrow> (Inl (Fail (StorageErr e)), w)
           | (Inr raw_head, w) \<Rightarrow>
               (let w = interfere (rt_ext rt) w in
                (fst (io_bind (io_json rt (rt_head_json rt) (so_bytes raw_head)) (\<lambda>head.
                        load_pin rt (store_reader rt (wd_store w)) raw_head head) None), w))))"

section \<open>Replay\<close>

definition check_idempotency :: "runtime \<Rightarrow> (byte list \<Rightarrow> (string, 'r) result) \<Rightarrow> pinned_table \<Rightarrow> string \<Rightarrow> sha256
    \<Rightarrow> (runtime_error, 'r option) result" where
  "check_idempotency rt typed pinned key intent =
     and_then (idempotency (rt_db rt) (pt_resolved pinned) key) (\<lambda>row.
       case row of
         None \<Rightarrow> Inr None
       | Some (stored_hash, result) \<Rightarrow>
           if stored_hash \<noteq> intent then Inl IdempotencyConflict
           else
             and_then (map_err ProtocolErr (from_slice_canonical (w_serde (rt_wire rt)) (rt_ext rt) typed (as_bytes result)))
               (\<lambda>v. Inr (Some v)))"

definition replay :: "runtime \<Rightarrow> (byte list \<Rightarrow> (string, 'r) result) \<Rightarrow> pinned_table \<Rightarrow> string \<Rightarrow> sha256
    \<Rightarrow> (runtime_error, ('r \<times> sha256) option) result" where
  "replay rt typed pinned key intent =
     and_then (idempotency (rt_db rt) (pt_resolved pinned) key) (\<lambda>row.
       case row of
         None \<Rightarrow> Inr None
       | Some (stored_hash, result) \<Rightarrow>
           if stored_hash \<noteq> intent then Inl IdempotencyConflict
           else
             and_then (db_commit_state (rt_db rt) (pt_resolved pinned) key) (\<lambda>hash.
             and_then (map_err ProtocolErr (from_slice_canonical (w_serde (rt_wire rt)) (rt_ext rt) typed (as_bytes result))) (\<lambda>v.
             and_then (hash_from_blob hash) (\<lambda>h. Inr (Some (v, h))))))"

section \<open>Uploads\<close>

definition put_immutable :: "externals \<Rightarrow> relative_uri \<Rightarrow> byte list \<Rightarrow> world \<Rightarrow> (runtime_error, unit) result \<times> world" where
  "put_immutable x key bs w =
     (case call x (create_bytes x key bs) w of
        (Inr created, w) \<Rightarrow>
          (case call x (confirm_readable x key (co_sha256 created) (co_length created)) w of
             (r, w) \<Rightarrow> (and_then (map_err StorageErr r) (\<lambda>_. Inr ()), w))
      | (Inl (ImmutableConflict _), w) \<Rightarrow>
          (case call x (confirm_readable x key (digest x bs) (u64_of_usize (length bs))) w of
             (r, w) \<Rightarrow> (and_then (map_err StorageErr r) (\<lambda>_. Inr ()), w))
      | (Inl e, w) \<Rightarrow> (Inl (StorageErr e), w))"

fun put_all :: "externals \<Rightarrow> (relative_uri \<times> byte list) list \<Rightarrow> world \<Rightarrow> (runtime_error, unit) result \<times> world" where
  "put_all x [] w = (Inr (), w)"
| "put_all x ((key, bs) # rest) w =
     (case put_immutable x key bs w of
        (Inl e, w) \<Rightarrow> (Inl e, w)
      | (Inr _, w) \<Rightarrow> put_all x rest w)"

definition confirm_staged :: "externals \<Rightarrow> staged_file \<Rightarrow> world \<Rightarrow> (runtime_error, unit) result \<times> world" where
  "confirm_staged x f w =
     (case call x (confirm_readable x (sf_uri f) (sf_sha256 f) (sf_length f)) w of
        (Inl (VerificationFailed _), w) \<Rightarrow> (Inl FingerprintMismatch, w)
      | (Inl e, w) \<Rightarrow> (Inl (StorageErr e), w)
      | (Inr version, w) \<Rightarrow> (if version \<noteq> sf_version f then Inl FingerprintMismatch else Inr (), w))"

fun confirm_all :: "externals \<Rightarrow> staged_file list \<Rightarrow> world \<Rightarrow> (runtime_error, unit) result \<times> world" where
  "confirm_all x [] w = (Inr (), w)"
| "confirm_all x (f # rest) w =
     (case confirm_staged x f w of
        (Inl e, w) \<Rightarrow> (Inl e, w)
      | (Inr _, w) \<Rightarrow> confirm_all x rest w)"

text \<open>The objects of a candidate in the order of their upload.\<close>

definition candidate_objects :: "'r candidate \<Rightarrow> (relative_uri \<times> byte list) list" where
  "candidate_objects c =
     (cd_commit_uri c, cd_commit_bytes c) # map (\<lambda>a. (art_uri a, art_bytes a)) (cd_image_artifacts c)
       @ [(cd_generation_uri c, cd_generation_bytes c)]"

definition upload :: "externals \<Rightarrow> staged_file list \<Rightarrow> 'r candidate \<Rightarrow> world \<Rightarrow> (runtime_error, unit) result \<times> world" where
  "upload x staged c w =
     (case confirm_all x staged w of
        (Inl e, w) \<Rightarrow> (Inl e, w)
      | (Inr _, w) \<Rightarrow> put_all x (candidate_objects c) w)"

section \<open>The publication loop\<close>

type_synonym 'r outcome = "(runtime_error fault, 'r \<times> sha256) result"

text \<open>How the inner loop is left: by a return, or by \<^verbatim>\<open>break\<close> with the number of lost answers.\<close>

datatype 'r attempt = Returned "'r outcome" | Broken u32

text \<open>What a pinned table says after a lost answer: \<open>None\<close> when the loop goes on.\<close>

definition reconcile :: "runtime \<Rightarrow> (byte list \<Rightarrow> (string, 'r) result) \<Rightarrow> id \<Rightarrow> string \<Rightarrow> sha256 \<Rightarrow> pinned_table
    \<Rightarrow> pinned_table \<Rightarrow> u32 \<Rightarrow> 'r attempt option" where
  "reconcile rt typed table_id key intent parent current indeterminate =
     (if h_table_id (pt_head current) \<noteq> table_id
      then Some (Returned (Inl (Fail (SemanticConflict ''table identity changed during reconciliation''))))
      else case replay rt typed current key intent of
             Inl e \<Rightarrow> Some (Returned (Inl (Fail e)))
           | Inr (Some result) \<Rightarrow> Some (Returned (Inr result))
           | Inr None \<Rightarrow>
               if pt_head_version current = pt_head_version parent \<and> pt_raw_head current = pt_raw_head parent
               then if indeterminate \<le> rp_maximum_indeterminate_reconciliations (rt_policy rt) then None
                    else Some (Returned (Inl (Fail PublicationIndeterminate)))
               else Some (Broken indeterminate))"

function attempt_head :: "runtime \<Rightarrow> (byte list \<Rightarrow> (string, 'r) result) \<Rightarrow> id \<Rightarrow> string \<Rightarrow> sha256 \<Rightarrow> pinned_table
    \<Rightarrow> 'r candidate \<Rightarrow> u32 \<Rightarrow> world \<Rightarrow> 'r attempt \<times> world" where
  "attempt_head rt typed table_id key intent parent candidate indeterminate w =
     (case call_replace_head (rt_ext rt) (pt_head_version parent) (cd_head_bytes candidate) w of
        (Applied _, w) \<Rightarrow> (Returned (Inr (cd_result candidate, cd_semantic_state candidate)), w)
      | (Conflict _, w) \<Rightarrow> (Broken indeterminate, w)
      | (Indeterminate _, w) \<Rightarrow>
          (case checked_add indeterminate 1 of
             None \<Rightarrow> (Returned (Inl Panicked), w)
           | Some indeterminate \<Rightarrow>
               (case pin rt w of
                  (Inr current, w) \<Rightarrow>
                    (case reconcile rt typed table_id key intent parent current indeterminate of
                       Some a \<Rightarrow> (a, w)
                     | None \<Rightarrow> attempt_head rt typed table_id key intent parent candidate indeterminate w)
                | (Inl (Fail e), w) \<Rightarrow>
                    if indeterminate \<le> rp_maximum_indeterminate_reconciliations (rt_policy rt)
                    then attempt_head rt typed table_id key intent parent candidate indeterminate w
                    else (Returned (Inl (Fail PublicationIndeterminate)), w)
                | (Inl Panicked, w) \<Rightarrow> (Returned (Inl Panicked), w))))"
  by pat_completeness auto
termination
  by (relation "measure (\<lambda>(_, _, _, _, _, _, _, indeterminate, _). 2 ^ 32 - unat indeterminate)")
    (auto dest!: unat_checked_add intro!: diff_less_mono2 simp: unat_u32_lt)

declare attempt_head.simps [simp del]

text \<open>The error of a pin of the winner, when an answer was lost before.\<close>

definition winner_error :: "u32 \<Rightarrow> runtime_error fault \<Rightarrow> runtime_error fault" where
  "winner_error indeterminate e =
     (case e of
        Panicked \<Rightarrow> Panicked
      | Fail err \<Rightarrow> Fail (if indeterminate > 0 then PublicationIndeterminate else err))"

text \<open>The start of a round: an answer that is already there, or a candidate for the parent.\<close>

definition prepare :: "runtime \<Rightarrow> (byte list \<Rightarrow> (string, 'r) result) \<Rightarrow> id \<Rightarrow> string \<Rightarrow> sha256
    \<Rightarrow> (u32 \<Rightarrow> pinned_table \<Rightarrow> (runtime_error fault, 'r candidate) result) \<Rightarrow> pinned_table \<Rightarrow> u32
    \<Rightarrow> 'r outcome + 'r candidate" where
  "prepare rt typed table_id key intent build parent rebases =
     (if h_table_id (pt_head parent) \<noteq> table_id
      then Inl (Inl (Fail (SemanticConflict ''table identity changed during publication'')))
      else case replay rt typed parent key intent of
        Inl e \<Rightarrow> Inl (Inl (Fail e))
      | Inr (Some result) \<Rightarrow> Inl (Inr result)
      | Inr None \<Rightarrow> (case build rebases parent of Inl e \<Rightarrow> Inl (Inl e) | Inr candidate \<Rightarrow> Inr candidate))"

text \<open>The end of a round that was lost: an answer, or the number of the next round.\<close>

definition rebase_on :: "runtime \<Rightarrow> (byte list \<Rightarrow> (string, 'r) result) \<Rightarrow> id \<Rightarrow> string \<Rightarrow> sha256 \<Rightarrow> pinned_table \<Rightarrow> u32
    \<Rightarrow> 'r outcome + u32" where
  "rebase_on rt typed table_id key intent winner rebases =
     (if h_table_id (pt_head winner) \<noteq> table_id
      then Inl (Inl (Fail (SemanticConflict ''table identity changed after conflict'')))
      else case replay rt typed winner key intent of
        Inl e \<Rightarrow> Inl (Inl (Fail e))
      | Inr (Some result) \<Rightarrow> Inl (Inr result)
      | Inr None \<Rightarrow>
          (case checked_add rebases 1 of
             None \<Rightarrow> Inl (Inl Panicked)
           | Some rebases \<Rightarrow>
               if rebases > rp_maximum_rebases (rt_policy rt) then Inl (Inl (Fail RebaseExhausted)) else Inr rebases))"

lemma rebase_on_Inr:
  "rebase_on rt typed tid key intent winner n = Inr m \<Longrightarrow>
     replay rt typed winner key intent = Inr None \<and> checked_add n 1 = Some m \<and> m \<le> rp_maximum_rebases (rt_policy rt)"
  by (auto simp: rebase_on_def split: if_splits sum.splits option.splits)

function publish_transaction_from_parent :: "runtime \<Rightarrow> (byte list \<Rightarrow> (string, 'r) result) \<Rightarrow> id \<Rightarrow> string \<Rightarrow> sha256
    \<Rightarrow> staged_file list \<Rightarrow> (u32 \<Rightarrow> pinned_table \<Rightarrow> (runtime_error fault, 'r candidate) result) \<Rightarrow> pinned_table \<Rightarrow> u32
    \<Rightarrow> world \<Rightarrow> 'r outcome \<times> world" where
  "publish_transaction_from_parent rt typed table_id key intent staged build parent rebases w =
     (case prepare rt typed table_id key intent build parent rebases of
        Inl r \<Rightarrow> (r, w)
      | Inr candidate \<Rightarrow>
          (case upload (rt_ext rt) staged candidate w of
             (Inl e, w) \<Rightarrow> (Inl (Fail e), w)
           | (Inr _, w) \<Rightarrow>
               (case attempt_head rt typed table_id key intent parent candidate 0 w of
                  (Returned r, w) \<Rightarrow> (r, w)
                | (Broken indeterminate, w) \<Rightarrow>
                    (case pin rt w of
                       (Inl e, w) \<Rightarrow> (Inl (winner_error indeterminate e), w)
                     | (Inr winner, w) \<Rightarrow>
                         (case rebase_on rt typed table_id key intent winner rebases of
                            Inl r \<Rightarrow> (r, w)
                          | Inr rebases \<Rightarrow>
                              publish_transaction_from_parent rt typed table_id key intent staged build winner rebases w)))))"
  by pat_completeness auto
termination
  by (relation "measure (\<lambda>(_, _, _, _, _, _, _, _, rebases, _). 2 ^ 32 - unat rebases)")
    (auto dest!: rebase_on_Inr unat_checked_add intro!: diff_less_mono2 simp: unat_u32_lt)

declare publish_transaction_from_parent.simps [simp del]

definition publish_transaction :: "runtime \<Rightarrow> (byte list \<Rightarrow> (string, 'r) result) \<Rightarrow> string \<Rightarrow> sha256
    \<Rightarrow> staged_file list \<Rightarrow> (u32 \<Rightarrow> pinned_table \<Rightarrow> (runtime_error fault, 'r candidate) result)
    \<Rightarrow> world \<Rightarrow> 'r outcome \<times> world" where
  "publish_transaction rt typed key intent staged build w =
     (case pin rt w of
        (Inl e, w) \<Rightarrow> (Inl e, w)
      | (Inr parent, w) \<Rightarrow>
          publish_transaction_from_parent rt typed (h_table_id (pt_head parent)) key intent staged build parent 0 w)"

end
