(* ===== verification/Exactly_Once.thy ===== *)
theory Exactly_Once
  imports Publication
begin

text \<open>
  What publication guarantees under concurrent clients and lost answers. The argument is by rely and guarantee: the
  locale \<open>foreign_steps\<close> says what the steps of other clients keep, and shows that every part of a run that does not
  write the head keeps it too. It is interpreted on the ledger of idempotency keys, on the stored objects, and with
  no condition at all for the number of attempts.
\<close>

section \<open>Runs between other clients\<close>

text \<open>
  The foreign steps are of a given kind, keep an invariant of the store and relate the stores before and after.
  \<open>quiet\<close> is a part of a run with these guarantees in which the client itself does not write the head.
\<close>

definition fair :: "(mem_action \<Rightarrow> bool) \<Rightarrow> (memory_state \<Rightarrow> bool) \<Rightarrow> world \<Rightarrow> bool" where
  "fair foreign invar w = (invar (wd_store w) \<and> list_all (list_all foreign) (wd_env w))"

definition quiet :: "(mem_action \<Rightarrow> bool) \<Rightarrow> (memory_state \<Rightarrow> bool) \<Rightarrow> (memory_state \<Rightarrow> memory_state \<Rightarrow> bool)
    \<Rightarrow> world \<Rightarrow> world \<Rightarrow> bool" where
  "quiet foreign invar keeps w w' =
     (fair foreign invar w \<longrightarrow> fair foreign invar w' \<and> keeps (wd_store w) (wd_store w') \<and> wd_trace w' = wd_trace w)"

lemma head_key_uri: "uri_from_str head_key = Inr (RelativeUri head_key)"
  by code_simp

locale foreign_steps =
  fixes x :: externals
    and foreign :: "mem_action \<Rightarrow> bool"
    and invar :: "memory_state \<Rightarrow> bool"
    and keeps :: "memory_state \<Rightarrow> memory_state \<Rightarrow> bool"
  assumes keeps_refl: "keeps s s"
    and keeps_trans: "keeps s t \<Longrightarrow> keeps t u \<Longrightarrow> keeps s u"
    and exec: "invar s \<Longrightarrow> foreign a \<Longrightarrow> invar (mem_exec x a s) \<and> keeps s (mem_exec x a s)"
    and read: "invar s \<Longrightarrow> invar (snd (mem_read x k s)) \<and> keeps s (snd (mem_read x k s))"
    and create: "invar s \<Longrightarrow> invar (snd (create_bytes x k bs s)) \<and> keeps s (snd (create_bytes x k bs s))"
begin

lemma quiet_refl: "quiet foreign invar keeps w w"
  by (simp add: quiet_def keeps_refl)

lemma quiet_trans: "quiet foreign invar keeps u v \<Longrightarrow> quiet foreign invar keeps v w \<Longrightarrow> quiet foreign invar keeps u w"
  using keeps_trans by (auto simp: quiet_def)

lemma exec_fold:
  "invar s \<Longrightarrow> list_all foreign as \<Longrightarrow> invar (fold (mem_exec x) as s) \<and> keeps s (fold (mem_exec x) as s)"
proof (induction as arbitrary: s)
  case (Cons a as)
  then show ?case using exec [of s a] keeps_trans by auto
qed (simp add: keeps_refl)

lemma interfere_quiet: "quiet foreign invar keeps w (interfere x w)"
proof (cases "wd_env w")
  case (Cons as rest)
  then show ?thesis using exec_fold [of "wd_store w" as] by (auto simp: quiet_def fair_def interfere_def)
qed (simp add: interfere_def quiet_refl)

lemma call_quiet:
  assumes "\<And>s. invar s \<Longrightarrow> invar (snd (operation s)) \<and> keeps s (snd (operation s))" "call x operation w = (r, w')"
  shows "quiet foreign invar keeps w w'"
proof -
  let ?v = "interfere x w"
  have "w' = ?v\<lparr>wd_store := snd (operation (wd_store ?v))\<rparr>"
    using assms(2) by (auto simp: call_def Let_def split: prod.splits)
  then have "quiet foreign invar keeps ?v w'" using assms(1) [of "wd_store ?v"] by (simp add: quiet_def fair_def)
  with interfere_quiet show ?thesis by (rule quiet_trans)
qed

lemma confirm: "invar s \<Longrightarrow> invar (snd (confirm_readable x k h n s)) \<and> keeps s (snd (confirm_readable x k h n s))"
  using read [of s k] by (auto simp: confirm_readable_def split: prod.splits sum.splits)

lemma calls_quiet:
  shows read_quiet: "call x (mem_read x k) w = (rr, w') \<Longrightarrow> quiet foreign invar keeps w w'"
    and create_quiet: "call x (create_bytes x k bs) w = (rc, w') \<Longrightarrow> quiet foreign invar keeps w w'"
    and confirm_quiet: "call x (confirm_readable x k h n) w = (rv, w') \<Longrightarrow> quiet foreign invar keeps w w'"
  using call_quiet [of "mem_read x k"] call_quiet [of "create_bytes x k bs"] call_quiet [of "confirm_readable x k h n"]
    read create confirm by blast+

lemma put_immutable_quiet: "put_immutable x k bs w = (r, w') \<Longrightarrow> quiet foreign invar keeps w w'"
proof -
  assume p: "put_immutable x k bs w = (r, w')"
  obtain q u where c: "call x (create_bytes x k bs) w = (q, u)" by fastforce
  have "\<exists>h n r. w' = u \<or> call x (confirm_readable x k h n) u = (r, w')"
    using p c by (auto simp: put_immutable_def split: sum.splits storage_error.splits prod.splits)
  then have "quiet foreign invar keeps u w'" using confirm_quiet quiet_refl by blast
  with create_quiet [OF c] show ?thesis by (rule quiet_trans)
qed

lemma put_all_quiet: "put_all x os w = (r, w') \<Longrightarrow> quiet foreign invar keeps w w'"
proof (induction os arbitrary: w)
  case (Cons o' os)
  obtain k bs where o': "o' = (k, bs)" by fastforce
  obtain q u where u: "put_immutable x k bs w = (q, u)" by fastforce
  have "quiet foreign invar keeps u w'" using Cons o' u quiet_refl by (cases q) auto
  with put_immutable_quiet [OF u] show ?case by (rule quiet_trans)
qed (simp add: quiet_refl)

lemma confirm_staged_quiet: "confirm_staged x f w = (r, w') \<Longrightarrow> quiet foreign invar keeps w w'"
  using confirm_quiet [of "sf_uri f" "sf_sha256 f" "sf_length f" w _ w']
  by (auto simp: confirm_staged_def split: prod.splits sum.splits storage_error.splits)

lemma confirm_all_quiet: "confirm_all x fs w = (r, w') \<Longrightarrow> quiet foreign invar keeps w w'"
proof (induction fs arbitrary: w)
  case (Cons f fs)
  obtain q u where u: "confirm_staged x f w = (q, u)" by fastforce
  have "quiet foreign invar keeps u w'" using Cons u quiet_refl by (cases q) auto
  with confirm_staged_quiet [OF u] show ?case by (rule quiet_trans)
qed (simp add: quiet_refl)

lemma upload_quiet: "upload x staged c w = (r, w') \<Longrightarrow> quiet foreign invar keeps w w'"
proof -
  assume p: "upload x staged c w = (r, w')"
  obtain q u where u: "confirm_all x staged w = (q, u)" by fastforce
  have "quiet foreign invar keeps u w'" using p u put_all_quiet [of _ u r w'] quiet_refl by (cases q) (auto simp: upload_def)
  with confirm_all_quiet [OF u] show ?thesis by (rule quiet_trans)
qed

lemma pin_quiet:
  assumes "pin rt w = (r, w')" "rt_ext rt = x"
  shows "quiet foreign invar keeps w w'"
proof -
  obtain q u where c: "call x (mem_read x (RelativeUri head_key)) w = (q, u)" by fastforce
  have "w' = u \<or> w' = interfere x u"
    using assms c by (auto simp: pin_def head_key_uri Let_def split: sum.splits)
  then show ?thesis using interfere_quiet [of u] read_quiet [OF c] quiet_trans by blast
qed

end

section \<open>The ledger\<close>

text \<open>
  \<open>R\<close> holds of the versions of the heads whose image records the idempotency key. Other clients write the head only
  from the version they have seen and keep its ledger; they do not delete the head.
\<close>

fun keeps_ledger :: "externals \<Rightarrow> (object_version \<Rightarrow> bool) \<Rightarrow> mem_action \<Rightarrow> bool" where
  "keeps_ledger x R (DoConditional (Some v) bs) = (R v \<longrightarrow> R (content_version x bs))"
| "keeps_ledger x R (DoDelete u v) = (uri_as_str u \<noteq> head_key)"
| "keeps_ledger x R _ = True"

definition head_version :: "externals \<Rightarrow> memory_state \<Rightarrow> object_version option" where
  "head_version x s = map_option (content_version x) (mem_lookup s head_key)"

definition records :: "externals \<Rightarrow> (object_version \<Rightarrow> bool) \<Rightarrow> memory_state \<Rightarrow> bool" where
  "records x R s = (case head_version x s of None \<Rightarrow> False | Some v \<Rightarrow> R v)"

definition has_head :: "memory_state \<Rightarrow> bool" where
  "has_head s = (mem_ok s \<and> mem_lookup s head_key \<noteq> None)"

definition ledger_kept :: "externals \<Rightarrow> (object_version \<Rightarrow> bool) \<Rightarrow> memory_state \<Rightarrow> memory_state \<Rightarrow> bool" where
  "ledger_kept x R s t = (records x R s \<longrightarrow> records x R t)"

lemma keeps_ledger_exec:
  assumes "has_head s" "keeps_ledger x R a"
  shows "has_head (mem_exec x a s) \<and> ledger_kept x R s (mem_exec x a s)"
proof -
  have "mem_ok (mem_exec x a s)" using assms mem_exec_ok by (simp add: has_head_def)
  moreover have "mem_lookup (mem_exec x a s) head_key \<noteq> None \<and> ledger_kept x R s (mem_exec x a s)"
  proof (cases a)
    case (DoConditional e bs)
    show ?thesis
    proof (cases rule: conditional_cases [of x e bs s])
      case (written r)
      then show ?thesis using assms DoConditional
        by (auto simp: has_head_def ledger_kept_def head_version_def records_def mem_lookup_put)
    qed (use assms DoConditional in \<open>auto simp: has_head_def ledger_kept_def head_version_def records_def\<close>)
  next
    case (DoCommit u r m)
    then show ?thesis using assms
      by (auto simp: create_commit_def has_head_def ledger_kept_def head_version_def records_def mem_lookup_put mem_absent
          split: sum.splits)
  next
    case (DoDelete u v)
    then show ?thesis using assms
      by (auto simp: delete_if_version_def mem_lookup_def bt_get_remove Let_def has_head_def ledger_kept_def head_version_def records_def)
  qed (use assms in \<open>auto simp: mem_read_def Let_def inject_conditional_def has_head_def ledger_kept_def head_version_def records_def\<close>)
  ultimately show ?thesis by (simp add: has_head_def)
qed

lemma same_lookup: "mem_lookup t head_key = mem_lookup s head_key \<Longrightarrow> mem_ok t \<Longrightarrow> has_head s \<Longrightarrow> has_head t \<and> ledger_kept x R s t"
  by (simp add: has_head_def ledger_kept_def records_def head_version_def)

interpretation ledger: foreign_steps x "keeps_ledger x R" has_head "ledger_kept x R" for x R
proof unfold_locales
  fix s a k bs
  assume s: "has_head s"
  show "keeps_ledger x R a \<Longrightarrow> has_head (mem_exec x a s) \<and> ledger_kept x R s (mem_exec x a s)"
    using s by (rule keeps_ledger_exec)
  show "has_head (snd (mem_read x k s)) \<and> ledger_kept x R s (snd (mem_read x k s))"
    using s by (intro same_lookup) (auto simp: mem_read_def Let_def has_head_def)
  show "has_head (snd (create_bytes x k bs s)) \<and> ledger_kept x R s (snd (create_bytes x k bs s))"
    using s by (intro same_lookup) (auto simp: create_bytes_eq has_head_def mem_lookup_put mem_ok_put)
qed (auto simp: ledger_kept_def)

section \<open>Pins\<close>

text \<open>A pinned table that some state of the store gives.\<close>

definition pinned_from :: "runtime \<Rightarrow> pinned_table \<Rightarrow> bool" where
  "pinned_from rt p = (\<exists>w w'. pin rt w = (Inr p, w'))"

lemma io_bind_Inr: "fst (io_bind m f c) = Inr v \<longleftrightarrow> (\<exists>u. fst (m c) = Inr u \<and> fst (f u (snd (m c))) = Inr v)"
  by (auto simp: io_bind_def split: prod.splits sum.splits)

lemma load_pin_fields:
  "fst (load_pin rt rd raw head c) = Inr p \<Longrightarrow>
     pt_raw_head p = so_bytes raw \<and> pt_head_version p = so_version raw \<and> pt_head p = head"
  by (auto simp: load_pin_def load_pin_objects_def io_bind_Inr io_return_def io_of_def)

abbreviation ledger_quiet :: "externals \<Rightarrow> (object_version \<Rightarrow> bool) \<Rightarrow> world \<Rightarrow> world \<Rightarrow> bool" where
  "ledger_quiet x R \<equiv> quiet (keeps_ledger x R) has_head (ledger_kept x R)"

text \<open>A pin reads the version of the head at some moment of it.\<close>

lemma pin_Inr:
  assumes "pin rt w = (Inr p, w')"
  shows "pinned_from rt p \<and> (\<exists>u. ledger_quiet (rt_ext rt) R w u \<and> ledger_quiet (rt_ext rt) R u w'
    \<and> head_version (rt_ext rt) (wd_store u) = Some (pt_head_version p))"
proof -
  let ?x = "rt_ext rt"
  obtain raw u where c: "call ?x (mem_read ?x (RelativeUri head_key)) w = (Inr raw, u)"
    and w': "w' = interfere ?x u"
    and r: "fst (io_bind (io_json rt (rt_head_json rt) (so_bytes raw)) (\<lambda>head.
        load_pin rt (store_reader rt (wd_store w')) raw head) None) = Inr p"
    using assms by (auto simp: pin_def head_key_uri Let_def split: prod.splits sum.splits)
  from r obtain head c' where l: "fst (load_pin rt (store_reader rt (wd_store w')) raw head c') = Inr p"
    by (auto simp: io_bind_Inr)
  moreover have "pinned_from rt p" using assms by (auto simp: pinned_from_def)
  moreover have "head_version ?x (wd_store u) = Some (pt_head_version p)"
    using c load_pin_fields [OF l]
    by (auto simp: call_def Let_def mem_read_def head_version_def mem_lookup_def result_simps
        split: prod.splits option.splits)
  ultimately show ?thesis using ledger.read_quiet [OF c] ledger.interfere_quiet w' by blast
qed

section \<open>One write per transaction\<close>

text \<open>A recorded head write reached the store when it made a new revision.\<close>

definition took_effect :: "memory_state \<times> conditional_outcome \<times> memory_state \<Rightarrow> bool" where
  "took_effect e = (case e of (s, _, t) \<Rightarrow> ms_next_revision t \<noteq> ms_next_revision s)"

definition writes :: "world \<Rightarrow> nat" where
  "writes w = length (filter took_effect (wd_trace w))"

text \<open>At most one write since the count \<open>a\<close>, and the ledger has the key after it.\<close>

definition phase :: "externals \<Rightarrow> (object_version \<Rightarrow> bool) \<Rightarrow> nat \<Rightarrow> world \<Rightarrow> bool" where
  "phase x R a w = (fair (keeps_ledger x R) has_head w \<and> (writes w = a \<or> writes w = Suc a \<and> records x R (wd_store w)))"

lemma quiet_phase: "ledger_quiet x R w w' \<Longrightarrow> phase x R a w \<Longrightarrow> phase x R a w' \<and> writes w' = writes w"
  by (auto simp: quiet_def phase_def writes_def ledger_kept_def)

lemma put_object_revision: "ms_next_revision (put_object k bs s) = ms_next_revision s + 1"
  by (simp add: put_object_def Let_def)

lemma call_replace_head_phase:
  assumes "call_replace_head x v bs w = (r, w')" "phase x R a w" "\<not> R v" "R (content_version x bs)"
  shows "phase x R a w' \<and> (\<forall>u. r = Applied u \<longrightarrow> records x R (wd_store w')) \<and> (\<forall>u. r = Conflict u \<longrightarrow> writes w' = writes w)"
proof -
  let ?u = "interfere x w"
  have u: "phase x R a ?u" "writes ?u = writes w" using quiet_phase [OF ledger.interfere_quiet assms(2)] by auto
  obtain r' s where c: "conditional x (Some v) bs (wd_store ?u) = (r', s)" by fastforce
  have w': "r = r'" "w' = ?u\<lparr>wd_store := s, wd_trace := wd_trace ?u @ [(wd_store ?u, r, s)]\<rparr>"
    using assms(1) c by (auto simp: call_replace_head_def replace_head_def Let_def)
  show ?thesis
  proof (cases rule: conditional_cases [of x "Some v" bs "wd_store ?u"])
    case before
    then show ?thesis using u c w' by (auto simp: phase_def fair_def has_head_def writes_def took_effect_def records_def head_version_def)
  next
    case conflict
    then show ?thesis using u c w' by (auto simp: phase_def fair_def has_head_def writes_def took_effect_def records_def head_version_def)
  next
    case (written q)
    then have "\<not> records x R (wd_store ?u)" using assms(3) by (auto simp: records_def head_version_def)
    then have "writes ?u = a" using u by (simp add: phase_def)
    moreover have "records x R s" "mem_lookup s head_key \<noteq> None" "ms_next_revision s \<noteq> ms_next_revision (wd_store ?u)"
      "mem_ok s" "\<forall>u. r \<noteq> Conflict u"
      using written c assms(4) u w'
      by (auto simp: records_def head_version_def mem_lookup_put phase_def fair_def has_head_def mem_ok_put put_object_revision)
    ultimately show ?thesis using u w'
      by (auto simp: phase_def fair_def has_head_def writes_def took_effect_def)
  qed
qed

text \<open>
  The image of a head answers for the key exactly when the head records it; all heads are of one table; a
  candidate records the key.
\<close>

definition ledger_law :: "runtime \<Rightarrow> (byte list \<Rightarrow> (string, 'r) result) \<Rightarrow> id \<Rightarrow> string \<Rightarrow> sha256 \<Rightarrow> (object_version \<Rightarrow> bool) \<Rightarrow> bool" where
  "ledger_law rt typed tid key intent R =
     (\<forall>p. pinned_from rt p \<longrightarrow> h_table_id (pt_head p) = tid
        \<and> (R (pt_head_version p) \<longleftrightarrow> (\<exists>v. replay rt typed p key intent = Inr (Some v))))"

definition build_law :: "runtime \<Rightarrow> (u32 \<Rightarrow> pinned_table \<Rightarrow> (runtime_error fault, 'r candidate) result) \<Rightarrow> (object_version \<Rightarrow> bool) \<Rightarrow> bool" where
  "build_law rt build R =
     (\<forall>n p c. pinned_from rt p \<longrightarrow> \<not> R (pt_head_version p) \<longrightarrow> build n p = Inr c
        \<longrightarrow> R (content_version (rt_ext rt) (cd_head_bytes c)))"

text \<open>What a pin tells about the writes of the client.\<close>

lemma pin_phase:
  assumes "pin rt w = (Inr p, w')" "phase (rt_ext rt) R a w" "ledger_law rt typed tid key intent R"
  shows "h_table_id (pt_head p) = tid
    \<and> (case replay rt typed p key intent of
         Inr (Some v) \<Rightarrow> records (rt_ext rt) R (wd_store w')
       | _ \<Rightarrow> \<not> R (pt_head_version p) \<and> writes w' = a)"
proof -
  let ?x = "rt_ext rt"
  obtain u where p: "pinned_from rt p" "ledger_quiet ?x R w u" "ledger_quiet ?x R u w'"
    "head_version ?x (wd_store u) = Some (pt_head_version p)"
    using pin_Inr [OF assms(1)] by blast
  have ph: "phase ?x R a u" "phase ?x R a w'" "writes w' = writes u"
    using quiet_phase p assms(2) by blast+
  have "records ?x R (wd_store u) = R (pt_head_version p)" using p(4) by (simp add: records_def)
  moreover have "records ?x R (wd_store u) \<Longrightarrow> records ?x R (wd_store w')"
    using p(3) ph by (auto simp: quiet_def phase_def ledger_kept_def)
  moreover have "\<not> records ?x R (wd_store u) \<Longrightarrow> writes w' = a" using ph by (auto simp: phase_def)
  moreover have "h_table_id (pt_head p) = tid"
    "R (pt_head_version p) \<longleftrightarrow> (\<exists>v. replay rt typed p key intent = Inr (Some v))"
    using assms(3) p(1) unfolding ledger_law_def by blast+
  ultimately show ?thesis by (cases "R (pt_head_version p)") (auto split: sum.splits option.splits)
qed


text \<open>How an attempt ends.\<close>

definition settled :: "externals \<Rightarrow> (object_version \<Rightarrow> bool) \<Rightarrow> nat \<Rightarrow> 'r outcome \<Rightarrow> world \<Rightarrow> bool" where
  "settled x R a r w =
     (phase x R a w
      \<and> (case r of
           Inr _ \<Rightarrow> records x R (wd_store w)
         | Inl (Fail e) \<Rightarrow> e \<noteq> PublicationIndeterminate \<longrightarrow> writes w = a
         | Inl Panicked \<Rightarrow> True))"

definition attempt_settled :: "externals \<Rightarrow> (object_version \<Rightarrow> bool) \<Rightarrow> nat \<Rightarrow> 'r attempt \<Rightarrow> world \<Rightarrow> bool" where
  "attempt_settled x R a r w =
     (case r of Returned q \<Rightarrow> settled x R a q w | Broken n \<Rightarrow> phase x R a w \<and> (n = 0 \<longrightarrow> writes w = a))"

lemma checked_Suc: "checked_add (n :: u32) 1 = Some m \<Longrightarrow> m \<noteq> 0 \<and> unat m = Suc (unat n)"
  by (drule unat_checked_add) auto

lemma reconcile_settled:
  assumes "pin rt w = (Inr p, w')" "phase (rt_ext rt) R a w" "ledger_law rt typed tid key intent R" "n \<noteq> 0"
    and "reconcile rt typed tid key intent parent p n = Some r"
  shows "attempt_settled (rt_ext rt) R a r w'"
proof -
  have "phase (rt_ext rt) R a w'" using quiet_phase [OF ledger.pin_quiet [OF assms(1) refl] assms(2)] by blast
  then show ?thesis using pin_phase [OF assms(1-3)] assms(4,5)
    by (auto simp: reconcile_def attempt_settled_def settled_def split: if_splits sum.splits option.splits)
qed

lemma attempt_head_settled:
  assumes "attempt_head rt typed tid key intent parent c n w = (r, w')"
    and "ledger_law rt typed tid key intent R" "\<not> R (pt_head_version parent)"
    and "R (content_version (rt_ext rt) (cd_head_bytes c))"
    and "phase (rt_ext rt) R a w" "n = 0 \<longrightarrow> writes w = a"
  shows "attempt_settled (rt_ext rt) R a r w'"
  using assms
proof (induction rt typed tid key intent parent c n w arbitrary: r w' rule: attempt_head.induct)
  case (1 rt typed tid key intent parent c n w)
  let ?x = "rt_ext rt"
  obtain o' u where o': "call_replace_head ?x (pt_head_version parent) (cd_head_bytes c) w = (o', u)" by fastforce
  note ph = call_replace_head_phase [OF o' "1.prems"(5,3,4)]
  show ?case
  proof (cases o')
    case (Indeterminate e)
    show ?thesis
    proof (cases "checked_add n 1")
      case None
      then show ?thesis using "1.prems"(1) o' Indeterminate ph
        by (auto simp: attempt_head.simps [of rt typed] attempt_settled_def settled_def)
    next
      case (Some m)
      have m: "m \<noteq> 0" using checked_Suc [OF Some] by simp
      obtain q v where q: "pin rt u = (q, v)" by fastforce
      have phv: "phase ?x R a v" using quiet_phase [OF ledger.pin_quiet [OF q refl]] ph by blast
      show ?thesis
      proof (cases q)
        case (Inl f)
        then show ?thesis
          using "1.prems"(1-4) o' Indeterminate Some q m phv "1.IH"(1) [OF o' [symmetric] Indeterminate Some q [symmetric] Inl]
          by (auto simp: attempt_head.simps [of rt typed] attempt_settled_def settled_def split: fault.splits if_splits)
      next
        case (Inr p)
        then show ?thesis
          using "1.prems"(1-4) o' Indeterminate Some q m phv reconcile_settled [OF q [unfolded Inr], of R a typed tid key intent m parent] ph
           "1.IH"(2) [OF o' [symmetric] Indeterminate Some q [symmetric] Inr]
          by (auto simp: attempt_head.simps [of rt typed] split: option.splits)
      qed
    qed
  qed (use "1.prems" o' ph in \<open>auto simp: attempt_head.simps [of rt typed] attempt_settled_def settled_def\<close>)
qed

lemma winner_error_settled: "winner_error n e = Fail f \<Longrightarrow> f \<noteq> PublicationIndeterminate \<Longrightarrow> n = 0"
  by (auto simp: winner_error_def word_gt_0 split: fault.splits if_splits)

lemma prepare_cases:
  assumes "ledger_law rt typed tid key intent R" "build_law rt build R" "pinned_from rt parent"
  shows "case prepare rt typed tid key intent build parent n of
      Inr c \<Rightarrow> \<not> R (pt_head_version parent) \<and> R (content_version (rt_ext rt) (cd_head_bytes c))
    | Inl (Inr _) \<Rightarrow> R (pt_head_version parent)
    | Inl (Inl _) \<Rightarrow> True"
proof -
  have "h_table_id (pt_head parent) = tid"
    and iff: "R (pt_head_version parent) \<longleftrightarrow> (\<exists>v. replay rt typed parent key intent = Inr (Some v))"
    using assms(1,3) unfolding ledger_law_def by blast+
  moreover have "build n parent = Inr c \<Longrightarrow> \<not> R (pt_head_version parent) \<Longrightarrow> R (content_version (rt_ext rt) (cd_head_bytes c))" for c
    using assms(2,3) unfolding build_law_def by blast
  ultimately show ?thesis by (auto simp: prepare_def split: sum.splits option.splits)
qed

lemma rebase_on_settled:
  assumes "pin rt w = (Inr p, w')" "phase (rt_ext rt) R a w" "ledger_law rt typed tid key intent R"
  shows "case rebase_on rt typed tid key intent p n of
      Inl r \<Rightarrow> settled (rt_ext rt) R a r w'
    | Inr _ \<Rightarrow> phase (rt_ext rt) R a w' \<and> writes w' = a \<and> \<not> R (pt_head_version p)"
proof -
  have "phase (rt_ext rt) R a w'" using quiet_phase [OF ledger.pin_quiet [OF assms(1) refl] assms(2)] by blast
  then show ?thesis using pin_phase [OF assms]
    by (auto simp: rebase_on_def settled_def split: sum.splits option.splits)
qed

lemma publish_settled:
  assumes "publish_transaction_from_parent rt typed tid key intent staged build parent n w = (r, w')"
    and "ledger_law rt typed tid key intent R" "build_law rt build R" "pinned_from rt parent"
    and "phase (rt_ext rt) R a w" "writes w = a" "R (pt_head_version parent) \<longrightarrow> records (rt_ext rt) R (wd_store w)"
  shows "settled (rt_ext rt) R a r w'"
  using assms
proof (induction rt typed tid key intent staged build parent n w arbitrary: r w' rule: publish_transaction_from_parent.induct)
  case (1 rt typed tid key intent staged build parent n w)
  let ?x = "rt_ext rt"
  note unfold = publish_transaction_from_parent.simps [of rt typed tid key intent staged build parent n w]
  show ?case
  proof (cases "prepare rt typed tid key intent build parent n")
    case (Inl r0)
    then show ?thesis using "1.prems"(1,5-7) unfold prepare_cases [OF "1.prems"(2-4), of n]
      by (auto simp: settled_def split: sum.splits fault.splits)
  next
    case (Inr c)
    then have c: "\<not> R (pt_head_version parent)" "R (content_version ?x (cd_head_bytes c))"
      using prepare_cases [OF "1.prems"(2-4), of n] by auto
    obtain q u where up: "upload ?x staged c w = (q, u)" by fastforce
    have u: "phase ?x R a u" "writes u = a"
      using quiet_phase [OF ledger.upload_quiet [OF up] "1.prems"(5)] "1.prems"(6) by auto
    obtain at v where at: "attempt_head rt typed tid key intent parent c 0 u = (at, v)" by fastforce
    have v: "attempt_settled ?x R a at v"
      using attempt_head_settled [OF at "1.prems"(2) c u(1)] u(2) by simp
    obtain p z where p: "pin rt v = (p, z)" by fastforce
    show ?thesis
    proof (cases "\<exists>k ind winner. q = Inr k \<and> at = Broken ind \<and> p = Inr winner")
      case True
      then obtain k ind winner where b: "q = Inr k" "at = Broken ind" "p = Inr winner" by blast
      with v have "phase ?x R a v" by (simp add: attempt_settled_def)
      from rebase_on_settled [OF p [unfolded b(3)] this "1.prems"(2), of n] pin_Inr [OF p [unfolded b(3)]]
      show ?thesis using "1.prems"(1-3) unfold Inr up at p b
          "1.IH" [OF Inr up [symmetric] b(1) at [symmetric] b(2) p [symmetric] b(3)]
        by (auto split: sum.splits)
    next
      case False
      have "phase ?x R a z" "writes z = writes v" if "at = Broken ind" for ind
        using that v quiet_phase [OF ledger.pin_quiet [OF p refl]] by (auto simp: attempt_settled_def)
      then show ?thesis using False "1.prems"(1) u v unfold Inr up at p
        by (auto simp: settled_def attempt_settled_def dest: winner_error_settled split: sum.splits attempt.splits fault.splits)
    qed
  qed
qed

section \<open>The objects a head names\<close>

text \<open>Foreign steps do not delete the objects under the keys \<open>P\<close>, which a head of this transaction may name.\<close>

definition spares :: "string set \<Rightarrow> mem_action \<Rightarrow> bool" where
  "spares P a = (\<forall>u v. a = DoDelete u v \<longrightarrow> uri_as_str u \<notin> P)"

definition objects_kept :: "string set \<Rightarrow> memory_state \<Rightarrow> memory_state \<Rightarrow> bool" where
  "objects_kept P s t = (\<forall>k b. k \<in> P \<longrightarrow> k \<noteq> head_key \<longrightarrow> mem_lookup s k = Some b \<longrightarrow> mem_lookup t k = Some b)"

interpretation objects: foreign_steps x "spares P" mem_ok "objects_kept P" for x P
proof unfold_locales
  fix s a k bs
  assume s: "mem_ok s"
  show "spares P a \<Longrightarrow> mem_ok (mem_exec x a s) \<and> objects_kept P s (mem_exec x a s)"
    using s mem_exec_ok mem_exec_keeps [of s _ _ a x] unfolding spares_def objects_kept_def by blast
  show "mem_ok (snd (mem_read x k s)) \<and> objects_kept P s (snd (mem_read x k s))"
    using s by (simp add: mem_read_def Let_def objects_kept_def)
  show "mem_ok (snd (create_bytes x k bs s)) \<and> objects_kept P s (snd (create_bytes x k bs s))"
    using s by (auto simp: create_bytes_eq mem_lookup_put mem_ok_put objects_kept_def)
qed (auto simp: objects_kept_def)

text \<open>An object with the given digest and length is there.\<close>

definition held :: "externals \<Rightarrow> relative_uri \<times> sha256 \<times> u64 \<Rightarrow> memory_state \<Rightarrow> bool" where
  "held x o' s =
     (case o' of (k, h, n) \<Rightarrow>
      \<exists>b. mem_lookup s (uri_as_str k) = Some b \<and> digest x b = h \<and> u64_of_usize (length b) = n)"

lemma held_kept: "objects_kept P s t \<Longrightarrow> uri_as_str (fst o') \<in> P \<Longrightarrow> head_key \<notin> P \<Longrightarrow> held x o' s \<Longrightarrow> held x o' t"
  by (auto simp: held_def objects_kept_def split: prod.splits)

definition needed :: "externals \<Rightarrow> staged_file list \<Rightarrow> 'r candidate \<Rightarrow> (relative_uri \<times> sha256 \<times> u64) list" where
  "needed x staged c =
     map (\<lambda>f. (sf_uri f, sf_sha256 f, sf_length f)) staged
       @ map (\<lambda>(k, bs). (k, digest x bs, u64_of_usize (length bs))) (candidate_objects c)"

lemma confirm_held:
  "call x (confirm_readable x k h n) w = (Inr v, w') \<Longrightarrow> held x (k, h, n) (wd_store w')"
  by (auto simp: call_def Let_def confirm_readable_def mem_read_def held_def mem_lookup_def result_simps
      split: prod.splits sum.splits option.splits if_splits)

lemma put_immutable_held:
  assumes "put_immutable x k bs w = (Inr u, w')"
  shows "held x (k, digest x bs, u64_of_usize (length bs)) (wd_store w')"
proof -
  obtain q v where c: "call x (create_bytes x k bs) w = (q, v)" by fastforce
  have "q = Inr o' \<Longrightarrow> co_sha256 o' = digest x bs \<and> co_length o' = u64_of_usize (length bs)" for o'
    using c by (auto simp: call_def Let_def create_bytes_eq split: prod.splits if_splits)
  then show ?thesis using assms c
    by (auto simp: put_immutable_def result_simps split: sum.splits storage_error.splits prod.splits dest!: confirm_held)
qed

lemma put_all_held:
  assumes "put_all x os w = (Inr u, w')" "fair (spares P) mem_ok w" "head_key \<notin> P" "\<forall>(k, _) \<in> set os. uri_as_str k \<in> P"
  shows "\<forall>(k, bs) \<in> set os. held x (k, digest x bs, u64_of_usize (length bs)) (wd_store w')"
  using assms
proof (induction os arbitrary: w)
  case (Cons o' os)
  obtain k bs where o': "o' = (k, bs)" by fastforce
  obtain q v where v: "put_immutable x k bs w = (q, v)" by fastforce
  from Cons.prems(1) o' v obtain q' where q: "q = Inr q'" and rest: "put_all x os v = (Inr u, w')" by (cases q) auto
  have "fair (spares P) mem_ok v" "objects_kept P (wd_store v) (wd_store w')"
    using objects.put_immutable_quiet [OF v, of P] objects.put_all_quiet [OF rest, of P] Cons.prems(2) by (auto simp: quiet_def)
  then show ?case
    using Cons.IH [OF rest] Cons.prems(3,4) o' put_immutable_held [OF v [unfolded q]]
      held_kept [of P "wd_store v" "wd_store w'" "(k, digest x bs, u64_of_usize (length bs))" x] by auto
qed simp

lemma confirm_all_held:
  assumes "confirm_all x fs w = (Inr u, w')" "fair (spares P) mem_ok w" "head_key \<notin> P" "\<forall>f \<in> set fs. uri_as_str (sf_uri f) \<in> P"
  shows "\<forall>f \<in> set fs. held x (sf_uri f, sf_sha256 f, sf_length f) (wd_store w')"
  using assms
proof (induction fs arbitrary: w)
  case (Cons f fs)
  obtain q v where v: "confirm_staged x f w = (q, v)" by fastforce
  from Cons.prems(1) v obtain q' where q: "q = Inr q'" and rest: "confirm_all x fs v = (Inr u, w')" by (cases q) auto
  have "held x (sf_uri f, sf_sha256 f, sf_length f) (wd_store v)"
    using v q by (auto simp: confirm_staged_def split: prod.splits sum.splits storage_error.splits if_splits dest!: confirm_held)
  moreover have "fair (spares P) mem_ok v" "objects_kept P (wd_store v) (wd_store w')"
    using objects.confirm_staged_quiet [OF v, of P] objects.confirm_all_quiet [OF rest, of P] Cons.prems(2) by (auto simp: quiet_def)
  ultimately show ?case
    using Cons.IH [OF rest] Cons.prems(3,4)
      held_kept [of P "wd_store v" "wd_store w'" "(sf_uri f, sf_sha256 f, sf_length f)" x] by auto
qed simp

definition protected :: "externals \<Rightarrow> string set \<Rightarrow> staged_file list \<Rightarrow> 'r candidate \<Rightarrow> bool" where
  "protected x P staged c = (head_key \<notin> P \<and> (\<forall>o' \<in> set (needed x staged c). uri_as_str (fst o') \<in> P))"

lemma upload_held:
  assumes "upload x staged c w = (Inr u, w')" "fair (spares P) mem_ok w" "protected x P staged c"
  shows "\<forall>o' \<in> set (needed x staged c). held x o' (wd_store w')"
proof -
  obtain q v where v: "confirm_all x staged w = (q, v)" by fastforce
  from assms(1) v obtain q' where q: "q = Inr q'" and rest: "put_all x (candidate_objects c) v = (Inr u, w')"
    by (cases q) (auto simp: upload_def)
  have P: "head_key \<notin> P" "\<forall>f \<in> set staged. uri_as_str (sf_uri f) \<in> P" "\<forall>(k, _) \<in> set (candidate_objects c). uri_as_str k \<in> P"
    using assms(3) by (auto simp: protected_def needed_def ball_Un)
  have f: "fair (spares P) mem_ok v" "objects_kept P (wd_store v) (wd_store w')"
    using objects.confirm_all_quiet [OF v, of P] objects.put_all_quiet [OF rest, of P] assms(2) by (auto simp: quiet_def)
  have "\<forall>f \<in> set staged. held x (sf_uri f, sf_sha256 f, sf_length f) (wd_store w')"
    using confirm_all_held [OF v [unfolded q] assms(2) P(1,2)] held_kept [OF f(2) _ P(1)] P(2) by auto
  then show ?thesis using put_all_held [OF rest f(1) P(1,3)] by (auto simp: needed_def)
qed

section \<open>Head writes are grounded\<close>

text \<open>
  A head write of the client: the candidate was built on a pinned table without an answer for the key, every object it
  names is in the store, and if it takes effect then it replaces exactly the head that was pinned.
\<close>

definition sound_write :: "externals \<Rightarrow> staged_file list \<Rightarrow> pinned_table \<Rightarrow> 'r candidate
    \<Rightarrow> memory_state \<times> conditional_outcome \<times> memory_state \<Rightarrow> bool" where
  "sound_write x staged p c e =
     (case e of (s, _, t) \<Rightarrow>
      (\<forall>o' \<in> set (needed x staged c). held x o' s)
      \<and> (took_effect e \<longrightarrow>
           head_version x s = Some (pt_head_version p) \<and> mem_lookup t = (mem_lookup s)(head_key \<mapsto> cd_head_bytes c)))"

definition grounded :: "runtime \<Rightarrow> (byte list \<Rightarrow> (string, 'r) result) \<Rightarrow> string \<Rightarrow> sha256 \<Rightarrow> staged_file list
    \<Rightarrow> (u32 \<Rightarrow> pinned_table \<Rightarrow> (runtime_error fault, 'r candidate) result)
    \<Rightarrow> memory_state \<times> conditional_outcome \<times> memory_state \<Rightarrow> bool" where
  "grounded rt typed key intent staged build e =
     (\<exists>n p c. pinned_from rt p \<and> replay rt typed p key intent = Inr None \<and> build n p = Inr c
        \<and> sound_write (rt_ext rt) staged p c e)"

abbreviation objects_quiet :: "string set \<Rightarrow> world \<Rightarrow> world \<Rightarrow> bool" where
  "objects_quiet P \<equiv> quiet (spares P) mem_ok (objects_kept P)"

abbreviation all_held :: "externals \<Rightarrow> staged_file list \<Rightarrow> 'r candidate \<Rightarrow> world \<Rightarrow> bool" where
  "all_held x staged c w \<equiv> \<forall>o' \<in> set (needed x staged c). held x o' (wd_store w)"

lemma quiet_held:
  assumes "objects_quiet P w w'" "fair (spares P) mem_ok w" "protected x P staged c" "all_held x staged c w"
  shows "fair (spares P) mem_ok w' \<and> all_held x staged c w' \<and> wd_trace w' = wd_trace w"
proof -
  have "fair (spares P) mem_ok w'" "objects_kept P (wd_store w) (wd_store w')" "wd_trace w' = wd_trace w"
    using assms(1,2) by (auto simp: quiet_def)
  moreover from this(2) have "all_held x staged c w'"
    using assms(3,4) held_kept [of P "wd_store w" "wd_store w'" _ x] unfolding protected_def by blast
  ultimately show ?thesis by blast
qed

lemma call_replace_head_sound:
  assumes "call_replace_head x (pt_head_version p) (cd_head_bytes c) w = (r, w')"
    and "fair (spares P) mem_ok w" "protected x P staged c" "all_held x staged c w"
  shows "fair (spares P) mem_ok w' \<and> all_held x staged c w' \<and> (\<exists>e. wd_trace w' = wd_trace w @ [e] \<and> sound_write x staged p c e)"
proof -
  let ?u = "interfere x w" let ?v = "pt_head_version p" let ?bs = "cd_head_bytes c"
  have u: "fair (spares P) mem_ok ?u" "all_held x staged c ?u" "wd_trace ?u = wd_trace w"
    using quiet_held [OF objects.interfere_quiet assms(2-4)] by blast+
  obtain r' s where s: "conditional x (Some ?v) ?bs (wd_store ?u) = (r', s)" by fastforce
  have w': "r = r'" "w' = ?u\<lparr>wd_store := s, wd_trace := wd_trace ?u @ [(wd_store ?u, r, s)]\<rparr>"
    using assms(1) s by (auto simp: call_replace_head_def replace_head_def Let_def)
  have ok: "mem_ok s" "objects_kept P (wd_store ?u) s"
    using mem.cas_invar [of "wd_store ?u" x "Some ?v" ?bs] mem.cas_keeps [of "wd_store ?u" _ x "Some ?v" ?bs] u(1) s
    by (auto simp: fair_def objects_kept_def)
  have eff: "head_version x (wd_store ?u) = Some ?v \<and> mem_lookup s = (mem_lookup (wd_store ?u))(head_key \<mapsto> ?bs)"
    if "ms_next_revision s \<noteq> ms_next_revision (wd_store ?u)"
    using that s u(1) by (cases rule: conditional_cases [of x "Some ?v" ?bs "wd_store ?u"])
      (auto simp: head_version_def mem_lookup_put fair_def)
  have "all_held x staged c w'"
    using ok(2) u(2) assms(3) w' held_kept [of P "wd_store ?u" s _ x] unfolding protected_def by auto
  then show ?thesis using ok u w' eff by (auto simp: fair_def sound_write_def took_effect_def)
qed

lemma attempt_head_sound:
  assumes "attempt_head rt typed tid key intent parent c n w = (r, w')"
    and "fair (spares P) mem_ok w" "protected (rt_ext rt) P staged c" "all_held (rt_ext rt) staged c w"
  shows "fair (spares P) mem_ok w' \<and> (\<exists>es. wd_trace w' = wd_trace w @ es \<and> list_all (sound_write (rt_ext rt) staged parent c) es)"
  using assms
proof (induction rt typed tid key intent parent c n w arbitrary: r w' rule: attempt_head.induct)
  case (1 rt typed tid key intent parent c n w)
  let ?x = "rt_ext rt"
  obtain o' u where o': "call_replace_head ?x (pt_head_version parent) (cd_head_bytes c) w = (o', u)" by fastforce
  note u = call_replace_head_sound [OF o' "1.prems"(2-4)]
  obtain q v where q: "pin rt u = (q, v)" by fastforce
  have v: "fair (spares P) mem_ok v" "all_held ?x staged c v" "wd_trace v = wd_trace u"
    using quiet_held [OF objects.pin_quiet [OF q refl] _ "1.prems"(3)] u by blast+
  obtain e where e: "wd_trace u = wd_trace w @ [e]" "sound_write ?x staged parent c e" using u by blast
  show ?case
  proof (cases "\<exists>i m. o' = Indeterminate i \<and> checked_add n 1 = Some m \<and> attempt_head rt typed tid key intent parent c m v = (r, w')")
    case True
    then obtain i m where m: "o' = Indeterminate i" "checked_add n 1 = Some m"
      "attempt_head rt typed tid key intent parent c m v = (r, w')" by blast
    show ?thesis
    proof (cases "(\<exists>e. q = Inl (Fail e) \<and> m \<le> rp_maximum_indeterminate_reconciliations (rt_policy rt))
        \<or> (\<exists>p. q = Inr p \<and> reconcile rt typed tid key intent parent p m = None)")
      case True
      then have "fair (spares P) mem_ok w' \<and> (\<exists>es. wd_trace w' = wd_trace v @ es \<and> list_all (sound_write ?x staged parent c) es)"
        using "1.IH"(1) [OF o' [symmetric] m(1,2) q [symmetric]] "1.IH"(2) [OF o' [symmetric] m(1,2) q [symmetric]]
          m(3) v(1,2) "1.prems"(3) by auto
      then show ?thesis using v(3) e by auto
    next
      case False
      then show ?thesis using "1.prems"(1) o' m q u v e
        by (auto simp: attempt_head.simps [of rt typed tid key intent parent c n] split: sum.splits fault.splits option.splits if_splits)
    qed
  next
    case False
    then have "w' = u \<or> w' = v" using "1.prems"(1) o' q
      by (auto simp: attempt_head.simps [of rt typed tid key intent parent c n]
          split: conditional_outcome.splits option.splits sum.splits fault.splits if_splits)
    then show ?thesis using u v e by auto
  qed
qed

lemma prepare_Inr:
  "prepare rt typed tid key intent build parent n = Inr c \<Longrightarrow>
     replay rt typed parent key intent = Inr None \<and> build n parent = Inr c"
  by (auto simp: prepare_def split: if_splits sum.splits option.splits)

lemma publish_grounded:
  assumes "publish_transaction_from_parent rt typed tid key intent staged build parent n w = (r, w')"
    and "pinned_from rt parent" "fair (spares P) mem_ok w"
    and "\<forall>n p c. build n p = Inr c \<longrightarrow> protected (rt_ext rt) P staged c"
  shows "\<exists>es. wd_trace w' = wd_trace w @ es \<and> list_all (grounded rt typed key intent staged build) es"
  using assms
proof (induction rt typed tid key intent staged build parent n w arbitrary: r w' rule: publish_transaction_from_parent.induct)
  case (1 rt typed tid key intent staged build parent n w)
  let ?x = "rt_ext rt"
  note unfold = publish_transaction_from_parent.simps [of rt typed tid key intent staged build parent n w]
  show ?case
  proof (cases "prepare rt typed tid key intent build parent n")
    case (Inl r0)
    then show ?thesis using "1.prems"(1) unfold by auto
  next
    case (Inr c)
    note built = prepare_Inr [OF Inr]
    obtain q u where up: "upload ?x staged c w = (q, u)" by fastforce
    have u: "fair (spares P) mem_ok u" "wd_trace u = wd_trace w"
      using objects.upload_quiet [OF up, of P] "1.prems"(3) by (auto simp: quiet_def)
    show ?thesis
    proof (cases q)
      case (Inl e)
      then show ?thesis using "1.prems"(1) unfold Inr up u by auto
    next
      case uploaded: (Inr k)
      have P: "protected ?x P staged c" using "1.prems"(4) built by blast
      obtain at v where at: "attempt_head rt typed tid key intent parent c 0 u = (at, v)" by fastforce
      obtain es where es: "fair (spares P) mem_ok v" "wd_trace v = wd_trace w @ es" "list_all (sound_write ?x staged parent c) es"
        using attempt_head_sound [OF at u(1) P upload_held [OF up [unfolded uploaded] "1.prems"(3) P]] u(2) by auto
      then have es_g: "list_all (grounded rt typed key intent staged build) es"
        using built "1.prems"(2) unfolding grounded_def list_all_iff by blast
      obtain p z where p: "pin rt v = (p, z)" by fastforce
      have z: "fair (spares P) mem_ok z" "wd_trace z = wd_trace v"
        using objects.pin_quiet [OF p refl, of P] es(1) by (auto simp: quiet_def)
      show ?thesis
      proof (cases "\<exists>ind winner m. at = Broken ind \<and> p = Inr winner \<and> rebase_on rt typed tid key intent winner n = Inr m")
        case True
        then obtain ind winner m where b: "at = Broken ind" "p = Inr winner" "rebase_on rt typed tid key intent winner n = Inr m"
          by blast
        have "publish_transaction_from_parent rt typed tid key intent staged build winner m z = (r, w')"
          using "1.prems"(1) unfold Inr up uploaded at b p by simp
        from "1.IH" [OF Inr up [symmetric] uploaded at [symmetric] b(1) p [symmetric] b(2,3) this _ z(1) "1.prems"(4)]
        show ?thesis using pin_Inr [OF p [unfolded b(2)]] es(2) es_g z(2) by auto
      next
        case False
        then have "w' = v \<or> w' = z" using "1.prems"(1) unfold Inr up uploaded at p
          by (auto split: attempt.splits sum.splits)
        then show ?thesis using es(2) es_g z(2) by auto
      qed
    qed
  qed
qed

section \<open>The number of attempts\<close>

interpretation any: foreign_steps x "\<lambda>_. True" "\<lambda>_. True" "\<lambda>_ _. True" for x
  by unfold_locales simp_all

lemma quiet_trace: "quiet (\<lambda>_. True) (\<lambda>_. True) (\<lambda>_ _. True) w w' \<Longrightarrow> wd_trace w' = wd_trace w"
  by (simp add: quiet_def fair_def list_all_iff)

lemmas trace_same = any.pin_quiet [THEN quiet_trace, OF _ refl] any.upload_quiet [THEN quiet_trace] any.interfere_quiet [THEN quiet_trace]

abbreviation max_lost :: "runtime \<Rightarrow> nat" where
  "max_lost rt \<equiv> unat (rp_maximum_indeterminate_reconciliations (rt_policy rt))"

abbreviation max_rebases :: "runtime \<Rightarrow> nat" where
  "max_rebases rt \<equiv> unat (rp_maximum_rebases (rt_policy rt))"

lemma call_replace_head_trace: "call_replace_head x v bs w = (r, w') \<Longrightarrow> length (wd_trace w') = Suc (length (wd_trace w))"
  by (auto simp: call_replace_head_def Let_def trace_same split: prod.splits)

lemma reconcile_None:
  "reconcile rt typed tid key intent parent p n = None \<Longrightarrow> unat n \<le> max_lost rt"
  by (auto simp: reconcile_def word_le_nat_alt split: if_splits sum.splits option.splits)

lemma attempt_head_bound:
  assumes "attempt_head rt typed tid key intent parent c n w = (r, w')" "unat n \<le> max_lost rt"
  shows "length (wd_trace w') \<le> length (wd_trace w) + Suc (max_lost rt - unat n)"
  using assms
proof (induction rt typed tid key intent parent c n w arbitrary: r w' rule: attempt_head.induct)
  case (1 rt typed tid key intent parent c n w)
  obtain o' u where o': "call_replace_head (rt_ext rt) (pt_head_version parent) (cd_head_bytes c) w = (o', u)" by fastforce
  obtain q v where q: "pin rt u = (q, v)" by fastforce
  have len: "length (wd_trace u) = Suc (length (wd_trace w))" "wd_trace v = wd_trace u"
    using call_replace_head_trace [OF o'] trace_same(1) [OF q] by auto
  show ?case
  proof (cases "w' = u \<or> w' = v")
    case False
    then obtain i m where m: "o' = Indeterminate i" "checked_add n 1 = Some m"
      using "1.prems"(1) o' q
      by (auto simp: attempt_head.simps [of rt typed tid key intent parent c n] split: conditional_outcome.splits option.splits)
    have "unat m \<le> max_lost rt \<and> length (wd_trace w') \<le> length (wd_trace v) + Suc (max_lost rt - unat m)"
    proof (cases q)
      case (Inl f)
      then show ?thesis using "1.prems"(1) False o' m q "1.IH"(1) [OF o' [symmetric] m q [symmetric] Inl]
        by (auto simp: attempt_head.simps [of rt typed tid key intent parent c n] word_le_nat_alt split: fault.splits if_splits)
    next
      case (Inr p)
      then show ?thesis using "1.prems"(1) False o' m q "1.IH"(2) [OF o' [symmetric] m q [symmetric] Inr]
        reconcile_None [of rt typed tid key intent parent p m]
        by (auto simp: attempt_head.simps [of rt typed tid key intent parent c n] split: option.splits)
    qed
    then show ?thesis using checked_Suc [OF m(2)] unfolding len by arith
  qed (use len in auto)
qed

lemma publish_bound:
  assumes "publish_transaction_from_parent rt typed tid key intent staged build parent n w = (r, w')" "unat n \<le> max_rebases rt"
  shows "length (wd_trace w') \<le> length (wd_trace w) + Suc (max_rebases rt - unat n) * Suc (max_lost rt)"
  using assms
proof (induction rt typed tid key intent staged build parent n w arbitrary: r w' rule: publish_transaction_from_parent.induct)
  case (1 rt typed tid key intent staged build parent n w)
  note unfold = publish_transaction_from_parent.simps [of rt typed tid key intent staged build parent n w]
  show ?case
  proof (cases "prepare rt typed tid key intent build parent n")
    case (Inr c)
    obtain q u where up: "upload (rt_ext rt) staged c w = (q, u)" by fastforce
    obtain at v where at: "attempt_head rt typed tid key intent parent c 0 u = (at, v)" by fastforce
    obtain p z where p: "pin rt v = (p, z)" by fastforce
    have len: "wd_trace u = wd_trace w" "wd_trace z = wd_trace v" "length (wd_trace v) \<le> length (wd_trace u) + Suc (max_lost rt)"
      using trace_same(2) [OF up] trace_same(1) [OF p] attempt_head_bound [OF at] by auto
    show ?thesis
    proof (cases "w' = u \<or> w' = v \<or> w' = z")
      case False
      then obtain k ind winner m where b: "q = Inr k" "at = Broken ind" "p = Inr winner" "rebase_on rt typed tid key intent winner n = Inr m"
        and run: "publish_transaction_from_parent rt typed tid key intent staged build winner m z = (r, w')"
        using "1.prems"(1) unfold Inr up at p by (auto split: sum.splits attempt.splits)
      have m: "unat m = Suc (unat n)" "unat m \<le> max_rebases rt"
        using rebase_on_Inr [OF b(4)] checked_Suc [of n m] by (auto simp: word_le_nat_alt)
      then have "Suc (max_rebases rt - unat n) = Suc (Suc (max_rebases rt - unat m))" by simp
      then show ?thesis
        using "1.IH" [OF Inr up [symmetric] b(1) at [symmetric] b(2) p [symmetric] b(3,4) run m(2)] len by simp
    qed (use len in auto)
  qed (use "1.prems"(1) unfold in auto)
qed

section \<open>Properties\<close>

text \<open>
  C1: a transaction is published at most once. While other clients write the head only from the version they saw and
  keep the ledger of idempotency keys, for every schedule of their steps and every pattern of lost answers: at most one
  head write of the client takes effect; a success means that the head records the key; and an error other than an
  indeterminate publication means that no write took effect.
\<close>

theorem publish_exactly_once:
  assumes "publish_transaction rt typed key intent staged build w = (r, w')"
    and "ledger_law rt typed tid key intent R" "build_law rt build R"
    and "fair (keeps_ledger (rt_ext rt) R) has_head w"
  shows "writes w' \<le> Suc (writes w)
    \<and> (writes w' \<noteq> writes w \<longrightarrow> records (rt_ext rt) R (wd_store w'))
    \<and> (\<forall>v. r = Inr v \<longrightarrow> records (rt_ext rt) R (wd_store w'))
    \<and> (\<forall>e. r = Inl (Fail e) \<longrightarrow> e \<noteq> PublicationIndeterminate \<longrightarrow> writes w' = writes w)"
proof -
  let ?x = "rt_ext rt"
  have w: "phase ?x R (writes w) w" using assms(4) by (simp add: phase_def)
  obtain p u where p: "pin rt w = (p, u)" by fastforce
  have u: "phase ?x R (writes w) u" "writes u = writes w"
    using quiet_phase [OF ledger.pin_quiet [OF p refl] w] by auto
  have "settled ?x R (writes w) r w'"
  proof (cases p)
    case (Inl e)
    then show ?thesis using assms(1) p u by (auto simp: publish_transaction_def settled_def split: fault.splits)
  next
    case (Inr parent)
    note facts = pin_phase [OF p [unfolded Inr] w assms(2)]
    have pf: "pinned_from rt parent" using pin_Inr [OF p [unfolded Inr]] by blast
    have "R (pt_head_version parent) \<longrightarrow> records ?x R (wd_store u)"
      using facts by (auto split: sum.splits option.splits)
    then show ?thesis
      using publish_settled [OF _ assms(2,3) pf u] assms(1) p Inr facts by (auto simp: publish_transaction_def)
  qed
  then show ?thesis by (auto simp: settled_def phase_def split: sum.splits fault.splits)
qed

text \<open>
  C2: a head never names an object that is not there. Every head write of a publication is for a candidate that was
  built on a pinned table without an answer for the key; at that moment the staged files, the commit, the image
  artifacts and the generation are in the store with their digests and lengths; and a write that takes effect
  replaces exactly the pinned head by the candidate's, so that no other client's commit is lost.
\<close>

theorem publish_grounded_heads:
  assumes "publish_transaction rt typed key intent staged build w = (r, w')" "wd_trace w = []"
    and "mem_ok (wd_store w)" "list_all (list_all (spares P)) (wd_env w)"
    and "\<forall>n p c. build n p = Inr c \<longrightarrow> protected (rt_ext rt) P staged c"
  shows "list_all (grounded rt typed key intent staged build) (wd_trace w')"
proof -
  obtain p u where p: "pin rt w = (p, u)" by fastforce
  have u: "fair (spares P) mem_ok u" "wd_trace u = []"
    using objects.pin_quiet [OF p refl, of P] assms(2-4) by (auto simp: quiet_def fair_def)
  show ?thesis
  proof (cases p)
    case (Inl e)
    then show ?thesis using assms(1) p u by (auto simp: publish_transaction_def)
  next
    case (Inr parent)
    have "pinned_from rt parent" using pin_Inr [OF p [unfolded Inr]] by blast
    then show ?thesis using publish_grounded [OF _ _ u(1) assms(5)] assms(1) p u Inr
      by (fastforce simp: publish_transaction_def)
  qed
qed

text \<open>
  C23: publication ends after a bounded number of attempts. Whatever other clients do and however often an answer is
  lost, the head is written at most once per reconciliation and first try, in each of at most one more rounds than the
  permitted rebases.
\<close>

theorem publish_attempts_bounded:
  assumes "publish_transaction rt typed key intent staged build w = (r, w')" "wd_trace w = []"
  shows "length (wd_trace w')
    \<le> (unat (rp_maximum_rebases (rt_policy rt)) + 1) * (unat (rp_maximum_indeterminate_reconciliations (rt_policy rt)) + 1)"
proof -
  obtain p u where p: "pin rt w = (p, u)" by fastforce
  have "wd_trace u = []" using trace_same(1) [OF p] assms(2) by simp
  then show ?thesis using assms(1) p publish_bound [of rt typed _ key intent staged build _ 0 u r w']
    by (cases p) (auto simp: publish_transaction_def)
qed

section \<open>A sample table\<close>

text \<open>A table whose JSON objects all have the text \<^verbatim>\<open>{}\<close>, with the sample image.\<close>

definition tbl_bytes :: "byte list" where "tbl_bytes = as_bytes ''{}''"

definition tbl_serde :: serde where
  "tbl_serde = \<lparr>sj_events = (\<lambda>_. EMap [] None), sj_end = (\<lambda>_. Inr ()), sj_render = (\<lambda>m. m), sj_to_vec = (\<lambda>_. Inr tbl_bytes)\<rparr>"

definition tbl_wire :: wire where
  "tbl_wire = sample_wire\<lparr>w_serde := tbl_serde\<rparr>"

definition tbl_state :: sha256 where
  "tbl_state = next_state_hash sample_externals sample_sha tbl_bytes"

definition tbl_reference :: "string \<Rightarrow> string \<Rightarrow> object_reference" where
  "tbl_reference key media_type =
     \<lparr>or_uri = RelativeUri key, or_sha256 = digest sample_externals tbl_bytes, or_length = None, or_media_type = Some media_type\<rparr>"

definition tbl_commit :: semantic_commit where
  "tbl_commit = sample_commit\<lparr>sc_table_version := 3, sc_parent_table_version := Some 2, sc_semantic_state_sha256 := tbl_state\<rparr>"

definition tbl_generation :: generation where
  "tbl_generation = sample_resolved_generation\<lparr>g_semantic_state_sha256 := tbl_state,
     g_semantic_commit := tbl_reference ''c'' COMMIT_MEDIA_TYPE\<rparr>"

definition tbl_head :: head where
  "tbl_head = \<lparr>h_protocol = PROTOCOL, h_protocol_version = PROTOCOL_VERSION, h_table_id = sample_id, h_table_version = 3,
     h_root_revision = 3, h_semantic_state_sha256 = tbl_state,
     h_semantic_commit = tbl_reference ''c'' COMMIT_MEDIA_TYPE,
     h_metadata_generation = tbl_reference ''g'' GENERATION_MEDIA_TYPE,
     h_required_reader_features = FeatureSet [], h_required_writer_features = FeatureSet []\<rparr>"

definition tbl_database :: database where
  "tbl_database = \<lparr>db_materialize = (\<lambda>_. Inr ()), db_validate = (\<lambda>_ _. Inr ()), db_validate_commit_projection = (\<lambda>_ _. Inr ()),
     db_main_snapshot = (\<lambda>_. Inr None), db_idempotency_row = (\<lambda>_ _. Inr None), db_commit_state = (\<lambda>_ _. Inr []),
     db_state_of_commit = (\<lambda>_ _. Inr (replicate 32 0)), db_open = (\<lambda>_. Inr sample_connection),
     db_meta_row = (\<lambda>_. Inr (1, None, 0)), db_field_type_rows = (\<lambda>_ _. Inr []), db_summaries_after = (\<lambda>_ _. Inr [])\<rparr>"

definition tbl_runtime :: runtime where
  "tbl_runtime = \<lparr>rt_wire = tbl_wire,
     rt_head_json = (\<lambda>bs. if bs = tbl_bytes then Inr tbl_head else Inl ''not a head''),
     rt_commit_json = (\<lambda>_. Inr tbl_commit), rt_generation_json = (\<lambda>_. Inr tbl_generation), rt_utf8_error = (\<lambda>_. ''''),
     rt_checkpoint_query = (\<lambda>_. Inr (id_as_bytes sample_id, 3, 4096, 1)), rt_reserve = (\<lambda>_. True),
     rt_db = tbl_database, rt_policy = retry_policy_default\<rparr>"

definition tbl_store :: memory_state where
  "tbl_store = put_object head_key tbl_bytes (put_object ''c'' tbl_bytes (put_object ''g'' tbl_bytes
     (put_object ''k'' sample_image_bytes memory_default)))"

definition tbl_pinned :: pinned_table where
  "tbl_pinned = \<lparr>pt_raw_head = tbl_bytes, pt_head_version = content_version sample_externals tbl_bytes, pt_head = tbl_head,
     pt_commit = tbl_commit, pt_generation = tbl_generation, pt_current_main = None, pt_checkpoint = sample_stored,
     pt_page_tree = None, pt_resolved = sample_image_bytes\<rparr>"

lemma tbl_ext [simp]: "rt_ext tbl_runtime = sample_externals"
  by (simp add: tbl_runtime_def tbl_wire_def sample_wire_def)

lemma tbl_encode: "encode x (CObject []) = Inr tbl_bytes"
  by (simp add: encode_def tbl_bytes_def)

lemma tbl_parses: "parse tbl_serde tbl_bytes = Inr (CObject [])" "parse_canonical tbl_serde sample_externals tbl_bytes = Inr (CObject [])"
proof -
  have "validate_number_tokens tbl_bytes = Inr ()" by code_simp
  then show p: "parse tbl_serde tbl_bytes = Inr (CObject [])" by (simp add: parse_def tbl_serde_def visit_end_def)
  show "parse_canonical tbl_serde sample_externals tbl_bytes = Inr (CObject [])"
    by (simp add: parse_canonical_def p tbl_encode)
qed

lemma tbl_to_value: "to_value tbl_serde v = Inr (CObject [])"
proof -
  have "sj_to_vec tbl_serde v = Inr tbl_bytes" by (simp add: tbl_serde_def)
  then show ?thesis by (simp add: to_value_def tbl_parses)
qed

lemma tbl_wire_simps [simp]: "w_serde tbl_wire = tbl_serde" "w_ext tbl_wire = sample_externals"
  by (simp_all add: tbl_wire_def sample_wire_def)

lemma tbl_json: "io_json tbl_runtime typed tbl_bytes c = (lift (map_err ProtocolErr (map_err map_json_error (typed tbl_bytes))), c)"
  by (simp add: io_json_def io_protocol_def io_of_def from_slice_canonical_def tbl_parses tbl_runtime_def tbl_wire_def sample_wire_def)

lemma tbl_commit_valid: "commit_validate_runtime_profile tbl_wire tbl_commit = Inr ()"
proof -
  have op: "operation_step tbl_wire False sample_id ({}, {})
      (CObject [(''operation_id'', CString ''o1''), (''ref'', CString ''dev''), (''type'', CString ''drop_ref'')])
    = Inr ({''o1''}, {})"
    by (simp add: operation_step_def operation_type_step_def metadata_kinds_def validate_metadata_operation_def metadata_keys_def
        require_exact_fields_def require_fields_def check_def bt_get_def validate_ref_operation_def require_nonempty_string_def)
  have add: "checked_add (2 :: u64) 1 = Some 3" by (simp add: checked_add_def)
  have "commit_validate tbl_wire tbl_commit = Inr ()"
    by (simp add: commit_validate_def tbl_commit_def sample_commit_def parent_shape_def validate_operations_def op add check_def
        sample_object_def is_object_def intent_step_def reference_step_def)
  then show ?thesis
    by (simp add: commit_validate_runtime_profile_def tbl_commit_def sample_commit_def profile_operation_def accepted_kind_def
        check_def runtime_kinds_def bt_get_def)
qed

lemma tbl_checked: "check_pin_objects tbl_runtime tbl_head tbl_commit tbl_generation = Inr ()"
proof -
  have "validate_head_features tbl_head = Inr ()"
    by (simp add: validate_head_features_def head_validate_def tbl_head_def require_supported_def tbl_reference_def)
  moreover have "recomputed_state tbl_wire tbl_commit = Inr tbl_state"
    by (simp add: recomputed_state_def commit_body_def json_value_def tbl_to_value bt_remove_def tbl_encode tbl_state_def)
      (simp add: tbl_commit_def sample_commit_def)
  moreover have "generation_validate_runtime_profile tbl_generation = Inr ()"
    by (simp add: generation_validate_runtime_profile_def tbl_generation_def sample_resolved_generation_def sample_generation_def
        sample_image_def tbl_reference_def)
  ultimately show ?thesis
    by (simp add: check_pin_objects_def tbl_commit_valid runtime_fault_def lift_def tbl_runtime_def)
      (simp add: tbl_head_def tbl_commit_def sample_commit_def tbl_generation_def sample_resolved_generation_def sample_generation_def)
qed


text \<open>A store with the objects of the table.\<close>

definition has_table :: "memory_state \<Rightarrow> bool" where
  "has_table s = (mem_lookup s ''c'' = Some tbl_bytes \<and> mem_lookup s ''g'' = Some tbl_bytes
     \<and> mem_lookup s ''k'' = Some sample_image_bytes)"

lemma fst_mem_read: "fst (mem_read x k s) =
    (case mem_lookup s (uri_as_str k) of None \<Rightarrow> Inl (NotFound (uri_as_str k))
     | Some bs \<Rightarrow> Inr \<lparr>so_bytes = bs, so_version = content_version x bs\<rparr>)"
  by (auto simp: mem_read_def Let_def mem_lookup_def split: option.splits)

lemma tbl_resolves:
  assumes "has_table s"
  shows "resolve_generation (store_reader tbl_runtime s) tbl_generation None =
     (Inr \<lparr>rg_checkpoint = sample_stored, rg_bytes = sample_image_bytes, rg_tree = None\<rparr>, None)"
proof -
  let ?rd = "store_reader tbl_runtime s"
  have read: "rd_read ?rd (RelativeUri ''k'') = Inr sample_stored"
    using assms by (simp add: store_reader_def fst_mem_read has_table_def sample_stored_def)
  have rd: "rd_ext ?rd = sample_externals" "rd_query ?rd = (\<lambda>_. Inr (id_as_bytes sample_id, 3, 4096, 1))" "rd_reserve ?rd = (\<lambda>_. True)"
    by (simp_all add: store_reader_def) (simp_all add: tbl_runtime_def)
  have one: "u64_of_usize (Suc 0) = 1" "u64_of_usize 4096 = 4096" "u64_of_usize 0 = 0" by (simp_all add: u64_of_usize_def)
  have header: "u64_from_u32 (u32_from_be_bytes [0, 0, 0, 1]) = 1"
    by (simp add: u32_from_be_bytes_def be_val_def u64_from_u32_def)
  have add: "checked_add (1 :: u64) 1 = Some 2" by (simp add: checked_add_def)
  have g: "g_metadata_image tbl_generation = sample_image" "g_table_id tbl_generation = sample_id" "g_table_version tbl_generation = 3"
    by (simp_all add: tbl_generation_def sample_resolved_generation_def sample_generation_def)
  have "resolve_checkpoint ?rd tbl_generation None = (Inr sample_stored, None)"
    by (simp add: resolve_checkpoint_def Let_def read rd g)
      (simp add: sample_image_def io_bind_def read_metadata_def verified_read_def read rd g sample_stored_def sample_image_facts one lift_def
        verify_checkpoint_index_def io_return_def io_of_def)
  then show ?thesis
    by (simp add: resolve_generation_def Let_def io_bind_def rd g)
      (simp add: sample_image_def sample_stored_def sample_image_facts io_or_def io_of_def usize_checked_mul_def usize_bound_def
        io_bind_def rd g resolve_tree_def io_return_def io_some_def one add copy_at_def header lift_def)
qed

lemma tbl_loads:
  assumes "has_table s"
  shows "load_pin tbl_runtime (store_reader tbl_runtime s) \<lparr>so_bytes = tbl_bytes, so_version = content_version sample_externals tbl_bytes\<rparr>
      tbl_head None = (Inr tbl_pinned, None)"
proof -
  let ?rd = "store_reader tbl_runtime s"
  have read: "read_metadata ?rd (tbl_reference k m) None =
      (Inr \<lparr>so_bytes = tbl_bytes, so_version = content_version sample_externals tbl_bytes\<rparr>, None)" if "k \<in> {''c'', ''g''}" for k m
    using assms that by (auto simp: read_metadata_def verified_read_def store_reader_def fst_mem_read has_table_def tbl_reference_def lift_def)
  have refs: "h_semantic_commit tbl_head = tbl_reference ''c'' COMMIT_MEDIA_TYPE"
    "h_metadata_generation tbl_head = tbl_reference ''g'' GENERATION_MEDIA_TYPE" by (simp_all add: tbl_head_def)
  have feats: "validate_head_features tbl_head = Inr ()"
    by (simp add: validate_head_features_def head_validate_def tbl_head_def require_supported_def tbl_reference_def)
  have typed: "rt_commit_json tbl_runtime bs = Inr tbl_commit" "rt_generation_json tbl_runtime bs = Inr tbl_generation"
    "rt_wire tbl_runtime = tbl_wire" "rt_db tbl_runtime = tbl_database" for bs
    by (simp_all add: tbl_runtime_def)
  have "utf8_valid tbl_bytes" by code_simp
  then have "canonical_text tbl_wire bad v = Inr (string_of_bytes tbl_bytes)" for bad v
    by (simp add: canonical_text_def json_vec_def to_vec_def tbl_to_value tbl_encode)
  then have img: "check_pin_image tbl_runtime tbl_head tbl_commit bs = Inr None" for bs
    by (simp add: check_pin_image_def typed) (simp add: tbl_database_def query_optional_id_def)
  show ?thesis
    by (simp add: load_pin_def io_bind_def io_of_def feats lift_def read refs tbl_json typed
        load_pin_objects_def tbl_checked tbl_resolves [OF assms] img io_return_def tbl_pinned_def)
qed

lemma call_alone: "wd_env w = [] \<Longrightarrow> call x f w = (fst (f (wd_store w)), w\<lparr>wd_store := snd (f (wd_store w))\<rparr>)"
  by (simp add: call_def interfere_def split: prod.splits)

lemma tbl_pins:
  assumes "wd_env w = []" "has_table (wd_store w)" "mem_lookup (wd_store w) head_key = Some tbl_bytes"
  shows "pin tbl_runtime w = (Inr tbl_pinned, w\<lparr>wd_store := (wd_store w)\<lparr>ms_reads := ms_reads (wd_store w) + 1\<rparr>\<rparr>)"
proof -
  have store: "snd (mem_read sample_externals (RelativeUri head_key) (wd_store w)) = (wd_store w)\<lparr>ms_reads := ms_reads (wd_store w) + 1\<rparr>"
    by (simp add: mem_read_def Let_def)
  have head: "rt_head_json tbl_runtime tbl_bytes = Inr tbl_head" by (simp add: tbl_runtime_def)
  have table: "has_table ((wd_store w)\<lparr>ms_reads := n\<rparr>)" for n using assms(2) by (simp add: has_table_def)
  show ?thesis using assms(1,3) tbl_loads [OF table]
    by (simp add: pin_def head_key_uri call_alone fst_mem_read store interfere_def Let_def tbl_json head io_bind_def lift_def)
qed

lemma put_fresh:
  assumes "wd_env w = []" "mem_ok (wd_store w)" "mem_lookup (wd_store w) (uri_as_str k) = None"
  shows "put_immutable x k bs w =
    (Inr (), w\<lparr>wd_store := (put_object (uri_as_str k) bs (wd_store w))\<lparr>ms_reads := ms_reads (wd_store w) + 1\<rparr>\<rparr>)"
proof -
  have "ms_reads (put_object (uri_as_str k) bs (wd_store w)) = ms_reads (wd_store w)" by (simp add: put_object_def Let_def)
  moreover have "confirm_readable x k (digest x bs) (u64_of_usize (length bs)) (put_object (uri_as_str k) bs (wd_store w)) =
    (Inr (content_version x bs), (put_object (uri_as_str k) bs (wd_store w))\<lparr>ms_reads := ms_reads (put_object (uri_as_str k) bs (wd_store w)) + 1\<rparr>)"
    using fst_mem_read [of x k "put_object (uri_as_str k) bs (wd_store w)"] assms(2)
    by (auto simp: confirm_readable_def mem_lookup_put mem_read_def Let_def split: prod.splits)
  ultimately show ?thesis using assms by (simp add: put_immutable_def call_alone create_bytes_eq)
qed

definition tbl_candidate :: "string candidate" where
  "tbl_candidate = \<lparr>cd_semantic_state = sample_sha, cd_commit_uri = RelativeUri ''c2'', cd_commit_bytes = [2],
     cd_image_artifacts = [], cd_generation_uri = RelativeUri ''g2'', cd_generation_bytes = [3], cd_head_bytes = [1], cd_result = ''ok''\<rparr>"

definition tbl_world :: world where
  "tbl_world = \<lparr>wd_store = tbl_store, wd_env = [], wd_trace = []\<rparr>"

definition tbl_publish :: "string outcome \<times> world" where
  "tbl_publish = publish_transaction tbl_runtime (\<lambda>_. Inl ''no result'') ''k'' sample_sha [] (\<lambda>_ _. Inr tbl_candidate) tbl_world"

lemma tbl_store_facts: "mem_ok tbl_store" "mem_lookup tbl_store = [''k'' \<mapsto> sample_image_bytes, ''g'' \<mapsto> tbl_bytes, ''c'' \<mapsto> tbl_bytes, head_key \<mapsto> tbl_bytes]"
  "ms_conditional_outcomes tbl_store = []"
proof -
  have "mem_lookup memory_default = Map.empty" by (simp add: mem_lookup_def memory_default_def bt_get_def fun_eq_iff)
  then show "mem_lookup tbl_store = [''k'' \<mapsto> sample_image_bytes, ''g'' \<mapsto> tbl_bytes, ''c'' \<mapsto> tbl_bytes, head_key \<mapsto> tbl_bytes]"
    by (simp add: tbl_store_def mem_lookup_put mem_ok_put)
qed (simp_all add: tbl_store_def mem_ok_put, simp add: put_object_def Let_def memory_default_def)

lemma tbl_published: "fst tbl_publish = Inr (''ok'', sample_sha) \<and> writes (snd tbl_publish) = 1"
proof -
  have keys: "head_key \<noteq> ''c''" "head_key \<noteq> ''g''" "head_key \<noteq> ''k''" "head_key \<noteq> ''c2''" "head_key \<noteq> ''g2''" by (simp_all add: head_key_def)
  have replay: "replay tbl_runtime typed tbl_pinned k h = Inr None" for typed :: "byte list \<Rightarrow> (string, string) result" and k h
    by (simp add: replay_def idempotency_def tbl_runtime_def tbl_database_def)
  have cand: "cd_head_bytes tbl_candidate = [1]" "cd_result tbl_candidate = ''ok''" "cd_semantic_state tbl_candidate = sample_sha"
    by (simp_all add: tbl_candidate_def)
  let ?w = "tbl_world\<lparr>wd_store := tbl_store\<lparr>ms_reads := ms_reads tbl_store + 1\<rparr>\<rparr>"
  have pin: "pin tbl_runtime tbl_world = (Inr tbl_pinned, ?w)"
    using tbl_pins [of tbl_world] keys by (simp add: tbl_world_def has_table_def tbl_store_facts)
  obtain s where up: "upload sample_externals [] tbl_candidate ?w = (Inr (), tbl_world\<lparr>wd_store := s\<rparr>)"
    and s: "mem_lookup s head_key = Some tbl_bytes" "ms_conditional_outcomes s = []"
    using keys by (simp add: upload_def candidate_objects_def tbl_candidate_def put_fresh tbl_world_def tbl_store_facts mem_lookup_put mem_ok_put)
      (simp add: put_object_def Let_def tbl_store_facts)
  have same: "s\<lparr>ms_conditional_outcomes := []\<rparr> = s" using s(2) by (cases s) simp
  have cas: "call_replace_head sample_externals (pt_head_version tbl_pinned) [1] (tbl_world\<lparr>wd_store := s\<rparr>) =
      (Applied (content_version sample_externals [1]),
       tbl_world\<lparr>wd_store := put_object head_key [1] s, wd_trace := [(s, Applied (content_version sample_externals [1]), put_object head_key [1] s)]\<rparr>)"
    using s by (simp add: call_replace_head_def interfere_def tbl_world_def replace_head_def conditional_def Let_def mem_lookup_def
        tbl_pinned_def)
      (auto simp: option.map_comp comp_def same)
  have "attempt_head tbl_runtime typed sample_id k h tbl_pinned tbl_candidate 0 (tbl_world\<lparr>wd_store := s\<rparr>) =
      (Returned (Inr (''ok'', sample_sha)),
       tbl_world\<lparr>wd_store := put_object head_key [1] s, wd_trace := [(s, Applied (content_version sample_externals [1]), put_object head_key [1] s)]\<rparr>)"
    for typed k h by (subst attempt_head.simps) (simp add: cand cas)
  moreover have "h_table_id (pt_head tbl_pinned) = sample_id" by (simp add: tbl_pinned_def tbl_head_def)
  ultimately show ?thesis
    by (simp add: tbl_publish_def publish_transaction_def pin publish_transaction_from_parent.simps prepare_def replay up
        writes_def took_effect_def put_object_revision)
qed

text \<open>The versions of the heads that record the key: only the candidate's.\<close>

definition tbl_recorded :: "object_version \<Rightarrow> bool" where
  "tbl_recorded v = (v = content_version sample_externals [1])"

lemma pin_decoded:
  assumes "pin rt w = (Inr p, w')"
  shows "from_slice_canonical (w_serde (rt_wire rt)) (rt_ext rt) (rt_head_json rt) (pt_raw_head p) = Inr (pt_head p)
    \<and> pt_head_version p = content_version (rt_ext rt) (pt_raw_head p)"
proof -
  obtain raw u where c: "call (rt_ext rt) (mem_read (rt_ext rt) (RelativeUri head_key)) w = (Inr raw, u)"
    and r: "fst (io_bind (io_json rt (rt_head_json rt) (so_bytes raw)) (\<lambda>head.
        load_pin rt (store_reader rt (wd_store w')) raw head) None) = Inr p"
    using assms by (auto simp: pin_def head_key_uri Let_def split: prod.splits sum.splits)
  from r obtain head c' where l: "fst (load_pin rt (store_reader rt (wd_store w')) raw head c') = Inr p"
    and h: "from_slice_canonical (w_serde (rt_wire rt)) (rt_ext rt) (rt_head_json rt) (so_bytes raw) = Inr head"
    by (auto simp: io_bind_Inr io_json_def io_protocol_def io_of_def lift_eq_Inr map_err_eq_Inr)
  have "so_version raw = content_version (rt_ext rt) (so_bytes raw)"
    using c by (auto simp: call_def Let_def mem_read_def result_simps split: prod.splits option.splits)
  then show ?thesis using load_pin_fields [OF l] h by simp
qed

lemma hex_encode_eq: "hex_laws x \<Longrightarrow> hex_encode x a = hex_encode x b \<longleftrightarrow> a = b"
  unfolding hex_laws_def by (metis sum.inject(2))

lemma tbl_versions: "content_version sample_externals [1] \<noteq> content_version sample_externals tbl_bytes"
proof
  assume "content_version sample_externals [1] = content_version sample_externals tbl_bytes"
  then have "sha256_fn sample_externals [1] = sha256_fn sample_externals tbl_bytes"
    by (simp add: content_version_def version_from_sha256_def sha_to_string_def digest_def hex_encode_eq sample_laws)
  then have "last (sha256_fn sample_externals [1]) = last (sha256_fn sample_externals tbl_bytes)" by simp
  moreover have "last (to_be 32 v) = word_of_nat (v mod 256)" for v using to_be.simps(2) [of 31 v] by simp
  moreover have "be_val tbl_bytes = 31613" "be_val [1] = 1" by (simp_all add: tbl_bytes_def be_val_def)
  ultimately show False by (simp add: sample_externals_def del: to_be.simps)
qed

lemma tbl_laws:
  "ledger_law tbl_runtime (\<lambda>_. Inl ''no result'' :: (string, string) result) sample_id ''k'' sample_sha tbl_recorded"
  "build_law tbl_runtime (\<lambda>_ _. Inr tbl_candidate) tbl_recorded"
proof -
  have "pt_raw_head p = tbl_bytes \<and> pt_head p = tbl_head \<and> pt_head_version p = content_version sample_externals tbl_bytes"
    if p: "pinned_from tbl_runtime p" for p
  proof -
    have head: "rt_head_json tbl_runtime bs = (if bs = tbl_bytes then Inr tbl_head else Inl ''not a head'')" for bs
      by (simp add: tbl_runtime_def)
    obtain w w' where "pin tbl_runtime w = (Inr p, w')" using p by (auto simp: pinned_from_def)
    from pin_decoded [OF this] show ?thesis
      by (auto simp: from_slice_canonical_def result_simps head split: if_splits)
  qed
  moreover have "replay tbl_runtime (\<lambda>_. Inl ''no result'' :: (string, string) result) p ''k'' sample_sha = Inr None" for p
    by (simp add: replay_def idempotency_def tbl_runtime_def tbl_database_def)
  ultimately show "ledger_law tbl_runtime (\<lambda>_. Inl ''no result'' :: (string, string) result) sample_id ''k'' sample_sha tbl_recorded"
    using tbl_versions by (auto simp: ledger_law_def tbl_recorded_def tbl_head_def)
  show "build_law tbl_runtime (\<lambda>_ _. Inr tbl_candidate) tbl_recorded"
    by (simp add: build_law_def tbl_recorded_def tbl_candidate_def)
qed

theorem publish_exactly_once_witness:
  "fst tbl_publish = Inr (''ok'', sample_sha) \<and> writes (snd tbl_publish) = 1 \<and> records sample_externals tbl_recorded (wd_store (snd tbl_publish))"
proof -
  have "fair (keeps_ledger sample_externals tbl_recorded) has_head tbl_world"
    by (simp add: fair_def tbl_world_def has_head_def tbl_store_facts)
  then have "records sample_externals tbl_recorded (wd_store (snd tbl_publish))"
    using publish_exactly_once [OF _ tbl_laws, of "[]" tbl_world "fst tbl_publish" "snd tbl_publish"] tbl_published
    by (simp add: tbl_publish_def)
  with tbl_published show ?thesis by blast
qed

theorem publish_attempts_bounded_witness: "length (wd_trace (snd tbl_publish)) \<le> 36"
  using publish_attempts_bounded [of tbl_runtime "\<lambda>_. Inl ''no result''" "''k''" sample_sha "[]" "\<lambda>_ _. Inr tbl_candidate" tbl_world
      "fst tbl_publish" "snd tbl_publish"]
  by (simp add: tbl_publish_def tbl_world_def) (simp add: tbl_runtime_def retry_policy_default_def)

theorem publish_grounded_heads_witness:
  "list_all (grounded tbl_runtime (\<lambda>_. Inl ''no result'') ''k'' sample_sha [] (\<lambda>_ _. Inr tbl_candidate)) (wd_trace (snd tbl_publish))"
proof (rule publish_grounded_heads [of _ _ _ _ _ _ tbl_world "fst tbl_publish" _ "{''c2'', ''g2''}"])
  show "\<forall>n p c. Inr tbl_candidate = Inr c \<longrightarrow> protected (rt_ext tbl_runtime) {''c2'', ''g2''} [] c"
    by (simp add: protected_def needed_def candidate_objects_def tbl_candidate_def head_key_def)
qed (simp_all add: tbl_publish_def tbl_world_def tbl_store_facts)

end
