(* ===== verification/Checkpoint_Build.thy ===== *)
theory Checkpoint_Build
  imports Image_Resolve
begin

text \<open>
  Building the page index of a checkpoint, \<^verbatim>\<open>otmp/src/checkpoint_index.rs\<close>: one leaf per 128 pages, then levels of
  internal nodes until one is left. The index that is built is accepted by the walk that readers do over it, on any
  store that holds the built nodes.
\<close>

section \<open>Building\<close>

type_synonym index_row = "u64 \<times> u64 \<times> page_object_reference"

definition ci_reference_of :: "externals \<Rightarrow> byte list \<Rightarrow> (runtime_error, page_object_reference \<times> artifact) result" where
  "ci_reference_of x bs =
     and_then (map_err ProtocolErr (uri_from_str (content_uri x ''_otmp/checkpoint-page-index/'' ''.cbor'' bs))) (\<lambda>uri.
       Inr (content_reference x uri bs, \<lparr>art_uri = uri, art_bytes = bs\<rparr>))"

text \<open>The steps that both loops share: encode a node, address it, and keep its interval and its bytes.\<close>

definition add_node :: "externals \<Rightarrow> index_row list \<times> artifact list \<Rightarrow> checkpoint_index_node
    \<Rightarrow> (runtime_error, index_row list \<times> artifact list) result" where
  "add_node x s node =
     (case s of (rows, arts) \<Rightarrow>
      and_then (map_err ProtocolErr (encode_checkpoint_index node)) (\<lambda>encoded.
      and_then (ci_reference_of x encoded) (\<lambda>(r, art).
        Inr (rows @ [(ci_first_page node, ci_page_count node, r)], arts @ [art]))))"

definition leaf_of :: "externals \<Rightarrow> nat \<Rightarrow> nat \<times> byte list \<Rightarrow> checkpoint_index_node" where
  "leaf_of x page_size item =
     (case item of (chunk, pages) \<Rightarrow>
      IndexLeaf (u64_of_usize (chunk * checkpoint_index_capacity + 1)) (map (digest x) (chunks page_size pages)))"

definition child_of :: "index_row \<Rightarrow> checkpoint_index_child" where
  "child_of row =
     (case row of (first_page, page_count, child) \<Rightarrow>
      \<lparr>cic_first_page = first_page, cic_page_count = page_count, cic_child = child\<rparr>)"

definition build_level :: "externals \<Rightarrow> u32 \<Rightarrow> index_row list \<Rightarrow> artifact list
    \<Rightarrow> (runtime_error, index_row list \<times> artifact list) result" where
  "build_level x height rows arts =
     try_fold (\<lambda>s group. add_node x s (IndexInternal height (map child_of group))) ([], arts)
       (chunks checkpoint_index_capacity rows)"

text \<open>\<^verbatim>\<open>while current.len() > 1\<close>. Each level divides the number of rows, which the proof of termination shows.\<close>

lemma length_chunks_less: "1 < n \<Longrightarrow> 1 < length xs \<Longrightarrow> length (chunks n xs) < length xs"
proof (induction n xs rule: chunks.induct)
  case (1 n xs)
  show ?case
  proof (cases "1 < length (drop n xs)")
    case True
    then show ?thesis using 1 by (subst chunks.simps) auto
  next
    case False
    then have "length (chunks n (drop n xs)) \<le> length (drop n xs)"
      using 1(2) by (cases "drop n xs") (auto simp: chunks.simps [of n "[_]"] chunks.simps [of n "[]"])
    then show ?thesis using 1(2,3) by (subst chunks.simps) auto
  qed
qed

lemma add_node_length: "add_node x s node = Inr t \<Longrightarrow> length (fst t) = Suc (length (fst s))"
  by (auto simp: add_node_def and_then_eq_Inr split: prod.splits)

lemma build_level_length:
  assumes "build_level x h rows arts = Inr (rows', arts')"
  shows "length rows' = length (chunks checkpoint_index_capacity rows)"
proof -
  have "try_fold (\<lambda>s group. add_node x s (IndexInternal h (map child_of group))) s gs = Inr t
      \<Longrightarrow> length (fst t) = length (fst s) + length gs" for s gs t
    by (induction gs arbitrary: s) (auto simp: and_then_eq_Inr dest!: add_node_length)
  from this [OF assms [unfolded build_level_def]] show ?thesis by simp
qed

function build_levels :: "externals \<Rightarrow> u32 \<Rightarrow> index_row list \<Rightarrow> artifact list
    \<Rightarrow> (runtime_error, u32 \<times> index_row list \<times> artifact list) result" where
  "build_levels x height rows arts =
     (if length rows > 1
      then case build_level x (height + 1) rows arts of
             Inl e \<Rightarrow> Inl e
           | Inr (rows', arts') \<Rightarrow> build_levels x (height + 1) rows' arts'
      else Inr (height, rows, arts))"
  by pat_completeness auto
termination
proof (relation "measure (\<lambda>(_, _, rows, _). length rows)")
  fix x height and rows rows' :: "index_row list" and arts arts' r
  assume "1 < length rows" "build_level x (height + 1) rows arts = Inr r" "(rows', arts') = r"
  then show "((x, height + 1, rows', arts'), x, height, rows, arts) \<in> measure (\<lambda>(_, _, rows, _). length rows)"
    using build_level_length [of x "height + 1" rows arts rows' arts'] length_chunks_less [of checkpoint_index_capacity rows]
    by (auto simp: checkpoint_index_capacity_def)
qed simp

declare build_levels.simps [simp del]

definition build :: "externals \<Rightarrow> checkpoint \<Rightarrow> u32 \<Rightarrow> byte list
    \<Rightarrow> (runtime_error, checkpoint_page_index \<times> artifact list) result" where
  "build x c page_size bs =
     (if page_size = 0 \<or> bs = [] \<or> length bs mod unat page_size \<noteq> 0 \<or> object_hash x bs \<noteq> cp_sha256 c
         \<or> u64_of_usize (length bs) \<noteq> cp_length c
      then Inl (Corrupt ''invalid checkpoint bytes for page index'')
      else
        and_then (ok_or (Corrupt ''checkpoint index leaf size overflow'')
                    (usize_checked_mul (unat page_size) checkpoint_index_capacity)) (\<lambda>leaf_bytes.
        and_then (try_fold (\<lambda>s item. add_node x s (leaf_of x (unat page_size) item)) ([], [])
                    (enumerate 0 (chunks leaf_bytes bs))) (\<lambda>(rows, arts).
        and_then (build_levels x 0 rows arts) (\<lambda>(height, rows, arts).
        and_then (ok_or (Corrupt ''empty checkpoint page index'') (last_opt rows)) (\<lambda>(_, indexed_pages, root).
          if indexed_pages \<noteq> u64_of_usize (length bs div unat page_size)
          then Inl (Corrupt ''checkpoint page index coverage mismatch'')
          else
            let idx = \<lparr>cpi_checkpoint_sha256 = cp_sha256 c, cpi_checkpoint_length = cp_length c,
                       cpi_page_size = page_size, cpi_page_count = u64_of_usize (length bs div unat page_size),
                       cpi_root = \<lparr>pmr_uri = por_uri root, pmr_sha256 = por_sha256 root,
                         pmr_length = por_length root, pmr_height = height\<rparr>\<rparr> in
            and_then (map_err ProtocolErr (checkpoint_page_index_validate idx c page_size)) (\<lambda>_.
              Inr (idx, arts)))))))"

section \<open>The walk over a built index\<close>

text \<open>
  \<open>stored x A r node\<close>: the artifacts \<open>A\<close> hold the bytes of a valid node under the reference \<open>r\<close>.
  \<open>indexed x A ps bs l row\<close>: the row of level \<open>l\<close> is the root of an index over its interval of the pages of \<open>bs\<close>.
\<close>

definition stored :: "externals \<Rightarrow> artifact set \<Rightarrow> page_object_reference \<Rightarrow> checkpoint_index_node \<Rightarrow> bool" where
  "stored x A r node =
     ((\<exists>a \<in> A. art_bytes a = checkpoint_index_bytes node \<and> r = content_reference x (art_uri a) (art_bytes a))
      \<and> ci_node_ok node \<and> ci_validate node = Inr ()
      \<and> length (checkpoint_index_bytes node) \<le> max_checkpoint_index_bytes)"

inductive indexed :: "externals \<Rightarrow> artifact set \<Rightarrow> nat \<Rightarrow> byte list \<Rightarrow> nat \<Rightarrow> index_row \<Rightarrow> bool"
  for x A page_size bs where
  leaf: "stored x A r (IndexLeaf p hs) \<Longrightarrow> (unat p - 1 + length hs) * page_size \<le> length bs
    \<Longrightarrow> (\<And>i. i < length hs \<Longrightarrow> hs ! i = digest x (take page_size (drop ((unat p - 1 + i) * page_size) bs)))
    \<Longrightarrow> indexed x A page_size bs 0 (p, u64_of_usize (length hs), r)"
| internal: "stored x A r (IndexInternal (word_of_nat (Suc l)) (map child_of rows))
    \<Longrightarrow> (\<And>row. row \<in> set rows \<Longrightarrow> indexed x A page_size bs l row)
    \<Longrightarrow> p = ci_first_page (IndexInternal (word_of_nat (Suc l)) (map child_of rows))
    \<Longrightarrow> n = ci_page_count (IndexInternal (word_of_nat (Suc l)) (map child_of rows))
    \<Longrightarrow> indexed x A page_size bs (Suc l) (p, n, r)"

lemma indexed_mono: "indexed x A ps bs l row \<Longrightarrow> A \<subseteq> B \<Longrightarrow> indexed x B ps bs l row"
proof (induction rule: indexed.induct)
  case (leaf r p hs)
  then show ?case by (intro indexed.leaf) (auto simp: stored_def)
next
  case (internal r l rows p n)
  then show ?case by (intro indexed.internal [of x B r l rows]) (auto simp: stored_def)
qed

text \<open>A reader that serves the artifacts.\<close>

definition serves :: "reader \<Rightarrow> artifact set \<Rightarrow> bool" where
  "serves rd A = (\<forall>a \<in> A. \<exists>o'. rd_read rd (art_uri a) = Inr o' \<and> so_bytes o' = art_bytes a)"

definition node_at :: "reader \<Rightarrow> string \<Rightarrow> checkpoint_index_node \<Rightarrow> bool" where
  "node_at rd u node =
     (\<exists>o'. rd_read rd (RelativeUri u) = Inr o' \<and> decode_checkpoint_index (so_bytes o') = Inr node)"

definition below :: "nat \<Rightarrow> nat \<Rightarrow> nat \<Rightarrow> checkpoint_index_node \<Rightarrow> bool" where
  "below l p n node = (unat (ci_level node) \<le> l \<and> p \<le> unat (ci_first_page node) \<and> unat (ci_first_page node) < p + n)"

lemma node_at_unique: "node_at rd u a \<Longrightarrow> node_at rd u b \<Longrightarrow> a = b"
  by (auto simp: node_at_def)

lemma io_bind_step: "m c = (Inr v, c') \<Longrightarrow> io_bind m f c = f v c'"
  by (simp add: io_bind_def)

lemma read_stored:
  assumes "stored x A r node" "serves rd A" "rd_ext rd = x"
  shows "\<exists>o'. read_metadata rd (object r mt) None = (Inr o', None) \<and> decode_checkpoint_index (so_bytes o') = Inr node"
    and "node_at rd (uri_as_str (por_uri r)) node"
    and "por_length r \<le> u64_of_usize max_checkpoint_index_bytes"
proof -
  from assms(1) obtain a where a: "a \<in> A" "art_bytes a = checkpoint_index_bytes node"
      "r = content_reference x (art_uri a) (art_bytes a)" and ok: "ci_node_ok node" "ci_validate node = Inr ()"
      "length (checkpoint_index_bytes node) \<le> max_checkpoint_index_bytes"
    by (auto simp: stored_def)
  from assms(2) a obtain o' where o': "rd_read rd (art_uri a) = Inr o'" "so_bytes o' = checkpoint_index_bytes node"
    by (auto simp: serves_def)
  have d: "decode_checkpoint_index (so_bytes o') = Inr node"
    unfolding o'(2) by (rule decode_checkpoint_index_bytes [OF ok])
  have "verified_read rd (object r mt) = Inr o'"
    using o' a assms(3) by (simp add: verified_read_def object_def content_reference_def object_hash_def)
  then have "read_metadata rd (object r mt) None = (Inr o', None)"
    by (simp add: read_metadata_def lift_def)
  with d show "\<exists>o'. read_metadata rd (object r mt) None = (Inr o', None) \<and> decode_checkpoint_index (so_bytes o') = Inr node"
    by blast
  show "node_at rd (uri_as_str (por_uri r)) node"
    using d o' a by (cases "art_uri a") (auto simp: node_at_def content_reference_def)
  show "por_length r \<le> u64_of_usize max_checkpoint_index_bytes"
    using ok(3) a max_checkpoint_index_usize
    by (simp add: content_reference_def word_le_nat_alt unat_u64_of_usize)
qed

lemma verify_stored:
  assumes s: "stored x A r node" "serves rd A" "rd_ext rd = x"
    and l: "l \<le> 64" "ci_level node = word_of_nat l"
    and new: "uri_as_str (por_uri r) \<notin> seen"
  shows "verify_node rd l r (ci_first_page node) (ci_page_count node) seen None
    = (Inr (node, insert (uri_as_str (por_uri r)) seen), None)"
proof -
  from read_stored(1) [OF s] obtain o' where
    o': "read_metadata rd (object r CHECKPOINT_PAGE_INDEX_MEDIA_TYPE) None = (Inr o', None)"
      "decode_checkpoint_index (so_bytes o') = Inr node" by blast
  from read_stored(3) [OF s] l new show ?thesis
    by (simp add: verify_node_def o' io_protocol_def io_return_def io_of_def io_bind_def lift_def flip: not_le)
qed

lemma verify_page_ok:
  assumes "0 < unat p" "unat p + i < usize_bound" "(unat p - 1 + i) * ps + ps \<le> length bs" "length bs < usize_bound"
    and "h = digest x (take ps (drop ((unat p - 1 + i) * ps) bs))"
  shows "verify_page x ps bs p (i, h) c = (Inr (), c)"
proof -
  have i: "i < usize_bound" using assms(2) by simp
  have a: "checked_add p (u64_of_usize i) = Some (p + u64_of_usize i)"
    "unat (p + u64_of_usize i) = unat p + i"
    using assms(2) unat_u64_of_usize [OF i] by (simp_all add: checked_add_def unat_word_ariths usize_bound_def)
  have b: "checked_sub (p + u64_of_usize i) 1 = Some (p + u64_of_usize i - 1)"
    "unat (p + u64_of_usize i - 1) = unat p - 1 + i"
    using a(2) assms(1) by (simp_all add: checked_sub_def unat_sub word_le_nat_alt)
  have "(unat p - 1 + i) * ps < usize_bound" "(unat p - 1 + i) * ps + ps < usize_bound"
    using assms(3,4) by linarith+
  then show ?thesis
    using assms(3,5)
    by (simp add: verify_page_def io_bind_def io_or_def io_some_def io_of_def io_return_def a b
        usize_checked_mul_def usize_checked_add_def get_range_def)
qed

lemma io_fold_unit:
  "(\<And>a. a \<in> set as \<Longrightarrow> f () a c = (Inr (), c)) \<Longrightarrow> io_fold f () as c = (Inr (), c)"
  by (induction as) (simp_all add: io_return_def io_of_def io_bind_step)

lemma leaf_valid:
  assumes "ci_validate (IndexLeaf p hs) = Inr ()"
  shows "0 < unat p" "hs \<noteq> []" "length hs \<le> 128" "unat p + (length hs - 1) < usize_bound"
proof -
  show n: "0 < unat p" "hs \<noteq> []" "length hs \<le> 128"
    using assms by (auto simp: unat_gt_0 checkpoint_index_capacity_def split: if_splits)
  obtain q where q: "checked_add p (u64_of_usize (length hs) - 1) = Some q"
    using assms by (auto simp: result_simps split: if_splits)
  have "length hs < usize_bound" using n(3) by (simp add: usize_bound_def)
  then have "unat (u64_of_usize (length hs) - 1) = length hs - 1"
    using n(2) unat_u64_of_usize [of "length hs"] by (simp add: unat_sub word_le_nat_alt Suc_leI)
  then show "unat p + (length hs - 1) < usize_bound"
    using q by (auto simp: checked_add_def usize_bound_def split: if_splits)
qed

definition extends :: "reader \<Rightarrow> nat \<Rightarrow> nat \<Rightarrow> nat \<Rightarrow> string set \<Rightarrow> string set \<Rightarrow> bool" where
  "extends rd l p n seen seen' = (\<forall>u \<in> seen'. u \<in> seen \<or> (\<exists>node. node_at rd u node \<and> below l p n node))"

definition avoids :: "reader \<Rightarrow> nat \<Rightarrow> nat \<Rightarrow> nat \<Rightarrow> string set \<Rightarrow> bool" where
  "avoids rd l p n seen = (\<forall>u \<in> seen. \<forall>node. node_at rd u node \<longrightarrow> \<not> below l p n node)"

lemma avoids_extends:
  assumes "avoids rd l p (n + m) seen" "extends rd l p n seen seen'"
  shows "avoids rd l (p + n) m seen'"
  using assms unfolding avoids_def extends_def below_def by (fastforce dest: node_at_unique)

lemma extends_trans:
  assumes "extends rd l p n seen s" "extends rd l (p + n) m s t"
  shows "extends rd l p (n + m) seen t"
  using assms unfolding extends_def below_def by fastforce

lemma child_of_row [simp]: "child_of (f, n, r) = \<lparr>cic_first_page = f, cic_page_count = n, cic_child = r\<rparr>"
  by (simp add: child_of_def)

lemma verify_rows:
  assumes "\<And>row seen. row \<in> set rows \<Longrightarrow> avoids rd l (unat (fst row)) (unat (fst (snd row))) seen \<Longrightarrow>
      \<exists>seen'. verify_checkpoint_index_node rd ps bs l (snd (snd row)) (fst row) (fst (snd row)) seen None = (Inr seen', None)
        \<and> extends rd l (unat (fst row)) (unat (fst (snd row))) seen seen'"
    and "contiguous p (map child_of rows)" "avoids rd l p (total_pages (map child_of rows)) seen"
  shows "\<exists>seen'. io_fold (\<lambda>seen entry. verify_checkpoint_index_node rd ps bs l (cic_child entry) (cic_first_page entry)
        (cic_page_count entry) seen) seen (map child_of rows) None = (Inr seen', None)
      \<and> extends rd l p (total_pages (map child_of rows)) seen seen'"
  using assms
proof (induction rows arbitrary: p seen)
  case Nil
  then show ?case by (auto simp: io_return_def io_of_def extends_def)
next
  case (Cons row rows)
  obtain f n r where row: "row = (f, n, r)" by (cases row)
  have f: "unat f = p" and c: "contiguous (p + unat n) (map child_of rows)"
    and tot: "total_pages (map child_of (row # rows)) = unat n + total_pages (map child_of rows)"
    using Cons.prems(2) by (simp_all add: row total_pages_def)
  have "avoids rd l p (unat n) seen"
    using Cons.prems(3) unfolding tot avoids_def below_def by fastforce
  with Cons.prems(1) [of row seen] obtain s where
    s: "verify_checkpoint_index_node rd ps bs l r f n seen None = (Inr s, None)" "extends rd l p (unat n) seen s"
    by (auto simp: row f)
  have av: "avoids rd l (p + unat n) (total_pages (map child_of rows)) s"
    using avoids_extends [OF _ s(2)] Cons.prems(3) unfolding tot by blast
  from Cons.IH [OF _ c av] Cons.prems(1) obtain t where
    "io_fold (\<lambda>seen entry. verify_checkpoint_index_node rd ps bs l (cic_child entry) (cic_first_page entry)
        (cic_page_count entry) seen) s (map child_of rows) None = (Inr t, None)"
    "extends rd l (p + unat n) (total_pages (map child_of rows)) s t"
    by (auto simp del: split_paired_All)
  with s extends_trans [OF s(2)] show ?case
    unfolding tot by (auto simp: row io_bind_step)
qed


lemma verify_indexed:
  assumes "indexed x A ps bs l row" "serves rd A" "rd_ext rd = x" "length bs < usize_bound" "l \<le> 64"
    and "avoids rd l (unat (fst row)) (unat (fst (snd row))) seen"
  shows "\<exists>seen'. verify_checkpoint_index_node rd ps bs l (snd (snd row)) (fst row) (fst (snd row)) seen None = (Inr seen', None)
      \<and> extends rd l (unat (fst row)) (unat (fst (snd row))) seen seen'"
  using assms
proof (induction arbitrary: seen rule: indexed.induct)
  case (leaf r p hs)
  have v: "ci_validate (IndexLeaf p hs) = Inr ()" using leaf.hyps(1) by (simp add: stored_def)
  note lv = leaf_valid [OF v]
  have len: "unat (u64_of_usize (length hs)) = length hs"
    using lv(3) by (simp add: unat_u64_of_usize usize_bound_def)
  note at = read_stored(2) [OF leaf.hyps(1) leaf.prems(1,2)]
  have bel: "below 0 (unat p) (length hs) (IndexLeaf p hs)"
    using lv(2) by (simp add: below_def)
  then have new: "uri_as_str (por_uri r) \<notin> seen"
    using at leaf.prems(5) by (auto simp: avoids_def len)
  note vs = verify_stored [OF leaf.hyps(1) leaf.prems(1,2), of 0 seen, simplified, OF new]
  have pages: "verify_page x ps bs p item None = (Inr (), None)" if it: "item \<in> set (enumerate 0 hs)" for item
  proof -
    obtain i where i: "i < length hs" "item = (i, hs ! i)" using it by (auto simp: in_set_enumerate_eq)
    have "(unat p - 1 + i) * ps + ps = (unat p - 1 + Suc i) * ps" by simp
    also have "\<dots> \<le> (unat p - 1 + length hs) * ps" using i(1) by (intro mult_le_mono1) simp
    finally have "(unat p - 1 + i) * ps + ps \<le> length bs" using leaf.hyps(2) by simp
    with i lv leaf.hyps(3) leaf.prems(3) show ?thesis unfolding i(2) by (intro verify_page_ok) auto
  qed
  then have "io_fold (\<lambda>_. verify_page x ps bs p) () (enumerate 0 hs) None = (Inr (), None)"
    by (intro io_fold_unit) auto
  then have "verify_checkpoint_index_node rd ps bs 0 r p (u64_of_usize (length hs)) seen None
      = (Inr (insert (uri_as_str (por_uri r)) seen), None)"
    by (simp add: verify_checkpoint_index_node.simps [of rd ps bs 0] io_bind_def vs leaf.prems(2) io_return_def io_of_def)
  moreover have "extends rd 0 (unat p) (length hs) seen (insert (uri_as_str (por_uri r)) seen)"
    using at bel by (auto simp: extends_def)
  ultimately show ?case by (simp add: len)
next
  case (internal r l rows p n)
  let ?node = "IndexInternal (word_of_nat (Suc l)) (map child_of rows)"
  have v: "ci_validate ?node = Inr ()" using internal.hyps(1) by (simp add: stored_def)
  note vi = valid_internal_interval [OF v]
  have pn: "contiguous (unat p) (map child_of rows)" "unat n = total_pages (map child_of rows)"
    "unat p + total_pages (map child_of rows) < 2 ^ 64"
    using vi by (simp_all only: internal.hyps(3,4))
  have ne: "rows \<noteq> []" using ci_validate_count(2) [OF v] by auto
  then obtain row0 rows' where rows: "rows = row0 # rows'" by (cases rows) auto
  have pos: "0 < unat n" using pn(1,2) by (cases row0) (auto simp: rows total_pages_def)
  note at = read_stored(2) [OF internal.hyps(1) internal.prems(1,2)]
  have lev: "unat (ci_level ?node) = Suc l"
    using internal.prems(4) by (simp add: unat_word_ariths unat_of_nat)
  have bel: "below (Suc l) (unat p) (unat n) ?node"
    using pos lev by (simp add: below_def internal.hyps(3))
  have new: "uri_as_str (por_uri r) \<notin> seen"
    using at bel internal.prems(5) by (auto simp: avoids_def)
  note vs = verify_stored [OF internal.hyps(1) internal.prems(1,2) internal.prems(4) _ new, folded internal.hyps(3,4)]
  let ?s = "insert (uri_as_str (por_uri r)) seen"
  have av: "avoids rd l (unat p) (total_pages (map child_of rows)) ?s"
    using internal.prems(5) at lev unfolding avoids_def pn(2) [symmetric]
    by (auto simp: below_def dest: node_at_unique [OF at])
  obtain t where t: "io_fold (\<lambda>seen entry. verify_checkpoint_index_node rd ps bs l (cic_child entry) (cic_first_page entry)
        (cic_page_count entry) seen) ?s (map child_of rows) None = (Inr t, None)"
      "extends rd l (unat p) (total_pages (map child_of rows)) ?s t"
    using verify_rows [OF _ pn(1) av, of ps bs] internal.IH internal.prems(1-4) by auto
  have "verify_checkpoint_index_node rd ps bs (Suc l) r p n seen None = (Inr t, None)"
    using t(1) by (simp add: verify_checkpoint_index_node.simps [of rd ps bs "Suc l"] io_bind_def vs)
  moreover have "extends rd (Suc l) (unat p) (unat n) seen t"
    using t(2) at bel unfolding extends_def pn(2) by (fastforce simp: below_def)
  ultimately show ?case by simp
qed


section \<open>What the builder makes\<close>

lemma index_uri:
  assumes "hex_laws x" "sha_laws x"
  shows "uri_from_str (content_uri x ''_otmp/checkpoint-page-index/'' ''.cbor'' bs)
      = Inr (RelativeUri (content_uri x ''_otmp/checkpoint-page-index/'' ''.cbor'' bs))"
    and "uri_ok (RelativeUri (content_uri x ''_otmp/checkpoint-page-index/'' ''.cbor'' bs))"
proof -
  let ?h = "hex_encode x (sha_as_bytes (object_hash x bs))" and ?u = "content_uri x ''_otmp/checkpoint-page-index/'' ''.cbor'' bs"
  have h: "list_all is_lower_hex ?h" using assms(1) by (simp add: hex_laws_def)
  then have "CHR ''/'' \<notin> set ?h" "CHR 0x5C \<notin> set ?h" "CHR '':'' \<notin> set ?h"
    by (auto simp: list_all_iff is_lower_hex_def is_digit_def)
  then have safe: "uri_safe ?u"
    by (auto simp: uri_safe_def content_uri_def starts_with_def split_on_no_sep)
  then show "uri_from_str ?u = Inr (RelativeUri ?u)" by (simp add: uri_from_str_def)
  have "(of_char c :: nat) < 128" if "is_lower_hex c" for c
  proof -
    from that have "c \<le> CHR ''f''" by (auto simp: is_lower_hex_def is_digit_def less_eq_char_def)
    then show ?thesis by (simp add: less_eq_char_def)
  qed
  then have "list_all (\<lambda>c. (of_char c :: nat) < 128) ?h" using h by (auto simp: list_all_iff)
  then have "list_all (\<lambda>c. (of_char c :: nat) < 128) ?u" by (simp add: content_uri_def)
  moreover have "length ?u < usize_bound"
    using content_uri_length [OF assms] by (simp add: usize_bound_def)
  ultimately show "uri_ok (RelativeUri ?u)"
    using safe by (simp add: uri_ok_def string_ok_def utf8_valid_ascii)
qed

definition row_ok :: "externals \<Rightarrow> artifact set \<Rightarrow> nat \<Rightarrow> byte list \<Rightarrow> nat \<Rightarrow> index_row \<Rightarrow> bool" where
  "row_ok x A ps bs l row =
     (indexed x A ps bs l row \<and> short_reference (snd (snd row)) \<and> reference_ok (snd (snd row)))"

lemma row_ok_mono: "row_ok x A ps bs l row \<Longrightarrow> A \<subseteq> B \<Longrightarrow> row_ok x B ps bs l row"
  by (auto simp: row_ok_def intro: indexed_mono)

lemma checkpoint_index_bytes_nonempty: "checkpoint_index_bytes node \<noteq> []"
  by (cases node) (simp_all add: map_len_def major_def Let_def)

lemma stored_length:
  assumes "stored x A r node"
  shows "por_length r \<noteq> 0" "por_length r \<le> u64_of_usize max_checkpoint_index_bytes"
proof -
  have "unat (por_length r) = length (checkpoint_index_bytes node)" "length (checkpoint_index_bytes node) \<le> max_checkpoint_index_bytes"
    using assms max_checkpoint_index_usize by (auto simp: stored_def content_reference_def unat_u64_of_usize)
  then show "por_length r \<noteq> 0" "por_length r \<le> u64_of_usize max_checkpoint_index_bytes"
    using checkpoint_index_bytes_nonempty [of node] max_checkpoint_index_usize
    by (auto simp: word_le_nat_alt unat_u64_of_usize)
qed

lemma row_ok_length:
  assumes "row_ok x A ps bs l row"
  shows "por_length (snd (snd row)) \<noteq> 0" "por_length (snd (snd row)) \<le> u64_of_usize max_checkpoint_index_bytes"
  using assms stored_length by (auto simp: row_ok_def elim: indexed.cases)

text \<open>A valid node that fits is written, and its reference names it.\<close>

lemma add_node_ok:
  assumes x: "hex_laws x" "sha_laws x"
    and node: "ci_node_ok node" "ci_validate node = Inr ()" "length (checkpoint_index_bytes node) \<le> max_checkpoint_index_bytes"
  shows "\<exists>r art. add_node x (rows, arts) node = Inr (rows @ [(ci_first_page node, ci_page_count node, r)], arts @ [art])
    \<and> stored x (set (arts @ [art])) r node \<and> short_reference r \<and> reference_ok r"
proof -
  let ?bs = "checkpoint_index_bytes node"
  let ?u = "RelativeUri (content_uri x ''_otmp/checkpoint-page-index/'' ''.cbor'' ?bs)"
  let ?r = "content_reference x ?u ?bs" and ?art = "\<lparr>art_uri = ?u, art_bytes = ?bs\<rparr>"
  have e: "encode_checkpoint_index node = Inr ?bs" using node by (simp add: encode_checkpoint_index_Inr)
  have "add_node x (rows, arts) node = Inr (rows @ [(ci_first_page node, ci_page_count node, ?r)], arts @ [?art])"
    by (simp add: add_node_def e ci_reference_of_def index_uri [OF x])
  moreover have "stored x (set (arts @ [?art])) ?r node" using node by (auto simp: stored_def)
  moreover have "short_reference ?r" "reference_ok ?r"
    using x index_uri [OF x] content_uri_length [OF x]
    by (simp_all add: short_reference_def reference_ok_def content_reference_def sha_ok_def sha_laws_def object_hash_def digest_def)
  ultimately show ?thesis by blast
qed

lemma index_leaf_fits:
  assumes "length hs \<le> 128" "list_all sha_ok hs"
  shows "length (checkpoint_index_bytes (IndexLeaf p hs)) \<le> max_checkpoint_index_bytes"
proof -
  have "length (put_bytes (sha_as_bytes h)) \<le> 41" if "h \<in> set hs" for h
    using put_lengths(2) [of "sha_as_bytes h"] assms(2) that by (auto simp: list_all_iff sha_ok_def)
  then have "length (concat (map (\<lambda>h. put_bytes (sha_as_bytes h)) hs)) \<le> 41 * length hs" by (rule length_concat_le)
  with assms(1) have "length (concat (map (\<lambda>h. put_bytes (sha_as_bytes h)) hs)) \<le> 5248" by simp
  then show ?thesis
    using put_lengths(5) [of 4] put_lengths(1) [of "''hashes''"] put_lengths(4) [of "length hs"] put_lengths(1) [of "''version''"]
      put_lengths(3) [of 1] put_lengths(1) [of "''node_type''"] put_lengths(1) [of "''leaf''"]
      put_lengths(1) [of "''first_page''"] put_lengths(3) [of p]
    by (simp add: max_checkpoint_index_bytes_def)
qed

lemma index_internal_fits:
  assumes "length es \<le> 128" "\<And>e. e \<in> set es \<Longrightarrow> short_reference (cic_child e)"
  shows "length (checkpoint_index_bytes (IndexInternal l es)) \<le> max_checkpoint_index_bytes"
proof -
  have "length (encode_child e) \<le> 4096 + 250" if "e \<in> set es" for e
    using put_lengths(5) [of 3] put_lengths(1) [of "''child''"] length_encode_ref [OF assms(2) [OF that]]
      put_lengths(1) [of "''page_count''"] put_lengths(3) [of "cic_page_count e"] put_lengths(1) [of "''first_page''"]
      put_lengths(3) [of "cic_first_page e"]
    by (simp add: encode_child_def ci_encode_ref_eq)
  then have "length (concat (map encode_child es)) \<le> (4096 + 250) * length es" by (rule length_concat_le)
  with assms(1) have "length (concat (map encode_child es)) \<le> 556288" by simp
  then show ?thesis
    using put_lengths(5) [of 4] put_lengths(1) [of "''level''"] put_lengths(3) [of "u64_from_u32 l"]
      put_lengths(1) [of "''entries''"] put_lengths(4) [of "length es"] put_lengths(1) [of "''version''"]
      put_lengths(3) [of 1] put_lengths(1) [of "''node_type''"] put_lengths(1) [of "''internal''"]
    by (simp add: max_checkpoint_index_bytes_def)
qed

subsection \<open>One level\<close>

lemma child_steps_ok:
  assumes "contiguous p es" "0 < p" "p + total_pages es < 2 ^ 64"
    and "\<And>e. e \<in> set es \<Longrightarrow> por_length (cic_child e) \<noteq> 0 \<and> por_length (cic_child e) \<le> u64_of_usize max_checkpoint_index_bytes"
    and "case z of None \<Rightarrow> True | Some q \<Rightarrow> unat q = p"
  shows "\<exists>y. try_fold child_step z es = Inr y"
  using assms
proof (induction es arbitrary: p z)
  case (Cons e es)
  have f: "unat (cic_first_page e) = p" "0 < unat (cic_page_count e)" "contiguous (p + unat (cic_page_count e)) es"
    using Cons.prems(1) by auto
  have t: "total_pages (e # es) = unat (cic_page_count e) + total_pages es" by (simp add: total_pages_def)
  have sum: "checked_add (cic_first_page e) (cic_page_count e) = Some (cic_first_page e + cic_page_count e)"
    "unat (cic_first_page e + cic_page_count e) = p + unat (cic_page_count e)"
    using Cons.prems(3) f(1) by (simp_all add: t checked_add_def unat_word_ariths)
  have nz: "cic_first_page e \<noteq> 0" "cic_page_count e \<noteq> 0" using f(1,2) Cons.prems(2) by auto
  have "\<And>q. z = Some q \<Longrightarrow> q = cic_first_page e" using Cons.prems(5) f(1) by (simp add: word_unat_eq_iff)
  then have "child_step z e = Inr (Some (cic_first_page e + cic_page_count e))"
    using Cons.prems(4) [of e] nz sum(1) by (auto simp: child_step_def not_less split: option.splits)
  with Cons.IH [OF f(3), of "Some (cic_first_page e + cic_page_count e)"] Cons.prems(2-4) sum(2) show ?case
    by (simp add: t add.assoc)
qed simp

lemma add_internal_ok:
  assumes x: "hex_laws x" "sha_laws x" and g: "g \<noteq> []" "length g \<le> 128" and l: "Suc l \<le> 64"
    and rows: "\<And>row. row \<in> set g \<Longrightarrow> row_ok x (set arts) ps bs l row"
    and c: "contiguous p (map child_of g)" "0 < p" "p + total_pages (map child_of g) < 2 ^ 64"
  shows "\<exists>row art. add_node x (acc, arts) (IndexInternal (word_of_nat (Suc l)) (map child_of g)) = Inr (acc @ [row], arts @ [art])
    \<and> row_ok x (set (arts @ [art])) ps bs (Suc l) row \<and> unat (fst row) = p \<and> unat (fst (snd row)) = total_pages (map child_of g)"
proof -
  let ?node = "IndexInternal (word_of_nat (Suc l)) (map child_of g)"
  have r: "short_reference (cic_child e)" "reference_ok (cic_child e)" "por_length (cic_child e) \<noteq> 0"
    "por_length (cic_child e) \<le> u64_of_usize max_checkpoint_index_bytes" if "e \<in> set (map child_of g)" for e
  proof -
    from that have "e \<in> child_of ` set g" by (simp only: set_map)
    then obtain row where "row \<in> set g" "e = child_of row" by (elim imageE)
    then have ro: "row_ok x (set arts) ps bs l row" and ch: "cic_child e = snd (snd row)"
      using rows by (blast, simp add: child_of_def split: prod.split)
    show "short_reference (cic_child e)" "reference_ok (cic_child e)" "por_length (cic_child e) \<noteq> 0"
      "por_length (cic_child e) \<le> u64_of_usize max_checkpoint_index_bytes"
      using row_ok_length [OF ro] ro by (simp_all add: row_ok_def ch)
  qed
  have lev: "(word_of_nat (Suc l) :: u32) \<noteq> 0"
    using l by (simp add: word_unat_eq_iff unat_of_nat del: of_nat_Suc)
  have "\<exists>y. try_fold child_step None (map child_of g) = Inr y"
    by (rule child_steps_ok [OF c]) (rule conjI, erule r(3), erule r(4), simp only: option.case)
  then obtain y where "try_fold child_step None (map child_of g) = Inr y" ..
  then have v: "ci_validate ?node = Inr ()" using g lev by (simp del: of_nat_Suc add: checkpoint_index_capacity_def)
  have "ci_node_ok ?node" by (simp only: ci_node_ok.simps list_all_iff) (intro ballI r(2))
  moreover have "length (checkpoint_index_bytes ?node) \<le> max_checkpoint_index_bytes"
    by (rule index_internal_fits [OF _ r(1)]) (simp only: length_map g(2))
  ultimately obtain ref art where a: "add_node x (acc, arts) ?node = Inr (acc @ [(ci_first_page ?node, ci_page_count ?node, ref)], arts @ [art])"
    "stored x (set (arts @ [art])) ref ?node" "short_reference ref" "reference_ok ref"
    using add_node_ok [OF x _ v, of acc arts] by blast
  have "indexed x (set (arts @ [art])) ps bs (Suc l) (ci_first_page ?node, ci_page_count ?node, ref)"
  proof (rule indexed.internal [OF a(2)])
    fix row assume "row \<in> set g"
    then have "indexed x (set arts) ps bs l row" using rows by (simp add: row_ok_def)
    then show "indexed x (set (arts @ [art])) ps bs l row" by (rule indexed_mono) auto
  qed simp_all
  moreover have "unat (ci_first_page ?node) = p" using c(1) g(1) by (cases g) auto
  moreover have "unat (ci_page_count ?node) = total_pages (map child_of g)" by (rule valid_internal_interval(2) [OF v])
  ultimately show ?thesis using a
    by (intro exI [of _ "(ci_first_page ?node, ci_page_count ?node, ref)"] exI [of _ art])
      (simp only: row_ok_def fst_conv snd_conv simp_thms)
qed


lemma contiguous_append:
  "contiguous p (es @ es') \<longleftrightarrow> contiguous p es \<and> contiguous (p + total_pages es) es'"
  by (induction es arbitrary: p) (auto simp: total_pages_def add.assoc)

lemma total_pages_append [simp]: "total_pages (es @ es') = total_pages es + total_pages es'"
  by (simp add: total_pages_def)

lemma total_pages_Nil [simp]: "total_pages [] = 0"
  by (simp add: total_pages_def)

definition level_ok :: "externals \<Rightarrow> artifact set \<Rightarrow> nat \<Rightarrow> byte list \<Rightarrow> nat \<Rightarrow> nat \<Rightarrow> nat \<Rightarrow> index_row list \<Rightarrow> bool" where
  "level_ok x A ps bs l p n rows =
     ((\<forall>row \<in> set rows. row_ok x A ps bs l row) \<and> contiguous p (map child_of rows) \<and> total_pages (map child_of rows) = n)"

lemma level_ok_append:
  "level_ok x A ps bs l p n rows \<Longrightarrow> level_ok x A ps bs l (p + n) m rows' \<Longrightarrow> level_ok x A ps bs l p (n + m) (rows @ rows')"
  by (auto simp: level_ok_def contiguous_append)

lemma level_ok_mono: "level_ok x A ps bs l p n rows \<Longrightarrow> A \<subseteq> B \<Longrightarrow> level_ok x B ps bs l p n rows"
  by (auto simp: level_ok_def intro: row_ok_mono)

lemma level_ok_single:
  "row_ok x A ps bs l row \<Longrightarrow> unat (fst row) = p \<Longrightarrow> unat (fst (snd row)) = n \<Longrightarrow> 0 < n \<Longrightarrow> level_ok x A ps bs l p n [row]"
  by (cases row) (simp add: level_ok_def total_pages_def)

lemma contiguous_pos: "contiguous p es \<Longrightarrow> es \<noteq> [] \<Longrightarrow> 0 < total_pages es"
  by (cases es) (auto simp: total_pages_def)

lemma groups_ok:
  assumes x: "hex_laws x" "sha_laws x" and l: "Suc l \<le> 64"
  shows "(\<And>g. g \<in> set gs \<Longrightarrow> g \<noteq> [] \<and> length g \<le> 128) \<Longrightarrow> level_ok x (set arts) ps bs l p n (concat gs)
    \<Longrightarrow> 0 < p \<Longrightarrow> p + n < 2 ^ 64 \<Longrightarrow>
    \<exists>rows arts'. try_fold (\<lambda>s group. add_node x s (IndexInternal (word_of_nat (Suc l)) (map child_of group))) (acc, arts) gs
        = Inr (acc @ rows, arts')
      \<and> set arts \<subseteq> set arts' \<and> length rows = length gs \<and> level_ok x (set arts') ps bs (Suc l) p n rows"
proof (induction gs arbitrary: p n acc arts)
  case Nil
  then show ?case by (simp add: level_ok_def)
next
  case (Cons g gs)
  let ?k = "total_pages (map child_of g)"
  have g: "g \<noteq> []" "length g \<le> 128" using Cons.prems(1) by auto
  have c: "contiguous p (map child_of g)" and rest: "level_ok x (set arts) ps bs l (p + ?k) (n - ?k) (concat gs)"
    and kn: "?k \<le> n" and rows: "\<And>row. row \<in> set g \<Longrightarrow> row_ok x (set arts) ps bs l row"
    using Cons.prems(2) by (auto simp: level_ok_def contiguous_append)
  from Cons.prems(4) kn have b: "p + ?k < 2 ^ 64" by simp
  from add_internal_ok [OF x g l rows c Cons.prems(3) b, of acc] obtain row art where
    a: "add_node x (acc, arts) (IndexInternal (word_of_nat (Suc l)) (map child_of g)) = Inr (acc @ [row], arts @ [art])"
      "row_ok x (set (arts @ [art])) ps bs (Suc l) row" "unat (fst row) = p" "unat (fst (snd row)) = ?k" by blast
  from Cons.IH [of "arts @ [art]" "p + ?k" "n - ?k" "acc @ [row]"] Cons.prems(1,3,4) kn level_ok_mono [OF rest]
  obtain rows arts' where
    r: "try_fold (\<lambda>s group. add_node x s (IndexInternal (word_of_nat (Suc l)) (map child_of group))) (acc @ [row], arts @ [art]) gs
        = Inr ((acc @ [row]) @ rows, arts')" "set (arts @ [art]) \<subseteq> set arts'" "length rows = length gs"
      "level_ok x (set arts') ps bs (Suc l) (p + ?k) (n - ?k) rows"
    by (auto simp: subset_insertI)
  have "level_ok x (set arts') ps bs (Suc l) p ?k [row]"
    using level_ok_single [OF row_ok_mono [OF a(2) r(2)] a(3,4)] contiguous_pos [OF c] g(1) by simp
  from level_ok_append [OF this r(4)] kn have "level_ok x (set arts') ps bs (Suc l) p n (row # rows)" by simp
  with a(1) r(1-3) show ?case by (intro exI [of _ "row # rows"] exI [of _ arts']) simp
qed

lemma length_chunks_half: "1 < k \<Longrightarrow> length (chunks k xs) \<le> (length xs + 1) div 2"
proof (induction k xs rule: chunks.induct)
  case (1 k xs)
  show ?case
  proof (cases "xs = []")
    case False
    then have "length (chunks k (drop k xs)) \<le> (length xs - k + 1) div 2" using 1 by auto
    also have "\<dots> \<le> (length xs - 2 + 1) div 2" using 1(2) by (intro div_le_mono) simp
    finally have d: "length (chunks k (drop k xs)) \<le> (length xs - 2 + 1) div 2" .
    show ?thesis
    proof (cases "length xs = 1")
      case True
      then show ?thesis using 1(2) by (subst chunks.simps) simp
    next
      case False
      with \<open>xs \<noteq> []\<close> have "2 \<le> length xs" by (cases xs) (auto simp: Suc_le_eq)
      then have "(length xs - 2 + 1) div 2 + 1 = (length xs + 1) div 2" by presburger
      then show ?thesis using d \<open>xs \<noteq> []\<close> 1(2) by (subst chunks.simps) simp
    qed
  qed simp
qed

lemma levels_ok:
  assumes x: "hex_laws x" "sha_laws x"
  shows "level_ok x (set arts) ps bs l 1 n rows \<Longrightarrow> rows \<noteq> [] \<Longrightarrow> 1 + n < 2 ^ 64 \<Longrightarrow> l \<le> 63 \<Longrightarrow> length rows \<le> 2 ^ (63 - l) \<Longrightarrow>
    \<exists>h row arts'. build_levels x (word_of_nat l) rows arts = Inr (word_of_nat h, [row], arts') \<and> h \<le> 63
      \<and> set arts \<subseteq> set arts' \<and> level_ok x (set arts') ps bs h 1 n [row]"
proof (induction "63 - l" arbitrary: l rows arts)
  case 0
  then have "length rows = 1" by (cases rows) auto
  then obtain row where "rows = [row]" by (cases rows) auto
  with 0 show ?case
    by (intro exI [of _ l] exI [of _ row] exI [of _ arts]) (simp add: build_levels.simps [of x _ "[row]"])
next
  case (Suc k)
  show ?case
  proof (cases "length rows > 1")
    case False
    with Suc.prems(2) obtain row where "rows = [row]" by (cases rows) auto
    with Suc.prems show ?thesis
      by (intro exI [of _ l] exI [of _ row] exI [of _ arts]) (simp add: build_levels.simps [of x _ "[row]"])
  next
    case True
    let ?gs = "chunks checkpoint_index_capacity rows"
    have cap: "checkpoint_index_capacity = 128" by (simp add: checkpoint_index_capacity_def)
    have g: "g \<noteq> [] \<and> length g \<le> 128" if "g \<in> set ?gs" for g using length_chunk [OF that] by (simp add: cap)
    have "concat ?gs = rows" by (rule concat_chunks) (simp add: cap)
    with groups_ok [OF x, of l ?gs arts ps bs 1 n "[]"] g Suc.prems Suc.hyps(2) obtain rows' arts' where
      r: "build_level x (word_of_nat (Suc l)) rows arts = Inr (rows', arts')" "set arts \<subseteq> set arts'"
        "length rows' = length ?gs" "level_ok x (set arts') ps bs (Suc l) 1 n rows'"
      by (auto simp: build_level_def)
    have "length ?gs \<le> (length rows + 1) div 2" by (rule length_chunks_half) (simp add: cap)
    also have "\<dots> \<le> (2 ^ (63 - l) + 1) div 2" using Suc.prems(5) by (intro div_le_mono) simp
    also have "\<dots> = 2 ^ (63 - Suc l)"
    proof -
      have "63 - l = Suc (63 - Suc l)" using Suc.hyps(2) by simp
      then show ?thesis by simp
    qed
    finally have len: "length rows' \<le> 2 ^ (63 - Suc l)" using r(3) by simp
    have ne: "rows' \<noteq> []" using r(3) Suc.prems(2) by (auto simp: chunks.simps [of _ rows] cap)
    have "k = 63 - Suc l" "Suc l \<le> 63" using Suc.hyps(2) by simp_all
    from Suc.hyps(1) [OF this(1) r(4) ne Suc.prems(3) this(2) len] obtain h row arts'' where
      "build_levels x (word_of_nat (Suc l)) rows' arts' = Inr (word_of_nat h, [row], arts'')" "h \<le> 63"
      "set arts' \<subseteq> set arts''" "level_ok x (set arts'') ps bs h 1 n [row]" by blast
    moreover have "(word_of_nat l :: u32) + 1 = word_of_nat (Suc l)" by simp
    ultimately show ?thesis using r(1,2) True
      by (intro exI [of _ h] exI [of _ row] exI [of _ arts'']) (simp add: build_levels.simps [of x "word_of_nat l"] add.commute)
  qed
qed


subsection \<open>The leaves\<close>

lemma length_chunks_dvd: "0 < n \<Longrightarrow> n dvd length xs \<Longrightarrow> length (chunks n xs) = length xs div n"
proof (induction n xs rule: chunks.induct)
  case (1 n xs)
  show ?case
  proof (cases "xs = []")
    case False
    with 1(3) have "n \<le> length xs" by (simp add: dvd_imp_le)
    moreover from this 1(3) have "n dvd length (drop n xs)" by (simp add: dvd_diff_nat)
    ultimately show ?thesis using 1 False by (simp add: chunks_unfold le_div_geq)
  qed simp
qed

lemma nth_chunks: "0 < n \<Longrightarrow> i < length (chunks n xs) \<Longrightarrow> chunks n xs ! i = take n (drop (i * n) xs)"
proof (induction n xs arbitrary: i rule: chunks.induct)
  case (1 n xs)
  show ?case
  proof (cases "xs = []")
    case False
    then show ?thesis using 1 by (cases i) (auto simp: chunks_unfold add.commute)
  qed (use 1 in simp)
qed

text \<open>The number of pages in chunk \<open>k\<close>.\<close>

lemma leaf_geometry:
  assumes ps: "0 < ps" "ps dvd length bs" and k: "k * (128 * ps) < length bs"
  shows "ps dvd length (take (128 * ps) (drop (k * (128 * ps)) bs))"
    and "length (take (128 * ps) (drop (k * (128 * ps)) bs)) div ps = min 128 (length bs div ps - k * 128)"
    and "0 < min 128 (length bs div ps - k * 128)" "k * 128 < length bs div ps"
proof -
  obtain N where N: "length bs = ps * N" using ps(2) by (elim dvdE)
  have "length (take (128 * ps) (drop (k * (128 * ps)) bs)) = min (128 * ps) (ps * N - k * (128 * ps))"
    by (simp add: N min.commute)
  also have "\<dots> = min (ps * 128) (ps * (N - k * 128))"
    by (simp add: diff_mult_distrib2 ac_simps)
  also have "\<dots> = ps * min 128 (N - k * 128)"
    by (simp only: nat_mult_min_right)
  finally have l: "length (take (128 * ps) (drop (k * (128 * ps)) bs)) = ps * min 128 (N - k * 128)" .
  then show "ps dvd length (take (128 * ps) (drop (k * (128 * ps)) bs))"
    "length (take (128 * ps) (drop (k * (128 * ps)) bs)) div ps = min 128 (length bs div ps - k * 128)"
    using ps(1) by (simp_all only: N dvd_triv_left nonzero_mult_div_cancel_left [OF less_imp_neq [symmetric]])
  have "(k * 128) * ps < N * ps" using k by (simp add: N ac_simps)
  then have "k * 128 < N" by simp
  then show "0 < min 128 (length bs div ps - k * 128)" "k * 128 < length bs div ps" using ps(1) by (simp_all add: N)
qed

lemma add_leaf_ok:
  assumes x: "hex_laws x" "sha_laws x" and ps: "0 < ps" "ps dvd length bs" and len: "length bs < 2 ^ 63"
    and k: "k * (128 * ps) < length bs"
  shows "\<exists>row art. add_node x (acc, arts) (leaf_of x ps (k, take (128 * ps) (drop (k * (128 * ps)) bs))) = Inr (acc @ [row], arts @ [art])
    \<and> row_ok x (set (arts @ [art])) ps bs 0 row \<and> unat (fst row) = k * 128 + 1
    \<and> unat (fst (snd row)) = min 128 (length bs div ps - k * 128)"
proof -
  let ?pages = "take (128 * ps) (drop (k * (128 * ps)) bs)" and ?m = "min 128 (length bs div ps - k * 128)"
  let ?p = "u64_of_usize (Suc (k * 128))" and ?hs = "map (digest x) (chunks ps ?pages)"
  note g = leaf_geometry [OF ps k]
  have n: "leaf_of x ps (k, ?pages) = IndexLeaf ?p ?hs" by (simp add: leaf_of_def checkpoint_index_capacity_def)
  have lh: "length ?hs = ?m" using length_chunks_dvd [OF ps(1) g(1)] g(2) by simp
  have N: "length bs div ps < 2 ^ 63" using len div_le_dividend le_less_trans by blast
  then have p: "unat ?p = k * 128 + 1" and m: "unat (u64_of_usize ?m) = ?m"
    using g(4) by (simp_all add: unat_u64_of_usize usize_bound_def)
  have m1: "unat (u64_of_usize ?m - 1) = ?m - 1" using m g(3) by (simp add: unat_sub word_le_nat_alt Suc_leI)
  have sha: "list_all sha_ok ?hs" using x(2) by (simp add: list_all_iff sha_ok_def sha_laws_def digest_def)
  have "?p \<noteq> 0" using p by auto
  moreover have "checked_add ?p (u64_of_usize ?m - 1) \<noteq> None"
  proof -
    have "unat ?p + unat (u64_of_usize ?m - 1) < 2 ^ 64" using N g(4) unfolding p m1 by (simp add: min_def) linarith
    then show ?thesis by (simp add: checked_add_def)
  qed
  moreover have "?hs \<noteq> []" using lh g(3) by (metis length_greater_0_conv)
  ultimately have v: "ci_validate (IndexLeaf ?p ?hs) = Inr ()"
    by (auto simp: lh checkpoint_index_capacity_def simp del: length_map)
  have "ci_node_ok (IndexLeaf ?p ?hs)" using sha by simp
  moreover have "length (checkpoint_index_bytes (IndexLeaf ?p ?hs)) \<le> max_checkpoint_index_bytes"
    by (rule index_leaf_fits [OF _ sha]) (simp add: lh del: length_map)
  ultimately obtain ref art where
    a: "add_node x (acc, arts) (IndexLeaf ?p ?hs) = Inr (acc @ [(?p, u64_of_usize ?m, ref)], arts @ [art])"
      "stored x (set (arts @ [art])) ref (IndexLeaf ?p ?hs)" "short_reference ref" "reference_ok ref"
    using add_node_ok [OF x _ v, of acc arts] by (auto simp only: ci_first_page.simps ci_page_count.simps lh)
  have "indexed x (set (arts @ [art])) ps bs 0 (?p, u64_of_usize (length ?hs), ref)"
  proof (rule indexed.leaf [OF a(2)])
    have "(k * 128 + ?m) * ps \<le> length bs div ps * ps" using g(4) by (intro mult_le_mono1) simp
    then show "(unat ?p - 1 + length ?hs) * ps \<le> length bs" using ps(2) by (simp add: p lh del: length_map)
    fix i assume "i < length ?hs"
    then have i: "i < length (chunks ps ?pages)" and "i < 128" by (simp, simp only: lh)
    have "(k * 128 + i) * ps = i * ps + k * (128 * ps)" by (simp add: algebra_simps)
    moreover have "min ps (128 * ps - i * ps) = ps"
    proof -
      have "(i + 1) * ps \<le> 128 * ps" using \<open>i < 128\<close> by (intro mult_le_mono1) simp
      then have "ps \<le> 128 * ps - i * ps" unfolding add_mult_distrib by linarith
      then show ?thesis by (rule min_absorb1)
    qed
    ultimately show "?hs ! i = digest x (take ps (drop ((unat ?p - 1 + i) * ps) bs))"
      using nth_chunks [OF ps(1) i] i by (simp add: p drop_take add.commute)
  qed
  then have "row_ok x (set (arts @ [art])) ps bs 0 (?p, u64_of_usize ?m, ref)"
    using a(3,4) by (simp only: row_ok_def fst_conv snd_conv lh)
  then show ?thesis using a(1) p m unfolding n
    by (intro exI [of _ "(?p, u64_of_usize ?m, ref)"] exI [of _ art]) (simp only: fst_conv snd_conv simp_thms)
qed

lemma leaves_ok:
  assumes x: "hex_laws x" "sha_laws x" and ps: "0 < ps" "ps dvd length bs" and len: "length bs < 2 ^ 63"
  shows "\<exists>rows arts'. try_fold (\<lambda>s item. add_node x s (leaf_of x ps item)) (acc, arts)
        (enumerate k (chunks (128 * ps) (drop (k * (128 * ps)) bs))) = Inr (acc @ rows, arts')
      \<and> set arts \<subseteq> set arts' \<and> level_ok x (set arts') ps bs 0 (k * 128 + 1) (length bs div ps - k * 128) rows
      \<and> length rows \<le> length bs div ps - k * 128"
proof (induction "length bs div ps - k * 128" arbitrary: k acc arts rule: less_induct)
  case less
  let ?N = "length bs div ps" and ?L = "128 * ps"
  show ?case
  proof (cases "k * ?L < length bs")
    case False
    then have "?N - k * 128 = 0"
    proof -
      have "?N \<le> (k * 128 * ps) div ps" using False by (intro div_le_mono) (simp add: ac_simps)
      then show ?thesis using ps(1) by simp
    qed
    with False show ?thesis by (intro exI [of _ "[]"] exI [of _ arts]) (simp add: level_ok_def)
  next
    case True
    let ?m = "min 128 (?N - k * 128)"
    note g = leaf_geometry [OF ps True]
    from add_leaf_ok [OF x ps len True, of acc arts] obtain row art where
      a: "add_node x (acc, arts) (leaf_of x ps (k, take ?L (drop (k * ?L) bs))) = Inr (acc @ [row], arts @ [art])"
        "row_ok x (set (arts @ [art])) ps bs 0 row" "unat (fst row) = k * 128 + 1" "unat (fst (snd row)) = ?m" by blast
    have "?N - Suc k * 128 < ?N - k * 128" using g(4) by simp
    from less.hyps [OF this, of "acc @ [row]" "arts @ [art]"] obtain rows arts' where
      r: "try_fold (\<lambda>s item. add_node x s (leaf_of x ps item)) (acc @ [row], arts @ [art])
          (enumerate (Suc k) (chunks ?L (drop (Suc k * ?L) bs))) = Inr ((acc @ [row]) @ rows, arts')"
        "set (arts @ [art]) \<subseteq> set arts'" "level_ok x (set arts') ps bs 0 (Suc k * 128 + 1) (?N - Suc k * 128) rows"
        "length rows \<le> ?N - Suc k * 128" by blast
    have one: "level_ok x (set arts') ps bs 0 (k * 128 + 1) ?m [row]"
      by (rule level_ok_single [OF row_ok_mono [OF a(2) r(2)] a(3,4) g(3)])
    have lv: "level_ok x (set arts') ps bs 0 (k * 128 + 1) (?N - k * 128) (row # rows)"
    proof (cases "128 \<le> ?N - k * 128")
      case True
      then show ?thesis using level_ok_append [OF one, of "?N - Suc k * 128" rows] r(3) by (simp add: add.commute)
    next
      case False
      then have "rows = []" using r(4) by simp
      then show ?thesis using one False by simp
    qed
    have "chunks ?L (drop (k * ?L) bs) = take ?L (drop (k * ?L) bs) # chunks ?L (drop (Suc k * ?L) bs)"
      using True ps(1) by (simp add: chunks_unfold)
    then show ?thesis using a(1) r(1,2,4) lv g(4)
      by (intro exI [of _ "row # rows"] exI [of _ arts']) simp
  qed
qed


section \<open>The built index\<close>

definition index_accepted :: "reader \<Rightarrow> checkpoint \<Rightarrow> u32 \<Rightarrow> checkpoint_page_index \<Rightarrow> byte list \<Rightarrow> bool" where
  "index_accepted rd c page_size idx bs =
     (\<forall>img. mi_checkpoint img = c \<and> mi_page_size img = page_size \<and> mi_checkpoint_page_index img = Some idx
        \<longrightarrow> verify_checkpoint_index rd img bs None = (Inr (), None))"

lemma root_accepted:
  assumes row: "level_ok x (set arts) (unat page_size) bs h 1 n [(f, m, r)]" and h: "h \<le> 63"
    and idx: "idx = \<lparr>cpi_checkpoint_sha256 = cp_sha256 c, cpi_checkpoint_length = cp_length c, cpi_page_size = page_size,
        cpi_page_count = m, cpi_root = \<lparr>pmr_uri = por_uri r, pmr_sha256 = por_sha256 r, pmr_length = por_length r,
          pmr_height = word_of_nat h\<rparr>\<rparr>"
    and valid: "checkpoint_page_index_validate idx c page_size = Inr ()"
    and rd: "rd_ext rd = x" "serves rd (set arts)" and len: "length bs < usize_bound"
  shows "index_accepted rd c page_size idx bs"
proof -
  have f: "f = 1" and ix: "indexed x (set arts) (unat page_size) bs h (f, m, r)"
    using row by (simp_all add: level_ok_def row_ok_def word_unat_eq_iff)
  have hh: "unat (word_of_nat h :: u32) = h" using h by (simp add: unat_of_nat)
  have "avoids rd h (unat f) (unat m) {}" by (simp add: avoids_def)
  with verify_indexed [OF ix rd(2,1) len] h obtain s where
    "verify_checkpoint_index_node rd (unat page_size) bs h r f m {} None = (Inr s, None)" by auto
  moreover have "root_reference (cpi_root idx) = r" by (simp add: idx root_reference_def)
  moreover have "cpi_page_count idx = m" "pmr_height (cpi_root idx) = word_of_nat h" by (simp_all add: idx)
  ultimately show ?thesis unfolding index_accepted_def using valid
    by (auto simp: verify_checkpoint_index_def io_bind_def io_protocol_def io_of_def io_return_def lift_def hh f)
qed

lemma build_ok:
  assumes x: "hex_laws x" "sha_laws x" and ps: "page_size \<noteq> 0" "unat page_size dvd length bs"
    and bs: "bs \<noteq> []" "length bs < 2 ^ 63"
    and c: "cp_sha256 c = object_hash x bs" "cp_length c = u64_of_usize (length bs)"
  obtains idx arts where "build x c page_size bs = Inr (idx, arts)"
    "checkpoint_page_index_validate idx c page_size = Inr ()"
    "\<And>rd. rd_ext rd = x \<Longrightarrow> serves rd (set arts) \<Longrightarrow> index_accepted rd c page_size idx bs"
proof -
  let ?ps = "unat page_size" and ?N = "length bs div unat page_size"
  have ps0: "0 < ?ps" using ps(1) by (simp add: unat_gt_0)
  have N: "?N < 2 ^ 63" using bs(2) div_le_dividend le_less_trans by blast
  have N0: "0 < ?N" using bs(1) ps0 ps(2) by (simp add: div_greater_zero_iff dvd_imp_le)
  have lb: "length bs < usize_bound" using bs(2) by (simp add: usize_bound_def)
  from leaves_ok [OF x ps0 ps(2) bs(2), of "[]" "[]" 0] obtain rows arts0 where
    r: "try_fold (\<lambda>s item. add_node x s (leaf_of x ?ps item)) ([], []) (enumerate 0 (chunks (128 * ?ps) bs)) = Inr (rows, arts0)"
      "level_ok x (set arts0) ?ps bs 0 1 ?N rows" "length rows \<le> ?N" by auto
  have ne: "rows \<noteq> []" using r(2) N0 by (auto simp: level_ok_def)
  from levels_ok [OF x r(2) ne] N r(3) obtain h row arts where
    b: "build_levels x 0 rows arts0 = Inr (word_of_nat h, [row], arts)" "h \<le> 63" "level_ok x (set arts) ?ps bs h 1 ?N [row]"
    by auto
  obtain f m ref where row: "row = (f, m, ref)" by (cases row)
  have m: "unat m = ?N" using b(3) by (simp add: level_ok_def row total_pages_def)
  then have mw: "m = u64_of_usize ?N" using N by (simp add: word_unat_eq_iff unat_u64_of_usize usize_bound_def)
  let ?idx = "\<lparr>cpi_checkpoint_sha256 = cp_sha256 c, cpi_checkpoint_length = cp_length c, cpi_page_size = page_size,
        cpi_page_count = m, cpi_root = \<lparr>pmr_uri = por_uri ref, pmr_sha256 = por_sha256 ref, pmr_length = por_length ref,
          pmr_height = word_of_nat h\<rparr>\<rparr>"
  have mul: "unat m * unat (u64_from_u32 page_size) = length bs" using ps(2) by (simp add: m)
  have prod: "m * u64_from_u32 page_size = u64_of_usize (length bs)"
    using mul lb by (simp add: word_unat_eq_iff unat_word_ariths unat_u64_of_usize usize_bound_def)
  have len: "por_length ref \<noteq> 0" "por_length ref \<le> u64_of_usize max_checkpoint_index_bytes"
    using row_ok_length [of x "set arts" ?ps bs h row] b(3) by (simp_all add: level_ok_def row)
  have h: "(word_of_nat h :: u32) \<le> 64" using b(2) by (simp add: word_le_nat_alt unat_of_nat)
  have valid: "checkpoint_page_index_validate ?idx c page_size = Inr ()"
    using lb mul prod len h ps(1) c m N0
    by (auto simp: checkpoint_page_index_validate_def checked_mul_def usize_bound_def u64_of_usize_def not_less)
  have "usize_checked_mul ?ps 128 = Some (128 * ?ps)"
    using unat_lt_2p [of page_size] by (simp add: usize_checked_mul_def usize_bound_def del: unat_u32_lt)
  then have "build x c page_size bs = Inr (?idx, arts)"
    using ps bs(1) c r(1) b(1) valid mw
    by (simp add: build_def checkpoint_index_capacity_def row last_opt_def Let_def dvd_eq_mod_eq_0)
  then show thesis
    by (rule that [OF _ valid]) (rule root_accepted [OF b(3) [unfolded row] b(2) refl valid _ _ lb])
qed

text \<open>
  C6: the page index of a checkpoint of whole pages is always built, and every reader that serves the built nodes
  accepts the checkpoint under it: the tree has at most 64 levels, its nodes fit their byte limit, cover the pages without
  gap or repetition and hold the hash of each page. Nodes are content-addressed, so serving them excludes
  hash collisions among them.
\<close>

theorem built_index_verifies:
  assumes "hex_laws x" "sha_laws x" "page_size \<noteq> 0" "unat page_size dvd length bs" "bs \<noteq> []" "length bs < 2 ^ 63"
    and "cp_sha256 c = object_hash x bs" "cp_length c = u64_of_usize (length bs)"
  shows "\<exists>idx arts. build x c page_size bs = Inr (idx, arts)
    \<and> (\<forall>rd img. rd_ext rd = x \<and> serves rd (set arts) \<and> mi_checkpoint img = c \<and> mi_page_size img = page_size
         \<and> mi_checkpoint_page_index img = Some idx \<longrightarrow> verify_checkpoint_index rd img bs None = (Inr (), None))"
proof -
  obtain idx arts where "build x c page_size bs = Inr (idx, arts)"
    "\<And>rd. rd_ext rd = x \<Longrightarrow> serves rd (set arts) \<Longrightarrow> index_accepted rd c page_size idx bs"
    using build_ok [OF assms] by blast
  then show ?thesis unfolding index_accepted_def by blast
qed

definition sample_pages :: "byte list" where
  "sample_pages = replicate 16 7"

definition sample_checkpoint :: checkpoint where
  "sample_checkpoint = \<lparr>cp_table_version = 1, cp_uri = RelativeUri ''c'', cp_sha256 = object_hash sample_externals sample_pages,
     cp_length = 16\<rparr>"

lemma sample_build:
  assumes "build sample_externals sample_checkpoint 4 sample_pages = Inr (idx, arts)"
  shows "length arts = 1"
proof -
  have mul: "usize_checked_mul 4 128 = Some 512" by (simp add: usize_checked_mul_def usize_bound_def)
  have ch: "chunks 512 sample_pages = [sample_pages]"
    by (subst chunks.simps) (simp add: sample_pages_def)
  from assms obtain rows arts0 h rows' where
    a: "add_node sample_externals ([], []) (leaf_of sample_externals 4 (0, sample_pages)) = Inr (rows, arts0)"
    and b: "build_levels sample_externals 0 rows arts0 = Inr (h, rows', arts)"
    by (auto simp: build_def checkpoint_index_capacity_def mul ch result_simps Let_def split: if_splits)
  from a have l: "length rows = 1" "length arts0 = 1" by (auto simp: add_node_def result_simps)
  with b show ?thesis by (simp add: build_levels.simps [of _ _ rows])
qed

text \<open>A reader that serves one artifact.\<close>

definition single_reader :: "artifact \<Rightarrow> reader" where
  "single_reader a = \<lparr>rd_ext = sample_externals,
     rd_read = (\<lambda>uri. Inr \<lparr>so_bytes = art_bytes a, so_version = content_version sample_externals []\<rparr>),
     rd_query = (\<lambda>_. Inl (Corrupt [])), rd_reserve = (\<lambda>_. True)\<rparr>"

theorem built_index_verifies_witness:
  "\<exists>idx a. build sample_externals sample_checkpoint 4 sample_pages = Inr (idx, [a])
    \<and> verify_checkpoint_index (single_reader a)
        \<lparr>mi_codec = [], mi_page_size = 4, mi_page_count = 4, mi_checkpoint = sample_checkpoint, mi_page_map = None,
         mi_checkpoint_page_index = Some idx, mi_image_root_sha256 = cp_sha256 sample_checkpoint\<rparr> sample_pages None = (Inr (), None)"
proof -
  have "(4 :: u32) \<noteq> 0" "unat (4 :: u32) dvd length sample_pages" "sample_pages \<noteq> []" "length sample_pages < 2 ^ 63"
    "cp_sha256 sample_checkpoint = object_hash sample_externals sample_pages"
    "cp_length sample_checkpoint = u64_of_usize (length sample_pages)"
    by (simp_all add: sample_pages_def sample_checkpoint_def u64_of_usize_def)
  note built_index_verifies [OF sample_laws this]
  then obtain idx arts where b: "build sample_externals sample_checkpoint 4 sample_pages = Inr (idx, arts)"
    and v: "\<And>rd img. rd_ext rd = sample_externals \<Longrightarrow> serves rd (set arts) \<Longrightarrow> mi_checkpoint img = sample_checkpoint
      \<Longrightarrow> mi_page_size img = 4 \<Longrightarrow> mi_checkpoint_page_index img = Some idx
      \<Longrightarrow> verify_checkpoint_index rd img sample_pages None = (Inr (), None)" by blast
  have "length arts = 1" by (rule sample_build [OF b])
  then obtain a where a: "arts = [a]" by (auto simp: length_Suc_conv)
  have "rd_ext (single_reader a) = sample_externals" "serves (single_reader a) (set arts)"
    by (simp_all add: single_reader_def serves_def a)
  from v [OF this] show ?thesis unfolding b a by simp
qed

end
