(* ===== verification/Candidate.thy ===== *)
theory Candidate
  imports Exactly_Once Checkpoint_Build
begin

text \<open>
  Building the candidate of a transaction, \<^verbatim>\<open>finish_candidate\<close> of \<^verbatim>\<open>otmp/src/runtime.rs\<close> and \<^verbatim>\<open>PreparedTransaction\<close> of
  \<^verbatim>\<open>otmp/src/runtime/transactions.rs\<close>: the commit with its state hash, the choice between a full checkpoint and an
  incremental image, the generation and the head. The JSON forms of requests and results are those of the derived
  serializers.

  Fresh identifiers and the clock are the record \<open>fresh\<close>; running the SQL statements of a transaction on the parent
  image is an argument. Writing an incremental image may not return (\<open>persist\<close>), so the result is an option.
\<close>

section \<open>JSON forms\<close>

definition tagged :: "string \<Rightarrow> (string \<times> canonical_value) list \<Rightarrow> canonical_value" where
  "tagged kind entries = obj_of ((''type'', CString kind) # entries)"

fun type_to_value :: "externals \<Rightarrow> logical_type \<Rightarrow> canonical_value"
  and field_to_value :: "externals \<Rightarrow> field \<Rightarrow> canonical_value" where
  "type_to_value x LBoolean = tagged ''boolean'' []"
| "type_to_value x LInt32 = tagged ''int32'' []"
| "type_to_value x LInt64 = tagged ''int64'' []"
| "type_to_value x LFloat32 = tagged ''float32'' []"
| "type_to_value x LFloat64 = tagged ''float64'' []"
| "type_to_value x (LDecimal p s) = tagged ''decimal'' [(''precision'', u32_value p), (''scale'', u32_value s)]"
| "type_to_value x LDate = tagged ''date'' []"
| "type_to_value x LTimeMicros = tagged ''time_micros'' []"
| "type_to_value x LTimestampMicros = tagged ''timestamp_micros'' []"
| "type_to_value x LTimestamptzMicros = tagged ''timestamptz_micros'' []"
| "type_to_value x LString = tagged ''string'' []"
| "type_to_value x LBinary = tagged ''binary'' []"
| "type_to_value x (LFixed n) = tagged ''fixed'' [(''length'', u32_value n)]"
| "type_to_value x LUuid = tagged ''uuid'' []"
| "type_to_value x (LStruct fs) = tagged ''struct'' [(''fields'', CArray (map (field_to_value x) fs))]"
| "type_to_value x (LList e) = tagged ''list'' [(''element'', field_to_value x e)]"
| "type_to_value x (LMap k v) = tagged ''map'' [(''key'', field_to_value x k), (''value'', field_to_value x v)]"
| "field_to_value x (Field i n r t d a b) =
     obj_of ([(''field_id'', u32_value i), (''name'', CString n), (''required'', CBool r), (''type'', type_to_value x t)]
       @ if_some ''doc'' CString d @ if_some ''initial_default'' (scalar_to_value x) a
       @ if_some ''write_default'' (scalar_to_value x) b)"

definition schema_to_value :: "externals \<Rightarrow> schema \<Rightarrow> canonical_value" where
  "schema_to_value x s =
     obj_of ([(''schema_id'', u32_value (sch_schema_id s))]
       @ if_some ''parent_schema_id'' u32_value (sch_parent_schema_id s)
       @ [(''fields'', CArray (map (field_to_value x) (sch_fields s))),
          (''identifier_field_ids'', CArray (map u32_value (sch_identifier_field_ids s)))]
       @ if_some ''doc'' CString (sch_doc s))"

text \<open>\<^verbatim>\<open>id_number\<close>: a \<^verbatim>\<open>u32\<close> as the decimal string of a \<^verbatim>\<open>JsonU64\<close>.\<close>

definition id_number :: "u32 \<Rightarrow> canonical_value" where
  "id_number i = u64_value (u64_from_u32 i)"

fun requirement_to_value :: "externals \<Rightarrow> requirement \<Rightarrow> canonical_value" where
  "requirement_to_value x (PropertyIs k v) = tagged ''property_is'' [(''key'', CString k), (''value'', v)]"
| "requirement_to_value x (RefAbsent n) = tagged ''ref_absent'' [(''ref'', CString n)]"
| "requirement_to_value x (RefExists n t) =
     tagged ''ref_exists'' [(''ref'', CString n), (''ref_type'', CString (ref_type_as_str t))]"
| "requirement_to_value x (RefSnapshotIs n s) =
     tagged ''ref_snapshot_is'' [(''ref'', CString n), (''snapshot_id'', or_null (id_value x) s)]"
| "requirement_to_value x (SnapshotExists i) = tagged ''snapshot_exists'' [(''snapshot_id'', id_value x i)]"
| "requirement_to_value x (CurrentSchemaIs i) = tagged ''current_schema_is'' [(''schema_id'', id_number i)]"
| "requirement_to_value x (SchemaIdAbsent i) = tagged ''schema_id_absent'' [(''schema_id'', id_number i)]"
| "requirement_to_value x (FieldIdsAbsent is) = tagged ''field_ids_absent'' [(''field_ids'', CArray (map id_number is))]"
| "requirement_to_value x (DefaultPartitionSpecIs i) =
     tagged ''default_partition_spec_is'' [(''partition_spec_id'', id_number i)]"
| "requirement_to_value x (DefaultSortOrderIs i) = tagged ''default_sort_order_is'' [(''sort_order_id'', id_number i)]"

fun operation_to_value :: "externals \<Rightarrow> operation_request \<Rightarrow> canonical_value" where
  "operation_to_value x (SetProperties i updates removals) =
     tagged ''set_properties'' [(''operation_id'', CString i), (''updates'', CObject updates),
       (''removals'', CArray (map CString removals))]"
| "operation_to_value x (CreateRef i n t s) =
     tagged ''create_ref'' [(''operation_id'', CString i), (''ref'', CString n),
       (''ref_type'', CString (ref_type_as_str t)), (''snapshot_id'', or_null (id_value x) s)]"
| "operation_to_value x (ReplaceRef i n s) =
     tagged ''replace_ref'' [(''operation_id'', CString i), (''ref'', CString n), (''snapshot_id'', id_value x s)]"
| "operation_to_value x (DropRef i n) = tagged ''drop_ref'' [(''operation_id'', CString i), (''ref'', CString n)]"
| "operation_to_value x (AddSchema i s) =
     tagged ''add_schema'' [(''operation_id'', CString i), (''schema'', schema_to_value x s)]"
| "operation_to_value x (SetCurrentSchema i s) =
     tagged ''set_current_schema'' [(''operation_id'', CString i), (''schema_id'', id_number s)]"

fun operation_result_to_value :: "externals \<Rightarrow> operation_result \<Rightarrow> canonical_value" where
  "operation_result_to_value x (PropertiesResult i ks) =
     tagged ''properties'' [(''operation_id'', CString i), (''keys'', CArray (map CString ks))]"
| "operation_result_to_value x (RefResult i n t s) =
     tagged ''ref'' [(''operation_id'', CString i), (''ref'', CString n),
       (''ref_type'', CString (ref_type_as_str t)), (''snapshot_id'', or_null (id_value x) s)]"
| "operation_result_to_value x (SchemaResult i s) =
     tagged ''schema'' [(''operation_id'', CString i), (''schema_id'', id_number s)]"

record durable_result =
  dr_table_version :: u64
  dr_commit_id :: id
  dr_operation_results :: "operation_result list"

definition durable_result_to_value :: "externals \<Rightarrow> durable_result \<Rightarrow> canonical_value" where
  "durable_result_to_value x r =
     obj_of [(''table_version'', CInteger (uint (dr_table_version r))), (''commit_id'', id_value x (dr_commit_id r)),
       (''operation_results'', CArray (map (operation_result_to_value x) (dr_operation_results r)))]"

definition request_to_value :: "externals \<Rightarrow> transaction_request \<Rightarrow> canonical_value" where
  "request_to_value x r =
     obj_of [(''idempotency_key'', CString (tr_idempotency_key r)),
       (''requirements'', CArray (map (requirement_to_value x) (tr_requirements r))),
       (''operations'', CArray (map (operation_to_value x) (tr_operations r))),
       (''commit_metadata'', CObject (tr_commit_metadata r))]"

section \<open>Finishing a candidate\<close>

record checkpoint_image =
  cki_bytes :: "byte list"
  cki_page_count :: u64
  cki_changed_pages :: "(u64, byte list) btree"

record fresh =
  fr_commit_id :: id
  fr_snapshot_id :: id
  fr_generation_id :: id
  fr_checkpoint_id :: id
  fr_now_ms :: "(runtime_error, i64) result"

definition versioned_uri :: "externals \<Rightarrow> string \<Rightarrow> u64 \<Rightarrow> id \<Rightarrow> string \<Rightarrow> (runtime_error, relative_uri) result" where
  "versioned_uri x folder version i ext =
     map_err ProtocolErr (uri_from_str (''_otmp/'' @ folder @ ''/'' @ show_nat (unat version) @ ''/'' @ id_to_string x i @ ext))"

text \<open>A new checkpoint, when there is no page map or the map would be at least as large as one; otherwise the parent's.\<close>

definition choose_image :: "runtime \<Rightarrow> fresh \<Rightarrow> pinned_table \<Rightarrow> u64 \<Rightarrow> checkpoint_image \<Rightarrow> incremental_image
    \<Rightarrow> (runtime_error, checkpoint \<times> page_map_root option \<times> checkpoint_page_index option \<times> artifact list) result" where
  "choose_image rt fresh parent version img inc =
     (if ii_root inc = None \<or> ii_reachable_bytes inc \<ge> u64_of_usize (length (cki_bytes img))
      then
        and_then (versioned_uri (rt_ext rt) ''checkpoints'' version (fr_checkpoint_id fresh) ''.sqlite3'') (\<lambda>uri.
        let base = \<lparr>cp_table_version = version, cp_uri = uri, cp_sha256 = object_hash (rt_ext rt) (cki_bytes img),
                    cp_length = u64_of_usize (length (cki_bytes img))\<rparr> in
        and_then (build (rt_ext rt) base image_page_size (cki_bytes img)) (\<lambda>(idx, arts).
          Inr (base, None, Some idx, arts @ [\<lparr>art_uri = uri, art_bytes = cki_bytes img\<rparr>])))
      else
        Inr (mi_checkpoint (g_metadata_image (pt_generation parent)), ii_root inc,
             mi_checkpoint_page_index (g_metadata_image (pt_generation parent)), ii_artifacts inc))"

definition candidate_generation :: "runtime \<Rightarrow> fresh \<Rightarrow> pinned_table \<Rightarrow> semantic_commit \<Rightarrow> object_reference \<Rightarrow> u64
    \<Rightarrow> checkpoint \<Rightarrow> page_map_root option \<Rightarrow> checkpoint_page_index option \<Rightarrow> generation" where
  "candidate_generation rt fresh parent commit commit_ref page_count base page_map idx =
     \<lparr>g_kind = ''otmp.metadata-generation'', g_format_version = 1, g_table_id = h_table_id (pt_head parent),
      g_table_version = sc_table_version commit, g_generation_id = fr_generation_id fresh,
      g_created_at_ms = sc_created_at_ms commit, g_semantic_state_sha256 = sc_semantic_state_sha256 commit,
      g_semantic_commit = commit_ref, g_physical_parent = Some (h_metadata_generation (pt_head parent)),
      g_metadata_image =
        \<lparr>mi_codec = SQLITE_COW_FEATURE, mi_page_size = image_page_size, mi_page_count = page_count, mi_checkpoint = base,
         mi_page_map = page_map, mi_checkpoint_page_index = idx,
         mi_image_root_sha256 = image_root_hash (rt_ext rt) (h_table_id (pt_head parent)) (sc_table_version commit)
           image_page_size page_count (cp_sha256 base) (map_option pmr_sha256 page_map)\<rparr>,
      g_scan_projection = None, g_metadata = []\<rparr>"

definition candidate_head :: "pinned_table \<Rightarrow> semantic_commit \<Rightarrow> object_reference \<Rightarrow> object_reference \<Rightarrow> u64 \<Rightarrow> head" where
  "candidate_head parent commit commit_ref generation_ref root_revision =
     \<lparr>h_protocol = ''otmp'', h_protocol_version = ''0.0.2-alpha'', h_table_id = h_table_id (pt_head parent),
      h_table_version = sc_table_version commit, h_root_revision = root_revision,
      h_semantic_state_sha256 = sc_semantic_state_sha256 commit, h_semantic_commit = commit_ref,
      h_metadata_generation = generation_ref,
      h_required_reader_features = h_required_reader_features (pt_head parent),
      h_required_writer_features = h_required_writer_features (pt_head parent)\<rparr>"

text \<open>The checks of the new image, before and after it is written.\<close>

definition validate_candidate :: "runtime \<Rightarrow> pinned_table \<Rightarrow> semantic_commit \<Rightarrow> relative_uri \<Rightarrow> sha256 \<Rightarrow> checkpoint_image
    \<Rightarrow> (runtime_error, unit) result" where
  "validate_candidate rt parent commit commit_uri commit_hash img =
     and_then (canonical_text (rt_wire rt) (rt_utf8_error rt) (features_value (h_required_reader_features (pt_head parent)))) (\<lambda>readers.
     and_then (canonical_text (rt_wire rt) (rt_utf8_error rt) (features_value (h_required_writer_features (pt_head parent)))) (\<lambda>writers.
       db_validate (rt_db rt) (cki_bytes img)
         \<lparr>ei_table_id = h_table_id (pt_head parent), ei_table_version = sc_table_version commit,
          ei_semantic_state = sc_semantic_state_sha256 commit, ei_commit_id = sc_commit_id commit,
          ei_commit_hash = commit_hash, ei_commit_uri = uri_as_str commit_uri,
          ei_reader_features_json = readers, ei_writer_features_json = writers,
          ei_previous_semantic_state = sc_previous_semantic_state_sha256 commit\<rparr>))"

definition assemble :: "runtime \<Rightarrow> fresh \<Rightarrow> pinned_table \<Rightarrow> semantic_commit \<Rightarrow> relative_uri \<Rightarrow> byte list \<Rightarrow> checkpoint_image
    \<Rightarrow> 'r \<Rightarrow> incremental_image \<Rightarrow> (runtime_error, 'r candidate) result" where
  "assemble rt fresh parent commit commit_uri commit_bytes img result inc =
     and_then (choose_image rt fresh parent (sc_table_version commit) img inc) (\<lambda>(base, page_map, idx, arts).
     and_then (versioned_uri (rt_ext rt) ''generations'' (sc_table_version commit) (fr_generation_id fresh) ''.json'') (\<lambda>generation_uri.
     let commit_ref = object_reference_of commit_uri (object_hash (rt_ext rt) commit_bytes)
                        (u64_of_usize (length commit_bytes)) COMMIT_MEDIA_TYPE;
         generation = candidate_generation rt fresh parent commit commit_ref (cki_page_count img) base page_map idx in
     and_then (json_vec (rt_wire rt) (generation_to_value (rt_ext rt) generation)) (\<lambda>generation_bytes.
     and_then (ok_or (InvalidAppend ''root revision exhausted'') (checked_add (h_root_revision (pt_head parent)) 1)) (\<lambda>root_revision.
     let head = candidate_head parent commit commit_ref
                  (object_reference_of generation_uri (object_hash (rt_ext rt) generation_bytes)
                     (u64_of_usize (length generation_bytes)) GENERATION_MEDIA_TYPE) root_revision in
     and_then (db_validate_commit_projection (rt_db rt) (cki_bytes img) commit) (\<lambda>_.
     and_then (db_state_of_commit (rt_db rt) (cki_bytes img) (id_as_bytes (sc_commit_id commit))) (\<lambda>committed_state.
     and_then (hash_from_blob committed_state) (\<lambda>state.
     and_then (json_vec (rt_wire rt) (head_to_value (rt_ext rt) head)) (\<lambda>head_bytes.
       Inr \<lparr>cd_semantic_state = state, cd_commit_uri = commit_uri, cd_commit_bytes = commit_bytes,
            cd_image_artifacts = arts, cd_generation_uri = generation_uri, cd_generation_bytes = generation_bytes,
            cd_head_bytes = head_bytes, cd_result = result\<rparr>))))))))"

definition finish_candidate :: "runtime \<Rightarrow> fresh \<Rightarrow> pinned_table \<Rightarrow> semantic_commit \<Rightarrow> relative_uri \<Rightarrow> byte list
    \<Rightarrow> checkpoint_image \<Rightarrow> 'r \<Rightarrow> (runtime_error fault, 'r candidate) result option" where
  "finish_candidate rt fresh parent commit commit_uri commit_bytes img result =
     (case and_then (runtime_fault (commit_validate_runtime_profile (rt_wire rt) commit)) (\<lambda>_.
             lift (validate_candidate rt parent commit commit_uri (object_hash (rt_ext rt) commit_bytes) img)) of
        Inl e \<Rightarrow> Some (Inl e)
      | Inr _ \<Rightarrow>
          map_option (\<lambda>r. lift (and_then r (\<lambda>inc. assemble rt fresh parent commit commit_uri commit_bytes img result inc)))
            (persist (rt_ext rt) (pt_page_tree parent) (cki_changed_pages img) (cki_page_count img)))"

section \<open>Metadata transactions\<close>

definition zero_sha :: sha256 where
  "zero_sha = Sha256 (replicate 32 0)"

text \<open>A commit gets its state hash from the state before it and its own body.\<close>

definition seal_commit :: "wire \<Rightarrow> sha256 \<Rightarrow> semantic_commit \<Rightarrow> (runtime_error, semantic_commit) result" where
  "seal_commit w previous commit =
     and_then (commit_body w commit) (\<lambda>body.
       Inr (commit\<lparr>sc_semantic_state_sha256 := next_state_hash (w_ext w) previous body\<rparr>))"

definition transaction_commit :: "runtime \<Rightarrow> fresh \<Rightarrow> pinned_table \<Rightarrow> transaction_request \<Rightarrow> sha256 \<Rightarrow> u64 \<Rightarrow> durable_result
    \<Rightarrow> (runtime_error, semantic_commit) result" where
  "transaction_commit rt fresh base request logical_hash version result =
     (let x = rt_ext rt; w = rt_wire rt in
      and_then (json_value w (durable_result_to_value x result)) (\<lambda>result_value.
      and_then (fr_now_ms fresh) (\<lambda>now.
      and_then (try_map (\<lambda>r. json_value w (requirement_to_value x r)) (tr_requirements request)) (\<lambda>requirements.
      and_then (try_map (\<lambda>r. json_value w (operation_to_value x r)) (tr_operations request)) (\<lambda>operations.
      and_then (json_value w (CObject (tr_commit_metadata request))) (\<lambda>metadata.
        seal_commit w (h_semantic_state_sha256 (pt_head base))
          \<lparr>sc_kind = ''otmp.semantic-commit'', sc_format_version = 1, sc_table_id = h_table_id (pt_head base),
           sc_table_version = version, sc_parent_table_version = Some (h_table_version (pt_head base)),
           sc_commit_id = fr_commit_id fresh, sc_parent_commit = Some (h_semantic_commit (pt_head base)),
           sc_created_at_ms = now,
           sc_intents = [\<lparr>ir_key = tr_idempotency_key request, ir_intent_sha256 = logical_hash,
             ir_operation_ids = map operation_id (tr_operations request), ir_result = result_value\<rparr>],
           sc_requirements = requirements, sc_operations = operations,
           sc_required_reader_features_after_commit = h_required_reader_features (pt_head base),
           sc_required_writer_features_after_commit = h_required_writer_features (pt_head base),
           sc_previous_semantic_state_sha256 = Some (h_semantic_state_sha256 (pt_head base)),
           sc_semantic_state_sha256 = zero_sha, sc_metadata = metadata\<rparr>))))))"

text \<open>
  \<^verbatim>\<open>PreparedTransaction::new\<close> and \<^verbatim>\<open>build\<close>. \<open>metadata\<close> stands for \<^verbatim>\<open>image::turso_metadata\<close>, which runs the statements.
\<close>

definition transaction_candidate :: "runtime \<Rightarrow> (byte list \<Rightarrow> semantic_commit \<Rightarrow> relative_uri \<Rightarrow> operation_request list
      \<Rightarrow> (runtime_error, checkpoint_image) result) \<Rightarrow> fresh \<Rightarrow> transaction_request \<Rightarrow> sha256 \<Rightarrow> pinned_table
    \<Rightarrow> (runtime_error fault, durable_result candidate) result option" where
  "transaction_candidate rt metadata fresh request logical_hash base =
     (case and_then (db_open (rt_db rt) (pt_resolved base)) (\<lambda>cn.
           and_then (prepare_operations cn request) (\<lambda>results.
           and_then (ok_or (InvalidTransaction ''version exhausted'') (checked_add (h_table_version (pt_head base)) 1)) (\<lambda>version.
           let result = \<lparr>dr_table_version = version, dr_commit_id = fr_commit_id fresh, dr_operation_results = results\<rparr> in
           and_then (transaction_commit rt fresh base request logical_hash version result) (\<lambda>commit.
           and_then (json_vec (rt_wire rt) (commit_to_value (rt_ext rt) commit)) (\<lambda>commit_bytes.
           and_then (versioned_uri (rt_ext rt) ''commits'' version (fr_commit_id fresh) ''.json'') (\<lambda>commit_uri.
           and_then (metadata (pt_resolved base) commit commit_uri (tr_operations request)) (\<lambda>img.
             Inr (commit, commit_uri, commit_bytes, img, result)))))))) of
        Inl e \<Rightarrow> Some (Inl (Fail e))
      | Inr (commit, commit_uri, commit_bytes, img, result) \<Rightarrow>
          finish_candidate rt fresh base commit commit_uri commit_bytes img result)"

section \<open>What a candidate publishes\<close>

text \<open>
  The body of a commit leaves its own state hash out. A serializer whose output reads back as the value it was given
  has this property.
\<close>

definition body_excludes_state :: "wire \<Rightarrow> bool" where
  "body_excludes_state w = (\<forall>c h. commit_body w (c\<lparr>sc_semantic_state_sha256 := h\<rparr>) = commit_body w c)"

lemma map_of_others: "map_of (rev (filter (\<lambda>e. fst e \<noteq> k) es)) = (map_of (rev es))(k := None)"
  by (induction es) (auto simp: map_add_def fun_eq_iff split: option.split)

lemma remove_extended:
  "bt_remove k (bt_extend [] es) = bt_extend [] (filter (\<lambda>e. fst e \<noteq> k) es)"
proof (rule bt.entries_determined)
  have e: "bt_ok ([] :: ('a \<times> 'b) list)" by (simp add: bt_ok_def)
  then show "bt_get (bt_remove k (bt_extend [] es)) = bt_get (bt_extend [] (filter (\<lambda>e. fst e \<noteq> k) es))"
    by (simp add: bt_get_remove bt_get_extend map_of_others bt.lookup_empty)
qed (auto simp: bt_ok_def [of "[]"] intro!: bt_ok_remove bt_ok_extend)

lemma faithful_excludes_state:
  assumes "\<And>c. json_value w (commit_to_value (w_ext w) c) = Inr (commit_to_value (w_ext w) c)"
  shows "body_excludes_state w"
  unfolding body_excludes_state_def commit_body_def assms
  by (simp add: commit_to_value_def obj_of_def remove_extended)

text \<open>The links from a candidate to the pinned table it was built on, and between its objects.\<close>

definition named_by :: "externals \<Rightarrow> object_reference \<Rightarrow> relative_uri \<Rightarrow> byte list \<Rightarrow> string \<Rightarrow> bool" where
  "named_by x r uri bs media_type = (r = object_reference_of uri (object_hash x bs) (u64_of_usize (length bs)) media_type)"

definition extends_table :: "runtime \<Rightarrow> pinned_table \<Rightarrow> 'r candidate \<Rightarrow> head \<Rightarrow> semantic_commit \<Rightarrow> generation \<Rightarrow> bool" where
  "extends_table rt base cd h c g =
     (json_vec (rt_wire rt) (head_to_value (rt_ext rt) h) = Inr (cd_head_bytes cd)
      \<and> json_vec (rt_wire rt) (commit_to_value (rt_ext rt) c) = Inr (cd_commit_bytes cd)
      \<and> json_vec (rt_wire rt) (generation_to_value (rt_ext rt) g) = Inr (cd_generation_bytes cd)
      \<and> named_by (rt_ext rt) (h_semantic_commit h) (cd_commit_uri cd) (cd_commit_bytes cd) COMMIT_MEDIA_TYPE
      \<and> named_by (rt_ext rt) (h_metadata_generation h) (cd_generation_uri cd) (cd_generation_bytes cd) GENERATION_MEDIA_TYPE
      \<and> check_pin_objects rt h c g = Inr ()
      \<and> h_table_id h = h_table_id (pt_head base)
      \<and> unat (h_table_version h) = unat (h_table_version (pt_head base)) + 1
      \<and> unat (h_root_revision h) = unat (h_root_revision (pt_head base)) + 1
      \<and> sc_parent_commit c = Some (h_semantic_commit (pt_head base))
      \<and> sc_previous_semantic_state_sha256 c = Some (h_semantic_state_sha256 (pt_head base))
      \<and> g_physical_parent g = Some (h_metadata_generation (pt_head base)))"

lemma pin_objects_Inr:
  "check_pin_objects rt head commit generation = Inr () \<longleftrightarrow>
     validate_head_features head = Inr () \<and> commit_validate_runtime_profile (rt_wire rt) commit = Inr ()
     \<and> sc_table_id commit = h_table_id head \<and> sc_table_version commit = h_table_version head
     \<and> sc_semantic_state_sha256 commit = h_semantic_state_sha256 head
     \<and> sc_required_reader_features_after_commit commit = h_required_reader_features head
     \<and> sc_required_writer_features_after_commit commit = h_required_writer_features head
     \<and> recomputed_state (rt_wire rt) commit = Inr (sc_semantic_state_sha256 commit)
     \<and> generation_validate_runtime_profile generation = Inr ()
     \<and> g_table_id generation = h_table_id head \<and> g_table_version generation = h_table_version head
     \<and> g_semantic_state_sha256 generation = h_semantic_state_sha256 head
     \<and> g_semantic_commit generation = h_semantic_commit head"
  by (auto simp: check_pin_objects_def result_simps runtime_fault_def split: if_splits)

lemma finish_candidate_Inr:
  assumes "finish_candidate rt fresh parent commit commit_uri commit_bytes img result = Some (Inr cd)"
  obtains inc base page_map idx arts generation_uri generation_bytes root_revision head_bytes state where
    "commit_validate_runtime_profile (rt_wire rt) commit = Inr ()"
    "persist (rt_ext rt) (pt_page_tree parent) (cki_changed_pages img) (cki_page_count img) = Some (Inr inc)"
    "choose_image rt fresh parent (sc_table_version commit) img inc = Inr (base, page_map, idx, arts)"
    "json_vec (rt_wire rt) (generation_to_value (rt_ext rt) (candidate_generation rt fresh parent commit
        (object_reference_of commit_uri (object_hash (rt_ext rt) commit_bytes) (u64_of_usize (length commit_bytes)) COMMIT_MEDIA_TYPE)
        (cki_page_count img) base page_map idx)) = Inr generation_bytes"
    "checked_add (h_root_revision (pt_head parent)) 1 = Some root_revision"
    "json_vec (rt_wire rt) (head_to_value (rt_ext rt) (candidate_head parent commit
        (object_reference_of commit_uri (object_hash (rt_ext rt) commit_bytes) (u64_of_usize (length commit_bytes)) COMMIT_MEDIA_TYPE)
        (object_reference_of generation_uri (object_hash (rt_ext rt) generation_bytes) (u64_of_usize (length generation_bytes))
           GENERATION_MEDIA_TYPE) root_revision)) = Inr head_bytes"
    "cd = \<lparr>cd_semantic_state = state, cd_commit_uri = commit_uri, cd_commit_bytes = commit_bytes,
        cd_image_artifacts = arts, cd_generation_uri = generation_uri, cd_generation_bytes = generation_bytes,
        cd_head_bytes = head_bytes, cd_result = result\<rparr>"
    "validate_candidate rt parent commit commit_uri (object_hash (rt_ext rt) commit_bytes) img = Inr ()"
    "db_validate_commit_projection (rt_db rt) (cki_bytes img) commit = Inr ()"
proof -
  from assms obtain inc where
    v: "commit_validate_runtime_profile (rt_wire rt) commit = Inr ()"
      "validate_candidate rt parent commit commit_uri (object_hash (rt_ext rt) commit_bytes) img = Inr ()"
    and p: "persist (rt_ext rt) (pt_page_tree parent) (cki_changed_pages img) (cki_page_count img) = Some (Inr inc)"
    and a: "assemble rt fresh parent commit commit_uri commit_bytes img result inc = Inr cd"
    by (auto simp: finish_candidate_def result_simps runtime_fault_def split: sum.splits)
  from a show thesis
    unfolding assemble_def Let_def
    by (auto simp: result_simps) (rule that [OF v(1) p _ _ _ _ _ v(2)], assumption+)
qed


text \<open>The image a candidate names is within the profile of generations.\<close>

lemma choose_image_profile:
  assumes "choose_image rt fresh parent version img inc = Inr (base, page_map, idx, arts)"
    and parent: "generation_validate_runtime_profile (pt_generation parent) = Inr ()"
      "g_table_version (pt_generation parent) \<le> version"
  shows "cp_table_version base \<le> version" "page_map = None \<Longrightarrow> cp_table_version base = version"
    "\<And>i. idx = Some i \<Longrightarrow> checkpoint_page_index_validate i base image_page_size = Inr ()"
proof -
  have built: "checkpoint_page_index_validate i c image_page_size = Inr ()" if "build (rt_ext rt) c image_page_size bs = Inr (i, a)" for c bs i a
    using that by (auto simp: build_def result_simps Let_def split: if_splits)
  have "cp_table_version base \<le> version \<and> (page_map = None \<longrightarrow> cp_table_version base = version)
      \<and> (\<forall>i. idx = Some i \<longrightarrow> checkpoint_page_index_validate i base image_page_size = Inr ())"
  proof (cases "ii_root inc = None \<or> ii_reachable_bytes inc \<ge> u64_of_usize (length (cki_bytes img))")
    case True
    with assms(1) show ?thesis by (auto simp: choose_image_def result_simps Let_def dest!: built)
  next
    case False
    moreover have "cp_table_version (mi_checkpoint (g_metadata_image (pt_generation parent))) \<le> version"
      using parent by (auto simp: generation_validate_runtime_profile_def Let_def split: if_splits)
    ultimately show ?thesis using assms(1) parent(1)
      by (auto simp: choose_image_def generation_validate_runtime_profile_def Let_def image_page_size_def split: if_splits)
  qed
  then show "cp_table_version base \<le> version" "page_map = None \<Longrightarrow> cp_table_version base = version"
    "\<And>i. idx = Some i \<Longrightarrow> checkpoint_page_index_validate i base image_page_size = Inr ()" by blast+
qed

lemma finish_extends_table:
  assumes f: "finish_candidate rt fresh base c commit_uri commit_bytes img result = Some (Inr cd)"
    and pinned: "check_pin_objects rt (pt_head base) (pt_commit base) (pt_generation base) = Inr ()"
    and bytes: "json_vec (rt_wire rt) (commit_to_value (rt_ext rt) c) = Inr commit_bytes"
    and c: "sc_table_id c = h_table_id (pt_head base)"
      "checked_add (h_table_version (pt_head base)) 1 = Some (sc_table_version c)"
      "sc_required_reader_features_after_commit c = h_required_reader_features (pt_head base)"
      "sc_required_writer_features_after_commit c = h_required_writer_features (pt_head base)"
      "sc_parent_commit c = Some (h_semantic_commit (pt_head base))"
      "sc_previous_semantic_state_sha256 c = Some (h_semantic_state_sha256 (pt_head base))"
      "recomputed_state (rt_wire rt) c = Inr (sc_semantic_state_sha256 c)"
  shows "\<exists>h g. extends_table rt base cd h c g \<and> cd_result cd = result"
proof -
  obtain inc bs page_map idx arts generation_uri generation_bytes root_revision head_bytes state where
    v: "commit_validate_runtime_profile (rt_wire rt) c = Inr ()"
    and ch: "choose_image rt fresh base (sc_table_version c) img inc = Inr (bs, page_map, idx, arts)"
    and gb: "json_vec (rt_wire rt) (generation_to_value (rt_ext rt) (candidate_generation rt fresh base c
        (object_reference_of commit_uri (object_hash (rt_ext rt) commit_bytes) (u64_of_usize (length commit_bytes)) COMMIT_MEDIA_TYPE)
        (cki_page_count img) bs page_map idx)) = Inr generation_bytes"
    and rr: "checked_add (h_root_revision (pt_head base)) 1 = Some root_revision"
    and hb: "json_vec (rt_wire rt) (head_to_value (rt_ext rt) (candidate_head base c
        (object_reference_of commit_uri (object_hash (rt_ext rt) commit_bytes) (u64_of_usize (length commit_bytes)) COMMIT_MEDIA_TYPE)
        (object_reference_of generation_uri (object_hash (rt_ext rt) generation_bytes) (u64_of_usize (length generation_bytes))
           GENERATION_MEDIA_TYPE) root_revision)) = Inr head_bytes"
    and cd: "cd = \<lparr>cd_semantic_state = state, cd_commit_uri = commit_uri, cd_commit_bytes = commit_bytes,
        cd_image_artifacts = arts, cd_generation_uri = generation_uri, cd_generation_bytes = generation_bytes,
        cd_head_bytes = head_bytes, cd_result = result\<rparr>"
    by (rule finish_candidate_Inr [OF f])
  let ?cr = "object_reference_of commit_uri (object_hash (rt_ext rt) commit_bytes) (u64_of_usize (length commit_bytes)) COMMIT_MEDIA_TYPE"
  let ?gr = "object_reference_of generation_uri (object_hash (rt_ext rt) generation_bytes) (u64_of_usize (length generation_bytes))
           GENERATION_MEDIA_TYPE"
  let ?h = "candidate_head base c ?cr ?gr root_revision"
  let ?g = "candidate_generation rt fresh base c ?cr (cki_page_count img) bs page_map idx"
  note pin = pinned [unfolded pin_objects_Inr]
  have ver: "unat (sc_table_version c) = unat (h_table_version (pt_head base)) + 1" by (simp add: unat_checked_add [OF c(2)])
  then have "g_table_version (pt_generation base) \<le> sc_table_version c" using pin by (simp add: word_le_nat_alt)
  moreover have "generation_validate_runtime_profile (pt_generation base) = Inr ()" using pin by simp
  ultimately have profile: "cp_table_version bs \<le> sc_table_version c" "page_map = None \<Longrightarrow> cp_table_version bs = sc_table_version c"
    "\<And>i. idx = Some i \<Longrightarrow> checkpoint_page_index_validate i bs image_page_size = Inr ()"
    using choose_image_profile [OF ch] by blast+
  then have "generation_validate_runtime_profile ?g = Inr ()"
    by (cases idx; cases page_map) (auto simp: generation_validate_runtime_profile_def candidate_generation_def Let_def SQLITE_COW_FEATURE_def
        image_page_size_def not_less)
  moreover have "validate_head_features ?h = Inr ()"
    using pin by (auto simp: validate_head_features_def head_validate_def candidate_head_def result_simps object_reference_of_def
        PROTOCOL_def PROTOCOL_VERSION_def split: if_splits)
  ultimately have "check_pin_objects rt ?h c ?g = Inr ()"
    using v c unfolding pin_objects_Inr by (simp add: candidate_head_def candidate_generation_def)
  moreover have "unat root_revision = unat (h_root_revision (pt_head base)) + 1" by (simp add: unat_checked_add [OF rr])
  ultimately have "extends_table rt base cd ?h c ?g"
    using gb hb bytes c ver
    by (simp add: extends_table_def cd named_by_def) (simp add: candidate_head_def candidate_generation_def)
  then show ?thesis unfolding cd by (intro exI [of _ ?h] exI [of _ ?g]) simp
qed


lemma seal_recomputed:
  assumes "body_excludes_state w" "seal_commit w previous c0 = Inr c" "sc_previous_semantic_state_sha256 c0 = Some previous"
  shows "recomputed_state w c = Inr (sc_semantic_state_sha256 c)"
  using assms by (auto simp: seal_commit_def recomputed_state_def result_simps body_excludes_state_def)

lemma transaction_commit_Inr:
  assumes "transaction_commit rt fresh base request logical_hash version result = Inr c"
    and "body_excludes_state (rt_wire rt)"
  shows "sc_table_id c = h_table_id (pt_head base) \<and> sc_table_version c = version \<and> sc_commit_id c = fr_commit_id fresh
    \<and> sc_required_reader_features_after_commit c = h_required_reader_features (pt_head base)
    \<and> sc_required_writer_features_after_commit c = h_required_writer_features (pt_head base)
    \<and> sc_parent_commit c = Some (h_semantic_commit (pt_head base))
    \<and> sc_previous_semantic_state_sha256 c = Some (h_semantic_state_sha256 (pt_head base))
    \<and> map ir_key (sc_intents c) = [tr_idempotency_key request] \<and> map ir_intent_sha256 (sc_intents c) = [logical_hash]
    \<and> recomputed_state (rt_wire rt) c = Inr (sc_semantic_state_sha256 c)"
proof -
  from assms(1) obtain c0 where c0: "seal_commit (rt_wire rt) (h_semantic_state_sha256 (pt_head base)) c0 = Inr c"
    "sc_table_id c0 = h_table_id (pt_head base)" "sc_table_version c0 = version" "sc_commit_id c0 = fr_commit_id fresh"
    "sc_required_reader_features_after_commit c0 = h_required_reader_features (pt_head base)"
    "sc_required_writer_features_after_commit c0 = h_required_writer_features (pt_head base)"
    "sc_parent_commit c0 = Some (h_semantic_commit (pt_head base))"
    "sc_previous_semantic_state_sha256 c0 = Some (h_semantic_state_sha256 (pt_head base))"
    "map ir_key (sc_intents c0) = [tr_idempotency_key request]" "map ir_intent_sha256 (sc_intents c0) = [logical_hash]"
    by (fastforce simp: transaction_commit_def Let_def result_simps)
  moreover from c0(1) obtain s where "c = c0\<lparr>sc_semantic_state_sha256 := s\<rparr>" by (auto simp: seal_commit_def result_simps)
  ultimately show ?thesis using seal_recomputed [OF assms(2) c0(1) c0(8)] by simp
qed

lemma prepared_results:
  assumes "prepare_operations cn request = Inr results"
  shows "evaluate cn (tr_requirements request) = Inr () \<and> map result_id results = map operation_id (tr_operations request)"
proof -
  from assms obtain s where e: "evaluate cn (tr_requirements request) = Inr ()"
    and f: "try_fold (prepare_step cn request)
            ([], \<lparr>ps_ids = {}, ps_keys = {}, ps_refs = {}, ps_add_schema = False, ps_set_schema = False\<rparr>)
            (tr_operations request) = Inr (results, s)"
    by (auto simp: prepare_operations_def and_then_eq_Inr invalid_def split: if_splits)
  have "seen cn request (tr_operations request) (results, s)"
    using prepare_fold_seen [OF f _ e, of "[]"] by (simp add: seen_def)
  with e show ?thesis by (simp add: seen_def)
qed

lemma transaction_candidate_Inr:
  assumes "transaction_candidate rt metadata fresh request logical_hash base = Some (Inr cd)"
  obtains cn results version c commit_bytes commit_uri img where
    "db_open (rt_db rt) (pt_resolved base) = Inr cn" "prepare_operations cn request = Inr results"
    "checked_add (h_table_version (pt_head base)) 1 = Some version"
    "transaction_commit rt fresh base request logical_hash version
       \<lparr>dr_table_version = version, dr_commit_id = fr_commit_id fresh, dr_operation_results = results\<rparr> = Inr c"
    "json_vec (rt_wire rt) (commit_to_value (rt_ext rt) c) = Inr commit_bytes"
    "metadata (pt_resolved base) c commit_uri (tr_operations request) = Inr img"
    "finish_candidate rt fresh base c commit_uri commit_bytes img
       \<lparr>dr_table_version = version, dr_commit_id = fr_commit_id fresh, dr_operation_results = results\<rparr> = Some (Inr cd)"
  using assms unfolding transaction_candidate_def Let_def
  by (auto simp: result_simps split: sum.splits intro: that)

text \<open>
  C4: the candidate of a transaction is a table that readers pin. Its head, commit and generation pass the
  checks between objects, each reference names the exact bytes uploaded, version and revision are one more than the
  pinned ones without wrap-around, and the commit is chained to the pinned commit and state. The result
  answers every operation of the request, whose requirements held on the pinned image.
\<close>

theorem transaction_candidate_extends:
  assumes "transaction_candidate rt metadata fresh request logical_hash base = Some (Inr cd)"
    and "check_pin_objects rt (pt_head base) (pt_commit base) (pt_generation base) = Inr ()"
    and "body_excludes_state (rt_wire rt)"
  shows "\<exists>h c g cn. extends_table rt base cd h c g
    \<and> map ir_key (sc_intents c) = [tr_idempotency_key request] \<and> map ir_intent_sha256 (sc_intents c) = [logical_hash]
    \<and> dr_table_version (cd_result cd) = h_table_version h \<and> dr_commit_id (cd_result cd) = sc_commit_id c
    \<and> db_open (rt_db rt) (pt_resolved base) = Inr cn \<and> evaluate cn (tr_requirements request) = Inr ()
    \<and> map result_id (dr_operation_results (cd_result cd)) = map operation_id (tr_operations request)"
proof -
  obtain cn results version c commit_bytes commit_uri img where
    prep: "db_open (rt_db rt) (pt_resolved base) = Inr cn" "prepare_operations cn request = Inr results"
    and ver: "checked_add (h_table_version (pt_head base)) 1 = Some version"
    and tc: "transaction_commit rt fresh base request logical_hash version
       \<lparr>dr_table_version = version, dr_commit_id = fr_commit_id fresh, dr_operation_results = results\<rparr> = Inr c"
    and bytes: "json_vec (rt_wire rt) (commit_to_value (rt_ext rt) c) = Inr commit_bytes"
    and fin: "finish_candidate rt fresh base c commit_uri commit_bytes img
       \<lparr>dr_table_version = version, dr_commit_id = fr_commit_id fresh, dr_operation_results = results\<rparr> = Some (Inr cd)"
    by (rule transaction_candidate_Inr [OF assms(1)])
  note c = transaction_commit_Inr [OF tc assms(3)]
  obtain h g where ext: "extends_table rt base cd h c g"
    and res: "cd_result cd = \<lparr>dr_table_version = version, dr_commit_id = fr_commit_id fresh, dr_operation_results = results\<rparr>"
    using finish_extends_table [OF fin assms(2) bytes] c ver by auto
  have "sc_table_version c = h_table_version h" using ext by (simp add: extends_table_def pin_objects_Inr)
  with c have "version = h_table_version h" by simp
  moreover have "evaluate cn (tr_requirements request) = Inr ()" "map result_id results = map operation_id (tr_operations request)"
    using prepared_results [OF prep(2)] by simp_all
  ultimately show ?thesis using ext res c prep(1)
    by (intro exI [of _ h] exI [of _ c] exI [of _ g] exI [of _ cn]) simp
qed


section \<open>A sample candidate\<close>

text \<open>
  A transaction that creates a branch of the sample table, with a serializer that tells its operation, its requirement and
  all other values apart.
\<close>

definition cand_request :: transaction_request where
  "cand_request = \<lparr>tr_idempotency_key = ''k2'', tr_requirements = [RefAbsent ''new''],
     tr_operations = [CreateRef ''o1'' ''new'' Branch None], tr_commit_metadata = []\<rparr>"

definition cand_requirement_bytes :: "byte list" where
  "cand_requirement_bytes = as_bytes ''{\"ref\":\"new\",\"type\":\"ref_absent\"}''"

definition cand_operation_bytes :: "byte list" where
  "cand_operation_bytes = as_bytes
     ''{\"operation_id\":\"o1\",\"ref\":\"new\",\"ref_type\":\"branch\",\"snapshot_id\":null,\"type\":\"create_ref\"}''"

definition cand_serde :: serde where
  "cand_serde = tbl_serde\<lparr>
     sj_to_vec := (\<lambda>v. Inr (case v of
         CObject m \<Rightarrow> if bt_get m ''ref'' = None then tbl_bytes
           else if bt_get m ''operation_id'' = None then cand_requirement_bytes else cand_operation_bytes
       | _ \<Rightarrow> tbl_bytes)),
     sj_events := (\<lambda>bs.
       if bs = cand_requirement_bytes then EMap [(''ref'', EStr ''new''), (''type'', EStr ''ref_absent'')] None
       else if bs = cand_operation_bytes then EMap [(''operation_id'', EStr ''o1''), (''ref'', EStr ''new''), (''ref_type'', EStr ''branch''),
           (''snapshot_id'', EUnit), (''type'', EStr ''create_ref'')] None
       else EMap [] None)\<rparr>"

definition cand_runtime :: runtime where
  "cand_runtime = tbl_runtime\<lparr>rt_wire := tbl_wire\<lparr>w_serde := cand_serde\<rparr>\<rparr>"

definition cand_fresh :: fresh where
  "cand_fresh = \<lparr>fr_commit_id = sample_id, fr_snapshot_id = sample_id, fr_generation_id = sample_id, fr_checkpoint_id = sample_id,
     fr_now_ms = Inr 0\<rparr>"

definition cand_metadata :: "byte list \<Rightarrow> semantic_commit \<Rightarrow> relative_uri \<Rightarrow> operation_request list \<Rightarrow> (runtime_error, checkpoint_image) result" where
  "cand_metadata img c uri ops = Inr \<lparr>cki_bytes = img, cki_page_count = 1, cki_changed_pages = []\<rparr>"

lemma cand_runtime_simps [simp]: "w_ext (rt_wire cand_runtime) = sample_externals" "w_serde (rt_wire cand_runtime) = cand_serde"
  "rt_db cand_runtime = tbl_database"
  by (simp_all add: cand_runtime_def) (simp add: tbl_runtime_def)

lemma cand_bytes_distinct: "tbl_bytes \<noteq> cand_requirement_bytes" "tbl_bytes \<noteq> cand_operation_bytes" "cand_operation_bytes \<noteq> cand_requirement_bytes"
  by (simp_all add: tbl_bytes_def cand_requirement_bytes_def cand_operation_bytes_def)

lemma cand_parse:
  "parse cand_serde tbl_bytes = Inr (CObject [])"
  "parse cand_serde cand_requirement_bytes = Inr (CObject [(''ref'', CString ''new''), (''type'', CString ''ref_absent'')])"
  "parse cand_serde cand_operation_bytes = Inr (CObject [(''operation_id'', CString ''o1''), (''ref'', CString ''new''),
     (''ref_type'', CString ''branch''), (''snapshot_id'', CNull), (''type'', CString ''create_ref'')])"
proof -
  have v: "validate_number_tokens tbl_bytes = Inr ()" "validate_number_tokens cand_requirement_bytes = Inr ()"
    "validate_number_tokens cand_operation_bytes = Inr ()" by code_simp+
  have e: "sj_end cand_serde bs = Inr ()" "sj_render cand_serde m = m" for bs m by (simp_all add: cand_serde_def tbl_serde_def)
  show "parse cand_serde tbl_bytes = Inr (CObject [])"
    by (simp add: parse_def v e) (simp add: cand_serde_def visit_end_def cand_bytes_distinct)
  show "parse cand_serde cand_requirement_bytes = Inr (CObject [(''ref'', CString ''new''), (''type'', CString ''ref_absent'')])"
    by (simp add: parse_def v e) (simp add: cand_serde_def visit_end_def bt_get_def)
  show "parse cand_serde cand_operation_bytes = Inr (CObject [(''operation_id'', CString ''o1''), (''ref'', CString ''new''),
     (''ref_type'', CString ''branch''), (''snapshot_id'', CNull), (''type'', CString ''create_ref'')])"
    by (simp add: parse_def v e) (simp add: cand_serde_def visit_end_def bt_get_def cand_bytes_distinct)
qed

lemma cand_to_value:
  "to_value cand_serde v = (case v of
       CObject m \<Rightarrow> if bt_get m ''ref'' = None then Inr (CObject [])
         else if bt_get m ''operation_id'' = None then Inr (CObject [(''ref'', CString ''new''), (''type'', CString ''ref_absent'')])
         else Inr (CObject [(''operation_id'', CString ''o1''), (''ref'', CString ''new''),
           (''ref_type'', CString ''branch''), (''snapshot_id'', CNull), (''type'', CString ''create_ref'')])
     | _ \<Rightarrow> Inr (CObject []))"
proof -
  have "sj_to_vec cand_serde v = Inr (case v of
         CObject m \<Rightarrow> if bt_get m ''ref'' = None then tbl_bytes
           else if bt_get m ''operation_id'' = None then cand_requirement_bytes else cand_operation_bytes
       | _ \<Rightarrow> tbl_bytes)" by (simp add: cand_serde_def)
  then show ?thesis by (cases v) (auto simp: to_value_def cand_parse)
qed

lemma obj_of_key: "bt_get (bt_extend [] es) k = map_of (rev es :: (string \<times> canonical_value) list) k"
proof -
  have "bt_ok ([] :: (string \<times> canonical_value) list)" by (simp add: bt_ok_def)
  then show ?thesis by (simp add: bt_get_extend bt.lookup_empty)
qed

lemma cand_plain:
  "to_value cand_serde (commit_to_value x c) = Inr (CObject [])"
  "to_value cand_serde (generation_to_value x g) = Inr (CObject [])"
  "to_value cand_serde (head_to_value x h) = Inr (CObject [])"
  "to_value cand_serde (durable_result_to_value x r) = Inr (CObject [])"
  "to_value cand_serde (CObject []) = Inr (CObject [])" "to_value cand_serde (features_value fs) = Inr (CObject [])"
  by (simp_all add: cand_to_value commit_to_value_def generation_to_value_def head_to_value_def durable_result_to_value_def obj_of_def
      obj_of_key features_value_def bt_get_def [of "[]"] if_some_def split: option.splits)

lemma cand_vec: "to_value cand_serde v = Inr (CObject []) \<Longrightarrow> json_vec (rt_wire cand_runtime) v = Inr tbl_bytes"
  by (simp add: json_vec_def to_vec_def tbl_encode)

lemma cand_excludes: "body_excludes_state (rt_wire cand_runtime)"
  by (simp add: body_excludes_state_def commit_body_def json_value_def cand_plain)

lemma cand_pinned: "check_pin_objects cand_runtime (pt_head tbl_pinned) (pt_commit tbl_pinned) (pt_generation tbl_pinned) = Inr ()"
proof -
  have op: "operation_step (rt_wire cand_runtime) False sample_id ({}, {})
      (CObject [(''operation_id'', CString ''o1''), (''ref'', CString ''dev''), (''type'', CString ''drop_ref'')])
    = Inr ({''o1''}, {})"
    by (simp add: operation_step_def operation_type_step_def metadata_kinds_def validate_metadata_operation_def metadata_keys_def
        require_exact_fields_def require_fields_def check_def bt_get_def validate_ref_operation_def require_nonempty_string_def)
  have add: "checked_add (2 :: u64) 1 = Some 3" by (simp add: checked_add_def)
  have "commit_validate (rt_wire cand_runtime) tbl_commit = Inr ()"
    by (simp add: commit_validate_def tbl_commit_def sample_commit_def parent_shape_def validate_operations_def op add check_def
        sample_object_def is_object_def intent_step_def reference_step_def)
  then have "commit_validate_runtime_profile (rt_wire cand_runtime) tbl_commit = Inr ()"
    by (simp add: commit_validate_runtime_profile_def tbl_commit_def sample_commit_def profile_operation_def accepted_kind_def
        check_def runtime_kinds_def bt_get_def)
  moreover have "recomputed_state (rt_wire cand_runtime) tbl_commit = Inr tbl_state"
    by (simp add: recomputed_state_def commit_body_def json_value_def cand_plain bt_remove_def tbl_encode tbl_state_def)
      (simp add: tbl_commit_def sample_commit_def)
  ultimately show ?thesis using tbl_checked unfolding pin_objects_Inr by (simp add: tbl_pinned_def tbl_commit_def)
qed


lemma cand_persist: "\<exists>inc. persist sample_externals None [] 1 = Some (Inr inc) \<and> ii_root inc = None"
  by (simp add: persist_def persist_root_def leaf_nodes.simps collapse_roots.simps last_opt_def finish_image_def)

lemma sample_id_text: "id_to_string sample_externals sample_id = ''01890a5d-ac96-774b-bcce-b302099a8057''"
  by (simp add: id_to_string_def format_uuid_def sample_id_def sample_externals_def ref_hex_encode_def Let_def show_hex_2
      hex_digit_char_def char_of_def bit_iff_odd)

lemma cand_uris:
  "\<exists>u. versioned_uri sample_externals ''commits'' 4 sample_id ''.json'' = Inr u"
  "\<exists>u. versioned_uri sample_externals ''generations'' 4 sample_id ''.json'' = Inr u"
  "\<exists>u. versioned_uri sample_externals ''checkpoints'' 4 sample_id ''.sqlite3'' = Inr u"
proof -
  have n: "show_nat 4 = ''4''" by (simp add: show_nat.simps [of 4] digit_char_def char_of_def bit_iff_odd)
  show "\<exists>u. versioned_uri sample_externals ''commits'' 4 sample_id ''.json'' = Inr u"
    "\<exists>u. versioned_uri sample_externals ''generations'' 4 sample_id ''.json'' = Inr u"
    "\<exists>u. versioned_uri sample_externals ''checkpoints'' 4 sample_id ''.sqlite3'' = Inr u"
    by (simp_all add: versioned_uri_def uri_from_str_def n sample_id_text uri_safe_def starts_with_def)
qed

definition cand_img :: checkpoint_image where
  "cand_img = \<lparr>cki_bytes = sample_image_bytes, cki_page_count = 1, cki_changed_pages = []\<rparr>"

lemma cand_choose:
  assumes "ii_root inc = None"
  shows "\<exists>r. choose_image cand_runtime cand_fresh tbl_pinned 4 cand_img inc = Inr r"
proof -
  obtain u where u: "versioned_uri sample_externals ''checkpoints'' 4 sample_id ''.sqlite3'' = Inr u" using cand_uris by blast
  have len: "length sample_image_bytes = 4096" by (simp add: sample_image_facts)
  let ?cp = "\<lparr>cp_table_version = 4, cp_uri = u, cp_sha256 = object_hash sample_externals sample_image_bytes,
      cp_length = u64_of_usize (length sample_image_bytes)\<rparr>"
  have f: "image_page_size \<noteq> 0" "unat image_page_size dvd length sample_image_bytes" "sample_image_bytes \<noteq> []"
    "length sample_image_bytes < 2 ^ 63"
    using len by (auto simp: image_page_size_def)
  obtain idx arts where "build sample_externals ?cp image_page_size sample_image_bytes = Inr (idx, arts)"
    by (rule build_ok [OF sample_laws f, of ?cp]) (simp, simp, blast)
  then show ?thesis using assms by (simp add: choose_image_def cand_img_def cand_fresh_def u Let_def)
qed

lemma cand_validated:
  assumes "sc_table_version c = 4"
  shows "validate_candidate cand_runtime tbl_pinned c uri h cand_img = Inr ()"
proof -
  have "utf8_valid tbl_bytes" by code_simp
  then show ?thesis
    by (simp add: validate_candidate_def canonical_text_def cand_vec cand_plain) (simp add: tbl_database_def)
qed

lemma cand_prepared: "prepare_operations sample_connection cand_request = Inr [RefResult ''o1'' ''new'' Branch None]"
  by (simp add: prepare_operations_def evaluate_def cand_request_def prepare_step_def required_def validate_ref_name_def ref_row_def
      sample_connection_def)


definition cand_commit :: semantic_commit where
  "cand_commit =
     \<lparr>sc_kind = ''otmp.semantic-commit'', sc_format_version = 1, sc_table_id = sample_id, sc_table_version = 4,
      sc_parent_table_version = Some 3, sc_commit_id = sample_id, sc_parent_commit = Some (tbl_reference ''c'' COMMIT_MEDIA_TYPE),
      sc_created_at_ms = 0,
      sc_intents = [\<lparr>ir_key = ''k2'', ir_intent_sha256 = sample_sha, ir_operation_ids = [''o1''], ir_result = CObject []\<rparr>],
      sc_requirements = [CObject [(''ref'', CString ''new''), (''type'', CString ''ref_absent'')]],
      sc_operations = [CObject [(''operation_id'', CString ''o1''), (''ref'', CString ''new''),
        (''ref_type'', CString ''branch''), (''snapshot_id'', CNull), (''type'', CString ''create_ref'')]],
      sc_required_reader_features_after_commit = FeatureSet [],
      sc_required_writer_features_after_commit = FeatureSet [],
      sc_previous_semantic_state_sha256 = Some tbl_state, sc_semantic_state_sha256 = next_state_hash sample_externals tbl_state tbl_bytes,
      sc_metadata = CObject []\<rparr>"

lemma cand_commit_made:
  "transaction_commit cand_runtime cand_fresh tbl_pinned cand_request sample_sha 4
     \<lparr>dr_table_version = 4, dr_commit_id = sample_id, dr_operation_results = results\<rparr> = Inr cand_commit"
proof -
  have r: "to_value cand_serde (requirement_to_value sample_externals (RefAbsent ''new''))
      = Inr (CObject [(''ref'', CString ''new''), (''type'', CString ''ref_absent'')])"
    by (simp add: cand_to_value tagged_def obj_of_def obj_of_key)
  have o: "to_value cand_serde (operation_to_value sample_externals (CreateRef ''o1'' ''new'' Branch None))
      = Inr (CObject [(''operation_id'', CString ''o1''), (''ref'', CString ''new''),
        (''ref_type'', CString ''branch''), (''snapshot_id'', CNull), (''type'', CString ''create_ref'')])"
    by (simp add: cand_to_value tagged_def obj_of_def obj_of_key)
  show ?thesis
    by (simp add: transaction_commit_def Let_def json_value_def cand_plain cand_request_def cand_fresh_def r o seal_commit_def
        commit_body_def bt_remove_def tbl_encode del: requirement_to_value.simps operation_to_value.simps)
      (simp add: cand_commit_def tbl_pinned_def tbl_head_def)
qed

lemma cand_commit_valid:
  "commit_validate_runtime_profile (rt_wire cand_runtime) cand_commit = Inr ()"
  "commit_validate_runtime_profile (rt_wire cand_runtime)
     (cand_commit\<lparr>sc_parent_commit := None, sc_previous_semantic_state_sha256 := None\<rparr>) = Inr ()"
proof -
  have op: "operation_step (rt_wire cand_runtime) False sample_id ({}, {})
      (CObject [(''operation_id'', CString ''o1''), (''ref'', CString ''new''),
        (''ref_type'', CString ''branch''), (''snapshot_id'', CNull), (''type'', CString ''create_ref'')])
    = Inr ({''o1''}, {})"
    by (simp add: operation_step_def operation_type_step_def metadata_kinds_def validate_metadata_operation_def metadata_keys_def
        require_exact_fields_def require_fields_def check_def bt_get_def validate_ref_operation_def require_nonempty_string_def)
  have rq: "validate_requirement (rt_wire cand_runtime) (CObject [(''ref'', CString ''new''), (''type'', CString ''ref_absent'')]) = Inr ()"
    by (simp add: validate_requirement_def require_nonempty_string_def bt_get_def requirement_keys_def require_exact_fields_def
        require_fields_def check_def requirement_key_def)
  have add: "checked_add (3 :: u64) 1 = Some 4" by (simp add: checked_add_def)
  have v: "commit_validate (rt_wire cand_runtime) cand_commit = Inr ()"
    "commit_validate (rt_wire cand_runtime) (cand_commit\<lparr>sc_parent_commit := None, sc_previous_semantic_state_sha256 := None\<rparr>) = Inr ()"
    by (simp_all add: commit_validate_def cand_commit_def parent_shape_def validate_operations_def op rq add check_def
        tbl_reference_def is_object_def intent_step_def reference_step_def)
  show "commit_validate_runtime_profile (rt_wire cand_runtime) cand_commit = Inr ()"
    "commit_validate_runtime_profile (rt_wire cand_runtime)
       (cand_commit\<lparr>sc_parent_commit := None, sc_previous_semantic_state_sha256 := None\<rparr>) = Inr ()"
    using v by (simp_all add: commit_validate_runtime_profile_def cand_commit_def profile_operation_def accepted_kind_def
        check_def runtime_kinds_def bt_get_def profile_requirement_def runtime_requirements_def)
qed

text \<open>
  Validation refuses a genesis with a parent and a later commit without any, but a later commit that keeps only the parent
  version passes: it is chained neither to a parent commit nor to a previous state.
\<close>

lemma unchained_commit_accepted:
  "commit_validate_runtime_profile (rt_wire cand_runtime)
     (cand_commit\<lparr>sc_parent_commit := None, sc_previous_semantic_state_sha256 := None\<rparr>) = Inr ()"
  by (rule cand_commit_valid(2))

lemma cand_exists: "\<exists>cd. transaction_candidate cand_runtime cand_metadata cand_fresh cand_request sample_sha tbl_pinned = Some (Inr cd)"
proof -
  obtain inc where inc: "persist sample_externals None [] 1 = Some (Inr inc)" "ii_root inc = None" using cand_persist by blast
  obtain b m i a where ch: "choose_image cand_runtime cand_fresh tbl_pinned 4 cand_img inc = Inr (b, m, i, a)"
    using cand_choose [OF inc(2)] by (metis prod_cases4)
  obtain u1 u2 where u: "versioned_uri sample_externals ''commits'' 4 sample_id ''.json'' = Inr u1"
    "versioned_uri sample_externals ''generations'' 4 sample_id ''.json'' = Inr u2" using cand_uris by blast
  have add: "checked_add (3 :: u64) 1 = Some 4" by (simp add: checked_add_def)
  have base: "h_table_version (pt_head tbl_pinned) = 3" "h_root_revision (pt_head tbl_pinned) = 3" "pt_page_tree tbl_pinned = None"
    "pt_resolved tbl_pinned = sample_image_bytes" by (simp_all add: tbl_pinned_def tbl_head_def)
  have img: "cand_metadata sample_image_bytes c uri ops = Inr cand_img" "cki_changed_pages cand_img = []" "cki_page_count cand_img = 1" for c uri ops
    by (simp_all add: cand_metadata_def cand_img_def)
  have db: "db_open tbl_database bs = Inr sample_connection" "db_validate_commit_projection tbl_database bs c = Inr ()"
    "db_state_of_commit tbl_database bs k = Inr (replicate 32 0)" for bs c k by (simp_all add: tbl_database_def)
  have v4: "sc_table_version cand_commit = 4" by (simp add: cand_commit_def)
  have "\<exists>cd. finish_candidate cand_runtime cand_fresh tbl_pinned cand_commit u1 tbl_bytes cand_img r = Some (Inr cd)" for r :: durable_result
    using inc ch u by (simp add: finish_candidate_def cand_commit_valid runtime_fault_def cand_validated [OF v4] lift_def base img assemble_def v4
        cand_fresh_def Let_def cand_vec cand_plain add db hash_from_blob_def)
  then show ?thesis
    by (simp add: transaction_candidate_def base db cand_prepared add cand_commit_made Let_def cand_vec cand_plain img)
      (simp add: cand_fresh_def u cand_commit_made [unfolded cand_fresh_def])
qed

theorem transaction_candidate_extends_witness:
  "\<exists>cd h c g. transaction_candidate cand_runtime cand_metadata cand_fresh cand_request sample_sha tbl_pinned = Some (Inr cd)
    \<and> check_pin_objects cand_runtime h c g = Inr () \<and> unat (h_table_version h) = 4 \<and> map ir_key (sc_intents c) = [''k2'']"
proof -
  obtain cd where cd: "transaction_candidate cand_runtime cand_metadata cand_fresh cand_request sample_sha tbl_pinned = Some (Inr cd)"
    using cand_exists by blast
  obtain h c g where e: "extends_table cand_runtime tbl_pinned cd h c g" "map ir_key (sc_intents c) = [tr_idempotency_key cand_request]"
    using transaction_candidate_extends [OF cd cand_pinned cand_excludes] by (elim exE conjE) (rule that)
  then have "check_pin_objects cand_runtime h c g = Inr ()" "unat (h_table_version h) = 4"
    by (simp_all add: extends_table_def tbl_pinned_def tbl_head_def)
  moreover have "map ir_key (sc_intents c) = [''k2'']" using e(2) by (simp add: cand_request_def)
  ultimately show ?thesis using cd by (intro exI [of _ cd] exI [of _ h] exI [of _ c] exI [of _ g] conjI)
qed

end
