(* ===== verification/Append.thy ===== *)
theory Append
  imports Candidate
begin

text \<open>
  Appending files, the write path of \<^verbatim>\<open>otmp/src/runtime.rs\<close> for data: requests and their logical identity, validation
  against the pinned image, staging of source files, the check that an append may move to a newer parent
  (\<^verbatim>\<open>otmp/src/runtime/history.rs\<close>), and the candidate of an append.

  Opening source files, running the SQL statements of an append and the derived deserializers are
  the record \<open>append_calls\<close>.
\<close>

section \<open>Requests\<close>

record fingerprint =
  sfp_sha256 :: sha256
  sfp_length :: u64

record file_metric =
  fm_field_id :: u32
  fm_column_size_bytes :: "u64 option"
  fm_value_count :: "u64 option"
  fm_null_count :: "u64 option"
  fm_nan_count :: "u64 option"
  fm_distinct_count :: "u64 option"
  fm_lower_bound :: "typed_scalar option"
  fm_upper_bound :: "typed_scalar option"
  fm_metadata :: members

record append_file =
  af_source_path :: string
  af_fingerprint :: fingerprint
  af_format :: file_format
  af_record_count :: u64
  af_schema_id :: u32
  af_partition_spec_id :: u32
  af_sort_order_id :: u32
  af_partition_values :: "(u32, typed_scalar) btree"
  af_metrics :: "file_metric list"
  af_metadata :: members

record append_request =
  ar_idempotency_key :: string
  ar_target_ref :: string
  ar_files :: "append_file list"
  ar_summary :: members
  ar_commit_metadata :: members
  ar_snapshot_metadata :: members

record committed_file =
  cf_file_id :: id
  cf_uri :: relative_uri

record append_result =
  apr_table_version :: u64
  apr_commit_id :: id
  apr_snapshot_id :: id
  apr_sequence_number :: u64
  apr_target_ref :: string
  apr_files :: "committed_file list"

record status =
  st_table_id :: id
  st_table_version :: u64
  st_root_revision :: u64
  st_semantic_state_sha256 :: sha256
  st_current_snapshot_id :: "id option"

definition table_status :: "pinned_table \<Rightarrow> status" where
  "table_status p =
     \<lparr>st_table_id = h_table_id (pt_head p), st_table_version = h_table_version (pt_head p),
      st_root_revision = h_root_revision (pt_head p), st_semantic_state_sha256 = h_semantic_state_sha256 (pt_head p),
      st_current_snapshot_id = pt_current_main p\<rparr>"

section \<open>Logical identity\<close>

text \<open>\<^verbatim>\<open>u64::to_string\<close> and \<^verbatim>\<open>u32::to_string\<close> as JSON strings.\<close>

definition number_text :: "'a::len word \<Rightarrow> canonical_value" where
  "number_text n = CString (show_nat (unat n))"

definition metric_to_value :: "externals \<Rightarrow> file_metric \<Rightarrow> canonical_value" where
  "metric_to_value x m =
     obj_of [(''field_id'', number_text (fm_field_id m)),
       (''column_size_bytes'', or_null number_text (fm_column_size_bytes m)),
       (''value_count'', or_null number_text (fm_value_count m)),
       (''null_count'', or_null number_text (fm_null_count m)),
       (''nan_count'', or_null number_text (fm_nan_count m)),
       (''distinct_count'', or_null number_text (fm_distinct_count m)),
       (''lower_bound'', or_null (scalar_to_value x) (fm_lower_bound m)),
       (''upper_bound'', or_null (scalar_to_value x) (fm_upper_bound m)),
       (''metadata'', CObject (fm_metadata m))]"

definition logical_metrics :: "externals \<Rightarrow> file_metric list \<Rightarrow> canonical_value" where
  "logical_metrics x ms = CArray (map (metric_to_value x) ms)"

text \<open>A map with integer keys is an object whose keys are their decimal texts.\<close>

definition partition_to_value :: "externals \<Rightarrow> (u32, typed_scalar) btree \<Rightarrow> canonical_value" where
  "partition_to_value x m = obj_of (map (\<lambda>(k, v). (show_nat (unat k), scalar_to_value x v)) m)"

definition logical_file_to_value :: "externals \<Rightarrow> append_file \<Rightarrow> canonical_value" where
  "logical_file_to_value x f =
     obj_of [(''expected_sha256'', sha_value x (sfp_sha256 (af_fingerprint f))),
       (''expected_length'', number_text (sfp_length (af_fingerprint f))),
       (''format'', CString (format_as_str (af_format f))), (''record_count'', number_text (af_record_count f)),
       (''schema_id'', number_text (af_schema_id f)), (''partition_spec_id'', number_text (af_partition_spec_id f)),
       (''sort_order_id'', number_text (af_sort_order_id f)),
       (''partition_values'', partition_to_value x (af_partition_values f)),
       (''metrics'', logical_metrics x (af_metrics f)), (''metadata'', CObject (af_metadata f))]"

definition logical_intent_to_value :: "externals \<Rightarrow> append_request \<Rightarrow> canonical_value" where
  "logical_intent_to_value x r =
     obj_of [(''operation'', CString ''append''), (''target_ref'', CString (ar_target_ref r)),
       (''files'', CArray (map (logical_file_to_value x) (ar_files r))), (''caller_summary'', CObject (ar_summary r)),
       (''commit_metadata'', CObject (ar_commit_metadata r)), (''snapshot_metadata'', CObject (ar_snapshot_metadata r))]"

definition logical_intent :: "runtime \<Rightarrow> append_request \<Rightarrow> (runtime_error, byte list) result" where
  "logical_intent rt r = json_vec (rt_wire rt) (logical_intent_to_value (rt_ext rt) r)"

section \<open>Validation\<close>

definition invalid_append :: "string \<Rightarrow> (runtime_error, 'a) result" where
  "invalid_append m = Inl (InvalidAppend m)"

definition over_i64 :: "u64 \<Rightarrow> bool" where
  "over_i64 v = (unat v > 2 ^ 63 - 1)"

definition current_schema_and_snapshot :: "runtime \<Rightarrow> byte list \<Rightarrow> (runtime_error, u32 \<times> id option \<times> u64) result" where
  "current_schema_and_snapshot rt img =
     and_then (db_meta_row (rt_db rt) img) (\<lambda>(schema, snapshot, sequence).
     and_then (if 0 \<le> sint schema \<and> sint schema < 2 ^ 32 then Inr (word_of_int (sint schema)) else Inl (Corrupt ''invalid schema ID'')) (\<lambda>schema.
     and_then (case snapshot of None \<Rightarrow> Inr None | Some b \<Rightarrow> and_then (id_from_blob (rt_ext rt) b) (\<lambda>i. Inr (Some i))) (\<lambda>snapshot.
     and_then (if 0 \<le> sint sequence then Inr sequence else Inl (Corrupt ''invalid sequence'')) (\<lambda>sequence.
       Inr (schema, snapshot, sequence)))))"

record image_metric =
  im_field_id :: u32
  im_column_size_bytes :: "u64 option"
  im_value_count :: "u64 option"
  im_null_count :: "u64 option"
  im_nan_count :: "u64 option"
  im_distinct_count :: "u64 option"
  im_lower_bound_cbor :: "byte list option"
  im_upper_bound_cbor :: "byte list option"
  im_metadata_json :: string

record image_file =
  if_file_id :: id
  if_uri :: string
  if_format :: file_format
  if_file_size_bytes :: u64
  if_record_count :: u64
  if_schema_id :: u32
  if_partition_spec_id :: u32
  if_sort_order_id :: u32
  if_partition_values_cbor :: "byte list"
  if_partition_hash :: sha256
  if_content_sha256 :: sha256
  if_metrics :: "image_metric list"
  if_metadata_json :: string

record append_image =
  ai_table_version :: u64
  ai_created_at_ms :: i64
  ai_semantic_state :: sha256
  ai_commit_id :: id
  ai_commit_hash :: sha256
  ai_commit_uri :: string
  ai_operation_json :: string
  ai_result_json :: string
  ai_commit_metadata_json :: string
  ai_idempotency_key :: string
  ai_intent_hash :: sha256
  ai_snapshot_id :: id
  ai_parent_snapshot_id :: "id option"
  ai_target_ref :: string
  ai_sequence_number :: u64
  ai_summary :: members
  ai_snapshot_metadata_json :: string
  ai_files :: "image_file list"

record append_calls =
  ac_append_image :: "byte list \<Rightarrow> append_image \<Rightarrow> (runtime_error, checkpoint_image) result"
  ac_result_json :: "byte list \<Rightarrow> (string, append_result) result"
  ac_type_json :: "byte list \<Rightarrow> (string, logical_type) result"
  ac_operations_json :: "byte list \<Rightarrow> (string, canonical_value list) result"
  ac_open_source :: "string \<Rightarrow> (string, (storage_error, byte list) result) result"

definition field_type_step :: "runtime \<Rightarrow> append_calls \<Rightarrow> (u32, logical_type) btree \<Rightarrow> (runtime_error, i64 \<times> string) result
    \<Rightarrow> (runtime_error, (u32, logical_type) btree) result" where
  "field_type_step rt ac types row =
     and_then row (\<lambda>(i, json).
      and_then (map_err ProtocolErr (from_slice_canonical (w_serde (rt_wire rt)) (rt_ext rt) (ac_type_json ac) (as_bytes json))) (\<lambda>ty.
        if 0 \<le> sint i \<and> sint i < 2 ^ 32 then Inr (bt_insert (word_of_int (sint i)) ty types)
        else Inl (Corrupt ''invalid field ID'')))"

definition field_types :: "runtime \<Rightarrow> append_calls \<Rightarrow> byte list \<Rightarrow> u32 \<Rightarrow> (runtime_error, (u32, logical_type) btree) result" where
  "field_types rt ac img schema_id =
     and_then (db_field_type_rows (rt_db rt) img schema_id) (\<lambda>rows. try_fold (field_type_step rt ac) [] rows)"

fun flatten_options :: "'a option list \<Rightarrow> 'a list" where
  "flatten_options [] = []"
| "flatten_options (None # xs) = flatten_options xs"
| "flatten_options (Some x # xs) = x # flatten_options xs"

definition validate_bound :: "logical_type \<Rightarrow> typed_scalar \<Rightarrow> (runtime_error, unit) result" where
  "validate_bound ty bound =
     and_then (map_err ProtocolErr (scalar_validate bound)) (\<lambda>_.
       if \<not> accepts ty bound \<or> bound = TNull \<or> scalar_is_nan bound then invalid_append ''invalid metric bound'' else Inr ())"

definition metric_counts :: "file_metric \<Rightarrow> u64 list" where
  "metric_counts m = flatten_options [fm_column_size_bytes m, fm_value_count m, fm_null_count m, fm_nan_count m, fm_distinct_count m]"

definition validate_metric :: "(u32, logical_type) btree \<Rightarrow> u32 set \<Rightarrow> file_metric \<Rightarrow> (runtime_error, u32 set) result" where
  "validate_metric types metric_ids m =
     (if fm_field_id m \<in> metric_ids then invalid_append ''duplicate metric field ID''
      else case bt_get types (fm_field_id m) of
        None \<Rightarrow> invalid_append ''metric field ID does not exist''
      | Some ty \<Rightarrow>
          if \<not> is_primitive ty then invalid_append ''metrics require primitive fields''
          else if (case (fm_null_count m, fm_value_count m) of (Some nulls, Some vals) \<Rightarrow> nulls > vals | _ \<Rightarrow> False)
               \<or> fm_nan_count m \<noteq> None \<and> \<not> is_float ty
          then invalid_append ''invalid metric counts''
          else if list_ex over_i64 (metric_counts m) then invalid_append ''metric count exceeds SQLite INTEGER''
          else
            and_then (try_fold (\<lambda>_ bound. validate_bound ty bound) () (flatten_options [fm_lower_bound m, fm_upper_bound m])) (\<lambda>_.
            if (case (fm_lower_bound m, fm_upper_bound m) of
                  (Some lower, Some upper) \<Rightarrow> partial_cmp_same_type lower upper = Some Greater
                | _ \<Rightarrow> False)
            then invalid_append ''metric bounds are reversed''
            else Inr (insert (fm_field_id m) metric_ids)))"

definition validate_metrics :: "(u32, logical_type) btree \<Rightarrow> file_metric list \<Rightarrow> (runtime_error, unit) result" where
  "validate_metrics types ms = and_then (try_fold (validate_metric types) {} ms) (\<lambda>_. Inr ())"

definition derived_summary :: "append_request \<Rightarrow> (runtime_error, members) result" where
  "derived_summary r =
     and_then (try_fold (\<lambda>n f. ok_or (InvalidAppend ''record count overflow'') (checked_add n (af_record_count f))) 0 (ar_files r)) (\<lambda>record_count.
     and_then (try_fold (\<lambda>n f. ok_or (InvalidAppend ''file size overflow'') (checked_add n (sfp_length (af_fingerprint f)))) 0 (ar_files r)) (\<lambda>file_size.
       if over_i64 record_count \<or> over_i64 file_size then invalid_append ''summary exceeds SQLite INTEGER''
       else Inr (bt_insert ''added-files-size'' (number_text file_size)
                  (bt_insert ''added-records'' (number_text record_count)
                    (bt_insert ''added-data-files'' (CString (show_nat (length (ar_files r)))) (ar_summary r))))))"

definition reserved_keys :: "string list" where
  "reserved_keys = [''added-data-files'', ''added-records'', ''added-files-size'']"

definition validate_file :: "runtime \<Rightarrow> u32 \<Rightarrow> (u32, logical_type) btree \<Rightarrow> byte list set \<Rightarrow> append_file
    \<Rightarrow> (runtime_error, byte list set) result" where
  "validate_file rt current_schema types entries f =
     (if af_schema_id f \<noteq> current_schema \<or> af_partition_spec_id f \<noteq> 0 \<or> af_sort_order_id f \<noteq> 0 \<or> af_partition_values f \<noteq> []
         \<or> over_i64 (sfp_length (af_fingerprint f)) \<or> over_i64 (af_record_count f)
      then invalid_append ''file assertions do not match local/full-image profile table defaults''
      else
        and_then (json_vec (rt_wire rt) (logical_file_to_value (rt_ext rt) f)) (\<lambda>entry.
        if entry \<in> entries then invalid_append ''duplicate logical file entry''
        else and_then (validate_metrics types (af_metrics f)) (\<lambda>_. Inr (insert entry entries))))"

definition validate_request :: "runtime \<Rightarrow> append_calls \<Rightarrow> append_request \<Rightarrow> pinned_table \<Rightarrow> (runtime_error, unit) result" where
  "validate_request rt ac r pinned =
     (if ar_idempotency_key r = [] \<or> ar_idempotency_key r = ''otmp.genesis'' then invalid_append ''invalid idempotency key''
      else if ar_files r = [] then invalid_append ''local/full-image profile requires one non-empty append batch to main''
      else
        and_then (db_open (rt_db rt) (pt_resolved pinned)) (\<lambda>cn.
        and_then (ref_row cn (ar_target_ref r)) (\<lambda>row.
        if (case row of Some (Branch, _) \<Rightarrow> False | _ \<Rightarrow> True) then invalid_append ''target must exist and be a branch''
        else
          and_then (current_schema_and_snapshot rt (pt_resolved pinned)) (\<lambda>(current_schema, _, _).
          and_then (field_types rt ac (pt_resolved pinned) current_schema) (\<lambda>types.
          if list_ex (\<lambda>(k, _). k \<in> set reserved_keys) (ar_summary r) then invalid_append ''caller summary uses a runtime-reserved key''
          else
            and_then (try_fold (validate_file rt current_schema types) {} (ar_files r)) (\<lambda>_.
            and_then (derived_summary r) (\<lambda>_. Inr ())))))))"

definition staged_entry_bad :: "id \<Rightarrow> append_file \<Rightarrow> nat \<Rightarrow> staged_file \<Rightarrow> bool" where
  "staged_entry_bad table_id f ordinal v =
     (sf_table_id v \<noteq> table_id \<or> sf_ordinal v \<noteq> ordinal \<or> sf_sha256 v \<noteq> sfp_sha256 (af_fingerprint f)
      \<or> sf_length v \<noteq> sfp_length (af_fingerprint f) \<or> sf_format v \<noteq> af_format f \<or> sf_object_identity v \<noteq> None)"

definition staged_step :: "id \<Rightarrow> id set \<times> relative_uri set \<Rightarrow> nat \<times> append_file \<times> staged_file
    \<Rightarrow> (runtime_error, id set \<times> relative_uri set) result" where
  "staged_step table_id s item =
     (case s of (ids, uris) \<Rightarrow> case item of (ordinal, f, v) \<Rightarrow>
      if staged_entry_bad table_id f ordinal v \<or> sf_file_id v \<in> ids \<or> sf_uri v \<in> uris
      then Inl (StagingMismatch (''entry '' @ show_nat ordinal @ '' does not match''))
      else Inr (insert (sf_file_id v) ids, insert (sf_uri v) uris))"

definition validate_staged :: "append_request \<Rightarrow> staged_file list \<Rightarrow> id \<Rightarrow> (runtime_error, unit) result" where
  "validate_staged r staged table_id =
     (if length (ar_files r) \<noteq> length staged then Inl (StagingMismatch ''entry count differs'')
      else and_then (try_fold (staged_step table_id) ({}, {}) (enumerate 0 (zip (ar_files r) staged))) (\<lambda>_. Inr ()))"


section \<open>Ancestry of a branch\<close>

record snapshot_descriptor =
  sd_snapshot_id :: id
  sd_parent_snapshot_id :: "id option"
  sd_sequence_number :: u64
  sd_committed_table_version :: u64
  sd_schema_id :: u32
  sd_partition_spec_id :: u32
  sd_sort_order_id :: u32
  sd_operation :: string
  sd_committed_at_ms :: i64
  sd_summary :: canonical_value
  sd_metadata :: canonical_value

definition optional_id :: "externals \<Rightarrow> byte list option \<Rightarrow> (runtime_error, id option) result" where
  "optional_id x b = (case b of None \<Rightarrow> Inr None | Some b \<Rightarrow> and_then (id_from_blob x b) (\<lambda>i. Inr (Some i)))"

definition descriptor :: "connection \<Rightarrow> id \<Rightarrow> (runtime_error, snapshot_descriptor) result" where
  "descriptor cn i =
     and_then (cn_snapshot_row cn (id_as_bytes i)) (\<lambda>row.
     and_then (ok_or SnapshotNotFound row) (\<lambda>(parent, sequence, version, schema_id, spec_id, order_id, operation, at_ms, summary, metadata).
     and_then (optional_id (cn_ext cn) parent) (\<lambda>parent.
     and_then (nonnegative sequence ''sequence'') (\<lambda>sequence.
     and_then (nonnegative version ''version'') (\<lambda>version.
     and_then (map_err ProtocolErr (parse_canonical (cn_serde cn) (cn_ext cn) (as_bytes summary))) (\<lambda>summary.
     and_then (map_err ProtocolErr (parse_canonical (cn_serde cn) (cn_ext cn) (as_bytes metadata))) (\<lambda>metadata.
       Inr \<lparr>sd_snapshot_id = i, sd_parent_snapshot_id = parent, sd_sequence_number = sequence,
            sd_committed_table_version = version, sd_schema_id = schema_id, sd_partition_spec_id = spec_id,
            sd_sort_order_id = order_id, sd_operation = operation, sd_committed_at_ms = at_ms, sd_summary = summary,
            sd_metadata = metadata\<rparr>)))))))"

definition ancestor :: "connection \<Rightarrow> id \<Rightarrow> (runtime_error, snapshot_descriptor) result" where
  "ancestor cn i =
     map_err (\<lambda>e. case e of SnapshotNotFound \<Rightarrow> Corrupt ''dangling snapshot ancestry'' | _ \<Rightarrow> e) (descriptor cn i)"

text \<open>Sequence numbers fall along the walk, so that it ends.\<close>

function ancestry_loop :: "connection \<Rightarrow> id option \<Rightarrow> id set \<Rightarrow> u64 \<Rightarrow> id list \<Rightarrow> (runtime_error, id list) result" where
  "ancestry_loop cn tip visited last_sequence chain =
     (case tip of
        None \<Rightarrow> Inr chain
      | Some i \<Rightarrow>
          if i \<in> visited then Inl (Corrupt ''snapshot ancestry cycle'')
          else case ancestor cn i of
            Inl e \<Rightarrow> Inl e
          | Inr snapshot \<Rightarrow>
              if sd_sequence_number snapshot \<ge> last_sequence then Inl (Corrupt ''nondecreasing snapshot ancestry'')
              else ancestry_loop cn (sd_parent_snapshot_id snapshot) (insert i visited) (sd_sequence_number snapshot) (chain @ [i]))"
  by pat_completeness auto
termination
  by (relation "measure (\<lambda>(_, _, _, last_sequence, _). unat last_sequence)") (auto simp: word_less_nat_alt not_le)

declare ancestry_loop.simps [simp del]

definition ancestry :: "connection \<Rightarrow> id option \<Rightarrow> (runtime_error, id list) result" where
  "ancestry cn tip = ancestry_loop cn tip {} (- 1) []"

section \<open>Moving an append to a newer parent\<close>

definition rebase_operation :: "string \<Rightarrow> canonical_value \<Rightarrow> (runtime_error, unit) result" where
  "rebase_operation name operation =
     (case operation of
        CObject m \<Rightarrow>
          if bt_get m ''ref'' = Some (CString name) \<and> bt_get m ''type'' \<noteq> Some (CString ''commit_snapshot'')
          then Inl (SemanticConflict ''target ref changed during append'')
          else if bt_get m ''type'' = Some (CString ''set_current_schema'')
          then Inl (SemanticConflict ''current schema changed during append'')
          else Inr ()
      | _ \<Rightarrow> Inr ())"

definition rebase_row :: "runtime \<Rightarrow> append_calls \<Rightarrow> string \<Rightarrow> (runtime_error, string) result \<Rightarrow> (runtime_error, unit) result" where
  "rebase_row rt ac name row =
     and_then row (\<lambda>json.
     and_then (map_err ProtocolErr (from_slice_canonical (w_serde (rt_wire rt)) (rt_ext rt) (ac_operations_json ac) (as_bytes json))) (\<lambda>operations.
       try_fold (\<lambda>_ operation. rebase_operation name operation) () operations))"

definition validate_append_rebase :: "runtime \<Rightarrow> append_calls \<Rightarrow> pinned_table \<Rightarrow> string \<Rightarrow> (ref_type \<times> id option) option \<Rightarrow> u64
    \<Rightarrow> (runtime_error, unit) result" where
  "validate_append_rebase rt ac parent name original version =
     and_then (db_open (rt_db rt) (pt_resolved parent)) (\<lambda>cn.
       case original of
         Some (Branch, old) \<Rightarrow>
           and_then (ref_row cn name) (\<lambda>row.
             case row of
               Some (Branch, current) \<Rightarrow>
                 and_then (ancestry cn current) (\<lambda>chain.
                 if (case old of None \<Rightarrow> False | Some i \<Rightarrow> i \<notin> set chain)
                 then Inl (SemanticConflict ''target is not an append descendant'')
                 else
                   and_then (if over_i64 version then Inl (Corrupt ''version overflow'') else Inr version) (\<lambda>version.
                   and_then (db_summaries_after (rt_db rt) (pt_resolved parent) version) (\<lambda>rows.
                     try_fold (\<lambda>_ row. rebase_row rt ac name row) () rows)))
             | _ \<Rightarrow> Inl (SemanticConflict ''append target removed''))
       | _ \<Rightarrow> Inl (SemanticConflict ''append target was not a branch''))"

section \<open>Staging\<close>

definition staged_uri :: "externals \<Rightarrow> id \<Rightarrow> (runtime_error, relative_uri) result" where
  "staged_uri x file_id = map_err ProtocolErr (uri_from_str (''data/'' @ id_to_string x file_id @ ''.parquet''))"

text \<open>The two sections of \<^verbatim>\<open>create_from_reader\<close>.\<close>

definition call_create :: "externals \<Rightarrow> relative_uri \<Rightarrow> (storage_error, byte list) result \<Rightarrow> u64 option \<Rightarrow> world
    \<Rightarrow> (storage_error, created_object) result \<times> world" where
  "call_create x key reader maximum w =
     (case call x (\<lambda>s. (create_check key s, s)) w of
        (Inl e, w) \<Rightarrow> (Inl e, w)
      | (Inr _, w) \<Rightarrow> call x (create_commit x key reader maximum) w)"

definition call_delete :: "externals \<Rightarrow> relative_uri \<Rightarrow> object_version \<Rightarrow> world \<Rightarrow> world" where
  "call_delete x key version w = snd (call x (delete_if_version x key version) w)"

definition verify_created :: "externals \<Rightarrow> relative_uri \<Rightarrow> fingerprint \<Rightarrow> created_object \<Rightarrow> world
    \<Rightarrow> (runtime_error, unit) result \<times> world" where
  "verify_created x uri fp created w =
     (if co_length created \<noteq> sfp_length fp \<or> co_sha256 created \<noteq> sfp_sha256 fp
      then (Inl FingerprintMismatch, call_delete x uri (co_version created) w)
      else
        case call x (confirm_readable x uri (sfp_sha256 fp) (sfp_length fp)) w of
          (Inl e, w) \<Rightarrow>
            (Inl (case e of VerificationFailed _ \<Rightarrow> FingerprintMismatch | _ \<Rightarrow> StorageErr e), call_delete x uri (co_version created) w)
        | (Inr version, w) \<Rightarrow>
            if version \<noteq> co_version created then (Inl FingerprintMismatch, call_delete x uri (co_version created) w)
            else (Inr (), w))"

definition stage_file :: "externals \<Rightarrow> append_calls \<Rightarrow> id \<Rightarrow> id \<Rightarrow> nat \<Rightarrow> append_file \<Rightarrow> world \<Rightarrow> (runtime_error, staged_file) result \<times> world" where
  "stage_file x ac file_id table_id ordinal f w =
     (case and_then (staged_uri x file_id) (\<lambda>uri.
             and_then (map_err IoErr (ac_open_source ac (af_source_path f))) (\<lambda>reader. Inr (uri, reader))) of
        Inl e \<Rightarrow> (Inl e, w)
      | Inr (uri, reader) \<Rightarrow>
          (case call_create x uri reader (Some (sfp_length (af_fingerprint f))) w of
             (Inl e, w) \<Rightarrow> (Inl (case e of MaximumLengthExceeded \<Rightarrow> FingerprintMismatch | _ \<Rightarrow> StorageErr e), w)
           | (Inr created, w) \<Rightarrow>
               (case verify_created x uri (af_fingerprint f) created w of
                  (Inl e, w) \<Rightarrow> (Inl e, w)
                | (Inr _, w) \<Rightarrow>
                    (Inr \<lparr>sf_table_id = table_id, sf_ordinal = ordinal, sf_file_id = file_id, sf_uri = uri,
                          sf_version = co_version created, sf_sha256 = co_sha256 created, sf_length = co_length created,
                          sf_format = af_format f, sf_object_identity = None\<rparr>, w))))"

fun cleanup :: "externals \<Rightarrow> staged_file list \<Rightarrow> world \<Rightarrow> world" where
  "cleanup x [] w = w"
| "cleanup x (f # fs) w = cleanup x fs (call_delete x (sf_uri f) (sf_version f) w)"

text \<open>The loop of \<^verbatim>\<open>append_files\<close>; a failure removes what was staged before it.\<close>

fun stage_files :: "externals \<Rightarrow> append_calls \<Rightarrow> (nat \<Rightarrow> id) \<Rightarrow> id \<Rightarrow> (nat \<times> append_file) list \<Rightarrow> staged_file list \<Rightarrow> world
    \<Rightarrow> (runtime_error, staged_file list) result \<times> world" where
  "stage_files x ac new_ids table_id [] staged w = (Inr staged, w)"
| "stage_files x ac new_ids table_id ((ordinal, f) # items) staged w =
     (case stage_file x ac (new_ids ordinal) table_id ordinal f w of
        (Inl e, w) \<Rightarrow> (Inl e, cleanup x staged w)
      | (Inr v, w) \<Rightarrow> stage_files x ac new_ids table_id items (staged @ [v]) w)"


section \<open>The candidate of an append\<close>

definition committed_to_value :: "externals \<Rightarrow> committed_file \<Rightarrow> canonical_value" where
  "committed_to_value x f = obj_of [(''file_id'', id_value x (cf_file_id f)), (''uri'', uri_value (cf_uri f))]"

definition append_result_to_value :: "externals \<Rightarrow> append_result \<Rightarrow> canonical_value" where
  "append_result_to_value x r =
     obj_of [(''table_version'', number_text (apr_table_version r)), (''commit_id'', id_value x (apr_commit_id r)),
       (''snapshot_id'', id_value x (apr_snapshot_id r)), (''sequence_number'', number_text (apr_sequence_number r)),
       (''ref'', CString (apr_target_ref r)), (''files'', CArray (map (committed_to_value x) (apr_files r)))]"

definition operation_file :: "runtime \<Rightarrow> staged_file \<times> append_file \<Rightarrow> (runtime_error, canonical_value) result" where
  "operation_file rt item =
     (case item of (staged, logical) \<Rightarrow>
      let x = rt_ext rt in
      and_then (json_value (rt_wire rt) (partition_to_value x (af_partition_values logical))) (\<lambda>partition.
      and_then (json_value (rt_wire rt) (logical_metrics x (af_metrics logical))) (\<lambda>metrics.
        Inr (obj_of [(''file_id'', id_value x (sf_file_id staged)), (''uri'', uri_value (sf_uri staged)),
          (''object_identity'', CNull), (''file_format'', CString (format_as_str (af_format logical))),
          (''file_size_bytes'', number_text (sfp_length (af_fingerprint logical))),
          (''record_count'', number_text (af_record_count logical)), (''schema_id'', number_text (af_schema_id logical)),
          (''partition_spec_id'', number_text (af_partition_spec_id logical)),
          (''sort_order_id'', number_text (af_sort_order_id logical)),
          (''content_sha256'', sha_value x (sfp_sha256 (af_fingerprint logical))),
          (''partition_values'', partition), (''metrics'', metrics), (''metadata'', CObject (af_metadata logical))]))))"

definition append_snapshot :: "externals \<Rightarrow> append_request \<Rightarrow> append_file \<Rightarrow> id \<Rightarrow> id option \<Rightarrow> u64 \<Rightarrow> members \<Rightarrow> canonical_value" where
  "append_snapshot x r f0 snapshot_id parent_snapshot sequence_number summary =
     obj_of [(''snapshot_id'', id_value x snapshot_id), (''parent_snapshot_id'', or_null (id_value x) parent_snapshot),
       (''sequence_number'', number_text sequence_number), (''schema_id'', number_text (af_schema_id f0)),
       (''partition_spec_id'', number_text (af_partition_spec_id f0)), (''sort_order_id'', number_text (af_sort_order_id f0)),
       (''operation'', CString ''append''), (''summary'', CObject summary), (''metadata'', CObject (ar_snapshot_metadata r))]"

definition append_operation :: "append_request \<Rightarrow> canonical_value \<Rightarrow> canonical_value list \<Rightarrow> canonical_value" where
  "append_operation r snapshot files =
     obj_of [(''operation_id'', CString ''append-main''), (''type'', CString ''commit_snapshot''),
       (''target_ref'', CString (ar_target_ref r)), (''snapshot'', snapshot), (''added_files'', CArray files),
       (''removed_file_ids'', CArray []), (''scan_projection'', CNull), (''rebase_mode'', CString ''append-safe'')]"

definition append_requirements :: "append_file \<Rightarrow> canonical_value list" where
  "append_requirements f0 =
     [obj_of [(''type'', CString ''current_schema_is''), (''schema_id'', number_text (af_schema_id f0))],
      obj_of [(''type'', CString ''default_partition_spec_is''), (''partition_spec_id'', CString ''0'')],
      obj_of [(''type'', CString ''default_sort_order_is''), (''sort_order_id'', CString ''0'')]]"

definition append_commit :: "runtime \<Rightarrow> fresh \<Rightarrow> append_request \<Rightarrow> sha256 \<Rightarrow> pinned_table \<Rightarrow> u64 \<Rightarrow> i64 \<Rightarrow> append_file
    \<Rightarrow> canonical_value \<Rightarrow> canonical_value \<Rightarrow> (runtime_error, semantic_commit) result" where
  "append_commit rt fresh r logical_hash parent version now f0 operation result_value =
     seal_commit (rt_wire rt) (h_semantic_state_sha256 (pt_head parent))
       \<lparr>sc_kind = ''otmp.semantic-commit'', sc_format_version = 1, sc_table_id = h_table_id (pt_head parent),
        sc_table_version = version, sc_parent_table_version = Some (h_table_version (pt_head parent)),
        sc_commit_id = fr_commit_id fresh, sc_parent_commit = Some (h_semantic_commit (pt_head parent)),
        sc_created_at_ms = now,
        sc_intents = [\<lparr>ir_key = ar_idempotency_key r, ir_intent_sha256 = logical_hash, ir_operation_ids = [''append-main''],
          ir_result = result_value\<rparr>],
        sc_requirements = append_requirements f0, sc_operations = [operation],
        sc_required_reader_features_after_commit = h_required_reader_features (pt_head parent),
        sc_required_writer_features_after_commit = h_required_writer_features (pt_head parent),
        sc_previous_semantic_state_sha256 = Some (h_semantic_state_sha256 (pt_head parent)),
        sc_semantic_state_sha256 = zero_sha, sc_metadata = CObject (ar_commit_metadata r)\<rparr>"

definition image_metric_of :: "runtime \<Rightarrow> file_metric \<Rightarrow> (runtime_error, image_metric) result" where
  "image_metric_of rt m =
     and_then (canonical_text (rt_wire rt) (rt_utf8_error rt) (CObject (fm_metadata m))) (\<lambda>metadata.
       Inr \<lparr>im_field_id = fm_field_id m, im_column_size_bytes = fm_column_size_bytes m, im_value_count = fm_value_count m,
            im_null_count = fm_null_count m, im_nan_count = fm_nan_count m, im_distinct_count = fm_distinct_count m,
            im_lower_bound_cbor = map_option encode_typed_scalar (fm_lower_bound m),
            im_upper_bound_cbor = map_option encode_typed_scalar (fm_upper_bound m), im_metadata_json = metadata\<rparr>)"

definition image_file_of :: "runtime \<Rightarrow> append_file \<times> staged_file \<Rightarrow> (runtime_error, image_file) result" where
  "image_file_of rt item =
     (case item of (logical, staged) \<Rightarrow>
      let partition_cbor = encode_partition_tuple (af_partition_values logical) in
      and_then (try_map (image_metric_of rt) (af_metrics logical)) (\<lambda>metrics.
      and_then (canonical_text (rt_wire rt) (rt_utf8_error rt) (CObject (af_metadata logical))) (\<lambda>metadata.
        Inr \<lparr>if_file_id = sf_file_id staged, if_uri = uri_as_str (sf_uri staged), if_format = af_format logical,
             if_file_size_bytes = sf_length staged, if_record_count = af_record_count logical,
             if_schema_id = af_schema_id logical, if_partition_spec_id = af_partition_spec_id logical,
             if_sort_order_id = af_sort_order_id logical, if_partition_values_cbor = partition_cbor,
             if_partition_hash = partition_hash (rt_ext rt) (af_partition_spec_id logical) partition_cbor,
             if_content_sha256 = sf_sha256 staged, if_metrics = metrics, if_metadata_json = metadata\<rparr>)))"

definition append_result_of :: "fresh \<Rightarrow> append_request \<Rightarrow> staged_file list \<Rightarrow> u64 \<Rightarrow> u64 \<Rightarrow> append_result" where
  "append_result_of fresh r staged version sequence_number =
     \<lparr>apr_table_version = version, apr_commit_id = fr_commit_id fresh, apr_snapshot_id = fr_snapshot_id fresh,
      apr_sequence_number = sequence_number, apr_target_ref = ar_target_ref r,
      apr_files = map (\<lambda>f. \<lparr>cf_file_id = sf_file_id f, cf_uri = sf_uri f\<rparr>) staged\<rparr>"

text \<open>The SQL image of an append: the texts and rows the commit gives.\<close>

definition append_image_of :: "runtime \<Rightarrow> append_calls \<Rightarrow> fresh \<Rightarrow> append_request \<Rightarrow> staged_file list \<Rightarrow> sha256 \<Rightarrow> pinned_table
    \<Rightarrow> semantic_commit \<Rightarrow> relative_uri \<Rightarrow> byte list \<Rightarrow> canonical_value \<Rightarrow> id option \<Rightarrow> u64 \<Rightarrow> members
    \<Rightarrow> (runtime_error, checkpoint_image) result" where
  "append_image_of rt ac fresh r staged logical_hash parent commit commit_uri commit_bytes result_value parent_snapshot sequence_number summary =
     (let text = canonical_text (rt_wire rt) (rt_utf8_error rt) in
      and_then (text result_value) (\<lambda>result_json.
      and_then (text (CArray (sc_operations commit))) (\<lambda>operation_json.
      and_then (text (sc_metadata commit)) (\<lambda>commit_metadata_json.
      and_then (text (CObject (ar_snapshot_metadata r))) (\<lambda>snapshot_metadata_json.
      and_then (try_map (image_file_of rt) (zip (ar_files r) staged)) (\<lambda>image_files.
        ac_append_image ac (pt_resolved parent)
          \<lparr>ai_table_version = sc_table_version commit, ai_created_at_ms = sc_created_at_ms commit,
           ai_semantic_state = sc_semantic_state_sha256 commit, ai_commit_id = fr_commit_id fresh,
           ai_commit_hash = object_hash (rt_ext rt) commit_bytes, ai_commit_uri = uri_as_str commit_uri,
           ai_operation_json = operation_json, ai_result_json = result_json,
           ai_commit_metadata_json = commit_metadata_json, ai_idempotency_key = ar_idempotency_key r,
           ai_intent_hash = logical_hash, ai_snapshot_id = fr_snapshot_id fresh,
           ai_parent_snapshot_id = parent_snapshot, ai_target_ref = ar_target_ref r,
           ai_sequence_number = sequence_number, ai_summary = summary,
           ai_snapshot_metadata_json = snapshot_metadata_json, ai_files = image_files\<rparr>))))))"

text \<open>The first part of \<^verbatim>\<open>build_candidate\<close>, up to the commit. Indexing the first of no files panics.\<close>

definition append_parts :: "runtime \<Rightarrow> fresh \<Rightarrow> append_request \<Rightarrow> staged_file list \<Rightarrow> sha256 \<Rightarrow> pinned_table
    \<Rightarrow> (runtime_error fault, semantic_commit \<times> append_result \<times> canonical_value \<times> id option \<times> u64 \<times> members) result" where
  "append_parts rt fresh r staged logical_hash parent =
     and_then (lift (ok_or (InvalidAppend ''table version exhausted'') (checked_add (h_table_version (pt_head parent)) 1))) (\<lambda>version.
     and_then (lift (current_schema_and_snapshot rt (pt_resolved parent))) (\<lambda>(_, _, last_sequence).
     and_then (lift (db_open (rt_db rt) (pt_resolved parent))) (\<lambda>cn.
     and_then (lift (ref_row cn (ar_target_ref r))) (\<lambda>row.
     and_then (lift (ok_or (RefNotFound (ar_target_ref r)) row)) (\<lambda>(_, parent_snapshot).
     and_then (lift (ok_or (InvalidAppend ''sequence number exhausted'') (checked_add last_sequence 1))) (\<lambda>sequence_number.
     and_then (lift (fr_now_ms fresh)) (\<lambda>now.
     let result = append_result_of fresh r staged version sequence_number in
     and_then (lift (derived_summary r)) (\<lambda>summary.
     and_then (lift (try_map (operation_file rt) (zip staged (ar_files r)))) (\<lambda>files.
     case ar_files r of
       [] \<Rightarrow> Inl Panicked
     | f0 # _ \<Rightarrow>
         let snapshot = append_snapshot (rt_ext rt) r f0 (fr_snapshot_id fresh) parent_snapshot sequence_number summary;
             operation = append_operation r snapshot files in
         and_then (lift (json_value (rt_wire rt) (append_result_to_value (rt_ext rt) result))) (\<lambda>result_value.
         and_then (lift (append_commit rt fresh r logical_hash parent version now f0 operation result_value)) (\<lambda>commit.
           Inr (commit, result, result_value, parent_snapshot, sequence_number, summary))))))))))))"

definition build_candidate :: "runtime \<Rightarrow> append_calls \<Rightarrow> fresh \<Rightarrow> append_request \<Rightarrow> staged_file list \<Rightarrow> sha256 \<Rightarrow> pinned_table
    \<Rightarrow> (runtime_error fault, append_result candidate) result option" where
  "build_candidate rt ac fresh r staged logical_hash parent =
     (case and_then (append_parts rt fresh r staged logical_hash parent)
             (\<lambda>(commit, result, result_value, parent_snapshot, sequence_number, summary).
           and_then (lift (json_vec (rt_wire rt) (commit_to_value (rt_ext rt) commit))) (\<lambda>commit_bytes.
           and_then (lift (versioned_uri (rt_ext rt) ''commits'' (sc_table_version commit) (fr_commit_id fresh) ''.json'')) (\<lambda>commit_uri.
           and_then (lift (append_image_of rt ac fresh r staged logical_hash parent commit commit_uri commit_bytes result_value
               parent_snapshot sequence_number summary)) (\<lambda>img.
             Inr (commit, commit_uri, commit_bytes, img, result))))) of
        Inl e \<Rightarrow> Some (Inl e)
      | Inr (commit, commit_uri, commit_bytes, img, result) \<Rightarrow>
          finish_candidate rt fresh parent commit commit_uri commit_bytes img result)"

section \<open>Appending\<close>

text \<open>A call that does not end has no further effect, like one that panics.\<close>

definition ends :: "('e fault, 'a) result option \<Rightarrow> ('e fault, 'a) result" where
  "ends r = (case r of None \<Rightarrow> Inl Panicked | Some r \<Rightarrow> r)"

definition append_build :: "runtime \<Rightarrow> append_calls \<Rightarrow> (u32 \<Rightarrow> fresh) \<Rightarrow> append_request \<Rightarrow> staged_file list \<Rightarrow> sha256
    \<Rightarrow> pinned_table \<Rightarrow> (ref_type \<times> id option) option \<Rightarrow> u32 \<Rightarrow> pinned_table \<Rightarrow> (runtime_error fault, append_result candidate) result" where
  "append_build rt ac fresh r staged logical_hash pinned base_tip attempt parent =
     (if h_table_id (pt_head parent) \<noteq> h_table_id (pt_head pinned) then Inl (Fail (SemanticConflict ''table identity changed''))
      else
        and_then (lift (validate_append_rebase rt ac parent (ar_target_ref r) base_tip (h_table_version (pt_head pinned)))) (\<lambda>_.
        and_then (lift (validate_request rt ac r parent)) (\<lambda>_.
          ends (build_candidate rt ac (fresh attempt) r staged logical_hash parent))))"

type_synonym append_outcome = "(runtime_error fault, append_result) result"

definition commit_staged_from_base :: "runtime \<Rightarrow> append_calls \<Rightarrow> (u32 \<Rightarrow> fresh) \<Rightarrow> append_request \<Rightarrow> staged_file list
    \<Rightarrow> pinned_table \<Rightarrow> world \<Rightarrow> append_outcome \<times> world" where
  "commit_staged_from_base rt ac fresh r staged pinned w =
     (case and_then (logical_intent rt r) (\<lambda>logical.
           and_then (validate_staged r staged (h_table_id (pt_head pinned))) (\<lambda>_.
           and_then (db_open (rt_db rt) (pt_resolved pinned)) (\<lambda>cn.
           and_then (ref_row cn (ar_target_ref r)) (\<lambda>base_tip. Inr (intent_hash (rt_ext rt) logical, base_tip))))) of
        Inl e \<Rightarrow> (Inl (Fail e), w)
      | Inr (logical_hash, base_tip) \<Rightarrow>
          (case publish_transaction rt (ac_result_json ac) (ar_idempotency_key r) logical_hash staged
                  (append_build rt ac fresh r staged logical_hash pinned base_tip) w of
             (Inl e, w) \<Rightarrow> (Inl e, w)
           | (Inr (result, _), w) \<Rightarrow> (Inr result, w)))"

definition commit_staged_files :: "runtime \<Rightarrow> append_calls \<Rightarrow> (u32 \<Rightarrow> fresh) \<Rightarrow> append_request \<Rightarrow> staged_file list \<Rightarrow> world
    \<Rightarrow> append_outcome \<times> world" where
  "commit_staged_files rt ac fresh r staged w =
     (case pin rt w of
        (Inl e, w) \<Rightarrow> (Inl e, w)
      | (Inr pinned, w) \<Rightarrow> commit_staged_from_base rt ac fresh r staged pinned w)"


text \<open>After the files are staged: the second pin with its checks, then the commit from the first pin.\<close>

definition append_staged :: "runtime \<Rightarrow> append_calls \<Rightarrow> (u32 \<Rightarrow> fresh) \<Rightarrow> append_request \<Rightarrow> sha256 \<Rightarrow> pinned_table
    \<Rightarrow> staged_file list \<Rightarrow> world \<Rightarrow> append_outcome \<times> world" where
  "append_staged rt ac fresh r logical_hash first_pin staged w =
     (case pin rt w of
        (Inl e, w) \<Rightarrow> (Inl e, cleanup (rt_ext rt) staged w)
      | (Inr second_pin, w) \<Rightarrow>
          (case check_idempotency rt (ac_result_json ac) second_pin (ar_idempotency_key r) logical_hash of
             Inl e \<Rightarrow> (Inl (Fail e), w)
           | Inr (Some result) \<Rightarrow> (Inr result, cleanup (rt_ext rt) staged w)
           | Inr None \<Rightarrow>
               (case and_then (db_open (rt_db rt) (pt_resolved first_pin)) (\<lambda>cn. ref_row cn (ar_target_ref r)) of
                  Inl e \<Rightarrow> (Inl (Fail e), w)
                | Inr base_tip \<Rightarrow>
                    (case and_then (validate_append_rebase rt ac second_pin (ar_target_ref r) base_tip
                               (h_table_version (pt_head first_pin))) (\<lambda>_.
                           validate_request rt ac r second_pin) of
                       Inl e \<Rightarrow> (Inl (Fail e), cleanup (rt_ext rt) staged w)
                     | Inr _ \<Rightarrow> commit_staged_from_base rt ac fresh r staged first_pin w))))"

definition append_files :: "runtime \<Rightarrow> append_calls \<Rightarrow> (nat \<Rightarrow> id) \<Rightarrow> (u32 \<Rightarrow> fresh) \<Rightarrow> append_request \<Rightarrow> world
    \<Rightarrow> append_outcome \<times> world" where
  "append_files rt ac new_ids fresh r w =
     (case logical_intent rt r of
        Inl e \<Rightarrow> (Inl (Fail e), w)
      | Inr logical \<Rightarrow>
          (let logical_hash = intent_hash (rt_ext rt) logical in
           case pin rt w of
             (Inl e, w) \<Rightarrow> (Inl e, w)
           | (Inr first_pin, w) \<Rightarrow>
               (case check_idempotency rt (ac_result_json ac) first_pin (ar_idempotency_key r) logical_hash of
                  Inl e \<Rightarrow> (Inl (Fail e), w)
                | Inr (Some result) \<Rightarrow> (Inr result, w)
                | Inr None \<Rightarrow>
                    (case validate_request rt ac r first_pin of
                       Inl e \<Rightarrow> (Inl (Fail e), w)
                     | Inr _ \<Rightarrow>
                         (case stage_files (rt_ext rt) ac new_ids (h_table_id (pt_head first_pin)) (enumerate 0 (ar_files r)) [] w of
                            (Inl e, w) \<Rightarrow> (Inl (Fail e), w)
                          | (Inr staged, w) \<Rightarrow> append_staged rt ac fresh r logical_hash first_pin staged w)))))"

text \<open>\<^verbatim>\<open>Table::transact\<close>, the publication of a metadata transaction.\<close>

record transaction_result =
  trr_table_version :: u64
  trr_commit_id :: id
  trr_semantic_state_sha256 :: sha256
  trr_operation_results :: "operation_result list"

definition transact :: "runtime \<Rightarrow> (byte list \<Rightarrow> (string, durable_result) result) \<Rightarrow> (byte list \<Rightarrow> semantic_commit \<Rightarrow> relative_uri
      \<Rightarrow> operation_request list \<Rightarrow> (runtime_error, checkpoint_image) result) \<Rightarrow> (u32 \<Rightarrow> fresh) \<Rightarrow> transaction_request \<Rightarrow> world
    \<Rightarrow> (runtime_error fault, transaction_result) result \<times> world" where
  "transact rt typed metadata fresh request w =
     (case json_vec (rt_wire rt) (request_to_value (rt_ext rt) request) of
        Inl e \<Rightarrow> (Inl (Fail e), w)
      | Inr logical \<Rightarrow>
          (let logical_hash = intent_hash (rt_ext rt) logical in
           case publish_transaction rt typed (tr_idempotency_key request) logical_hash []
                  (\<lambda>attempt base. ends (transaction_candidate rt metadata (fresh attempt) request logical_hash base)) w of
             (Inl e, w) \<Rightarrow> (Inl e, w)
           | (Inr (result, state), w) \<Rightarrow>
               (Inr \<lparr>trr_table_version = dr_table_version result, trr_commit_id = dr_commit_id result,
                     trr_semantic_state_sha256 = state, trr_operation_results = dr_operation_results result\<rparr>, w)))"

section \<open>What the walk over the ancestry accepts\<close>

text \<open>The parent chain from a tip, with falling sequence numbers below a bound.\<close>

fun lineage :: "connection \<Rightarrow> id option \<Rightarrow> u64 \<Rightarrow> id list \<Rightarrow> bool" where
  "lineage cn None bound chain = (chain = [])"
| "lineage cn (Some i) bound [] = False"
| "lineage cn (Some i) bound (j # js) =
     (j = i \<and> (\<exists>d. descriptor cn i = Inr d \<and> sd_sequence_number d < bound
        \<and> lineage cn (sd_parent_snapshot_id d) (sd_sequence_number d) js))"

lemma ancestor_Inr: "ancestor cn i = Inr d \<longleftrightarrow> descriptor cn i = Inr d"
  by (simp add: ancestor_def map_err_eq_Inr)

lemma ancestry_loop_lineage:
  assumes "\<And>v. v \<in> visited \<Longrightarrow> \<exists>d. descriptor cn v = Inr d \<and> bound \<le> sd_sequence_number d"
  shows "ancestry_loop cn tip visited bound acc = Inr chain \<longleftrightarrow> (\<exists>js. chain = acc @ js \<and> lineage cn tip bound js)"
  using assms
proof (induction cn tip visited bound acc rule: ancestry_loop.induct)
  case (1 cn tip visited bound acc)
  note unfold = ancestry_loop.simps [of cn _ visited bound acc]
  show ?case
  proof (cases tip)
    case None
    then show ?thesis by (auto simp: unfold)
  next
    case (Some i)
    have split: "(\<exists>js. chain = acc @ js \<and> lineage cn (Some i) bound js) \<longleftrightarrow>
        (\<exists>d js. chain = acc @ i # js \<and> descriptor cn i = Inr d \<and> sd_sequence_number d < bound
          \<and> lineage cn (sd_parent_snapshot_id d) (sd_sequence_number d) js)"
      (is "?lhs = ?rhs")
    proof
      assume ?lhs
      then obtain js where js: "chain = acc @ js" "lineage cn (Some i) bound js" by blast
      then show ?rhs by (cases js) auto
    qed auto
    show ?thesis
    proof (cases "i \<in> visited")
      case True
      then obtain d where "descriptor cn i = Inr d" "bound \<le> sd_sequence_number d" using "1.prems" by blast
      then show ?thesis using True unfolding Some split by (auto simp: unfold)
    next
      case new: False
      show ?thesis
      proof (cases "ancestor cn i")
        case (Inl e)
        then have "descriptor cn i \<noteq> Inr d" for d by (metis ancestor_Inr sum.distinct(1))
        then show ?thesis using Inl new unfolding Some split by (simp add: unfold)
      next
        case (Inr d)
        then have d: "descriptor cn i = Inr d" by (simp add: ancestor_Inr)
        show ?thesis
        proof (cases "bound \<le> sd_sequence_number d")
          case True
          then show ?thesis using Inr new d unfolding Some split by (auto simp: unfold)
        next
          case False
          have "\<exists>e. descriptor cn v = Inr e \<and> sd_sequence_number d \<le> sd_sequence_number e" if "v \<in> insert i visited" for v
          proof (cases "v = i")
            case False
            then obtain e where "descriptor cn v = Inr e" "bound \<le> sd_sequence_number e" using "1.prems" \<open>v \<in> insert i visited\<close> by auto
            then show ?thesis using \<open>\<not> bound \<le> sd_sequence_number d\<close> by auto
          qed (use d in auto)
          then have IH: "ancestry_loop cn (sd_parent_snapshot_id d) (insert i visited) (sd_sequence_number d) (acc @ [i]) = Inr chain \<longleftrightarrow>
              (\<exists>js. chain = (acc @ [i]) @ js \<and> lineage cn (sd_parent_snapshot_id d) (sd_sequence_number d) js)"
            by (rule "1.IH" [OF Some new Inr False])
          show ?thesis using Inr new False d unfolding Some split by (auto simp: unfold IH not_le)
        qed
      qed
    qed
  qed
qed

lemma ancestry_lineage: "ancestry cn tip = Inr chain \<longleftrightarrow> lineage cn tip (- 1) chain"
  using ancestry_loop_lineage [of "{}" cn "- 1" tip "[]" chain] by (simp add: ancestry_def)

lemma lineage_below:
  "lineage cn tip bound chain \<Longrightarrow> i \<in> set chain \<Longrightarrow> \<exists>d. descriptor cn i = Inr d \<and> sd_sequence_number d < bound"
proof (induction cn tip bound chain rule: lineage.induct)
  case (3 cn i' bound j js)
  then obtain d where d: "j = i'" "descriptor cn i' = Inr d" "sd_sequence_number d < bound"
    "lineage cn (sd_parent_snapshot_id d) (sd_sequence_number d) js" by auto
  show ?case
  proof (cases "i = j")
    case False
    then have "\<exists>e. descriptor cn i = Inr e \<and> sd_sequence_number e < sd_sequence_number d"
      using "3.IH" [of d] "3.prems"(2) d by auto
    then show ?thesis using d(3) by force
  qed (use d in auto)
qed auto

lemma lineage_distinct: "lineage cn tip bound chain \<Longrightarrow> distinct chain"
proof (induction cn tip bound chain rule: lineage.induct)
  case (3 cn i bound j js)
  then obtain d where d: "j = i" "descriptor cn i = Inr d" "lineage cn (sd_parent_snapshot_id d) (sd_sequence_number d) js" by auto
  then have "i \<notin> set js" using lineage_below [OF d(3), of i] by auto
  with d "3.IH" [of d] show ?case by auto
qed auto

section \<open>Which appends may move\<close>

text \<open>The operations that were committed since leave the branch and the current schema alone.\<close>

definition leaves_alone :: "string \<Rightarrow> canonical_value \<Rightarrow> bool" where
  "leaves_alone name operation =
     (\<forall>m. operation = CObject m \<longrightarrow>
        bt_get m ''type'' \<noteq> Some (CString ''set_current_schema'')
        \<and> (bt_get m ''ref'' = Some (CString name) \<longrightarrow> bt_get m ''type'' = Some (CString ''commit_snapshot'')))"

definition harmless_row :: "runtime \<Rightarrow> append_calls \<Rightarrow> string \<Rightarrow> (runtime_error, string) result \<Rightarrow> bool" where
  "harmless_row rt ac name row =
     (\<exists>json ops. row = Inr json
        \<and> from_slice_canonical (w_serde (rt_wire rt)) (rt_ext rt) (ac_operations_json ac) (as_bytes json) = Inr ops
        \<and> (\<forall>op \<in> set ops. leaves_alone name op))"

lemma rebase_operation_iff: "rebase_operation name op = Inr () \<longleftrightarrow> leaves_alone name op"
  by (cases op) (auto simp: rebase_operation_def leaves_alone_def)

lemma rebase_row_iff: "rebase_row rt ac name row = Inr () \<longleftrightarrow> harmless_row rt ac name row"
  by (auto simp: rebase_row_def harmless_row_def result_simps try_fold_unit rebase_operation_iff)

text \<open>
  C32: when an append may be moved to a newer parent. The check accepts exactly when the target was and still is a branch,
  its snapshots form one parent chain with strictly falling sequence numbers that contains the tip the append
  was prepared on, and no operation committed since then changed the branch other than by appending, or selected another
  schema. The chain never repeats a snapshot, so the walk over it ends.
\<close>

theorem append_rebase_iff:
  "validate_append_rebase rt ac parent name original version = Inr () \<longleftrightarrow>
     (\<exists>cn old current chain rows.
        db_open (rt_db rt) (pt_resolved parent) = Inr cn \<and> original = Some (Branch, old)
        \<and> ref_row cn name = Inr (Some (Branch, current))
        \<and> lineage cn current (- 1) chain \<and> distinct chain \<and> set_option old \<subseteq> set chain
        \<and> unat version < 2 ^ 63 \<and> db_summaries_after (rt_db rt) (pt_resolved parent) version = Inr rows
        \<and> list_all (harmless_row rt ac name) rows)"
  (is "?lhs = ?rhs")
proof
  assume ?lhs
  then obtain cn where cn: "db_open (rt_db rt) (pt_resolved parent) = Inr cn"
    by (auto simp: validate_append_rebase_def result_simps)
  obtain old where old: "original = Some (Branch, old)"
  proof (cases original)
    case (Some o')
    with \<open>?lhs\<close> cn that show ?thesis
      by (cases o'; cases "fst o'") (simp_all add: validate_append_rebase_def)
  qed (use \<open>?lhs\<close> cn in \<open>simp add: validate_append_rebase_def\<close>)
  obtain row where row: "ref_row cn name = Inr row"
    using \<open>?lhs\<close> cn old by (auto simp: validate_append_rebase_def and_then_eq_Inr)
  obtain current where cur: "ref_row cn name = Inr (Some (Branch, current))"
  proof (cases row)
    case (Some o')
    with \<open>?lhs\<close> cn old row that show ?thesis
      by (cases o'; cases "fst o'") (simp_all add: validate_append_rebase_def)
  qed (use \<open>?lhs\<close> cn old row in \<open>simp add: validate_append_rebase_def\<close>)
  from \<open>?lhs\<close> cn old cur obtain chain where ch: "ancestry cn current = Inr chain"
    by (auto simp: validate_append_rebase_def result_simps)
  from \<open>?lhs\<close> cn old cur ch obtain rows where
    "\<forall>i. old = Some i \<longrightarrow> i \<in> set chain" "\<not> over_i64 version"
    "db_summaries_after (rt_db rt) (pt_resolved parent) version = Inr rows" "\<forall>row \<in> set rows. rebase_row rt ac name row = Inr ()"
    by (auto simp: validate_append_rebase_def result_simps try_fold_unit split: if_splits option.splits)
  then show ?rhs using cn old cur ch lineage_distinct
    by (intro exI conjI) (auto simp: ancestry_lineage rebase_row_iff over_i64_def list_all_iff)
next
  assume ?rhs
  then obtain cn old current chain rows where
    "db_open (rt_db rt) (pt_resolved parent) = Inr cn" "original = Some (Branch, old)"
    "ref_row cn name = Inr (Some (Branch, current))" "ancestry cn current = Inr chain" "\<forall>i. old = Some i \<longrightarrow> i \<in> set chain"
    "unat version < 2 ^ 63" "db_summaries_after (rt_db rt) (pt_resolved parent) version = Inr rows"
    "\<forall>row \<in> set rows. rebase_row rt ac name row = Inr ()"
    by (force simp: ancestry_lineage rebase_row_iff list_all_iff)
  then show ?lhs
    by (cases old) (auto simp: validate_append_rebase_def over_i64_def try_fold_unit)
qed

section \<open>What a validated append is\<close>

text \<open>A pass that collects one new key for each element.\<close>

lemma try_fold_new_keys:
  assumes "\<And>s x s'. f s x = Inr s' \<longleftrightarrow> (\<exists>k. K x k \<and> k \<notin> s \<and> s' = insert k s)"
  shows "(\<exists>s'. try_fold f s xs = Inr s') \<longleftrightarrow> (\<exists>ks. list_all2 K xs ks \<and> distinct ks \<and> set ks \<inter> s = {})"
proof (induction xs arbitrary: s)
  case (Cons x xs)
  have "(\<exists>s'. try_fold f s (x # xs) = Inr s') \<longleftrightarrow>
      (\<exists>k. K x k \<and> k \<notin> s \<and> (\<exists>ks. list_all2 K xs ks \<and> distinct ks \<and> set ks \<inter> insert k s = {}))"
    unfolding Cons.IH [symmetric] by (auto simp: and_then_eq_Inr assms)
  also have "\<dots> \<longleftrightarrow> (\<exists>ks. list_all2 K (x # xs) ks \<and> distinct ks \<and> set ks \<inter> s = {})"
    (is "?l \<longleftrightarrow> ?r")
  proof
    assume ?l
    then obtain k ks where "K x k" "k \<notin> s" "list_all2 K xs ks" "distinct ks" "set ks \<inter> insert k s = {}" by blast
    then show ?r by (intro exI [of _ "k # ks"]) auto
  next
    assume ?r
    then obtain k ks where "K x k" "list_all2 K xs ks" "distinct (k # ks)" "set (k # ks) \<inter> s = {}"
      unfolding list_all2_Cons1 by blast
    then show ?l by (intro exI [of _ k] conjI exI [of _ ks]) auto
  qed
  finally show ?case .
qed simp

lemma try_fold_checked_sum_iff:
  "try_fold (\<lambda>n r. ok_or e (checked_add n (f r))) s rs = Inr (n :: 'a::len word) \<longleftrightarrow>
     unat n = unat s + sum_list (map (\<lambda>r. unat (f r)) rs)"
proof (induction rs arbitrary: s)
  case Nil
  then show ?case by (auto simp: word_unat_eq_iff)
next
  case (Cons r rs)
  show ?case
  proof (cases "unat s + unat (f r) < 2 ^ LENGTH('a)")
    case True
    then have "checked_add s (f r) = Some (s + f r)" by (simp add: checked_add_def)
    moreover have "unat (s + f r) = unat s + unat (f r)" using True by (simp add: unat_word_ariths)
    ultimately show ?thesis using Cons.IH [of "s + f r"] by (simp add: add.assoc)
  next
    case False
    then have "unat n \<noteq> unat s + (unat (f r) + sum_list (map (\<lambda>r. unat (f r)) rs))" using unat_lt_2p [of n] by linarith
    then show ?thesis using False by (simp add: checked_add_def)
  qed
qed

definition metric_bound_ok :: "logical_type \<Rightarrow> typed_scalar \<Rightarrow> bool" where
  "metric_bound_ok ty b = (scalar_validate b = Inr () \<and> accepts ty b \<and> b \<noteq> TNull \<and> \<not> scalar_is_nan b)"

definition metric_ok :: "logical_type \<Rightarrow> file_metric \<Rightarrow> bool" where
  "metric_ok ty m =
     (is_primitive ty
      \<and> (\<forall>nulls vals. fm_null_count m = Some nulls \<longrightarrow> fm_value_count m = Some vals \<longrightarrow> nulls \<le> vals)
      \<and> (fm_nan_count m \<noteq> None \<longrightarrow> is_float ty)
      \<and> (\<forall>n \<in> set (metric_counts m). unat n < 2 ^ 63)
      \<and> (\<forall>b. fm_lower_bound m = Some b \<or> fm_upper_bound m = Some b \<longrightarrow> metric_bound_ok ty b)
      \<and> (\<forall>lower upper. fm_lower_bound m = Some lower \<longrightarrow> fm_upper_bound m = Some upper \<longrightarrow>
           partial_cmp_same_type lower upper \<noteq> Some Greater))"

definition total_records :: "append_request \<Rightarrow> nat" where
  "total_records r = sum_list (map (\<lambda>f. unat (af_record_count f)) (ar_files r))"

definition total_bytes :: "append_request \<Rightarrow> nat" where
  "total_bytes r = sum_list (map (\<lambda>f. unat (sfp_length (af_fingerprint f))) (ar_files r))"

lemma over_i64_iff: "over_i64 v \<longleftrightarrow> \<not> unat v < 2 ^ 63"
  by (simp add: over_i64_def) linarith

lemma set_flatten_options [simp]: "set (flatten_options xs) = {x. Some x \<in> set xs}"
  by (induction xs rule: flatten_options.induct) auto

lemma validate_bound_iff: "validate_bound ty b = Inr () \<longleftrightarrow> metric_bound_ok ty b"
  by (auto simp: validate_bound_def metric_bound_ok_def invalid_append_def result_simps)

lemma validate_metric_iff:
  "validate_metric types ids m = Inr ids' \<longleftrightarrow>
     (\<exists>i. (\<exists>ty. bt_get types i = Some ty \<and> i = fm_field_id m \<and> metric_ok ty m) \<and> i \<notin> ids \<and> ids' = insert i ids)"
proof (cases "bt_get types (fm_field_id m)")
  case (Some ty)
  have counts: "list_ex over_i64 (metric_counts m) \<longleftrightarrow> \<not> (\<forall>n \<in> set (metric_counts m). unat n < 2 ^ 63)"
    by (auto simp: list_ex_iff over_i64_iff)
  have bounds: "try_fold (\<lambda>_ bound. validate_bound ty bound) () (flatten_options [fm_lower_bound m, fm_upper_bound m]) = Inr ()
      \<longleftrightarrow> (\<forall>b. fm_lower_bound m = Some b \<or> fm_upper_bound m = Some b \<longrightarrow> metric_bound_ok ty b)"
    by (auto simp: try_fold_unit validate_bound_iff)
  have nulls: "(case (fm_null_count m, fm_value_count m) of (Some nulls, Some vals) \<Rightarrow> nulls > vals | _ \<Rightarrow> False) \<longleftrightarrow>
      \<not> (\<forall>nulls vals. fm_null_count m = Some nulls \<longrightarrow> fm_value_count m = Some vals \<longrightarrow> nulls \<le> vals)"
    by (cases "fm_null_count m"; cases "fm_value_count m") (auto simp: not_le)
  have order: "(case (fm_lower_bound m, fm_upper_bound m) of
        (Some lower, Some upper) \<Rightarrow> partial_cmp_same_type lower upper = Some Greater | _ \<Rightarrow> False) \<longleftrightarrow>
      \<not> (\<forall>lower upper. fm_lower_bound m = Some lower \<longrightarrow> fm_upper_bound m = Some upper \<longrightarrow>
           partial_cmp_same_type lower upper \<noteq> Some Greater)"
    by (cases "fm_lower_bound m"; cases "fm_upper_bound m") auto
  have "validate_metric types ids m = Inr ids' \<longleftrightarrow> metric_ok ty m \<and> fm_field_id m \<notin> ids \<and> ids' = insert (fm_field_id m) ids"
    unfolding validate_metric_def Some option.case counts nulls order
    by (auto simp add: invalid_append_def and_then_eq_Inr bounds metric_ok_def simp del: set_flatten_options flatten_options.simps try_fold.simps)
  then show ?thesis using Some by auto
qed (simp add: validate_metric_def invalid_append_def)

lemma validate_metrics_iff:
  "validate_metrics types ms = Inr () \<longleftrightarrow>
     distinct (map fm_field_id ms) \<and> (\<forall>m \<in> set ms. \<exists>ty. bt_get types (fm_field_id m) = Some ty \<and> metric_ok ty m)"
proof -
  have "validate_metrics types ms = Inr () \<longleftrightarrow> (\<exists>s. try_fold (validate_metric types) {} ms = Inr s)"
    by (auto simp: validate_metrics_def result_simps)
  also have "\<dots> \<longleftrightarrow> (\<exists>ks. list_all2 (\<lambda>m i. \<exists>ty. bt_get types i = Some ty \<and> i = fm_field_id m \<and> metric_ok ty m) ms ks
      \<and> distinct ks \<and> set ks \<inter> {} = {})"
    by (rule try_fold_new_keys [OF validate_metric_iff])
  also have "\<dots> \<longleftrightarrow> distinct (map fm_field_id ms) \<and> (\<forall>m \<in> set ms. \<exists>ty. bt_get types (fm_field_id m) = Some ty \<and> metric_ok ty m)"
  proof
    assume "\<exists>ks. list_all2 (\<lambda>m i. \<exists>ty. bt_get types i = Some ty \<and> i = fm_field_id m \<and> metric_ok ty m) ms ks \<and> distinct ks \<and> set ks \<inter> {} = {}"
    then obtain ks where ks: "list_all2 (\<lambda>m i. \<exists>ty. bt_get types i = Some ty \<and> i = fm_field_id m \<and> metric_ok ty m) ms ks" "distinct ks"
      by blast
    then have "ks = map fm_field_id ms" by (auto simp: list_all2_conv_all_nth intro!: nth_equalityI)
    with ks show "distinct (map fm_field_id ms) \<and> (\<forall>m \<in> set ms. \<exists>ty. bt_get types (fm_field_id m) = Some ty \<and> metric_ok ty m)"
      by (auto simp: list_all2_map2 list.rel_refl_strong list_all2_same)
  qed (auto intro!: exI [of _ "map fm_field_id ms"] simp: list_all2_map2 list_all2_same)
  finally show ?thesis .
qed

lemma derived_summary_iff:
  "derived_summary r = Inr s \<longleftrightarrow>
     total_records r < 2 ^ 63 \<and> total_bytes r < 2 ^ 63
     \<and> s = bt_insert ''added-files-size'' (CString (show_nat (total_bytes r)))
            (bt_insert ''added-records'' (CString (show_nat (total_records r)))
              (bt_insert ''added-data-files'' (CString (show_nat (length (ar_files r)))) (ar_summary r)))"
  (is "_ \<longleftrightarrow> ?small \<and> ?bytes \<and> s = ?s")
proof -
  have records: "try_fold (\<lambda>n f. ok_or e (checked_add n (af_record_count f))) 0 (ar_files r) = Inr (n :: u64) \<longleftrightarrow> unat n = total_records r" for e :: runtime_error and n
    by (simp add: try_fold_checked_sum_iff total_records_def)
  have bytes: "try_fold (\<lambda>n f. ok_or e (checked_add n (sfp_length (af_fingerprint f)))) 0 (ar_files r) = Inr (n :: u64) \<longleftrightarrow> unat n = total_bytes r" for e :: runtime_error and n
    by (simp add: try_fold_checked_sum_iff total_bytes_def)
  show ?thesis
  proof (cases "?small \<and> ?bytes")
    case True
    define m n :: u64 where "m = word_of_nat (total_records r)" and "n = word_of_nat (total_bytes r)"
    have mn: "unat m = total_records r" "unat n = total_bytes r"
      using True by (simp_all add: m_def n_def unsigned_of_nat take_bit_nat_eq_self)
    then show ?thesis using True records [of _ m] bytes [of _ n]
      by (auto simp: derived_summary_def over_i64_iff number_text_def mn)
  next
    case False
    then show ?thesis by (auto simp: derived_summary_def and_then_eq_Inr records bytes over_i64_iff invalid_append_def split: if_splits)
  qed
qed

text \<open>The totals dominate the figures of every file.\<close>

lemma file_within_totals:
  assumes "f \<in> set (ar_files r)"
  shows "unat (af_record_count f) \<le> total_records r" "unat (sfp_length (af_fingerprint f)) \<le> total_bytes r"
  using assms by (auto simp: total_records_def total_bytes_def intro!: member_le_sum_list)

definition append_file_ok :: "u32 \<Rightarrow> (u32, logical_type) btree \<Rightarrow> append_file \<Rightarrow> bool" where
  "append_file_ok schema types f =
     (af_schema_id f = schema \<and> af_partition_spec_id f = 0 \<and> af_sort_order_id f = 0 \<and> af_partition_values f = []
      \<and> distinct (map fm_field_id (af_metrics f))
      \<and> (\<forall>m \<in> set (af_metrics f). \<exists>ty. bt_get types (fm_field_id m) = Some ty \<and> metric_ok ty m))"

lemma validate_file_iff:
  "validate_file rt schema types es f = Inr es' \<longleftrightarrow>
     (\<exists>e. (json_vec (rt_wire rt) (logical_file_to_value (rt_ext rt) f) = Inr e \<and> append_file_ok schema types f
          \<and> unat (af_record_count f) < 2 ^ 63 \<and> unat (sfp_length (af_fingerprint f)) < 2 ^ 63) \<and> e \<notin> es \<and> es' = insert e es)"
  by (auto simp: validate_file_def append_file_ok_def invalid_append_def over_i64_iff and_then_eq_Inr validate_metrics_iff split: if_splits)

lemma validate_files_iff:
  assumes "total_records r < 2 ^ 63" "total_bytes r < 2 ^ 63"
  shows "(\<exists>s. try_fold (validate_file rt schema types) {} (ar_files r) = Inr s) \<longleftrightarrow>
     (\<exists>es. map (\<lambda>f. json_vec (rt_wire rt) (logical_file_to_value (rt_ext rt) f)) (ar_files r) = map Inr es \<and> distinct es)
     \<and> (\<forall>f \<in> set (ar_files r). append_file_ok schema types f)"
proof -
  let ?K = "\<lambda>f e. json_vec (rt_wire rt) (logical_file_to_value (rt_ext rt) f) = Inr e \<and> append_file_ok schema types f
      \<and> unat (af_record_count f) < 2 ^ 63 \<and> unat (sfp_length (af_fingerprint f)) < 2 ^ 63"
  have small: "unat (af_record_count f) < 2 ^ 63" "unat (sfp_length (af_fingerprint f)) < 2 ^ 63" if "f \<in> set (ar_files r)" for f
    using file_within_totals [OF that] assms by linarith+
  have "list_all2 ?K (ar_files r) es \<longleftrightarrow>
      map (\<lambda>f. json_vec (rt_wire rt) (logical_file_to_value (rt_ext rt) f)) (ar_files r) = map Inr es
      \<and> (\<forall>f \<in> set (ar_files r). append_file_ok schema types f)" for es
  proof
    assume "list_all2 ?K (ar_files r) es"
    then show "map (\<lambda>f. json_vec (rt_wire rt) (logical_file_to_value (rt_ext rt) f)) (ar_files r) = map Inr es
      \<and> (\<forall>f \<in> set (ar_files r). append_file_ok schema types f)"
      by (auto simp: list_all2_conv_all_nth in_set_conv_nth intro!: nth_equalityI)
  next
    assume as: "map (\<lambda>f. json_vec (rt_wire rt) (logical_file_to_value (rt_ext rt) f)) (ar_files r) = map Inr es
      \<and> (\<forall>f \<in> set (ar_files r). append_file_ok schema types f)"
    then have len: "length (ar_files r) = length es" using map_eq_imp_length_eq by blast
    show "list_all2 ?K (ar_files r) es"
    proof (rule list_all2_all_nthI [OF len])
      fix i assume i: "i < length (ar_files r)"
      then have "json_vec (rt_wire rt) (logical_file_to_value (rt_ext rt) (ar_files r ! i)) = Inr (es ! i)"
        using as len by (metis (no_types, lifting) nth_map)
      then show "?K (ar_files r ! i) (es ! i)" using as i small [of "ar_files r ! i"] by auto
    qed
  qed
  then show ?thesis unfolding try_fold_new_keys [OF validate_file_iff] by auto
qed

text \<open>
  C31: which appends are accepted. An append is validated exactly when its key is usable, it has files, its target is a
  branch, the caller's summary stays off the derived keys, every file is written for the current schema with the default
  partitioning and order and carries metrics that fit the schema (one for each primitive field at most, counts within
  a signed column, nulls among the values, bounds of the field's type in order and never null or NaN), no two files have the
  same logical entry, and the exact totals of records and bytes fit a signed column. The summary then
  shows these totals: no sum of the pass wraps.
\<close>

theorem append_accepted_iff:
  "validate_request rt ac r pinned = Inr () \<longleftrightarrow>
     ar_idempotency_key r \<noteq> [] \<and> ar_idempotency_key r \<noteq> ''otmp.genesis'' \<and> ar_files r \<noteq> []
     \<and> (\<exists>cn tip schema snapshot sequence types es.
          db_open (rt_db rt) (pt_resolved pinned) = Inr cn \<and> ref_row cn (ar_target_ref r) = Inr (Some (Branch, tip))
          \<and> current_schema_and_snapshot rt (pt_resolved pinned) = Inr (schema, snapshot, sequence)
          \<and> field_types rt ac (pt_resolved pinned) schema = Inr types
          \<and> list_all (\<lambda>(k, _). k \<notin> set reserved_keys) (ar_summary r)
          \<and> list_all (append_file_ok schema types) (ar_files r)
          \<and> map (\<lambda>f. json_vec (rt_wire rt) (logical_file_to_value (rt_ext rt) f)) (ar_files r) = map Inr es \<and> distinct es)
     \<and> total_records r < 2 ^ 63 \<and> total_bytes r < 2 ^ 63
     \<and> derived_summary r = Inr (bt_insert ''added-files-size'' (CString (show_nat (total_bytes r)))
            (bt_insert ''added-records'' (CString (show_nat (total_records r)))
              (bt_insert ''added-data-files'' (CString (show_nat (length (ar_files r)))) (ar_summary r))))"
  (is "?lhs \<longleftrightarrow> ?rhs")
proof -
  have keys: "list_ex (\<lambda>(k, _). k \<in> set reserved_keys) (ar_summary r) \<longleftrightarrow> \<not> list_all (\<lambda>(k, _). k \<notin> set reserved_keys) (ar_summary r)"
    by (auto simp: list_ex_iff list_all_iff)
  have branch: "(case row of Some (Branch, _) \<Rightarrow> False | _ \<Rightarrow> True) \<longleftrightarrow> (\<nexists>tip. row = Some (Branch, tip))" for row :: "(ref_type \<times> id option) option"
    by (cases row) (auto split: ref_type.splits prod.splits)
  show ?thesis
  proof (cases "total_records r < 2 ^ 63 \<and> total_bytes r < 2 ^ 63")
    case False
    then have "derived_summary r \<noteq> Inr s" for s by (auto simp: derived_summary_iff)
    then show ?thesis by (auto simp: validate_request_def invalid_append_def and_then_eq_Inr split: if_splits)
  next
    case True
    then have sum: "\<exists>s. derived_summary r = Inr s" by (simp add: derived_summary_iff)
    have "?lhs \<longleftrightarrow> ar_idempotency_key r \<noteq> [] \<and> ar_idempotency_key r \<noteq> ''otmp.genesis'' \<and> ar_files r \<noteq> []
      \<and> (\<exists>cn tip schema snapshot sequence types.
          db_open (rt_db rt) (pt_resolved pinned) = Inr cn \<and> ref_row cn (ar_target_ref r) = Inr (Some (Branch, tip))
          \<and> current_schema_and_snapshot rt (pt_resolved pinned) = Inr (schema, snapshot, sequence)
          \<and> field_types rt ac (pt_resolved pinned) schema = Inr types
          \<and> list_all (\<lambda>(k, _). k \<notin> set reserved_keys) (ar_summary r)
          \<and> (\<exists>s. try_fold (validate_file rt schema types) {} (ar_files r) = Inr s))"
      using sum unfolding validate_request_def keys branch
      by (auto simp: invalid_append_def and_then_eq_Inr) blast
    then show ?thesis using True unfolding validate_files_iff [OF True [THEN conjunct1] True [THEN conjunct2]]
      by (auto simp: derived_summary_iff list_all_iff)
  qed
qed

end
