(* ===== verification/Genesis.thy ===== *)
theory Genesis
  imports Append
begin

text \<open>
  Creating a table, \<^verbatim>\<open>Table::initialize\<close> of \<^verbatim>\<open>otmp/src/runtime.rs\<close>: the genesis commit, its checkpoint, generation and head, the
  uploads, and the loop around the conditional creation of the head. Running the statements of the first image
  (\<^verbatim>\<open>image::turso_genesis\<close>) is the argument \<open>create\<close>; the new table identifier is an argument beside the other fresh values.
\<close>

section \<open>Data\<close>

record initialize_request =
  iq_schema :: schema
  iq_metadata :: members

definition initialize_request_new :: "schema \<Rightarrow> initialize_request" where
  "initialize_request_new s = \<lparr>iq_schema = s, iq_metadata = []\<rparr>"

record genesis_image =
  gi_table_id :: id
  gi_schema :: schema
  gi_created_at_ms :: i64
  gi_semantic_state :: sha256
  gi_commit_id :: id
  gi_commit_hash :: sha256
  gi_commit_uri :: string
  gi_operation_json :: string
  gi_result_json :: string
  gi_intent_hash :: sha256
  gi_metadata_json :: string
  gi_reader_features_json :: string
  gi_writer_features_json :: string

record genesis_table =
  gt_commit :: semantic_commit
  gt_generation :: generation
  gt_head :: head
  gt_commit_uri :: relative_uri
  gt_commit_bytes :: "byte list"
  gt_checkpoint_uri :: relative_uri
  gt_checkpoint_bytes :: "byte list"
  gt_artifacts :: "artifact list"
  gt_generation_uri :: relative_uri
  gt_generation_bytes :: "byte list"
  gt_head_bytes :: "byte list"

section \<open>The genesis objects\<close>

definition genesis_result :: canonical_value where
  "genesis_result = obj_of [(''ref'', CString ''main''), (''table_version'', CString ''0'')]"

definition initialize_operation :: "externals \<Rightarrow> id \<Rightarrow> canonical_value \<Rightarrow> canonical_value" where
  "initialize_operation x table_id schema =
     obj_of [(''operation_id'', CString ''initialize''), (''type'', CString ''initialize_table''),
       (''table_id'', id_value x table_id), (''schema'', schema), (''partition_spec_id'', CString ''0''),
       (''sort_order_id'', CString ''0''), (''target_ref'', CString ''main'')]"

definition genesis_commit :: "runtime \<Rightarrow> fresh \<Rightarrow> id \<Rightarrow> initialize_request \<Rightarrow> i64 \<Rightarrow> feature_set \<Rightarrow> (runtime_error, semantic_commit) result" where
  "genesis_commit rt fresh table_id request now features =
     and_then (json_value (rt_wire rt) (schema_to_value (rt_ext rt) (iq_schema request))) (\<lambda>schema.
     let operation = initialize_operation (rt_ext rt) table_id schema in
     and_then (json_vec (rt_wire rt) operation) (\<lambda>operation_bytes.
     let commit =
       \<lparr>sc_kind = ''otmp.semantic-commit'', sc_format_version = 1, sc_table_id = table_id, sc_table_version = 0,
        sc_parent_table_version = None, sc_commit_id = fr_commit_id fresh, sc_parent_commit = None, sc_created_at_ms = now,
        sc_intents = [\<lparr>ir_key = ''otmp.genesis'', ir_intent_sha256 = intent_hash (rt_ext rt) operation_bytes,
          ir_operation_ids = [''initialize''], ir_result = genesis_result\<rparr>],
        sc_requirements = [], sc_operations = [operation],
        sc_required_reader_features_after_commit = features, sc_required_writer_features_after_commit = features,
        sc_previous_semantic_state_sha256 = None, sc_semantic_state_sha256 = zero_sha,
        sc_metadata = CObject (iq_metadata request)\<rparr> in
     and_then (commit_body (rt_wire rt) commit) (\<lambda>body.
       Inr (commit\<lparr>sc_semantic_state_sha256 := genesis_state_hash (rt_ext rt) body\<rparr>))))"

text \<open>The values the first image is made of; the texts are the canonical JSON of parts of the commit.\<close>

definition genesis_image_of :: "schema \<Rightarrow> semantic_commit \<Rightarrow> sha256 \<Rightarrow> sha256 \<Rightarrow> string \<Rightarrow> string \<Rightarrow> string \<Rightarrow> string \<Rightarrow> string \<Rightarrow> string
    \<Rightarrow> genesis_image" where
  "genesis_image_of schema commit intent commit_hash commit_uri operation_json result_json metadata_json readers writers =
     \<lparr>gi_table_id = sc_table_id commit, gi_schema = schema, gi_created_at_ms = sc_created_at_ms commit,
      gi_semantic_state = sc_semantic_state_sha256 commit, gi_commit_id = sc_commit_id commit,
      gi_commit_hash = commit_hash, gi_commit_uri = commit_uri, gi_operation_json = operation_json,
      gi_result_json = result_json, gi_intent_hash = intent, gi_metadata_json = metadata_json,
      gi_reader_features_json = readers, gi_writer_features_json = writers\<rparr>"

definition first_image :: "runtime \<Rightarrow> (genesis_image \<Rightarrow> (runtime_error, checkpoint_image) result) \<Rightarrow> schema \<Rightarrow> semantic_commit \<Rightarrow> feature_set
    \<Rightarrow> sha256 \<Rightarrow> string \<Rightarrow> (runtime_error, checkpoint_image) result" where
  "first_image rt create schema commit features commit_hash commit_uri =
     (let text = canonical_text (rt_wire rt) (rt_utf8_error rt) in
      and_then (text genesis_result) (\<lambda>result_json.
      and_then (text (CArray (sc_operations commit))) (\<lambda>operation_json.
      and_then (text (sc_metadata commit)) (\<lambda>metadata_json.
      and_then (text (features_value features)) (\<lambda>features_json.
        create (genesis_image_of schema commit (ir_intent_sha256 (hd (sc_intents commit))) commit_hash commit_uri operation_json
          result_json metadata_json features_json features_json))))))"

definition genesis_generation :: "runtime \<Rightarrow> fresh \<Rightarrow> semantic_commit \<Rightarrow> object_reference \<Rightarrow> u64 \<Rightarrow> checkpoint \<Rightarrow> checkpoint_page_index
    \<Rightarrow> generation" where
  "genesis_generation rt fresh commit commit_ref page_count base idx =
     \<lparr>g_kind = ''otmp.metadata-generation'', g_format_version = 1, g_table_id = sc_table_id commit, g_table_version = 0,
      g_generation_id = fr_generation_id fresh, g_created_at_ms = sc_created_at_ms commit,
      g_semantic_state_sha256 = sc_semantic_state_sha256 commit, g_semantic_commit = commit_ref, g_physical_parent = None,
      g_metadata_image =
        \<lparr>mi_codec = SQLITE_COW_FEATURE, mi_page_size = image_page_size, mi_page_count = page_count, mi_checkpoint = base,
         mi_page_map = None, mi_checkpoint_page_index = Some idx,
         mi_image_root_sha256 = image_root_hash (rt_ext rt) (sc_table_id commit) 0 image_page_size page_count (cp_sha256 base) None\<rparr>,
      g_scan_projection = None, g_metadata = []\<rparr>"

definition genesis_head :: "semantic_commit \<Rightarrow> feature_set \<Rightarrow> object_reference \<Rightarrow> object_reference \<Rightarrow> head" where
  "genesis_head commit features commit_ref generation_ref =
     \<lparr>h_protocol = ''otmp'', h_protocol_version = ''0.0.2-alpha'', h_table_id = sc_table_id commit, h_table_version = 0,
      h_root_revision = 0, h_semantic_state_sha256 = sc_semantic_state_sha256 commit, h_semantic_commit = commit_ref,
      h_metadata_generation = generation_ref, h_required_reader_features = features, h_required_writer_features = features\<rparr>"

text \<open>The part of \<^verbatim>\<open>initialize\<close> before the first upload.\<close>

definition genesis_objects :: "runtime \<Rightarrow> (genesis_image \<Rightarrow> (runtime_error, checkpoint_image) result) \<Rightarrow> fresh \<Rightarrow> id \<Rightarrow> initialize_request
    \<Rightarrow> (runtime_error, genesis_table) result" where
  "genesis_objects rt create fresh table_id request =
     (let x = rt_ext rt in
      and_then (map_err ProtocolErr (schema_validate (iq_schema request))) (\<lambda>_.
      if sch_schema_id (iq_schema request) \<noteq> 1 \<or> sch_parent_schema_id (iq_schema request) \<noteq> None
      then Inl (InvalidInitialize ''local/full-image profile genesis requires schema_id 1 with no parent schema'')
      else
        and_then (fr_now_ms fresh) (\<lambda>now.
        and_then (map_err ProtocolErr runtime_features) (\<lambda>features.
        and_then (genesis_commit rt fresh table_id request now features) (\<lambda>commit.
        and_then (json_vec (rt_wire rt) (commit_to_value x commit)) (\<lambda>commit_bytes.
        and_then (versioned_uri x ''commits'' 0 (fr_commit_id fresh) ''.json'') (\<lambda>commit_uri.
        and_then (first_image rt create (iq_schema request) commit features (object_hash x commit_bytes) (uri_as_str commit_uri)) (\<lambda>img.
        and_then (versioned_uri x ''checkpoints'' 0 (fr_checkpoint_id fresh) ''.sqlite3'') (\<lambda>checkpoint_uri.
        let base = \<lparr>cp_table_version = 0, cp_uri = checkpoint_uri, cp_sha256 = object_hash x (cki_bytes img),
                    cp_length = u64_of_usize (length (cki_bytes img))\<rparr> in
        and_then (build x base image_page_size (cki_bytes img)) (\<lambda>(idx, arts).
        let commit_ref = object_reference_of commit_uri (object_hash x commit_bytes) (u64_of_usize (length commit_bytes)) COMMIT_MEDIA_TYPE;
            generation = genesis_generation rt fresh commit commit_ref (cki_page_count img) base idx in
        and_then (json_vec (rt_wire rt) (generation_to_value x generation)) (\<lambda>generation_bytes.
        and_then (versioned_uri x ''generations'' 0 (fr_generation_id fresh) ''.json'') (\<lambda>generation_uri.
        let head = genesis_head commit features commit_ref
              (object_reference_of generation_uri (object_hash x generation_bytes) (u64_of_usize (length generation_bytes)) GENERATION_MEDIA_TYPE) in
        and_then (json_vec (rt_wire rt) (head_to_value x head)) (\<lambda>head_bytes.
          Inr \<lparr>gt_commit = commit, gt_generation = generation, gt_head = head, gt_commit_uri = commit_uri,
               gt_commit_bytes = commit_bytes, gt_checkpoint_uri = checkpoint_uri, gt_checkpoint_bytes = cki_bytes img,
               gt_artifacts = arts, gt_generation_uri = generation_uri, gt_generation_bytes = generation_bytes,
               gt_head_bytes = head_bytes\<rparr>)))))))))))))"

section \<open>Creating the head\<close>

definition call_create_head :: "externals \<Rightarrow> byte list \<Rightarrow> world \<Rightarrow> conditional_outcome \<times> world" where
  "call_create_head x bs w =
     (let w = interfere x w in
      case create_head x bs (wd_store w) of
        (outcome, s) \<Rightarrow> (outcome, w\<lparr>wd_store := s, wd_trace := wd_trace w @ [(wd_store w, outcome, s)]\<rparr>))"

definition read_head :: "externals \<Rightarrow> world \<Rightarrow> (storage_error, stored_object) result \<times> world" where
  "read_head x w = call x (mem_read x (RelativeUri head_key)) w"

function create_loop :: "runtime \<Rightarrow> byte list \<Rightarrow> u32 \<Rightarrow> world \<Rightarrow> (runtime_error fault, unit) result \<times> world" where
  "create_loop rt head_bytes reconciliations w =
     (case call_create_head (rt_ext rt) head_bytes w of
        (Applied _, w) \<Rightarrow> (Inr (), w)
      | (Conflict _, w) \<Rightarrow>
          (case read_head (rt_ext rt) w of
             (Inl e, w) \<Rightarrow> (Inl (Fail (if reconciliations > 0 then PublicationIndeterminate else StorageErr e)), w)
           | (Inr current, w) \<Rightarrow> (if so_bytes current = head_bytes then Inr () else Inl (Fail AlreadyExists), w))
      | (Indeterminate _, w) \<Rightarrow>
          (case checked_add reconciliations 1 of
             None \<Rightarrow> (Inl Panicked, w)
           | Some reconciliations' \<Rightarrow>
               (case read_head (rt_ext rt) w of
                  (Inr current, w) \<Rightarrow> (if so_bytes current = head_bytes then Inr () else Inl (Fail AlreadyExists), w)
                | (Inl _, w) \<Rightarrow>
                    if reconciliations' \<le> rp_maximum_indeterminate_reconciliations (rt_policy rt)
                    then create_loop rt head_bytes reconciliations' w
                    else (Inl (Fail PublicationIndeterminate), w))))"
  by pat_completeness auto
termination
  by (relation "measure (\<lambda>(_, _, reconciliations, _). 2 ^ 32 - unat reconciliations)")
    (auto dest!: unat_checked_add intro!: diff_less_mono2 simp: unat_u32_lt)

declare create_loop.simps [simp del]

definition genesis_uploads :: "genesis_table \<Rightarrow> (relative_uri \<times> byte list) list" where
  "genesis_uploads g =
     (gt_commit_uri g, gt_commit_bytes g) # (gt_checkpoint_uri g, gt_checkpoint_bytes g)
       # map (\<lambda>a. (art_uri a, art_bytes a)) (gt_artifacts g) @ [(gt_generation_uri g, gt_generation_bytes g)]"

definition initialize :: "runtime \<Rightarrow> (genesis_image \<Rightarrow> (runtime_error, checkpoint_image) result) \<Rightarrow> fresh \<Rightarrow> id \<Rightarrow> initialize_request
    \<Rightarrow> world \<Rightarrow> (runtime_error fault, status) result \<times> world" where
  "initialize rt create fresh table_id request w =
     (case genesis_objects rt create fresh table_id request of
        Inl e \<Rightarrow> (Inl (Fail e), w)
      | Inr g \<Rightarrow>
          (case put_all (rt_ext rt) (genesis_uploads g) w of
             (Inl e, w) \<Rightarrow> (Inl (Fail e), w)
           | (Inr _, w) \<Rightarrow>
               (case create_loop rt (gt_head_bytes g) 0 w of
                  (Inl e, w) \<Rightarrow> (Inl e, w)
                | (Inr _, w) \<Rightarrow>
                    (Inr \<lparr>st_table_id = table_id, st_table_version = 0, st_root_revision = 0,
                          st_semantic_state_sha256 = sc_semantic_state_sha256 (gt_commit g), st_current_snapshot_id = None\<rparr>, w))))"

section \<open>One genesis\<close>

text \<open>Before there is a head, the ledger of the other clients still only grows.\<close>

lemma keeps_ledger_growing:
  assumes "mem_ok s" "keeps_ledger x R a"
  shows "mem_ok (mem_exec x a s) \<and> ledger_kept x R s (mem_exec x a s)"
proof (cases "has_head s")
  case True
  then show ?thesis using keeps_ledger_exec [OF True assms(2)] by (simp add: has_head_def)
next
  case False
  then have "\<not> records x R s" using assms(1) by (simp add: has_head_def records_def head_version_def)
  then show ?thesis using mem_exec_ok [OF assms(1)] by (simp add: ledger_kept_def)
qed

interpretation growing: foreign_steps x "keeps_ledger x R" mem_ok "ledger_kept x R" for x R
proof unfold_locales
  fix s a k bs
  assume s: "mem_ok s"
  show "keeps_ledger x R a \<Longrightarrow> mem_ok (mem_exec x a s) \<and> ledger_kept x R s (mem_exec x a s)"
    using s by (rule keeps_ledger_growing)
  show "mem_ok (snd (mem_read x k s)) \<and> ledger_kept x R s (snd (mem_read x k s))"
    using s by (auto simp: mem_read_def Let_def ledger_kept_def records_def head_version_def)
  show "mem_ok (snd (create_bytes x k bs s)) \<and> ledger_kept x R s (snd (create_bytes x k bs s))"
    using s by (auto simp: create_bytes_eq mem_lookup_put mem_ok_put ledger_kept_def records_def head_version_def)
qed (auto simp: ledger_kept_def)

definition genesis_phase :: "externals \<Rightarrow> (object_version \<Rightarrow> bool) \<Rightarrow> nat \<Rightarrow> world \<Rightarrow> bool" where
  "genesis_phase x R a w = (fair (keeps_ledger x R) mem_ok w \<and> (writes w = a \<or> writes w = Suc a \<and> records x R (wd_store w)))"

abbreviation growing_quiet :: "externals \<Rightarrow> (object_version \<Rightarrow> bool) \<Rightarrow> world \<Rightarrow> world \<Rightarrow> bool" where
  "growing_quiet x R \<equiv> quiet (keeps_ledger x R) mem_ok (ledger_kept x R)"

lemma growing_phase:
  "growing_quiet x R w w' \<Longrightarrow> genesis_phase x R a w \<Longrightarrow>
     genesis_phase x R a w' \<and> writes w' = writes w \<and> (records x R (wd_store w) \<longrightarrow> records x R (wd_store w'))"
  by (auto simp: quiet_def genesis_phase_def writes_def ledger_kept_def)

lemma call_create_head_phase:
  assumes "call_create_head x bs w = (r, w')" "genesis_phase x R a w" "R (content_version x bs)"
  shows "genesis_phase x R a w' \<and> (\<forall>u. r = Applied u \<longrightarrow> records x R (wd_store w')) \<and> (\<forall>u. r = Conflict u \<longrightarrow> writes w' = writes w)"
proof -
  let ?u = "interfere x w"
  have u: "genesis_phase x R a ?u" "writes ?u = writes w" using growing_phase [OF growing.interfere_quiet assms(2)] by auto
  obtain r' s where c: "conditional x None bs (wd_store ?u) = (r', s)" by fastforce
  have w': "r = r'" "w' = ?u\<lparr>wd_store := s, wd_trace := wd_trace ?u @ [(wd_store ?u, r, s)]\<rparr>"
    using assms(1) c by (auto simp: call_create_head_def create_head_def Let_def)
  show ?thesis
  proof (cases rule: conditional_cases [of x None bs "wd_store ?u"])
    case before
    then show ?thesis using u c w' by (auto simp: genesis_phase_def fair_def writes_def took_effect_def records_def head_version_def)
  next
    case conflict
    then show ?thesis using u c w' by (auto simp: genesis_phase_def fair_def writes_def took_effect_def records_def head_version_def)
  next
    case (written q)
    then have "\<not> records x R (wd_store ?u)" by (auto simp: records_def head_version_def)
    then have "writes ?u = a" using u by (simp add: genesis_phase_def)
    moreover have "records x R s" "ms_next_revision s \<noteq> ms_next_revision (wd_store ?u)" "mem_ok s" "\<forall>u. r \<noteq> Conflict u"
      using written c assms(3) u w'
      by (auto simp: records_def head_version_def mem_lookup_put genesis_phase_def fair_def mem_ok_put put_object_revision)
    ultimately show ?thesis using u w' by (auto simp: genesis_phase_def fair_def writes_def took_effect_def)
  qed
qed

lemma read_head_phase:
  assumes "read_head x w = (r, w')" "genesis_phase x R a w"
  shows "genesis_phase x R a w' \<and> writes w' = writes w
    \<and> (\<forall>o'. r = Inr o' \<longrightarrow> R (content_version x (so_bytes o')) \<longrightarrow> records x R (wd_store w'))"
proof -
  have "genesis_phase x R a w' \<and> writes w' = writes w"
    using growing_phase [OF growing.read_quiet [OF assms(1) [unfolded read_head_def]] assms(2)] by simp
  moreover have "records x R (wd_store w')" if "r = Inr o'" "R (content_version x (so_bytes o'))" for o'
    using assms(1) that
    by (auto simp: read_head_def call_def Let_def mem_read_def records_def head_version_def mem_lookup_def result_simps
        split: prod.splits option.splits)
  ultimately show ?thesis by blast
qed

definition genesis_settled :: "externals \<Rightarrow> (object_version \<Rightarrow> bool) \<Rightarrow> nat \<Rightarrow> (runtime_error fault, 'r) result \<Rightarrow> world \<Rightarrow> bool" where
  "genesis_settled x R a r w =
     (genesis_phase x R a w
      \<and> (case r of
           Inr _ \<Rightarrow> records x R (wd_store w)
         | Inl (Fail e) \<Rightarrow> e \<noteq> PublicationIndeterminate \<and> e \<noteq> AlreadyExists \<longrightarrow> writes w = a
         | Inl Panicked \<Rightarrow> True))"

lemma create_loop_settled:
  assumes "create_loop rt bs n w = (r, w')" "genesis_phase (rt_ext rt) R a w" "R (content_version (rt_ext rt) bs)" "n = 0 \<Longrightarrow> writes w = a"
  shows "genesis_settled (rt_ext rt) R a r w'"
  using assms
proof (induction rt bs n w arbitrary: r w' rule: create_loop.induct)
  case (1 rt bs n w)
  let ?x = "rt_ext rt"
  obtain o1 w1 where c: "call_create_head ?x bs w = (o1, w1)" by fastforce
  obtain o2 w2 where r: "read_head ?x w1 = (o2, w2)" by fastforce
  note unfold = "1.prems"(1) [unfolded create_loop.simps [of rt bs n w] c]
  have p1: "genesis_phase ?x R a w1" "\<And>u. o1 = Applied u \<Longrightarrow> records ?x R (wd_store w1)" "\<And>u. o1 = Conflict u \<Longrightarrow> writes w1 = writes w"
    using call_create_head_phase [OF c "1.prems"(2,3)] by auto
  have p2: "genesis_phase ?x R a w2" "writes w2 = writes w1"
    "\<And>o'. o2 = Inr o' \<Longrightarrow> so_bytes o' = bs \<Longrightarrow> records ?x R (wd_store w2)"
    using read_head_phase [OF r p1(1)] "1.prems"(3) by auto
  show ?case
  proof (cases o1)
    case (Applied u)
    then show ?thesis using unfold p1 by (auto simp: genesis_settled_def)
  next
    case (Conflict u)
    have "n = 0 \<Longrightarrow> writes w2 = a" using p1(3) [OF Conflict] p2(2) "1.prems"(4) by simp
    then show ?thesis using unfold Conflict r p2(1,3)
      by (cases o2; cases "n = 0") (auto simp: genesis_settled_def word_neq_0_conv)
  next
    case (Indeterminate e)
    show ?thesis
    proof (cases "checked_add n 1")
      case None
      then show ?thesis using unfold Indeterminate p1 by (auto simp: genesis_settled_def)
    next
      case (Some m)
      have m: "m \<noteq> 0" using checked_Suc [OF Some] by simp
      show ?thesis
      proof (cases o2)
        case (Inr o')
        then show ?thesis using unfold Indeterminate Some r p2 by (auto simp: genesis_settled_def)
      next
        case (Inl e')
        show ?thesis
        proof (cases "m \<le> rp_maximum_indeterminate_reconciliations (rt_policy rt)")
          case True
          then have rec: "create_loop rt bs m w2 = (r, w')" using unfold Indeterminate Some r Inl by simp
          show ?thesis
            by (rule "1.IH" [OF c [symmetric] Indeterminate Some r [symmetric] Inl True rec p2(1) "1.prems"(3)]) (use m in simp)
        next
          case False
          then show ?thesis using unfold Indeterminate Some r Inl p2 by (auto simp: genesis_settled_def)
        qed
      qed
    qed
  qed
qed

text \<open>
  C36: a table is created at most once. Under every schedule of other clients that do not delete the head, and every pattern of
  lost answers, at most one head write of an initialization takes effect. A success means that the head is the new
  table or continues it; an error other than an indeterminate publication and an existing table means that nothing was
  written.
\<close>

theorem initialize_at_most_once:
  assumes "initialize rt create fresh table_id request w = (r, w')"
    and "fair (keeps_ledger (rt_ext rt) R) mem_ok w"
    and "\<And>g. genesis_objects rt create fresh table_id request = Inr g \<Longrightarrow> R (content_version (rt_ext rt) (gt_head_bytes g))"
  shows "(writes w' = writes w \<or> writes w' = Suc (writes w))
    \<and> (\<forall>status. r = Inr status \<longrightarrow> records (rt_ext rt) R (wd_store w') \<and> st_table_id status = table_id \<and> st_table_version status = 0)
    \<and> (\<forall>e. r = Inl (Fail e) \<longrightarrow> e \<noteq> PublicationIndeterminate \<longrightarrow> e \<noteq> AlreadyExists \<longrightarrow> writes w' = writes w)"
proof (cases "genesis_objects rt create fresh table_id request")
  case (Inl e)
  then show ?thesis using assms(1) by (auto simp: initialize_def)
next
  case (Inr g)
  let ?x = "rt_ext rt"
  obtain q u where q: "put_all ?x (genesis_uploads g) w = (q, u)" by fastforce
  have "genesis_phase ?x R (writes w) w" using assms(2) by (simp add: genesis_phase_def)
  then have u: "genesis_phase ?x R (writes w) u" "writes u = writes w"
    using growing_phase [OF growing.put_all_quiet [OF q]] by auto
  show ?thesis
  proof (cases q)
    case (Inl e)
    then show ?thesis using assms(1) Inr q u by (auto simp: initialize_def)
  next
    case q': (Inr _)
    obtain o' v where l: "create_loop rt (gt_head_bytes g) 0 u = (o', v)" by fastforce
    have "genesis_settled ?x R (writes w) o' v" by (rule create_loop_settled [OF l u(1) assms(3) [OF Inr]]) (simp add: u)
    then show ?thesis using assms(1) Inr q q' l
      by (cases o') (auto simp: initialize_def genesis_settled_def genesis_phase_def split: fault.splits)
  qed
qed

section \<open>The first table is one that readers accept\<close>

lemma built_index_valid: "build x c image_page_size bs = Inr (i, a) \<Longrightarrow> checkpoint_page_index_validate i c image_page_size = Inr ()"
  by (auto simp: build_def result_simps Let_def split: if_splits)

lemma obj_of_fields: "obj_of es = CObject (bt_extend [] es)"
  by (simp add: obj_of_def)

lemma zero_text: "parse_u64 ''0'' = Some 0" "show_nat 0 = ''0''"
proof -
  show z: "show_nat 0 = ''0''" by (simp add: show_nat.simps [of 0] digit_char_def char_of_def bit_iff_odd)
  show "parse_u64 ''0'' = Some 0" using parse_u64_show [of 0] by (simp add: z)
qed

lemma genesis_operation_valid:
  assumes "hex_laws (w_ext w)" "id_ok tid" "id_try_from_bytes (w_ext w) (id_as_bytes tid) = Inr tid"
    and "schema_from_value w v = Inr s" "schema_validate s = Inr ()"
  shows "operation_step w True tid ({}, {}) (initialize_operation (w_ext w) tid v) = Inr ({''initialize''}, {})"
    "is_initialize [initialize_operation (w_ext w) tid v]"
    "profile_operation w 0 (initialize_operation (w_ext w) tid v) = Inr 0"
proof -
  let ?m = "[(''operation_id'', CString ''initialize''), (''partition_spec_id'', CString ''0''), (''schema'', v), (''sort_order_id'', CString ''0''),
      (''table_id'', id_value (w_ext w) tid), (''target_ref'', CString ''main''), (''type'', CString ''initialize_table'')]"
  have op: "initialize_operation (w_ext w) tid v = CObject ?m"
    by (simp add: initialize_operation_def obj_of_fields bt_extend_def less_list_code less_char_def)
  have tid: "id_from_str (w_ext w) (id_to_string (w_ext w) tid) = Inr tid" by (rule id_from_to_string [OF assms(1,3,2)])
  have "id_to_string (w_ext w) tid \<noteq> []" by (simp add: id_to_string_def format_uuid_def Let_def)
  then have pid: "parse_id (w_ext w) ?m ''table_id'' ctx = Inr tid" for ctx
    by (simp add: parse_id_def require_nonempty_string_def bt_get_def id_value_def tid lift_def)
  have zero: "require_decimal_u64 ?m ''partition_spec_id'' ctx = Inr 0" "require_decimal_u64 ?m ''sort_order_id'' ctx = Inr 0" for ctx
    by (simp_all add: require_decimal_u64_def require_nonempty_string_def bt_get_def zero_text)
  have "validate_initialize_table w ?m tid = Inr ()"
    using assms(4,5)
    by (simp add: validate_initialize_table_def Let_def pid zero check_def lift_def)
      (simp add: require_exact_fields_def require_fields_def bt_get_def require_nonempty_string_def check_def)
  then show "operation_step w True tid ({}, {}) (initialize_operation (w_ext w) tid v) = Inr ({''initialize''}, {})"
    unfolding op by (simp add: operation_step_def operation_type_step_def bt_get_def)
  show "is_initialize [initialize_operation (w_ext w) tid v]" "profile_operation w 0 (initialize_operation (w_ext w) tid v) = Inr 0"
    unfolding op by (simp_all add: is_initialize_def bt_get_def profile_operation_def accepted_kind_def runtime_kinds_def)
qed


text \<open>The features that the runtime puts on a new table.\<close>

lemma runtime_features_supported:
  assumes "runtime_features = Inr fs"
  shows "require_supported fs supported_features = Inr ()"
  using assms by (auto simp: runtime_features_def feature_set_new_def result_simps require_supported_def supported_features_def)

lemma genesis_commit_Inr:
  assumes "genesis_commit rt fresh tid request now features = Inr c"
  obtains v bs c0 where "json_value (rt_wire rt) (schema_to_value (rt_ext rt) (iq_schema request)) = Inr v"
    "json_vec (rt_wire rt) (initialize_operation (rt_ext rt) tid v) = Inr bs"
    "c0 = \<lparr>sc_kind = ''otmp.semantic-commit'', sc_format_version = 1, sc_table_id = tid, sc_table_version = 0,
        sc_parent_table_version = None, sc_commit_id = fr_commit_id fresh, sc_parent_commit = None, sc_created_at_ms = now,
        sc_intents = [\<lparr>ir_key = ''otmp.genesis'', ir_intent_sha256 = intent_hash (rt_ext rt) bs,
          ir_operation_ids = [''initialize''], ir_result = genesis_result\<rparr>],
        sc_requirements = [], sc_operations = [initialize_operation (rt_ext rt) tid v],
        sc_required_reader_features_after_commit = features, sc_required_writer_features_after_commit = features,
        sc_previous_semantic_state_sha256 = None, sc_semantic_state_sha256 = zero_sha,
        sc_metadata = CObject (iq_metadata request)\<rparr>"
    "\<exists>body. commit_body (rt_wire rt) c0 = Inr body \<and> c = c0\<lparr>sc_semantic_state_sha256 := genesis_state_hash (rt_ext rt) body\<rparr>"
  using assms by (auto simp: genesis_commit_def Let_def and_then_eq_Inr)

lemma genesis_commit_valid:
  assumes "genesis_commit rt fresh tid request now features = Inr c"
    and x: "hex_laws (rt_ext rt)" "id_ok tid" "id_try_from_bytes (rt_ext rt) (id_as_bytes tid) = Inr tid"
    and schema: "\<And>v. json_value (rt_wire rt) (schema_to_value (rt_ext rt) (iq_schema request)) = Inr v \<Longrightarrow>
      schema_from_value (rt_wire rt) v = Inr (iq_schema request)" "schema_validate (iq_schema request) = Inr ()"
    and body: "body_excludes_state (rt_wire rt)"
  shows "commit_validate_runtime_profile (rt_wire rt) c = Inr ()" "recomputed_state (rt_wire rt) c = Inr (sc_semantic_state_sha256 c)"
    "sc_table_id c = tid" "sc_table_version c = 0" "sc_required_reader_features_after_commit c = features"
    "sc_required_writer_features_after_commit c = features"
proof -
  obtain v bs c0 bd where v: "json_value (rt_wire rt) (schema_to_value (rt_ext rt) (iq_schema request)) = Inr v"
    and c0: "c0 = \<lparr>sc_kind = ''otmp.semantic-commit'', sc_format_version = 1, sc_table_id = tid, sc_table_version = 0,
        sc_parent_table_version = None, sc_commit_id = fr_commit_id fresh, sc_parent_commit = None, sc_created_at_ms = now,
        sc_intents = [\<lparr>ir_key = ''otmp.genesis'', ir_intent_sha256 = intent_hash (rt_ext rt) bs,
          ir_operation_ids = [''initialize''], ir_result = genesis_result\<rparr>],
        sc_requirements = [], sc_operations = [initialize_operation (rt_ext rt) tid v],
        sc_required_reader_features_after_commit = features, sc_required_writer_features_after_commit = features,
        sc_previous_semantic_state_sha256 = None, sc_semantic_state_sha256 = zero_sha,
        sc_metadata = CObject (iq_metadata request)\<rparr>"
    and bd: "commit_body (rt_wire rt) c0 = Inr bd" "c = c0\<lparr>sc_semantic_state_sha256 := genesis_state_hash (rt_ext rt) bd\<rparr>"
    by (rule genesis_commit_Inr [OF assms(1)]) blast
  note op = genesis_operation_valid [OF x schema(1) [OF v] schema(2)]
  have "commit_validate (rt_wire rt) c = Inr ()"
    by (simp add: commit_validate_def bd(2) c0 parent_shape_def check_def is_object_def validate_operations_def op
        intent_step_def reference_step_def Let_def)
  then show "commit_validate_runtime_profile (rt_wire rt) c = Inr ()"
    by (simp add: commit_validate_runtime_profile_def bd(2) c0 op check_def)
  have "commit_body (rt_wire rt) c = Inr bd" using body bd by (simp add: body_excludes_state_def)
  then show "recomputed_state (rt_wire rt) c = Inr (sc_semantic_state_sha256 c)"
    by (simp add: recomputed_state_def bd(2) c0)
  show "sc_table_id c = tid" "sc_table_version c = 0" "sc_required_reader_features_after_commit c = features"
    "sc_required_writer_features_after_commit c = features" by (simp_all add: bd(2) c0)
qed

text \<open>
  C37: a new table is one that readers pin. The code publishes the genesis objects without validating them; still the head, commit and
  generation pass the checks between objects, each reference names the exact bytes uploaded, the table has
  version and revision zero and no parent, and the page index fits the checkpoint. The schema must survive its own JSON form.
\<close>

theorem genesis_accepted:
  assumes "genesis_objects rt create fresh tid request = Inr g"
    and "hex_laws (rt_ext rt)" "id_ok tid" "id_try_from_bytes (rt_ext rt) (id_as_bytes tid) = Inr tid"
    and "\<And>v. json_value (rt_wire rt) (schema_to_value (rt_ext rt) (iq_schema request)) = Inr v \<Longrightarrow>
      schema_from_value (rt_wire rt) v = Inr (iq_schema request)"
    and "body_excludes_state (rt_wire rt)"
  shows "check_pin_objects rt (gt_head g) (gt_commit g) (gt_generation g) = Inr ()
    \<and> json_vec (rt_wire rt) (head_to_value (rt_ext rt) (gt_head g)) = Inr (gt_head_bytes g)
    \<and> json_vec (rt_wire rt) (commit_to_value (rt_ext rt) (gt_commit g)) = Inr (gt_commit_bytes g)
    \<and> json_vec (rt_wire rt) (generation_to_value (rt_ext rt) (gt_generation g)) = Inr (gt_generation_bytes g)
    \<and> named_by (rt_ext rt) (h_semantic_commit (gt_head g)) (gt_commit_uri g) (gt_commit_bytes g) COMMIT_MEDIA_TYPE
    \<and> named_by (rt_ext rt) (h_metadata_generation (gt_head g)) (gt_generation_uri g) (gt_generation_bytes g) GENERATION_MEDIA_TYPE
    \<and> h_table_id (gt_head g) = tid \<and> h_table_version (gt_head g) = 0 \<and> h_root_revision (gt_head g) = 0
    \<and> sc_parent_commit (gt_commit g) = None \<and> g_physical_parent (gt_generation g) = None
    \<and> map ir_key (sc_intents (gt_commit g)) = [''otmp.genesis'']"
proof -
  let ?x = "rt_ext rt"
  from assms(1) obtain now features c commit_bytes commit_uri checkpoint_uri idx arts generation_bytes generation_uri head_bytes
    and img :: checkpoint_image where
    schema: "schema_validate (iq_schema request) = Inr ()" and feats: "runtime_features = Inr features"
    and c: "genesis_commit rt fresh tid request now features = Inr c"
    and cb: "json_vec (rt_wire rt) (commit_to_value ?x c) = Inr commit_bytes"
    and idx: "build ?x \<lparr>cp_table_version = 0, cp_uri = checkpoint_uri, cp_sha256 = object_hash ?x (cki_bytes img),
        cp_length = u64_of_usize (length (cki_bytes img))\<rparr> image_page_size (cki_bytes img) = Inr (idx, arts)"
    and gb: "json_vec (rt_wire rt) (generation_to_value ?x (genesis_generation rt fresh c
        (object_reference_of commit_uri (object_hash ?x commit_bytes) (u64_of_usize (length commit_bytes)) COMMIT_MEDIA_TYPE)
        (cki_page_count img) \<lparr>cp_table_version = 0, cp_uri = checkpoint_uri, cp_sha256 = object_hash ?x (cki_bytes img),
        cp_length = u64_of_usize (length (cki_bytes img))\<rparr> idx)) = Inr generation_bytes"
    and hb: "json_vec (rt_wire rt) (head_to_value ?x (genesis_head c features
        (object_reference_of commit_uri (object_hash ?x commit_bytes) (u64_of_usize (length commit_bytes)) COMMIT_MEDIA_TYPE)
        (object_reference_of generation_uri (object_hash ?x generation_bytes) (u64_of_usize (length generation_bytes)) GENERATION_MEDIA_TYPE)))
        = Inr head_bytes"
    and g: "g = \<lparr>gt_commit = c, gt_generation = genesis_generation rt fresh c
          (object_reference_of commit_uri (object_hash ?x commit_bytes) (u64_of_usize (length commit_bytes)) COMMIT_MEDIA_TYPE)
          (cki_page_count img) \<lparr>cp_table_version = 0, cp_uri = checkpoint_uri, cp_sha256 = object_hash ?x (cki_bytes img),
          cp_length = u64_of_usize (length (cki_bytes img))\<rparr> idx,
        gt_head = genesis_head c features
          (object_reference_of commit_uri (object_hash ?x commit_bytes) (u64_of_usize (length commit_bytes)) COMMIT_MEDIA_TYPE)
          (object_reference_of generation_uri (object_hash ?x generation_bytes) (u64_of_usize (length generation_bytes)) GENERATION_MEDIA_TYPE),
        gt_commit_uri = commit_uri, gt_commit_bytes = commit_bytes, gt_checkpoint_uri = checkpoint_uri,
        gt_checkpoint_bytes = cki_bytes img, gt_artifacts = arts, gt_generation_uri = generation_uri,
        gt_generation_bytes = generation_bytes, gt_head_bytes = head_bytes\<rparr>"
    by (auto simp: genesis_objects_def Let_def and_then_eq_Inr map_err_eq_Inr split: if_splits prod.splits)
  note valid = genesis_commit_valid [OF c assms(2-4) assms(5) schema assms(6)]
  have parents: "sc_parent_commit c = None" "map ir_key (sc_intents c) = [''otmp.genesis'']"
    by (rule genesis_commit_Inr [OF c]; force)+
  note ok = runtime_features_supported [OF feats]
  have "check_pin_objects rt (gt_head g) (gt_commit g) (gt_generation g) = Inr ()"
    unfolding pin_objects_Inr g using valid ok built_index_valid [OF idx]
    by (simp add: genesis_head_def genesis_generation_def validate_head_features_def head_validate_def object_reference_of_def
        PROTOCOL_def PROTOCOL_VERSION_def generation_validate_runtime_profile_def Let_def SQLITE_COW_FEATURE_def image_page_size_def)
  then show ?thesis using cb gb hb valid parents
    by (simp add: g named_by_def) (simp add: genesis_head_def genesis_generation_def)
qed

section \<open>A sample table\<close>

definition gen_request :: initialize_request where
  "gen_request = initialize_request_new sample_schema"

definition gen_runtime :: runtime where
  "gen_runtime = tbl_runtime\<lparr>rt_wire := tbl_wire\<lparr>w_schema := (\<lambda>_. Inr sample_schema)\<rparr>\<rparr>"

definition gen_create :: "genesis_image \<Rightarrow> (runtime_error, checkpoint_image) result" where
  "gen_create gi = Inr cand_img"

lemma gen_runtime_simps [simp]: "w_ext (rt_wire gen_runtime) = sample_externals" "w_serde (rt_wire gen_runtime) = tbl_serde"
  "w_schema (rt_wire gen_runtime) = (\<lambda>_. Inr sample_schema)"
  by (simp_all add: gen_runtime_def)

lemma gen_schema_valid: "schema_validate sample_schema = Inr ()"
  by code_simp

lemma gen_json: "json_value (rt_wire gen_runtime) v = Inr (CObject [])" "json_vec (rt_wire gen_runtime) v = Inr tbl_bytes"
  "commit_body (rt_wire gen_runtime) c = Inr tbl_bytes" "canonical_text (rt_wire gen_runtime) bad v = Inr (string_of_bytes tbl_bytes)"
proof -
  have "utf8_valid tbl_bytes" by code_simp
  then show "json_value (rt_wire gen_runtime) v = Inr (CObject [])" "json_vec (rt_wire gen_runtime) v = Inr tbl_bytes"
    "commit_body (rt_wire gen_runtime) c = Inr tbl_bytes" "canonical_text (rt_wire gen_runtime) bad v = Inr (string_of_bytes tbl_bytes)"
    by (simp_all add: json_value_def json_vec_def to_vec_def commit_body_def canonical_text_def tbl_to_value tbl_encode bt_remove_def)
qed

lemma gen_excludes: "body_excludes_state (rt_wire gen_runtime)"
  by (simp add: body_excludes_state_def gen_json)

lemma gen_schema_survives: "schema_from_value (rt_wire gen_runtime) (CObject []) = Inr sample_schema"
  by (simp add: schema_from_value_def to_vec_def tbl_to_value tbl_encode from_slice_def tbl_parses lift_def)

lemma gen_uris:
  "\<exists>u. versioned_uri sample_externals ''commits'' 0 sample_id ''.json'' = Inr u"
  "\<exists>u. versioned_uri sample_externals ''generations'' 0 sample_id ''.json'' = Inr u"
  "\<exists>u. versioned_uri sample_externals ''checkpoints'' 0 sample_id ''.sqlite3'' = Inr u"
  by (simp_all add: versioned_uri_def uri_from_str_def zero_text sample_id_text uri_safe_def starts_with_def)

lemma gen_features: "\<exists>fs. runtime_features = Inr fs"
proof -
  have "runtime_features = Inr (FeatureSet [CORE_FEATURE, PARQUET_FEATURE, SQLITE_COW_FEATURE, ''otmp.refs.v1''])" by code_simp
  then show ?thesis by blast
qed

lemma gen_exists: "\<exists>g. genesis_objects gen_runtime gen_create cand_fresh sample_id gen_request = Inr g \<and> gt_head_bytes g = tbl_bytes"
proof -
  obtain u1 u2 u3 where u: "versioned_uri sample_externals ''commits'' 0 sample_id ''.json'' = Inr u1"
    "versioned_uri sample_externals ''generations'' 0 sample_id ''.json'' = Inr u2"
    "versioned_uri sample_externals ''checkpoints'' 0 sample_id ''.sqlite3'' = Inr u3" using gen_uris by blast
  obtain fs where fs: "runtime_features = Inr fs" using gen_features by blast
  have len: "length sample_image_bytes = 4096" by (simp add: sample_image_facts)
  let ?cp = "\<lparr>cp_table_version = 0, cp_uri = u3, cp_sha256 = object_hash sample_externals sample_image_bytes,
      cp_length = u64_of_usize (length sample_image_bytes)\<rparr>"
  have f: "image_page_size \<noteq> 0" "unat image_page_size dvd length sample_image_bytes" "sample_image_bytes \<noteq> []"
    "length sample_image_bytes < 2 ^ 63"
    using len by (auto simp: image_page_size_def)
  obtain idx arts where b: "build sample_externals ?cp image_page_size sample_image_bytes = Inr (idx, arts)"
    by (rule build_ok [OF sample_laws f, of ?cp]) (simp, simp, blast)
  obtain c where c: "genesis_commit gen_runtime cand_fresh sample_id gen_request 0 fs = Inr c"
    by (simp add: genesis_commit_def gen_json Let_def)
  have s: "iq_schema gen_request = sample_schema" "sch_schema_id sample_schema = 1" "sch_parent_schema_id sample_schema = None"
    "fr_now_ms cand_fresh = Inr 0" "fr_commit_id cand_fresh = sample_id" "fr_checkpoint_id cand_fresh = sample_id"
    "fr_generation_id cand_fresh = sample_id" "cki_bytes cand_img = sample_image_bytes"
    by (simp_all add: gen_request_def initialize_request_new_def sample_schema_def cand_fresh_def cand_img_def)
  show ?thesis
    by (simp add: genesis_objects_def Let_def s gen_schema_valid fs c gen_json u first_image_def gen_create_def b)
qed

theorem genesis_accepted_witness:
  "\<exists>g. genesis_objects gen_runtime gen_create cand_fresh sample_id gen_request = Inr g
    \<and> check_pin_objects gen_runtime (gt_head g) (gt_commit g) (gt_generation g) = Inr () \<and> h_table_id (gt_head g) = sample_id"
proof -
  obtain g where g: "genesis_objects gen_runtime gen_create cand_fresh sample_id gen_request = Inr g" using gen_exists by blast
  have "hex_laws (rt_ext gen_runtime)" using sample_laws by simp
  moreover have "schema_from_value (rt_wire gen_runtime) v = Inr (iq_schema gen_request)"
    if "json_value (rt_wire gen_runtime) (schema_to_value (rt_ext gen_runtime) (iq_schema gen_request)) = Inr v" for v
    using that by (auto simp: gen_json gen_schema_survives gen_request_def initialize_request_new_def)
  ultimately show ?thesis using genesis_accepted [OF g _ sample_id_ok(1) sample_id_ok(2) _ gen_excludes] g by blast
qed


text \<open>An empty store without other clients.\<close>

definition gen_world :: world where
  "gen_world = \<lparr>wd_store = memory_default, wd_env = [], wd_trace = []\<rparr>"

theorem initialize_at_most_once_witness:
  "writes (snd (initialize gen_runtime gen_create cand_fresh sample_id gen_request gen_world)) \<le> 1"
proof -
  let ?R = "\<lambda>v. v = content_version sample_externals tbl_bytes"
  have fair: "fair (keeps_ledger (rt_ext gen_runtime) ?R) mem_ok gen_world" by (simp add: fair_def gen_world_def)
  have head: "?R (content_version (rt_ext gen_runtime) (gt_head_bytes g))"
    if "genesis_objects gen_runtime gen_create cand_fresh sample_id gen_request = Inr g" for g
    using gen_exists that by auto
  obtain r w where i: "initialize gen_runtime gen_create cand_fresh sample_id gen_request gen_world = (r, w)" by fastforce
  have "writes gen_world = 0" by (simp add: writes_def gen_world_def)
  then show ?thesis using initialize_at_most_once [where R = ?R, OF i fair head] i by auto
qed

text \<open>
  The answer to the creation of the head may be lost after it took effect, and another client may extend the new table before the
  reconciliation reads the head. The creator then reports that the table existed before, although it is its own.
\<close>

definition raced_world :: world where
  "raced_world = \<lparr>wd_store = memory_default\<lparr>ms_conditional_outcomes := [IndeterminateAfter]\<rparr>,
     wd_env = [[], [DoConditional (Some (content_version sample_externals [1])) [2]]], wd_trace = []\<rparr>"

lemma lost_genesis_reported_as_existing:
  "fst (create_loop gen_runtime [1] 0 raced_world) = Inl (Fail AlreadyExists) \<and> writes (snd (create_loop gen_runtime [1] 0 raced_world)) = 1"
proof -
  let ?s = "\<lambda>bs n k. \<lparr>ms_objects = [(head_key, \<lparr>mo_bytes = bs, mo_revision = n\<rparr>)], ms_next_revision = n, ms_conditional_outcomes = [],
    ms_reads = k, ms_listings = 0\<rparr> :: memory_state"
  let ?e = "[(memory_default\<lparr>ms_conditional_outcomes := [IndeterminateAfter]\<rparr>, Indeterminate (Injected ''after conditional write''), ?s [1] 1 0)]"
  let ?w = "\<lparr>wd_store = ?s [1] 1 0, wd_env = [[DoConditional (Some (content_version sample_externals [1])) [2]]], wd_trace = ?e\<rparr>"
  have create: "call_create_head sample_externals [1] raced_world = (Indeterminate (Injected ''after conditional write''), ?w)"
    by (simp add: raced_world_def call_create_head_def interfere_def create_head_def conditional_def Let_def bt_get_def memory_default_def put_object_def)
  have race: "mem_exec sample_externals (DoConditional (Some (content_version sample_externals [1])) [2]) (?s [1] 1 0) = ?s [2] 2 0"
    by (simp add: conditional_def Let_def bt_get_def put_object_def)
  have read: "read_head sample_externals ?w = (Inr \<lparr>so_bytes = [2], so_version = content_version sample_externals [2]\<rparr>,
      \<lparr>wd_store = ?s [2] 2 1, wd_env = [], wd_trace = ?e\<rparr>)"
    unfolding read_head_def call_def interfere_def
    by (simp only: world.select_convs list.case fold_simps race world.update_convs Let_def)
      (simp add: mem_read_def Let_def bt_get_def ok_or_def uri_as_str_def)
  have add: "checked_add (0 :: u32) 1 = Some 1" by (simp add: checked_add_def)
  have "create_loop gen_runtime [1] 0 raced_world = (Inl (Fail AlreadyExists), \<lparr>wd_store = ?s [2] 2 1, wd_env = [], wd_trace = ?e\<rparr>)"
    by (subst create_loop.simps) (simp add: create read add)
  then show ?thesis by (simp add: writes_def took_effect_def memory_default_def)
qed

end
