(* ===== verification/Replay.thy ===== *)
theory Replay
  imports Genesis
begin

text \<open>
  Replaying commits, the functions of \<^verbatim>\<open>otmp/src/image.rs\<close> with which the history is verified: the image a genesis commit, an append
  or a metadata transaction leads to, and the comparison of two images row by row. The verifier runs the statements
  with SQLite while the writer runs them with Turso; both engines and the queries are the record \<open>replay_calls\<close>. What is modelled is
  how the values handed to the engine are found again in the commit, and the theorems show that they are
  those the writer used.
\<close>

section \<open>Data\<close>

record projected_metric =
  jm_field_id :: u64
  jm_column_size_bytes :: "u64 option"
  jm_value_count :: "u64 option"
  jm_null_count :: "u64 option"
  jm_nan_count :: "u64 option"
  jm_distinct_count :: "u64 option"
  jm_lower_bound :: "typed_scalar option"
  jm_upper_bound :: "typed_scalar option"
  jm_metadata :: canonical_value

record projected_file =
  jf_file_id :: id
  jf_uri :: string
  jf_object_identity :: "string option"
  jf_file_format :: string
  jf_file_size_bytes :: u64
  jf_record_count :: u64
  jf_schema_id :: u64
  jf_partition_spec_id :: u64
  jf_sort_order_id :: u64
  jf_content_sha256 :: sha256
  jf_partition_values :: "(u32, typed_scalar) btree"
  jf_metrics :: "projected_metric list"
  jf_metadata :: canonical_value

record projected_snapshot =
  js_snapshot_id :: id
  js_parent_snapshot_id :: "id option"
  js_sequence_number :: u64
  js_schema_id :: u64
  js_partition_spec_id :: u64
  js_sort_order_id :: u64
  js_operation :: string
  js_summary :: canonical_value
  js_metadata :: canonical_value

record projected_commit =
  jc_operation_id :: string
  jc_operation_type :: string
  jc_target_ref :: string
  jc_snapshot :: projected_snapshot
  jc_added_files :: "projected_file list"
  jc_removed_file_ids :: "id list"
  jc_scan_projection :: canonical_value
  jc_rebase_mode :: string

record replay_calls =
  rc_snapshot_json :: "byte list \<Rightarrow> (string, projected_commit) result"
  rc_requirement_json :: "byte list \<Rightarrow> (string, requirement) result"
  rc_operation_json :: "byte list \<Rightarrow> (string, operation_request) result"
  rc_metadata_json :: "byte list \<Rightarrow> (string, members) result"
  rc_create_genesis :: "genesis_image \<Rightarrow> (runtime_error, checkpoint_image) result"
  rc_apply_append :: "byte list \<Rightarrow> append_image \<Rightarrow> (runtime_error, checkpoint_image) result"
  rc_apply_metadata :: "byte list \<Rightarrow> semantic_commit \<Rightarrow> relative_uri \<Rightarrow> operation_request list \<Rightarrow> (runtime_error, checkpoint_image) result"
  rc_table_version :: "byte list \<Rightarrow> (runtime_error, i64) result"
  rc_commit_uri :: "byte list \<Rightarrow> byte list \<Rightarrow> (runtime_error, string) result"
  rc_table_names :: "byte list \<Rightarrow> (runtime_error, string list) result"
  rc_table_rows :: "byte list \<Rightarrow> string \<Rightarrow> (runtime_error, string list) result"

section \<open>Reading the parts of a commit\<close>

text \<open>\<^verbatim>\<open>from_slice_canonical(&to_vec(value)?)?\<close>.\<close>

definition reread :: "wire \<Rightarrow> (byte list \<Rightarrow> (string, 'a) result) \<Rightarrow> canonical_value \<Rightarrow> (runtime_error, 'a) result" where
  "reread w typed v = and_then (json_vec w v) (\<lambda>bs. map_err ProtocolErr (from_slice_canonical (w_serde w) (w_ext w) typed bs))"

definition to_u32 :: "u64 \<Rightarrow> string \<Rightarrow> (runtime_error, u32) result" where
  "to_u32 v message = ok_or (Corrupt message) (u32_try_from v)"

text \<open>Indexing the first element of an empty vector panics.\<close>

definition first_of :: "'a list \<Rightarrow> (runtime_error fault, 'a) result" where
  "first_of vs = (case vs of [] \<Rightarrow> Inl Panicked | v # _ \<Rightarrow> Inr v)"

definition replay_genesis :: "runtime \<Rightarrow> replay_calls \<Rightarrow> semantic_commit \<Rightarrow> relative_uri \<Rightarrow> (runtime_error fault, checkpoint_image) result" where
  "replay_genesis rt rc commit uri =
     (let text = (\<lambda>v. lift (canonical_text (rt_wire rt) (rt_utf8_error rt) v)) in
      if sc_table_version commit \<noteq> 0 then Inl (Fail (Corrupt ''missing retained genesis commit''))
      else
        and_then (first_of (sc_operations commit)) (\<lambda>operation.
        case operation of
          CObject m \<Rightarrow>
            and_then (lift (ok_or (Corrupt ''missing genesis schema'') (bt_get m ''schema''))) (\<lambda>v.
            and_then (lift (reread (rt_wire rt) (w_schema (rt_wire rt)) v)) (\<lambda>schema.
            and_then (lift (json_vec (rt_wire rt) (commit_to_value (rt_ext rt) commit))) (\<lambda>commit_bytes.
            and_then (text (CArray (sc_operations commit))) (\<lambda>operation_json.
            and_then (first_of (sc_intents commit)) (\<lambda>intent.
            and_then (text (ir_result intent)) (\<lambda>result_json.
            and_then (text (sc_metadata commit)) (\<lambda>metadata_json.
            and_then (text (features_value (sc_required_reader_features_after_commit commit))) (\<lambda>readers.
            and_then (text (features_value (sc_required_writer_features_after_commit commit))) (\<lambda>writers.
              lift (rc_create_genesis rc (genesis_image_of schema commit (ir_intent_sha256 intent) (object_hash (rt_ext rt) commit_bytes)
                (uri_as_str uri) operation_json result_json metadata_json readers writers)))))))))))
        | _ \<Rightarrow> Inl (Fail (Corrupt ''invalid genesis''))))"

definition replay_metric :: "runtime \<Rightarrow> projected_metric \<Rightarrow> (runtime_error, image_metric) result" where
  "replay_metric rt m =
     and_then (to_u32 (jm_field_id m) ''field ID overflow'') (\<lambda>field_id.
     and_then (canonical_text (rt_wire rt) (rt_utf8_error rt) (jm_metadata m)) (\<lambda>metadata.
       Inr \<lparr>im_field_id = field_id, im_column_size_bytes = jm_column_size_bytes m, im_value_count = jm_value_count m,
            im_null_count = jm_null_count m, im_nan_count = jm_nan_count m, im_distinct_count = jm_distinct_count m,
            im_lower_bound_cbor = map_option encode_typed_scalar (jm_lower_bound m),
            im_upper_bound_cbor = map_option encode_typed_scalar (jm_upper_bound m), im_metadata_json = metadata\<rparr>))"

definition replay_file :: "runtime \<Rightarrow> projected_file \<Rightarrow> (runtime_error, image_file) result" where
  "replay_file rt f =
     (let cbor = encode_partition_tuple (jf_partition_values f) in
      and_then (to_u32 (jf_schema_id f) ''schema ID overflow'') (\<lambda>schema_id.
      and_then (canonical_text (rt_wire rt) (rt_utf8_error rt) (jf_metadata f)) (\<lambda>metadata.
      and_then (try_map (replay_metric rt) (jf_metrics f)) (\<lambda>metrics.
        Inr \<lparr>if_file_id = jf_file_id f, if_uri = jf_uri f, if_format = Parquet, if_file_size_bytes = jf_file_size_bytes f,
             if_record_count = jf_record_count f, if_schema_id = schema_id, if_partition_spec_id = 0, if_sort_order_id = 0,
             if_partition_values_cbor = cbor, if_partition_hash = partition_hash (rt_ext rt) 0 cbor,
             if_content_sha256 = jf_content_sha256 f, if_metrics = metrics, if_metadata_json = metadata\<rparr>))))"

definition replay_append :: "runtime \<Rightarrow> replay_calls \<Rightarrow> byte list \<Rightarrow> semantic_commit \<Rightarrow> relative_uri
    \<Rightarrow> (runtime_error fault, checkpoint_image) result" where
  "replay_append rt rc parent commit uri =
     (let text = (\<lambda>v. lift (canonical_text (rt_wire rt) (rt_utf8_error rt) v)) in
      and_then (first_of (sc_operations commit)) (\<lambda>v.
      and_then (lift (reread (rt_wire rt) (rc_snapshot_json rc) v)) (\<lambda>operation.
      and_then (lift (try_map (replay_file rt) (jc_added_files operation))) (\<lambda>image_files.
      case js_summary (jc_snapshot operation) of
        CObject summary \<Rightarrow>
          and_then (lift (json_vec (rt_wire rt) (commit_to_value (rt_ext rt) commit))) (\<lambda>commit_bytes.
          and_then (text (CArray (sc_operations commit))) (\<lambda>operation_json.
          and_then (first_of (sc_intents commit)) (\<lambda>intent.
          and_then (text (ir_result intent)) (\<lambda>result_json.
          and_then (text (sc_metadata commit)) (\<lambda>commit_metadata_json.
          and_then (text (js_metadata (jc_snapshot operation))) (\<lambda>snapshot_metadata_json.
            lift (rc_apply_append rc parent
              \<lparr>ai_table_version = sc_table_version commit, ai_created_at_ms = sc_created_at_ms commit,
               ai_semantic_state = sc_semantic_state_sha256 commit, ai_commit_id = sc_commit_id commit,
               ai_commit_hash = object_hash (rt_ext rt) commit_bytes, ai_commit_uri = uri_as_str uri,
               ai_operation_json = operation_json, ai_result_json = result_json,
               ai_commit_metadata_json = commit_metadata_json, ai_idempotency_key = ir_key intent,
               ai_intent_hash = ir_intent_sha256 intent, ai_snapshot_id = js_snapshot_id (jc_snapshot operation),
               ai_parent_snapshot_id = js_parent_snapshot_id (jc_snapshot operation), ai_target_ref = jc_target_ref operation,
               ai_sequence_number = js_sequence_number (jc_snapshot operation), ai_summary = summary,
               ai_snapshot_metadata_json = snapshot_metadata_json, ai_files = image_files\<rparr>)))))))
      | _ \<Rightarrow> Inl (Fail (Corrupt ''invalid summary''))))))"

definition commit_is_append :: "canonical_value \<Rightarrow> bool" where
  "commit_is_append v = (case v of CObject m \<Rightarrow> bt_get m ''type'' = Some (CString ''commit_snapshot'') | _ \<Rightarrow> False)"

text \<open>The branch of \<^verbatim>\<open>replay_semantic_commit\<close> for metadata transactions.\<close>

definition replay_transaction :: "runtime \<Rightarrow> replay_calls \<Rightarrow> connection \<Rightarrow> byte list \<Rightarrow> semantic_commit \<Rightarrow> relative_uri \<Rightarrow> requirement list
    \<Rightarrow> (runtime_error fault, checkpoint_image) result" where
  "replay_transaction rt rc previous parent commit uri requirements =
     and_then (lift (try_map (reread (rt_wire rt) (rc_operation_json rc)) (sc_operations commit))) (\<lambda>operations.
     and_then (first_of (sc_intents commit)) (\<lambda>intent.
     and_then (lift (reread (rt_wire rt) (rc_metadata_json rc) (sc_metadata commit))) (\<lambda>metadata.
     let request = \<lparr>tr_idempotency_key = ir_key intent, tr_requirements = requirements, tr_operations = operations,
           tr_commit_metadata = metadata\<rparr> in
     and_then (lift (prepare_operations previous request)) (\<lambda>results.
     let durable = \<lparr>dr_table_version = sc_table_version commit, dr_commit_id = sc_commit_id commit, dr_operation_results = results\<rparr> in
     and_then (lift (json_value (rt_wire rt) (durable_result_to_value (rt_ext rt) durable))) (\<lambda>v.
     if v \<noteq> ir_result intent then Inl (Fail (Corrupt ''durable metadata result differs from operations''))
     else lift (rc_apply_metadata rc parent commit uri operations))))))"

definition replay_semantic_commit :: "runtime \<Rightarrow> replay_calls \<Rightarrow> byte list \<Rightarrow> semantic_commit \<Rightarrow> relative_uri
    \<Rightarrow> (runtime_error fault, checkpoint_image) result" where
  "replay_semantic_commit rt rc parent commit uri =
     and_then (lift (db_open (rt_db rt) parent)) (\<lambda>previous.
     and_then (lift (rc_table_version rc parent)) (\<lambda>version.
     if \<not> (sint version + 1 < 2 ^ 63 \<and> sint version + 1 = uint (sc_table_version commit))
     then Inl (Fail (Corrupt ''retained semantic version gap''))
     else
       and_then (lift (try_map (reread (rt_wire rt) (rc_requirement_json rc)) (sc_requirements commit))) (\<lambda>requirements.
       and_then (lift (evaluate previous requirements)) (\<lambda>_.
       and_then (first_of (sc_operations commit)) (\<lambda>operation.
       if commit_is_append operation then replay_append rt rc parent commit uri
       else replay_transaction rt rc previous parent commit uri requirements)))))"

section \<open>Comparing images\<close>

definition logical_rows :: "replay_calls \<Rightarrow> byte list \<Rightarrow> (runtime_error, (string, string list) btree) result" where
  "logical_rows rc img =
     and_then (rc_table_names rc img) (\<lambda>names.
       try_fold (\<lambda>tables name. and_then (rc_table_rows rc img name) (\<lambda>rows. Inr (bt_insert name (sort rows) tables))) [] names)"

definition compare_logical_images :: "replay_calls \<Rightarrow> byte list \<Rightarrow> byte list \<Rightarrow> (runtime_error, unit) result" where
  "compare_logical_images rc a b =
     and_then (logical_rows rc a) (\<lambda>ra.
     and_then (logical_rows rc b) (\<lambda>rb.
     if ra \<noteq> rb then Inl (Corrupt ''retained commit does not explain relational transition'') else Inr ()))"

definition validate_transition :: "runtime \<Rightarrow> replay_calls \<Rightarrow> byte list \<Rightarrow> byte list \<Rightarrow> semantic_commit \<Rightarrow> (runtime_error fault, unit) result" where
  "validate_transition rt rc parent selected commit =
     and_then (lift (db_open (rt_db rt) parent)) (\<lambda>_.
     and_then (lift (rc_table_version rc parent)) (\<lambda>version.
     if sint version = uint (sc_table_version commit) then lift (compare_logical_images rc parent selected)
     else
       and_then (lift (db_open (rt_db rt) selected)) (\<lambda>_.
       and_then (lift (rc_commit_uri rc selected (id_as_bytes (sc_commit_id commit)))) (\<lambda>uri.
       and_then (lift (map_err ProtocolErr (uri_from_str uri))) (\<lambda>uri.
       and_then (replay_semantic_commit rt rc parent commit uri) (\<lambda>expected.
         lift (compare_logical_images rc (cki_bytes expected) selected)))))))"

section \<open>A replay hands the engine what the writer handed it\<close>

lemma first_of_simps [simp]: "first_of (v # vs) = Inr v" by (simp add: first_of_def)

lemma lift_Inr [simp]: "lift (Inr v) = Inr v" by (simp add: lift_def)

lemma bt_get_obj_of:
  "operation = obj_of es \<Longrightarrow> \<exists>m. operation = CObject m \<and> (\<forall>k. bt_get m k = map_of (rev es) k)"
  by (simp add: obj_of_def bt_get_extend bt_ok_def bt.lookup_empty)

text \<open>
  C40: verifying a new table repeats its creation. From the genesis commit that \<^verbatim>\<open>initialize\<close> published, the replay finds
  the very values from which the first image was made, and gives them to the verifier's engine; it meets no missing or malformed part.
  The hypothesis is that a schema that was serialized reads back as itself.
\<close>

theorem genesis_replayed:
  assumes "genesis_objects rt create fresh table_id request = Inr g"
    and "\<And>v. json_value (rt_wire rt) (schema_to_value (rt_ext rt) (iq_schema request)) = Inr v
      \<Longrightarrow> reread (rt_wire rt) (w_schema (rt_wire rt)) v = Inr (iq_schema request)"
  shows "\<exists>parts img. create parts = Inr img \<and> cki_bytes img = gt_checkpoint_bytes g
    \<and> replay_genesis rt rc (gt_commit g) (gt_commit_uri g) = lift (rc_create_genesis rc parts)"
proof -
  obtain now features img where features: "map_err ProtocolErr runtime_features = Inr features"
    and commit: "genesis_commit rt fresh table_id request now features = Inr (gt_commit g)"
    and bytes: "json_vec (rt_wire rt) (commit_to_value (rt_ext rt) (gt_commit g)) = Inr (gt_commit_bytes g)"
    and img: "first_image rt create (iq_schema request) (gt_commit g) features (object_hash (rt_ext rt) (gt_commit_bytes g))
      (uri_as_str (gt_commit_uri g)) = Inr img" "cki_bytes img = gt_checkpoint_bytes g"
    using assms(1) by (auto simp: genesis_objects_def Let_def result_simps split: if_splits)
  obtain schema operation_bytes c0 body where s: "json_value (rt_wire rt) (schema_to_value (rt_ext rt) (iq_schema request)) = Inr schema"
    and c0: "c0 = \<lparr>sc_kind = ''otmp.semantic-commit'', sc_format_version = 1, sc_table_id = table_id, sc_table_version = 0,
        sc_parent_table_version = None, sc_commit_id = fr_commit_id fresh, sc_parent_commit = None, sc_created_at_ms = now,
        sc_intents = [\<lparr>ir_key = ''otmp.genesis'', ir_intent_sha256 = intent_hash (rt_ext rt) operation_bytes,
          ir_operation_ids = [''initialize''], ir_result = genesis_result\<rparr>],
        sc_requirements = [], sc_operations = [initialize_operation (rt_ext rt) table_id schema],
        sc_required_reader_features_after_commit = features, sc_required_writer_features_after_commit = features,
        sc_previous_semantic_state_sha256 = None, sc_semantic_state_sha256 = zero_sha,
        sc_metadata = CObject (iq_metadata request)\<rparr>"
    and c: "gt_commit g = c0\<lparr>sc_semantic_state_sha256 := genesis_state_hash (rt_ext rt) body\<rparr>"
    by (rule genesis_commit_Inr [OF commit]) blast
  obtain m where m: "initialize_operation (rt_ext rt) table_id schema = CObject m" "bt_get m ''schema'' = Some schema"
    using bt_get_obj_of [OF initialize_operation_def, of "rt_ext rt" table_id schema] by auto
  obtain r o' d f where t: "canonical_text (rt_wire rt) (rt_utf8_error rt) genesis_result = Inr r"
    "canonical_text (rt_wire rt) (rt_utf8_error rt) (CArray (sc_operations (gt_commit g))) = Inr o'"
    "canonical_text (rt_wire rt) (rt_utf8_error rt) (sc_metadata (gt_commit g)) = Inr d"
    "canonical_text (rt_wire rt) (rt_utf8_error rt) (features_value features) = Inr f"
    and made: "create (genesis_image_of (iq_schema request) (gt_commit g) (ir_intent_sha256 (hd (sc_intents (gt_commit g))))
       (object_hash (rt_ext rt) (gt_commit_bytes g)) (uri_as_str (gt_commit_uri g)) o' r d f f) = Inr img"
    using img(1) by (auto simp: first_image_def Let_def result_simps)
  have parts: "sc_table_version (gt_commit g) = 0" "sc_operations (gt_commit g) = [CObject m]"
    "sc_intents (gt_commit g) = [\<lparr>ir_key = ''otmp.genesis'', ir_intent_sha256 = intent_hash (rt_ext rt) operation_bytes,
       ir_operation_ids = [''initialize''], ir_result = genesis_result\<rparr>]"
    "sc_required_reader_features_after_commit (gt_commit g) = features" "sc_required_writer_features_after_commit (gt_commit g) = features"
    by (simp_all add: c c0 m)
  have "replay_genesis rt rc (gt_commit g) (gt_commit_uri g) = lift (rc_create_genesis rc
      (genesis_image_of (iq_schema request) (gt_commit g) (ir_intent_sha256 (hd (sc_intents (gt_commit g))))
       (object_hash (rt_ext rt) (gt_commit_bytes g)) (uri_as_str (gt_commit_uri g)) o' r d f f))"
    using t unfolding replay_genesis_def Let_def parts
    by (simp add: m assms(2) [OF s] bytes ok_or_def)
  with made img(2) show ?thesis by blast
qed

text \<open>Elements that are serialized one by one read back as the list they came from.\<close>

lemma try_map_reread:
  assumes "try_map encode_one vs = Inr ws" "\<And>v w. v \<in> set vs \<Longrightarrow> encode_one v = Inr w \<Longrightarrow> decode_one w = Inr v"
  shows "try_map decode_one ws = Inr vs"
  using assms unfolding try_map_eq_Inr
  by (auto simp: list_all2_conv_all_nth)

lemma next_table_version:
  assumes "checked_add v 1 = Some (v' :: u64)" "unat v < 2 ^ 63 - 1"
  shows "sint v + 1 = uint v' \<and> uint v' < 2 ^ 63"
proof -
  have "int (unat v') = int (unat v + unat (1 :: u64))" using unat_checked_add [OF assms(1)] by (simp only: )
  then have "uint v' = uint v + 1" by (simp only: uint_nat of_nat_add unat_1 of_nat_1)
  moreover have "unat v < 2 ^ 63" using assms(2) by linarith
  then have "sint v = uint v" by (rule sint_small)
  moreover have "int (unat v + 1) < int (2 ^ 63)" using assms(2) by (subst of_nat_less_iff) linarith
  then have "uint v + 1 < 2 ^ 63" by (simp only: uint_nat of_nat_add of_nat_1 of_nat_power of_nat_numeral)
  ultimately show ?thesis by (simp only: simp_thms)
qed

lemma transaction_commit_parts:
  assumes "transaction_commit rt fresh base request logical_hash version result = Inr c"
  obtains result_value requirements operations metadata where
    "json_value (rt_wire rt) (durable_result_to_value (rt_ext rt) result) = Inr result_value"
    "try_map (\<lambda>r. json_value (rt_wire rt) (requirement_to_value (rt_ext rt) r)) (tr_requirements request) = Inr requirements"
    "try_map (\<lambda>r. json_value (rt_wire rt) (operation_to_value (rt_ext rt) r)) (tr_operations request) = Inr operations"
    "json_value (rt_wire rt) (CObject (tr_commit_metadata request)) = Inr metadata"
    "sc_table_version c = version" "sc_commit_id c = fr_commit_id fresh" "sc_requirements c = requirements" "sc_operations c = operations"
    "sc_metadata c = metadata"
    "sc_intents c = [\<lparr>ir_key = tr_idempotency_key request, ir_intent_sha256 = logical_hash,
       ir_operation_ids = map operation_id (tr_operations request), ir_result = result_value\<rparr>]"
  using assms unfolding transaction_commit_def Let_def
  by (auto simp: result_simps seal_commit_def)

lemma finish_candidate_names:
  assumes "finish_candidate rt fresh parent commit commit_uri commit_bytes img result = Some (Inr cd)"
  shows "cd_commit_uri cd = commit_uri" "cd_commit_bytes cd = commit_bytes"
  by (rule finish_candidate_Inr [OF assms], simp)+

text \<open>
  C39: verifying a metadata transaction repeats it. From the commit a candidate publishes, the replay on the parent image decodes the
  requirements and operations of the request, finds them to hold and to prepare again, obtains the recorded
  result, and hands the same operations to the verifier's engine. The hypotheses are that serialized requirements, operations and
  metadata read back as themselves, that a metadata operation is not written as an append, and that the parent image has the version
  of its head, which SQLite can count one further.
\<close>

theorem transaction_replayed:
  assumes "transaction_candidate rt metadata fresh request logical_hash base = Some (Inr cd)"
    and "\<And>r v. r \<in> set (tr_requirements request) \<Longrightarrow> json_value (rt_wire rt) (requirement_to_value (rt_ext rt) r) = Inr v
      \<Longrightarrow> reread (rt_wire rt) (rc_requirement_json rc) v = Inr r"
    and "\<And>r v. r \<in> set (tr_operations request) \<Longrightarrow> json_value (rt_wire rt) (operation_to_value (rt_ext rt) r) = Inr v
      \<Longrightarrow> reread (rt_wire rt) (rc_operation_json rc) v = Inr r \<and> \<not> commit_is_append v"
    and "\<And>v. json_value (rt_wire rt) (CObject (tr_commit_metadata request)) = Inr v
      \<Longrightarrow> reread (rt_wire rt) (rc_metadata_json rc) v = Inr (tr_commit_metadata request)"
    and "rc_table_version rc (pt_resolved base) = Inr (h_table_version (pt_head base))" "unat (h_table_version (pt_head base)) < 2 ^ 63 - 1"
  shows "\<exists>c img. json_vec (rt_wire rt) (commit_to_value (rt_ext rt) c) = Inr (cd_commit_bytes cd)
    \<and> metadata (pt_resolved base) c (cd_commit_uri cd) (tr_operations request) = Inr img
    \<and> replay_semantic_commit rt rc (pt_resolved base) c (cd_commit_uri cd)
        = lift (rc_apply_metadata rc (pt_resolved base) c (cd_commit_uri cd) (tr_operations request))"
proof -
  obtain cn results version c commit_bytes commit_uri img where
    prep: "db_open (rt_db rt) (pt_resolved base) = Inr cn" "prepare_operations cn request = Inr results"
    and ver: "checked_add (h_table_version (pt_head base)) 1 = Some version"
    and tc: "transaction_commit rt fresh base request logical_hash version
       \<lparr>dr_table_version = version, dr_commit_id = fr_commit_id fresh, dr_operation_results = results\<rparr> = Inr c"
    and bytes: "json_vec (rt_wire rt) (commit_to_value (rt_ext rt) c) = Inr commit_bytes"
    and img: "metadata (pt_resolved base) c commit_uri (tr_operations request) = Inr img"
    and fin: "finish_candidate rt fresh base c commit_uri commit_bytes img
       \<lparr>dr_table_version = version, dr_commit_id = fr_commit_id fresh, dr_operation_results = results\<rparr> = Some (Inr cd)"
    by (rule transaction_candidate_Inr [OF assms(1)])
  have cd: "cd_commit_uri cd = commit_uri" "cd_commit_bytes cd = commit_bytes"
    using finish_candidate_names [OF fin] by blast+
  obtain result_value requirements operations d where
    r: "json_value (rt_wire rt) (durable_result_to_value (rt_ext rt)
        \<lparr>dr_table_version = version, dr_commit_id = fr_commit_id fresh, dr_operation_results = results\<rparr>) = Inr result_value"
    and reqs: "try_map (\<lambda>r. json_value (rt_wire rt) (requirement_to_value (rt_ext rt) r)) (tr_requirements request) = Inr requirements"
    and ops: "try_map (\<lambda>r. json_value (rt_wire rt) (operation_to_value (rt_ext rt) r)) (tr_operations request) = Inr operations"
    and d: "json_value (rt_wire rt) (CObject (tr_commit_metadata request)) = Inr d"
    and c: "sc_table_version c = version" "sc_commit_id c = fr_commit_id fresh" "sc_requirements c = requirements"
      "sc_operations c = operations" "sc_metadata c = d"
      "sc_intents c = [\<lparr>ir_key = tr_idempotency_key request, ir_intent_sha256 = logical_hash,
         ir_operation_ids = map operation_id (tr_operations request), ir_result = result_value\<rparr>]"
    by (rule transaction_commit_parts [OF tc])
  have "try_map (reread (rt_wire rt) (rc_requirement_json rc)) requirements = Inr (tr_requirements request)"
    by (rule try_map_reread [OF reqs]) (rule assms(2))
  moreover have "try_map (reread (rt_wire rt) (rc_operation_json rc)) operations = Inr (tr_operations request)"
    by (rule try_map_reread [OF ops]) (rule conjunct1 [OF assms(3)])
  ultimately have again: "try_map (reread (rt_wire rt) (rc_requirement_json rc)) requirements = Inr (tr_requirements request)"
    "try_map (reread (rt_wire rt) (rc_operation_json rc)) operations = Inr (tr_operations request)" .
  have some: "tr_operations request \<noteq> []" using prep(2) by (auto simp: prepare_operations_def invalid_def split: if_splits)
  have all: "list_all2 (\<lambda>r v. json_value (rt_wire rt) (operation_to_value (rt_ext rt) r) = Inr v) (tr_operations request) operations"
    using ops by (simp only: try_map_eq_Inr)
  obtain r0 rs o' os where "tr_operations request = r0 # rs" and o': "operations = o' # os"
    and "json_value (rt_wire rt) (operation_to_value (rt_ext rt) r0) = Inr o'"
    using all some by (cases "tr_operations request") (auto simp: list_all2_Cons1)
  then have plain: "\<not> commit_is_append o'" using assms(3) [of r0 o'] by simp
  have request: "\<lparr>tr_idempotency_key = tr_idempotency_key request, tr_requirements = tr_requirements request,
      tr_operations = tr_operations request, tr_commit_metadata = tr_commit_metadata request\<rparr> = request" by simp
  have "replay_transaction rt rc cn (pt_resolved base) c commit_uri (tr_requirements request)
      = lift (rc_apply_metadata rc (pt_resolved base) c commit_uri (tr_operations request))"
    by (simp add: replay_transaction_def c again assms(4) [OF d] Let_def prep(2) r request)
  then have "replay_semantic_commit rt rc (pt_resolved base) c commit_uri
      = lift (rc_apply_metadata rc (pt_resolved base) c commit_uri (tr_operations request))"
    unfolding replay_semantic_commit_def prep(1) assms(5) c(1,3,4) lift_Inr and_then_simps again unfolding o'
    using next_table_version [OF ver assms(6)] conjunct1 [OF prepared_results [OF prep(2)]] plain
    by (simp only: simp_thms if_True if_False lift_Inr and_then_simps first_of_simps)
  with bytes img show ?thesis unfolding cd by blast
qed

section \<open>The operation of an append read back\<close>

text \<open>
  The derived deserializers of \<^verbatim>\<open>ProjectedCommitSnapshot\<close> and its parts on a JSON value: an object with no unknown members and all
  members but the optional ones, in which an absent member and \<^verbatim>\<open>null\<close> are \<open>None\<close>. Of a refused value only the refusal is modelled,
  not the message.
\<close>

definition ok_of :: "('e, 'a) result \<Rightarrow> 'a option" where
  "ok_of r = (case r of Inl _ \<Rightarrow> None | Inr v \<Rightarrow> Some v)"

definition string_from :: "canonical_value \<Rightarrow> string option" where
  "string_from v = (case v of CString s \<Rightarrow> Some s | _ \<Rightarrow> None)"

definition json_u64_from :: "canonical_value \<Rightarrow> u64 option" where
  "json_u64_from v = Option.bind (string_from v) (\<lambda>s. ok_of (parse_decimal s))"

definition id_from :: "externals \<Rightarrow> canonical_value \<Rightarrow> id option" where
  "id_from x v = Option.bind (string_from v) (\<lambda>s. ok_of (id_from_str x s))"

definition sha_from :: "externals \<Rightarrow> canonical_value \<Rightarrow> sha256 option" where
  "sha_from x v = Option.bind (string_from v) (\<lambda>s. ok_of (sha_from_str x s))"

definition scalar_from :: "externals \<Rightarrow> canonical_value \<Rightarrow> typed_scalar option" where
  "scalar_from x v = ok_of (scalar_from_value x v)"

fun all_from :: "('a \<Rightarrow> 'b option) \<Rightarrow> 'a list \<Rightarrow> 'b list option" where
  "all_from f [] = Some []"
| "all_from f (v # vs) = Option.bind (f v) (\<lambda>d. Option.bind (all_from f vs) (\<lambda>ds. Some (d # ds)))"

definition seq_from :: "(canonical_value \<Rightarrow> 'a option) \<Rightarrow> canonical_value \<Rightarrow> 'a list option" where
  "seq_from f v = (case v of CArray vs \<Rightarrow> all_from f vs | _ \<Rightarrow> None)"

definition struct_from :: "string list \<Rightarrow> canonical_value \<Rightarrow> members option" where
  "struct_from names v = (case v of CObject m \<Rightarrow> if set (map fst m) \<subseteq> set names then Some m else None | _ \<Rightarrow> None)"

definition member :: "members \<Rightarrow> string \<Rightarrow> (canonical_value \<Rightarrow> 'a option) \<Rightarrow> 'a option" where
  "member m k f = Option.bind (bt_get m k) f"

definition optional :: "members \<Rightarrow> string \<Rightarrow> (canonical_value \<Rightarrow> 'a option) \<Rightarrow> 'a option option" where
  "optional m k f =
     (case bt_get m k of None \<Rightarrow> Some None | Some CNull \<Rightarrow> Some None | Some v \<Rightarrow> map_option Some (f v))"

definition partition_from :: "externals \<Rightarrow> canonical_value \<Rightarrow> (u32, typed_scalar) btree option" where
  "partition_from x v =
     (case v of
        CObject m \<Rightarrow>
          map_option (bt_extend [])
            (all_from (\<lambda>(k, d). Option.bind (ok_of (parse_decimal k)) (\<lambda>n. Option.bind (u32_try_from n) (\<lambda>i.
               map_option (Pair i) (scalar_from x d)))) m)
      | _ \<Rightarrow> None)"

definition metric_from :: "externals \<Rightarrow> canonical_value \<Rightarrow> projected_metric option" where
  "metric_from x v =
     Option.bind (struct_from [''field_id'', ''column_size_bytes'', ''value_count'', ''null_count'', ''nan_count'', ''distinct_count'',
         ''lower_bound'', ''upper_bound'', ''metadata''] v) (\<lambda>m.
     Option.bind (member m ''field_id'' json_u64_from) (\<lambda>field_id.
     Option.bind (optional m ''column_size_bytes'' json_u64_from) (\<lambda>column_size_bytes.
     Option.bind (optional m ''value_count'' json_u64_from) (\<lambda>value_count.
     Option.bind (optional m ''null_count'' json_u64_from) (\<lambda>null_count.
     Option.bind (optional m ''nan_count'' json_u64_from) (\<lambda>nan_count.
     Option.bind (optional m ''distinct_count'' json_u64_from) (\<lambda>distinct_count.
     Option.bind (optional m ''lower_bound'' (scalar_from x)) (\<lambda>lower_bound.
     Option.bind (optional m ''upper_bound'' (scalar_from x)) (\<lambda>upper_bound.
     Option.bind (member m ''metadata'' Some) (\<lambda>metadata.
       Some \<lparr>jm_field_id = field_id, jm_column_size_bytes = column_size_bytes, jm_value_count = value_count,
             jm_null_count = null_count, jm_nan_count = nan_count, jm_distinct_count = distinct_count,
             jm_lower_bound = lower_bound, jm_upper_bound = upper_bound, jm_metadata = metadata\<rparr>))))))))))"

definition file_from :: "externals \<Rightarrow> canonical_value \<Rightarrow> projected_file option" where
  "file_from x v =
     Option.bind (struct_from [''file_id'', ''uri'', ''object_identity'', ''file_format'', ''file_size_bytes'', ''record_count'', ''schema_id'',
         ''partition_spec_id'', ''sort_order_id'', ''content_sha256'', ''partition_values'', ''metrics'', ''metadata''] v) (\<lambda>m.
     Option.bind (member m ''file_id'' (id_from x)) (\<lambda>file_id.
     Option.bind (member m ''uri'' string_from) (\<lambda>uri.
     Option.bind (optional m ''object_identity'' string_from) (\<lambda>object_identity.
     Option.bind (member m ''file_format'' string_from) (\<lambda>file_format.
     Option.bind (member m ''file_size_bytes'' json_u64_from) (\<lambda>file_size_bytes.
     Option.bind (member m ''record_count'' json_u64_from) (\<lambda>record_count.
     Option.bind (member m ''schema_id'' json_u64_from) (\<lambda>schema_id.
     Option.bind (member m ''partition_spec_id'' json_u64_from) (\<lambda>partition_spec_id.
     Option.bind (member m ''sort_order_id'' json_u64_from) (\<lambda>sort_order_id.
     Option.bind (member m ''content_sha256'' (sha_from x)) (\<lambda>content_sha256.
     Option.bind (member m ''partition_values'' (partition_from x)) (\<lambda>partition_values.
     Option.bind (member m ''metrics'' (seq_from (metric_from x))) (\<lambda>metrics.
     Option.bind (member m ''metadata'' Some) (\<lambda>metadata.
       Some \<lparr>jf_file_id = file_id, jf_uri = uri, jf_object_identity = object_identity, jf_file_format = file_format,
             jf_file_size_bytes = file_size_bytes, jf_record_count = record_count, jf_schema_id = schema_id,
             jf_partition_spec_id = partition_spec_id, jf_sort_order_id = sort_order_id, jf_content_sha256 = content_sha256,
             jf_partition_values = partition_values, jf_metrics = metrics, jf_metadata = metadata\<rparr>))))))))))))))"

definition snapshot_from :: "externals \<Rightarrow> canonical_value \<Rightarrow> projected_snapshot option" where
  "snapshot_from x v =
     Option.bind (struct_from [''snapshot_id'', ''parent_snapshot_id'', ''sequence_number'', ''schema_id'', ''partition_spec_id'',
         ''sort_order_id'', ''operation'', ''summary'', ''metadata''] v) (\<lambda>m.
     Option.bind (member m ''snapshot_id'' (id_from x)) (\<lambda>snapshot_id.
     Option.bind (optional m ''parent_snapshot_id'' (id_from x)) (\<lambda>parent_snapshot_id.
     Option.bind (member m ''sequence_number'' json_u64_from) (\<lambda>sequence_number.
     Option.bind (member m ''schema_id'' json_u64_from) (\<lambda>schema_id.
     Option.bind (member m ''partition_spec_id'' json_u64_from) (\<lambda>partition_spec_id.
     Option.bind (member m ''sort_order_id'' json_u64_from) (\<lambda>sort_order_id.
     Option.bind (member m ''operation'' string_from) (\<lambda>operation.
     Option.bind (member m ''summary'' Some) (\<lambda>summary.
     Option.bind (member m ''metadata'' Some) (\<lambda>metadata.
       Some \<lparr>js_snapshot_id = snapshot_id, js_parent_snapshot_id = parent_snapshot_id, js_sequence_number = sequence_number,
             js_schema_id = schema_id, js_partition_spec_id = partition_spec_id, js_sort_order_id = sort_order_id,
             js_operation = operation, js_summary = summary, js_metadata = metadata\<rparr>))))))))))"

definition commit_snapshot_from :: "externals \<Rightarrow> canonical_value \<Rightarrow> projected_commit option" where
  "commit_snapshot_from x v =
     Option.bind (struct_from [''operation_id'', ''type'', ''target_ref'', ''snapshot'', ''added_files'', ''removed_file_ids'',
         ''scan_projection'', ''rebase_mode''] v) (\<lambda>m.
     Option.bind (member m ''operation_id'' string_from) (\<lambda>operation_id.
     Option.bind (member m ''type'' string_from) (\<lambda>operation_type.
     Option.bind (member m ''target_ref'' string_from) (\<lambda>target_ref.
     Option.bind (member m ''snapshot'' (snapshot_from x)) (\<lambda>snapshot.
     Option.bind (member m ''added_files'' (seq_from (file_from x))) (\<lambda>added_files.
     Option.bind (member m ''removed_file_ids'' (seq_from (id_from x))) (\<lambda>removed_file_ids.
     Option.bind (member m ''scan_projection'' Some) (\<lambda>scan_projection.
     Option.bind (member m ''rebase_mode'' string_from) (\<lambda>rebase_mode.
       Some \<lparr>jc_operation_id = operation_id, jc_operation_type = operation_type, jc_target_ref = target_ref, jc_snapshot = snapshot,
             jc_added_files = added_files, jc_removed_file_ids = removed_file_ids, jc_scan_projection = scan_projection,
             jc_rebase_mode = rebase_mode\<rparr>)))))))))"

text \<open>
  What the JSON crate promises of one value: its printer writes the compact text, its parser reads that text as the
  value, and the derived deserializer of the operation takes from the text what the members say. Values are given to the
  printer with their members sorted; the order in which a derived serializer visits the members is not represented, as parsing sorts them.
\<close>

definition json_fits :: "canonical_value \<Rightarrow> bool" where
  "json_fits v = (cv_ok v \<and> ints_ok v \<and> json_depth v < 128)"

definition json_faithful :: "wire \<Rightarrow> canonical_value \<Rightarrow> bool" where
  "json_faithful w v =
     (sj_to_vec (w_serde w) v = Inr (as_bytes (encode_into (w_ext w) v)) \<and> reads_compact (w_serde w) (w_ext w) v)"

definition derived_faithful :: "wire \<Rightarrow> (canonical_value \<Rightarrow> 'a option) \<Rightarrow> (byte list \<Rightarrow> (string, 'a) result) \<Rightarrow> canonical_value \<Rightarrow> bool" where
  "derived_faithful w shape typed v = (\<forall>d. shape v = Some d \<longrightarrow> typed (as_bytes (encode_into (w_ext w) v)) = Inr d)"

lemma json_value_same:
  assumes "quote_laws (w_ext w)" "json_fits v" "json_faithful w v"
  shows "json_value w v = Inr v" "json_vec w v = Inr (as_bytes (encode_into (w_ext w) v))"
proof -
  have "to_value (w_serde w) v = Inr v"
    using parse_compact [OF assms(1), of "w_serde w" v] assms(2,3) by (simp add: to_value_def json_fits_def json_faithful_def)
  then show "json_value w v = Inr v" "json_vec w v = Inr (as_bytes (encode_into (w_ext w) v))"
    by (simp_all add: json_value_def json_vec_def to_vec_def encode_def)
qed

lemma reread_derived:
  assumes "quote_laws (w_ext w)" "json_fits v" "json_faithful w v" "derived_faithful w shape typed v" "shape v = Some d"
  shows "reread w typed v = Inr d"
  using json_value_same(2) [OF assms(1-3)] parse_canonical_compact [OF assms(1), of "w_serde w" v] assms
  by (simp add: reread_def from_slice_canonical_def json_fits_def json_faithful_def derived_faithful_def)

lemma struct_from_obj: "set (map fst es) \<subseteq> set names \<Longrightarrow> struct_from names (obj_of es) = Some (bt_extend [] es)"
proof -
  have "set (map fst (bt_extend m es)) = set (map fst m) \<union> set (map fst es)" for m :: members
  proof (induction es arbitrary: m)
    case (Cons e es)
    obtain k v where e: "e = (k, v)" by (cases e)
    have "bt_extend m (e # es) = bt_extend (bt_insert k v m) es" by (simp add: bt_extend_def e)
    then show ?case using Cons.IH [of "bt_insert k v m"] set_bt_insert [of k v m] by (auto simp: e)
  qed (simp add: bt_extend_def)
  then show "set (map fst es) \<subseteq> set names \<Longrightarrow> struct_from names (obj_of es) = Some (bt_extend [] es)"
    by (simp add: struct_from_def obj_of_def del: set_map)
qed

lemma u64_from_number [simp]:
  "json_u64_from (number_text (n :: u64)) = Some n" "json_u64_from (number_text (i :: u32)) = Some (u64_from_u32 i)"
proof -
  show "json_u64_from (number_text n) = Some n"
    using parse_decimal_show [of n] by (simp add: json_u64_from_def string_from_def number_text_def json_u64_to_string_def ok_of_def)
  show "json_u64_from (number_text i) = Some (u64_from_u32 i)"
    using parse_decimal_show [of "u64_from_u32 i"]
    by (simp add: json_u64_from_def string_from_def number_text_def json_u64_to_string_def ok_of_def)
qed

lemma string_from_CString [simp]: "string_from (CString s) = Some s" by (simp add: string_from_def)

definition valid_id :: "externals \<Rightarrow> id \<Rightarrow> bool" where
  "valid_id x i = (id_ok i \<and> id_try_from_bytes x (id_as_bytes i) = Inr i)"

lemma id_from_value [simp]: "hex_laws x \<Longrightarrow> valid_id x i \<Longrightarrow> id_from x (id_value x i) = Some i"
  by (simp add: id_from_def id_value_def valid_id_def id_from_to_string ok_of_def)

lemma sha_from_value [simp]: "hex_laws x \<Longrightarrow> sha_ok h \<Longrightarrow> sha_from x (sha_value x h) = Some h"
  by (simp add: sha_from_def sha_value_def sha_from_to_string ok_of_def)

lemma scalar_from_value_same: "hex_laws x \<Longrightarrow> scalar_ok v \<Longrightarrow> scalar_from x (scalar_to_value x v) = Some v"
  by (simp add: scalar_from_def scalar_from_to_value ok_of_def)

text \<open>What the deserializer of an append finds in the operation the append wrote.\<close>

definition projected_metric_of :: "file_metric \<Rightarrow> projected_metric" where
  "projected_metric_of m =
     \<lparr>jm_field_id = u64_from_u32 (fm_field_id m), jm_column_size_bytes = fm_column_size_bytes m, jm_value_count = fm_value_count m,
      jm_null_count = fm_null_count m, jm_nan_count = fm_nan_count m, jm_distinct_count = fm_distinct_count m,
      jm_lower_bound = fm_lower_bound m, jm_upper_bound = fm_upper_bound m, jm_metadata = CObject (fm_metadata m)\<rparr>"

definition projected_file_of :: "staged_file \<times> append_file \<Rightarrow> projected_file" where
  "projected_file_of item =
     (case item of (staged, logical) \<Rightarrow>
      \<lparr>jf_file_id = sf_file_id staged, jf_uri = uri_as_str (sf_uri staged), jf_object_identity = None,
       jf_file_format = format_as_str (af_format logical), jf_file_size_bytes = sfp_length (af_fingerprint logical),
       jf_record_count = af_record_count logical, jf_schema_id = u64_from_u32 (af_schema_id logical),
       jf_partition_spec_id = u64_from_u32 (af_partition_spec_id logical), jf_sort_order_id = u64_from_u32 (af_sort_order_id logical),
       jf_content_sha256 = sfp_sha256 (af_fingerprint logical), jf_partition_values = af_partition_values logical,
       jf_metrics = map projected_metric_of (af_metrics logical), jf_metadata = CObject (af_metadata logical)\<rparr>)"

definition projected_append :: "fresh \<Rightarrow> append_request \<Rightarrow> staged_file list \<Rightarrow> id option \<Rightarrow> u64 \<Rightarrow> members \<Rightarrow> projected_commit" where
  "projected_append fresh r staged parent_snapshot sequence_number summary =
     (let f0 = hd (ar_files r) in
      \<lparr>jc_operation_id = ''append-main'', jc_operation_type = ''commit_snapshot'', jc_target_ref = ar_target_ref r,
       jc_snapshot =
         \<lparr>js_snapshot_id = fr_snapshot_id fresh, js_parent_snapshot_id = parent_snapshot, js_sequence_number = sequence_number,
          js_schema_id = u64_from_u32 (af_schema_id f0), js_partition_spec_id = u64_from_u32 (af_partition_spec_id f0),
          js_sort_order_id = u64_from_u32 (af_sort_order_id f0), js_operation = ''append'', js_summary = CObject summary,
          js_metadata = CObject (ar_snapshot_metadata r)\<rparr>,
       jc_added_files = map projected_file_of (zip staged (ar_files r)), jc_removed_file_ids = [],
       jc_scan_projection = CNull, jc_rebase_mode = ''append-safe''\<rparr>)"

lemma to_u32_widened: "to_u32 (u64_from_u32 v) message = Inr v"
  by (simp add: to_u32_def u32_try_from_u64_from_u32)

lemma replay_metric_same:
  "image_metric_of rt m = Inr i \<Longrightarrow> replay_metric rt (projected_metric_of m) = Inr i"
  by (auto simp: image_metric_of_def replay_metric_def projected_metric_of_def to_u32_widened result_simps)

lemma replay_metrics_same:
  "try_map (image_metric_of rt) ms = Inr is \<Longrightarrow> try_map (replay_metric rt) (map projected_metric_of ms) = Inr is"
  by (auto simp: try_map_eq_Inr list_all2_map1 elim!: list_all2_mono intro: replay_metric_same)

text \<open>The files a validated append may contain, with what was staged for them.\<close>

definition staged_pair :: "append_file \<Rightarrow> staged_file \<Rightarrow> bool" where
  "staged_pair f v =
     (af_partition_spec_id f = 0 \<and> af_sort_order_id f = 0 \<and> sf_sha256 v = sfp_sha256 (af_fingerprint f)
      \<and> sf_length v = sfp_length (af_fingerprint f))"

lemma replay_file_same:
  assumes "image_file_of rt (f, v) = Inr i" "staged_pair f v"
  shows "replay_file rt (projected_file_of (v, f)) = Inr i"
proof -
  obtain metrics metadata where m: "try_map (image_metric_of rt) (af_metrics f) = Inr metrics"
    "canonical_text (rt_wire rt) (rt_utf8_error rt) (CObject (af_metadata f)) = Inr metadata"
    and i: "i = \<lparr>if_file_id = sf_file_id v, if_uri = uri_as_str (sf_uri v), if_format = af_format f,
             if_file_size_bytes = sf_length v, if_record_count = af_record_count f,
             if_schema_id = af_schema_id f, if_partition_spec_id = af_partition_spec_id f,
             if_sort_order_id = af_sort_order_id f, if_partition_values_cbor = encode_partition_tuple (af_partition_values f),
             if_partition_hash = partition_hash (rt_ext rt) (af_partition_spec_id f) (encode_partition_tuple (af_partition_values f)),
             if_content_sha256 = sf_sha256 v, if_metrics = metrics, if_metadata_json = metadata\<rparr>"
    using assms(1) by (auto simp: image_file_of_def Let_def and_then_eq_Inr)
  have "af_format f = Parquet" by (cases "af_format f")
  then show ?thesis using assms(2) m replay_metrics_same [OF m(1)] i
    by (simp add: replay_file_def projected_file_of_def Let_def to_u32_widened staged_pair_def)
qed

lemma replay_files_same:
  assumes "try_map (image_file_of rt) (zip fs vs) = Inr is" "length fs = length vs" "\<forall>(f, v) \<in> set (zip fs vs). staged_pair f v"
  shows "try_map (replay_file rt) (map projected_file_of (zip vs fs)) = Inr is"
proof -
  have "replay_file rt (projected_file_of (vs ! k, fs ! k)) = Inr (is ! k)" if "k < length fs" for k
  proof (rule replay_file_same)
    show "image_file_of rt (fs ! k, vs ! k) = Inr (is ! k)"
      using assms(1,2) that by (auto simp: try_map_eq_Inr list_all2_conv_all_nth)
    have "(fs ! k, vs ! k) \<in> set (zip fs vs)" using assms(2) that by (auto simp: set_zip)
    then show "staged_pair (fs ! k) (vs ! k)" using assms(3) by auto
  qed
  then show ?thesis using assms(1,2) by (auto simp: try_map_eq_Inr list_all2_conv_all_nth)
qed

lemma validated_pairs:
  assumes "validate_request rt ac r parent = Inr ()" "validate_staged r staged t = Inr ()"
  shows "length (ar_files r) = length staged" "\<forall>(f, v) \<in> set (zip (ar_files r) staged). staged_pair f v" "ar_files r \<noteq> []"
proof -
  obtain schema types s' where v: "try_fold (validate_file rt schema types) {} (ar_files r) = Inr s'" and some: "ar_files r \<noteq> []"
    using assms(1) by (auto simp: validate_request_def invalid_append_def and_then_eq_Inr split: if_splits)
  show len: "length (ar_files r) = length staged" using assms(2) by (auto simp: validate_staged_def split: if_splits)
  obtain s where s: "try_fold (staged_step t) ({}, {}) (enumerate 0 (zip (ar_files r) staged)) = Inr s"
    using assms(2) len by (auto simp: validate_staged_def and_then_eq_Inr)
  have "staged_pair f w" if m: "(f, w) \<in> set (zip (ar_files r) staged)" for f w
  proof -
    have "f \<in> set (ar_files r)" using m by (rule set_zip_leftD)
    then obtain es es' where "validate_file rt schema types es f = Inr es'" using try_fold_all [OF v] by blast
    then have f: "af_partition_spec_id f = 0" "af_sort_order_id f = 0" by (auto simp: validate_file_iff append_file_ok_def)
    obtain n where "(n, f, w) \<in> set (enumerate 0 (zip (ar_files r) staged))"
      using m by (metis in_set_conv_nth in_set_enumerate_eq add_0 le0 length_enumerate nth_enumerate_eq nth_mem fst_conv snd_conv)
    then obtain a b where "staged_step t a (n, f, w) = Inr b" using try_fold_all [OF s] by blast
    then show ?thesis using f by (auto simp: staged_step_def staged_entry_bad_def staged_pair_def split: if_splits prod.splits)
  qed
  then show "\<forall>(f, v) \<in> set (zip (ar_files r) staged). staged_pair f v" by auto
  show "ar_files r \<noteq> []" by (rule some)
qed

lemma append_parts_Inr:
  assumes "append_parts rt fresh r staged logical_hash parent = Inr (c, result, result_value, parent_snapshot, sequence_number, summary)"
  obtains operation where "sc_operations c = [operation]" "sc_commit_id c = fr_commit_id fresh"
    "sc_intents c = [\<lparr>ir_key = ar_idempotency_key r, ir_intent_sha256 = logical_hash, ir_operation_ids = [''append-main''],
       ir_result = result_value\<rparr>]"
  using assms unfolding append_parts_def Let_def append_commit_def
  by (cases "ar_files r") (auto simp: result_simps seal_commit_def lift_eq_Inr)

lemma optional_value:
  assumes "bt_get m k = Some (or_null g v)" "\<And>u. v = Some u \<Longrightarrow> g u \<noteq> CNull \<and> f (g u) = Some u"
  shows "optional m k f = Some v"
proof (cases v)
  case (Some u)
  then show ?thesis using assms by (cases "g u") (auto simp: optional_def or_null_def)
qed (use assms in \<open>simp add: optional_def or_null_def\<close>)

lemma value_not_null [simp]: "number_text n \<noteq> CNull" "id_value x i \<noteq> CNull" "scalar_to_value x v \<noteq> CNull"
  by (simp_all add: number_text_def id_value_def) (cases v; simp add: scalar_to_value_def obj_of_def)

text \<open>A metric whose bounds are machine values.\<close>

definition metric_bounds_ok :: "file_metric \<Rightarrow> bool" where
  "metric_bounds_ok m = ((\<forall>v \<in> set_option (fm_lower_bound m). scalar_ok v) \<and> (\<forall>v \<in> set_option (fm_upper_bound m). scalar_ok v))"

lemma metric_from_value:
  assumes "hex_laws x" "metric_bounds_ok m"
  shows "metric_from x (metric_to_value x m) = Some (projected_metric_of m)"
proof -
  have "scalar_from x (scalar_to_value x u) = Some u" if "fm_lower_bound m = Some u \<or> fm_upper_bound m = Some u" for u
    using that assms by (auto simp: metric_bounds_ok_def scalar_from_value_same)
  then show ?thesis unfolding metric_from_def metric_to_value_def
  by (subst struct_from_obj)
    (simp_all add: member_def obj_of_key optional_value projected_metric_of_def)
qed

lemma all_from_map: "(\<And>v. v \<in> set vs \<Longrightarrow> f (g v) = Some (h v)) \<Longrightarrow> all_from f (map g vs) = Some (map h vs)"
  by (induction vs) auto

lemma metrics_from_value:
  "hex_laws x \<Longrightarrow> \<forall>m \<in> set ms. metric_bounds_ok m
    \<Longrightarrow> seq_from (metric_from x) (logical_metrics x ms) = Some (map projected_metric_of ms)"
  by (auto simp: seq_from_def logical_metrics_def intro: all_from_map metric_from_value)


text \<open>
  The JSON values an append hands to the serializer on the way to its operation, and the operation itself; the identities in it
  are version 7 identifiers and digests of 32 bytes, and the metric bounds machine values.
\<close>

definition serialized_values :: "externals \<Rightarrow> append_request \<Rightarrow> semantic_commit \<Rightarrow> canonical_value list" where
  "serialized_values x r c =
     sc_operations c @ map (partition_to_value x \<circ> af_partition_values) (ar_files r) @ map (logical_metrics x \<circ> af_metrics) (ar_files r)"

definition identities_ok :: "externals \<Rightarrow> fresh \<Rightarrow> append_request \<Rightarrow> staged_file list \<Rightarrow> id option \<Rightarrow> bool" where
  "identities_ok x fresh r staged parent_snapshot =
     (valid_id x (fr_snapshot_id fresh) \<and> (\<forall>i \<in> set_option parent_snapshot. valid_id x i) \<and> (\<forall>v \<in> set staged. valid_id x (sf_file_id v))
      \<and> (\<forall>f \<in> set (ar_files r). sha_ok (sfp_sha256 (af_fingerprint f)) \<and> (\<forall>m \<in> set (af_metrics f). metric_bounds_ok m)))"

lemma file_from_value:
  assumes "operation_file rt (v, f) = Inr value" "hex_laws (rt_ext rt)" "valid_id (rt_ext rt) (sf_file_id v)"
    and "sha_ok (sfp_sha256 (af_fingerprint f))" "\<forall>m \<in> set (af_metrics f). metric_bounds_ok m" "af_partition_values f = []"
    and "json_value (rt_wire rt) (partition_to_value (rt_ext rt) (af_partition_values f)) = Inr (partition_to_value (rt_ext rt) (af_partition_values f))"
    and "json_value (rt_wire rt) (logical_metrics (rt_ext rt) (af_metrics f)) = Inr (logical_metrics (rt_ext rt) (af_metrics f))"
  shows "file_from (rt_ext rt) value = Some (projected_file_of (v, f))"
proof -
  have partition: "partition_from x (partition_to_value x []) = Some []" for x
    by (simp add: partition_from_def partition_to_value_def obj_of_def bt_extend_def)
  have "json_value (rt_wire rt) (partition_to_value (rt_ext rt) []) = Inr (partition_to_value (rt_ext rt) [])" using assms(6,7) by simp
  then have "value = obj_of [(''file_id'', id_value (rt_ext rt) (sf_file_id v)), (''uri'', uri_value (sf_uri v)),
          (''object_identity'', CNull), (''file_format'', CString (format_as_str (af_format f))),
          (''file_size_bytes'', number_text (sfp_length (af_fingerprint f))),
          (''record_count'', number_text (af_record_count f)), (''schema_id'', number_text (af_schema_id f)),
          (''partition_spec_id'', number_text (af_partition_spec_id f)),
          (''sort_order_id'', number_text (af_sort_order_id f)),
          (''content_sha256'', sha_value (rt_ext rt) (sfp_sha256 (af_fingerprint f))),
          (''partition_values'', partition_to_value (rt_ext rt) []), (''metrics'', logical_metrics (rt_ext rt) (af_metrics f)),
          (''metadata'', CObject (af_metadata f))]"
    using assms(1,8) by (simp add: operation_file_def Let_def assms(6))
  then show ?thesis unfolding file_from_def
    by (subst \<open>value = _\<close>, subst struct_from_obj)
      (simp_all add: member_def obj_of_key optional_def uri_value_def assms(2-6) metrics_from_value partition projected_file_of_def)
qed

lemma all_from_results:
  "try_map g is = Inr vs \<Longrightarrow> (\<And>i v. i \<in> set is \<Longrightarrow> g i = Inr v \<Longrightarrow> f v = Some (h i)) \<Longrightarrow> all_from f vs = Some (map h is)"
proof (induction "is" arbitrary: vs)
  case (Cons i "is")
  then obtain v ws where "vs = v # ws" "g i = Inr v" "try_map g is = Inr ws" by (auto simp: result_simps)
  moreover from this have "f v = Some (h i)" by (intro Cons.prems(2)) auto
  moreover have "all_from f ws = Some (map h is)"
    by (rule Cons.IH [OF \<open>try_map g is = Inr ws\<close>]) (rule Cons.prems(2); simp)
  ultimately show ?case by simp
qed simp

lemma snapshot_from_value:
  assumes "hex_laws x" "valid_id x (fr_snapshot_id fresh)" "\<forall>i \<in> set_option parent_snapshot. valid_id x i" "ar_files r = f0 # fs"
  shows "snapshot_from x (append_snapshot x r f0 (fr_snapshot_id fresh) parent_snapshot sequence_number summary)
    = Some (jc_snapshot (projected_append fresh r staged parent_snapshot sequence_number summary))"
  using assms unfolding snapshot_from_def append_snapshot_def
  by (subst struct_from_obj)
    (simp_all add: member_def obj_of_key optional_value projected_append_def)

lemma append_parts_operation:
  assumes "append_parts rt fresh r staged logical_hash parent = Inr (c, result, result_value, parent_snapshot, sequence_number, summary)"
  obtains f0 fs files where "ar_files r = f0 # fs" "try_map (operation_file rt) (zip staged (ar_files r)) = Inr files"
    "sc_operations c = [append_operation r (append_snapshot (rt_ext rt) r f0 (fr_snapshot_id fresh) parent_snapshot sequence_number summary) files]"
  using assms unfolding append_parts_def Let_def append_commit_def
  by (cases "ar_files r") (auto simp: result_simps seal_commit_def lift_eq_Inr)

lemma validated_partitions:
  "validate_request rt ac r parent = Inr () \<Longrightarrow> f \<in> set (ar_files r) \<Longrightarrow> af_partition_values f = []"
  by (auto simp: append_accepted_iff list_all_iff append_file_ok_def)

lemma operation_read_back:
  assumes parts: "append_parts rt fresh r staged logical_hash parent = Inr (c, result, result_value, parent_snapshot, sequence_number, summary)"
    and partitions: "\<And>f. f \<in> set (ar_files r) \<Longrightarrow> af_partition_values f = []"
    and laws: "hex_laws (rt_ext rt)" "quote_laws (rt_ext rt)" "identities_ok (rt_ext rt) fresh r staged parent_snapshot"
    and json: "\<forall>v \<in> set (serialized_values (rt_ext rt) r c). json_fits v \<and> json_faithful (rt_wire rt) v"
  shows "\<exists>operation. sc_operations c = [operation]
    \<and> commit_snapshot_from (rt_ext rt) operation = Some (projected_append fresh r staged parent_snapshot sequence_number summary)"
proof -
  obtain f0 fs files where p: "ar_files r = f0 # fs" "try_map (operation_file rt) (zip staged (ar_files r)) = Inr files"
    "sc_operations c = [append_operation r (append_snapshot (rt_ext rt) r f0 (fr_snapshot_id fresh) parent_snapshot sequence_number summary) files]"
    by (rule append_parts_operation [OF parts])
  have same: "json_value (rt_wire rt) v = Inr v" if "v \<in> set (serialized_values (rt_ext rt) r c)" for v
    using json that by (intro json_value_same(1) [OF laws(2)]) auto
  have "all_from (file_from (rt_ext rt)) files = Some (map projected_file_of (zip staged (ar_files r)))"
  proof (rule all_from_results [OF p(2)])
    fix i v assume i: "i \<in> set (zip staged (ar_files r))" "operation_file rt i = Inr v"
    obtain s f where sf: "i = (s, f)" by (cases i)
    then have m: "s \<in> set staged" "f \<in> set (ar_files r)" using i(1) by (auto dest: set_zip_leftD set_zip_rightD)
    then have "partition_to_value (rt_ext rt) (af_partition_values f) \<in> set (serialized_values (rt_ext rt) r c)"
      "logical_metrics (rt_ext rt) (af_metrics f) \<in> set (serialized_values (rt_ext rt) r c)" by (auto simp: serialized_values_def)
    then show "file_from (rt_ext rt) v = Some (projected_file_of i)" unfolding sf
      using i(2) laws m partitions [OF m(2)] by (intro file_from_value same) (auto simp: sf identities_ok_def)
  qed
  then have "commit_snapshot_from (rt_ext rt)
      (append_operation r (append_snapshot (rt_ext rt) r f0 (fr_snapshot_id fresh) parent_snapshot sequence_number summary) files)
    = Some (projected_append fresh r staged parent_snapshot sequence_number summary)"
    using snapshot_from_value [of "rt_ext rt" fresh parent_snapshot r f0 fs sequence_number summary staged] laws(1,3) p(1)
    unfolding commit_snapshot_from_def append_operation_def
    by (subst struct_from_obj) (simp_all add: member_def obj_of_key seq_from_def identities_ok_def projected_append_def)
  then show ?thesis using p(3) by simp
qed

text \<open>
  C38: verifying an append repeats it. The operation a validated append writes into its commit, file by file and metric by metric, reads
  back as what was appended: every identifier, path, length, digest, count, bound and metadata of the request and of what was staged for it, the sequence
  number, the parent and the summary; from these the replay finds the rows and texts of the writer's image again, although it fixes the
  format, the partition specification and the sort order and takes lengths and hashes from the commit, not from the staged objects, and it
  gives exactly these to the verifier's engine.
  The JSON crate is assumed to print and read the few values concerned as compact text, and the derived
  deserializer to take the members it finds there.
\<close>

theorem append_replayed:
  assumes "append_parts rt fresh r staged logical_hash parent = Inr (c, result, result_value, parent_snapshot, sequence_number, summary)"
    and "json_vec (rt_wire rt) (commit_to_value (rt_ext rt) c) = Inr commit_bytes"
    and "append_image_of rt ac fresh r staged logical_hash parent c uri commit_bytes result_value parent_snapshot sequence_number summary = Inr img"
    and "validate_request rt ac r parent = Inr ()" "validate_staged r staged (h_table_id (pt_head parent)) = Inr ()"
    and "hex_laws (rt_ext rt)" "quote_laws (rt_ext rt)" "identities_ok (rt_ext rt) fresh r staged parent_snapshot"
    and "\<forall>v \<in> set (serialized_values (rt_ext rt) r c). json_fits v \<and> json_faithful (rt_wire rt) v"
    and "\<forall>operation \<in> set (sc_operations c).
      derived_faithful (rt_wire rt) (commit_snapshot_from (rt_ext rt)) (rc_snapshot_json rc) operation"
  shows "\<exists>operation parts. sc_operations c = [operation]
    \<and> commit_snapshot_from (rt_ext rt) operation = Some (projected_append fresh r staged parent_snapshot sequence_number summary)
    \<and> ac_append_image ac (pt_resolved parent) parts = Inr img
    \<and> replay_append rt rc (pt_resolved parent) c uri = lift (rc_apply_append rc (pt_resolved parent) parts)"
proof -
  note read = operation_read_back [OF assms(1) validated_partitions [OF assms(4)] assms(6-9)]
  obtain operation where from_value: "sc_operations c = [operation]"
    "commit_snapshot_from (rt_ext rt) operation = Some (projected_append fresh r staged parent_snapshot sequence_number summary)"
    using read by blast
  have c: "sc_operations c = [operation]" "sc_commit_id c = fr_commit_id fresh"
    "sc_intents c = [\<lparr>ir_key = ar_idempotency_key r, ir_intent_sha256 = logical_hash, ir_operation_ids = [''append-main''],
       ir_result = result_value\<rparr>]"
    using from_value(1) by (auto intro: append_parts_Inr [OF assms(1)])
  have again: "reread (rt_wire rt) (rc_snapshot_json rc) operation
      = Inr (projected_append fresh r staged parent_snapshot sequence_number summary)"
    using assms(9,10) c(1) by (intro reread_derived [where shape = "commit_snapshot_from (rt_ext rt)"] assms(7) from_value(2))
      (auto simp: serialized_values_def)
  obtain a b d e fs where t: "canonical_text (rt_wire rt) (rt_utf8_error rt) result_value = Inr a"
    "canonical_text (rt_wire rt) (rt_utf8_error rt) (CArray (sc_operations c)) = Inr b"
    "canonical_text (rt_wire rt) (rt_utf8_error rt) (sc_metadata c) = Inr d"
    "canonical_text (rt_wire rt) (rt_utf8_error rt) (CObject (ar_snapshot_metadata r)) = Inr e"
    "try_map (image_file_of rt) (zip (ar_files r) staged) = Inr fs"
    and made: "ac_append_image ac (pt_resolved parent)
          \<lparr>ai_table_version = sc_table_version c, ai_created_at_ms = sc_created_at_ms c,
           ai_semantic_state = sc_semantic_state_sha256 c, ai_commit_id = fr_commit_id fresh,
           ai_commit_hash = object_hash (rt_ext rt) commit_bytes, ai_commit_uri = uri_as_str uri,
           ai_operation_json = b, ai_result_json = a, ai_commit_metadata_json = d, ai_idempotency_key = ar_idempotency_key r,
           ai_intent_hash = logical_hash, ai_snapshot_id = fr_snapshot_id fresh,
           ai_parent_snapshot_id = parent_snapshot, ai_target_ref = ar_target_ref r,
           ai_sequence_number = sequence_number, ai_summary = summary,
           ai_snapshot_metadata_json = e, ai_files = fs\<rparr> = Inr img"
    using assms(3) unfolding append_image_of_def Let_def and_then_eq_Inr by blast
  note files = replay_files_same [OF t(5) validated_pairs(1,2) [OF assms(4,5)]]
  have p: "jc_added_files (projected_append fresh r staged parent_snapshot sequence_number summary) = map projected_file_of (zip staged (ar_files r))"
    "jc_target_ref (projected_append fresh r staged parent_snapshot sequence_number summary) = ar_target_ref r"
    "js_summary (jc_snapshot (projected_append fresh r staged parent_snapshot sequence_number summary)) = CObject summary"
    "js_metadata (jc_snapshot (projected_append fresh r staged parent_snapshot sequence_number summary)) = CObject (ar_snapshot_metadata r)"
    "js_snapshot_id (jc_snapshot (projected_append fresh r staged parent_snapshot sequence_number summary)) = fr_snapshot_id fresh"
    "js_parent_snapshot_id (jc_snapshot (projected_append fresh r staged parent_snapshot sequence_number summary)) = parent_snapshot"
    "js_sequence_number (jc_snapshot (projected_append fresh r staged parent_snapshot sequence_number summary)) = sequence_number"
    by (simp_all add: projected_append_def Let_def)
  note t = t [unfolded c(1)]
  show ?thesis
    by (intro exI conjI, rule c(1), rule from_value(2), rule made)
      (simp add: replay_append_def Let_def c again p files assms(2) t)
qed

section \<open>Sample replays\<close>

text \<open>Engines that answer with the sample image, and deserializers that know the sample transaction.\<close>

definition rep_calls :: replay_calls where
  "rep_calls =
     \<lparr>rc_snapshot_json = (\<lambda>_. Inl ''''), rc_requirement_json = (\<lambda>_. Inr (RefAbsent ''new'')),
      rc_operation_json = (\<lambda>_. Inr (CreateRef ''o1'' ''new'' Branch None)), rc_metadata_json = (\<lambda>_. Inr []),
      rc_create_genesis = (\<lambda>_. Inr cand_img), rc_apply_append = (\<lambda>_ _. Inr cand_img), rc_apply_metadata = (\<lambda>_ _ _ _. Inr cand_img),
      rc_table_version = (\<lambda>_. Inr 3), rc_commit_uri = (\<lambda>_ _. Inr ''c2''), rc_table_names = (\<lambda>_. Inr []), rc_table_rows = (\<lambda>_ _. Inr [])\<rparr>"

lemma lift_eq: "lift r = Inr v \<longleftrightarrow> r = Inr v" by (simp add: lift_eq_Inr)

lemma tbl_reread:
  assumes "w_serde w = tbl_serde" "w_ext w = sample_externals" "typed tbl_bytes = Inr d"
  shows "reread w typed v = Inr d"
  by (simp add: reread_def json_vec_def to_vec_def assms tbl_to_value tbl_encode from_slice_canonical_def tbl_parses)

theorem genesis_replayed_witness:
  "\<exists>g. genesis_objects gen_runtime gen_create cand_fresh sample_id gen_request = Inr g
     \<and> replay_genesis gen_runtime rep_calls (gt_commit g) (gt_commit_uri g) = Inr cand_img"
proof -
  obtain g where g: "genesis_objects gen_runtime gen_create cand_fresh sample_id gen_request = Inr g" using gen_exists by blast
  have "reread (rt_wire gen_runtime) (w_schema (rt_wire gen_runtime)) v = Inr (iq_schema gen_request)" for v
    by (rule tbl_reread) (simp_all add: gen_request_def initialize_request_new_def)
  then obtain parts where "replay_genesis gen_runtime rep_calls (gt_commit g) (gt_commit_uri g) = lift (rc_create_genesis rep_calls parts)"
    using genesis_replayed [OF g, of rep_calls] by blast
  then show ?thesis using g by (simp add: rep_calls_def)
qed

lemma cand_encode:
  "encode sample_externals (CObject [(''ref'', CString ''new''), (''type'', CString ''ref_absent'')]) = Inr cand_requirement_bytes"
  "encode sample_externals (CObject [(''operation_id'', CString ''o1''), (''ref'', CString ''new''),
     (''ref_type'', CString ''branch''), (''snapshot_id'', CNull), (''type'', CString ''create_ref'')]) = Inr cand_operation_bytes"
  by (simp_all add: encode_def sample_externals_def cand_requirement_bytes_def cand_operation_bytes_def)

lemma cand_reread:
  assumes "typed cand_requirement_bytes = Inr d" "typed cand_operation_bytes = Inr d" "typed tbl_bytes = Inr d"
  shows "reread (rt_wire cand_runtime) typed v = Inr d"
proof -
  obtain v' bs where "to_value cand_serde v = Inr v'" "encode sample_externals v' = Inr bs" "parse_canonical cand_serde sample_externals bs = Inr v'"
    "typed bs = Inr d"
  proof -
    have "\<exists>v' bs. to_value cand_serde v = Inr v' \<and> encode sample_externals v' = Inr bs \<and> parse cand_serde bs = Inr v' \<and> typed bs = Inr d"
      unfolding cand_to_value using assms
      by (cases v) (auto simp: cand_encode cand_parse tbl_encode)
    then show thesis using that by (auto simp: parse_canonical_def)
  qed
  then show ?thesis by (simp add: reread_def json_vec_def to_vec_def from_slice_canonical_def)
qed

lemma cand_operation_plain:
  "json_value (rt_wire cand_runtime) v = Inr v' \<Longrightarrow> \<not> commit_is_append v'"
  by (cases v) (auto simp: json_value_def cand_to_value commit_is_append_def bt_get_def split: if_splits)

theorem transaction_replayed_witness:
  "\<exists>cd c. transaction_candidate cand_runtime cand_metadata cand_fresh cand_request sample_sha tbl_pinned = Some (Inr cd)
     \<and> replay_semantic_commit cand_runtime rep_calls (pt_resolved tbl_pinned) c (cd_commit_uri cd) = Inr cand_img"
proof -
  obtain cd where cd: "transaction_candidate cand_runtime cand_metadata cand_fresh cand_request sample_sha tbl_pinned = Some (Inr cd)"
    using cand_exists by blast
  have requests: "tr_requirements cand_request = [RefAbsent ''new'']" "tr_operations cand_request = [CreateRef ''o1'' ''new'' Branch None]"
    "tr_commit_metadata cand_request = []" by (simp_all add: cand_request_def)
  have calls: "rc_requirement_json rep_calls = (\<lambda>_. Inr (RefAbsent ''new''))"
    "rc_operation_json rep_calls = (\<lambda>_. Inr (CreateRef ''o1'' ''new'' Branch None))" "rc_metadata_json rep_calls = (\<lambda>_. Inr [])"
    "rc_table_version rep_calls = (\<lambda>_. Inr 3)" by (simp_all add: rep_calls_def)
  obtain c where "replay_semantic_commit cand_runtime rep_calls (pt_resolved tbl_pinned) c (cd_commit_uri cd)
      = lift (rc_apply_metadata rep_calls (pt_resolved tbl_pinned) c (cd_commit_uri cd) (tr_operations cand_request))"
  proof (rule exE [OF transaction_replayed [OF cd, of rep_calls]])
    show "rc_table_version rep_calls (pt_resolved tbl_pinned) = Inr (h_table_version (pt_head tbl_pinned))"
      "unat (h_table_version (pt_head tbl_pinned)) < 2 ^ 63 - 1" by (simp_all add: calls tbl_pinned_def tbl_head_def)
  qed (auto simp: requests calls cand_reread cand_operation_plain)
  then show ?thesis using cd by (auto simp: rep_calls_def)
qed

text \<open>An append of one file to the branch of the sample table.\<close>

definition rep_file :: append_file where
  "rep_file = \<lparr>af_source_path = ''f'', af_fingerprint = \<lparr>sfp_sha256 = sample_sha, sfp_length = 4\<rparr>, af_format = Parquet, af_record_count = 2,
     af_schema_id = 1, af_partition_spec_id = 0, af_sort_order_id = 0, af_partition_values = [], af_metrics = [], af_metadata = []\<rparr>"

definition rep_request :: append_request where
  "rep_request = \<lparr>ar_idempotency_key = ''k3'', ar_target_ref = ''dev'', ar_files = [rep_file], ar_summary = [],
     ar_commit_metadata = [], ar_snapshot_metadata = []\<rparr>"

definition rep_staged :: staged_file where
  "rep_staged = \<lparr>sf_table_id = sample_id, sf_ordinal = 0, sf_file_id = sample_id, sf_uri = RelativeUri ''data/f'', sf_version = ''v'',
     sf_sha256 = sample_sha, sf_length = 4, sf_format = Parquet, sf_object_identity = None\<rparr>"

definition rep_append_calls :: append_calls where
  "rep_append_calls = \<lparr>ac_append_image = (\<lambda>_ _. Inr cand_img), ac_result_json = (\<lambda>_. Inl ''''), ac_type_json = (\<lambda>_. Inl ''''),
     ac_operations_json = (\<lambda>_. Inl ''''), ac_open_source = (\<lambda>_. Inl '''')\<rparr>"

text \<open>
  A serializer that knows the operation of this append and the empty list of metrics, writes \<^verbatim>\<open>{}\<close> for everything else, and
  reads its own texts.
\<close>

definition rep_summary :: members where
  "rep_summary = bt_insert ''added-files-size'' (CString (show_nat 4))
     (bt_insert ''added-records'' (CString (show_nat 2)) (bt_insert ''added-data-files'' (CString (show_nat 1)) []))"

definition rep_operation_file :: canonical_value where
  "rep_operation_file =
     obj_of [(''file_id'', id_value sample_json sample_id), (''uri'', CString ''data/f''), (''object_identity'', CNull),
       (''file_format'', CString ''parquet''), (''file_size_bytes'', number_text (4 :: u64)), (''record_count'', number_text (2 :: u64)),
       (''schema_id'', number_text (1 :: u32)), (''partition_spec_id'', number_text (0 :: u32)), (''sort_order_id'', number_text (0 :: u32)),
       (''content_sha256'', sha_value sample_json sample_sha), (''partition_values'', CObject []), (''metrics'', CArray []),
       (''metadata'', CObject [])]"

definition rep_operation :: canonical_value where
  "rep_operation = append_operation rep_request (append_snapshot sample_json rep_request rep_file sample_id None 1 rep_summary) [rep_operation_file]"

definition rep_serde :: serde where
  "rep_serde =
     \<lparr>sj_events = (\<lambda>bs. if bs = as_bytes (encode_into sample_json rep_operation) then events_of rep_operation
        else if bs = as_bytes ''[]'' then ESeq [] None else EMap [] None),
      sj_end = (\<lambda>_. Inr ()), sj_render = (\<lambda>m. m),
      sj_to_vec = (\<lambda>v. Inr (if v = rep_operation \<or> v = CArray [] then as_bytes (encode_into sample_json v) else tbl_bytes))\<rparr>"

definition rep_runtime :: runtime where
  "rep_runtime = tbl_runtime\<lparr>rt_wire := tbl_wire\<lparr>w_serde := rep_serde, w_ext := sample_json\<rparr>\<rparr>"

definition rep_replay_calls :: replay_calls where
  "rep_replay_calls = rep_calls\<lparr>rc_snapshot_json := \<lambda>_. Inr (projected_append cand_fresh rep_request [rep_staged] None 1 rep_summary)\<rparr>"

lemma rep_runtime_simps [simp]: "w_serde (rt_wire rep_runtime) = rep_serde" "w_ext (rt_wire rep_runtime) = sample_json"
  "rt_db rep_runtime = tbl_database"
  by (simp_all add: rep_runtime_def tbl_runtime_def)

lemma rep_hex: "hex_laws sample_json" using sample_laws(1) by (simp add: hex_laws_def sample_json_def)

lemma rep_texts: "encode_into sample_json rep_operation \<noteq> ''[]''" "encode_into sample_json rep_operation \<noteq> ''{}''"
proof -
  obtain m where m: "rep_operation = CObject m" "bt_get m ''type'' = Some (CString ''commit_snapshot'')"
    by (simp add: rep_operation_def append_operation_def obj_of_def obj_of_key)
  have same: "rep_operation = v" if "encode_into sample_json rep_operation = encode_into sample_json v" for v
    using unambiguousD [OF encode_unambiguous [OF sample_quote_laws], of rep_operation "[]" v "[]"] that by (simp add: stops_def)
  have "rep_operation \<noteq> CArray []" "rep_operation \<noteq> CObject []" using m(2) by (auto simp: m(1) bt_get_def)
  moreover have "encode_into sample_json (CArray []) = ''[]''" "encode_into sample_json (CObject []) = ''{}''" by simp_all
  ultimately show "encode_into sample_json rep_operation \<noteq> ''[]''" "encode_into sample_json rep_operation \<noteq> ''{}''"
    using same by metis+
qed

lemma bt_extend_all: "list_all P m \<Longrightarrow> list_all P es \<Longrightarrow> list_all P (bt_extend m es)"
proof (induction es arbitrary: m)
  case (Cons e es)
  then have "list_all P (bt_extend (bt_insert (fst e) (snd e) m) es)" by (intro Cons.IH bt_insert_all) auto
  then show ?case by (cases e) (simp add: bt_extend_def)
qed (simp add: bt_extend_def)

lemma obj_of_fits:
  "list_all (\<lambda>e. string_ok (fst e) \<and> cv_ok (snd e)) es \<Longrightarrow> cv_ok (obj_of es)"
  "list_all (\<lambda>e. ints_ok (snd e)) es \<Longrightarrow> ints_ok (obj_of es)"
  by (simp_all add: obj_of_def bt_extend_all bt_ok_extend bt_ok_def [of "[]"])

lemma obj_of_depth: "\<forall>(k, v) \<in> set es. json_depth v \<le> n \<Longrightarrow> json_depth (obj_of es) \<le> Suc n"
proof -
  have "fold max (map (\<lambda>(_, v). json_depth v) m) d \<le> n" if "\<forall>(k, v) \<in> set m. json_depth v \<le> n" "d \<le> n" for m :: members and d
    using that by (induction m arbitrary: d) auto
  moreover assume "\<forall>(k, v) \<in> set es. json_depth v \<le> n"
  then have "list_all (\<lambda>(k, v). json_depth v \<le> n) (bt_extend [] es)" by (intro bt_extend_all) (auto simp: list_all_iff)
  ultimately show ?thesis by (simp add: obj_of_def list_all_iff)
qed

lemma array_depth: "\<forall>v \<in> set vs. json_depth v \<le> n \<Longrightarrow> json_depth (CArray vs) \<le> Suc n"
proof -
  have "fold max (map json_depth ws) d \<le> n" if "\<forall>v \<in> set ws. json_depth v \<le> n" "d \<le> n" for ws d
    using that by (induction ws arbitrary: d) auto
  then show "\<forall>v \<in> set vs. json_depth v \<le> n \<Longrightarrow> json_depth (CArray vs) \<le> Suc n" by simp
qed

lemma string_ok_text: "list_all (\<lambda>c. (of_char c :: nat) < 128) s \<Longrightarrow> length s < 1000 \<Longrightarrow> string_ok s"
  by (rule string_ok_ascii) auto

lemma rep_hex_texts: "string_ok (id_to_string sample_json sample_id)" "string_ok (sha_to_string sample_json sample_sha)"
proof -
  have "id_to_string sample_json sample_id = id_to_string sample_externals sample_id"
    by (simp add: id_to_string_def sample_json_def format_uuid_def Let_def)
  then show "string_ok (id_to_string sample_json sample_id)" using sample_id_text by (simp add: string_ok_text)
  have low: "is_lower_hex c \<Longrightarrow> (of_char c :: nat) < 128" for c
    by (auto simp: is_lower_hex_def is_digit_def)
  have "length (hex_encode sample_json bs) = 2 * length bs" "list_all is_lower_hex (hex_encode sample_json bs)" for bs
    using rep_hex by (auto simp: hex_laws_def)
  then have "list_all (\<lambda>c. (of_char c :: nat) < 128) (hex_encode sample_json (replicate 32 7))" "length (hex_encode sample_json (replicate 32 7)) = 64"
    using low by (auto simp: list_all_iff)
  then show "string_ok (sha_to_string sample_json sample_sha)"
    by (intro string_ok_text) (simp_all add: sha_to_string_def sample_sha_def)
qed

lemma rep_operation_fits: "json_fits rep_operation"
proof -
  have small: "show_nat 0 = ''0''" "show_nat 1 = ''1''" "show_nat (Suc 0) = ''1''" "show_nat 2 = ''2''" "show_nat 4 = ''4''"
    by (code_simp, code_simp, code_simp, code_simp, code_simp)
  have empty: "cv_ok (CObject [])" "ints_ok (CObject [])" "json_depth (CObject []) = Suc 0" by (simp_all add: bt_ok_def)
  note defs = number_text_def id_value_def sha_value_def small or_null_def rep_hex_texts empty string_ok_text
  have summary: "CObject rep_summary = obj_of [(''added-data-files'', CString ''1''), (''added-records'', CString ''2''), (''added-files-size'', CString ''4'')]"
    by (simp add: rep_summary_def obj_of_def bt_extend_def small)
  have s: "cv_ok (CObject rep_summary)" "ints_ok (CObject rep_summary)" "json_depth (CObject rep_summary) \<le> Suc 0"
    unfolding summary by (rule obj_of_fits, simp add: string_ok_text del: cv_ok.simps(4))
      (rule obj_of_fits obj_of_depth [where n = 0, simplified]; simp)+
  have f: "cv_ok rep_operation_file" "ints_ok rep_operation_file" "json_depth rep_operation_file \<le> 2"
    unfolding rep_operation_file_def
    by (rule obj_of_fits, simp add: defs del: cv_ok.simps(4))
      (rule obj_of_fits obj_of_depth [where n = 1, unfolded Suc_1]; simp add: defs)+
  let ?snapshot = "append_snapshot sample_json rep_request rep_file sample_id None 1 rep_summary"
  have p: "cv_ok ?snapshot" "ints_ok ?snapshot" "json_depth ?snapshot \<le> 2"
    unfolding append_snapshot_def
    by (rule obj_of_fits, simp add: defs s rep_request_def rep_file_def del: cv_ok.simps(4))
      (rule obj_of_fits obj_of_depth [where n = 1, unfolded Suc_1];
        simp add: defs s rep_request_def rep_file_def del: ints_ok.simps(3) json_depth.simps(2))+
  have target: "ar_target_ref rep_request = ''dev''" by (simp add: rep_request_def)
  have deep: "json_depth ?snapshot \<le> 3" "json_depth (CArray [rep_operation_file]) \<le> 3" using p(3) f(3) by simp_all
  have "cv_ok rep_operation" "ints_ok rep_operation" "json_depth rep_operation \<le> 4"
    unfolding rep_operation_def append_operation_def
    by (rule obj_of_fits, simp add: defs p f target del: cv_ok.simps(4))
      (rule obj_of_fits obj_of_depth [where n = 3, simplified];
        simp add: defs p f deep target del: json_depth.simps(2))+
  then show ?thesis by (simp add: json_fits_def)
qed

lemma rep_operation_type: "\<exists>m. rep_operation = CObject m \<and> bt_get m ''type'' = Some (CString ''commit_snapshot'')"
  by (simp add: rep_operation_def append_operation_def obj_of_def obj_of_key)

lemma rep_others:
  "commit_to_value x c \<noteq> rep_operation" "append_result_to_value x a \<noteq> rep_operation" "logical_file_to_value x f \<noteq> rep_operation"
  "CObject [] \<noteq> rep_operation" "CArray vs \<noteq> rep_operation" "commit_to_value x c \<noteq> CArray []" "append_result_to_value x a \<noteq> CArray []"
  "logical_file_to_value x f \<noteq> CArray []"
proof -
  obtain m where m: "rep_operation = CObject m" "bt_get m ''type'' = Some (CString ''commit_snapshot'')"
    using rep_operation_type by blast
  have "obj_of es \<noteq> rep_operation" if "map_of (rev es) ''type'' = None" for es
    using that m(2) obj_of_key [of es "''type''"] by (auto simp: obj_of_def m(1))
  then show "commit_to_value x c \<noteq> rep_operation" "append_result_to_value x a \<noteq> rep_operation" "logical_file_to_value x f \<noteq> rep_operation"
    by (simp_all add: commit_to_value_def append_result_to_value_def logical_file_to_value_def if_some_def split: option.splits)
  show "CObject [] \<noteq> rep_operation" "CArray vs \<noteq> rep_operation" using m(2) by (auto simp: m(1) bt_get_def)
  show "commit_to_value x c \<noteq> CArray []" "append_result_to_value x a \<noteq> CArray []" "logical_file_to_value x f \<noteq> CArray []"
    by (simp_all add: commit_to_value_def append_result_to_value_def logical_file_to_value_def obj_of_def)
qed

lemma rep_bytes: "as_bytes (encode_into sample_json rep_operation) \<noteq> as_bytes ''[]''" "as_bytes (encode_into sample_json rep_operation) \<noteq> tbl_bytes"
  using rep_texts by (simp_all only: as_bytes_inj tbl_bytes_def not_False_eq_True)

lemma rep_faithful:
  "json_faithful (rt_wire rep_runtime) rep_operation" "json_faithful (rt_wire rep_runtime) (CArray [])"
  "json_faithful (rt_wire rep_runtime) (CObject [])" "json_fits (CArray [])" "json_fits (CObject [])"
proof -
  have t: "as_bytes (encode_into sample_json (CArray [])) = as_bytes ''[]''" "as_bytes (encode_into sample_json (CObject [])) = tbl_bytes"
    "as_bytes ''[]'' \<noteq> tbl_bytes" by (simp_all add: tbl_bytes_def)
  note read = rep_serde_def reads_compact_def
  show "json_faithful (rt_wire rep_runtime) rep_operation" "json_faithful (rt_wire rep_runtime) (CArray [])"
    "json_faithful (rt_wire rep_runtime) (CObject [])"
    unfolding json_faithful_def rep_runtime_simps t
    using rep_bytes rep_bytes [symmetric] t(3) t(3) [symmetric] rep_others(4,5) rep_others(4,5) [symmetric]
    by (simp_all add: read t del: as_bytes_Cons encode_into.simps)
  show "json_fits (CArray [])" "json_fits (CObject [])" by (simp_all add: json_fits_def bt_ok_def)
qed

lemma rep_laws: "quote_laws (rt_ext rep_runtime)" "hex_laws (rt_ext rep_runtime)" by (simp_all add: sample_quote_laws rep_hex)

lemma rep_same:
  "json_value (rt_wire rep_runtime) (CArray []) = Inr (CArray [])" "json_value (rt_wire rep_runtime) (CObject []) = Inr (CObject [])"
  by (rule json_value_same [OF rep_laws(1)]; rule rep_faithful)+

lemma rep_plain:
  assumes "v \<noteq> rep_operation" "v \<noteq> CArray []"
  shows "json_value (rt_wire rep_runtime) v = Inr (CObject [])" "json_vec (rt_wire rep_runtime) v = Inr tbl_bytes"
    "canonical_text (rt_wire rep_runtime) bad v = Inr (string_of_bytes tbl_bytes)"
proof -
  have "sj_to_vec rep_serde v = sj_to_vec rep_serde (CObject [])" using assms rep_others(4) by (simp add: rep_serde_def)
  then have to: "to_value rep_serde v = Inr (CObject [])" using rep_same(2) by (simp add: json_value_def to_value_def result_simps)
  then show "json_value (rt_wire rep_runtime) v = Inr (CObject [])" "json_vec (rt_wire rep_runtime) v = Inr tbl_bytes"
    by (simp_all add: json_value_def json_vec_def to_vec_def tbl_encode)
  moreover have "utf8_valid tbl_bytes" by code_simp
  ultimately show "canonical_text (rt_wire rep_runtime) bad v = Inr (string_of_bytes tbl_bytes)" by (simp add: canonical_text_def)
qed

lemmas rep_jsons = rep_plain [OF rep_others(1,6)] rep_plain [OF rep_others(2,7)] rep_plain [OF rep_others(3,8)]
  rep_plain [OF rep_others(4) canonical_value.distinct(29) [symmetric]] rep_same

lemma rep_derived: "derived_summary rep_request = Inr rep_summary"
  by (simp add: derived_summary_iff total_records_def total_bytes_def rep_request_def rep_file_def rep_summary_def)

lemma rep_valid: "validate_request rep_runtime rep_append_calls rep_request tbl_pinned = Inr ()"
  "validate_staged rep_request [rep_staged] (h_table_id (pt_head tbl_pinned)) = Inr ()"
proof -
  have db: "db_open tbl_database img = Inr sample_connection" "db_meta_row tbl_database img = Inr (1, None, 0)"
    "db_field_type_rows tbl_database img i = Inr []" for img i by (simp_all add: tbl_database_def)
  have row: "ref_row sample_connection ''dev'' = Inr (Some (Branch, None))"
    by (simp add: ref_row_def sample_connection_def)
  have schema: "current_schema_and_snapshot rep_runtime img = Inr (1, None, 0)" for img
    by (simp add: current_schema_and_snapshot_def db)
  show "validate_request rep_runtime rep_append_calls rep_request tbl_pinned = Inr ()"
    using rep_derived
    by (simp add: validate_request_def db row schema field_types_def rep_request_def validate_file_def rep_jsons)
      (simp add: rep_file_def over_i64_def validate_metrics_def)
  show "validate_staged rep_request [rep_staged] (h_table_id (pt_head tbl_pinned)) = Inr ()"
    by (simp add: validate_staged_def rep_request_def rep_staged_def rep_file_def staged_step_def staged_entry_bad_def enumerate_eq_zip
        tbl_pinned_def tbl_head_def)
qed

lemma rep_operation_file: "operation_file rep_runtime (rep_staged, rep_file) = Inr rep_operation_file"
  by (simp add: operation_file_def Let_def rep_file_def rep_staged_def rep_operation_file_def partition_to_value_def logical_metrics_def
      uri_value_def obj_of_def [of "[]"] bt_extend_def [of _ "[]"] rep_same)

lemma rep_parts:
  "\<exists>c result. append_parts rep_runtime cand_fresh rep_request [rep_staged] sample_sha tbl_pinned
     = Inr (c, result, CObject [], None, 1, rep_summary) \<and> sc_operations c = [rep_operation] \<and> sc_metadata c = CObject []"
proof -
  have db: "db_open tbl_database img = Inr sample_connection" "db_meta_row tbl_database img = Inr (1, None, 0)"
    for img by (simp_all add: tbl_database_def)
  have row: "ref_row sample_connection ''dev'' = Inr (Some (Branch, None))"
    by (simp add: ref_row_def sample_connection_def)
  have schema: "current_schema_and_snapshot rep_runtime img = Inr (1, None, 0)" for img
    by (simp add: current_schema_and_snapshot_def db)
  have add: "checked_add (3 :: u64) 1 = Some 4" "checked_add (0 :: u64) 1 = Some 1" by (simp_all add: checked_add_def)
  have base: "h_table_version (pt_head tbl_pinned) = 3" by (simp add: tbl_pinned_def tbl_head_def)
  have request: "ar_target_ref rep_request = ''dev''" "ar_files rep_request = [rep_file]" "ar_commit_metadata rep_request = []"
    by (simp_all add: rep_request_def)
  have now: "fr_now_ms cand_fresh = Inr 0" "fr_snapshot_id cand_fresh = sample_id" by (simp_all add: cand_fresh_def)
  have body: "commit_body (rt_wire rep_runtime) c = Inr tbl_bytes" for c
    by (simp add: commit_body_def rep_jsons bt_remove_def tbl_encode)
  show ?thesis unfolding append_parts_def
    by (simp add: db row schema add base request now rep_derived Let_def rep_operation_file rep_jsons append_commit_def seal_commit_def
        rep_operation_def [symmetric] body)
qed

theorem append_replayed_witness:
  "\<exists>c result operation. append_parts rep_runtime cand_fresh rep_request [rep_staged] sample_sha tbl_pinned
       = Inr (c, result, CObject [], None, 1, rep_summary)
     \<and> sc_operations c = [operation]
     \<and> commit_snapshot_from sample_json operation = Some (projected_append cand_fresh rep_request [rep_staged] None 1 rep_summary)
     \<and> replay_append rep_runtime rep_replay_calls (pt_resolved tbl_pinned) c (RelativeUri ''c2'') = Inr cand_img"
proof -
  obtain c result where parts: "append_parts rep_runtime cand_fresh rep_request [rep_staged] sample_sha tbl_pinned
      = Inr (c, result, CObject [], None, 1, rep_summary)" "sc_operations c = [rep_operation]" "sc_metadata c = CObject []"
    using rep_parts by blast
  have img: "append_image_of rep_runtime rep_append_calls cand_fresh rep_request [rep_staged] sample_sha tbl_pinned c (RelativeUri ''c2'')
      tbl_bytes (CObject []) None 1 rep_summary = Inr cand_img"
    by (simp add: append_image_of_def Let_def rep_jsons parts rep_plain [OF rep_others(5)] image_file_of_def)
      (simp add: rep_request_def image_file_of_def rep_file_def rep_append_calls_def Let_def rep_jsons)
  have ids: "identities_ok (rt_ext rep_runtime) cand_fresh rep_request [rep_staged] None"
    by (simp add: identities_ok_def valid_id_def cand_fresh_def rep_staged_def rep_request_def rep_file_def sample_id_ok sha_ok_def sample_sha_def)
  have json: "\<forall>v \<in> set (serialized_values (rt_ext rep_runtime) rep_request c). json_fits v \<and> json_faithful (rt_wire rep_runtime) v"
    using rep_faithful rep_operation_fits
    by (simp add: serialized_values_def parts rep_request_def rep_file_def partition_to_value_def logical_metrics_def obj_of_def bt_extend_def)
  have partitions: "f \<in> set (ar_files rep_request) \<Longrightarrow> af_partition_values f = []" for f by (simp add: rep_request_def rep_file_def)
  have "commit_snapshot_from sample_json rep_operation = Some (projected_append cand_fresh rep_request [rep_staged] None 1 rep_summary)"
    using operation_read_back [OF parts(1) partitions rep_laws(2,1) ids json] parts(2) by simp
  then have derived: "\<forall>operation \<in> set (sc_operations c).
      derived_faithful (rt_wire rep_runtime) (commit_snapshot_from (rt_ext rep_runtime)) (rc_snapshot_json rep_replay_calls) operation"
    by (simp add: parts derived_faithful_def rep_replay_calls_def)
  obtain operation ai where "sc_operations c = [operation]"
    "commit_snapshot_from sample_json operation = Some (projected_append cand_fresh rep_request [rep_staged] None 1 rep_summary)"
    "replay_append rep_runtime rep_replay_calls (pt_resolved tbl_pinned) c (RelativeUri ''c2'')
      = lift (rc_apply_append rep_replay_calls (pt_resolved tbl_pinned) ai)"
    using append_replayed [OF parts(1) rep_jsons(2) img rep_valid rep_laws(2,1) ids json derived] by auto
  then show ?thesis using parts by (auto simp: rep_replay_calls_def rep_calls_def)
qed

end
