(* ===== verification/History.thy ===== *)
theory History
  imports Replay "HOL-Library.Product_Lexorder"
begin

text \<open>
  Reading the past of a table, \<^verbatim>\<open>otmp/src/runtime/history.rs\<close>: selecting an older version along the physical parents,
  resolving a snapshot and its files, and verifying the current table or everything it retains.

  The objects below a head are immutable, so a walk reads them through one \<open>reader\<close>, with the metadata cache threaded
  through. The walk over the generations is a partial function, since only the finitely many identifiers bound it. The SQL
  queries of this file are the record \<open>history_calls\<close>, which holds the engine of the replays. The counters of a report are checked
  additions.
\<close>

section \<open>Data\<close>

datatype metadata_selection = CurrentVersion | TableVersion u64
datatype snapshot_selection = SnapshotRef string | SnapshotId id | SequenceNumber u64
datatype verification_scope = CurrentScope | RetainedHistory

record head_anchor =
  ha_table_id :: id
  ha_table_version :: u64
  ha_root_revision :: u64
  ha_semantic_state_sha256 :: sha256

record metadata_coordinates =
  mc_table_id :: id
  mc_table_version :: u64
  mc_commit_id :: id
  mc_semantic_state_sha256 :: sha256
  mc_main_snapshot_id :: "id option"

record pinned_metadata =
  pm_state :: pinned_table
  pm_coordinates :: metadata_coordinates
  pm_anchor :: head_anchor

record resolved_snapshot =
  rs_state :: pinned_table
  rs_descriptor :: "snapshot_descriptor option"

record live_file =
  lf_file_id :: id
  lf_uri :: relative_uri
  lf_file_format :: string
  lf_file_size_bytes :: u64
  lf_record_count :: u64
  lf_content_sha256 :: "sha256 option"
  lf_sequence_number :: u64

record verification_report =
  vr_scope :: verification_scope
  vr_anchor :: head_anchor
  vr_completed :: bool
  vr_generations_checked :: u64
  vr_commits_checked :: u64
  vr_snapshots_checked :: u64
  vr_objects_checked :: u64
  vr_bytes_checked :: u64

type_synonym live_row = "byte list \<times> string \<times> string \<times> i64 \<times> i64 \<times> byte list option \<times> i64"
type_synonym file_row = "string \<times> byte list option \<times> i64"

record history_calls =
  hc_added_files :: "byte list \<Rightarrow> byte list \<Rightarrow> (runtime_error, (runtime_error, live_row) result list) result"
  hc_snapshots_at :: "byte list \<Rightarrow> i64 \<Rightarrow> (runtime_error, byte list list) result"
  hc_snapshot_ids :: "byte list \<Rightarrow> verification_scope \<Rightarrow> (runtime_error, (runtime_error, byte list) result list) result"
  hc_file_rows :: "byte list \<Rightarrow> byte list \<Rightarrow> (runtime_error, (runtime_error, file_row) result list) result"
  hc_meta_state :: "byte list \<Rightarrow> (runtime_error, byte list) result"
  hc_replay :: replay_calls

section \<open>Snapshots of a pinned table\<close>

definition resolve_snapshot :: "runtime \<Rightarrow> history_calls \<Rightarrow> pinned_table \<Rightarrow> snapshot_selection \<Rightarrow> (runtime_error, resolved_snapshot) result" where
  "resolve_snapshot rt hc state selection =
     and_then (db_open (rt_db rt) (pt_resolved state)) (\<lambda>cn.
     and_then
       (case selection of
          SnapshotRef name \<Rightarrow> and_then (ref_row cn name) (\<lambda>row. and_then (ok_or (RefNotFound name) row) (\<lambda>r. Inr (snd r)))
        | SnapshotId i \<Rightarrow> Inr (Some i)
        | SequenceNumber sequence \<Rightarrow>
            and_then (if over_i64 sequence then Inl SnapshotNotFound else Inr sequence) (\<lambda>sequence.
            and_then (hc_snapshots_at hc (pt_resolved state) sequence) (\<lambda>ids.
              case ids of
                [] \<Rightarrow> Inl SnapshotNotFound
              | [b] \<Rightarrow> and_then (id_from_blob (rt_ext rt) b) (\<lambda>i. Inr (Some i))
              | _ \<Rightarrow> Inl (Corrupt ''duplicate snapshot sequence'')))) (\<lambda>i.
     and_then (case i of None \<Rightarrow> Inr None | Some i \<Rightarrow> and_then (descriptor cn i) (\<lambda>d. Inr (Some d))) (\<lambda>d.
       Inr \<lparr>rs_state = state, rs_descriptor = d\<rparr>)))"

definition live_file_of :: "externals \<Rightarrow> (runtime_error, live_row) result \<Rightarrow> (runtime_error, live_file) result" where
  "live_file_of x row =
     and_then row (\<lambda>(i, uri, format, file_length, record_count, hash, sequence).
     and_then (id_from_blob x i) (\<lambda>i.
     and_then (map_err ProtocolErr (uri_from_str uri)) (\<lambda>uri.
     and_then (nonnegative file_length ''length'') (\<lambda>file_length.
     and_then (nonnegative record_count ''record count'') (\<lambda>record_count.
     and_then (case hash of None \<Rightarrow> Inr None | Some b \<Rightarrow> and_then (hash_from_blob b) (\<lambda>h. Inr (Some h))) (\<lambda>hash.
     and_then (nonnegative sequence ''sequence'') (\<lambda>sequence.
       Inr \<lparr>lf_file_id = i, lf_uri = uri, lf_file_format = format, lf_file_size_bytes = file_length,
            lf_record_count = record_count, lf_content_sha256 = hash, lf_sequence_number = sequence\<rparr>)))))))"

definition added_files :: "runtime \<Rightarrow> history_calls \<Rightarrow> byte list \<Rightarrow> id \<Rightarrow> (runtime_error, live_file list) result" where
  "added_files rt hc img i = and_then (hc_added_files hc img (id_as_bytes i)) (\<lambda>rows. try_map (live_file_of (rt_ext rt)) rows)"

definition live_order :: "live_file \<Rightarrow> u64 \<times> byte list" where
  "live_order f = (lf_sequence_number f, id_as_bytes (lf_file_id f))"

definition snapshot_files :: "runtime \<Rightarrow> history_calls \<Rightarrow> resolved_snapshot \<Rightarrow> (runtime_error, live_file list) result" where
  "snapshot_files rt hc rs =
     (let img = pt_resolved (rs_state rs) in
      and_then (db_open (rt_db rt) img) (\<lambda>cn.
      and_then (ancestry cn (map_option sd_snapshot_id (rs_descriptor rs))) (\<lambda>chain.
      and_then (try_fold (\<lambda>fs i. and_then (added_files rt hc img i) (\<lambda>gs. Inr (fs @ gs))) [] chain) (\<lambda>fs.
        Inr (sort_key live_order fs)))))"

definition anchor :: "pinned_table \<Rightarrow> head_anchor" where
  "anchor p =
     \<lparr>ha_table_id = h_table_id (pt_head p), ha_table_version = h_table_version (pt_head p),
      ha_root_revision = h_root_revision (pt_head p), ha_semantic_state_sha256 = h_semantic_state_sha256 (pt_head p)\<rparr>"

definition coordinates :: "pinned_table \<Rightarrow> metadata_coordinates" where
  "coordinates p =
     \<lparr>mc_table_id = h_table_id (pt_head p), mc_table_version = h_table_version (pt_head p),
      mc_commit_id = sc_commit_id (pt_commit p), mc_semantic_state_sha256 = h_semantic_state_sha256 (pt_head p),
      mc_main_snapshot_id = pt_current_main p\<rparr>"

section \<open>Walking the generations\<close>

text \<open>A pin through one reader.\<close>

definition reader_pin :: "runtime \<Rightarrow> reader \<Rightarrow> pinned_table io" where
  "reader_pin rt rd =
     io_bind (io_protocol (uri_from_str head_key)) (\<lambda>key.
     io_bind (io_of (lift (map_err StorageErr (rd_read rd key)))) (\<lambda>raw_head.
     io_bind (io_json rt (rt_head_json rt) (so_bytes raw_head)) (\<lambda>head.
       load_pin rt rd raw_head head)))"

definition validate_generation_edge :: "generation \<Rightarrow> generation \<Rightarrow> id set \<Rightarrow> (runtime_error, id set) result" where
  "validate_generation_edge child parent visited =
     (if g_generation_id parent \<in> visited \<or> g_table_id child \<noteq> g_table_id parent
         \<or> g_table_version parent > g_table_version child
         \<or> (g_table_version parent = g_table_version child
            \<and> (g_semantic_state_sha256 parent \<noteq> g_semantic_state_sha256 child
               \<or> g_semantic_commit parent \<noteq> g_semantic_commit child))
      then Inl (Corrupt ''invalid retained generation ancestry'')
      else Inr (insert (g_generation_id parent) visited))"

definition parent_head :: "head \<Rightarrow> object_reference \<Rightarrow> generation \<Rightarrow> semantic_commit \<Rightarrow> head" where
  "parent_head head reference generation commit =
     head\<lparr>h_table_version := g_table_version generation, h_semantic_state_sha256 := g_semantic_state_sha256 generation,
       h_semantic_commit := g_semantic_commit generation, h_metadata_generation := reference,
       h_required_reader_features := sc_required_reader_features_after_commit commit,
       h_required_writer_features := sc_required_writer_features_after_commit commit\<rparr>"

definition load_parent :: "runtime \<Rightarrow> reader \<Rightarrow> pinned_table \<Rightarrow> object_reference \<Rightarrow> id set \<Rightarrow> (pinned_table \<times> id set) io" where
  "load_parent rt rd child reference visited =
     (if or_media_type reference \<noteq> Some GENERATION_MEDIA_TYPE \<or> or_length reference = None
      then corrupt ''invalid physical parent reference''
      else
        io_bind (read_metadata rd reference) (\<lambda>raw.
        io_bind (io_json rt (rt_generation_json rt) (so_bytes raw)) (\<lambda>generation.
        io_bind (io_of (lift (validate_generation_edge (pt_generation child) generation visited))) (\<lambda>visited.
        io_bind (read_metadata rd (g_semantic_commit generation)) (\<lambda>commit_object.
        io_bind (io_json rt (rt_commit_json rt) (so_bytes commit_object)) (\<lambda>commit.
        io_bind (load_pin_objects rt rd \<lparr>so_bytes = pt_raw_head child, so_version = pt_head_version child\<rparr>
           (parent_head (pt_head child) reference generation commit) commit generation) (\<lambda>parent.
          io_return (parent, visited))))))))"

partial_function (option) select_loop :: "runtime \<Rightarrow> reader \<Rightarrow> u64 \<Rightarrow> pinned_table \<Rightarrow> id set \<Rightarrow> metadata_cache
    \<Rightarrow> ((runtime_error fault, pinned_table) result \<times> metadata_cache) option" where
  [code]: "select_loop rt rd version state visited c =
     (if h_table_version (pt_head state) \<le> version then Some (Inr state, c)
      else case g_physical_parent (pt_generation state) of
        None \<Rightarrow> Some (Inl (Fail (HistoryNotRetained version)), c)
      | Some reference \<Rightarrow>
          (case load_parent rt rd state reference visited c of
             (Inl e, c) \<Rightarrow> Some (Inl e, c)
           | (Inr (parent, visited), c) \<Rightarrow> select_loop rt rd version parent visited c))"

definition select_metadata :: "runtime \<Rightarrow> reader \<Rightarrow> metadata_selection \<Rightarrow> metadata_cache
    \<Rightarrow> ((runtime_error fault, pinned_metadata) result \<times> metadata_cache) option" where
  "select_metadata rt rd selection c =
     (case reader_pin rt rd c of
        (Inl e, c) \<Rightarrow> Some (Inl e, c)
      | (Inr first, c) \<Rightarrow>
          (let finish = (\<lambda>state. \<lparr>pm_state = state, pm_coordinates = coordinates state, pm_anchor = anchor first\<rparr>) in
           case selection of
             CurrentVersion \<Rightarrow> Some (Inr (finish first), c)
           | TableVersion version \<Rightarrow>
               if version > ha_table_version (anchor first) then Some (Inl (Fail (MetadataVersionNotFound version)), c)
               else case select_loop rt rd version first {g_generation_id (pt_generation first)} c of
                 None \<Rightarrow> None
               | Some (Inl e, c) \<Rightarrow> Some (Inl e, c)
               | Some (Inr state, c) \<Rightarrow>
                   if h_table_version (pt_head state) \<noteq> version then Some (Inl (Fail (HistoryNotRetained version)), c)
                   else Some (Inr (finish state), c)))"

text \<open>A table without a cache gets an empty one for the walk.\<close>

definition pin_metadata :: "runtime \<Rightarrow> reader \<Rightarrow> metadata_selection \<Rightarrow> metadata_cache
    \<Rightarrow> ((runtime_error fault, pinned_metadata) result \<times> metadata_cache) option" where
  "pin_metadata rt rd selection c =
     (case select_metadata rt rd selection (Some (case c of None \<Rightarrow> [] | Some m \<Rightarrow> m)) of
        None \<Rightarrow> None
      | Some (r, c') \<Rightarrow> Some (r, if c = None then None else c'))"

section \<open>Retained commits\<close>

text \<open>One turn of the walk over the parents of a commit.\<close>

definition retained_commit :: "runtime \<Rightarrow> reader \<Rightarrow> id \<Rightarrow> u64 option \<Rightarrow> object_reference \<Rightarrow> semantic_commit io" where
  "retained_commit rt rd table_id previous_version reference =
     (if or_media_type reference \<noteq> Some COMMIT_MEDIA_TYPE \<or> or_length reference = None
      then corrupt ''invalid retained commit reference''
      else
        io_bind (read_metadata rd reference) (\<lambda>raw.
        io_bind (io_json rt (rt_commit_json rt) (so_bytes raw)) (\<lambda>commit.
        io_bind (io_of (runtime_fault (commit_validate_runtime_profile (rt_wire rt) commit))) (\<lambda>_.
        if sc_table_id commit \<noteq> table_id
           \<or> (case previous_version of None \<Rightarrow> False | Some v \<Rightarrow> checked_add (sc_table_version commit) 1 \<noteq> Some v)
        then corrupt ''invalid retained semantic ancestry''
        else
          io_bind (io_of (lift (recomputed_state (rt_wire rt) commit))) (\<lambda>hash.
          if hash \<noteq> sc_semantic_state_sha256 commit then corrupt ''retained semantic state hash mismatch''
          else
            io_bind (io_protocol (require_supported (sc_required_reader_features_after_commit commit) supported_features)) (\<lambda>_.
              io_return commit))))))"

lemma retained_commit_descends:
  "retained_commit rt rd table_id (Some v) reference c = (Inr commit, c') \<Longrightarrow> unat (sc_table_version commit) < unat v"
  by (auto simp: retained_commit_def io_bind_def corrupt_def io_of_def io_return_def
      split: if_splits prod.splits sum.splits dest!: unat_checked_add)

function retained_commits :: "runtime \<Rightarrow> reader \<Rightarrow> id \<Rightarrow> object_reference option \<Rightarrow> u64 option \<Rightarrow> id set
    \<Rightarrow> (object_reference \<times> semantic_commit) list \<Rightarrow> ((object_reference \<times> semantic_commit) list \<times> id set) io" where
  "retained_commits rt rd table_id reference previous_version visited commits c =
     (case reference of
        None \<Rightarrow> (Inr (commits, visited), c)
      | Some r \<Rightarrow>
          (case retained_commit rt rd table_id previous_version r c of
             (Inl e, c) \<Rightarrow> (Inl e, c)
           | (Inr commit, c) \<Rightarrow>
               retained_commits rt rd table_id (sc_parent_commit commit) (Some (sc_table_version commit))
                 (insert (sc_commit_id commit) visited) (commits @ [(r, commit)]) c))"
  by pat_completeness auto
termination
  by (relation "measure (\<lambda>(_, _, _, _, previous, _). case previous of None \<Rightarrow> 2 ^ 64 | Some v \<Rightarrow> unat v)")
    (auto split: option.splits dest!: retained_commit_descends [OF sym] simp del: unat_u64_lt intro: less_le_trans [OF unat_lt_2p])

declare retained_commits.simps [simp del]

definition reconstruct_step :: "runtime \<Rightarrow> history_calls \<Rightarrow> checkpoint_image option \<Rightarrow> object_reference \<times> semantic_commit
    \<Rightarrow> (runtime_error fault, checkpoint_image option) result" where
  "reconstruct_step rt hc reconstructed item =
     (case item of (reference, commit) \<Rightarrow>
      and_then
        (case reconstructed of
           Some parent \<Rightarrow>
             and_then (lift (hc_meta_state hc (cki_bytes parent))) (\<lambda>row.
             and_then (lift (hash_from_blob row)) (\<lambda>state.
             if Some state \<noteq> sc_previous_semantic_state_sha256 commit then Inl (Fail (Corrupt ''retained semantic hash chain mismatch''))
             else replay_semantic_commit rt (hc_replay hc) (cki_bytes parent) commit (or_uri reference)))
         | None \<Rightarrow> replay_genesis rt (hc_replay hc) commit (or_uri reference)) (\<lambda>checkpoint.
      and_then (lift (db_validate_commit_projection (rt_db rt) (cki_bytes checkpoint) commit)) (\<lambda>_. Inr (Some checkpoint))))"

definition verify_retained_commit_tail :: "runtime \<Rightarrow> history_calls \<Rightarrow> reader \<Rightarrow> pinned_table \<Rightarrow> id set \<Rightarrow> (id set) io" where
  "verify_retained_commit_tail rt hc rd state visited =
     io_bind (retained_commits rt rd (h_table_id (pt_head state)) (Some (h_semantic_commit (pt_head state))) None visited [])
       (\<lambda>(commits, visited).
     io_bind (io_of (try_fold (reconstruct_step rt hc) None (rev commits))) (\<lambda>reconstructed.
     io_bind (io_or ''empty semantic history'' reconstructed) (\<lambda>img.
     io_bind (io_of (lift (compare_logical_images (hc_replay hc) (cki_bytes img) (pt_resolved state)))) (\<lambda>_.
       io_return visited))))"

section \<open>Snapshots and files to verify\<close>

definition record_file_reference :: "(string, object_reference) btree \<Rightarrow> object_reference
    \<Rightarrow> (runtime_error, (string, object_reference) btree) result" where
  "record_file_reference references reference =
     (case bt_get references (uri_as_str (or_uri reference)) of
        Some previous \<Rightarrow>
          if or_sha256 previous \<noteq> or_sha256 reference \<or> or_length previous \<noteq> or_length reference
          then Inl (Corrupt (''conflicting object reference: '' @ uri_as_str (or_uri reference)))
          else Inr references
      | None \<Rightarrow> Inr (bt_insert (uri_as_str (or_uri reference)) reference references))"

definition row_reference :: "(runtime_error, file_row) result \<Rightarrow> (runtime_error, object_reference) result" where
  "row_reference row =
     and_then row (\<lambda>(uri, hash, file_length).
     and_then (map_err ProtocolErr (uri_from_str uri)) (\<lambda>uri.
     and_then (ok_or (Corrupt ''missing content hash'') hash) (\<lambda>hash.
     and_then (hash_from_blob hash) (\<lambda>hash.
     and_then (nonnegative file_length ''file length'') (\<lambda>file_length.
       Inr \<lparr>or_uri = uri, or_sha256 = hash, or_length = Some file_length, or_media_type = None\<rparr>)))))"

definition record_files :: "history_calls \<Rightarrow> byte list \<Rightarrow> id \<Rightarrow> (string, object_reference) btree
    \<Rightarrow> (runtime_error, (string, object_reference) btree) result" where
  "record_files hc img i references =
     and_then (hc_file_rows hc img (id_as_bytes i)) (\<lambda>rows.
       try_fold (\<lambda>references row. and_then (row_reference row) (record_file_reference references)) references rows)"

definition visit_snapshot :: "history_calls \<Rightarrow> connection \<Rightarrow> byte list \<Rightarrow> id \<Rightarrow> (string, object_reference) btree
    \<Rightarrow> (runtime_error, id option \<times> (string, object_reference) btree) result" where
  "visit_snapshot hc cn img i references =
     and_then (descriptor cn i) (\<lambda>d.
     and_then (record_files hc img i references) (\<lambda>references. Inr (sd_parent_snapshot_id d, references)))"

lemma id_from_blob_ok: "id_from_blob x b = Inr i \<Longrightarrow> id_ok i"
  by (auto simp: id_from_blob_def id_try_from_bytes_def id_ok_def result_simps split: if_splits)

lemma descriptor_parent_ok: "descriptor cn i = Inr d \<Longrightarrow> sd_parent_snapshot_id d = Some p \<Longrightarrow> id_ok p"
  by (auto simp: descriptor_def optional_id_def and_then_eq_Inr case_prod_unfold split: option.splits) (erule id_from_blob_ok)

lemma visit_parent_ok: "visit_snapshot hc cn img i references = Inr (Some p, references') \<Longrightarrow> id_ok p"
  by (auto simp: visit_snapshot_def result_simps dest: descriptor_parent_ok)

lemma finite_ids: "finite {i. id_ok i}"
proof -
  have "{i. id_ok i} = Id ` {bs :: byte list. set bs \<subseteq> UNIV \<and> length bs = 16}"
    by (auto simp: id_ok_def image_iff) (metis id.collapse)
  then show ?thesis using finite_lists_length_eq [of "UNIV :: byte set" 16] by simp
qed

text \<open>The pending snapshots are a stack, its top first.\<close>

function collect_loop :: "history_calls \<Rightarrow> connection \<Rightarrow> byte list \<Rightarrow> id list \<Rightarrow> id set \<Rightarrow> (string, object_reference) btree
    \<Rightarrow> (runtime_error, id set \<times> (string, object_reference) btree) result" where
  "collect_loop hc cn img [] snapshots references = Inr (snapshots, references)"
| "collect_loop hc cn img (i # pending) snapshots references =
     (if i \<in> snapshots then collect_loop hc cn img pending snapshots references
      else case visit_snapshot hc cn img i references of
        Inl e \<Rightarrow> Inl e
      | Inr (parent, references) \<Rightarrow>
          collect_loop hc cn img ((case parent of None \<Rightarrow> [] | Some p \<Rightarrow> [p]) @ pending) (insert i snapshots) references)"
  by pat_completeness auto
termination
proof (relation "measures [\<lambda>(_, _, _, pending, snapshots, _). card ({i. id_ok i} \<union> set pending - snapshots), \<lambda>(_, _, _, pending, _). length pending]", goal_cases)
  case (2 hc cn img i pending snapshots references)
  then have "{i. id_ok i} \<union> set (i # pending) - snapshots = {i. id_ok i} \<union> set pending - snapshots - {i} \<union> ({i} \<inter> ({i. id_ok i} \<union> set (i # pending) - snapshots))"
    by auto
  then have "{j. id_ok j} \<union> set pending - snapshots \<subseteq> {j. id_ok j} \<union> set (i # pending) - snapshots" by auto
  then have "card ({j. id_ok j} \<union> set pending - snapshots) \<le> card ({j. id_ok j} \<union> set (i # pending) - snapshots)"
    by (intro card_mono) (simp_all add: finite_ids)
  then show ?case by (auto simp: le_less)
next
  case (3 hc cn img i pending snapshots references y parent references')
  then have "set (case parent of None \<Rightarrow> [] | Some p \<Rightarrow> [p]) \<subseteq> {i. id_ok i}"
    by (auto split: option.splits dest: visit_parent_ok)
  then have "{j. id_ok j} \<union> set ((case parent of None \<Rightarrow> [] | Some p \<Rightarrow> [p]) @ pending) - insert i snapshots
      \<subset> {j. id_ok j} \<union> set (i # pending) - snapshots"
    using 3(1) by auto
  then show ?case by (simp add: psubset_card_mono finite_ids)
qed simp

definition collect_snapshot_files :: "runtime \<Rightarrow> history_calls \<Rightarrow> pinned_table \<Rightarrow> verification_scope \<Rightarrow> id set
    \<Rightarrow> (string, object_reference) btree \<Rightarrow> (runtime_error, id set \<times> (string, object_reference) btree) result" where
  "collect_snapshot_files rt hc state scope snapshots references =
     (let img = pt_resolved state in
      and_then (db_open (rt_db rt) img) (\<lambda>cn.
      and_then (hc_snapshot_ids hc img scope) (\<lambda>rows.
      and_then (try_map (\<lambda>row. and_then row (id_from_blob (rt_ext rt))) rows) (\<lambda>pending.
        collect_loop hc cn img (rev pending) snapshots references))))"

section \<open>Verification\<close>

record verify_state =
  vs_generations :: u64
  vs_visited :: "id set"
  vs_commits :: "id set"
  vs_snapshots :: "id set"
  vs_files :: "(string, object_reference) btree"

text \<open>What one turn of the loop checks before it moves to the parent.\<close>

definition verify_turn :: "runtime \<Rightarrow> history_calls \<Rightarrow> verification_scope \<Rightarrow> pinned_table \<Rightarrow> verify_state \<Rightarrow> verify_state io" where
  "verify_turn rt hc scope state s =
     io_bind (io_some (checked_add (vs_generations s) 1)) (\<lambda>generations.
     io_bind (io_of (lift (collect_snapshot_files rt hc state scope (vs_snapshots s) (vs_files s)))) (\<lambda>(snapshots, files).
       io_return (s\<lparr>vs_generations := generations, vs_commits := insert (sc_commit_id (pt_commit state)) (vs_commits s),
         vs_snapshots := snapshots, vs_files := files\<rparr>)))"

definition verify_parent :: "runtime \<Rightarrow> history_calls \<Rightarrow> reader \<Rightarrow> pinned_table \<Rightarrow> object_reference \<Rightarrow> verify_state
    \<Rightarrow> (pinned_table \<times> verify_state) io" where
  "verify_parent rt hc rd state reference s =
     io_bind (load_parent rt rd state reference (vs_visited s)) (\<lambda>(parent, visited).
     io_bind (io_of (validate_transition rt (hc_replay hc) (pt_resolved parent) (pt_resolved state) (pt_commit state))) (\<lambda>_.
       io_return (parent, s\<lparr>vs_visited := visited\<rparr>)))"

partial_function (option) verify_loop :: "runtime \<Rightarrow> history_calls \<Rightarrow> reader \<Rightarrow> verification_scope \<Rightarrow> pinned_table \<Rightarrow> verify_state
    \<Rightarrow> metadata_cache \<Rightarrow> ((runtime_error fault, verify_state) result \<times> metadata_cache) option" where
  [code]: "verify_loop rt hc rd scope state s c =
     (case verify_turn rt hc scope state s c of
        (Inl e, c) \<Rightarrow> Some (Inl e, c)
      | (Inr s, c) \<Rightarrow>
          if scope = CurrentScope then Some (Inr s, c)
          else case g_physical_parent (pt_generation state) of
            None \<Rightarrow>
              Some (io_bind (verify_retained_commit_tail rt hc rd state (vs_commits s)) (\<lambda>commits. io_return (s\<lparr>vs_commits := commits\<rparr>)) c)
          | Some reference \<Rightarrow>
              (case verify_parent rt hc rd state reference s c of
                 (Inl e, c) \<Rightarrow> Some (Inl e, c)
               | (Inr (parent, s), c) \<Rightarrow> verify_loop rt hc rd scope parent s c))"

text \<open>A file that the metadata reads did not cover is read and discarded.\<close>

definition verify_file :: "reader \<Rightarrow> (string, verified_metadata) btree \<Rightarrow> u64 \<times> u64 \<Rightarrow> object_reference
    \<Rightarrow> (runtime_error fault, u64 \<times> u64) result" where
  "verify_file rd cached counts reference =
     (case bt_get cached (uri_as_str (or_uri reference)) of
        Some v \<Rightarrow> and_then (lift (vm_check v reference)) (\<lambda>_. Inr counts)
      | None \<Rightarrow>
          and_then (lift (verified_read rd reference)) (\<lambda>raw.
          and_then (ok_or Panicked (checked_add (fst counts) 1)) (\<lambda>objects.
          and_then (ok_or Panicked (checked_add (snd counts) (u64_of_usize (length (so_bytes raw))))) (\<lambda>bytes.
            Inr (objects, bytes)))))"

definition finish_report :: "reader \<Rightarrow> verification_scope \<Rightarrow> pinned_table \<Rightarrow> verify_state \<Rightarrow> (string, verified_metadata) btree
    \<Rightarrow> (runtime_error fault, verification_report) result" where
  "finish_report rd scope first s cached =
     and_then (try_fold (verify_file rd cached) (1, u64_of_usize (length (pt_raw_head first))) (map snd (vs_files s))) (\<lambda>(objects, bytes).
     and_then (ok_or Panicked (checked_add objects (u64_of_usize (length cached)))) (\<lambda>objects.
     and_then (try_fold (\<lambda>n (_, v). ok_or Panicked (checked_add n (u64_of_usize (length (so_bytes (vm_object v)))))) 0 cached) (\<lambda>held.
     and_then (ok_or Panicked (checked_add bytes held)) (\<lambda>bytes.
       Inr \<lparr>vr_scope = scope, vr_anchor = anchor first, vr_completed = True, vr_generations_checked = vs_generations s,
            vr_commits_checked = u64_of_usize (card (vs_commits s)), vr_snapshots_checked = u64_of_usize (card (vs_snapshots s)),
            vr_objects_checked = objects, vr_bytes_checked = bytes\<rparr>))))"

definition verify_with_report :: "runtime \<Rightarrow> history_calls \<Rightarrow> reader \<Rightarrow> verification_scope
    \<Rightarrow> (runtime_error fault, verification_report) result option" where
  "verify_with_report rt hc rd scope =
     (case reader_pin rt rd (Some []) of
        (Inl e, _) \<Rightarrow> Some (Inl e)
      | (Inr first, c) \<Rightarrow>
          (case verify_loop rt hc rd scope first
              \<lparr>vs_generations = 0, vs_visited = {g_generation_id (pt_generation first)}, vs_commits = {}, vs_snapshots = {}, vs_files = []\<rparr> c of
             None \<Rightarrow> None
           | Some (Inl e, _) \<Rightarrow> Some (Inl e)
           | Some (Inr s, c) \<Rightarrow> Some (case c of None \<Rightarrow> Inl Panicked | Some cached \<Rightarrow> finish_report rd scope first s cached)))"

definition verify :: "runtime \<Rightarrow> history_calls \<Rightarrow> reader \<Rightarrow> (runtime_error fault, unit) result option" where
  "verify rt hc rd = map_option (\<lambda>r. and_then r (\<lambda>_. Inr ())) (verify_with_report rt hc rd CurrentScope)"

definition verify_history :: "runtime \<Rightarrow> history_calls \<Rightarrow> reader \<Rightarrow> (runtime_error fault, unit) result option" where
  "verify_history rt hc rd = map_option (\<lambda>r. and_then r (\<lambda>_. Inr ())) (verify_with_report rt hc rd RetainedHistory)"

section \<open>What a pin along the history guarantees\<close>

lemma safe_runtime_fault: "safe r \<Longrightarrow> safe (runtime_fault r)"
  by (auto simp: safe_def runtime_fault_def map_err_def split: sum.splits fault.splits)

text \<open>A state whose objects were checked against each other and whose image is the one its generation names.\<close>

definition pinned_ok :: "runtime \<Rightarrow> reader \<Rightarrow> pinned_table \<Rightarrow> bool" where
  "pinned_ok rt rd p =
     (check_pin_objects rt (pt_head p) (pt_commit p) (pt_generation p) = Inr ()
      \<and> check_pin_image rt (pt_head p) (pt_commit p) (pt_resolved p) = Inr (pt_current_main p)
      \<and> resolved rd (pt_generation p) \<lparr>rg_checkpoint = pt_checkpoint p, rg_bytes = pt_resolved p, rg_tree = pt_page_tree p\<rparr>)"

lemma generation_page_size: "generation_validate_runtime_profile g = Inr () \<Longrightarrow> mi_page_size (g_metadata_image g) = 4096"
  by (auto simp: generation_validate_runtime_profile_def Let_def split: if_splits)

lemma safe_check_pin_objects: "safe (check_pin_objects rt h c g)"
  unfolding check_pin_objects_def by (intro safe_intros safe_runtime_fault safe_commit_runtime_profile)

lemma resolved_generation_eta: "\<lparr>rg_checkpoint = rg_checkpoint p, rg_bytes = rg_bytes p, rg_tree = rg_tree p\<rparr> = (p :: resolved_generation)"
  by (cases p) simp

lemma ensures_load_pin_objects:
  assumes "reader_ok rd"
  shows "ensures rd (load_pin_objects rt rd raw h c g)
    (\<lambda>p. pinned_ok rt rd p \<and> pt_head p = h \<and> pt_commit p = c \<and> pt_generation p = g
       \<and> pt_raw_head p = so_bytes raw \<and> pt_head_version p = so_version raw)"
proof -
  have "ensures rd (io_of (check_pin_objects rt h c g)) (\<lambda>_. check_pin_objects rt h c g = Inr ())"
    by (rule ensures_of [OF safe_check_pin_objects]) simp
  then show ?thesis unfolding load_pin_objects_def
  proof (rule ensures_bind)
    assume ok: "check_pin_objects rt h c g = Inr ()"
    then have "mi_page_size (g_metadata_image g) = 4096" by (simp add: pin_objects_Inr generation_page_size)
    from ensures_resolve_generation [OF assms this]
    show "ensures rd (io_bind (resolve_generation rd g) (\<lambda>physical. io_bind (io_of (lift (check_pin_image rt h c (rg_bytes physical))))
        (\<lambda>current_main. io_return \<lparr>pt_raw_head = so_bytes raw, pt_head_version = so_version raw, pt_head = h, pt_commit = c, pt_generation = g,
          pt_current_main = current_main, pt_checkpoint = rg_checkpoint physical, pt_page_tree = rg_tree physical, pt_resolved = rg_bytes physical\<rparr>)))
      (\<lambda>p. pinned_ok rt rd p \<and> pt_head p = h \<and> pt_commit p = c \<and> pt_generation p = g \<and> pt_raw_head p = so_bytes raw \<and> pt_head_version p = so_version raw)"
    proof (rule ensures_bind)
      fix physical assume r: "resolved rd g physical"
      show "ensures rd (io_bind (io_of (lift (check_pin_image rt h c (rg_bytes physical))))
          (\<lambda>current_main. io_return \<lparr>pt_raw_head = so_bytes raw, pt_head_version = so_version raw, pt_head = h, pt_commit = c, pt_generation = g,
            pt_current_main = current_main, pt_checkpoint = rg_checkpoint physical, pt_page_tree = rg_tree physical, pt_resolved = rg_bytes physical\<rparr>))
        (\<lambda>p. pinned_ok rt rd p \<and> pt_head p = h \<and> pt_commit p = c \<and> pt_generation p = g \<and> pt_raw_head p = so_bytes raw \<and> pt_head_version p = so_version raw)"
        by (rule ensures_bind [OF ensures_lift]) (use ok r in \<open>auto intro!: ensures_return simp: pinned_ok_def resolved_generation_eta\<close>)
    qed
  qed
qed

text \<open>Bytes that the reader holds under a reference and that decode to a generation or a commit.\<close>

definition stored_generation :: "runtime \<Rightarrow> reader \<Rightarrow> object_reference \<Rightarrow> generation \<Rightarrow> bool" where
  "stored_generation rt rd r g =
     (\<exists>raw. read_as rd r raw
        \<and> from_slice_canonical (w_serde (rt_wire rt)) (rt_ext rt) (rt_generation_json rt) (so_bytes raw) = Inr g)"

definition stored_commit :: "runtime \<Rightarrow> reader \<Rightarrow> object_reference \<Rightarrow> semantic_commit \<Rightarrow> bool" where
  "stored_commit rt rd r c =
     (\<exists>raw. read_as rd r raw
        \<and> from_slice_canonical (w_serde (rt_wire rt)) (rt_ext rt) (rt_commit_json rt) (so_bytes raw) = Inr c)"

lemma ensures_json:
  "ensures rd (io_json rt typed bs) (\<lambda>v. from_slice_canonical (w_serde (rt_wire rt)) (rt_ext rt) typed bs = Inr v)"
  unfolding io_json_def by (rule ensures_protocol)

lemma ensures_stored:
  assumes "reader_ok rd"
  shows "ensures rd (io_bind (read_metadata rd r) (\<lambda>raw. io_json rt typed (so_bytes raw)))
    (\<lambda>v. \<exists>raw. read_as rd r raw \<and> from_slice_canonical (w_serde (rt_wire rt)) (rt_ext rt) typed (so_bytes raw) = Inr v)"
  by (rule ensures_bind [OF ensures_read [OF assms]]) (rule ensures_weaken [OF ensures_json], blast)

lemma io_bind_assoc: "io_bind (io_bind m f) g = io_bind m (\<lambda>v. io_bind (f v) g)"
  by (auto simp: io_bind_def fun_eq_iff split: prod.splits sum.splits)

text \<open>One step from a state to its physical parent.\<close>

definition physical_edge :: "runtime \<Rightarrow> reader \<Rightarrow> pinned_table \<Rightarrow> pinned_table \<Rightarrow> bool" where
  "physical_edge rt rd child parent =
     (\<exists>r. g_physical_parent (pt_generation child) = Some r \<and> stored_generation rt rd r (pt_generation parent)
        \<and> stored_commit rt rd (g_semantic_commit (pt_generation parent)) (pt_commit parent)
        \<and> h_table_id (pt_head parent) = h_table_id (pt_head child)
        \<and> h_table_version (pt_head parent) \<le> h_table_version (pt_head child)
        \<and> (h_table_version (pt_head parent) = h_table_version (pt_head child) \<longrightarrow>
             h_semantic_state_sha256 (pt_head parent) = h_semantic_state_sha256 (pt_head child)
             \<and> h_semantic_commit (pt_head parent) = h_semantic_commit (pt_head child)))"

lemma edge_Inr:
  "validate_generation_edge child parent visited = Inr visited' \<longleftrightarrow>
     g_generation_id parent \<notin> visited \<and> g_table_id child = g_table_id parent \<and> g_table_version parent \<le> g_table_version child
     \<and> (g_table_version parent = g_table_version child \<longrightarrow>
          g_semantic_state_sha256 parent = g_semantic_state_sha256 child \<and> g_semantic_commit parent = g_semantic_commit child)
     \<and> visited' = insert (g_generation_id parent) visited"
  by (auto simp: validate_generation_edge_def not_less)

lemma ensures_load_parent:
  assumes "reader_ok rd" "pinned_ok rt rd child" "g_physical_parent (pt_generation child) = Some r"
  shows "ensures rd (load_parent rt rd child r visited)
    (\<lambda>(parent, visited'). pinned_ok rt rd parent \<and> physical_edge rt rd child parent
       \<and> g_generation_id (pt_generation parent) \<notin> visited \<and> visited' = insert (g_generation_id (pt_generation parent)) visited)"
proof (cases "or_media_type r \<noteq> Some GENERATION_MEDIA_TYPE \<or> or_length r = None")
  case True
  then show ?thesis by (simp add: load_parent_def ensures_corrupt)
next
  case False
  let ?Q = "\<lambda>(parent, visited'). pinned_ok rt rd parent \<and> physical_edge rt rd child parent
       \<and> g_generation_id (pt_generation parent) \<notin> visited \<and> visited' = insert (g_generation_id (pt_generation parent)) visited"
  have last: "ensures rd (io_bind (load_pin_objects rt rd raw (parent_head (pt_head child) r g c) c g) (\<lambda>parent. io_return (parent, visited'))) ?Q"
    if g: "stored_generation rt rd r g" and e: "validate_generation_edge (pt_generation child) g visited = Inr visited'"
      and c: "stored_commit rt rd (g_semantic_commit g) c" for raw g c visited'
  proof (rule ensures_bind [OF ensures_load_pin_objects [OF assms(1)]])
    fix p assume p: "pinned_ok rt rd p \<and> pt_head p = parent_head (pt_head child) r g c \<and> pt_commit p = c \<and> pt_generation p = g
      \<and> pt_raw_head p = so_bytes raw \<and> pt_head_version p = so_version raw"
    have ch: "check_pin_objects rt (pt_head child) (pt_commit child) (pt_generation child) = Inr ()" using assms(2) by (simp add: pinned_ok_def)
    have "physical_edge rt rd child p" unfolding physical_edge_def
      using assms(3) g c e p ch by (intro exI [of _ r]) (auto simp: parent_head_def edge_Inr pin_objects_Inr)
    then show "ensures rd (io_return (p, visited')) ?Q" using p e by (auto intro!: ensures_return simp: edge_Inr)
  qed
  have "ensures rd (io_bind (io_bind (read_metadata rd r) (\<lambda>raw. io_json rt (rt_generation_json rt) (so_bytes raw))) (\<lambda>generation.
        io_bind (io_of (lift (validate_generation_edge (pt_generation child) generation visited))) (\<lambda>visited.
        io_bind (io_bind (read_metadata rd (g_semantic_commit generation)) (\<lambda>commit_object. io_json rt (rt_commit_json rt) (so_bytes commit_object))) (\<lambda>commit.
        io_bind (load_pin_objects rt rd \<lparr>so_bytes = pt_raw_head child, so_version = pt_head_version child\<rparr>
           (parent_head (pt_head child) r generation commit) commit generation) (\<lambda>parent.
          io_return (parent, visited)))))) ?Q"
    by (rule ensures_bind [OF ensures_stored [OF assms(1)]], rule ensures_bind [OF ensures_lift], assumption,
        rule ensures_bind [OF ensures_stored [OF assms(1)]], rule last)
      (simp_all add: stored_generation_def stored_commit_def)
  then show ?thesis using False by (auto simp: load_parent_def io_bind_assoc)
qed

definition generation_id_of :: "pinned_table \<Rightarrow> id" where
  "generation_id_of p = g_generation_id (pt_generation p)"

definition retained_chain :: "runtime \<Rightarrow> reader \<Rightarrow> pinned_table list \<Rightarrow> bool" where
  "retained_chain rt rd states =
     (states \<noteq> [] \<and> list_all (pinned_ok rt rd) states \<and> successively (physical_edge rt rd) states
      \<and> distinct (map generation_id_of states))"

lemma retained_chain_snoc:
  assumes "retained_chain rt rd states" "pinned_ok rt rd p" "physical_edge rt rd (last states) p"
    "generation_id_of p \<notin> generation_id_of ` set states"
  shows "retained_chain rt rd (states @ [p])"
  using assms by (auto simp: retained_chain_def successively_append_iff)

definition above :: "u64 \<Rightarrow> pinned_table \<Rightarrow> bool" where
  "above v p = (h_table_version (pt_head p) > v)"

definition select_post :: "runtime \<Rightarrow> reader \<Rightarrow> u64 \<Rightarrow> pinned_table \<Rightarrow> id set \<Rightarrow> metadata_cache
    \<Rightarrow> (runtime_error fault, pinned_table) result \<times> metadata_cache \<Rightarrow> bool" where
  "select_post rt rd v state visited c y =
     (\<forall>states. reader_ok rd \<and> cache_ok rd c \<and> retained_chain rt rd states \<and> last states = state
        \<and> visited = generation_id_of ` set states \<and> list_all (above v) (butlast states) \<longrightarrow>
        safe (fst y) \<and> cache_ok rd (snd y)
        \<and> (\<forall>p. fst y = Inr p \<longrightarrow> \<not> above v p \<and> (\<exists>more. retained_chain rt rd (states @ more) \<and> last (states @ more) = p
             \<and> list_all (above v) (butlast (states @ more)))))"

lemma select_loop_sound:
  assumes "select_loop rt rd v state visited c = Some y"
  shows "select_post rt rd v state visited c y"
proof (rule select_loop.raw_induct [where P = select_post, OF _ assms])
  fix loop rt rd v state visited c y
  assume IH: "\<And>rt rd v state visited c y. loop rt rd v state visited c = Some y \<Longrightarrow> select_post rt rd v state visited c y"
    and body: "(if h_table_version (pt_head state) \<le> v then Some (Inr state, c)
      else case g_physical_parent (pt_generation state) of
        None \<Rightarrow> Some (Inl (Fail (HistoryNotRetained v)), c)
      | Some reference \<Rightarrow>
          (case load_parent rt rd state reference visited c of
             (Inl e, c) \<Rightarrow> Some (Inl e, c)
           | (Inr (parent, visited), c) \<Rightarrow> loop rt rd v parent visited c)) = Some y"
  show "select_post rt rd v state visited c y"
    unfolding select_post_def
  proof (intro allI impI, elim conjE)
    fix states
    assume prems: "reader_ok rd" "cache_ok rd c" "retained_chain rt rd states" "last states = state"
      "visited = generation_id_of ` set states" "list_all (above v) (butlast states)"
    have pinned: "pinned_ok rt rd state" using prems(3,4) by (auto simp: retained_chain_def list_all_iff)
    show "safe (fst y) \<and> cache_ok rd (snd y)
          \<and> (\<forall>p. fst y = Inr p \<longrightarrow> \<not> above v p \<and> (\<exists>more. retained_chain rt rd (states @ more) \<and> last (states @ more) = p
               \<and> list_all (above v) (butlast (states @ more))))"
    proof (cases "h_table_version (pt_head state) \<le> v")
      case True
      then show ?thesis using body prems by (auto simp: above_def intro!: exI [of _ "[]"])
    next
      case False
      show ?thesis
      proof (cases "g_physical_parent (pt_generation state)")
        case None
        then show ?thesis using body prems False by auto
      next
        case (Some r)
        obtain res c' where lp: "load_parent rt rd state r visited c = (res, c')" by (cases "load_parent rt rd state r visited c")
        have res: "safe res" "cache_ok rd c'" "\<And>p vis. res = Inr (p, vis) \<Longrightarrow> pinned_ok rt rd p \<and> physical_edge rt rd state p
             \<and> generation_id_of p \<notin> visited \<and> vis = insert (generation_id_of p) visited"
          using ensures_load_parent [OF prems(1) pinned Some, of visited] prems(2) lp
          by (auto simp: ensures_def generation_id_of_def)
        show ?thesis
        proof (cases res)
          case (Inl e)
          then show ?thesis using body False Some lp res by (auto simp: safe_def)
        next
          case (Inr pv)
          obtain p vis where pv: "pv = (p, vis)" by (cases pv)
          have p: "pinned_ok rt rd p" "physical_edge rt rd state p" "generation_id_of p \<notin> visited" "vis = insert (generation_id_of p) visited"
            using res(3) Inr pv by auto
          have rec: "loop rt rd v p vis c' = Some y" using body False Some lp Inr pv by simp
          have "retained_chain rt rd (states @ [p])"
            using retained_chain_snoc [OF prems(3)] p prems(4,5) by auto
          moreover have "butlast (states @ [p]) = butlast states @ [state]"
            using prems(3,4) by (auto simp: retained_chain_def)
          moreover have "list_all (above v) (butlast states @ [state])" using prems(6) False by (simp add: above_def not_le)
          ultimately have post: "safe (fst y) \<and> cache_ok rd (snd y)
              \<and> (\<forall>q. fst y = Inr q \<longrightarrow> \<not> above v q \<and> (\<exists>more. retained_chain rt rd ((states @ [p]) @ more) \<and> last ((states @ [p]) @ more) = q
                  \<and> list_all (above v) (butlast ((states @ [p]) @ more))))"
            by (intro IH [OF rec, unfolded select_post_def, rule_format]) (use prems(1,5) res(2) p in auto)
          show ?thesis
          proof (intro conjI allI impI)
            fix q assume "fst y = Inr q"
            with post show "\<not> above v q" by blast
            from post \<open>fst y = Inr q\<close> obtain more where "retained_chain rt rd ((states @ [p]) @ more)" "last ((states @ [p]) @ more) = q"
              "list_all (above v) (butlast ((states @ [p]) @ more))" by blast
            then show "\<exists>more. retained_chain rt rd (states @ more) \<and> last (states @ more) = q \<and> list_all (above v) (butlast (states @ more))"
              by (intro exI [of _ "p # more"]) simp
          qed (use post in blast)+
        qed
      qed
    qed
  qed
qed

lemma ensures_reader_pin:
  assumes "reader_ok rd"
  shows "ensures rd (reader_pin rt rd) (pinned_ok rt rd)"
proof -
  have "ensures rd (load_pin rt rd raw h) (pinned_ok rt rd)" for raw h
    unfolding load_pin_def
    by (rule ensures_bind [OF ensures_lift [where Q = "\<lambda>_. True"]], simp,
        rule ensures_bind [OF ensures_read [OF assms]], rule ensures_bind [OF ensures_json],
        rule ensures_bind [OF ensures_read [OF assms]], rule ensures_bind [OF ensures_json],
        rule ensures_weaken [OF ensures_load_pin_objects [OF assms]], simp)
  then show ?thesis
    unfolding reader_pin_def
    by (intro ensures_bind [OF ensures_protocol [where Q = "\<lambda>_. True"]] ensures_bind [OF ensures_lift [where Q = "\<lambda>_. True"]]
        ensures_bind [OF ensures_json]) simp_all
qed

text \<open>The identifiers of decoded generations are 16 bytes, so a walk cannot visit new ones for ever.\<close>

definition decodes_ids :: "runtime \<Rightarrow> bool" where
  "decodes_ids rt = (\<forall>bs g. rt_generation_json rt bs = Inr g \<longrightarrow> id_ok (g_generation_id g))"

lemma load_parent_visits:
  assumes "decodes_ids rt" "load_parent rt rd state r visited c = (Inr (p, visited'), c')"
  shows "\<exists>i. id_ok i \<and> i \<notin> visited \<and> visited' = insert i visited"
  using assms
  by (auto simp: load_parent_def io_bind_def corrupt_def io_of_def io_return_def io_json_def io_protocol_def decodes_ids_def lift_eq_Inr
      map_err_eq_Inr edge_Inr from_slice_canonical_def and_then_eq_Inr split: if_splits prod.splits sum.splits)

lemma fewer_ids:
  assumes "id_ok i" "i \<notin> visited"
  shows "card ({i. id_ok i} - insert i visited) < card ({i. id_ok i} - visited)"
proof -
  have "{i. id_ok i} - insert i visited \<subset> {i. id_ok i} - visited" using assms by auto
  then show ?thesis by (simp add: psubset_card_mono finite_ids)
qed

lemma select_loop_returns:
  assumes "decodes_ids rt"
  shows "\<exists>y. select_loop rt rd v state visited c = Some y"
proof (induction "card ({i. id_ok i} - visited)" arbitrary: state visited c rule: less_induct)
  case less
  show ?case
  proof (cases "\<exists>r p visited' c'. \<not> h_table_version (pt_head state) \<le> v \<and> g_physical_parent (pt_generation state) = Some r
      \<and> load_parent rt rd state r visited c = (Inr (p, visited'), c')")
    case True
    then obtain r p visited' c' where s: "\<not> h_table_version (pt_head state) \<le> v" "g_physical_parent (pt_generation state) = Some r"
      "load_parent rt rd state r visited c = (Inr (p, visited'), c')" by blast
    obtain i where i: "id_ok i" "i \<notin> visited" "visited' = insert i visited" using load_parent_visits [OF assms s(3)] by blast
    obtain y where "select_loop rt rd v p visited' c' = Some y" using less [of visited' p c'] fewer_ids [OF i(1,2)] i(3) by auto
    then show ?thesis using s by (simp add: select_loop.simps [of rt rd v state])
  next
    case False
    then show ?thesis
      by (auto simp: select_loop.simps [of rt rd v state] split: option.splits prod.splits sum.splits)
  qed
qed

lemma retained_chain_table:
  assumes "retained_chain rt rd (p # ps)" "q \<in> set (p # ps)"
  shows "h_table_id (pt_head q) = h_table_id (pt_head p)"
  using assms
proof (induction ps arbitrary: p)
  case (Cons p' ps)
  have edge: "physical_edge rt rd p p'" and rest: "retained_chain rt rd (p' # ps)"
    using Cons.prems(1) by (auto simp: retained_chain_def)
  show ?case
  proof (cases "q = p")
    case False
    then have "q \<in> set (p' # ps)" using Cons.prems(2) by auto
    with Cons.IH [OF rest] edge show ?thesis by (simp add: physical_edge_def) (metis physical_edge_def)
  qed simp
qed simp

text \<open>
  C34: reading an older version. Selecting metadata returns, does not panic and leaves a cache of objects the store holds, with their
  verified hashes, as it found one. What it returns is a state of the history of the anchored head: a chain of states leads to it, each
  read from the store at the path in the generation before it, with its digest; with versions that never grow, one commit for one version, and no generation twice; every state passed the
  checks between its objects and holds the image its generation names. The state has the requested version, and
  all states before it are newer.
\<close>

theorem select_metadata_correct:
  assumes "reader_ok rd" "cache_ok rd c" "decodes_ids rt"
  shows "\<exists>r c'. select_metadata rt rd selection c = Some (r, c') \<and> r \<noteq> Inl Panicked \<and> cache_ok rd c'
    \<and> (\<forall>pm. r = Inr pm \<longrightarrow> (\<exists>states. retained_chain rt rd states \<and> fst (reader_pin rt rd c) = Inr (hd states)
         \<and> pm_state pm = last states \<and> pm_coordinates pm = coordinates (last states) \<and> pm_anchor pm = anchor (hd states)
         \<and> h_table_id (pt_head (pm_state pm)) = ha_table_id (pm_anchor pm)
         \<and> (case selection of
              CurrentVersion \<Rightarrow> states = [hd states]
            | TableVersion v \<Rightarrow> h_table_version (pt_head (pm_state pm)) = v \<and> list_all (above v) (butlast states))))"
proof -
  obtain res c1 where pin: "reader_pin rt rd c = (res, c1)" by (cases "reader_pin rt rd c")
  have res: "safe res" "cache_ok rd c1" "\<And>p. res = Inr p \<Longrightarrow> pinned_ok rt rd p"
    using ensures_reader_pin [OF assms(1), of rt] assms(2) pin by (auto simp: ensures_def)
  show ?thesis
  proof (cases res)
    case (Inl e)
    then show ?thesis using pin res by (simp add: select_metadata_def safe_def)
  next
    case (Inr first)
    then have chain: "retained_chain rt rd [first]" using res(3) by (simp add: retained_chain_def)
    show ?thesis
    proof (cases selection)
      case CurrentVersion
      then show ?thesis using pin Inr res(2) chain by (auto simp: select_metadata_def Let_def anchor_def intro!: exI [of _ "[first]"])
    next
      case (TableVersion v)
      show ?thesis
      proof (cases "v > ha_table_version (anchor first)")
        case True
        then show ?thesis using pin Inr TableVersion res(2) by (simp add: select_metadata_def)
      next
        case False
        obtain y c2 where loop: "select_loop rt rd v first {g_generation_id (pt_generation first)} c1 = Some (y, c2)"
          using select_loop_returns [OF assms(3)] by (metis surj_pair)
        have post: "safe y" "cache_ok rd c2" "\<And>p. y = Inr p \<Longrightarrow> \<exists>more. retained_chain rt rd ([first] @ more) \<and> last ([first] @ more) = p
            \<and> list_all (above v) (butlast ([first] @ more))"
          using select_loop_sound [OF loop, unfolded select_post_def, rule_format, of "[first]"] assms(1) res(2) chain
          by (auto simp: generation_id_of_def)
        show ?thesis
        proof (cases y)
          case (Inl e)
          then show ?thesis using pin Inr TableVersion False loop post(1,2) by (simp add: select_metadata_def safe_def)
        next
          case y: (Inr p)
          obtain more where m: "retained_chain rt rd (first # more)" "last (first # more) = p" "list_all (above v) (butlast (first # more))"
            using post(3) [OF y] by auto
          have "h_table_id (pt_head p) = h_table_id (pt_head first)"
            using retained_chain_table [OF m(1), of p] m(2) by (metis last_in_set list.discI)
          then show ?thesis using pin Inr TableVersion False loop post(2) y m
            by (cases "h_table_version (pt_head p) = v")
              (auto simp: select_metadata_def Let_def anchor_def intro!: exI [of _ "first # more"])
        qed
      qed
    qed
  qed
qed

section \<open>What verification covers\<close>

text \<open>The files found so far, each under its own path.\<close>

definition named_files :: "(string, object_reference) btree \<Rightarrow> bool" where
  "named_files files = (bt_ok files \<and> (\<forall>k r. bt_get files k = Some r \<longrightarrow> uri_as_str (or_uri r) = k))"

definition recorded :: "(string, object_reference) btree \<Rightarrow> object_reference \<Rightarrow> bool" where
  "recorded files r =
     (\<exists>r'. bt_get files (uri_as_str (or_uri r)) = Some r' \<and> or_uri r' = or_uri r \<and> or_sha256 r' = or_sha256 r \<and> or_length r' = or_length r)"

definition kept_files :: "(string, object_reference) btree \<Rightarrow> (string, object_reference) btree \<Rightarrow> bool" where
  "kept_files files files' = (named_files files' \<and> (\<forall>k r. bt_get files k = Some r \<longrightarrow> bt_get files' k = Some r))"

lemma kept_refl: "named_files files \<Longrightarrow> kept_files files files"
  by (simp add: kept_files_def)

lemma kept_trans: "kept_files a b \<Longrightarrow> kept_files b c \<Longrightarrow> kept_files a c"
  by (simp add: kept_files_def)

lemma recorded_mono: "recorded files r \<Longrightarrow> kept_files files files' \<Longrightarrow> recorded files' r"
  unfolding recorded_def kept_files_def by blast

lemma uri_as_str_inj: "uri_as_str u = uri_as_str v \<Longrightarrow> u = v"
  by (cases u; cases v) simp

lemma record_file_reference_Inr:
  assumes "record_file_reference files r = Inr files'" "named_files files"
  shows "kept_files files files' \<and> recorded files' r"
  using assms by (auto simp: record_file_reference_def kept_files_def recorded_def named_files_def bt_get_insert bt_ok_insert intro: uri_as_str_inj
      split: option.splits if_splits)

definition files_recorded :: "history_calls \<Rightarrow> byte list \<Rightarrow> (string, object_reference) btree \<Rightarrow> id \<Rightarrow> bool" where
  "files_recorded hc img files i =
     (\<exists>rows refs. hc_file_rows hc img (id_as_bytes i) = Inr rows \<and> map row_reference rows = map Inr refs \<and> list_all (recorded files) refs)"

lemma record_rows_Inr:
  assumes "try_fold (\<lambda>files row. and_then (row_reference row) (record_file_reference files)) files rows = Inr files'" "named_files files"
  shows "kept_files files files' \<and> (\<exists>refs. map row_reference rows = map Inr refs \<and> list_all (recorded files') refs)"
  using assms
proof (induction rows arbitrary: files)
  case (Cons row rows)
  from Cons.prems(1) obtain r files1 where r: "row_reference row = Inr r" "record_file_reference files r = Inr files1"
    "try_fold (\<lambda>files row. and_then (row_reference row) (record_file_reference files)) files1 rows = Inr files'"
    by (auto simp: and_then_eq_Inr)
  have one: "kept_files files files1" "recorded files1 r" using record_file_reference_Inr [OF r(2) Cons.prems(2)] by auto
  then have "named_files files1" by (simp add: kept_files_def)
  then obtain refs where refs: "kept_files files1 files'" "map row_reference rows = map Inr refs" "list_all (recorded files') refs"
    using Cons.IH [OF r(3)] by blast
  show ?case using kept_trans [OF one(1) refs(1)] recorded_mono [OF one(2) refs(1)] refs r(1)
    by (intro conjI exI [of _ "r # refs"]) simp_all
qed (simp add: kept_refl)

lemma files_recorded_mono: "files_recorded hc img files i \<Longrightarrow> kept_files files files' \<Longrightarrow> files_recorded hc img files' i"
  unfolding files_recorded_def list_all_iff using recorded_mono by blast

text \<open>A snapshot that was visited in an image: it is there, its parent is among the snapshots, its files are recorded.\<close>

definition visited_in :: "history_calls \<Rightarrow> connection \<Rightarrow> byte list \<Rightarrow> id set \<Rightarrow> (string, object_reference) btree \<Rightarrow> id \<Rightarrow> bool" where
  "visited_in hc cn img snapshots files i =
     (files_recorded hc img files i \<and> (\<exists>d. descriptor cn i = Inr d \<and> set_option (sd_parent_snapshot_id d) \<subseteq> snapshots))"

lemma visited_in_mono:
  "visited_in hc cn img snapshots files i \<Longrightarrow> snapshots \<subseteq> snapshots' \<Longrightarrow> kept_files files files' \<Longrightarrow> visited_in hc cn img snapshots' files' i"
  unfolding visited_in_def using files_recorded_mono by blast

lemma visit_snapshot_Inr:
  assumes "visit_snapshot hc cn img i files = Inr (parent, files')" "named_files files"
  shows "kept_files files files' \<and> files_recorded hc img files' i \<and> (\<exists>d. descriptor cn i = Inr d \<and> sd_parent_snapshot_id d = parent)"
proof -
  from assms(1) obtain d rows where d: "descriptor cn i = Inr d" "sd_parent_snapshot_id d = parent" "hc_file_rows hc img (id_as_bytes i) = Inr rows"
    "try_fold (\<lambda>files row. and_then (row_reference row) (record_file_reference files)) files rows = Inr files'"
    by (auto simp: visit_snapshot_def record_files_def and_then_eq_Inr)
  with record_rows_Inr [OF d(4) assms(2)] show ?thesis by (auto simp: files_recorded_def)
qed

lemma collect_loop_Inr:
  assumes "collect_loop hc cn img pending snapshots files = Inr (snapshots', files')" "named_files files"
  shows "snapshots \<subseteq> snapshots' \<and> set pending \<subseteq> snapshots' \<and> kept_files files files'
    \<and> (\<forall>i \<in> snapshots' - snapshots. visited_in hc cn img snapshots' files' i)"
  using assms
proof (induction hc cn img pending snapshots files rule: collect_loop.induct)
  case (1 hc cn img snapshots files)
  then show ?case by (simp add: kept_refl)
next
  case (2 hc cn img i pending snapshots files)
  show ?case
  proof (cases "i \<in> snapshots")
    case True
    then show ?thesis using "2.IH"(1) "2.prems" by auto
  next
    case False
    with "2.prems"(1) obtain parent files1 where v: "visit_snapshot hc cn img i files = Inr (parent, files1)"
      and rec: "collect_loop hc cn img ((case parent of None \<Rightarrow> [] | Some p \<Rightarrow> [p]) @ pending) (insert i snapshots) files1 = Inr (snapshots', files')"
      by (auto split: sum.splits)
    have one: "kept_files files files1" "files_recorded hc img files1 i" "\<exists>d. descriptor cn i = Inr d \<and> sd_parent_snapshot_id d = parent"
      using visit_snapshot_Inr [OF v "2.prems"(2)] by auto
    have post: "insert i snapshots \<subseteq> snapshots'" "set ((case parent of None \<Rightarrow> [] | Some p \<Rightarrow> [p]) @ pending) \<subseteq> snapshots'" "kept_files files1 files'"
      "\<forall>j \<in> snapshots' - insert i snapshots. visited_in hc cn img snapshots' files' j"
      using "2.IH"(2) [OF False v refl rec] one(1) by (auto simp: kept_files_def)
    have "set_option parent \<subseteq> snapshots'" using post(2) by (auto split: option.splits)
    then have "visited_in hc cn img snapshots' files' i"
      unfolding visited_in_def using files_recorded_mono [OF one(2) post(3)] one(3) by auto
    then show ?thesis using post kept_trans [OF one(1) post(3)] by auto
  qed
qed

definition covers :: "runtime \<Rightarrow> history_calls \<Rightarrow> verification_scope \<Rightarrow> id set \<Rightarrow> pinned_table \<Rightarrow> bool" where
  "covers rt hc scope snapshots p =
     (\<exists>rows ids. hc_snapshot_ids hc (pt_resolved p) scope = Inr rows
        \<and> try_map (\<lambda>row. and_then row (id_from_blob (rt_ext rt))) rows = Inr ids \<and> set ids \<subseteq> snapshots)"

definition visited_by :: "runtime \<Rightarrow> history_calls \<Rightarrow> id set \<Rightarrow> (string, object_reference) btree \<Rightarrow> id \<Rightarrow> pinned_table \<Rightarrow> bool" where
  "visited_by rt hc snapshots files i p =
     (\<exists>cn. db_open (rt_db rt) (pt_resolved p) = Inr cn \<and> visited_in hc cn (pt_resolved p) snapshots files i)"

text \<open>What the turns of the loop over some states have established.\<close>

definition verified_states :: "runtime \<Rightarrow> history_calls \<Rightarrow> verification_scope \<Rightarrow> pinned_table list \<Rightarrow> verify_state \<Rightarrow> bool" where
  "verified_states rt hc scope states s =
     (unat (vs_generations s) = length states \<and> named_files (vs_files s)
      \<and> list_all (covers rt hc scope (vs_snapshots s)) states
      \<and> (\<forall>i \<in> vs_snapshots s. list_ex (visited_by rt hc (vs_snapshots s) (vs_files s) i) states))"

lemma verify_turn_Inr:
  assumes "verify_turn rt hc scope p s c = (Inr s', c')" "verified_states rt hc scope states s"
  shows "c' = c \<and> vs_visited s' = vs_visited s \<and> verified_states rt hc scope (states @ [p]) s'"
proof -
  from assms(1) obtain n snapshots files where n: "checked_add (vs_generations s) 1 = Some n"
    and col: "collect_snapshot_files rt hc p scope (vs_snapshots s) (vs_files s) = Inr (snapshots, files)"
    and s': "s' = s\<lparr>vs_generations := n, vs_commits := insert (sc_commit_id (pt_commit p)) (vs_commits s), vs_snapshots := snapshots, vs_files := files\<rparr>"
    and c: "c' = c"
    by (auto simp: verify_turn_def io_bind_def io_some_def io_of_def io_return_def ok_or_eq_Inr lift_eq_Inr split: prod.splits sum.splits)
  from col obtain cn rows ids where cn: "db_open (rt_db rt) (pt_resolved p) = Inr cn"
    and ids: "hc_snapshot_ids hc (pt_resolved p) scope = Inr rows" "try_map (\<lambda>row. and_then row (id_from_blob (rt_ext rt))) rows = Inr ids"
    and loop: "collect_loop hc cn (pt_resolved p) (rev ids) (vs_snapshots s) (vs_files s) = Inr (snapshots, files)"
    by (auto simp: collect_snapshot_files_def Let_def and_then_eq_Inr)
  have old: "unat (vs_generations s) = length states" "named_files (vs_files s)" "list_all (covers rt hc scope (vs_snapshots s)) states"
    "\<forall>i \<in> vs_snapshots s. list_ex (visited_by rt hc (vs_snapshots s) (vs_files s) i) states"
    using assms(2) by (auto simp: verified_states_def)
  have post: "vs_snapshots s \<subseteq> snapshots" "set ids \<subseteq> snapshots" "kept_files (vs_files s) files"
    "\<forall>i \<in> snapshots - vs_snapshots s. visited_in hc cn (pt_resolved p) snapshots files i"
    using collect_loop_Inr [OF loop old(2)] by auto
  have "covers rt hc scope snapshots q" if "covers rt hc scope (vs_snapshots s) q" for q
    using that post(1) unfolding covers_def by blast
  then have cov: "list_all (covers rt hc scope snapshots) (states @ [p])"
    using old(3) ids post(2) by (auto simp: list_all_iff covers_def)
  have mono: "visited_by rt hc snapshots files i q" if "visited_by rt hc (vs_snapshots s) (vs_files s) i q" for i q
    using that visited_in_mono [OF _ post(1,3)] unfolding visited_by_def by blast
  have "list_ex (visited_by rt hc snapshots files i) (states @ [p])" if "i \<in> snapshots" for i
  proof (cases "i \<in> vs_snapshots s")
    case True
    then show ?thesis using old(4) mono by (auto simp: list_ex_iff)
  next
    case False
    then show ?thesis using that post(4) cn by (auto simp: list_ex_iff visited_by_def)
  qed
  moreover have "unat n = length states + 1" using unat_checked_add [OF n] old(1) by simp
  moreover have "named_files files" using post(3) by (simp add: kept_files_def)
  ultimately have "verified_states rt hc scope (states @ [p]) s'" using cov by (simp add: verified_states_def s')
  then show ?thesis using c s' by simp
qed

section \<open>The retained commits and their replay\<close>

definition retained_ok :: "runtime \<Rightarrow> reader \<Rightarrow> id \<Rightarrow> object_reference \<Rightarrow> semantic_commit \<Rightarrow> bool" where
  "retained_ok rt rd table_id r commit =
     (stored_commit rt rd r commit \<and> commit_validate_runtime_profile (rt_wire rt) commit = Inr () \<and> sc_table_id commit = table_id
      \<and> recomputed_state (rt_wire rt) commit = Inr (sc_semantic_state_sha256 commit))"

text \<open>The commits from a reference to the first one, each named by the commit before it, with consecutive versions.\<close>

fun commit_chain :: "runtime \<Rightarrow> reader \<Rightarrow> id \<Rightarrow> object_reference option \<Rightarrow> u64 option \<Rightarrow> (object_reference \<times> semantic_commit) list \<Rightarrow> bool" where
  "commit_chain rt rd t reference previous [] = (reference = None)"
| "commit_chain rt rd t reference previous ((r, commit) # rest) =
     (reference = Some r \<and> retained_ok rt rd t r commit
      \<and> (\<forall>v. previous = Some v \<longrightarrow> unat v = unat (sc_table_version commit) + 1)
      \<and> commit_chain rt rd t (sc_parent_commit commit) (Some (sc_table_version commit)) rest)"

lemma ensures_retained_commit:
  assumes "reader_ok rd"
  shows "ensures rd (retained_commit rt rd t previous r) (\<lambda>commit. retained_ok rt rd t r commit
    \<and> (\<forall>v. previous = Some v \<longrightarrow> unat v = unat (sc_table_version commit) + 1))"
    (is "ensures rd _ ?Q")
proof (cases "or_media_type r \<noteq> Some COMMIT_MEDIA_TYPE \<or> or_length r = None")
  case True
  then show ?thesis by (simp add: retained_commit_def ensures_corrupt)
next
  case False
  have add: "checked_add a 1 = Some b \<Longrightarrow> unat b = Suc (unat a)" for a b :: u64 using unat_checked_add [of a 1 b] by simp
  have last: "ensures rd (io_bind (io_of (lift (recomputed_state (rt_wire rt) commit))) (\<lambda>hash.
          if hash \<noteq> sc_semantic_state_sha256 commit then corrupt ''retained semantic state hash mismatch''
          else
            io_bind (io_protocol (require_supported (sc_required_reader_features_after_commit commit) supported_features)) (\<lambda>_.
              io_return commit))) ?Q"
    if "stored_commit rt rd r commit" "commit_validate_runtime_profile (rt_wire rt) commit = Inr ()" "sc_table_id commit = t"
      "case previous of None \<Rightarrow> True | Some v \<Rightarrow> checked_add (sc_table_version commit) 1 = Some v" for commit
    by (rule ensures_bind [OF ensures_lift], assumption)
      (use that in \<open>auto intro!: ensures_corrupt ensures_bind [OF ensures_protocol [where Q = "\<lambda>_. True"]] ensures_return
        simp: retained_ok_def dest!: add\<close>)
  have "ensures rd (io_bind (io_bind (read_metadata rd r) (\<lambda>raw. io_json rt (rt_commit_json rt) (so_bytes raw))) (\<lambda>commit.
        io_bind (io_of (runtime_fault (commit_validate_runtime_profile (rt_wire rt) commit))) (\<lambda>_.
        if sc_table_id commit \<noteq> t
           \<or> (case previous of None \<Rightarrow> False | Some v \<Rightarrow> checked_add (sc_table_version commit) 1 \<noteq> Some v)
        then corrupt ''invalid retained semantic ancestry''
        else io_bind (io_of (lift (recomputed_state (rt_wire rt) commit))) (\<lambda>hash.
          if hash \<noteq> sc_semantic_state_sha256 commit then corrupt ''retained semantic state hash mismatch''
          else
            io_bind (io_protocol (require_supported (sc_required_reader_features_after_commit commit) supported_features)) (\<lambda>_.
              io_return commit))))) ?Q"
  proof (rule ensures_bind [OF ensures_stored [OF assms]])
    fix commit
    assume "\<exists>raw. read_as rd r raw
        \<and> from_slice_canonical (w_serde (rt_wire rt)) (rt_ext rt) (rt_commit_json rt) (so_bytes raw) = Inr commit"
    then have s: "stored_commit rt rd r commit" by (simp add: stored_commit_def)
    have v: "ensures rd (io_of (runtime_fault (commit_validate_runtime_profile (rt_wire rt) commit)))
        (\<lambda>_. commit_validate_runtime_profile (rt_wire rt) commit = Inr ())"
      by (rule ensures_of [OF safe_runtime_fault [OF safe_commit_runtime_profile]])
        (auto simp: runtime_fault_def map_err_eq_Inr)
    show "ensures rd (io_bind (io_of (runtime_fault (commit_validate_runtime_profile (rt_wire rt) commit))) (\<lambda>_.
        if sc_table_id commit \<noteq> t
           \<or> (case previous of None \<Rightarrow> False | Some v \<Rightarrow> checked_add (sc_table_version commit) 1 \<noteq> Some v)
        then corrupt ''invalid retained semantic ancestry''
        else io_bind (io_of (lift (recomputed_state (rt_wire rt) commit))) (\<lambda>hash.
          if hash \<noteq> sc_semantic_state_sha256 commit then corrupt ''retained semantic state hash mismatch''
          else
            io_bind (io_protocol (require_supported (sc_required_reader_features_after_commit commit) supported_features)) (\<lambda>_.
              io_return commit)))) ?Q"
      by (rule ensures_bind [OF v])
        (use s last in \<open>cases previous; auto intro!: ensures_corrupt\<close>)
  qed
  then show ?thesis using False by (auto simp: retained_commit_def io_bind_assoc)
qed

lemma retained_commits_Inr:
  assumes "reader_ok rd" "cache_ok rd c" "retained_commits rt rd t reference previous visited acc c = (r, c')"
  shows "safe r \<and> cache_ok rd c' \<and> (\<forall>commits visited'. r = Inr (commits, visited') \<longrightarrow> (\<exists>more. commits = acc @ more
    \<and> commit_chain rt rd t reference previous more \<and> visited' = visited \<union> sc_commit_id ` snd ` set more))"
  using assms
proof (induction rt rd t reference previous visited acc c rule: retained_commits.induct)
  case (1 rt rd t reference previous visited acc c)
  note unfold = retained_commits.simps [of rt rd t _ previous visited acc c]
  show ?case
  proof (cases reference)
    case None
    then show ?thesis using "1.prems" by (auto simp: unfold safe_def)
  next
    case (Some ref)
    obtain y c1 where y: "retained_commit rt rd t previous ref c = (y, c1)" by (cases "retained_commit rt rd t previous ref c")
    have post: "safe y" "cache_ok rd c1" "\<And>commit. y = Inr commit \<Longrightarrow> retained_ok rt rd t ref commit
        \<and> (\<forall>v. previous = Some v \<longrightarrow> unat v = unat (sc_table_version commit) + 1)"
      using ensures_retained_commit [OF "1.prems"(1), of rt t previous ref, unfolded ensures_def, rule_format, OF "1.prems"(2)] y by auto
    show ?thesis
    proof (cases y)
      case (Inl e)
      then show ?thesis using "1.prems" Some y post by (auto simp: unfold safe_def)
    next
      case (Inr commit)
      have rec: "retained_commits rt rd t (sc_parent_commit commit) (Some (sc_table_version commit))
          (insert (sc_commit_id commit) visited) (acc @ [(ref, commit)]) c1 = (r, c')"
        using "1.prems" Some y Inr by (simp add: unfold)
      have IH: "safe r" "cache_ok rd c'" "\<And>commits visited'. r = Inr (commits, visited') \<Longrightarrow> \<exists>more. commits = (acc @ [(ref, commit)]) @ more
          \<and> commit_chain rt rd t (sc_parent_commit commit) (Some (sc_table_version commit)) more
          \<and> visited' = insert (sc_commit_id commit) visited \<union> sc_commit_id ` snd ` set more"
        using "1.IH" [OF Some y [symmetric] Inr "1.prems"(1) post(2) rec] by auto
      have "\<exists>more. commits = acc @ more \<and> commit_chain rt rd t reference previous more \<and> visited' = visited \<union> sc_commit_id ` snd ` set more"
        if res: "r = Inr (commits, visited')" for commits visited'
      proof -
        obtain more where "commits = (acc @ [(ref, commit)]) @ more"
          "commit_chain rt rd t (sc_parent_commit commit) (Some (sc_table_version commit)) more"
          "visited' = insert (sc_commit_id commit) visited \<union> sc_commit_id ` snd ` set more" using IH(3) [OF res] by blast
        then show ?thesis using post(3) [OF Inr] Some by (intro exI [of _ "(ref, commit) # more"]) auto
      qed
      with IH(1,2) show ?thesis by blast
    qed
  qed
qed

text \<open>The image that the commits explain, newest commit first: a genesis, then one replay for each later commit.\<close>

fun reconstructs :: "runtime \<Rightarrow> history_calls \<Rightarrow> (object_reference \<times> semantic_commit) list \<Rightarrow> checkpoint_image \<Rightarrow> bool" where
  "reconstructs rt hc [] img = False"
| "reconstructs rt hc ((r, commit) # earlier) img =
     (db_validate_commit_projection (rt_db rt) (cki_bytes img) commit = Inr ()
      \<and> (case earlier of
           [] \<Rightarrow> sc_table_version commit = 0 \<and> replay_genesis rt (hc_replay hc) commit (or_uri r) = Inr img
         | _ \<Rightarrow> (\<exists>parent row h. reconstructs rt hc earlier parent \<and> hc_meta_state hc (cki_bytes parent) = Inr row
             \<and> hash_from_blob row = Inr h \<and> sc_previous_semantic_state_sha256 commit = Some h
             \<and> replay_semantic_commit rt (hc_replay hc) (cki_bytes parent) commit (or_uri r) = Inr img)))"

lemma try_fold_snoc: "try_fold f s (xs @ [x]) = and_then (try_fold f s xs) (\<lambda>s'. f s' x)"
  by (induction xs arbitrary: s) (auto simp: and_then_def split: sum.splits)

lemma reconstruct_fold:
  assumes "try_fold (reconstruct_step rt hc) None (rev commits) = Inr img"
  shows "(commits = [] \<and> img = None) \<or> (\<exists>i. img = Some i \<and> reconstructs rt hc commits i)"
  using assms
proof (induction commits arbitrary: img)
  case (Cons item earlier)
  obtain r commit where item: "item = (r, commit)" by (cases item)
  from Cons.prems obtain s where s: "try_fold (reconstruct_step rt hc) None (rev earlier) = Inr s" "reconstruct_step rt hc s item = Inr img"
    by (auto simp: try_fold_snoc and_then_eq_Inr)
  show ?case
  proof (cases earlier)
    case Nil
    then show ?thesis using s
      by (auto simp: reconstruct_step_def item and_then_eq_Inr lift_eq_Inr replay_genesis_def Let_def split: if_splits)
  next
    case (Cons e es)
    then obtain parent where p: "s = Some parent" "reconstructs rt hc earlier parent" using Cons.IH [OF s(1)] by auto
    from s(2) p(1) obtain i row h where "img = Some i" "hc_meta_state hc (cki_bytes parent) = Inr row" "hash_from_blob row = Inr h"
      "sc_previous_semantic_state_sha256 commit = Some h" "replay_semantic_commit rt (hc_replay hc) (cki_bytes parent) commit (or_uri r) = Inr i"
      "db_validate_commit_projection (rt_db rt) (cki_bytes i) commit = Inr ()"
      by (auto simp: reconstruct_step_def item and_then_eq_Inr lift_eq_Inr split: if_splits)
    then show ?thesis using p(2) unfolding Cons item by auto
  qed
qed simp

section \<open>The loop of the verification\<close>

definition transition_ok :: "runtime \<Rightarrow> history_calls \<Rightarrow> pinned_table \<Rightarrow> pinned_table \<Rightarrow> bool" where
  "transition_ok rt hc child parent =
     (validate_transition rt (hc_replay hc) (pt_resolved parent) (pt_resolved child) (pt_commit child) = Inr ())"

text \<open>The oldest retained state is what its commits explain, back to the genesis.\<close>

definition explained :: "runtime \<Rightarrow> history_calls \<Rightarrow> reader \<Rightarrow> pinned_table \<Rightarrow> bool" where
  "explained rt hc rd p =
     (\<exists>commits img. commit_chain rt rd (h_table_id (pt_head p)) (Some (h_semantic_commit (pt_head p))) None commits
        \<and> reconstructs rt hc commits img \<and> compare_logical_images (hc_replay hc) (cki_bytes img) (pt_resolved p) = Inr ())"

definition scope_covered :: "runtime \<Rightarrow> history_calls \<Rightarrow> reader \<Rightarrow> verification_scope \<Rightarrow> pinned_table list \<Rightarrow> bool" where
  "scope_covered rt hc rd scope states =
     (case scope of
        CurrentScope \<Rightarrow> length states = 1
      | RetainedHistory \<Rightarrow> g_physical_parent (pt_generation (last states)) = None \<and> explained rt hc rd (last states))"

lemma verify_tail_Inr:
  assumes "reader_ok rd" "cache_ok rd c" "verify_retained_commit_tail rt hc rd p visited c = (Inr visited', c')"
  shows "cache_ok rd c' \<and> explained rt hc rd p"
proof -
  obtain commits v c1 where l: "retained_commits rt rd (h_table_id (pt_head p)) (Some (h_semantic_commit (pt_head p))) None visited [] c = (Inr (commits, v), c1)"
    using assms(3) by (auto simp: verify_retained_commit_tail_def io_bind_def split: prod.splits sum.splits)
  have chain: "cache_ok rd c1" "commit_chain rt rd (h_table_id (pt_head p)) (Some (h_semantic_commit (pt_head p))) None commits"
    using retained_commits_Inr [OF assms(1,2) l] by auto
  from assms(3) l obtain i where i: "try_fold (reconstruct_step rt hc) None (rev commits) = Inr (Some i)"
    "compare_logical_images (hc_replay hc) (cki_bytes i) (pt_resolved p) = Inr ()" "c' = c1"
    by (auto simp: verify_retained_commit_tail_def io_bind_def io_of_def io_or_def io_return_def ok_or_eq_Inr lift_eq_Inr map_err_eq_Inr
        split: prod.splits sum.splits)
  have "reconstructs rt hc commits i" using reconstruct_fold [OF i(1)] by simp
  then show ?thesis using chain i by (auto simp: explained_def)
qed

lemma verify_parent_Inr:
  assumes "reader_ok rd" "cache_ok rd c" "pinned_ok rt rd p" "g_physical_parent (pt_generation p) = Some r"
    "verify_parent rt hc rd p r s c = (Inr (q, s'), c')"
  shows "cache_ok rd c' \<and> pinned_ok rt rd q \<and> physical_edge rt rd p q \<and> transition_ok rt hc p q
    \<and> generation_id_of q \<notin> vs_visited s \<and> s' = s\<lparr>vs_visited := insert (generation_id_of q) (vs_visited s)\<rparr>"
proof -
  obtain v where l: "load_parent rt rd p r (vs_visited s) c = (Inr (q, v), c')" "transition_ok rt hc p q" "s' = s\<lparr>vs_visited := v\<rparr>"
    using assms(5) by (auto simp: verify_parent_def io_bind_def io_of_def io_return_def transition_ok_def split: prod.splits sum.splits)
  have "ensures rd (load_parent rt rd p r (vs_visited s)) (\<lambda>(parent, visited'). pinned_ok rt rd parent \<and> physical_edge rt rd p parent
       \<and> g_generation_id (pt_generation parent) \<notin> vs_visited s \<and> visited' = insert (g_generation_id (pt_generation parent)) (vs_visited s))"
    by (rule ensures_load_parent [OF assms(1,3,4)])
  from this [unfolded ensures_def, rule_format, OF assms(2)] l show ?thesis by (auto simp: generation_id_of_def)
qed

definition verify_post :: "runtime \<Rightarrow> history_calls \<Rightarrow> reader \<Rightarrow> verification_scope \<Rightarrow> pinned_table \<Rightarrow> verify_state \<Rightarrow> metadata_cache
    \<Rightarrow> (runtime_error fault, verify_state) result \<times> metadata_cache \<Rightarrow> bool" where
  "verify_post rt hc rd scope state s c y =
     (\<forall>states s'. reader_ok rd \<and> cache_ok rd c \<and> retained_chain rt rd states \<and> last states = state
        \<and> vs_visited s = generation_id_of ` set states \<and> successively (transition_ok rt hc) states
        \<and> verified_states rt hc scope (butlast states) s \<and> (scope = CurrentScope \<longrightarrow> length states = 1) \<and> fst y = Inr s' \<longrightarrow>
        cache_ok rd (snd y)
        \<and> (\<exists>more. retained_chain rt rd (states @ more) \<and> successively (transition_ok rt hc) (states @ more)
             \<and> verified_states rt hc scope (states @ more) s' \<and> scope_covered rt hc rd scope (states @ more)))"

lemma verified_states_visited: "verified_states rt hc scope states (s\<lparr>vs_visited := v\<rparr>) = verified_states rt hc scope states s"
  by (simp add: verified_states_def)

lemma verified_states_commits: "verified_states rt hc scope states (s\<lparr>vs_commits := v\<rparr>) = verified_states rt hc scope states s"
  by (simp add: verified_states_def)

lemma verify_loop_sound:
  assumes "verify_loop rt hc rd scope state s c = Some y"
  shows "verify_post rt hc rd scope state s c y"
proof (rule verify_loop.raw_induct [where P = verify_post, OF _ assms])
  fix loop rt hc rd scope state s c y
  assume IH: "\<And>rt hc rd scope state s c y. loop rt hc rd scope state s c = Some y \<Longrightarrow> verify_post rt hc rd scope state s c y"
    and body: "(case verify_turn rt hc scope state s c of
        (Inl e, c) \<Rightarrow> Some (Inl e, c)
      | (Inr s, c) \<Rightarrow>
          if scope = CurrentScope then Some (Inr s, c)
          else case g_physical_parent (pt_generation state) of
            None \<Rightarrow>
              Some (io_bind (verify_retained_commit_tail rt hc rd state (vs_commits s)) (\<lambda>commits. io_return (s\<lparr>vs_commits := commits\<rparr>)) c)
          | Some reference \<Rightarrow>
              (case verify_parent rt hc rd state reference s c of
                 (Inl e, c) \<Rightarrow> Some (Inl e, c)
               | (Inr (parent, s), c) \<Rightarrow> loop rt hc rd scope parent s c)) = Some y"
  show "verify_post rt hc rd scope state s c y"
    unfolding verify_post_def
  proof (intro allI impI, elim conjE)
    fix states s'
    assume prems: "reader_ok rd" "cache_ok rd c" "retained_chain rt rd states" "last states = state" "vs_visited s = generation_id_of ` set states"
      "successively (transition_ok rt hc) states" "verified_states rt hc scope (butlast states) s" "scope = CurrentScope \<longrightarrow> length states = 1"
      "fst y = Inr s'"
    have pinned: "pinned_ok rt rd state" using prems(3,4) by (auto simp: retained_chain_def list_all_iff)
    have split: "butlast states @ [state] = states" using prems(3,4) by (auto simp: retained_chain_def)
    obtain t c1 where "verify_turn rt hc scope state s c = (t, c1)" by (cases "verify_turn rt hc scope state s c")
    with body prems(9) obtain s1 where turn: "verify_turn rt hc scope state s c = (Inr s1, c1)" by (cases t) auto
    have one: "c1 = c" "vs_visited s1 = vs_visited s" "verified_states rt hc scope states s1"
      using verify_turn_Inr [OF turn prems(7)] split by auto
    have body1: "(if scope = CurrentScope then Some (Inr s1, c)
          else case g_physical_parent (pt_generation state) of
            None \<Rightarrow>
              Some (io_bind (verify_retained_commit_tail rt hc rd state (vs_commits s1)) (\<lambda>commits. io_return (s1\<lparr>vs_commits := commits\<rparr>)) c)
          | Some reference \<Rightarrow>
              (case verify_parent rt hc rd state reference s1 c of
                 (Inl e, c) \<Rightarrow> Some (Inl e, c)
               | (Inr (parent, s), c) \<Rightarrow> loop rt hc rd scope parent s c)) = Some y"
      using body unfolding turn one(1) by simp
    let ?goal = "cache_ok rd (snd y)
        \<and> (\<exists>more. retained_chain rt rd (states @ more) \<and> successively (transition_ok rt hc) (states @ more)
             \<and> verified_states rt hc scope (states @ more) s' \<and> scope_covered rt hc rd scope (states @ more))"
    show ?goal
    proof (cases "scope = CurrentScope")
      case True
      then have "y = (Inr s1, c)" using body1 by simp
      then show ?thesis using prems one(3) True by (intro conjI exI [of _ "[]"]) (simp_all add: scope_covered_def)
    next
      case False
      then have scope: "scope = RetainedHistory" by (cases scope) auto
      show ?thesis
      proof (cases "g_physical_parent (pt_generation state)")
        case None
        then have y: "y = io_bind (verify_retained_commit_tail rt hc rd state (vs_commits s1)) (\<lambda>commits. io_return (s1\<lparr>vs_commits := commits\<rparr>)) c"
          using body1 False by simp
        then obtain v c2 where tail: "verify_retained_commit_tail rt hc rd state (vs_commits s1) c = (Inr v, c2)"
          and y2: "y = (Inr (s1\<lparr>vs_commits := v\<rparr>), c2)"
          using prems(9) by (auto simp: io_bind_def io_return_def io_of_def split: prod.splits sum.splits)
        have "cache_ok rd c2" "explained rt hc rd state" using verify_tail_Inr [OF prems(1,2) tail] by auto
        moreover have "s' = s1\<lparr>vs_commits := v\<rparr>" using y2 prems(9) by simp
        then have "verified_states rt hc scope states s'" using one(3) by (simp only: verified_states_commits)
        ultimately show ?thesis using prems(3,4,6) None y2 scope
          by (intro conjI exI [of _ "[]"]) (simp_all add: scope_covered_def)
      next
        case (Some r)
        obtain q c2 where vp: "verify_parent rt hc rd state r s1 c = (q, c2)" by (cases "verify_parent rt hc rd state r s1 c")
        with body1 False Some prems(9) obtain p s2 where q: "q = Inr (p, s2)" by (cases q) auto
        have next_one: "cache_ok rd c2" "pinned_ok rt rd p" "physical_edge rt rd state p" "transition_ok rt hc state p"
          "generation_id_of p \<notin> vs_visited s1" "s2 = s1\<lparr>vs_visited := insert (generation_id_of p) (vs_visited s1)\<rparr>"
          using verify_parent_Inr [OF prems(1,2) pinned Some vp [unfolded q]] by auto
        have rec: "loop rt hc rd scope p s2 c2 = Some y" using body1 False Some vp q by simp
        have "retained_chain rt rd (states @ [p])"
          using retained_chain_snoc [OF prems(3)] next_one prems(4,5) one(2) by auto
        moreover have "successively (transition_ok rt hc) (states @ [p])"
          using prems(4,6) next_one(4) by (simp add: successively_append_iff)
        moreover have "verified_states rt hc scope states s2" using one(3) next_one(6) by (simp add: verified_states_visited)
        ultimately have "cache_ok rd (snd y) \<and> (\<exists>more. retained_chain rt rd ((states @ [p]) @ more)
             \<and> successively (transition_ok rt hc) ((states @ [p]) @ more)
             \<and> verified_states rt hc scope ((states @ [p]) @ more) s' \<and> scope_covered rt hc rd scope ((states @ [p]) @ more))"
          by (intro IH [OF rec, unfolded verify_post_def, rule_format])
            (use prems(1,5,9) next_one one(2) scope in auto)
        then show ?thesis by (metis append.assoc append_Cons append_Nil)
      qed
    qed
  qed
qed

lemma verify_turn_visited: "verify_turn rt hc scope p s c = (Inr s', c') \<Longrightarrow> vs_visited s' = vs_visited s"
  by (auto simp: verify_turn_def io_bind_def io_some_def io_of_def io_return_def split: prod.splits sum.splits)

lemma verify_parent_visits:
  assumes "decodes_ids rt" "verify_parent rt hc rd p r s c = (Inr (q, s'), c')"
  shows "\<exists>i. id_ok i \<and> i \<notin> vs_visited s \<and> vs_visited s' = insert i (vs_visited s)"
proof -
  obtain v where "load_parent rt rd p r (vs_visited s) c = (Inr (q, v), c')" "s' = s\<lparr>vs_visited := v\<rparr>"
    using assms(2) by (auto simp: verify_parent_def io_bind_def io_of_def io_return_def split: prod.splits sum.splits)
  with load_parent_visits [OF assms(1)] show ?thesis by force
qed

lemma verify_loop_returns:
  assumes "decodes_ids rt"
  shows "\<exists>y. verify_loop rt hc rd scope state s c = Some y"
proof (induction "card ({i. id_ok i} - vs_visited s)" arbitrary: state s c rule: less_induct)
  case less
  note unfold = verify_loop.simps [of rt hc rd _ state s c]
  obtain t c1 where turn: "verify_turn rt hc scope state s c = (t, c1)" by (cases "verify_turn rt hc scope state s c")
  show ?case
  proof (cases t)
    case (Inl e)
    then show ?thesis using turn by (simp add: unfold)
  next
    case (Inr s1)
    show ?thesis
    proof (cases "scope = CurrentScope")
      case True
      then show ?thesis using turn Inr by (simp add: unfold)
    next
      case False
      show ?thesis
      proof (cases "g_physical_parent (pt_generation state)")
        case None
        then show ?thesis using turn Inr False by (simp add: unfold)
      next
        case (Some r)
        obtain q c2 where vp: "verify_parent rt hc rd state r s1 c1 = (q, c2)" by (cases "verify_parent rt hc rd state r s1 c1")
        show ?thesis
        proof (cases q)
          case (Inl e)
          then show ?thesis using turn Inr False Some vp \<open>t = Inr s1\<close> by (simp add: unfold)
        next
          case q: (Inr ps)
          obtain p s2 where ps: "ps = (p, s2)" by (cases ps)
          obtain i where i: "id_ok i" "i \<notin> vs_visited s" "vs_visited s2 = insert i (vs_visited s)"
            using verify_parent_visits [OF assms vp [unfolded q ps]] verify_turn_visited [OF turn [unfolded Inr]] by auto
          obtain y where "verify_loop rt hc rd scope p s2 c2 = Some y" using less [of s2 p c2] fewer_ids [OF i(1,2)] i(3) by auto
          then show ?thesis using turn Inr False Some vp q ps by (simp add: unfold)
        qed
      qed
    qed
  qed
qed

lemma verify_file_Inr:
  assumes "verify_file rd cached counts r = Inr counts'" "reader_ok rd" "cache_ok rd (Some cached)"
  shows "\<exists>raw. read_as rd r raw"
proof (cases "bt_get cached (uri_as_str (or_uri r))")
  case None
  then show ?thesis using assms(1) verified_read_Inr [OF assms(2)] by (auto simp: verify_file_def and_then_eq_Inr lift_eq_Inr)
next
  case (Some v)
  then have "rd_read rd (or_uri r) = Inr (vm_object v)" "authentic (rd_ext rd) (vm_sha256 v) (vm_object v)" using assms(3)
    by (cases "or_uri r", auto simp: cache_ok_def list_all_iff bt_get_def dest!: map_of_SomeD)+
  moreover have "vm_check v r = Inr ()" using assms(1) Some by (auto simp: verify_file_def and_then_eq_Inr lift_eq_Inr)
  ultimately show ?thesis by (intro exI [of _ "vm_object v"]) (auto simp: vm_check_def read_as_def split: if_splits option.splits)
qed

lemma recorded_read:
  assumes "recorded files r" "\<forall>r \<in> set (map snd files). \<exists>raw. read_as x r raw"
  shows "\<exists>raw. read_as x r raw"
proof -
  obtain r' where r': "bt_get files (uri_as_str (or_uri r)) = Some r'" "or_uri r' = or_uri r" "or_sha256 r' = or_sha256 r" "or_length r' = or_length r"
    using assms(1) by (auto simp: recorded_def)
  then have "r' \<in> set (map snd files)" by (force simp: bt_get_def dest: map_of_SomeD)
  then obtain raw where "read_as x r' raw" using assms(2) by blast
  then have "read_as x r raw" using r' by (simp add: read_as_def)
  then show ?thesis by blast
qed

text \<open>
  A snapshot that was checked in the image of a state: its row is there, its parent is among the checked snapshots, and every
  file it added was read at its own path in the store and has its digest and length.
\<close>

definition snapshot_checked :: "runtime \<Rightarrow> history_calls \<Rightarrow> reader \<Rightarrow> id set \<Rightarrow> id \<Rightarrow> pinned_table \<Rightarrow> bool" where
  "snapshot_checked rt hc rd snapshots i p =
     (\<exists>cn d rows refs. db_open (rt_db rt) (pt_resolved p) = Inr cn \<and> descriptor cn i = Inr d
        \<and> set_option (sd_parent_snapshot_id d) \<subseteq> snapshots \<and> hc_file_rows hc (pt_resolved p) (id_as_bytes i) = Inr rows
        \<and> map row_reference rows = map Inr refs \<and> list_all (\<lambda>r. \<exists>raw. read_as rd r raw) refs)"

definition snapshots_checked :: "runtime \<Rightarrow> history_calls \<Rightarrow> reader \<Rightarrow> verification_scope \<Rightarrow> pinned_table list \<Rightarrow> id set \<Rightarrow> bool" where
  "snapshots_checked rt hc rd scope states snapshots =
     (list_all (covers rt hc scope snapshots) states
      \<and> (\<forall>i \<in> snapshots. list_ex (snapshot_checked rt hc rd snapshots i) states))"

lemma visited_checked:
  assumes "visited_by rt hc snapshots files i p" "\<forall>r \<in> set (map snd files). \<exists>raw. read_as rd r raw"
  shows "snapshot_checked rt hc rd snapshots i p"
proof -
  from assms(1) obtain cn d rows refs where "db_open (rt_db rt) (pt_resolved p) = Inr cn" "descriptor cn i = Inr d"
    "set_option (sd_parent_snapshot_id d) \<subseteq> snapshots" "hc_file_rows hc (pt_resolved p) (id_as_bytes i) = Inr rows"
    "map row_reference rows = map Inr refs" "list_all (recorded files) refs"
    by (auto simp: visited_by_def visited_in_def files_recorded_def)
  then show ?thesis using recorded_read [OF _ assms(2)] unfolding snapshot_checked_def list_all_iff by blast
qed

lemma finish_report_Inr:
  assumes "finish_report rd scope first s cached = Inr report" "reader_ok rd" "cache_ok rd (Some cached)"
  shows "(\<forall>r \<in> set (map snd (vs_files s)). \<exists>raw. read_as rd r raw) \<and> vr_scope report = scope \<and> vr_anchor report = anchor first
    \<and> vr_completed report \<and> vr_generations_checked report = vs_generations s
    \<and> vr_snapshots_checked report = u64_of_usize (card (vs_snapshots s)) \<and> vr_commits_checked report = u64_of_usize (card (vs_commits s))"
proof -
  from assms(1) obtain counts where f: "try_fold (verify_file rd cached) (1, u64_of_usize (length (pt_raw_head first))) (map snd (vs_files s)) = Inr counts"
    and report: "vr_scope report = scope" "vr_anchor report = anchor first" "vr_completed report" "vr_generations_checked report = vs_generations s"
      "vr_snapshots_checked report = u64_of_usize (card (vs_snapshots s))" "vr_commits_checked report = u64_of_usize (card (vs_commits s))"
    by (auto simp: finish_report_def and_then_eq_Inr)
  have "\<forall>r \<in> set (map snd (vs_files s)). \<exists>raw. read_as rd r raw"
    using try_fold_all [OF f] verify_file_Inr [OF _ assms(2,3)] by blast
  with report show ?thesis by blast
qed

text \<open>
  C33: what a verification report certifies. Verification returns. A report of success means that from the anchored head a chain of
  states was read, each from the store at the path in the generation before it, with its digest, and checked in itself, and that the
  snapshots of every image on the chain and all their ancestors have a row, and every file they added was read: the object the store holds at the
  path in the file's row has the digest and the length in that row. A report on the whole
  history has followed the chain to its end; each state there is explained, row by row, by replaying its commit on its parent, and the
  oldest by replaying the commits from the genesis on, a chain with consecutive versions whose state hashes and projections agree. The
  report counts the states of the chain and the snapshots.
\<close>

theorem verify_with_report_correct:
  assumes "reader_ok rd" "decodes_ids rt"
  shows "\<exists>r. verify_with_report rt hc rd scope = Some r
    \<and> (\<forall>report. r = Inr report \<longrightarrow> (\<exists>states snapshots.
         fst (reader_pin rt rd (Some [])) = Inr (hd states) \<and> retained_chain rt rd states \<and> successively (transition_ok rt hc) states
         \<and> scope_covered rt hc rd scope states \<and> snapshots_checked rt hc rd scope states snapshots
         \<and> vr_scope report = scope \<and> vr_completed report \<and> vr_anchor report = anchor (hd states)
         \<and> unat (vr_generations_checked report) = length states \<and> vr_snapshots_checked report = u64_of_usize (card snapshots)))"
proof -
  obtain res c1 where pin: "reader_pin rt rd (Some []) = (res, c1)" by (cases "reader_pin rt rd (Some [])")
  have empty: "cache_ok rd (Some [])" by (simp add: cache_ok_def)
  show ?thesis
  proof (cases res)
    case (Inl e)
    then show ?thesis using pin by (simp add: verify_with_report_def)
  next
    case (Inr first)
    have start: "cache_ok rd c1" "pinned_ok rt rd first"
      using ensures_reader_pin [OF assms(1), of rt, unfolded ensures_def, rule_format, OF empty] pin Inr by auto
    let ?s = "\<lparr>vs_generations = 0, vs_visited = {g_generation_id (pt_generation first)}, vs_commits = {}, vs_snapshots = {}, vs_files = []\<rparr>"
    obtain y c2 where loop: "verify_loop rt hc rd scope first ?s c1 = Some (y, c2)"
      using verify_loop_returns [OF assms(2)] by (metis surj_pair)
    have chain: "retained_chain rt rd [first]" using start(2) by (simp add: retained_chain_def)
    have none: "verified_states rt hc scope [] ?s" by (simp add: verified_states_def named_files_def bt_ok_def bt_get_def [of "[]"])
    show ?thesis
    proof (cases y)
      case (Inl e)
      then show ?thesis using pin Inr loop by (simp add: verify_with_report_def)
    next
      case y: (Inr s)
      obtain more where m: "cache_ok rd c2" "retained_chain rt rd ([first] @ more)" "successively (transition_ok rt hc) ([first] @ more)"
        "verified_states rt hc scope ([first] @ more) s" "scope_covered rt hc rd scope ([first] @ more)"
        using verify_loop_sound [OF loop, unfolded verify_post_def, rule_format, of "[first]" s] assms(1) start(1) chain none y
        by (auto simp: generation_id_of_def)
      define r where "r = (case c2 of None \<Rightarrow> Inl Panicked | Some cached \<Rightarrow> finish_report rd scope first s cached)"
      have v: "verify_with_report rt hc rd scope = Some r" using pin Inr loop y by (simp add: verify_with_report_def r_def)
      have "fst (reader_pin rt rd (Some [])) = Inr (hd ([first] @ more)) \<and> snapshots_checked rt hc rd scope ([first] @ more) (vs_snapshots s)
         \<and> vr_scope report = scope \<and> vr_completed report \<and> vr_anchor report = anchor (hd ([first] @ more))
         \<and> unat (vr_generations_checked report) = length ([first] @ more) \<and> vr_snapshots_checked report = u64_of_usize (card (vs_snapshots s))"
        if "r = Inr report" for report
      proof -
        obtain cached where cached: "c2 = Some cached" "finish_report rd scope first s cached = Inr report"
          using \<open>r = Inr report\<close> by (cases c2) (auto simp: r_def)
        note fin = finish_report_Inr [OF cached(2) assms(1) m(1) [unfolded cached(1)]]
        have "snapshots_checked rt hc rd scope ([first] @ more) (vs_snapshots s)"
          using m(4) visited_checked [OF _ conjunct1 [OF fin]] unfolding snapshots_checked_def verified_states_def list_ex_iff by blast
        moreover have "unat (vs_generations s) = length ([first] @ more)" using m(4) unfolding verified_states_def by blast
        ultimately show ?thesis using fin pin Inr by simp
      qed
      then show ?thesis using v m(2,3,5) by blast
    qed
  qed
qed

section \<open>Verifying the sample table\<close>

definition hist_calls :: history_calls where
  "hist_calls =
     \<lparr>hc_added_files = (\<lambda>_ _. Inr []), hc_snapshots_at = (\<lambda>_ _. Inr []), hc_snapshot_ids = (\<lambda>_ _. Inr []),
      hc_file_rows = (\<lambda>_ _. Inr []), hc_meta_state = (\<lambda>_. Inr []), hc_replay = rep_calls\<rparr>"

lemma tbl_has_table: "has_table tbl_store"
  by (simp add: has_table_def tbl_store_facts head_key_def)

lemma tbl_reader_ok: "reader_ok (store_reader tbl_runtime tbl_store)"
  by (auto simp: reader_ok_def store_reader_def fst_mem_read tbl_store_facts tbl_bytes_def sample_image_facts usize_bound_def
      split: option.splits if_splits)

lemma tbl_decodes_ids: "decodes_ids tbl_runtime"
  by (simp add: decodes_ids_def tbl_runtime_def tbl_generation_def sample_resolved_generation_def sample_generation_def sample_id_ok)

lemma tbl_head_read:
  "rd_read (store_reader tbl_runtime tbl_store) (RelativeUri head_key)
     = Inr \<lparr>so_bytes = tbl_bytes, so_version = content_version sample_externals tbl_bytes\<rparr>"
  by (simp add: store_reader_def fst_mem_read tbl_store_facts head_key_def)

theorem select_metadata_correct_witness:
  "\<exists>pm c'. select_metadata tbl_runtime (store_reader tbl_runtime tbl_store) (TableVersion 3) None = Some (Inr pm, c')
    \<and> h_table_version (pt_head (pm_state pm)) = 3 \<and> ha_table_id (pm_anchor pm) = sample_id"
proof -
  let ?rd = "store_reader tbl_runtime tbl_store"
  have head: "rt_head_json tbl_runtime tbl_bytes = Inr tbl_head" by (simp add: tbl_runtime_def)
  have pin: "reader_pin tbl_runtime ?rd None = (Inr tbl_pinned, None)"
    using tbl_loads [OF tbl_has_table] tbl_head_read by (simp add: reader_pin_def io_bind_def io_protocol_def io_of_def head_key_uri lift_def tbl_json head)
  have v: "h_table_version (pt_head tbl_pinned) = 3" "h_table_id (pt_head tbl_pinned) = sample_id" by (simp_all add: tbl_pinned_def tbl_head_def)
  obtain r c' where r: "select_metadata tbl_runtime ?rd (TableVersion 3) None = Some (r, c')"
    and post: "\<forall>pm. r = Inr pm \<longrightarrow> (\<exists>states. fst (reader_pin tbl_runtime ?rd None) = Inr (hd states) \<and> pm_anchor pm = anchor (hd states)
      \<and> h_table_version (pt_head (pm_state pm)) = 3)"
    using select_metadata_correct [OF tbl_reader_ok _ tbl_decodes_ids, of None "TableVersion 3"] by (force simp: cache_ok_def)
  have "\<exists>pm. r = Inr pm" using r by (auto simp: select_metadata_def pin Let_def anchor_def v select_loop.simps)
  then obtain pm where pm: "r = Inr pm" by blast
  then have "h_table_version (pt_head (pm_state pm)) = 3" "pm_anchor pm = anchor tbl_pinned" using post pin by auto
  then show ?thesis using r pm v by (intro exI [of _ pm] exI [of _ c']) (simp add: anchor_def)
qed

text \<open>With a cache the pin is the same, and the cache holds the commit, the generation and the checkpoint.\<close>

lemma tbl_resolves_cached:
  assumes "bt_get m ''k'' = None"
  shows "resolve_generation (store_reader tbl_runtime tbl_store) tbl_generation (Some m) =
     (Inr \<lparr>rg_checkpoint = sample_stored, rg_bytes = sample_image_bytes, rg_tree = None\<rparr>,
      Some (bt_insert ''k'' \<lparr>vm_object = sample_stored, vm_sha256 = digest sample_externals sample_image_bytes\<rparr> m))"
proof -
  let ?rd = "store_reader tbl_runtime tbl_store"
  have read: "rd_read ?rd (RelativeUri ''k'') = Inr sample_stored"
    using tbl_has_table by (simp add: store_reader_def fst_mem_read has_table_def sample_stored_def)
  have rd: "rd_ext ?rd = sample_externals" "rd_query ?rd = (\<lambda>_. Inr (id_as_bytes sample_id, 3, 4096, 1))" "rd_reserve ?rd = (\<lambda>_. True)"
    by (simp_all add: store_reader_def) (simp_all add: tbl_runtime_def)
  have one: "u64_of_usize (Suc 0) = 1" "u64_of_usize 4096 = 4096" "u64_of_usize 0 = 0" by (simp_all add: u64_of_usize_def)
  have header: "u64_from_u32 (u32_from_be_bytes [0, 0, 0, 1]) = 1"
    by (simp add: u32_from_be_bytes_def be_val_def u64_from_u32_def)
  have add: "checked_add (1 :: u64) 1 = Some 2" by (simp add: checked_add_def)
  have g: "g_metadata_image tbl_generation = sample_image" "g_table_id tbl_generation = sample_id" "g_table_version tbl_generation = 3"
    by (simp_all add: tbl_generation_def sample_resolved_generation_def sample_generation_def)
  have "resolve_checkpoint ?rd tbl_generation (Some m) =
      (Inr sample_stored, Some (bt_insert ''k'' \<lparr>vm_object = sample_stored, vm_sha256 = digest sample_externals sample_image_bytes\<rparr> m))"
    using assms
    by (simp add: resolve_checkpoint_def Let_def read rd g)
      (simp add: sample_image_def io_bind_def read_metadata_def verified_read_def read rd g sample_stored_def sample_image_facts one lift_def
        verify_checkpoint_index_def io_return_def io_of_def)
  then show ?thesis
    by (simp add: resolve_generation_def Let_def io_bind_def rd g)
      (simp add: sample_image_def sample_stored_def sample_image_facts io_or_def io_of_def usize_checked_mul_def usize_bound_def
        io_bind_def rd g resolve_tree_def io_return_def io_some_def one add copy_at_def header lift_def)
qed

lemma tbl_pins_cached:
  "reader_pin tbl_runtime (store_reader tbl_runtime tbl_store) (Some []) = (Inr tbl_pinned, Some
     (let o' = \<lparr>so_bytes = tbl_bytes, so_version = content_version sample_externals tbl_bytes\<rparr> in
      [(''c'', \<lparr>vm_object = o', vm_sha256 = or_sha256 (tbl_reference ''c'' COMMIT_MEDIA_TYPE)\<rparr>),
       (''g'', \<lparr>vm_object = o', vm_sha256 = or_sha256 (tbl_reference ''g'' GENERATION_MEDIA_TYPE)\<rparr>),
       (''k'', \<lparr>vm_object = sample_stored, vm_sha256 = digest sample_externals sample_image_bytes\<rparr>)]))"
proof -
  let ?rd = "store_reader tbl_runtime tbl_store"
  let ?o = "\<lparr>so_bytes = tbl_bytes, so_version = content_version sample_externals tbl_bytes\<rparr>"
  let ?v = "\<lambda>k m. \<lparr>vm_object = ?o, vm_sha256 = or_sha256 (tbl_reference k m)\<rparr>"
  have read: "read_metadata ?rd (tbl_reference k md) (Some m) = (Inr ?o, Some (bt_insert k (?v k md) m))"
    if "k \<in> {''c'', ''g''}" "bt_get m k = None" for k m md
    using tbl_has_table that
    by (auto simp: read_metadata_def verified_read_def store_reader_def fst_mem_read has_table_def tbl_reference_def lift_def)
  have refs: "h_semantic_commit tbl_head = tbl_reference ''c'' COMMIT_MEDIA_TYPE"
    "h_metadata_generation tbl_head = tbl_reference ''g'' GENERATION_MEDIA_TYPE" by (simp_all add: tbl_head_def)
  have feats: "validate_head_features tbl_head = Inr ()"
    by (simp add: validate_head_features_def head_validate_def tbl_head_def require_supported_def tbl_reference_def)
  have typed: "rt_commit_json tbl_runtime bs = Inr tbl_commit" "rt_generation_json tbl_runtime bs = Inr tbl_generation"
    "rt_wire tbl_runtime = tbl_wire" "rt_db tbl_runtime = tbl_database" for bs
    by (simp_all add: tbl_runtime_def)
  have "utf8_valid tbl_bytes" by code_simp
  then have "canonical_text tbl_wire bad v = Inr (string_of_bytes tbl_bytes)" for bad v
    by (simp add: canonical_text_def json_vec_def to_vec_def tbl_to_value tbl_encode)
  then have img: "check_pin_image tbl_runtime tbl_head tbl_commit bs = Inr None" for bs
    by (simp add: check_pin_image_def typed) (simp add: tbl_database_def query_optional_id_def)
  have head: "rt_head_json tbl_runtime tbl_bytes = Inr tbl_head" by (simp add: tbl_runtime_def)
  have c: "read_metadata ?rd (tbl_reference ''c'' COMMIT_MEDIA_TYPE) (Some []) = (Inr ?o, Some [(''c'', ?v ''c'' COMMIT_MEDIA_TYPE)])"
    using read [of "''c''" "[]"] by (simp add: bt_get_def)
  have gd: "read_metadata ?rd (tbl_reference ''g'' GENERATION_MEDIA_TYPE) (Some [(''c'', ?v ''c'' COMMIT_MEDIA_TYPE)])
      = (Inr ?o, Some (bt_insert ''g'' (?v ''g'' GENERATION_MEDIA_TYPE) [(''c'', ?v ''c'' COMMIT_MEDIA_TYPE)]))"
    using read [of "''g''"] by (simp add: bt_get_def)
  have dg: "read_metadata ?rd (tbl_reference ''g'' GENERATION_MEDIA_TYPE) (Some [])
      = (Inr ?o, Some [(''g'', ?v ''g'' GENERATION_MEDIA_TYPE)])"
    using read [of "''g''" "[]"] by (simp add: bt_get_def)
  have ck: "bt_get (bt_insert ''g'' y [(''c'', z)]) ''k'' = None" for y z
    by (simp add: bt_get_def)
  note res = tbl_resolves_cached [OF ck]
  from res show ?thesis
    by (simp add: reader_pin_def io_bind_def io_protocol_def io_of_def head_key_uri lift_def tbl_json head tbl_head_read load_pin_def
        feats refs c gd dg typed load_pin_objects_def tbl_checked img io_return_def tbl_pinned_def Let_def)
qed

theorem verify_with_report_correct_witness:
  "\<exists>report. verify_with_report tbl_runtime hist_calls (store_reader tbl_runtime tbl_store) CurrentScope = Some (Inr report)
    \<and> vr_completed report \<and> unat (vr_generations_checked report) = 1 \<and> vr_objects_checked report = 4"
proof -
  let ?rd = "store_reader tbl_runtime tbl_store"
  obtain m where pin: "reader_pin tbl_runtime ?rd (Some []) = (Inr tbl_pinned, Some m)" and lens: "length m = 3"
    "map (\<lambda>(_, v). u64_of_usize (length (so_bytes (vm_object v)))) m = [2, 2, 4096]"
    using tbl_pins_cached by (auto simp: Let_def tbl_bytes_def sample_stored_def sample_image_facts u64_of_usize_def)
  then obtain a b d where m: "m = [a, b, d]" "u64_of_usize (length (so_bytes (vm_object (snd a)))) = 2"
    "u64_of_usize (length (so_bytes (vm_object (snd b)))) = 2" "u64_of_usize (length (so_bytes (vm_object (snd d)))) = 4096"
    by (auto simp: length_Suc_conv numeral_3_eq_3 case_prod_unfold)
  let ?s = "\<lparr>vs_generations = 0, vs_visited = {g_generation_id (pt_generation tbl_pinned)}, vs_commits = {}, vs_snapshots = {}, vs_files = []\<rparr>"
  have add: "checked_add (0 :: u64) 1 = Some 1" "checked_add (1 :: u64) 3 = Some 4" "checked_add (0 :: u64) 2 = Some 2"
    "checked_add (2 :: u64) 2 = Some 4" "checked_add (4 :: u64) 4096 = Some 4100" "checked_add (2 :: u64) 4100 = Some 4102"
    by (simp_all add: checked_add_def)
  have "collect_snapshot_files tbl_runtime hist_calls tbl_pinned CurrentScope {} [] = Inr ({}, [])"
    by (simp add: collect_snapshot_files_def Let_def hist_calls_def) (simp add: tbl_runtime_def tbl_database_def)
  then have loop: "verify_loop tbl_runtime hist_calls ?rd CurrentScope tbl_pinned ?s (Some m)
      = Some (Inr (?s\<lparr>vs_generations := 1, vs_commits := {sc_commit_id (pt_commit tbl_pinned)}\<rparr>), Some m)"
    by (simp add: verify_loop.simps verify_turn_def io_bind_def io_some_def add io_of_def io_return_def lift_def)
  have "length (pt_raw_head tbl_pinned) = 2" by (simp add: tbl_pinned_def tbl_bytes_def)
  then have "\<exists>report. verify_with_report tbl_runtime hist_calls ?rd CurrentScope = Some (Inr report) \<and> vr_objects_checked report = 4"
    using m(2-4) loop [unfolded m(1)] pin [unfolded m(1)] by (simp add: verify_with_report_def finish_report_def add case_prod_unfold u64_of_usize_def)
  then obtain report where report: "verify_with_report tbl_runtime hist_calls ?rd CurrentScope = Some (Inr report)" "vr_objects_checked report = 4"
    by blast
  then obtain states where "scope_covered tbl_runtime hist_calls ?rd CurrentScope states" "vr_completed report"
    "unat (vr_generations_checked report) = length states"
    using verify_with_report_correct [OF tbl_reader_ok tbl_decodes_ids, of hist_calls CurrentScope] by auto
  then show ?thesis using report by (simp add: scope_covered_def)
qed

section \<open>The files of a snapshot\<close>

lemma collect_concat:
  "try_fold (\<lambda>fs i. and_then (f i) (\<lambda>gs. Inr (fs @ gs))) acc xs = Inr r \<longleftrightarrow> (\<exists>gss. map f xs = map Inr gss \<and> r = acc @ concat gss)"
proof (induction xs arbitrary: acc)
  case (Cons x xs)
  show ?case
  proof
    assume "try_fold (\<lambda>fs i. and_then (f i) (\<lambda>gs. Inr (fs @ gs))) acc (x # xs) = Inr r"
    then obtain gs gss where "f x = Inr gs" "map f xs = map Inr gss" "r = (acc @ gs) @ concat gss"
      by (auto simp: and_then_eq_Inr Cons.IH)
    then show "\<exists>gss. map f (x # xs) = map Inr gss \<and> r = acc @ concat gss" by (intro exI [of _ "gs # gss"]) simp
  next
    assume "\<exists>gss. map f (x # xs) = map Inr gss \<and> r = acc @ concat gss"
    then obtain gs gss where "f x = Inr gs" "map f xs = map Inr gss" "r = acc @ gs @ concat gss"
      by (auto simp: Cons_eq_map_conv)
    moreover from this have "try_fold (\<lambda>fs i. and_then (f i) (\<lambda>gs. Inr (fs @ gs))) (acc @ gs) xs = Inr r" unfolding Cons.IH by auto
    ultimately show "try_fold (\<lambda>fs i. and_then (f i) (\<lambda>gs. Inr (fs @ gs))) acc (x # xs) = Inr r" by simp
  qed
qed auto

text \<open>
  C35: the files of a snapshot. They are listed exactly when the image opens and the parents of the snapshot form one chain with strictly falling
  sequence numbers, no snapshot twice, and the rows of every snapshot on it decode; the list has the files added by these snapshots,
  each as often as it was added, and none other, in order of sequence number and then of identifier. No snapshot
  has no files.
\<close>

theorem snapshot_files_iff:
  "snapshot_files rt hc rs = Inr fs \<longleftrightarrow>
     (\<exists>cn chain added. db_open (rt_db rt) (pt_resolved (rs_state rs)) = Inr cn
        \<and> lineage cn (map_option sd_snapshot_id (rs_descriptor rs)) (- 1) chain \<and> distinct chain
        \<and> map (added_files rt hc (pt_resolved (rs_state rs))) chain = map Inr added
        \<and> fs = sort_key live_order (concat added) \<and> mset fs = mset (concat added) \<and> sorted (map live_order fs)
        \<and> (chain = [] \<longleftrightarrow> rs_descriptor rs = None))" (is "_ \<longleftrightarrow> ?thesis_rhs")
proof -
  have none: "lineage cn (map_option sd_snapshot_id d) b chain \<Longrightarrow> chain = [] \<longleftrightarrow> d = None" for cn d b chain
    by (cases d; cases chain) auto
  have "snapshot_files rt hc rs = Inr fs \<longleftrightarrow>
     (\<exists>cn chain added. db_open (rt_db rt) (pt_resolved (rs_state rs)) = Inr cn
        \<and> lineage cn (map_option sd_snapshot_id (rs_descriptor rs)) (- 1) chain
        \<and> map (added_files rt hc (pt_resolved (rs_state rs))) chain = map Inr added
        \<and> fs = sort_key live_order (concat added))"
    unfolding snapshot_files_def Let_def and_then_eq_Inr ancestry_lineage collect_concat by auto
  also have "\<dots> \<longleftrightarrow> ?thesis_rhs"
    by (intro ex_cong1 conj_cong refl iffI) (auto dest: lineage_distinct none)
  finally show ?thesis .
qed

end
