(* ===== verification/Spec2Isabelle.thy ===== *)
theory Spec2Isabelle
  imports Overlay History
begin

text \<open>
  Verification of OTMP, a protocol that keeps the metadata of a table as immutable objects and one mutable head.

  \<^bold>\<open>The program.\<close> A table is a head object that names a semantic commit and a metadata generation. The generation names
  a metadata image: a checkpoint of an SQL database file, an index of its pages, and a map of the pages that
  changed since, whose payloads lie in page packs. A writer pins the head, checks its request against the pinned image,
  writes a new image on top of the pinned one, uploads the new immutable objects and then replaces the head by one
  conditional write. Readers pin a head, verify every object it names and rebuild the image.

  \<^bold>\<open>Theories and sources.\<close>
  \<^item> \<open>Prelude\<close>, \<open>Text_Forms\<close>: machine integers, checked arithmetic, results with early return, ordered maps (locale
    \<open>ordered_map\<close>), UTF-8, decimal and hexadecimal texts.
  \<^item> \<open>Values\<close> (\<^verbatim>\<open>otmp-protocol/src/value.rs\<close>, \<^verbatim>\<open>error.rs\<close>): identifiers, digests, JSON integers, relative URIs, feature sets,
    typed scalars. \<open>Hashes\<close> (\<^verbatim>\<open>hash.rs\<close>): domain-separated digests. \<open>Schema_Types\<close> (\<^verbatim>\<open>types.rs\<close>): logical schemas, their derived
    equality (\<open>field_eq\<close>, in which floats compare as numbers) and the positions of nested fields (\<open>field_at\<close>).
  \<^item> \<open>Cbor\<close>, \<open>Page_Map\<close>, \<open>Checkpoint_Index\<close>, \<open>Page_Pack\<close> (the files of those names): the binary forms. The locale
    \<open>cbor_codec\<close> is the contract of an encoder with its decoder and is interpreted on every pair of the source.
  \<^item> \<open>Canonical_Json\<close> (\<^verbatim>\<open>canonical_json.rs\<close>), \<open>Objects\<close> (\<^verbatim>\<open>objects.rs\<close>), \<open>Object_Json\<close>: the JSON objects, their validation and
    their serialized forms.
  \<^item> \<open>Storage\<close> (\<^verbatim>\<open>otmp/src/storage.rs\<close>, \<^verbatim>\<open>error.rs\<close>): the object store in memory. The locale \<open>object_store\<close> is the contract
    that the runtime relies on.
  \<^item> \<open>Page_Tree\<close>, \<open>Image_Resolve\<close> (\<^verbatim>\<open>physical.rs\<close>), \<open>Checkpoint_Build\<close> (\<^verbatim>\<open>otmp/src/checkpoint_index.rs\<close>): writing the page map of
    an image, reading an image back, and building the index of a checkpoint.
  \<^item> \<open>Overlay\<close> (\<^verbatim>\<open>cow_writer.rs\<close>): the copy-on-write file under the SQL engine (locale \<open>storage_refinement\<close>).
  \<^item> \<open>Transactions\<close> (\<^verbatim>\<open>runtime/transactions.rs\<close>): requirements, additive schemas, the operation matrix.
  \<^item> \<open>Publication\<close>, \<open>Exactly_Once\<close> (\<^verbatim>\<open>runtime.rs\<close>): pinning and publishing. The world is the store with the schedule of
    other clients between any two calls (locale \<open>foreign_steps\<close>).
  \<^item> \<open>Candidate\<close> (\<^verbatim>\<open>finish_candidate\<close>, \<^verbatim>\<open>PreparedTransaction\<close>) and \<open>Append\<close> (\<^verbatim>\<open>append_files\<close>, \<^verbatim>\<open>build_candidate\<close>): the
    objects of a transaction and of an append.
  \<^item> \<open>Genesis\<close> (\<^verbatim>\<open>Table::initialize\<close>): the objects of a new table and the creation of its head.
  \<^item> \<open>Replay\<close> (\<^verbatim>\<open>replay_genesis\<close>, \<^verbatim>\<open>replay_append\<close>, \<^verbatim>\<open>replay_semantic_commit\<close>, \<^verbatim>\<open>validate_transition\<close> of \<^verbatim>\<open>image.rs\<close>): the image a
    commit leads to, as the verifier recomputes it.
  \<^item> \<open>History\<close> (\<^verbatim>\<open>runtime/history.rs\<close>): older versions, snapshots and their files, verification of a table and its history.

  \<^bold>\<open>What is shown.\<close> Codecs: decoders accept exactly what the encoders write, and accepted data is ordered, inside
  its bounds and free of wrap-around. Values and objects: texts are canonical, URIs stay below their root, validation accepts
  the declarative description. Images: the page map of a commit holds the pages of the parent with the changes, refers to
  uploaded objects only, and resolving a generation returns exactly the image that was named: every node, pack and checkpoint is the object
  the store holds at the URI of its reference, with its digest and length (\<open>read_as\<close>), and every page has the hash of its entry. Storage: objects are
  immutable and a head version has one winner. Publication: at most one head write of a request takes effect under every
  interleaving and every pattern of lost answers, a success is recorded, a definite error wrote nothing, heads name objects
  that are stored. Transactions and appends: effects are guarded by requirements that hold, an additive schema keeps every old field at its position,
  candidates are tables that readers accept, an append is validated and moved exactly under the stated conditions. Creation: at most one genesis takes effect and
  its objects pass the readers' checks. Replay: the verifier recovers from a genesis, an append or a metadata transaction exactly the values
  the writer used; for an append the deserializer of the written operation is modelled member by member. History: a selected version lies on the authentic chain below the head, and a verification report certifies
  the chain, its snapshots and files, each at its own path in the store, and the commits back to the genesis.

  \<^bold>\<open>Errors and effects.\<close> A Rust \<^verbatim>\<open>Result\<close> is a sum with the error on the left; a panic is the value \<open>Panicked\<close>. Stateful code passes its
  state explicitly. Code that the repository does not hold is an argument: the digest and the text
  forms of the standard library (\<open>externals\<close>), the JSON reader and printer (\<open>serde\<close>), the SQL engine (\<open>database\<close>,
  \<open>connection\<close>), fresh identifiers and the clock (\<open>fresh\<close>). What is assumed of it stands as a hypothesis of the theorem, and a
  witness gives an instance. Of the JSON crate the round trips assume, for the value at hand, that its printer writes the compact text
  (\<open>json_faithful\<close>), that its tokenizer calls the visitor in the order of that text (\<open>reads_compact\<close>), and that a
  derived deserializer takes the members it is declared with (\<open>derived_faithful\<close>); reading the calls into a value, checking the
  number tokens and comparing the canonical bytes are the repository's own code and are proved.

  \<^bold>\<open>Loops and bounds.\<close> Loops are recursive functions with a termination proof. The loop that joins page-map roots is a
  partial function, and \<open>persist_returns\<close> shows that it returns. The publication loops end because their 32-bit counters
  grow and an overflow panics; \<open>publish_attempts_bounded\<close> gives the number of head writes by the retry policy. No definition takes
  fuel. Lengths are natural numbers below the bound of \<^verbatim>\<open>usize\<close>; 32- and 64-bit
  integers are words. The walks over the generations, \<open>select_loop\<close> and \<open>verify_loop\<close>, are partial functions as well; they return because
  each step visits a new identifier of 16 bytes.

  \<^bold>\<open>Not modelled.\<close> The SQL statements of \<^verbatim>\<open>image.rs\<close> and \<^verbatim>\<open>sql_writer.rs\<close> and the engine's reader callbacks
  (\<^verbatim>\<open>reader\<close>, \<^verbatim>\<open>reader_engine.rs\<close>) run inside an external engine. \<^verbatim>\<open>LocalObjectStore\<close> and \<^verbatim>\<open>otmp-s3\<close> are calls to a file
  system and a service; the in-memory store is the model of their contract. \<^verbatim>\<open>otmp-datafusion\<close>, \<^verbatim>\<open>otmp-cli\<close> and the
  qualification programs are glue and measurements.
\<close>

end
